(* ===== verification/Prelude.thy ===== *)
theory Prelude
  imports Main "HOL-Library.Word" "HOL-Library.Signed_Division"
begin

unbundle bit_operations_syntax

text \<open>
  The shared ground of the development: the machine types of the C sources, the big-endian
  byte codecs every wire format is built from, generic facts about fixed arrays modelled as
  lists, and the interfaces (locales) that several components implement.

  Unsigned C integers keep their width as words, so that \<open>+\<close>, \<open>-\<close> and \<open>++\<close> wrap
  as in C and \<open><\<close> is the unsigned comparison. A fixed array is a list whose length is part of
  the owner's invariant; a byte string in the sense of \<open>strlen\<close> is a list of non-zero bytes.
\<close>

section \<open>Machine types\<close>

type_synonym byte = "8 word"
type_synonym u16 = "16 word"
type_synonym u32 = "32 word"
type_synonym u64 = "64 word"

text \<open>Collections of rewrite rules: well-formedness of arrays, and codec round trips.\<close>

named_theorems wf_simps
named_theorems codec_simps

section \<open>Big-endian codecs\<close>

text \<open>\<open>put16\<close>/\<open>get16\<close> of token.c.\<close>

definition put16 :: "u16 \<Rightarrow> byte list" where
  "put16 v = [ucast (drop_bit 8 v), ucast v]"

definition get16 :: "byte list \<Rightarrow> u16" where
  "get16 p = (push_bit 8 (ucast (p ! 0)) OR ucast (p ! 1))"

text \<open>\<open>put32\<close>/\<open>get32\<close> of rdv.c.\<close>

definition put32 :: "u32 \<Rightarrow> byte list" where
  "put32 v = [ucast (drop_bit 24 v), ucast (drop_bit 16 v), ucast (drop_bit 8 v), ucast v]"

definition get32 :: "byte list \<Rightarrow> u32" where
  "get32 p = (push_bit 24 (ucast (p ! 0)) OR push_bit 16 (ucast (p ! 1)) OR
              push_bit 8 (ucast (p ! 2)) OR ucast (p ! 3))"

text \<open>\<open>put_u64\<close>/\<open>get_u64\<close> of dataauth.c, one loop iteration per byte.\<close>

definition put_u64 :: "u64 \<Rightarrow> byte list" where
  "put_u64 v = map (\<lambda>i. ucast (drop_bit (56 - 8 * i) v)) [0..<8]"

definition get_u64 :: "byte list \<Rightarrow> u64" where
  "get_u64 p = foldl (\<lambda>v b. push_bit 8 v OR ucast b) 0 (take 8 p)"

lemma length_put16 [simp, wf_simps]: "length (put16 v) = 2"
  by (simp add: put16_def)

lemma length_put32 [simp, wf_simps]: "length (put32 v) = 4"
  by (simp add: put32_def)

lemma length_put_u64 [simp, wf_simps]: "length (put_u64 v) = 8"
  by (simp add: put_u64_def)

text \<open>Appending a low byte: the step every big-endian reader takes.\<close>

lemma byte_snoc:
  "push_bit 8 (drop_bit 8 x) OR ucast (ucast x :: byte) = (x :: 'a :: len word)"
  by (rule bit_word_eqI) (auto simp: bit_simps)

lemma drop_bit_byte_step:
  "push_bit 8 (drop_bit (8 + k) x) OR ucast (ucast (drop_bit k x) :: byte) =
   drop_bit k (x :: 'a :: len word)"
  using byte_snoc [of "drop_bit k x"] by simp

lemma drop_bit_all [simp]: "LENGTH('a) \<le> k \<Longrightarrow> drop_bit k (x :: 'a :: len word) = 0"
  by (rule bit_word_eqI) (auto simp: bit_simps)

lemma get16_fold: "get16 (a # b # r) = foldl (\<lambda>v b. push_bit 8 v OR ucast b) 0 [a, b]"
  by (simp add: get16_def)

lemma get32_fold:
  "get32 (a # b # c # d # r) = foldl (\<lambda>v b. push_bit 8 v OR ucast b) 0 [a, b, c, d]"
  by (simp add: get32_def numeral_2_eq_2 numeral_3_eq_3 or.assoc)

lemma get16_put16 [simp, codec_simps]: "get16 (put16 v @ r) = v"
  using drop_bit_byte_step [of 8 v] drop_bit_byte_step [of 0 v]
  by (simp add: put16_def get16_fold)

lemma get32_put32 [simp, codec_simps]: "get32 (put32 v @ r) = v"
  using drop_bit_byte_step [of 24 v] drop_bit_byte_step [of 16 v]
    drop_bit_byte_step [of 8 v] drop_bit_byte_step [of 0 v]
  by (simp add: put32_def get32_fold)

lemma upt8: "[0..<8] = [0, 1, 2, 3, 4, 5, 6, 7::nat]"
  by (simp add: upt_rec)

lemma get_u64_put_u64 [simp, codec_simps]: "get_u64 (put_u64 v @ r) = v"
  using drop_bit_byte_step [of 56 v] drop_bit_byte_step [of 48 v]
    drop_bit_byte_step [of 40 v] drop_bit_byte_step [of 32 v]
    drop_bit_byte_step [of 24 v] drop_bit_byte_step [of 16 v]
    drop_bit_byte_step [of 8 v] drop_bit_byte_step [of 0 v]
  by (simp add: get_u64_def put_u64_def upt8)

lemma bytes_hi [simp]:
  "(ucast (drop_bit 8 (push_bit 8 (ucast a) OR ucast b :: u16)) :: byte) = a"
  "(ucast (push_bit 8 (ucast a) OR ucast b :: u16) :: byte) = b"
  by (rule bit_word_eqI, auto simp: bit_simps dest: bit_imp_le_length)+

lemma put16_get16: "length p = 2 \<Longrightarrow> put16 (get16 p) = p"
  using bytes_hi
  by (auto simp: put16_def get16_def length_Suc_conv numeral_2_eq_2 simp del: drop_bit_or)

lemma bytes_32:
  fixes a b c d :: byte
  defines "v \<equiv> (push_bit 24 (ucast a) OR push_bit 16 (ucast b) OR push_bit 8 (ucast c) OR ucast d :: u32)"
  shows "(ucast (drop_bit 24 v) :: byte) = a" "(ucast (drop_bit 16 v) :: byte) = b"
    "(ucast (drop_bit 8 v) :: byte) = c" "(ucast v :: byte) = d"
  unfolding v_def
  by (rule bit_word_eqI; use bit_imp_le_length in \<open>fastforce simp: bit_simps\<close>)+

lemma put32_get32: "length p = 4 \<Longrightarrow> put32 (get32 p) = p"
  using bytes_32
  by (auto simp: put32_def get32_def length_Suc_conv eval_nat_numeral simp del: drop_bit_or)

lemma put32_get32_drop:
  "k + 4 \<le> length raw \<Longrightarrow> put32 (get32 (drop k raw)) = take 4 (drop k raw)"
  using put32_get32 [of "take 4 (drop k raw)"] by (simp add: get32_def)

lemma put16_get16_drop:
  "k + 2 \<le> length raw \<Longrightarrow> put16 (get16 (drop k raw)) = take 2 (drop k raw)"
  using put16_get16 [of "take 2 (drop k raw)"] by (simp add: get16_def)

lemma take_join: "take n xs @ take m (drop n xs) @ ys = take (n + m) xs @ ys"
  by (simp add: take_add)

lemma xor_right_cancel [simp]: "(a XOR c = b XOR c) \<longleftrightarrow> a = b" for a b c :: "'a :: len word"
  by (metis xor.assoc xor_self_eq xor.right_neutral)

lemma xor_left_cancel [simp]: "(c XOR a = c XOR b) \<longleftrightarrow> a = b" for a b c :: "'a :: len word"
  by (metis xor.commute xor_right_cancel)

lemma xor_eq_0: "a XOR b = 0 \<longleftrightarrow> a = b" for a b :: "'a :: len word"
  using xor_right_cancel [of a b b] by simp

text \<open>The bits of a big-endian reading, and with them the way back for eight bytes.\<close>

lemma bit_be_fold:
  fixes p :: "byte list"
  shows "length p \<le> 8 \<Longrightarrow> bit (foldl (\<lambda>v b. push_bit 8 v OR ucast b) 0 p :: u64) m \<longleftrightarrow>
    m < 8 * length p \<and> bit (p ! (length p - 1 - m div 8)) (m mod 8)"
proof (induction p arbitrary: m rule: rev_induct)
  case (snoc b p)
  show ?case
  proof (cases "m < 8")
    case True
    then show ?thesis using snoc.prems by (simp add: bit_simps nth_append)
  next
    case False
    then obtain k where k: "m = k + 8" by (metis add.commute le_Suc_ex not_less)
    have "\<not> bit b m" using False by (auto dest: bit_imp_le_length)
    moreover have "length p - Suc (k div 8) < length p \<and> length p - Suc (k div 8) = length p - 1 - k div 8"
      if "k < 8 * length p" using that by linarith
    ultimately show ?thesis
      using snoc.IH [of k] snoc.prems div_add_self2 [of 8 k]
      by (auto simp: k bit_simps nth_append)
  qed
qed simp

lemma put_u64_get_u64:
  assumes "length p = 8"
  shows "put_u64 (get_u64 p) = p"
proof (rule nth_equalityI)
  show "length (put_u64 (get_u64 p)) = length p" using assms by simp
  fix i
  assume "i < length (put_u64 (get_u64 p))"
  then have i: "i < 8" by simp
  have "bit (put_u64 (get_u64 p) ! i) n = bit (p ! i) n" if n: "n < 8" for n
  proof -
    have "56 - 8 * i = 8 * (7 - i)" by simp
    then have "8 - Suc ((56 - 8 * i + n) div 8) = i" "(56 - 8 * i + n) mod 8 = n"
      "56 - 8 * i + n < 64"
      using i n by simp_all
    then show ?thesis
      using i n assms bit_be_fold [of p "56 - 8 * i + n"]
      by (simp add: put_u64_def get_u64_def bit_simps)
  qed
  then show "put_u64 (get_u64 p) ! i = p ! i" by (intro bit_word_eqI) simp
qed

lemma and_1_bit: "x AND 1 = (if bit x 0 then 1 else 0)" for x :: "'a :: len word"
  by (simp add: and_one_eq bit_0 mod_2_eq_odd)

text \<open>Testing one bit of a word.\<close>

lemma and_push_bit_1: "(s AND push_bit n 1 \<noteq> 0) = bit s n" for s :: "'a :: len word"
proof
  assume "s AND push_bit n 1 \<noteq> 0"
  then obtain m where "bit (s AND push_bit n 1) m"
    by (metis bit_word_eqI bit_0_eq bot_apply bot_bool_def)
  then show "bit s n" by (auto simp: bit_simps)
next
  assume "bit s n"
  moreover from this have "n < LENGTH('a)" by (rule bit_imp_le_length)
  ultimately have "bit (s AND push_bit n 1) n" by (simp add: bit_simps)
  then show "s AND push_bit n 1 \<noteq> 0" by auto
qed

lemma and_exp: "(s AND 2 ^ n \<noteq> 0) = bit s n" for s :: "'a :: len word"
  using and_push_bit_1 [of s n] by simp

lemma word_less_add_1: "x \<noteq> - 1 \<Longrightarrow> x < x + 1" for x :: "'a :: len word"
  using unatSuc [of x] by (simp add: word_less_nat_alt add.commute eq_neg_iff_add_eq_0)

section \<open>Searching and updating arrays\<close>

text \<open>The first index that satisfies a test: the loop
  \<^verbatim>\<open>for (i = 0; i < N; i++) if (P(a[i])) return i;\<close>\<close>

fun find_index :: "('a \<Rightarrow> bool) \<Rightarrow> 'a list \<Rightarrow> nat option" where
  "find_index P [] = None"
| "find_index P (x # xs) = (if P x then Some 0 else map_option Suc (find_index P xs))"

lemma find_index_SomeD:
  "find_index P xs = Some i \<Longrightarrow> i < length xs \<and> P (xs ! i) \<and> (\<forall>j < i. \<not> P (xs ! j))"
  by (induction xs arbitrary: i) (auto simp: nth_Cons less_Suc_eq_0_disj split: if_splits nat.splits)

lemma find_index_None [simp]: "find_index P xs = None \<longleftrightarrow> (\<forall>x \<in> set xs. \<not> P x)"
  by (induction xs) auto

lemma find_index_ex: "x \<in> set xs \<Longrightarrow> P x \<Longrightarrow> \<exists>i. find_index P xs = Some i"
  by (metis find_index_None not_None_eq)

lemma find_index_cong:
  "length xs = length ys \<Longrightarrow> (\<And>i. i < length xs \<Longrightarrow> P (xs ! i) = Q (ys ! i)) \<Longrightarrow>
   find_index P xs = find_index Q ys"
proof (induction xs arbitrary: ys)
  case (Cons x xs)
  then obtain y ys' where ys: "ys = y # ys'" by (cases ys) auto
  have "find_index P xs = find_index Q ys'"
    using Cons ys by (metis Suc_less_eq length_Cons nat.inject nth_Cons_Suc)
  then show ?case using Cons.prems(2) [of 0] ys by simp
qed simp

text \<open>How an update of one slot changes a count over the array.\<close>

lemma count_list_update:
  "i < length xs \<Longrightarrow>
   int (length (filter P (xs[i := x]))) =
   int (length (filter P xs)) - of_bool (P (xs ! i)) + of_bool (P x)"
proof (induction xs arbitrary: i)
  case (Cons a xs)
  show ?case
  proof (cases i)
    case (Suc j)
    then show ?thesis using Cons.IH [of j] Cons.prems by simp
  qed simp
qed simp

section \<open>Scans for the best element\<close>

text \<open>The loop \<^verbatim>\<open>for (i ...) { if (!elig(i)) continue; if (best < 0 || lt(i, best)) best = i; }\<close>,
  with \<open>None\<close> for -1.\<close>

fun best_scan :: "('a \<Rightarrow> bool) \<Rightarrow> ('a \<Rightarrow> 'a \<Rightarrow> bool) \<Rightarrow> 'a option \<Rightarrow> 'a list \<Rightarrow> 'a option" where
  "best_scan elig lt best [] = best"
| "best_scan elig lt best (x # xs) =
     best_scan elig lt
       (if \<not> elig x then best
        else case best of None \<Rightarrow> Some x | Some b \<Rightarrow> if lt x b then Some x else best) xs"

text \<open>The interface: \<open>lt\<close> is a strict weak order on the elements that satisfy \<open>ok\<close>.\<close>

locale ranking =
  fixes lt :: "'a \<Rightarrow> 'a \<Rightarrow> bool" and ok :: "'a \<Rightarrow> bool"
  assumes lt_asym: "ok a \<Longrightarrow> ok b \<Longrightarrow> lt a b \<Longrightarrow> \<not> lt b a"
    and not_lt_trans: "ok a \<Longrightarrow> ok b \<Longrightarrow> ok c \<Longrightarrow> \<not> lt a b \<Longrightarrow> \<not> lt b c \<Longrightarrow> \<not> lt a c"
begin

lemma best_scan_from:
  "\<forall>x \<in> set xs. ok x \<Longrightarrow> ok b \<Longrightarrow>
   \<exists>c. best_scan elig lt (Some b) xs = Some c \<and> ok c \<and> (c = b \<or> c \<in> set xs \<and> elig c) \<and>
       \<not> lt b c \<and> (\<forall>x \<in> set xs. elig x \<longrightarrow> \<not> lt x c)"
proof (induction xs arbitrary: b)
  case Nil
  then show ?case using lt_asym [of b b] by auto
next
  case (Cons x xs)
  let ?b = "if elig x \<and> lt x b then x else b"
  have okb: "ok ?b" using Cons.prems by simp
  obtain c where c: "best_scan elig lt (Some ?b) xs = Some c" "ok c" "c = ?b \<or> c \<in> set xs \<and> elig c"
    "\<not> lt ?b c" "\<forall>y \<in> set xs. elig y \<longrightarrow> \<not> lt y c"
    using Cons.IH [OF _ okb] Cons.prems by auto
  have "\<not> lt b c"
    using c Cons.prems lt_asym [of x b] not_lt_trans [of b x c] by (cases "elig x \<and> lt x b") auto
  moreover have "elig x \<longrightarrow> \<not> lt x c"
    using c Cons.prems not_lt_trans [of x b c] by (cases "lt x b") auto
  moreover have "best_scan elig lt (Some b) (x # xs) = Some c"
    using c(1) by (auto split: if_splits)
  ultimately show ?case using c by (auto split: if_splits)
qed

lemma best_scan_least:
  assumes "\<forall>x \<in> set xs. ok x" "best_scan elig lt None xs = Some c"
  shows "c \<in> set xs \<and> elig c \<and> (\<forall>x \<in> set xs. elig x \<longrightarrow> \<not> lt x c)"
  using assms
proof (induction xs)
  case (Cons x xs)
  show ?case
  proof (cases "elig x")
    case True
    then show ?thesis
      using Cons.prems best_scan_from [of xs x elig] by auto
  next
    case False
    then show ?thesis using Cons by auto
  qed
qed simp

lemma best_scan_None: "best_scan elig lt None xs = None \<longleftrightarrow> (\<forall>x \<in> set xs. \<not> elig x)"
proof (induction xs)
  case (Cons x xs)
  have "best_scan elig lt (Some b) ys \<noteq> None" for b ys
    by (induction ys arbitrary: b) auto
  then show ?case using Cons by auto
qed simp

end

section \<open>Division of C integers\<close>

lemma sdiv_nonneg: "0 \<le> a \<Longrightarrow> 0 < b \<Longrightarrow> a sdiv b = a div b" for a b :: int
  by (cases "a = 0") (simp_all add: signed_divide_int_def)

section \<open>Decimal digits\<close>

text \<open>The digits \<open>printf\<close> writes for an unsigned number, most significant first.\<close>

fun dec_digits :: "nat \<Rightarrow> nat list" where
  "dec_digits n = (if n < 10 then [n] else dec_digits (n div 10) @ [n mod 10])"

declare dec_digits.simps [simp del]

definition show_nat :: "nat \<Rightarrow> string" where
  "show_nat n = map (\<lambda>d. char_of (48 + d)) (dec_digits n)"

section \<open>Lexicographic comparison of byte arrays\<close>

text \<open>\<open>memcmp\<close> over two arrays of the same length; only the sign of the result is meaningful
  in C, so the model returns it.\<close>

fun memcmp :: "byte list \<Rightarrow> byte list \<Rightarrow> int" where
  "memcmp (x # xs) (y # ys) = (if x < y then -1 else if y < x then 1 else memcmp xs ys)"
| "memcmp _ _ = 0"

lemma memcmp_refl [simp]: "memcmp xs xs = 0"
  by (induction xs) auto

lemma memcmp_swap: "memcmp ys xs = - memcmp xs ys"
  by (induction xs ys rule: memcmp.induct) auto

lemma memcmp_eq_0: "length xs = length ys \<Longrightarrow> memcmp xs ys = 0 \<longleftrightarrow> xs = ys"
  by (induction xs ys rule: memcmp.induct) auto

lemma memcmp_trans:
  "\<lbrakk>length xs = length ys; length ys = length zs; memcmp xs ys \<le> 0; memcmp ys zs \<le> 0\<rbrakk>
   \<Longrightarrow> memcmp xs zs \<le> 0"
proof (induction xs ys arbitrary: zs rule: memcmp.induct)
  case (1 x xs y ys)
  then show ?case by (cases zs) (auto split: if_splits)
qed auto

section \<open>Reachability and invariants\<close>

text \<open>The states a component reaches from its initial ones by its operations.\<close>

inductive reachable :: "('s \<Rightarrow> bool) \<Rightarrow> ('s \<Rightarrow> 's \<Rightarrow> bool) \<Rightarrow> 's \<Rightarrow> bool"
  for init step where
  start: "init s \<Longrightarrow> reachable init step s"
| next_state: "reachable init step s \<Longrightarrow> step s t \<Longrightarrow> reachable init step t"

text \<open>An interface for stateful components: the invariant holds initially and every operation
  keeps it, hence it holds in every reachable state.\<close>

locale invariant_system =
  fixes init :: "'s \<Rightarrow> bool"
    and step :: "'s \<Rightarrow> 's \<Rightarrow> bool"
    and inv :: "'s \<Rightarrow> bool"
  assumes inv_init: "init s \<Longrightarrow> inv s"
    and inv_step: "inv s \<Longrightarrow> step s t \<Longrightarrow> inv t"
begin

lemma reachable_inv: "reachable init step s \<Longrightarrow> inv s"
  by (induction rule: reachable.induct) (auto intro: inv_init inv_step)

end

section \<open>Filters that accept a message once\<close>

text \<open>The messages a filter accepts out of a stream, in order.\<close>

fun accepted :: "('w \<Rightarrow> 'q \<Rightarrow> bool \<times> 'w) \<Rightarrow> 'w \<Rightarrow> 'q list \<Rightarrow> 'q list" where
  "accepted accept w [] = []"
| "accepted accept w (q # qs) =
     (let (ok, w') = accept w q
      in (if ok then [q] else []) @ accepted accept w' qs)"

locale once_filter =
  fixes accept :: "'w \<Rightarrow> 'q \<Rightarrow> bool \<times> 'w"
    and key :: "'q \<Rightarrow> 'k"
    and refuses :: "'w \<Rightarrow> 'k \<Rightarrow> bool"
  assumes accept_fresh: "fst (accept w q) \<Longrightarrow> \<not> refuses w (key q)"
    and accept_records: "fst (accept w q) \<Longrightarrow> refuses (snd (accept w q)) (key q)"
    and refuses_stays: "refuses w k \<Longrightarrow> refuses (snd (accept w q)) k"
begin

lemma refused_not_accepted: "refuses w k \<Longrightarrow> k \<notin> key ` set (accepted accept w qs)"
proof (induction qs arbitrary: w)
  case (Cons q qs)
  then show ?case
    using accept_fresh [of w q] refuses_stays [of w k q]
    by (auto simp: split_beta)
qed simp

lemma distinct_accepted: "distinct (map key (accepted accept w qs))"
proof (induction qs arbitrary: w)
  case (Cons q qs)
  then show ?case
    using accept_records [of w q] refused_not_accepted [of "snd (accept w q)" "key q" qs]
    by (auto simp: split_beta)
qed simp

end

end
