(* ===== verification/Replay.thy ===== *)
theory Replay
  imports Prelude
begin

text \<open>
  replay.c and replay.h: the sliding window over a peer's sequence numbers. The operation
  \<open>replay_ok\<close> answers whether a sequence number is new and records it. The theory shows that
  no number is accepted twice whatever the window held before, and that from the empty window
  the bitmap decides exactly as the set of all numbers accepted so far would, within the
  64-frame horizon.
\<close>

abbreviation REPLAY_WINDOW :: u64 where
  "REPLAY_WINDOW \<equiv> 64"

record replay_win =
  rw_hi :: u64      \<comment> \<open>highest sequence accepted, 0 = none\<close>
  rw_seen :: u64    \<comment> \<open>bitmap of hi-1 .. hi-REPLAY_WINDOW\<close>

definition replay_ok :: "replay_win \<Rightarrow> u64 \<Rightarrow> bool \<times> replay_win" where
  "replay_ok w seq =
     (if seq = 0 then (False, w)
      else if rw_hi w < seq then
        (let step = seq - rw_hi w
         in (True, w\<lparr>rw_seen :=
                       (if REPLAY_WINDOW \<le> step then 0
                        else push_bit (unat step) (rw_seen w) OR
                             (if rw_hi w \<noteq> 0 then push_bit (unat (step - 1)) 1 else 0)),
                     rw_hi := seq\<rparr>))
      else
        (let back = rw_hi w - seq
         in if REPLAY_WINDOW \<le> back then (False, w)
            else if back = 0 then (False, w)
            else if rw_seen w AND push_bit (unat (back - 1)) 1 \<noteq> 0 then (False, w)
            else (True, w\<lparr>rw_seen := rw_seen w OR push_bit (unat (back - 1)) 1\<rparr>)))"

definition replay_init :: replay_win where
  "replay_init = \<lparr>rw_hi = 0, rw_seen = 0\<rparr>"

section \<open>Reading the bitmap\<close>

text \<open>The window as sequence numbers: \<open>replay_refuses w n\<close> says that \<open>n\<close> is refused.\<close>

definition replay_refuses :: "replay_win \<Rightarrow> nat \<Rightarrow> bool" where
  "replay_refuses w n \<longleftrightarrow>
     n = 0 \<or> n \<le> unat (rw_hi w) \<and>
       (unat (rw_hi w) = n \<or> n + 64 \<le> unat (rw_hi w) \<or>
        bit (rw_seen w) (unat (rw_hi w) - n - 1))"

text \<open>The three branches of \<open>replay_ok\<close> as facts about natural numbers.\<close>

lemma unat_sub_1: "x \<noteq> 0 \<Longrightarrow> unat (x - 1) = unat x - 1" for x :: u64
  by (simp add: unat_minus_one)

lemma replay_ok_ahead:
  assumes "rw_hi w < seq"
  shows "replay_ok w seq =
     (let step = unat seq - unat (rw_hi w)
      in (True, w\<lparr>rw_seen :=
                    (if 64 \<le> step then 0
                     else push_bit step (rw_seen w) OR
                          (if rw_hi w \<noteq> 0 then push_bit (step - 1) 1 else 0)),
                  rw_hi := seq\<rparr>))"
proof -
  have step: "unat (seq - rw_hi w) = unat seq - unat (rw_hi w)"
    using assms by (simp add: unat_sub order_less_imp_le)
  have pred: "unat (seq - rw_hi w - 1) = unat seq - unat (rw_hi w) - 1"
    using assms step by (subst unat_sub_1) auto
  have "seq \<noteq> 0" using assms by auto
  then show ?thesis
    using assms by (simp add: replay_ok_def Let_def step pred word_le_nat_alt)
qed

lemma replay_ok_behind:
  assumes "seq \<le> rw_hi w"
  shows "replay_ok w seq =
     (if replay_refuses w (unat seq) then (False, w)
      else (True, w\<lparr>rw_seen := rw_seen w OR
                      push_bit (unat (rw_hi w) - unat seq - 1) 1\<rparr>))"
proof (cases "seq = 0 \<or> rw_hi w = seq")
  case True
  then show ?thesis by (auto simp: replay_ok_def replay_refuses_def Let_def)
next
  case False
  then have lt: "unat seq < unat (rw_hi w)"
    using assms by (simp add: word_le_nat_alt word_unat_eq_iff)
  have dist: "unat (rw_hi w - seq) = unat (rw_hi w) - unat seq"
    using assms by (simp add: unat_sub)
  have pred: "unat (rw_hi w - seq - 1) = unat (rw_hi w) - unat seq - 1"
    using dist False by (subst unat_sub_1) auto
  have win: "REPLAY_WINDOW \<le> rw_hi w - seq \<longleftrightarrow> unat seq + 64 \<le> unat (rw_hi w)"
    using lt dist by (auto simp: word_le_nat_alt)
  have "\<not> rw_hi w < seq" using assms by simp
  with False lt show ?thesis
    by (simp add: replay_ok_def Let_def replay_refuses_def pred and_exp win unat_eq_zero)
qed

lemma replay_ok_accepts: "fst (replay_ok w q) \<longleftrightarrow> \<not> replay_refuses w (unat q)"
proof (cases "rw_hi w < q")
  case True
  then show ?thesis
    by (auto simp: replay_ok_ahead replay_refuses_def Let_def word_less_nat_alt)
next
  case False
  then show ?thesis by (auto simp: replay_ok_behind not_less)
qed

lemma replay_ok_refused: "replay_refuses w (unat q) \<Longrightarrow> replay_ok w q = (False, w)"
  using replay_ok_accepts [of w q]
  by (cases "rw_hi w < q") (auto simp: replay_ok_ahead replay_ok_behind not_less Let_def)

lemma replay_ok_keeps:
  assumes r: "replay_refuses w n"
  shows "replay_refuses (snd (replay_ok w q)) n"
proof (cases "rw_hi w < q")
  case True
  let ?step = "unat q - unat (rw_hi w)"
  have lt: "unat (rw_hi w) < unat q" using True by (simp add: word_less_nat_alt)
  show ?thesis
  proof (cases "n = 0 \<or> n + 64 \<le> unat q")
    case True
    then show ?thesis
      using \<open>rw_hi w < q\<close> lt by (auto simp: replay_ok_ahead replay_refuses_def Let_def)
  next
    case False
    with r lt have n: "n \<le> unat (rw_hi w)" "?step < 64" "unat q - n - 1 < 64"
      by (auto simp: replay_refuses_def)
    from False r consider "unat (rw_hi w) = n"
      | "n < unat (rw_hi w)" "bit (rw_seen w) (unat (rw_hi w) - n - 1)"
      using lt by (fastforce simp: replay_refuses_def)
    then show ?thesis
    proof cases
      case 1
      then show ?thesis using False \<open>rw_hi w < q\<close> lt n
        by (auto simp: replay_ok_ahead replay_refuses_def Let_def bit_simps)
    next
      case 2
      then have "unat q - n - 1 - ?step = unat (rw_hi w) - n - 1" "?step \<le> unat q - n - 1"
        using lt by auto
      with 2 show ?thesis using False \<open>rw_hi w < q\<close> lt n
        by (auto simp: replay_ok_ahead replay_refuses_def Let_def bit_simps)
    qed
  qed
next
  case False
  then show ?thesis using r
    by (auto simp: replay_ok_behind not_less replay_refuses_def bit_simps)
qed

lemma replay_ok_records:
  assumes acc: "fst (replay_ok w q)"
  shows "replay_refuses (snd (replay_ok w q)) (unat q)"
proof (cases "rw_hi w < q")
  case True
  then show ?thesis by (auto simp: replay_ok_ahead replay_refuses_def Let_def)
next
  case False
  moreover from this acc have "\<not> replay_refuses w (unat q)" by (simp add: replay_ok_accepts)
  ultimately show ?thesis
    by (auto simp: replay_ok_behind not_less replay_refuses_def bit_simps word_le_nat_alt)
qed

interpretation replay: once_filter replay_ok unat replay_refuses
  by unfold_locales (auto simp: replay_ok_accepts replay_ok_keeps replay_ok_records)

section \<open>The window against the set of accepted numbers\<close>

text \<open>What the window stands for: \<open>A\<close> is every number accepted so far.\<close>

definition window_of :: "nat set \<Rightarrow> replay_win \<Rightarrow> bool" where
  "window_of A w \<longleftrightarrow>
     0 \<notin> A \<and> (\<forall>a \<in> A. a \<le> unat (rw_hi w)) \<and> (rw_hi w = 0 \<or> unat (rw_hi w) \<in> A) \<and>
     (\<forall>n. n < unat (rw_hi w) \<longrightarrow> unat (rw_hi w) < n + 64 \<longrightarrow>
        (bit (rw_seen w) (unat (rw_hi w) - n - 1) \<longleftrightarrow> n \<in> A))"

text \<open>The decision a set of all accepted numbers would give, with the same horizon.\<close>

definition replay_spec :: "nat set \<Rightarrow> nat \<Rightarrow> bool" where
  "replay_spec A n \<longleftrightarrow> n \<noteq> 0 \<and> n \<notin> A \<and> (\<forall>a \<in> A. a < n + 64)"

lemma window_of_init: "window_of {} replay_init"
  by (simp add: window_of_def replay_init_def)

lemma window_ofD:
  assumes "window_of A w"
  shows "0 \<notin> A" "\<And>a. a \<in> A \<Longrightarrow> a \<le> unat (rw_hi w)" "rw_hi w = 0 \<or> unat (rw_hi w) \<in> A"
    "\<And>n. \<lbrakk>n < unat (rw_hi w); unat (rw_hi w) < n + 64\<rbrakk> \<Longrightarrow>
       bit (rw_seen w) (unat (rw_hi w) - n - 1) \<longleftrightarrow> n \<in> A"
  using assms by (auto simp: window_of_def)

lemma window_of_decides:
  assumes w: "window_of A w"
  shows "replay_refuses w n \<longleftrightarrow> \<not> replay_spec A n"
proof -
  note D = window_ofD [OF w]
  have far: "(\<exists>a \<in> A. n + 64 \<le> a) \<longleftrightarrow> n + 64 \<le> unat (rw_hi w)" if "n \<noteq> 0"
    using D(2,3) that le_trans by (fastforce simp: unat_eq_zero)
  moreover have "n = unat (rw_hi w) \<Longrightarrow> n \<noteq> 0 \<Longrightarrow> n \<in> A"
    using D(3) by auto
  ultimately show ?thesis
    using D(2) [of n] D(4) [of n]
    by (fastforce simp: replay_refuses_def replay_spec_def not_less)
qed

lemma window_of_ahead:
  assumes w: "window_of A w" and lt: "rw_hi w < q"
  shows "window_of (insert (unat q) A) (snd (replay_ok w q))"
proof -
  note D = window_ofD [OF w]
  let ?w' = "snd (replay_ok w q)"
  let ?step = "unat q - unat (rw_hi w)"
  have lt': "unat (rw_hi w) < unat q" using lt by (simp add: word_less_nat_alt)
  have hi: "rw_hi ?w' = q" using lt by (simp add: replay_ok_ahead Let_def)
  have "bit (rw_seen ?w') (unat q - n - 1) \<longleftrightarrow> n \<in> insert (unat q) A"
    if n: "n < unat q" "unat q < n + 64" for n
  proof (cases "64 \<le> ?step")
    case True
    then show ?thesis using n lt D(2) [of n] by (auto simp: replay_ok_ahead Let_def)
  next
    case False
    have "n < unat (rw_hi w) \<Longrightarrow> bit (rw_seen w) (unat (rw_hi w) - n - 1) \<longleftrightarrow> n \<in> A"
      using D(4) n lt' by simp
    moreover have "unat (rw_hi w) < n \<Longrightarrow> n \<notin> A" using D(2) by force
    moreover have "unat q - n - 1 - ?step = unat (rw_hi w) - n - 1" using lt' by simp
    ultimately show ?thesis
      using n lt lt' False D(1,3)
      by (cases n "unat (rw_hi w)" rule: linorder_cases)
        (auto simp: replay_ok_ahead Let_def bit_simps unat_eq_zero)
  qed
  then show ?thesis
    using D(1,2) lt' by (force simp: window_of_def hi)
qed

lemma window_of_behind:
  assumes w: "window_of A w" and le: "q \<le> rw_hi w" and acc: "\<not> replay_refuses w (unat q)"
  shows "window_of (insert (unat q) A) (snd (replay_ok w q))"
proof -
  note D = window_ofD [OF w]
  let ?w' = "snd (replay_ok w q)"
  have q: "unat q \<noteq> 0" "unat q < unat (rw_hi w)" "unat (rw_hi w) < unat q + 64"
    using acc le by (auto simp: replay_refuses_def word_le_nat_alt)
  have hi: "rw_hi ?w' = rw_hi w" using le acc by (simp add: replay_ok_behind)
  have "bit (rw_seen ?w') (unat (rw_hi w) - n - 1) \<longleftrightarrow> n \<in> insert (unat q) A"
    if n: "n < unat (rw_hi w)" "unat (rw_hi w) < n + 64" for n
  proof -
    have "unat (rw_hi w) - n - 1 = unat (rw_hi w) - unat q - 1 \<longleftrightarrow> n = unat q"
      using n q by auto
    moreover have "unat (rw_hi w) - unat q - 1 < 64" using q by simp
    ultimately show ?thesis
      using D(4) [OF n] le acc by (auto simp: replay_ok_behind bit_simps)
  qed
  then show ?thesis
    using D(1-3) q by (auto simp: window_of_def hi)
qed

lemma window_of_step:
  "window_of A w \<Longrightarrow>
   window_of (if fst (replay_ok w q) then insert (unat q) A else A) (snd (replay_ok w q))"
  using window_of_ahead [of A w q] window_of_behind [of A w q] replay_ok_refused [of w q]
  by (cases "rw_hi w < q") (auto simp: replay_ok_accepts not_less replay_ok_ahead Let_def)

definition replay_run :: "replay_win \<Rightarrow> u64 list \<Rightarrow> replay_win" where
  "replay_run w qs = foldl (\<lambda>w q. snd (replay_ok w q)) w qs"

lemma window_of_run:
  "window_of A w \<Longrightarrow> window_of (A \<union> unat ` set (accepted replay_ok w qs)) (replay_run w qs)"
proof (induction qs arbitrary: A w)
  case (Cons q qs)
  from Cons.IH [OF window_of_step [OF Cons.prems, of q]] show ?case
    by (auto simp: replay_run_def split_beta insert_is_Un [symmetric] Un_commute
        split: if_splits)
qed (simp add: replay_run_def)

section \<open>Properties\<close>

text \<open>C1. Whatever the window holds and whatever sequence numbers arrive, in whatever order and
  with whatever repetitions, no sequence number is acted on twice.\<close>

theorem replay_never_twice: "distinct (accepted replay_ok w qs)"
  using replay.distinct_accepted [of w qs] by (simp add: distinct_map)

text \<open>C38. After any stream of frames from the empty window, the two-word window decides exactly
  as the set of all numbers accepted so far would: a number is accepted when it is not zero, was
  not accepted before, and no accepted number is 64 or more ahead of it.\<close>

theorem replay_ok_refines_spec:
  "fst (replay_ok (replay_run replay_init qs) q) =
   replay_spec (unat ` set (accepted replay_ok replay_init qs)) (unat q)"
  using window_of_run [OF window_of_init, of qs] window_of_decides
  by (auto simp: replay_ok_accepts)

end
