(* ===== verification/Base58.thy ===== *)
theory Base58
  imports Prelude
begin

text \<open>
  base58.c: the Bitcoin-alphabet codec. Encoding and decoding both run a schoolbook
  multiply-and-add over a fixed buffer of digits, from the last digit to the first. The theory
  relates both buffers to the number they stand for, shows that the buffers never overflow for
  the sizes the entry points admit, and that decoding inverts encoding.
\<close>

abbreviation BASE58_MAX_IN :: nat where "BASE58_MAX_IN \<equiv> 160"
abbreviation BASE58_MAX_STR :: nat where "BASE58_MAX_STR \<equiv> 200"

definition B58_BUF :: nat where "B58_BUF = BASE58_MAX_IN * 138 div 100 + 2"
definition B256_BUF :: nat where "B256_BUF = BASE58_MAX_STR * 733 div 1000 + 2"

definition alphabet :: string where
  "alphabet = ''123456789ABCDEFGHJKLMNPQRSTUVWXYZabcdefghijkmnopqrstuvwxyz''"

text \<open>\<open>strchr\<close> as an index: the first place a character stands at.\<close>

fun strchr_idx :: "'a list \<Rightarrow> 'a \<Rightarrow> nat option" where
  "strchr_idx [] c = None"
| "strchr_idx (x # xs) c = (if x = c then Some 0 else map_option Suc (strchr_idx xs c))"

definition b58_value :: "char \<Rightarrow> nat option" where
  "b58_value c = (if c = CHR 0x00 then None else strchr_idx alphabet c)"

text \<open>One run of the inner loop \<open>while (j-- > 0)\<close>, which walks the buffer from its last digit:
  multiply every digit by \<open>m\<close>, add the carry, keep the remainder by the buffer's base \<open>b\<close>.
  The list is least significant digit first.\<close>

fun radix_pass :: "nat \<Rightarrow> nat \<Rightarrow> nat \<Rightarrow> byte list \<Rightarrow> byte list" where
  "radix_pass m b carry [] = []"
| "radix_pass m b carry (d # ds) =
     (let carry' = carry + m * unat d
      in of_nat (carry' mod b) # radix_pass m b (carry' div b) ds)"

definition radix_step :: "nat \<Rightarrow> nat \<Rightarrow> byte list \<Rightarrow> nat \<Rightarrow> byte list" where
  "radix_step m b buf v = rev (radix_pass m b v (rev buf))"

definition base58_encode :: "byte list \<Rightarrow> nat \<Rightarrow> string option" where
  "base58_encode src dst_len =
     (if BASE58_MAX_IN < length src then None
      else
        (let zeros = length (takeWhile (\<lambda>x. x = 0) src);
             b58 = foldl (\<lambda>buf x. radix_step 256 58 buf (unat x)) (replicate B58_BUF 0)
                     (drop zeros src);
             digits = dropWhile (\<lambda>d. d = 0) b58;
             need = zeros + length digits
         in if dst_len < need + 1 then None
            else Some (replicate zeros CHR ''1'' @ map (\<lambda>d. alphabet ! unat d) digits)))"

fun b256_loop :: "byte list \<Rightarrow> string \<Rightarrow> byte list option" where
  "b256_loop buf [] = Some buf"
| "b256_loop buf (c # cs) =
     (case b58_value c of
        None \<Rightarrow> None
      | Some v \<Rightarrow> b256_loop (radix_step 58 256 buf v) cs)"

definition base58_decode :: "string \<Rightarrow> nat \<Rightarrow> byte list option" where
  "base58_decode src dst_len =
     (if BASE58_MAX_STR < length src then None
      else case b256_loop (replicate B256_BUF 0) src of
             None \<Rightarrow> None
           | Some b256 \<Rightarrow>
               (let digits = dropWhile (\<lambda>d. d = 0) b256
                in if dst_len < length digits then None
                   else Some (replicate (dst_len - length digits) 0 @ digits)))"

section \<open>Digits and the numbers they stand for\<close>

text \<open>The value of digits, most significant first, in base \<open>b\<close>.\<close>

definition val :: "nat \<Rightarrow> nat list \<Rightarrow> nat" where
  "val b ds = foldl (\<lambda>a d. a * b + d) 0 ds"

lemma val_Nil [simp]: "val b [] = 0"
  by (simp add: val_def)

lemma val_snoc [simp]: "val b (ds @ [d]) = val b ds * b + d"
  by (simp add: val_def)

lemma val_Cons: "val b (d # ds) = d * b ^ length ds + val b ds"
proof (induction ds rule: rev_induct)
  case (snoc e es)
  have "val b (d # es @ [e]) = val b (d # es) * b + e"
    using val_snoc [of b "d # es" e] by simp
  with snoc show ?case by (simp add: algebra_simps)
qed (simp add: val_def)

lemma val_append: "val b (xs @ ys) = val b xs * b ^ length ys + val b ys"
  by (induction xs) (simp_all add: val_Cons power_add algebra_simps)

lemma val_replicate_0 [simp]: "val b (replicate n 0) = 0"
  by (induction n) (simp_all add: val_Cons)

lemma val_bound: "\<forall>d \<in> set ds. d < b \<Longrightarrow> val b ds < b ^ length ds"
proof (induction ds)
  case (Cons d ds)
  then have "d * b ^ length ds + val b ds < d * b ^ length ds + b ^ length ds" by simp
  also have "\<dots> = Suc d * b ^ length ds" by simp
  also have "\<dots> \<le> b * b ^ length ds" using Cons.prems by (intro mult_right_mono) auto
  finally show ?case by (simp add: val_Cons)
qed simp

lemma val_inject:
  "\<lbrakk>length xs = length ys; \<forall>d \<in> set xs. d < b; \<forall>d \<in> set ys. d < b; val b xs = val b ys\<rbrakk>
   \<Longrightarrow> xs = ys"
proof (induction xs ys rule: list_induct2)
  case (Cons x xs y ys)
  let ?B = "b ^ length ys"
  have eq: "x * ?B + val b xs = y * ?B + val b ys"
    using Cons by (simp add: val_Cons)
  have lt: "val b xs < ?B" "val b ys < ?B"
    using val_bound [of xs b] val_bound [of ys b] Cons by auto
  from eq lt have "x = y"
    by (metis add.commute div_mult_self3 div_less add_0 less_nat_zero_code)
  with eq Cons show ?case by simp
qed simp

lemma val_dropWhile_0: "val b (dropWhile (\<lambda>d. d = 0) ds) = val b ds"
  by (induction ds) (simp_all add: val_Cons)

text \<open>A number below \<open>b ^ k\<close> has at most \<open>k\<close> significant digits.\<close>

lemma length_dropWhile_0_le:
  assumes "val b ds < b ^ k" and b: "1 < b"
  shows "length (dropWhile (\<lambda>d. d = 0) ds) \<le> k"
proof (cases "dropWhile (\<lambda>d. d = 0) ds")
  case (Cons d es)
  then have "d \<noteq> 0" using hd_dropWhile [of "\<lambda>d. d = 0" ds] by simp
  then have "b ^ length es \<le> d * b ^ length es + val b es" by (cases d) auto
  also have "\<dots> = val b ds" using val_dropWhile_0 [of b ds] Cons by (simp add: val_Cons)
  also have "\<dots> < b ^ k" by (rule assms(1))
  finally have "length es < k" using power_less_imp_less_exp [OF b] by blast
  then show ?thesis using Cons by simp
qed (metis list.size(3) zero_le)

section \<open>The buffers as numbers\<close>

abbreviation bval :: "nat \<Rightarrow> byte list \<Rightarrow> nat" where
  "bval b ds \<equiv> val b (map unat ds)"

abbreviation digits_ok :: "nat \<Rightarrow> byte list \<Rightarrow> bool" where
  "digits_ok b ds \<equiv> \<forall>d \<in> set ds. unat d < b"

lemma length_radix_pass [simp]: "length (radix_pass m b c ds) = length ds"
  by (induction ds arbitrary: c) (simp_all add: Let_def)

lemma length_radix_step [simp]: "length (radix_step m b buf v) = length buf"
  by (simp add: radix_step_def)

lemma unat_of_nat_mod: "0 < b \<Longrightarrow> b \<le> 256 \<Longrightarrow> unat (of_nat (n mod b) :: byte) = n mod b"
  by (simp add: unat_of_nat less_le_trans [OF mod_less_divisor])

lemma digits_ok_radix_pass:
  "0 < b \<Longrightarrow> b \<le> 256 \<Longrightarrow> digits_ok b (radix_pass m b c ds)"
  by (induction ds arbitrary: c) (auto simp: Let_def unat_of_nat_mod)

lemma digits_ok_radix_step:
  "0 < b \<Longrightarrow> b \<le> 256 \<Longrightarrow> digits_ok b (radix_step m b buf v)"
  using digits_ok_radix_pass [of b m v "rev buf"] by (simp add: radix_step_def)

lemma bval_rev_Cons: "bval b (rev (d # ds)) = bval b (rev ds) * b + unat d"
  by simp

text \<open>One pass multiplies the buffer's number by \<open>m\<close> and adds the carry, modulo the buffer's
  capacity.\<close>

lemma bval_radix_pass:
  assumes b: "0 < b" "b \<le> 256"
  shows "bval b (rev (radix_pass m b c ds)) = (m * bval b (rev ds) + c) mod b ^ length ds"
proof (induction ds arbitrary: c)
  case (Cons d ds)
  let ?c = "c + m * unat d"
  let ?V = "bval b (rev ds)"
  have "bval b (rev (radix_pass m b c (d # ds)))
      = (m * ?V + ?c div b) mod b ^ length ds * b + ?c mod b"
    using Cons.IH [of "?c div b"] b by (simp add: Let_def unat_of_nat_mod)
  also have "m * ?V + ?c div b = (m * ?V * b + ?c) div b"
    using b by (simp add: add.commute)
  also have "\<dots> mod b ^ length ds * b + ?c mod b = (m * ?V * b + ?c) mod (b * b ^ length ds)"
    by (simp add: mod_mult2_eq mult.commute)
  finally show ?case by (simp add: algebra_simps)
qed simp

lemma bval_radix_step:
  assumes "0 < b" "b \<le> 256" and "m * bval b buf + v < b ^ length buf"
  shows "bval b (radix_step m b buf v) = m * bval b buf + v"
  using assms bval_radix_pass [of b m v "rev buf"] by (simp add: radix_step_def)

text \<open>A whole run of the outer loop, over any digits in base \<open>m\<close> whose number fits.\<close>

lemma length_radix_fold [simp]: "length (foldl (radix_step m b) buf vs) = length buf"
  by (induction vs arbitrary: buf) auto

lemma digits_ok_radix_fold:
  "\<lbrakk>0 < b; b \<le> 256; digits_ok b buf\<rbrakk> \<Longrightarrow> digits_ok b (foldl (radix_step m b) buf vs)"
proof (induction vs arbitrary: buf)
  case (Cons v vs)
  then show ?case using digits_ok_radix_step [of b m buf v] by simp
qed simp

lemma bval_radix_fold:
  assumes b: "0 < b" "b \<le> 256" and m: "0 < m" and "val m vs < b ^ n"
  shows "bval b (foldl (radix_step m b) (replicate n 0) vs) = val m vs"
  using assms(4)
proof (induction vs rule: rev_induct)
  case (snoc v vs)
  let ?F = "foldl (radix_step m b) (replicate n 0) vs"
  have le: "val m vs \<le> val m vs * m" using m by (cases m) auto
  from snoc.prems have lt: "val m vs * m + v < b ^ n" by simp
  with le have "val m vs < b ^ n" by linarith
  with snoc.IH have "bval b ?F = val m vs" by simp
  then show ?case using lt b bval_radix_step [of b m ?F v] by (simp add: mult.commute)
qed simp

section \<open>The alphabet\<close>

lemma length_alphabet [simp]: "length alphabet = 58"
  by (simp add: alphabet_def)

lemma distinct_alphabet: "distinct alphabet"
  by (simp add: alphabet_def)

lemma strchr_idx_nth: "distinct xs \<Longrightarrow> i < length xs \<Longrightarrow> strchr_idx xs (xs ! i) = Some i"
  by (induction xs arbitrary: i) (auto simp: nth_Cons split: nat.splits)

lemma strchr_idx_Some: "strchr_idx xs c = Some i \<Longrightarrow> i < length xs \<and> xs ! i = c"
  by (induction xs arbitrary: i) (auto split: if_splits)

lemma alphabet_nonzero: "i < 58 \<Longrightarrow> alphabet ! i \<noteq> CHR 0x00"
proof -
  have "CHR 0x00 \<notin> set alphabet" by (simp add: alphabet_def)
  then show "i < 58 \<Longrightarrow> alphabet ! i \<noteq> CHR 0x00" by (metis length_alphabet nth_mem)
qed

lemma b58_value_alphabet [simp]: "i < 58 \<Longrightarrow> b58_value (alphabet ! i) = Some i"
  by (simp add: b58_value_def alphabet_nonzero strchr_idx_nth distinct_alphabet)

lemma b58_value_SomeD: "b58_value c = Some i \<Longrightarrow> i < 58 \<and> alphabet ! i = c"
  using strchr_idx_Some [of alphabet c i] by (simp add: b58_value_def split: if_splits)

lemma alphabet_0: "alphabet ! 0 = CHR ''1''"
  by (simp add: alphabet_def)

lemma b58_value_1 [simp]: "b58_value CHR ''1'' = Some 0"
  using b58_value_alphabet [of 0] alphabet_0 by simp

text \<open>A text over the alphabet as the digits it stands for.\<close>

definition digits_of :: "string \<Rightarrow> nat list" where
  "digits_of s = map (\<lambda>c. the (b58_value c)) s"

lemma b256_loop_ok:
  "\<forall>c \<in> set s. b58_value c \<noteq> None \<Longrightarrow>
   b256_loop buf s = Some (foldl (radix_step 58 256) buf (digits_of s))"
  by (induction s arbitrary: buf) (auto simp: digits_of_def)

lemma b256_loop_bad:
  "b256_loop buf s = None \<longleftrightarrow> (\<exists>c \<in> set s. b58_value c = None)"
  by (induction s arbitrary: buf) (auto split: option.splits)

lemma digits_of_lt: "\<forall>c \<in> set s. b58_value c \<noteq> None \<Longrightarrow> \<forall>d \<in> set (digits_of s). d < 58"
  by (fastforce simp: digits_of_def dest: b58_value_SomeD)

section \<open>Decoding as a number\<close>

lemma b256_buf_fits: "(58::nat) ^ BASE58_MAX_STR \<le> 256 ^ B256_BUF"
  by (simp add: B256_BUF_def)

lemma b58_buf_fits: "(256::nat) ^ BASE58_MAX_IN \<le> 58 ^ B58_BUF"
  by (simp add: B58_BUF_def)

lemma dropWhile_map_unat:
  "dropWhile (\<lambda>d. d = 0) (map unat ds) = map unat (dropWhile (\<lambda>d. d = 0) (ds :: byte list))"
  by (induction ds) (auto simp: unat_eq_zero)

lemma bytes_lt: "digits_ok 256 (bs :: byte list)"
  using unsigned_less [where 'b = 8] by auto

lemma bval_256_inject: "length xs = length ys \<Longrightarrow> bval 256 xs = bval 256 ys \<Longrightarrow> xs = ys"
  using val_inject [of "map unat xs" "map unat ys" 256] bytes_lt [of xs] bytes_lt [of ys]
  by (auto dest: map_injective intro: injI)

text \<open>Decoding yields the byte string of the asked length that stands for the same number as
  the text, and fails on a character outside the alphabet or a number that does not fit.\<close>

lemma base58_decode_iff:
  assumes len: "length s \<le> BASE58_MAX_STR"
  shows "base58_decode s n = Some bs \<longleftrightarrow>
    (\<forall>c \<in> set s. b58_value c \<noteq> None) \<and> length bs = n \<and> bval 256 bs = val 58 (digits_of s)"
proof (cases "\<forall>c \<in> set s. b58_value c \<noteq> None")
  case True
  let ?buf = "foldl (radix_step 58 256) (replicate B256_BUF 0) (digits_of s)"
  let ?ds = "dropWhile (\<lambda>d. d = 0) ?buf"
  have "val 58 (digits_of s) < 58 ^ length s"
    using val_bound [OF digits_of_lt [OF True]] by (simp add: digits_of_def)
  also have "\<dots> \<le> 58 ^ BASE58_MAX_STR" using len by (intro power_increasing) auto
  also note b256_buf_fits
  finally have v: "bval 256 ?buf = val 58 (digits_of s)"
    using bval_radix_fold [of 256 58 "digits_of s" B256_BUF] by simp
  have vd: "bval 256 ?ds = val 58 (digits_of s)"
    using v val_dropWhile_0 [of 256 "map unat ?buf"] by (simp add: dropWhile_map_unat)
  have pad: "bval 256 (replicate k 0 @ xs) = bval 256 xs" for k xs
    by (simp add: val_append)
  have fit: "length ?ds \<le> length bs" if "bval 256 bs = val 58 (digits_of s)"
  proof -
    have "bval 256 ?buf < 256 ^ length bs"
      using val_bound [of "map unat bs" 256] bytes_lt [of bs] that v by simp
    then show ?thesis
      using length_dropWhile_0_le [of 256 "map unat ?buf" "length bs"]
      by (simp add: dropWhile_map_unat)
  qed
  have "base58_decode s n =
      (if n < length ?ds then None else Some (replicate (n - length ?ds) 0 @ ?ds))"
    using len by (simp add: base58_decode_def b256_loop_ok [OF True] Let_def)
  then show ?thesis
    using True fit vd pad bval_256_inject [of "replicate (n - length ?ds) 0 @ ?ds" bs]
    by auto
next
  case False
  then show ?thesis
    using len b256_loop_bad [of "replicate B256_BUF 0" s] by (simp add: base58_decode_def)
qed

section \<open>Encoding as a number\<close>

text \<open>The digits the encoder finds for a byte string with its leading zeros stripped.\<close>

definition b58_digits :: "byte list \<Rightarrow> byte list" where
  "b58_digits src = dropWhile (\<lambda>d. d = 0)
     (foldl (\<lambda>buf x. radix_step 256 58 buf (unat x)) (replicate B58_BUF 0)
        (drop (length (takeWhile (\<lambda>x. x = 0) src)) src))"

lemma foldl_unat: "foldl (\<lambda>buf x. f buf (unat x)) buf xs = foldl f buf (map unat xs)"
  by (induction xs arbitrary: buf) auto

lemma split_leading_zeros:
  fixes src :: "byte list"
  defines "z \<equiv> length (takeWhile (\<lambda>x. x = 0) src)"
  shows "src = replicate z 0 @ drop z src" "z \<le> length src"
    "bval 256 (drop z src) = bval 256 src"
proof -
  have "takeWhile (\<lambda>x. x = 0) src = replicate z 0"
    unfolding z_def by (induction src) auto
  then show eq: "src = replicate z 0 @ drop z src"
    unfolding z_def by (metis append_take_drop_id takeWhile_eq_take)
  show "z \<le> length src" unfolding z_def by (rule length_takeWhile_le)
  have "bval 256 (replicate z 0 @ drop z src) = bval 256 (drop z src)"
    by (simp add: val_append)
  with eq show "bval 256 (drop z src) = bval 256 src" by simp
qed

lemma b58_digits_val:
  assumes len: "length src \<le> BASE58_MAX_IN"
  shows "bval 58 (b58_digits src) = bval 256 src" "digits_ok 58 (b58_digits src)"
proof -
  let ?vs = "map unat (drop (length (takeWhile (\<lambda>x. x = 0) src)) src)"
  let ?buf = "foldl (radix_step 256 58) (replicate B58_BUF 0) ?vs"
  have ds: "b58_digits src = dropWhile (\<lambda>d. d = 0) ?buf"
    by (simp add: b58_digits_def foldl_unat)
  have "val 256 ?vs < 256 ^ length src"
    using val_bound [of "map unat src" 256] bytes_lt [of src] split_leading_zeros(3) [of src]
    by simp
  also have "\<dots> \<le> 256 ^ BASE58_MAX_IN" using len by (intro power_increasing) auto
  also note b58_buf_fits
  finally have "bval 58 ?buf = val 256 ?vs"
    using bval_radix_fold [of 58 256 ?vs B58_BUF] by simp
  then show "bval 58 (b58_digits src) = bval 256 src"
    using val_dropWhile_0 [of 58 "map unat ?buf"] split_leading_zeros(3) [of src]
    by (simp add: ds dropWhile_map_unat)
  have "digits_ok 58 ?buf" by (rule digits_ok_radix_fold) auto
  then show "digits_ok 58 (b58_digits src)" unfolding ds by (auto dest: set_dropWhileD)
qed

text \<open>How long the text can get: \<open>k\<close> characters when \<open>k\<close> base-58 digits hold as much as the
  source bytes.\<close>

lemma b58_length_bound:
  assumes len: "length src \<le> BASE58_MAX_IN" and k: "256 ^ length src \<le> (58::nat) ^ k"
  shows "length (takeWhile (\<lambda>x. x = 0) src) + length (b58_digits src) \<le> k"
proof -
  define z where "z = length (takeWhile (\<lambda>x. x = 0) src)"
  have zle: "z \<le> length src" unfolding z_def by (rule length_takeWhile_le)
  have "(58::nat) ^ length src \<le> 256 ^ length src" by (rule power_mono) auto
  from this k have "(58::nat) ^ length src \<le> 58 ^ k" by (rule order_trans)
  then have zk: "z \<le> k" using zle by simp
  have "(256::nat) ^ (length src - z) * 58 ^ z \<le> 256 ^ (length src - z) * 256 ^ z"
    by (intro mult_left_mono power_mono) auto
  also have "\<dots> = 256 ^ length src" using zle by (simp flip: power_add)
  also note k
  also have "(58::nat) ^ k = 58 ^ (k - z) * 58 ^ z" using zk by (simp flip: power_add)
  finally have le: "(256::nat) ^ (length src - z) \<le> 58 ^ (k - z)" by simp
  have "bval 256 src < 256 ^ (length src - z)"
    using val_bound [of "map unat (drop z src)" 256] bytes_lt [of "drop z src"]
      split_leading_zeros(3) [of src] by (simp add: z_def)
  with le have "bval 58 (b58_digits src) < 58 ^ (k - z)"
    using b58_digits_val(1) [OF len] by simp
  then have "length (dropWhile (\<lambda>d. d = 0) (map unat (b58_digits src))) \<le> k - z"
    by (rule length_dropWhile_0_le) simp
  moreover have "dropWhile (\<lambda>d. d = 0) (b58_digits src) = b58_digits src"
    by (simp add: b58_digits_def)
  ultimately show ?thesis using zk by (simp add: dropWhile_map_unat flip: z_def)
qed

lemma base58_encode_eq:
  "length src \<le> BASE58_MAX_IN \<Longrightarrow>
   base58_encode src n =
     (if n < length (takeWhile (\<lambda>x. x = 0) src) + length (b58_digits src) + 1 then None
      else Some (replicate (length (takeWhile (\<lambda>x. x = 0) src)) CHR ''1'' @
                 map (\<lambda>d. alphabet ! unat d) (b58_digits src)))"
  by (simp add: base58_encode_def b58_digits_def Let_def)

lemma base58_encode_SomeD:
  assumes "base58_encode src n = Some s"
  shows "length src \<le> BASE58_MAX_IN" "length s < n"
    "\<forall>c \<in> set s. b58_value c \<noteq> None" "val 58 (digits_of s) = bval 256 src"
proof -
  show len: "length src \<le> BASE58_MAX_IN"
    using assms by (simp add: base58_encode_def split: if_splits)
  let ?z = "length (takeWhile (\<lambda>x. x = 0) src)"
  from assms base58_encode_eq [OF len, of n] have s:
    "s = replicate ?z CHR ''1'' @ map (\<lambda>d. alphabet ! unat d) (b58_digits src)"
    and n: "?z + length (b58_digits src) < n"
    by (auto split: if_splits)
  show "length s < n" using n s by simp
  note D = b58_digits_val [OF len]
  show "\<forall>c \<in> set s. b58_value c \<noteq> None"
    using D(2) by (auto simp: s)
  have "digits_of s = replicate ?z 0 @ map unat (b58_digits src)"
    using D(2) by (simp add: s digits_of_def)
  then show "val 58 (digits_of s) = bval 256 src"
    using D(1) by (simp add: val_append)
qed

section \<open>Properties\<close>

text \<open>Decoding inverts encoding: whatever text the encoder writes for a byte string, if it is
  within the decoder's input limit then decoding it into as many bytes gives that byte string
  back.\<close>

theorem base58_roundtrip:
  assumes "base58_encode src n = Some s" and "length s \<le> BASE58_MAX_STR"
  shows "base58_decode s (length src) = Some src"
  using base58_encode_SomeD [OF assms(1)] assms(2) by (simp add: base58_decode_iff)

lemma radix_pass_zeros: "radix_pass m b 0 (replicate n 0) = replicate n 0"
  by (induction n) simp_all

lemma replicate_pred: "0 < n \<Longrightarrow> replicate n x = x # replicate (n - 1) x"
  by (cases n) simp_all

lemma base58_encode_example: "base58_encode [0, 57, 58] 6 = Some ''15Mb''"
proof -
  have 1: "radix_step 256 58 (replicate 222 0) 57 = replicate 221 0 @ [57]"
    unfolding radix_step_def rev_replicate
    by (simp add: replicate_pred [of 222] radix_pass_zeros)
  have 2: "radix_step 256 58 (replicate 221 0 @ [57]) 58 = replicate 219 0 @ [4, 20, 34]"
    unfolding radix_step_def rev_append rev_replicate
    by (simp add: replicate_pred [of 221] replicate_pred [of 220] radix_pass_zeros)
  have "b58_digits [0, 57, 58] = [4, 20, 34]"
    using 2 by (simp add: b58_digits_def B58_BUF_def 1 dropWhile_append)
  then show ?thesis
    by (simp add: base58_encode_eq alphabet_def)
qed

theorem base58_roundtrip_witness:
  "base58_encode [0, 57, 58] 6 = Some ''15Mb'' \<and> base58_decode ''15Mb'' 3 = Some [0, 57, 58]"
  using base58_roundtrip [OF base58_encode_example] base58_encode_example
  by (simp add: numeral_3_eq_3)

end
