(* ===== verification/Token.thy ===== *)
theory Token
  imports Base58
begin

text \<open>
  token.c: the session token. A fixed payload of 90 bytes, a CRC-32 over it and the base58 text
  of the two, left-padded with the zero digit to exactly 130 characters; and the per-family
  endpoint state carried in an address slot and two flag bits. The theory shows that every
  well-formed token has one text of that width, that decoding and encoding are inverse to each
  other in both directions, that a single damaged payload byte never survives the checksum, and
  that the family state written is the one read back.
\<close>

definition TOKEN_VERSION :: byte where "TOKEN_VERSION = 7"
definition TOKEN_RDV_LEN :: nat where "TOKEN_RDV_LEN = 16"
definition TOKEN_AUTH_LEN :: nat where "TOKEN_AUTH_LEN = 16"
definition TOKEN_HOSTPUB_LEN :: nat where "TOKEN_HOSTPUB_LEN = 32"
definition TOKEN_EP6_LEN :: nat where "TOKEN_EP6_LEN = 16"
definition TOKEN_EP4_LEN :: nat where "TOKEN_EP4_LEN = 4"

definition TOKEN_RAW_LEN :: nat where
  "TOKEN_RAW_LEN = 2 + TOKEN_RDV_LEN + TOKEN_AUTH_LEN + TOKEN_HOSTPUB_LEN +
     (TOKEN_EP6_LEN + 2) + (TOKEN_EP4_LEN + 2)"

definition TOKEN_WIRE_LEN :: nat where "TOKEN_WIRE_LEN = TOKEN_RAW_LEN + 4"

definition TOKEN_STR_LEN :: nat where "TOKEN_STR_LEN = TOKEN_WIRE_LEN * 138 div 100 + 1"

lemmas token_lens = TOKEN_RDV_LEN_def TOKEN_AUTH_LEN_def TOKEN_HOSTPUB_LEN_def
  TOKEN_EP6_LEN_def TOKEN_EP4_LEN_def TOKEN_RAW_LEN_def TOKEN_WIRE_LEN_def TOKEN_STR_LEN_def

definition TOKEN_FLAG_EP6_RDV :: byte where "TOKEN_FLAG_EP6_RDV = 4"
definition TOKEN_FLAG_EP4_RDV :: byte where "TOKEN_FLAG_EP4_RDV = 8"
definition TOKEN_FLAG_EP6_SETTLED :: byte where "TOKEN_FLAG_EP6_SETTLED = 16"
definition TOKEN_FLAG_EP4_SETTLED :: byte where "TOKEN_FLAG_EP4_SETTLED = 32"

lemmas token_flags = TOKEN_FLAG_EP6_RDV_def TOKEN_FLAG_EP4_RDV_def
  TOKEN_FLAG_EP6_SETTLED_def TOKEN_FLAG_EP4_SETTLED_def

datatype token_state =
  TOKEN_STATE_PENDING | TOKEN_STATE_NONE | TOKEN_STATE_RENDEZVOUS | TOKEN_STATE_DIRECT

record token =
  tk_version :: byte
  tk_flags :: byte
  tk_rdv :: "byte list"
  tk_auth :: "byte list"
  tk_hostpub :: "byte list"
  tk_ep6_addr :: "byte list"
  tk_ep6_port :: u16
  tk_ep4_addr :: "byte list"
  tk_ep4_port :: u16

text \<open>The array sizes of \<open>struct token\<close>.\<close>

definition wf_token :: "token \<Rightarrow> bool" where
  "wf_token tok \<longleftrightarrow>
     length (tk_rdv tok) = TOKEN_RDV_LEN \<and> length (tk_auth tok) = TOKEN_AUTH_LEN \<and>
     length (tk_hostpub tok) = TOKEN_HOSTPUB_LEN \<and>
     length (tk_ep6_addr tok) = TOKEN_EP6_LEN \<and> length (tk_ep4_addr tok) = TOKEN_EP4_LEN"

text \<open>CRC-32: one bit, one byte, the whole message.\<close>

definition crc32_bit :: "u32 \<Rightarrow> u32" where
  "crc32_bit c = drop_bit 1 c XOR (0xedb88320 AND (- (c AND 1)))"

definition crc32_byte :: "u32 \<Rightarrow> byte \<Rightarrow> u32" where
  "crc32_byte c d = (crc32_bit ^^ 8) (c XOR ucast d)"

definition crc32 :: "byte list \<Rightarrow> u32" where
  "crc32 data = NOT (foldl crc32_byte 0xffffffff data)"

definition payload_pack :: "token \<Rightarrow> byte list" where
  "payload_pack tok =
     [tk_version tok, tk_flags tok] @ tk_rdv tok @ tk_auth tok @ tk_hostpub tok @
     tk_ep6_addr tok @ put16 (tk_ep6_port tok) @ tk_ep4_addr tok @ put16 (tk_ep4_port tok)"

definition payload_unpack :: "byte list \<Rightarrow> token" where
  "payload_unpack raw =
     (let o1 = 2; o2 = o1 + TOKEN_RDV_LEN; o3 = o2 + TOKEN_AUTH_LEN;
          o4 = o3 + TOKEN_HOSTPUB_LEN; o5 = o4 + TOKEN_EP6_LEN; o6 = o5 + 2;
          o7 = o6 + TOKEN_EP4_LEN
      in \<lparr>tk_version = raw ! 0, tk_flags = raw ! 1,
          tk_rdv = take TOKEN_RDV_LEN (drop o1 raw),
          tk_auth = take TOKEN_AUTH_LEN (drop o2 raw),
          tk_hostpub = take TOKEN_HOSTPUB_LEN (drop o3 raw),
          tk_ep6_addr = take TOKEN_EP6_LEN (drop o4 raw),
          tk_ep6_port = get16 (drop o5 raw),
          tk_ep4_addr = take TOKEN_EP4_LEN (drop o6 raw),
          tk_ep4_port = get16 (drop o7 raw)\<rparr>)"

text \<open>\<open>None\<close> is the return value -1.\<close>

definition token_encode :: "token \<Rightarrow> nat \<Rightarrow> string option" where
  "token_encode tok dest_len =
     (let raw = payload_pack tok;
          sum = crc32 (take TOKEN_RAW_LEN raw);
          wire = raw @ put16 (ucast (drop_bit 16 sum)) @ put16 (ucast sum)
      in case base58_encode wire (TOKEN_STR_LEN + 1) of
           None \<Rightarrow> None
         | Some tmp \<Rightarrow>
             (let n = length tmp
              in if n = 0 \<or> TOKEN_STR_LEN < n \<or> dest_len < TOKEN_STR_LEN + 1 then None
                 else Some (replicate (TOKEN_STR_LEN - n) CHR ''1'' @ tmp)))"

datatype token_err = TOKEN_ERR \<comment> \<open>-1\<close> | TOKEN_ERR_VERSION \<comment> \<open>-2\<close>

definition token_decode :: "string \<Rightarrow> token_err + token" where
  "token_decode src =
     (if length src \<noteq> TOKEN_STR_LEN then Inl TOKEN_ERR
      else case base58_decode src TOKEN_WIRE_LEN of
             None \<Rightarrow> Inl TOKEN_ERR
           | Some wire \<Rightarrow>
               (let sum = crc32 (take TOKEN_RAW_LEN wire);
                    want = push_bit 16 (ucast (get16 (drop TOKEN_RAW_LEN wire))) OR
                           ucast (get16 (drop (TOKEN_RAW_LEN + 2) wire))
                in if sum \<noteq> want then Inl TOKEN_ERR
                   else if wire ! 0 \<noteq> TOKEN_VERSION then Inl TOKEN_ERR_VERSION
                   else Inr (payload_unpack wire)))"

definition token_family_state :: "token \<Rightarrow> int \<Rightarrow> token_state" where
  "token_family_state tok family =
     (let a = (if family = 6 then tk_ep6_addr tok else tk_ep4_addr tok);
          rdv = (if family = 6 then TOKEN_FLAG_EP6_RDV else TOKEN_FLAG_EP4_RDV);
          st = (if family = 6 then TOKEN_FLAG_EP6_SETTLED else TOKEN_FLAG_EP4_SETTLED)
      in if \<exists>x \<in> set a. x \<noteq> 0
         then (if tk_flags tok AND rdv \<noteq> 0 then TOKEN_STATE_RENDEZVOUS else TOKEN_STATE_DIRECT)
         else (if tk_flags tok AND st \<noteq> 0 then TOKEN_STATE_NONE else TOKEN_STATE_PENDING))"

definition token_set_family ::
    "token \<Rightarrow> int \<Rightarrow> token_state \<Rightarrow> byte list \<Rightarrow> u16 \<Rightarrow> token" where
  "token_set_family tok family state addr port =
     (let n = (if family = 6 then TOKEN_EP6_LEN else TOKEN_EP4_LEN);
          rdv = (if family = 6 then TOKEN_FLAG_EP6_RDV else TOKEN_FLAG_EP4_RDV);
          st = (if family = 6 then TOKEN_FLAG_EP6_SETTLED else TOKEN_FLAG_EP4_SETTLED);
          flags0 = tk_flags tok AND NOT (rdv OR st);
          carries = (state = TOKEN_STATE_RENDEZVOUS \<or> state = TOKEN_STATE_DIRECT);
          a = (if carries then take n addr else replicate n 0);
          p = (if carries then port else 0);
          flags =
            (if carries then
               (if state = TOKEN_STATE_RENDEZVOUS then flags0 OR st OR rdv else flags0 OR st)
             else if state = TOKEN_STATE_NONE then flags0 OR st else flags0)
      in if family = 6 then tok\<lparr>tk_flags := flags, tk_ep6_addr := a, tk_ep6_port := p\<rparr>
         else tok\<lparr>tk_flags := flags, tk_ep4_addr := a, tk_ep4_port := p\<rparr>)"

section \<open>The payload codec\<close>

lemma length_payload_pack [wf_simps]: "wf_token tok \<Longrightarrow> length (payload_pack tok) = TOKEN_RAW_LEN"
  by (simp add: wf_token_def payload_pack_def token_lens)

lemma payload_unpack_pack [codec_simps]:
  "wf_token tok \<Longrightarrow> payload_unpack (payload_pack tok @ r) = tok"
  by (simp add: wf_token_def payload_pack_def payload_unpack_def token_lens)

lemma payload_pack_unpack:
  assumes "TOKEN_RAW_LEN \<le> length raw"
  shows "payload_pack (payload_unpack raw) = take TOKEN_RAW_LEN raw"
proof -
  have two: "raw ! 0 # raw ! Suc 0 # ys = take 2 raw @ ys" for ys
    using assms by (cases raw; cases "tl raw") (auto simp: token_lens)
  show ?thesis
    using assms take_join [of 88 raw 2 "[]"]
    by (simp add: payload_pack_def payload_unpack_def token_lens put16_get16_drop Let_def two
        take_join [of 2 raw 16] take_join [of 18 raw 16] take_join [of 34 raw 32]
        take_join [of 66 raw 16] take_join [of 82 raw 2] take_join [of 84 raw 4])
qed

lemma wf_payload_unpack: "TOKEN_WIRE_LEN \<le> length raw \<Longrightarrow> wf_token (payload_unpack raw)"
  by (simp add: wf_token_def payload_unpack_def token_lens Let_def)

section \<open>The checksum\<close>

lemma sum_halves:
  "push_bit 16 (ucast (ucast (drop_bit 16 s) :: u16)) OR ucast (ucast s :: u16) = (s :: u32)"
  by (rule bit_word_eqI) (auto simp: bit_simps)

lemma half_hi:
  "(ucast (drop_bit 16 (push_bit 16 (ucast (a :: u16)) OR ucast (b :: u16) :: u32)) :: u16) = a"
  by (rule bit_word_eqI) (auto simp: bit_simps dest: bit_imp_le_length)

lemma half_lo:
  "(ucast (push_bit 16 (ucast (a :: u16)) OR ucast (b :: u16) :: u32) :: u16) = b"
  by (rule bit_word_eqI) (auto simp: bit_simps)

text \<open>The shift register never merges two states: the polynomial's top bit records the bit
  shifted out.\<close>

lemma crc32_bit_eq: "crc32_bit c = drop_bit 1 c XOR (if bit c 0 then 0xedb88320 else 0)"
  by (simp add: crc32_bit_def and_1_bit)

lemma crc32_bit_31: "bit (crc32_bit c) 31 \<longleftrightarrow> bit c 0"
  using bit_imp_le_length [of c 32] by (auto simp: crc32_bit_eq bit_simps)

lemma inj_crc32_bit: "inj crc32_bit"
proof (rule injI)
  fix c d :: u32
  assume eq: "crc32_bit c = crc32_bit d"
  then have b0: "bit c 0 \<longleftrightarrow> bit d 0" using crc32_bit_31 by metis
  with eq have sh: "drop_bit 1 c = drop_bit 1 d" by (simp add: crc32_bit_eq)
  show "c = d"
  proof (rule bit_word_eqI)
    fix n
    show "bit c n = bit d n"
    proof (cases n)
      case (Suc m)
      then show ?thesis using arg_cong [OF sh, of "\<lambda>x. bit x m"] by (simp add: bit_simps)
    qed (simp add: b0)
  qed
qed

lemma inj_crc32_byte: "inj (\<lambda>c. crc32_byte c d)" "inj (crc32_byte c)"
proof -
  have pow: "(crc32_bit ^^ 8) x = (crc32_bit ^^ 8) y \<longleftrightarrow> x = y" for x y
    using inj_fn [OF inj_crc32_bit, of 8] by (simp add: inj_eq)
  have up: "a = b" if "(ucast a :: u32) = ucast b" for a b :: byte
  proof (rule bit_word_eqI)
    show "bit a n = bit b n" if "n < LENGTH(8)" for n
      using arg_cong [OF \<open>ucast a = ucast b\<close>, of "\<lambda>x. bit x n"] that by (simp add: bit_simps)
  qed
  show "inj (\<lambda>c. crc32_byte c d)" "inj (crc32_byte c)"
    by (auto intro!: injI up simp: crc32_byte_def pow)
qed

lemma crc32_fold_inj: "foldl crc32_byte c xs = foldl crc32_byte d xs \<longleftrightarrow> c = d"
  by (induction xs arbitrary: c d) (auto dest: injD [OF inj_crc32_byte(1)])

lemma crc32_one_byte:
  assumes "x \<noteq> y"
  shows "crc32 (xs @ x # ys) \<noteq> crc32 (xs @ y # ys)"
  using assms injD [OF inj_crc32_byte(2)]
  by (auto simp: crc32_def crc32_fold_inj)

section \<open>The wire form and its text\<close>

definition token_wire :: "token \<Rightarrow> byte list" where
  "token_wire tok =
     payload_pack tok @ put16 (ucast (drop_bit 16 (crc32 (payload_pack tok)))) @
     put16 (ucast (crc32 (payload_pack tok)))"

lemma length_token_wire [wf_simps]: "wf_token tok \<Longrightarrow> length (token_wire tok) = 94"
  using length_payload_pack [of tok] by (simp add: token_wire_def token_lens)

text \<open>The text width is enough: 130 base-58 digits hold 94 bytes.\<close>

lemma str_len_fits: "(256::nat) ^ 94 \<le> 58 ^ 130"
  by simp

lemma token_encode_some:
  assumes wf: "wf_token tok"
  obtains tmp where "base58_encode (token_wire tok) 131 = Some tmp" "tmp \<noteq> []"
    "length tmp \<le> 130"
    "token_encode tok n = (if n < 131 then None else Some (replicate (130 - length tmp) CHR ''1'' @ tmp))"
proof -
  note len = length_token_wire [OF wf]
  let ?z = "length (takeWhile (\<lambda>x. x = 0) (token_wire tok))"
  have bound: "?z + length (b58_digits (token_wire tok)) \<le> 130"
    using b58_length_bound [of "token_wire tok" 130] len str_len_fits by simp
  then obtain tmp where tmp: "base58_encode (token_wire tok) 131 = Some tmp"
    using base58_encode_eq [of "token_wire tok" 131] len by auto
  have "length tmp < 131" using base58_encode_SomeD(2) [OF tmp] .
  moreover have "tmp \<noteq> []"
  proof
    assume "tmp = []"
    with base58_roundtrip [OF tmp] len
    have "base58_decode [] 94 = Some (token_wire tok)" by simp
    then have "bval 256 (token_wire tok) = bval 256 (replicate 94 0)"
      by (simp add: base58_decode_iff digits_of_def)
    then have "token_wire tok = replicate 94 0"
      using len by (intro bval_256_inject) auto
    then have "takeWhile (\<lambda>x. x = 0) (token_wire tok) = replicate 94 0"
      by simp
    with tmp \<open>tmp = []\<close> show False
      using base58_encode_eq [of "token_wire tok" 131] len by (auto split: if_splits)
  qed
  moreover have "token_encode tok n =
     (if n < 131 then None else Some (replicate (130 - length tmp) CHR ''1'' @ tmp))"
    using tmp \<open>tmp \<noteq> []\<close> \<open>length tmp < 131\<close> length_payload_pack [OF wf]
    by (simp add: token_encode_def token_wire_def Let_def token_lens)
  ultimately show ?thesis using that tmp by simp
qed

text \<open>A text of full width stands for at most one token wire.\<close>

lemma padded_decodes:
  assumes tmp: "base58_encode wire n = Some tmp" and len: "length wire = 94" "length tmp \<le> 130"
  shows "base58_decode (replicate (130 - length tmp) CHR ''1'' @ tmp) 94 = Some wire"
proof -
  note D = base58_encode_SomeD [OF tmp]
  have "digits_of (replicate k CHR ''1'' @ tmp) = replicate k 0 @ digits_of tmp" for k
    by (simp add: digits_of_def)
  then show ?thesis using D len by (auto simp: base58_decode_iff val_append)
qed

lemma digits_of_inject:
  assumes "length s = length t" "val 58 (digits_of s) = val 58 (digits_of t)"
    and s: "\<forall>c \<in> set s. b58_value c \<noteq> None" and t: "\<forall>c \<in> set t. b58_value c \<noteq> None"
  shows "s = t"
proof -
  have "digits_of s = digits_of t"
    using assms by (intro val_inject) (auto simp: digits_of_lt digits_of_def dest: digits_of_lt)
  then have "map (\<lambda>d. alphabet ! d) (digits_of s) = map (\<lambda>d. alphabet ! d) (digits_of t)" by simp
  moreover have "map (\<lambda>d. alphabet ! d) (digits_of u) = u" if "\<forall>c \<in> set u. b58_value c \<noteq> None" for u
    using that by (fastforce simp: digits_of_def intro!: map_idI dest: b58_value_SomeD)
  ultimately show ?thesis using s t by simp
qed

lemma decode_of_wire:
  assumes "base58_decode s 94 = Some wire" and "length s = 130"
  shows "token_decode s =
     (if crc32 (take 90 wire) \<noteq> push_bit 16 (ucast (get16 (drop 90 wire))) OR
           ucast (get16 (drop 92 wire)) then Inl TOKEN_ERR
      else if wire ! 0 \<noteq> TOKEN_VERSION then Inl TOKEN_ERR_VERSION
      else Inr (payload_unpack wire))"
  using assms by (simp add: token_decode_def token_lens Let_def)

lemma token_decode_wire:
  assumes wf: "wf_token tok" and s: "base58_decode s 94 = Some (token_wire tok)" "length s = 130"
  shows "token_decode s =
     (if tk_version tok = TOKEN_VERSION then Inr tok else Inl TOKEN_ERR_VERSION)"
proof -
  have len: "length (payload_pack tok) = 90"
    using length_payload_pack [OF wf] by (simp add: token_lens)
  have "get16 (drop 92 (token_wire tok)) = ucast (crc32 (payload_pack tok))"
    using len get16_put16 [of _ "[]"] by (simp add: token_wire_def)
  moreover have "token_wire tok ! 0 = tk_version tok"
    by (simp add: token_wire_def payload_pack_def)
  ultimately show ?thesis
    using len payload_unpack_pack [OF wf] sum_halves [of "crc32 (payload_pack tok)"]
    by (simp add: decode_of_wire [OF s] token_wire_def)
qed

lemma token_decode_InrD:
  assumes "token_decode s = Inr tok"
  obtains wire where "length s = 130" "base58_decode s 94 = Some wire" "wf_token tok"
    "token_wire tok = wire" "tk_version tok = TOKEN_VERSION"
proof -
  from assms have len: "length s = 130"
    by (simp add: token_decode_def token_lens split: if_splits)
  from assms len obtain wire where w: "base58_decode s 94 = Some wire"
    by (auto simp: token_decode_def token_lens split: option.splits)
  then have lw: "length wire = 94" using len by (simp add: base58_decode_iff)
  from assms have crc: "crc32 (take 90 wire) = push_bit 16 (ucast (get16 (drop 90 wire))) OR
      ucast (get16 (drop 92 wire))" and v: "wire ! 0 = TOKEN_VERSION"
    and tok: "tok = payload_unpack wire"
    by (auto simp: decode_of_wire [OF w len] split: if_splits)
  have wf: "wf_token tok" using wf_payload_unpack [of wire] lw tok by (simp add: token_lens)
  have "payload_pack tok = take 90 wire"
    using payload_pack_unpack [of wire] lw tok by (simp add: token_lens)
  then have "token_wire tok = take 90 wire @ take 2 (drop 90 wire) @ take 2 (drop 92 wire)"
    using lw by (simp add: token_wire_def crc half_hi half_lo put16_get16_drop del: drop_bit_or)
  also have "\<dots> = wire" using take_join [of 90 wire 2 "drop 92 wire"] lw by simp
  finally have "token_wire tok = wire" .
  moreover have "tk_version tok = TOKEN_VERSION" using v tok by (simp add: payload_unpack_def Let_def)
  ultimately show ?thesis using that len w wf by blast
qed

section \<open>Properties\<close>

text \<open>Every token has a text, whatever its bytes: encoding into a large enough buffer never
  fails, and the text is exactly \<open>TOKEN_STR_LEN\<close> characters, all of them of the alphabet.\<close>

theorem token_encode_total:
  assumes "wf_token tok" and "TOKEN_STR_LEN + 1 \<le> n"
  shows "\<exists>s. token_encode tok n = Some s \<and> length s = TOKEN_STR_LEN \<and> set s \<subseteq> set alphabet"
proof -
  obtain tmp where tmp: "base58_encode (token_wire tok) 131 = Some tmp" "length tmp \<le> 130"
    "token_encode tok n = (if n < 131 then None else Some (replicate (130 - length tmp) CHR ''1'' @ tmp))"
    using token_encode_some [OF assms(1)] by blast
  have "c \<in> set alphabet" if "b58_value c \<noteq> None" for c
    using that b58_value_SomeD [of c] nth_mem [of _ alphabet] by force
  moreover have "CHR ''1'' \<in> set alphabet" by (simp add: alphabet_def)
  ultimately show ?thesis
    using tmp assms(2) base58_encode_SomeD(3) [OF tmp(1)] by (auto simp: token_lens)
qed

definition example_token :: token where
  "example_token =
     \<lparr>tk_version = 7, tk_flags = 0x30, tk_rdv = replicate 16 1, tk_auth = replicate 16 2,
      tk_hostpub = replicate 32 3, tk_ep6_addr = replicate 16 0, tk_ep6_port = 0,
      tk_ep4_addr = [192, 0, 2, 1], tk_ep4_port = 6881\<rparr>"

lemma wf_example_token: "wf_token example_token" "tk_version example_token = TOKEN_VERSION"
  by (simp_all add: wf_token_def example_token_def token_lens TOKEN_VERSION_def)

theorem token_encode_total_witness:
  "\<exists>s. token_encode example_token 131 = Some s \<and> length s = TOKEN_STR_LEN \<and>
       set s \<subseteq> set alphabet"
  using token_encode_total [OF wf_example_token(1), of 131] by (simp add: token_lens)

text \<open>C30. What one end encodes the other decodes: the text of a token of this version decodes to
  that very token, and the text of an intact token of another version is told apart as such.\<close>

theorem token_roundtrip:
  assumes "wf_token tok" and "token_encode tok n = Some s"
  shows "token_decode s =
     (if tk_version tok = TOKEN_VERSION then Inr tok else Inl TOKEN_ERR_VERSION)"
proof -
  obtain tmp where tmp: "base58_encode (token_wire tok) 131 = Some tmp" "length tmp \<le> 130"
    "token_encode tok n = (if n < 131 then None else Some (replicate (130 - length tmp) CHR ''1'' @ tmp))"
    using token_encode_some [OF assms(1)] by blast
  with assms(2) have s: "s = replicate (130 - length tmp) CHR ''1'' @ tmp"
    by (simp split: if_splits)
  show ?thesis
    using padded_decodes [OF tmp(1) length_token_wire [OF assms(1)] tmp(2)] tmp(2)
    by (intro token_decode_wire assms(1)) (simp_all add: s)
qed

theorem token_roundtrip_witness:
  "\<exists>s. token_encode example_token 131 = Some s \<and> token_decode s = Inr example_token"
proof -
  obtain tmp where "token_encode example_token 131 =
      Some (replicate (130 - length tmp) CHR ''1'' @ tmp)"
    using token_encode_some [OF wf_example_token(1), of 131] by auto
  then show ?thesis
    using token_roundtrip [OF wf_example_token(1)] wf_example_token(2) by auto
qed

text \<open>A token has exactly one text: any text that decodes is the very text encoding the
  decoded token gives, so no two different strings stand for one token.\<close>

theorem token_text_unique:
  assumes "token_decode s = Inr tok"
  shows "token_encode tok 131 = Some s"
proof -
  obtain wire where w: "length s = 130" "base58_decode s 94 = Some wire" "wf_token tok"
    "token_wire tok = wire" "tk_version tok = TOKEN_VERSION"
    using token_decode_InrD [OF assms] by blast
  obtain tmp where tmp: "base58_encode (token_wire tok) 131 = Some tmp" "length tmp \<le> 130"
    "token_encode tok 131 = Some (replicate (130 - length tmp) CHR ''1'' @ tmp)"
    using token_encode_some [OF w(3), of 131] by auto
  let ?t = "replicate (130 - length tmp) CHR ''1'' @ tmp"
  have "base58_decode ?t 94 = Some wire"
    using padded_decodes [OF tmp(1) length_token_wire [OF w(3)] tmp(2)] w(4) by simp
  then have "?t = s"
    using w(1,2) tmp(2) by (intro digits_of_inject) (auto simp: base58_decode_iff)
  then show ?thesis using tmp(3) by simp
qed

theorem token_text_unique_witness:
  "\<exists>s. token_decode s = Inr example_token \<and> token_encode example_token 131 = Some s"
proof -
  obtain tmp where t: "base58_encode (token_wire example_token) 131 = Some tmp"
    "length tmp \<le> 130"
    using token_encode_some [OF wf_example_token(1)] by blast
  let ?s = "replicate (130 - length tmp) CHR ''1'' @ tmp"
  have "token_decode ?s = Inr example_token"
    using token_decode_wire [OF wf_example_token(1) padded_decodes [OF t(1) _ t(2)]] t(2)
      length_token_wire [OF wf_example_token(1)] wf_example_token(2) by simp
  then show ?thesis using token_text_unique by blast
qed

text \<open>The checksum never lets a single damaged payload byte through: two wires that agree on
  the checksum bytes and differ in exactly one payload byte cannot both decode.\<close>

theorem token_one_byte_caught:
  assumes "base58_decode s 94 = Some (xs @ x # ys @ cs)"
    and "base58_decode t 94 = Some (xs @ y # ys @ cs)"
    and "length xs + length ys = 89" and "x \<noteq> y" and "token_decode s = Inr tok"
  shows "token_decode t = Inl TOKEN_ERR"
proof -
  have len: "length (xs @ x # ys @ cs) = 94" using assms(1,5)
    by (auto simp: base58_decode_iff elim: token_decode_InrD)
  have s: "length s = 130" using assms(5) by (rule token_decode_InrD)
  have "token_decode t = Inl TOKEN_ERR" if "length t = 130"
  proof -
    have "get16 (drop 90 (xs @ x # ys @ cs)) = get16 (drop 90 (xs @ y # ys @ cs))"
      "get16 (drop 92 (xs @ x # ys @ cs)) = get16 (drop 92 (xs @ y # ys @ cs))"
      using assms(3) by (simp_all add: drop_Cons')
    moreover have "take 90 (xs @ z # ys @ cs) = xs @ z # ys" for z
      using assms(3) by (simp add: take_Cons')
    ultimately show ?thesis
      using assms(5) crc32_one_byte [OF assms(4), of xs ys]
      by (simp add: decode_of_wire [OF assms(1) s] decode_of_wire [OF assms(2) that]
          split: if_splits)
  qed
  then show ?thesis by (cases "length t = 130") (auto simp: token_decode_def token_lens)
qed

lemma wire_has_text:
  assumes len: "length wire = 94"
  obtains s where "length s = 130" "base58_decode s 94 = Some wire"
proof -
  have "length (takeWhile (\<lambda>x. x = 0) wire) + length (b58_digits wire) \<le> 130"
    using b58_length_bound [of wire 130] len str_len_fits by simp
  then obtain tmp where tmp: "base58_encode wire 131 = Some tmp"
    using base58_encode_eq [of wire 131] len by auto
  then have "length tmp \<le> 130" using base58_encode_SomeD(2) by fastforce
  then show ?thesis
    using that [of "replicate (130 - length tmp) CHR ''1'' @ tmp"] padded_decodes [OF tmp len] by simp
qed

theorem token_one_byte_caught_witness:
  "\<exists>s t. token_decode s = Inr example_token \<and> token_decode t = Inl TOKEN_ERR \<and>
         base58_decode s 94 = Some (token_wire example_token) \<and>
         base58_decode t 94 = Some (8 # tl (token_wire example_token))"
proof -
  let ?w = "token_wire example_token"
  have len: "length ?w = 94" by (rule length_token_wire [OF wf_example_token(1)])
  obtain s where s: "length s = 130" "base58_decode s 94 = Some ?w"
    using wire_has_text [OF len] .
  obtain t where t: "length t = 130" "base58_decode t 94 = Some (8 # tl ?w)"
    using wire_has_text [of "8 # tl ?w"] len by auto
  have hd: "?w = 7 # tl ?w"
    by (simp add: token_wire_def payload_pack_def example_token_def)
  have split: "tl ?w = take 89 (tl ?w) @ drop 89 (tl ?w)" by simp
  have "token_decode s = Inr example_token"
    using token_decode_wire [OF wf_example_token(1) s(2,1)] wf_example_token(2) by simp
  moreover from this have "token_decode t = Inl TOKEN_ERR"
    using token_one_byte_caught [of s "[]" 7 "take 89 (tl ?w)" "drop 89 (tl ?w)" t 8]
      s t hd len by simp
  ultimately show ?thesis using s t by blast
qed

section \<open>Family states\<close>

lemma flag_bits:
  "(x AND 4 \<noteq> 0) = bit x 2" "(x AND 8 \<noteq> 0) = bit x 3"
  "(x AND 16 \<noteq> 0) = bit x 4" "(x AND 32 \<noteq> 0) = bit x 5" for x :: byte
  using and_exp [of x 2] and_exp [of x 3] and_exp [of x 4] and_exp [of x 5] by simp_all

lemma token_family_state_bits:
  "token_family_state tok f =
     (let a = (if f = 6 then tk_ep6_addr tok else tk_ep4_addr tok);
          rdv = (if f = 6 then bit (tk_flags tok) 2 else bit (tk_flags tok) 3);
          st = (if f = 6 then bit (tk_flags tok) 4 else bit (tk_flags tok) 5)
      in if \<exists>x \<in> set a. x \<noteq> 0
         then (if rdv then TOKEN_STATE_RENDEZVOUS else TOKEN_STATE_DIRECT)
         else (if st then TOKEN_STATE_NONE else TOKEN_STATE_PENDING))"
  unfolding token_family_state_def token_flags Let_def if_distrib [of "\<lambda>m. _ AND m \<noteq> 0"]
  by (simp only: flag_bits)

text \<open>The family state written is the state read, and writing one family leaves the other
  alone: a carried address must be non-zero, since the all-zero slot is how the two addressless
  states are told apart.\<close>

theorem token_family_roundtrip:
  assumes "f \<in> {4, 6}" and "g \<in> {4, 6}"
    and "st \<in> {TOKEN_STATE_RENDEZVOUS, TOKEN_STATE_DIRECT} \<Longrightarrow>
         \<exists>x \<in> set (take (if f = 6 then 16 else 4) addr). x \<noteq> 0"
  shows "token_family_state (token_set_family tok f st addr port) g =
         (if g = f then st else token_family_state tok g)"
proof -
  note defs = token_family_state_bits token_set_family_def token_flags token_lens Let_def bit_simps
  from assms(1,2) consider "f = 4" "g = 4" | "f = 4" "g = 6" | "f = 6" "g = 4" | "f = 6" "g = 6"
    by auto
  then show ?thesis
  proof cases
    case 1 then show ?thesis using assms(3) by (cases st) (simp_all add: defs)
  next
    case 2 then show ?thesis by (cases st) (simp_all add: defs)
  next
    case 3 then show ?thesis by (cases st) (simp_all add: defs)
  next
    case 4 then show ?thesis using assms(3) by (cases st) (simp_all add: defs)
  qed
qed

theorem token_family_roundtrip_witness:
  "token_family_state (token_set_family example_token 6 TOKEN_STATE_DIRECT (replicate 16 7) 22) 6
   = TOKEN_STATE_DIRECT"
  by (subst token_family_roundtrip) auto

end
