(* ===== verification/Rdv_Msg.thy ===== *)
theory Rdv_Msg
  imports Prelude
begin

text \<open>
  The rendezvous statement of rdv.c and rdv.h: its header and payload, the codec
  \<open>rdv_encode\<close>/\<open>rdv_decode\<close> and the addressing test. A payload is the list of its first
  \<open>payload_len\<close> bytes. Round trip in both directions and the size bounds are proved.
\<close>

type_synonym cid = "byte list"

definition RDV_VERSION :: byte where "RDV_VERSION = 3"
definition RDV_CID_LEN :: nat where "RDV_CID_LEN = 8"
definition RDV_MAX_PAYLOAD :: nat where "RDV_MAX_PAYLOAD = 760"
definition RDV_HOST_PAYLOAD :: nat where "RDV_HOST_PAYLOAD = 64"
definition RDV_HDR_LEN :: nat where
  "RDV_HDR_LEN = 1 + 1 + 4 + RDV_CID_LEN + RDV_CID_LEN + 4 + 4 + 2"
definition RDV_MAX_MSG :: nat where "RDV_MAX_MSG = RDV_HDR_LEN + RDV_MAX_PAYLOAD"

lemmas rdv_lens = RDV_CID_LEN_def RDV_MAX_PAYLOAD_def RDV_HOST_PAYLOAD_def RDV_HDR_LEN_def
  RDV_MAX_MSG_def

text \<open>\<open>enum rdv_kind\<close>, as the byte that travels.\<close>

definition RDV_HOSTINFO :: byte where "RDV_HOSTINFO = 1"
definition RDV_OFFER :: byte where "RDV_OFFER = 2"
definition RDV_ANSWER :: byte where "RDV_ANSWER = 3"
definition RDV_REFUSE :: byte where "RDV_REFUSE = 4"
definition RDV_TOMB :: byte where "RDV_TOMB = 5"

lemmas rdv_kinds = RDV_HOSTINFO_def RDV_OFFER_def RDV_ANSWER_def RDV_REFUSE_def RDV_TOMB_def

record rdv_msg =
  rm_kind :: byte
  rm_gen :: u32
  rm_from :: cid
  rm_to :: cid
  rm_seq :: u32
  rm_re :: u32
  rm_payload :: "byte list"

definition rdv_zero :: cid where "rdv_zero = replicate RDV_CID_LEN 0"

datatype rdv_err = RDV_ERR | RDV_ERR_VERSION

definition rdv_encode :: "rdv_msg \<Rightarrow> nat \<Rightarrow> byte list option" where
  "rdv_encode m maxlen =
     (if RDV_MAX_PAYLOAD < length (rm_payload m) then None
      else if maxlen < RDV_HDR_LEN + length (rm_payload m) then None
      else Some ([RDV_VERSION, rm_kind m] @ put32 (rm_gen m) @ rm_from m @ rm_to m @
                 put32 (rm_seq m) @ put32 (rm_re m) @
                 put16 (of_nat (length (rm_payload m))) @ rm_payload m))"

definition rdv_decode :: "byte list \<Rightarrow> rdv_err + rdv_msg" where
  "rdv_decode inp =
     (if length inp < 1 then Inl RDV_ERR
      else if inp ! 0 \<noteq> RDV_VERSION then Inl RDV_ERR_VERSION
      else if length inp < RDV_HDR_LEN then Inl RDV_ERR
      else if inp ! 1 < RDV_HOSTINFO \<or> RDV_TOMB < inp ! 1 then Inl RDV_ERR
      else
        (let o1 = 2; o2 = o1 + 4; o3 = o2 + RDV_CID_LEN; o4 = o3 + RDV_CID_LEN;
             o5 = o4 + 4; o6 = o5 + 4; o7 = o6 + 2;
             payload_len = unat (get16 (drop o6 inp))
         in if RDV_MAX_PAYLOAD < payload_len \<or> o7 + payload_len \<noteq> length inp then Inl RDV_ERR
            else Inr \<lparr>rm_kind = inp ! 1, rm_gen = get32 (drop o1 inp),
                      rm_from = take RDV_CID_LEN (drop o2 inp),
                      rm_to = take RDV_CID_LEN (drop o3 inp),
                      rm_seq = get32 (drop o4 inp), rm_re = get32 (drop o5 inp),
                      rm_payload = take payload_len (drop o7 inp)\<rparr>))"

definition rdv_addressed_to :: "cid \<Rightarrow> cid \<Rightarrow> bool" where
  "rdv_addressed_to to cid = (if to = rdv_zero then True else to = cid)"

text \<open>What the structure's arrays and enumeration admit.\<close>

definition wf_rdv_msg :: "rdv_msg \<Rightarrow> bool" where
  "wf_rdv_msg m \<longleftrightarrow>
     RDV_HOSTINFO \<le> rm_kind m \<and> rm_kind m \<le> RDV_TOMB \<and>
     length (rm_from m) = RDV_CID_LEN \<and> length (rm_to m) = RDV_CID_LEN \<and>
     length (rm_payload m) \<le> RDV_MAX_PAYLOAD"

lemma rdv_decode_encode [codec_simps]:
  assumes wf: "wf_rdv_msg m" and e: "rdv_encode m maxlen = Some bs"
  shows "rdv_decode bs = Inr m"
proof -
  have len: "length (rm_from m) = 8" "length (rm_to m) = 8" "length (rm_payload m) \<le> 760"
    using wf by (simp_all add: wf_rdv_msg_def rdv_lens)
  have k: "\<not> rm_kind m < 1" "\<not> 5 < rm_kind m"
    using wf by (auto simp: wf_rdv_msg_def rdv_kinds not_less)
  have bs: "bs = [RDV_VERSION, rm_kind m] @ put32 (rm_gen m) @ rm_from m @ rm_to m @
      put32 (rm_seq m) @ put32 (rm_re m) @
      put16 (of_nat (length (rm_payload m))) @ rm_payload m"
    using e by (auto simp: rdv_encode_def split: if_splits)
  have "unat (of_nat (length (rm_payload m)) :: u16) = length (rm_payload m)"
    using len by (simp add: unat_of_nat)
  then show ?thesis
    using len k by (simp add: bs rdv_decode_def rdv_lens rdv_kinds Let_def)
qed

lemma rdv_encode_length: "rdv_encode m maxlen = Some bs \<Longrightarrow> wf_rdv_msg m \<Longrightarrow>
   length bs = RDV_HDR_LEN + length (rm_payload m) \<and> length bs \<le> maxlen \<and> length bs \<le> RDV_MAX_MSG"
  by (auto simp: rdv_encode_def wf_rdv_msg_def rdv_lens split: if_splits)

lemma rdv_encode_some: "wf_rdv_msg m \<Longrightarrow> RDV_MAX_MSG \<le> maxlen \<Longrightarrow> \<exists>bs. rdv_encode m maxlen = Some bs"
  by (simp add: rdv_encode_def wf_rdv_msg_def rdv_lens)

lemma rdv_encode_decode [codec_simps]:
  assumes d: "rdv_decode bs = Inr m"
  shows "wf_rdv_msg m" "rdv_encode m RDV_MAX_MSG = Some bs"
proof -
  define n where "n = unat (get16 (drop 30 bs))"
  from d have len: "length bs = 32 + n" "n \<le> 760" and v: "bs ! 0 = RDV_VERSION"
    and k: "RDV_HOSTINFO \<le> bs ! 1" "bs ! 1 \<le> RDV_TOMB"
    and m: "m = \<lparr>rm_kind = bs ! 1, rm_gen = get32 (drop 2 bs), rm_from = take 8 (drop 6 bs),
                 rm_to = take 8 (drop 14 bs), rm_seq = get32 (drop 22 bs),
                 rm_re = get32 (drop 26 bs), rm_payload = take n (drop 32 bs)\<rparr>"
    by (auto simp: rdv_decode_def Let_def rdv_lens not_less n_def split: if_splits)
  from len k show wf: "wf_rdv_msg m" by (simp add: m wf_rdv_msg_def rdv_lens)
  have n16: "of_nat n = get16 (drop 30 bs)" by (simp add: n_def)
  have two: "RDV_VERSION # bs ! Suc 0 # ys = take 2 bs @ ys" for ys
    using len v by (cases bs; cases "tl bs") auto
  have "take 30 bs @ take 2 (drop 30 bs) @ drop 32 bs = bs"
    using take_join [of 30 bs 2 "drop 32 bs"] by simp
  then show "rdv_encode m RDV_MAX_MSG = Some bs"
    using len
    by (simp add: rdv_encode_def m rdv_lens put32_get32_drop put16_get16_drop two n16
        take_join [of 2 bs 4] take_join [of 6 bs 8] take_join [of 14 bs 8]
        take_join [of 22 bs 4] take_join [of 26 bs 4])
qed

section \<open>Properties\<close>

text \<open>The statement codec is a bijection between well-formed statements and the byte strings
  the decoder takes: a statement encodes whenever the buffer holds the largest message, decodes
  back to itself and never exceeds that size, and whatever decodes re-encodes to the same bytes.\<close>

theorem rdv_codec:
  assumes "wf_rdv_msg m"
  shows "\<exists>bs. rdv_encode m RDV_MAX_MSG = Some bs \<and> length bs \<le> RDV_MAX_MSG \<and>
              rdv_decode bs = Inr m \<and>
              (\<forall>m'. rdv_decode bs = Inr m' \<longrightarrow> rdv_encode m' RDV_MAX_MSG = Some bs)"
  using rdv_encode_some [OF assms order_refl] rdv_encode_length [of m RDV_MAX_MSG] assms
    rdv_decode_encode [OF assms] rdv_encode_decode(2) by blast

theorem rdv_codec_witness:
  "\<exists>bs. rdv_encode \<lparr>rm_kind = 2, rm_gen = 1, rm_from = replicate 8 9, rm_to = replicate 8 0,
                   rm_seq = 5, rm_re = 0, rm_payload = [1, 2, 3]\<rparr> RDV_MAX_MSG = Some bs \<and>
        length bs \<le> RDV_MAX_MSG"
  using rdv_codec [of "\<lparr>rm_kind = 2, rm_gen = 1, rm_from = replicate 8 9, rm_to = replicate 8 0,
                   rm_seq = 5, rm_re = 0, rm_payload = [1, 2, 3]\<rparr>"]
  by (auto simp: wf_rdv_msg_def rdv_lens rdv_kinds)

end
