(* ===== verification/Rdv_Host.thy ===== *)
theory Rdv_Host
  imports Rdv_Msg
begin

text \<open>
  The host's side of the rendezvous (rdv.c): the table of claimants, the turn in the shared
  cell, what the host states next. Every operation of the table is a definition; their
  interleavings in any order are the step relation \<open>rdv_host_step\<close>. The invariant says that
  \<open>answered\<close> counts the answered claimants, that the cell carries the answer to at most one
  claimant, and that no two slots name the same one.
\<close>

definition RDV_HOST_MAX :: nat where "RDV_HOST_MAX = 16"

definition RDV_REFUSE_NONE :: byte where "RDV_REFUSE_NONE = 0"
definition RDV_REFUSE_FULL :: byte where "RDV_REFUSE_FULL = 1"

datatype rdv_seal = RDV_SEAL_INFO | RDV_SEAL_CLASS

record rdv_out =
  ro_msg :: "byte list"
  ro_seal :: rdv_seal

datatype rdv_cstate = RDV_C_FREE | RDV_C_HARVESTED | RDV_C_ANSWERED | RDV_C_REFUSED | RDV_C_GONE

record rdv_claimant =
  rc_cid :: cid
  rc_last_seq :: u32
  rc_answer_re :: u32
  rc_state :: rdv_cstate
  rc_have_seq :: bool
  rc_pending :: bool
  rc_holds :: bool
  rc_wide_ask :: bool
  rc_refusal :: byte
  rc_grade :: byte
  rc_answer :: "byte list"

record rdv_host =
  rh_cid :: cid
  rh_gen :: u32
  rh_seq :: u32
  rh_grant :: int
  rh_answered :: int
  rh_c :: "rdv_claimant list"
  rh_info_pending :: bool
  rh_turn_spent :: bool
  rh_gone :: bool

text \<open>\<open>memset(c, 0, sizeof *c)\<close>.\<close>

definition claimant_zero :: rdv_claimant where
  "claimant_zero =
     \<lparr>rc_cid = rdv_zero, rc_last_seq = 0, rc_answer_re = 0, rc_state = RDV_C_FREE,
      rc_have_seq = False, rc_pending = False, rc_holds = False, rc_wide_ask = False,
      rc_refusal = RDV_REFUSE_NONE, rc_grade = 0, rc_answer = []\<rparr>"

definition rdv_host_init :: "cid \<Rightarrow> u32 \<Rightarrow> int \<Rightarrow> rdv_host" where
  "rdv_host_init cid gen grant =
     \<lparr>rh_cid = cid, rh_gen = gen, rh_seq = 0, rh_grant = grant, rh_answered = 0,
      rh_c = replicate RDV_HOST_MAX claimant_zero, rh_info_pending = True,
      rh_turn_spent = False, rh_gone = False\<rparr>"

definition rdv_host_set_gen :: "rdv_host \<Rightarrow> u32 \<Rightarrow> rdv_host" where
  "rdv_host_set_gen h gen =
     (if gen = rh_gen h then h else h\<lparr>rh_gen := gen, rh_info_pending := True\<rparr>)"

definition rdv_host_entomb :: "rdv_host \<Rightarrow> rdv_host" where
  "rdv_host_entomb h = h\<lparr>rh_gone := True, rh_info_pending := True\<rparr>"

definition rdv_host_find :: "rdv_host \<Rightarrow> cid \<Rightarrow> nat option" where
  "rdv_host_find h cid =
     find_index (\<lambda>c. rc_state c \<noteq> RDV_C_FREE \<and> rc_cid c = cid) (rh_c h)"

definition host_evict :: "rdv_host \<Rightarrow> rdv_cstate \<Rightarrow> nat option" where
  "host_evict h st = find_index (\<lambda>c. rc_state c = st) (rh_c h)"

text \<open>Writing one field of slot \<open>i\<close>.\<close>

definition upd_c :: "rdv_host \<Rightarrow> nat \<Rightarrow> (rdv_claimant \<Rightarrow> rdv_claimant) \<Rightarrow> rdv_host" where
  "upd_c h i f = h\<lparr>rh_c := (rh_c h)[i := f (rh_c h ! i)]\<rparr>"

definition host_admit :: "rdv_host \<Rightarrow> cid \<Rightarrow> rdv_host \<times> nat option" where
  "host_admit h cid =
     (case rdv_host_find h cid of
        Some i \<Rightarrow> (h, Some i)
      | None \<Rightarrow>
          (let victim =
             (case host_evict h RDV_C_FREE of Some i \<Rightarrow> Some i
              | None \<Rightarrow> (case host_evict h RDV_C_GONE of Some i \<Rightarrow> Some i
                         | None \<Rightarrow> host_evict h RDV_C_REFUSED))
           in case victim of
                None \<Rightarrow> (h, None)
              | Some i \<Rightarrow>
                  (upd_c h i (\<lambda>_. claimant_zero\<lparr>rc_cid := cid, rc_state := RDV_C_HARVESTED\<rparr>),
                   Some i)))"

definition answer_stands :: "rdv_host \<Rightarrow> nat \<Rightarrow> bool" where
  "answer_stands h skip \<longleftrightarrow> (\<exists>i < length (rh_c h). i \<noteq> skip \<and> rc_holds (rh_c h ! i))"

definition rdv_host_turn_spent :: "rdv_host \<Rightarrow> bool" where
  "rdv_host_turn_spent h = rh_turn_spent h"

definition rdv_host_turn_kept :: "rdv_host \<Rightarrow> rdv_host" where
  "rdv_host_turn_kept h = h\<lparr>rh_turn_spent := False\<rparr>"

definition rdv_host_busy :: "rdv_host \<Rightarrow> bool" where
  "rdv_host_busy h \<longleftrightarrow>
     (\<exists>c \<in> set (rh_c h). rc_state c = RDV_C_HARVESTED \<or> rc_pending c \<or> rc_holds c)"

definition rdv_host_release :: "rdv_host \<Rightarrow> cid \<Rightarrow> rdv_host" where
  "rdv_host_release h cid =
     (case rdv_host_find h cid of
        Some i \<Rightarrow>
          (let h = upd_c h i (\<lambda>c. c\<lparr>rc_holds := False\<rparr>)
           in if rc_pending (rh_c h ! i) then h
              else h\<lparr>rh_info_pending := True, rh_turn_spent := True\<rparr>)
      | None \<Rightarrow> h\<lparr>rh_info_pending := True, rh_turn_spent := True\<rparr>)"

text \<open>The state changes of an offer taken from claimant \<open>i\<close>, in the order of the source.\<close>

definition slot_take :: "rdv_host \<Rightarrow> nat \<Rightarrow> u32 \<Rightarrow> rdv_host" where
  "slot_take h i seq =
     (let h = upd_c h i (\<lambda>c. c\<lparr>rc_last_seq := seq, rc_have_seq := True\<rparr>);
          h = h\<lparr>rh_turn_spent := False\<rparr>;
          h = h\<lparr>rh_c := map (\<lambda>c. c\<lparr>rc_holds := False\<rparr>) (rh_c h)\<rparr>;
          h = (if rc_state (rh_c h ! i) = RDV_C_ANSWERED
               then (upd_c h i (\<lambda>c. c\<lparr>rc_state := RDV_C_HARVESTED\<rparr>))
                      \<lparr>rh_answered := (if 0 < rh_answered h then rh_answered h - 1
                                     else rh_answered h)\<rparr>
               else h)
      in if rc_state (rh_c h ! i) = RDV_C_GONE \<or> rc_state (rh_c h ! i) = RDV_C_REFUSED
         then upd_c h i (\<lambda>c. c\<lparr>rc_state := RDV_C_HARVESTED\<rparr>) else h)"

text \<open>The claimant is turned away because the grant is used up.\<close>

definition slot_refused :: "rdv_claimant \<Rightarrow> rdv_claimant" where
  "slot_refused c =
     c\<lparr>rc_state := RDV_C_REFUSED, rc_refusal := RDV_REFUSE_FULL, rc_pending := True,
       rc_answer_re := rc_last_seq c\<rparr>"

definition rdv_host_slot :: "rdv_host \<Rightarrow> rdv_msg \<Rightarrow> bool \<times> rdv_host" where
  "rdv_host_slot h m =
     (if rm_kind m \<noteq> RDV_OFFER then (False, h)
      else if rm_from m = rdv_zero then (False, h)
      else if \<not> rdv_addressed_to (rm_to m) (rh_cid h) then (False, h)
      else case host_admit h (rm_from m) of
             (h, None) \<Rightarrow> (False, h)
           | (h, Some i) \<Rightarrow>
               if rc_have_seq (rh_c h ! i) \<and> rm_seq m \<le> rc_last_seq (rh_c h ! i) then (False, h)
               else
                 (let h = slot_take h i (rm_seq m)
                  in if rh_grant h \<noteq> 0 \<and> rh_grant h \<le> rh_answered h
                     then (False, upd_c h i slot_refused)
                     else (True, h)))"

definition rdv_host_answer :: "rdv_host \<Rightarrow> cid \<Rightarrow> byte list \<Rightarrow> rdv_host" where
  "rdv_host_answer h cid payload =
     (case rdv_host_find h cid of
        None \<Rightarrow> h
      | Some i \<Rightarrow>
          if RDV_MAX_PAYLOAD < length payload then h
          else
            (let h = (if rc_state (rh_c h ! i) \<noteq> RDV_C_ANSWERED
                      then h\<lparr>rh_answered := rh_answered h + 1\<rparr> else h)
             in upd_c h i (\<lambda>c. c\<lparr>rc_state := RDV_C_ANSWERED, rc_refusal := RDV_REFUSE_NONE,
                    rc_pending := True, rc_answer_re := rc_last_seq c, rc_answer := payload\<rparr>)))"

definition rdv_host_unsent :: "rdv_host \<Rightarrow> cid \<Rightarrow> rdv_host" where
  "rdv_host_unsent h cid =
     (case rdv_host_find h cid of
        None \<Rightarrow> h
      | Some i \<Rightarrow>
          if rc_state (rh_c h ! i) = RDV_C_GONE then h
          else upd_c h i (\<lambda>c. c\<lparr>rc_pending := True, rc_holds := False\<rparr>))"

definition rdv_host_refuse :: "rdv_host \<Rightarrow> cid \<Rightarrow> byte \<Rightarrow> rdv_host" where
  "rdv_host_refuse h cid reason =
     (case rdv_host_find h cid of
        None \<Rightarrow> h
      | Some i \<Rightarrow>
          (let h = (if rc_state (rh_c h ! i) = RDV_C_ANSWERED \<and> 0 < rh_answered h
                    then h\<lparr>rh_answered := rh_answered h - 1\<rparr> else h)
           in upd_c h i (\<lambda>c. c\<lparr>rc_state := RDV_C_REFUSED, rc_refusal := reason,
                  rc_pending := True, rc_answer_re := rc_last_seq c, rc_answer := []\<rparr>)))"

text \<open>The claimant's own part of \<open>rdv_host_keep\<close>, from its state onwards.\<close>

definition keep_claimant :: "rdv_claimant \<Rightarrow> rdv_claimant" where
  "keep_claimant c =
     (let c = c\<lparr>rc_state := RDV_C_ANSWERED\<rparr>;
          c = (if \<not> rc_pending c then c\<lparr>rc_pending := \<not> rc_holds c\<rparr> else c)
      in if rc_pending c then c\<lparr>rc_answer_re := rc_last_seq c\<rparr> else c)"

definition rdv_host_keep :: "rdv_host \<Rightarrow> cid \<Rightarrow> rdv_host" where
  "rdv_host_keep h cid =
     (case rdv_host_find h cid of
        None \<Rightarrow> h
      | Some i \<Rightarrow>
          (let c = rh_c h ! i
           in if rc_state c = RDV_C_GONE then h
              else if rc_state c \<noteq> RDV_C_REFUSED \<and> rc_answer c = [] then h
              else
                (let h = (if rc_state c \<noteq> RDV_C_ANSWERED
                          then h\<lparr>rh_answered := rh_answered h + 1\<rparr> else h)
                 in upd_c h i keep_claimant)))"

definition rdv_host_forget :: "rdv_host \<Rightarrow> cid \<Rightarrow> rdv_host" where
  "rdv_host_forget h cid =
     (case rdv_host_find h cid of
        None \<Rightarrow> h
      | Some i \<Rightarrow>
          (let h = (if rc_state (rh_c h ! i) = RDV_C_ANSWERED \<and> 0 < rh_answered h
                    then h\<lparr>rh_answered := rh_answered h - 1\<rparr> else h);
               h = upd_c h i (\<lambda>c. c\<lparr>rc_state := RDV_C_GONE, rc_pending := False,
                      rc_holds := False, rc_answer := []\<rparr>)
           in h\<lparr>rh_info_pending := True, rh_turn_spent := True\<rparr>))"

text \<open>\<open>out_slot\<close> with the encoded message beside it: the value \<open>rdv_host_next\<close> hands out.\<close>

definition out_slot :: "byte list \<Rightarrow> rdv_seal \<Rightarrow> rdv_out" where
  "out_slot msg seal = \<lparr>ro_msg = msg, ro_seal = seal\<rparr>"

definition host_info_msg :: "rdv_host \<Rightarrow> byte list \<Rightarrow> rdv_msg" where
  "host_info_msg h info =
     \<lparr>rm_kind = (if rh_gone h then RDV_TOMB else RDV_HOSTINFO), rm_gen = rh_gen h,
      rm_from = rh_cid h, rm_to = rdv_zero, rm_seq = rh_seq h, rm_re = 0, rm_payload = info\<rparr>"

definition host_reply_msg :: "rdv_host \<Rightarrow> nat \<Rightarrow> rdv_msg" where
  "host_reply_msg h i =
     (let c = rh_c h ! i;
          kind = (if rc_state c = RDV_C_REFUSED then RDV_REFUSE else RDV_ANSWER)
      in \<lparr>rm_kind = kind, rm_gen = rh_gen h, rm_from = rh_cid h, rm_to = rc_cid c,
          rm_seq = rh_seq h, rm_re = rc_answer_re c,
          rm_payload = (if kind = RDV_REFUSE then [rc_refusal c] else rc_answer c)\<rparr>)"

definition rdv_host_next :: "rdv_host \<Rightarrow> byte list \<Rightarrow> rdv_out option \<times> rdv_host" where
  "rdv_host_next h info =
     (if rh_info_pending h then
        (if RDV_HOST_PAYLOAD < length info then (None, h)
         else
           (let h = h\<lparr>rh_seq := rh_seq h + 1\<rparr>
            in case rdv_encode (host_info_msg h info) RDV_MAX_MSG of
                 None \<Rightarrow> (None, h)
               | Some msg \<Rightarrow> (Some (out_slot msg RDV_SEAL_INFO), h\<lparr>rh_info_pending := False\<rparr>)))
      else
        (case find_index (\<lambda>i. rc_pending (rh_c h ! i) \<and> \<not> answer_stands h i)
                [0..<length (rh_c h)] of
           None \<Rightarrow> (None, h)
         | Some i \<Rightarrow>
             (let h = h\<lparr>rh_seq := rh_seq h + 1\<rparr>
              in case rdv_encode (host_reply_msg h i) RDV_MAX_MSG of
                   None \<Rightarrow> (None, h)
                 | Some msg \<Rightarrow>
                     (Some (out_slot msg RDV_SEAL_CLASS),
                      upd_c h i (\<lambda>c. c\<lparr>rc_pending := False, rc_holds := True\<rparr>)))))"

section \<open>The invariant of the claimant table\<close>

definition claimant_ok :: "rdv_claimant \<Rightarrow> bool" where
  "claimant_ok c \<longleftrightarrow>
     length (rc_cid c) = RDV_CID_LEN \<and> length (rc_answer c) \<le> RDV_MAX_PAYLOAD \<and>
     (rc_state c \<in> {RDV_C_FREE, RDV_C_GONE} \<longrightarrow> \<not> rc_pending c \<and> \<not> rc_holds c)"

abbreviation answered_in :: "rdv_claimant list \<Rightarrow> int" where
  "answered_in cs \<equiv> int (length (filter (\<lambda>c. rc_state c = RDV_C_ANSWERED) cs))"

definition table_inv :: "rdv_claimant list \<Rightarrow> int \<Rightarrow> bool" where
  "table_inv cs n \<longleftrightarrow>
     length cs = RDV_HOST_MAX \<and> n = answered_in cs \<and> (\<forall>c \<in> set cs. claimant_ok c) \<and>
     (\<forall>i < length cs. \<forall>j < length cs. rc_holds (cs ! i) \<longrightarrow> rc_holds (cs ! j) \<longrightarrow> i = j) \<and>
     (\<forall>i < length cs. \<forall>j < length cs.
        rc_state (cs ! i) \<noteq> RDV_C_FREE \<longrightarrow> rc_state (cs ! j) \<noteq> RDV_C_FREE \<longrightarrow>
        rc_cid (cs ! i) = rc_cid (cs ! j) \<longrightarrow> i = j)"

definition host_inv :: "rdv_host \<Rightarrow> bool" where
  "host_inv h \<longleftrightarrow> length (rh_cid h) = RDV_CID_LEN \<and> table_inv (rh_c h) (rh_answered h)"

lemma upd_c_simps [simp]:
  "rh_c (upd_c h i f) = (rh_c h)[i := f (rh_c h ! i)]" "rh_cid (upd_c h i f) = rh_cid h"
  "rh_answered (upd_c h i f) = rh_answered h" "rh_grant (upd_c h i f) = rh_grant h"
  "rh_seq (upd_c h i f) = rh_seq h" "rh_gen (upd_c h i f) = rh_gen h"
  "rh_info_pending (upd_c h i f) = rh_info_pending h"
  "rh_turn_spent (upd_c h i f) = rh_turn_spent h" "rh_gone (upd_c h i f) = rh_gone h"
  by (simp_all add: upd_c_def)

text \<open>One slot is rewritten: what has to be checked.\<close>

lemma table_inv_upd:
  assumes inv: "table_inv cs n" and i: "i < length cs" and ok: "claimant_ok c"
    and cid: "rc_cid c = rc_cid (cs ! i) \<and> rc_state (cs ! i) \<noteq> RDV_C_FREE \<or>
              (\<forall>j < length cs. rc_state (cs ! j) \<noteq> RDV_C_FREE \<longrightarrow> rc_cid (cs ! j) \<noteq> rc_cid c)"
    and holds: "rc_holds c \<longrightarrow> rc_holds (cs ! i) \<or>
              (\<forall>j < length cs. j \<noteq> i \<longrightarrow> \<not> rc_holds (cs ! j))"
    and n': "n' = n - of_bool (rc_state (cs ! i) = RDV_C_ANSWERED)
               + of_bool (rc_state c = RDV_C_ANSWERED)"
  shows "table_inv (cs[i := c]) n'"
proof -
  have "\<forall>d \<in> set (cs[i := c]). claimant_ok d"
    using inv ok set_update_subset_insert [of cs i c] by (auto simp: table_inv_def)
  moreover have "n' = answered_in (cs[i := c])"
    using inv n' i by (simp add: count_list_update table_inv_def)
  moreover have "\<forall>j < length cs. \<forall>k < length cs.
      rc_holds (cs[i := c] ! j) \<longrightarrow> rc_holds (cs[i := c] ! k) \<longrightarrow> j = k"
    using inv i holds by (auto simp: table_inv_def nth_list_update)
  moreover have "\<forall>j < length cs. \<forall>k < length cs. rc_state (cs[i := c] ! j) \<noteq> RDV_C_FREE \<longrightarrow>
      rc_state (cs[i := c] ! k) \<noteq> RDV_C_FREE \<longrightarrow> rc_cid (cs[i := c] ! j) = rc_cid (cs[i := c] ! k) \<longrightarrow>
      j = k"
    using inv i cid by (auto simp: table_inv_def nth_list_update)
  ultimately show ?thesis using inv by (simp add: table_inv_def)
qed

lemma table_invD:
  assumes "table_inv cs n" "i < length cs"
  shows "claimant_ok (cs ! i)" "rc_state (cs ! i) = RDV_C_ANSWERED \<Longrightarrow> 0 < n"
proof -
  show "claimant_ok (cs ! i)" using assms by (simp add: table_inv_def)
  assume "rc_state (cs ! i) = RDV_C_ANSWERED"
  then have "cs ! i \<in> set (filter (\<lambda>c. rc_state c = RDV_C_ANSWERED) cs)" using assms(2) by simp
  then have "0 < length (filter (\<lambda>c. rc_state c = RDV_C_ANSWERED) cs)"
    by (rule length_pos_if_in_set)
  then show "0 < n" using assms(1) by (simp add: table_inv_def)
qed

lemma table_inv_holds_clear:
  assumes "table_inv cs n"
  shows "table_inv (map (\<lambda>c. c\<lparr>rc_holds := False\<rparr>) cs) n"
proof -
  have "answered_in (map (\<lambda>c. c\<lparr>rc_holds := False\<rparr>) cs) = answered_in cs"
    by (simp add: filter_map o_def)
  then show ?thesis using assms by (auto simp: table_inv_def claimant_ok_def)
qed

lemma rdv_host_find_SomeD:
  assumes "rdv_host_find h cid = Some i"
  shows "i < length (rh_c h)" "rc_state (rh_c h ! i) \<noteq> RDV_C_FREE" "rc_cid (rh_c h ! i) = cid"
  using find_index_SomeD [OF assms [unfolded rdv_host_find_def]] by auto

text \<open>An update of a claimant that was found.\<close>

lemma host_inv_found:
  assumes inv: "host_inv h" and f: "rdv_host_find h cid = Some i"
    and c: "claimant_ok c" "rc_cid c = cid" "rc_holds c \<longrightarrow> rc_holds (rh_c h ! i)"
    and n: "n = rh_answered h - of_bool (rc_state (rh_c h ! i) = RDV_C_ANSWERED)
               + of_bool (rc_state c = RDV_C_ANSWERED)"
  shows "table_inv ((rh_c h)[i := c]) n"
  using inv rdv_host_find_SomeD [OF f] c n
  by (intro table_inv_upd) (auto simp: host_inv_def)

lemma host_inv_fields [simp]:
  "host_inv (h\<lparr>rh_gen := g\<rparr>) = host_inv h" "host_inv (h\<lparr>rh_seq := q\<rparr>) = host_inv h"
  "host_inv (h\<lparr>rh_info_pending := b\<rparr>) = host_inv h"
  "host_inv (h\<lparr>rh_turn_spent := b\<rparr>) = host_inv h" "host_inv (h\<lparr>rh_gone := b\<rparr>) = host_inv h"
  by (simp_all add: host_inv_def)

lemma rdv_host_find_fields [simp]:
  "rdv_host_find (h\<lparr>rh_seq := q\<rparr>) cid = rdv_host_find h cid"
  "rdv_host_find (h\<lparr>rh_answered := n\<rparr>) cid = rdv_host_find h cid"
  by (simp_all add: rdv_host_find_def)

lemma host_inv_init: "length cid = RDV_CID_LEN \<Longrightarrow> host_inv (rdv_host_init cid gen grant)"
  by (simp add: host_inv_def table_inv_def rdv_host_init_def claimant_zero_def claimant_ok_def
      rdv_zero_def)

text \<open>What is known of a claimant that was found in a table satisfying the invariant.\<close>

lemma host_inv_foundD:
  assumes "host_inv h" "rdv_host_find h cid = Some i"
  shows "claimant_ok (rh_c h ! i)" "rc_cid (rh_c h ! i) = cid" "length cid = RDV_CID_LEN"
    "rc_state (rh_c h ! i) = RDV_C_ANSWERED \<Longrightarrow> 0 < rh_answered h"
    "length (rh_cid h) = RDV_CID_LEN" "i < length (rh_c h)"
  using assms rdv_host_find_SomeD [OF assms(2)] table_invD [of "rh_c h" "rh_answered h" i]
  by (auto simp: host_inv_def claimant_ok_def)

lemma host_inv_admit:
  assumes inv: "host_inv h" and len: "length cid = RDV_CID_LEN"
    and a: "host_admit h cid = (h', r)"
  shows "host_inv h'" "rh_grant h' = rh_grant h"
    "r = Some i \<Longrightarrow> i < length (rh_c h') \<and> rc_state (rh_c h' ! i) \<noteq> RDV_C_FREE \<and>
        rc_cid (rh_c h' ! i) = cid"
proof -
  have "host_inv h' \<and> rh_grant h' = rh_grant h \<and> (\<forall>i. r = Some i \<longrightarrow> i < length (rh_c h') \<and>
      rc_state (rh_c h' ! i) \<noteq> RDV_C_FREE \<and> rc_cid (rh_c h' ! i) = cid)"
  proof (cases "rdv_host_find h cid")
    case (Some i)
    then show ?thesis
      using a inv rdv_host_find_SomeD [OF Some] by (auto simp: host_admit_def)
  next
    case None
    then have nobody: "\<forall>j < length (rh_c h). rc_state (rh_c h ! j) \<noteq> RDV_C_FREE \<longrightarrow>
        rc_cid (rh_c h ! j) \<noteq> cid"
      by (auto simp: rdv_host_find_def)
    have evict: "i < length (rh_c h) \<and> rc_state (rh_c h ! i) = st"
      if "host_evict h st = Some i" for i st
      using find_index_SomeD [OF that [unfolded host_evict_def]] by simp
    show ?thesis
    proof (cases r)
      case None
      then show ?thesis using a \<open>rdv_host_find h cid = None\<close> inv
        by (auto simp: host_admit_def Let_def split: option.splits)
    next
      case (Some i)
      let ?c = "claimant_zero\<lparr>rc_cid := cid, rc_state := RDV_C_HARVESTED\<rparr>"
      from a Some \<open>rdv_host_find h cid = None\<close>
      have h': "h' = upd_c h i (\<lambda>_. ?c)" and i: "i < length (rh_c h)"
        and st: "rc_state (rh_c h ! i) \<noteq> RDV_C_ANSWERED"
        by (auto simp: host_admit_def Let_def dest!: evict split: option.splits)
      have "table_inv ((rh_c h)[i := ?c]) (rh_answered h)"
        using inv i st nobody len
        by (intro table_inv_upd) (auto simp: host_inv_def claimant_ok_def claimant_zero_def)
      then show ?thesis
        using inv i Some by (auto simp: h' host_inv_def claimant_zero_def)
    qed
  qed
  then show "host_inv h'" "rh_grant h' = rh_grant h"
    "r = Some i \<Longrightarrow> i < length (rh_c h') \<and> rc_state (rh_c h' ! i) \<noteq> RDV_C_FREE \<and>
        rc_cid (rh_c h' ! i) = cid"
    by auto
qed

text \<open>The table after an offer has been taken, in one step: the claimant is harvested under the
  offer's number and nothing stands in the cell.\<close>

definition harvest :: "u32 \<Rightarrow> rdv_claimant \<Rightarrow> rdv_claimant" where
  "harvest seq c =
     (let c' = c\<lparr>rc_last_seq := seq, rc_have_seq := True, rc_holds := False\<rparr>
      in if rc_state c \<in> {RDV_C_ANSWERED, RDV_C_GONE, RDV_C_REFUSED}
         then c'\<lparr>rc_state := RDV_C_HARVESTED\<rparr> else c')"

lemma slot_take_eq:
  assumes i: "i < length (rh_c h)"
    and pos: "rc_state (rh_c h ! i) = RDV_C_ANSWERED \<Longrightarrow> 0 < rh_answered h"
  shows "slot_take h i seq =
     h\<lparr>rh_turn_spent := False,
       rh_c := (map (\<lambda>c. c\<lparr>rc_holds := False\<rparr>) (rh_c h))[i := harvest seq (rh_c h ! i)],
       rh_answered := rh_answered h - of_bool (rc_state (rh_c h ! i) = RDV_C_ANSWERED)\<rparr>"
  using assms
  by (cases "rc_state (rh_c h ! i)")
    (simp_all add: slot_take_def Let_def upd_c_def harvest_def map_update)

lemma host_inv_slot_take:
  assumes inv: "host_inv h" and i: "i < length (rh_c h)"
    and st: "rc_state (rh_c h ! i) \<noteq> RDV_C_FREE"
  shows "host_inv (slot_take h i seq)"
proof -
  let ?cs = "map (\<lambda>c. c\<lparr>rc_holds := False\<rparr>) (rh_c h)"
  have t: "table_inv (rh_c h) (rh_answered h)" using inv by (simp add: host_inv_def)
  have "table_inv (?cs[i := harvest seq (rh_c h ! i)])
      (rh_answered h - of_bool (rc_state (rh_c h ! i) = RDV_C_ANSWERED))"
    using t i st table_invD(1) [OF t i]
    by (intro table_inv_upd [OF table_inv_holds_clear [OF t]])
      (auto simp: harvest_def Let_def claimant_ok_def)
  then show ?thesis
    using inv table_invD(2) [OF t i] by (subst slot_take_eq [OF i]) (auto simp: host_inv_def)
qed

lemma slot_take_at:
  assumes "host_inv h" "i < length (rh_c h)" "rc_state (rh_c h ! i) \<noteq> RDV_C_FREE"
  shows "length (rh_c (slot_take h i seq)) = length (rh_c h)"
    "rh_c (slot_take h i seq) ! i = harvest seq (rh_c h ! i)"
    "rc_state (harvest seq (rh_c h ! i)) = RDV_C_HARVESTED"
proof -
  have t: "table_inv (rh_c h) (rh_answered h)" using assms(1) by (simp add: host_inv_def)
  note eq = slot_take_eq [OF assms(2) table_invD(2) [OF t assms(2)], of seq]
  show "length (rh_c (slot_take h i seq)) = length (rh_c h)" by (simp add: eq)
  show "rh_c (slot_take h i seq) ! i = harvest seq (rh_c h ! i)" using assms(2) by (simp add: eq)
  show "rc_state (harvest seq (rh_c h ! i)) = RDV_C_HARVESTED"
    using assms(3) by (cases "rc_state (rh_c h ! i)") (simp_all add: harvest_def Let_def)
qed

lemma host_inv_refused:
  assumes inv: "host_inv h" and i: "i < length (rh_c h)"
    and st: "rc_state (rh_c h ! i) = RDV_C_HARVESTED"
  shows "host_inv (upd_c h i slot_refused)"
proof -
  have t: "table_inv (rh_c h) (rh_answered h)" using inv by (simp add: host_inv_def)
  have "claimant_ok (slot_refused (rh_c h ! i))"
    using table_invD(1) [OF t i] by (simp add: claimant_ok_def slot_refused_def)
  then have "table_inv ((rh_c h)[i := slot_refused (rh_c h ! i)]) (rh_answered h)"
    by (rule table_inv_upd [OF t i]) (simp_all add: slot_refused_def st)
  then show ?thesis using inv by (simp add: host_inv_def)
qed

text \<open>Where an offer can leave the table.\<close>

lemma rdv_host_slot_cases:
  assumes "host_inv h" "wf_rdv_msg m"
  obtains (not_ours) "rdv_host_slot h m = (False, h)"
  | (full) h1 where "host_admit h (rm_from m) = (h1, None)" "rdv_host_slot h m = (False, h1)"
  | (replay) h1 i where "host_admit h (rm_from m) = (h1, Some i)" "rc_have_seq (rh_c h1 ! i)"
      "rm_seq m \<le> rc_last_seq (rh_c h1 ! i)" "rdv_host_slot h m = (False, h1)"
  | (refused) h1 i where "host_admit h (rm_from m) = (h1, Some i)"
      "rc_have_seq (rh_c h1 ! i) \<longrightarrow> rc_last_seq (rh_c h1 ! i) < rm_seq m"
      "rdv_host_slot h m = (False, upd_c (slot_take h1 i (rm_seq m)) i slot_refused)"
  | (taken) h1 i where "host_admit h (rm_from m) = (h1, Some i)"
      "rc_have_seq (rh_c h1 ! i) \<longrightarrow> rc_last_seq (rh_c h1 ! i) < rm_seq m"
      "rdv_host_slot h m = (True, slot_take h1 i (rm_seq m))"
proof -
  obtain h1 r where a: "host_admit h (rm_from m) = (h1, r)" by fastforce
  show thesis
  proof (cases "rm_kind m \<noteq> RDV_OFFER \<or> rm_from m = rdv_zero \<or> \<not> rdv_addressed_to (rm_to m) (rh_cid h)")
    case True
    then show thesis by (intro not_ours) (auto simp: rdv_host_slot_def)
  next
    case ours: False
    then have slot: "rdv_host_slot h m = (case r of None \<Rightarrow> (False, h1)
        | Some i \<Rightarrow>
            if rc_have_seq (rh_c h1 ! i) \<and> rm_seq m \<le> rc_last_seq (rh_c h1 ! i) then (False, h1)
            else if rh_grant (slot_take h1 i (rm_seq m)) \<noteq> 0 \<and>
                    rh_grant (slot_take h1 i (rm_seq m)) \<le> rh_answered (slot_take h1 i (rm_seq m))
                 then (False, upd_c (slot_take h1 i (rm_seq m)) i slot_refused)
                 else (True, slot_take h1 i (rm_seq m)))"
      by (cases r) (simp_all add: rdv_host_slot_def a Let_def)
    show thesis
    proof (cases r)
      case None
      then show thesis using full a slot by simp
    next
      case (Some i)
      let ?h2 = "slot_take h1 i (rm_seq m)"
      show thesis
      proof (cases "rc_have_seq (rh_c h1 ! i) \<and> rm_seq m \<le> rc_last_seq (rh_c h1 ! i)")
        case True
        then show thesis using replay [of h1 i] a Some slot by simp
      next
        case False
        then have "rc_have_seq (rh_c h1 ! i) \<longrightarrow> rc_last_seq (rh_c h1 ! i) < rm_seq m" by auto
        then show thesis
          using refused [of h1 i] taken [of h1 i] a Some slot False
          by (cases "rh_grant ?h2 \<noteq> 0 \<and> rh_grant ?h2 \<le> rh_answered ?h2") simp_all
      qed
    qed
  qed
qed

lemma host_inv_slot:
  assumes inv: "host_inv h" and wf: "wf_rdv_msg m"
  shows "host_inv (snd (rdv_host_slot h m))"
proof -
  have len: "length (rm_from m) = RDV_CID_LEN" using wf by (simp add: wf_rdv_msg_def)
  note adm = host_inv_admit [OF inv len]
  have taken: "host_inv (slot_take h1 i q)" "host_inv (upd_c (slot_take h1 i q) i slot_refused)"
    if "host_admit h (rm_from m) = (h1, Some i)" for h1 i q
    using adm(1,3) [OF that] slot_take_at [of h1 i q]
    by (auto intro!: host_inv_slot_take host_inv_refused)
  show ?thesis
    by (rule rdv_host_slot_cases [OF assms]) (use inv adm(1) taken in \<open>simp_all\<close>)
qed

text \<open>The operations on a claimant already known rewrite its slot and the count.\<close>

lemma host_inv_known:
  assumes "host_inv h" "rdv_host_find h cid = Some i"
    and "rh_c h' = (rh_c h)[i := c]" "rh_cid h' = rh_cid h"
    and "rc_cid c = rc_cid (rh_c h ! i)" "rc_holds c \<longrightarrow> rc_holds (rh_c h ! i)"
    and "claimant_ok (rh_c h ! i) \<Longrightarrow> claimant_ok c"
    and "(rc_state (rh_c h ! i) = RDV_C_ANSWERED \<Longrightarrow> 0 < rh_answered h) \<Longrightarrow>
      rh_answered h' = rh_answered h - of_bool (rc_state (rh_c h ! i) = RDV_C_ANSWERED)
               + of_bool (rc_state c = RDV_C_ANSWERED)"
  shows "host_inv h'"
proof -
  note k = host_inv_foundD [OF assms(1,2)]
  have "table_inv ((rh_c h)[i := c]) (rh_answered h')"
    using assms(5-8) k by (intro host_inv_found [OF assms(1,2)]) auto
  then show ?thesis using assms(3,4) k(5) by (simp add: host_inv_def)
qed

lemma host_inv_answer: "host_inv h \<Longrightarrow> host_inv (rdv_host_answer h cid payload)"
  by (cases "rdv_host_find h cid")
    (auto simp: rdv_host_answer_def Let_def claimant_ok_def elim!: host_inv_known)

lemma host_inv_unsent: "host_inv h \<Longrightarrow> host_inv (rdv_host_unsent h cid)"
  using rdv_host_find_SomeD(2) [of h cid]
  by (cases "rdv_host_find h cid")
    (auto simp: rdv_host_unsent_def claimant_ok_def elim!: host_inv_known)

lemma host_inv_refuse: "host_inv h \<Longrightarrow> host_inv (rdv_host_refuse h cid reason)"
  by (cases "rdv_host_find h cid")
    (auto simp: rdv_host_refuse_def Let_def claimant_ok_def elim!: host_inv_known)

lemma keep_claimant_simps [simp]:
  "rc_cid (keep_claimant c) = rc_cid c" "rc_state (keep_claimant c) = RDV_C_ANSWERED"
  "rc_holds (keep_claimant c) = rc_holds c" "rc_answer (keep_claimant c) = rc_answer c"
  "rc_have_seq (keep_claimant c) = rc_have_seq c" "rc_last_seq (keep_claimant c) = rc_last_seq c"
  by (simp_all add: keep_claimant_def Let_def)

lemma host_inv_keep: "host_inv h \<Longrightarrow> host_inv (rdv_host_keep h cid)"
  using rdv_host_find_SomeD(2) [of h cid]
  by (cases "rdv_host_find h cid")
    (auto simp: rdv_host_keep_def Let_def claimant_ok_def elim!: host_inv_known)

lemma host_inv_forget: "host_inv h \<Longrightarrow> host_inv (rdv_host_forget h cid)"
  by (cases "rdv_host_find h cid")
    (auto simp: rdv_host_forget_def Let_def claimant_ok_def elim!: host_inv_known)

lemma host_inv_release: "host_inv h \<Longrightarrow> host_inv (rdv_host_release h cid)"
  by (cases "rdv_host_find h cid")
    (auto simp: rdv_host_release_def Let_def claimant_ok_def elim!: host_inv_known)

text \<open>The statement the host hands out, and the slot it was made from.\<close>

lemma rdv_host_next_cases:
  assumes inv: "host_inv h" and n: "rdv_host_next h info = (r, h')"
  obtains (none) "r = None" "h' = h \<or> h' = h\<lparr>rh_seq := rh_seq h + 1\<rparr>"
  | (info) msg where "rh_info_pending h" "length info \<le> RDV_HOST_PAYLOAD"
      "r = Some (out_slot msg RDV_SEAL_INFO)"
      "rdv_decode msg = Inr (host_info_msg (h\<lparr>rh_seq := rh_seq h + 1\<rparr>) info)"
      "h' = h\<lparr>rh_seq := rh_seq h + 1, rh_info_pending := False\<rparr>" "length msg \<le> RDV_MAX_MSG"
  | (reply) i msg where "\<not> rh_info_pending h" "i < length (rh_c h)" "rc_pending (rh_c h ! i)"
      "\<not> answer_stands h i" "r = Some (out_slot msg RDV_SEAL_CLASS)"
      "rdv_decode msg = Inr (host_reply_msg (h\<lparr>rh_seq := rh_seq h + 1\<rparr>) i)"
      "h' = upd_c (h\<lparr>rh_seq := rh_seq h + 1\<rparr>) i (\<lambda>c. c\<lparr>rc_pending := False, rc_holds := True\<rparr>)"
      "length msg \<le> RDV_MAX_MSG"
proof -
  let ?h = "h\<lparr>rh_seq := rh_seq h + 1\<rparr>"
  have cid: "length (rh_cid h) = RDV_CID_LEN" using inv by (simp add: host_inv_def)
  show thesis
  proof (cases "rh_info_pending h")
    case True
    have wf: "wf_rdv_msg (host_info_msg ?h info)" if "length info \<le> RDV_HOST_PAYLOAD"
      using that cid by (simp add: wf_rdv_msg_def host_info_msg_def rdv_lens rdv_kinds rdv_zero_def)
    show thesis
    proof (cases "length info \<le> RDV_HOST_PAYLOAD")
      case len: True
      from rdv_encode_some [OF wf [OF len] order_refl]
      obtain msg where msg: "rdv_encode (host_info_msg ?h info) RDV_MAX_MSG = Some msg" by auto
      show thesis
        using n True len msg rdv_decode_encode [OF wf msg] rdv_encode_length [OF msg wf]
        by (intro info [of msg]) (auto simp: rdv_host_next_def Let_def)
    next
      case False
      then show thesis using n True none by (simp add: rdv_host_next_def)
    qed
  next
    case False
    have wf: "wf_rdv_msg (host_reply_msg ?h i)" if "i < length (rh_c h)" for i
      using that cid table_invD(1) [of "rh_c h" "rh_answered h" i] inv
      by (auto simp: wf_rdv_msg_def host_reply_msg_def Let_def rdv_lens rdv_kinds host_inv_def
          claimant_ok_def)
    show thesis
    proof (cases "find_index (\<lambda>i. rc_pending (rh_c h ! i) \<and> \<not> answer_stands h i) [0..<length (rh_c h)]")
      case None
      then show thesis using n False none by (simp add: rdv_host_next_def del: find_index_None)
    next
      case (Some i)
      note i = find_index_SomeD [OF Some]
      from rdv_encode_some [OF wf [of i] order_refl] i
      obtain msg where msg: "rdv_encode (host_reply_msg ?h i) RDV_MAX_MSG = Some msg" by auto
      show thesis
        using n False Some i msg rdv_decode_encode [OF wf msg] rdv_encode_length [OF msg wf]
        by (intro reply [of i msg]) (auto simp: rdv_host_next_def Let_def)
    qed
  qed
qed

lemma rdv_host_next_silent:
  assumes inv: "host_inv h" and info: "length info \<le> RDV_HOST_PAYLOAD"
    and n: "rdv_host_next h info = (None, h')"
  shows "h' = h \<and> \<not> rh_info_pending h \<and>
    (\<forall>i < length (rh_c h). rc_pending (rh_c h ! i) \<longrightarrow> answer_stands h i)"
proof -
  let ?h = "h\<lparr>rh_seq := rh_seq h + 1\<rparr>"
  have cid: "length (rh_cid h) = RDV_CID_LEN" using inv by (simp add: host_inv_def)
  have "wf_rdv_msg (host_info_msg ?h info)"
    using info cid by (simp add: wf_rdv_msg_def host_info_msg_def rdv_lens rdv_kinds rdv_zero_def)
  from rdv_encode_some [OF this order_refl] have no_info: "\<not> rh_info_pending h"
    using n info by (auto simp: rdv_host_next_def Let_def)
  have "find_index (\<lambda>i. rc_pending (rh_c h ! i) \<and> \<not> answer_stands h i) [0..<length (rh_c h)] = None"
  proof (rule ccontr)
    assume "\<not> ?thesis"
    then obtain i where i: "find_index (\<lambda>i. rc_pending (rh_c h ! i) \<and> \<not> answer_stands h i)
        [0..<length (rh_c h)] = Some i" by blast
    have "claimant_ok (rh_c h ! i)"
      using inv find_index_SomeD [OF i] by (intro table_invD(1)) (auto simp: host_inv_def)
    then have "wf_rdv_msg (host_reply_msg ?h i)"
      using cid by (auto simp: wf_rdv_msg_def host_reply_msg_def Let_def rdv_lens rdv_kinds
          claimant_ok_def)
    from rdv_encode_some [OF this order_refl] n i no_info show False
      by (auto simp: rdv_host_next_def Let_def)
  qed
  with n no_info show ?thesis by (auto simp: rdv_host_next_def)
qed

lemma host_inv_next:
  assumes inv: "host_inv h"
  shows "host_inv (snd (rdv_host_next h info))"
proof -
  obtain r h' where n: "rdv_host_next h info = (r, h')" by fastforce
  from inv n show ?thesis
  proof (cases rule: rdv_host_next_cases)
    case (reply i msg)
    have t: "table_inv (rh_c h) (rh_answered h)" using inv by (simp add: host_inv_def)
    have "rc_state (rh_c h ! i) \<noteq> RDV_C_FREE"
      using table_invD(1) [OF t reply(2)] reply(3) by (auto simp: claimant_ok_def)
    then have "table_inv ((rh_c h)[i := (rh_c h ! i)\<lparr>rc_pending := False, rc_holds := True\<rparr>])
        (rh_answered h)"
      using table_invD(1) [OF t reply(2)] reply(2-4)
      by (intro table_inv_upd [OF t]) (auto simp: claimant_ok_def answer_stands_def)
    then show ?thesis using inv n reply by (simp add: host_inv_def)
  qed (use inv n in auto)
qed

section \<open>The host's operations in any order\<close>

inductive rdv_host_step :: "rdv_host \<Rightarrow> rdv_host \<Rightarrow> bool" where
  set_gen: "rdv_host_step h (rdv_host_set_gen h gen)"
| entomb: "rdv_host_step h (rdv_host_entomb h)"
| slot: "wf_rdv_msg m \<Longrightarrow> rdv_host_step h (snd (rdv_host_slot h m))"
| turn_kept: "rdv_host_step h (rdv_host_turn_kept h)"
| release: "rdv_host_step h (rdv_host_release h cid)"
| answer: "rdv_host_step h (rdv_host_answer h cid payload)"
| unsent: "rdv_host_step h (rdv_host_unsent h cid)"
| refuse: "rdv_host_step h (rdv_host_refuse h cid reason)"
| keep: "rdv_host_step h (rdv_host_keep h cid)"
| forget: "rdv_host_step h (rdv_host_forget h cid)"
| emit: "rdv_host_step h (snd (rdv_host_next h info))"

inductive_cases rdv_host_stepE: "rdv_host_step h h'"

definition rdv_host_starts :: "rdv_host \<Rightarrow> bool" where
  "rdv_host_starts h \<longleftrightarrow>
     length (rh_cid h) = RDV_CID_LEN \<and> h = rdv_host_init (rh_cid h) (rh_gen h) (rh_grant h)"

interpretation rdv_host: invariant_system rdv_host_starts rdv_host_step host_inv
proof unfold_locales
  show "host_inv h" if "rdv_host_starts h" for h
    using that host_inv_init [of "rh_cid h" "rh_gen h" "rh_grant h"]
    by (simp add: rdv_host_starts_def)
  show "host_inv t" if "host_inv h" "rdv_host_step h t" for h t
    using that(2,1)
    by cases (simp_all add: rdv_host_set_gen_def rdv_host_entomb_def rdv_host_turn_kept_def
        host_inv_slot host_inv_release host_inv_answer host_inv_unsent host_inv_refuse
        host_inv_keep host_inv_forget host_inv_next)
qed

text \<open>The host remembers an offer of this claimant numbered \<open>q\<close> or above.\<close>

definition offer_known :: "rdv_host \<Rightarrow> cid \<Rightarrow> u32 \<Rightarrow> bool" where
  "offer_known h cid q \<longleftrightarrow>
     (\<exists>c \<in> set (rh_c h). rc_state c \<noteq> RDV_C_FREE \<and> rc_cid c = cid \<and> rc_have_seq c \<and>
        q \<le> rc_last_seq c)"

text \<open>Its slot cannot be given to a newcomer: there is room, or it is being served.\<close>

definition not_evictable :: "rdv_host \<Rightarrow> cid \<Rightarrow> bool" where
  "not_evictable h cid \<longleftrightarrow>
     (\<exists>c \<in> set (rh_c h). rc_state c = RDV_C_FREE) \<or>
     (\<exists>c \<in> set (rh_c h). rc_cid c = cid \<and> rc_state c \<in> {RDV_C_HARVESTED, RDV_C_ANSWERED})"

lemma offer_known_nth:
  "offer_known h cid q \<longleftrightarrow> (\<exists>i < length (rh_c h). rc_state (rh_c h ! i) \<noteq> RDV_C_FREE \<and>
     rc_cid (rh_c h ! i) = cid \<and> rc_have_seq (rh_c h ! i) \<and> q \<le> rc_last_seq (rh_c h ! i))"
  unfolding offer_known_def Bex_def in_set_conv_nth by blast

lemma offer_known_fields [simp]:
  "offer_known (h\<lparr>rh_info_pending := b\<rparr>) cid q = offer_known h cid q"
  "offer_known (h\<lparr>rh_turn_spent := b\<rparr>) cid q = offer_known h cid q"
  by (simp_all add: offer_known_def)

text \<open>A change of the table that keeps this claimant's number keeps what is known.\<close>

definition numbers_kept :: "rdv_claimant list \<Rightarrow> rdv_claimant list \<Rightarrow> nat \<Rightarrow> bool" where
  "numbers_kept cs cs' i \<longleftrightarrow>
     (rc_state (cs ! i) \<noteq> RDV_C_FREE \<longrightarrow> rc_have_seq (cs ! i) \<longrightarrow>
      rc_state (cs' ! i) \<noteq> RDV_C_FREE \<and> rc_cid (cs' ! i) = rc_cid (cs ! i) \<and>
      rc_have_seq (cs' ! i) \<and> rc_last_seq (cs ! i) \<le> rc_last_seq (cs' ! i))"

lemma offer_known_kept:
  assumes known: "offer_known h cid q" and len: "length (rh_c h') = length (rh_c h)"
    and kept: "\<And>i. i < length (rh_c h) \<Longrightarrow> rc_cid (rh_c h ! i) = cid \<Longrightarrow>
      numbers_kept (rh_c h) (rh_c h') i"
  shows "offer_known h' cid q"
proof -
  from known obtain i where i: "i < length (rh_c h)" "rc_state (rh_c h ! i) \<noteq> RDV_C_FREE"
    "rc_cid (rh_c h ! i) = cid" "rc_have_seq (rh_c h ! i)" "q \<le> rc_last_seq (rh_c h ! i)"
    by (auto simp: offer_known_nth)
  with kept [OF i(1,3)] len show ?thesis
    by (auto simp: offer_known_nth numbers_kept_def intro!: exI [of _ i])
qed

lemma numbers_kept_upd:
  assumes "k < length cs" "rc_cid c = rc_cid (cs ! k)" "rc_state c \<noteq> RDV_C_FREE"
    and "rc_have_seq (cs ! k) \<longrightarrow> rc_have_seq c \<and> rc_last_seq (cs ! k) \<le> rc_last_seq c"
  shows "numbers_kept cs (cs[k := c]) i"
  using assms by (cases "i = k") (auto simp: numbers_kept_def)

lemma numbers_kept_refl [simp]: "numbers_kept cs cs i"
  by (simp add: numbers_kept_def)

lemma numbers_kept_admit:
  assumes a: "host_admit h cid' = (h1, r)" and safe: "not_evictable h cid" and inv: "host_inv h"
    and i: "i < length (rh_c h)" "rc_cid (rh_c h ! i) = cid"
  shows "length (rh_c h1) = length (rh_c h)" "numbers_kept (rh_c h) (rh_c h1) i"
proof -
  have evict: "k < length (rh_c h) \<and> rc_state (rh_c h ! k) = st" if "host_evict h st = Some k" for k st
    using find_index_SomeD [OF that [unfolded host_evict_def]] by simp
  have room: "\<not> (\<exists>c \<in> set (rh_c h). rc_state c = RDV_C_FREE)" if "host_evict h RDV_C_FREE = None"
    using that by (simp add: host_evict_def)
  have served: "rc_state (rh_c h ! i) \<in> {RDV_C_HARVESTED, RDV_C_ANSWERED}"
    if "host_evict h RDV_C_FREE = None"
  proof -
    from safe room [OF that] obtain j where j: "j < length (rh_c h)" "rc_cid (rh_c h ! j) = cid"
      "rc_state (rh_c h ! j) \<in> {RDV_C_HARVESTED, RDV_C_ANSWERED}"
      unfolding not_evictable_def by (metis in_set_conv_nth)
    moreover have "rc_state (rh_c h ! i) \<noteq> RDV_C_FREE" using room [OF that] i by auto
    moreover have "table_inv (rh_c h) (rh_answered h)" using inv by (simp add: host_inv_def)
    ultimately have "i = j" using i unfolding table_inv_def by fastforce
    then show ?thesis using j by simp
  qed
  have "h1 = h \<or> (\<exists>k c. h1 = upd_c h k (\<lambda>_. c) \<and> (k = i \<longrightarrow> rc_state (rh_c h ! i) = RDV_C_FREE))"
    using a served by (fastforce simp: host_admit_def Let_def dest: evict split: option.splits)
  then show "length (rh_c h1) = length (rh_c h)" "numbers_kept (rh_c h) (rh_c h1) i"
    by (auto simp: numbers_kept_def nth_list_update)
qed

lemma numbers_kept_trans:
  "numbers_kept cs ds i \<Longrightarrow> numbers_kept ds es i \<Longrightarrow> numbers_kept cs es i"
  by (auto simp: numbers_kept_def)

lemma harvest_simps [simp]:
  "rc_cid (harvest q c) = rc_cid c" "rc_have_seq (harvest q c)" "rc_last_seq (harvest q c) = q"
  by (simp_all add: harvest_def Let_def)

lemma slot_refused_simps [simp]:
  "rc_cid (slot_refused c) = rc_cid c" "rc_have_seq (slot_refused c) = rc_have_seq c"
  "rc_last_seq (slot_refused c) = rc_last_seq c" "rc_state (slot_refused c) = RDV_C_REFUSED"
  by (simp_all add: slot_refused_def)

lemma numbers_kept_slot_take:
  assumes inv: "host_inv h" and k: "k < length (rh_c h)" "rc_state (rh_c h ! k) \<noteq> RDV_C_FREE"
    and q: "rc_have_seq (rh_c h ! k) \<longrightarrow> rc_last_seq (rh_c h ! k) < q" and i: "i < length (rh_c h)"
  shows "numbers_kept (rh_c h) (rh_c (slot_take h k q)) i"
    "numbers_kept (rh_c h) (rh_c (upd_c (slot_take h k q) k slot_refused)) i"
proof -
  have t: "table_inv (rh_c h) (rh_answered h)" using inv by (simp add: host_inv_def)
  note at = slot_take_at [OF inv k, of q]
  have other: "rh_c (slot_take h k q) ! i = (rh_c h ! i)\<lparr>rc_holds := False\<rparr>" if "i \<noteq> k"
    using that i by (subst slot_take_eq [OF k(1) table_invD(2) [OF t k(1)]]) simp_all
  show "numbers_kept (rh_c h) (rh_c (slot_take h k q)) i"
    using q at other by (cases "i = k") (auto simp: numbers_kept_def)
  show "numbers_kept (rh_c h) (rh_c (upd_c (slot_take h k q) k slot_refused)) i"
    using q at other k by (cases "i = k") (auto simp: numbers_kept_def)
qed

lemma offer_known_slot:
  assumes inv: "host_inv h" and wf: "wf_rdv_msg m" and known: "offer_known h cid q"
    and safe: "not_evictable h cid"
  shows "offer_known (snd (rdv_host_slot h m)) cid q"
proof -
  have len: "length (rm_from m) = RDV_CID_LEN" using wf by (simp add: wf_rdv_msg_def)
  have kept1: "length (rh_c h1) = length (rh_c h)" "numbers_kept (rh_c h) (rh_c h1) i"
    if "host_admit h (rm_from m) = (h1, r)" "i < length (rh_c h)" "rc_cid (rh_c h ! i) = cid"
    for h1 r i
    using numbers_kept_admit [OF that(1) safe inv that(2,3)] .
  obtain i0 where i0: "i0 < length (rh_c h)" "rc_cid (rh_c h ! i0) = cid"
    using known by (auto simp: offer_known_nth)
  have kept2: "offer_known (slot_take h1 k (rm_seq m)) cid q"
      "offer_known (upd_c (slot_take h1 k (rm_seq m)) k slot_refused) cid q"
    if a: "host_admit h (rm_from m) = (h1, Some k)"
      and new: "rc_have_seq (rh_c h1 ! k) \<longrightarrow> rc_last_seq (rh_c h1 ! k) < rm_seq m" for h1 k
  proof -
    note inv1 = host_inv_admit(1) [OF inv len a]
    have k: "k < length (rh_c h1)" "rc_state (rh_c h1 ! k) \<noteq> RDV_C_FREE"
      using host_inv_admit(3) [OF inv len a refl] by auto
    have "length (rh_c h1) = length (rh_c h)" by (rule kept1(1) [OF a i0])
    with slot_take_at(1) [OF inv1 k, of "rm_seq m"]
    show "offer_known (slot_take h1 k (rm_seq m)) cid q"
      "offer_known (upd_c (slot_take h1 k (rm_seq m)) k slot_refused) cid q"
      using kept1(2) [OF a] numbers_kept_slot_take [OF inv1 k new]
      by (auto intro!: offer_known_kept [OF known] intro: numbers_kept_trans simp del: upd_c_simps(1))
        (simp_all)
  qed
  show ?thesis
    by (rule rdv_host_slot_cases [OF inv wf])
      (use known kept1 kept2 i0 in \<open>auto intro: offer_known_kept\<close>)
qed

lemma offer_known_found:
  assumes "offer_known h cid q" "rdv_host_find h cid' = Some k" "rh_c h' = (rh_c h)[k := c]"
    and "rc_cid c = rc_cid (rh_c h ! k)" "rc_state c \<noteq> RDV_C_FREE"
    and "rc_have_seq c = rc_have_seq (rh_c h ! k)" "rc_last_seq c = rc_last_seq (rh_c h ! k)"
  shows "offer_known h' cid q"
  using assms rdv_host_find_SomeD(1) [OF assms(2)]
  by (intro offer_known_kept [OF assms(1)]) (simp_all add: numbers_kept_upd)

lemma offer_known_next:
  assumes inv: "host_inv h" and known: "offer_known h cid q"
  shows "offer_known (snd (rdv_host_next h info)) cid q"
proof -
  obtain r h' where n: "rdv_host_next h info = (r, h')" by fastforce
  from inv n show ?thesis
  proof (cases rule: rdv_host_next_cases)
    case (reply i msg)
    have "rc_state (rh_c h ! i) \<noteq> RDV_C_FREE"
      using table_invD(1) [of "rh_c h" "rh_answered h" i] inv reply(2,3)
      by (auto simp: host_inv_def claimant_ok_def)
    then show ?thesis
      using n reply by (intro offer_known_kept [OF known]) (simp_all add: numbers_kept_upd)
  qed (use known n in \<open>auto simp: offer_known_def\<close>)
qed

text \<open>No operation loses an offer's number while the claimant's slot is safe.\<close>

lemma offer_known_step:
  assumes inv: "host_inv h" and known: "offer_known h cid q" and safe: "not_evictable h cid"
    and step: "rdv_host_step h h'"
  shows "offer_known h' cid q"
  using step
proof cases
  case (slot m)
  then show ?thesis using offer_known_slot [OF inv _ known safe] by simp
next
  case (emit info)
  then show ?thesis using offer_known_next [OF inv known] by simp
next
  case (release c)
  then show ?thesis
    using known rdv_host_find_SomeD(2) [of h c]
    by (cases "rdv_host_find h c")
      (simp_all add: rdv_host_release_def Let_def offer_known_found [where cid' = c])
next
  case (answer c payload)
  then show ?thesis using known
    by (cases "rdv_host_find h c") (auto simp: rdv_host_answer_def Let_def elim!: offer_known_found)
next
  case (unsent c)
  then show ?thesis using known rdv_host_find_SomeD(2) [of h c]
    by (cases "rdv_host_find h c") (auto simp: rdv_host_unsent_def elim!: offer_known_found)
next
  case (refuse c reason)
  then show ?thesis using known
    by (cases "rdv_host_find h c") (auto simp: rdv_host_refuse_def Let_def elim!: offer_known_found)
next
  case (keep c)
  then show ?thesis using known
    by (cases "rdv_host_find h c") (auto simp: rdv_host_keep_def Let_def elim!: offer_known_found)
next
  case (forget c)
  then show ?thesis using known
    by (cases "rdv_host_find h c") (auto simp: rdv_host_forget_def Let_def elim!: offer_known_found)
qed (use known in \<open>simp_all add: offer_known_def rdv_host_set_gen_def rdv_host_entomb_def
      rdv_host_turn_kept_def\<close>)

lemma host_inv_find:
  assumes inv: "host_inv h" and i: "i < length (rh_c h)" "rc_state (rh_c h ! i) \<noteq> RDV_C_FREE"
  shows "rdv_host_find h (rc_cid (rh_c h ! i)) = Some i"
proof -
  have "rh_c h ! i \<in> set (rh_c h)" using i(1) by simp
  then obtain j where j: "rdv_host_find h (rc_cid (rh_c h ! i)) = Some j"
    using find_index_ex [of "rh_c h ! i" "rh_c h"
        "\<lambda>c. rc_state c \<noteq> RDV_C_FREE \<and> rc_cid c = rc_cid (rh_c h ! i)"] i(2)
    unfolding rdv_host_find_def by blast
  note d = rdv_host_find_SomeD [OF j]
  have "j = i" using inv i d by (simp add: host_inv_def table_inv_def)
  with j show ?thesis by simp
qed

lemma offer_known_replay:
  assumes inv: "host_inv h" and known: "offer_known h (rm_from m) q" and old: "rm_seq m \<le> q"
  shows "rdv_host_slot h m = (False, h)"
proof -
  from known obtain i where i: "i < length (rh_c h)" "rc_state (rh_c h ! i) \<noteq> RDV_C_FREE"
    "rc_cid (rh_c h ! i) = rm_from m" "rc_have_seq (rh_c h ! i)" "q \<le> rc_last_seq (rh_c h ! i)"
    by (auto simp: offer_known_nth)
  from host_inv_find [OF inv i(1,2)] have "host_admit h (rm_from m) = (h, Some i)"
    by (simp add: host_admit_def i(3))
  moreover from i old have "rm_seq m \<le> rc_last_seq (rh_c h ! i)" by simp
  ultimately show ?thesis using i(4) by (simp add: rdv_host_slot_def)
qed

lemma offer_known_taken:
  assumes inv: "host_inv h" and wf: "wf_rdv_msg m" and taken: "rdv_host_slot h m = (True, h')"
  shows "offer_known h' (rm_from m) (rm_seq m)"
proof (rule rdv_host_slot_cases [OF inv wf])
  have len: "length (rm_from m) = RDV_CID_LEN" using wf by (simp add: wf_rdv_msg_def)
  fix h1 i
  assume a: "host_admit h (rm_from m) = (h1, Some i)"
    and s: "rdv_host_slot h m = (True, slot_take h1 i (rm_seq m))"
  note inv1 = host_inv_admit(1) [OF inv len a]
  have i: "i < length (rh_c h1)" "rc_state (rh_c h1 ! i) \<noteq> RDV_C_FREE" "rc_cid (rh_c h1 ! i) = rm_from m"
    using host_inv_admit(3) [OF inv len a refl] by auto
  show ?thesis
    using s taken i slot_take_at [OF inv1 i(1,2), of "rm_seq m"]
    by (auto simp: offer_known_nth intro!: exI [of _ i])
qed (use taken in simp_all)

text \<open>A concrete session for the witnesses.\<close>

abbreviation host0 :: rdv_host where
  "host0 \<equiv> rdv_host_init (replicate 8 1) 7 2"

abbreviation offer0 :: rdv_msg where
  "offer0 \<equiv> \<lparr>rm_kind = RDV_OFFER, rm_gen = 7, rm_from = replicate 8 2, rm_to = replicate 8 1,
            rm_seq = 5, rm_re = 0, rm_payload = [1, 2]\<rparr>"

lemma host0_starts: "rdv_host_starts host0"
  by (simp add: rdv_host_starts_def rdv_host_init_def RDV_CID_LEN_def)

lemma offer0_wf: "wf_rdv_msg offer0"
  by (simp add: wf_rdv_msg_def rdv_lens rdv_kinds)

lemma offer0_taken: "fst (rdv_host_slot host0 offer0)"
  by code_simp

lemma host0_answering:
  "reachable rdv_host_starts rdv_host_step
     (rdv_host_answer (snd (rdv_host_slot host0 offer0)) (replicate 8 2) [1])"
  by (rule next_state, rule next_state, rule start)
    (rule host0_starts, rule rdv_host_step.slot, rule offer0_wf, rule rdv_host_step.answer)

lemma host0_states: "fst (rdv_host_next host0 [9]) \<noteq> None"
  by (simp add: rdv_host_next_def rdv_host_init_def Let_def rdv_encode_def host_info_msg_def rdv_lens)

text \<open>A claimant that was refused and is kept in hand becomes answered, and the host then states
  an answer to it with an empty payload.\<close>

lemma rdv_host_keep_states_empty_answer:
  "let h = rdv_host_keep (rdv_host_refuse (snd (rdv_host_slot host0 offer0)) (replicate 8 2) 1)
             (replicate 8 2)
   in rh_answered h = 1 \<and>
      (case rdv_host_next (snd (rdv_host_next h [])) [] of
         (Some out, _) \<Rightarrow> ro_msg out ! 1 = RDV_ANSWER \<and> length (ro_msg out) = RDV_HDR_LEN
       | _ \<Rightarrow> False)"
  by code_simp

section \<open>Properties\<close>

text \<open>C9. In every state the host reaches, whatever the order of its operations and of the
  statements it reads: \<open>answered\<close> is exactly the number of claimants in state ANSWERED and stays
  within the table, the cell carries the answer to at most one claimant, and no two occupied
  slots name the same claimant.\<close>

theorem rdv_host_table_consistent:
  assumes "reachable rdv_host_starts rdv_host_step h"
  shows "rh_answered h = answered_in (rh_c h) \<and> rh_answered h \<le> int RDV_HOST_MAX \<and>
    (\<forall>i < RDV_HOST_MAX. \<forall>j < RDV_HOST_MAX.
       (rc_holds (rh_c h ! i) \<and> rc_holds (rh_c h ! j) \<longrightarrow> i = j) \<and>
       (rc_state (rh_c h ! i) \<noteq> RDV_C_FREE \<and> rc_state (rh_c h ! j) \<noteq> RDV_C_FREE \<and>
        rc_cid (rh_c h ! i) = rc_cid (rh_c h ! j) \<longrightarrow> i = j))"
proof -
  have t: "table_inv (rh_c h) (rh_answered h)"
    using rdv_host.reachable_inv [OF assms] by (simp add: host_inv_def)
  moreover have "answered_in (rh_c h) \<le> int (length (rh_c h))" by simp
  ultimately show ?thesis unfolding table_inv_def by auto
qed

theorem rdv_host_table_consistent_witness:
  "rh_answered (rdv_host_answer (snd (rdv_host_slot host0 offer0)) (replicate 8 2) [1]) =
   answered_in (rh_c (rdv_host_answer (snd (rdv_host_slot host0 offer0)) (replicate 8 2) [1]))"
  using rdv_host_table_consistent
    [of "rdv_host_answer (snd (rdv_host_slot host0 offer0)) (replicate 8 2) [1]"]
    host0_answering by blast

text \<open>C8. An offer the host has taken is never taken again: after any further operations, in any
  order, a statement of the same claimant numbered no higher changes nothing at the host. The
  operations range over those taken while the claimant's slot cannot be given to a newcomer
  (a free slot is left, or the claimant is being served).\<close>

theorem rdv_host_offer_once:
  assumes "reachable rdv_host_starts rdv_host_step h" "wf_rdv_msg m"
    and "rdv_host_slot h m = (True, h1)"
    and "(\<lambda>a b. rdv_host_step a b \<and> not_evictable a (rm_from m))\<^sup>*\<^sup>* h1 h2"
    and "rm_from m' = rm_from m" "rm_seq m' \<le> rm_seq m"
  shows "rdv_host_slot h2 m' = (False, h2)"
proof -
  have inv: "host_inv h" by (rule rdv_host.reachable_inv [OF assms(1)])
  have inv1: "host_inv h1" using host_inv_slot [OF inv assms(2)] assms(3) by simp
  from assms(4) have "host_inv h2 \<and> offer_known h2 (rm_from m) (rm_seq m)"
  proof induction
    case base
    then show ?case using inv1 offer_known_taken [OF inv assms(2,3)] by simp
  next
    case (step a b)
    then show ?case using rdv_host.inv_step offer_known_step by blast
  qed
  then show ?thesis using offer_known_replay [of h2 m' "rm_seq m"] assms(5,6) by simp
qed

theorem rdv_host_offer_once_witness:
  "rdv_host_slot (snd (rdv_host_slot host0 offer0)) (offer0\<lparr>rm_seq := 4\<rparr>) =
   (False, snd (rdv_host_slot host0 offer0))"
  using rdv_host_offer_once [of host0 offer0 "snd (rdv_host_slot host0 offer0)"
      "snd (rdv_host_slot host0 offer0)" "offer0\<lparr>rm_seq := 4\<rparr>"]
    host0_starts offer0_wf offer0_taken
  by (simp add: reachable.intros prod_eq_iff)

text \<open>What the host states next. It stays silent exactly when nothing is owed: its own
  statement is not due and every claimant owed an answer waits for another one's to leave the
  cell. Otherwise it emits one decodable statement of its own, numbered one above the last,
  never longer than the largest message: its own statement (or the tombstone), or the answer or
  refusal owed to a claimant, which is then the only one the cell carries.\<close>

theorem rdv_host_next_correct:
  assumes reach: "reachable rdv_host_starts rdv_host_step h"
    and info: "length info \<le> RDV_HOST_PAYLOAD"
  shows "case rdv_host_next h info of
     (None, h') \<Rightarrow> h' = h \<and> \<not> rh_info_pending h \<and>
        (\<forall>i < length (rh_c h). rc_pending (rh_c h ! i) \<longrightarrow> answer_stands h i)
   | (Some out, h') \<Rightarrow> length (ro_msg out) \<le> RDV_MAX_MSG \<and>
        (\<exists>m. rdv_decode (ro_msg out) = Inr m \<and> rm_from m = rh_cid h \<and>
             rm_seq m = rh_seq h + 1 \<and> rh_seq h' = rm_seq m \<and>
             (if rh_info_pending h
              then ro_seal out = RDV_SEAL_INFO \<and> rm_to m = rdv_zero \<and> rm_payload m = info \<and>
                   rm_kind m = (if rh_gone h then RDV_TOMB else RDV_HOSTINFO) \<and>
                   \<not> rh_info_pending h' \<and> rh_c h' = rh_c h
              else ro_seal out = RDV_SEAL_CLASS \<and>
                   (\<exists>i < length (rh_c h). rc_pending (rh_c h ! i) \<and> rm_to m = rc_cid (rh_c h ! i) \<and>
                      rm_re m = rc_answer_re (rh_c h ! i) \<and>
                      (if rc_state (rh_c h ! i) = RDV_C_REFUSED
                       then rm_kind m = RDV_REFUSE \<and> rm_payload m = [rc_refusal (rh_c h ! i)]
                       else rm_kind m = RDV_ANSWER \<and> rm_payload m = rc_answer (rh_c h ! i)) \<and>
                      \<not> rc_pending (rh_c h' ! i) \<and>
                      (\<forall>j < length (rh_c h). rc_holds (rh_c h' ! j) = (j = i)))))"
proof -
  have inv: "host_inv h" by (rule rdv_host.reachable_inv [OF reach])
  obtain r h' where n: "rdv_host_next h info = (r, h')" by fastforce
  from inv n show ?thesis
  proof (cases rule: rdv_host_next_cases)
    case none
    then show ?thesis
      using n info rdv_host_next_silent [OF inv info, of h'] by simp
  next
    case (info msg)
    then show ?thesis using n by (auto simp: out_slot_def host_info_msg_def)
  next
    case (reply i msg)
    let ?m = "host_reply_msg (h\<lparr>rh_seq := rh_seq h + 1\<rparr>) i"
    have "\<forall>j < length (rh_c h). rc_holds (rh_c h' ! j) = (j = i)"
      using reply by (auto simp: nth_list_update answer_stands_def)
    then have "\<exists>i' < length (rh_c h). rc_pending (rh_c h ! i') \<and> rm_to ?m = rc_cid (rh_c h ! i') \<and>
        rm_re ?m = rc_answer_re (rh_c h ! i') \<and>
        (if rc_state (rh_c h ! i') = RDV_C_REFUSED
         then rm_kind ?m = RDV_REFUSE \<and> rm_payload ?m = [rc_refusal (rh_c h ! i')]
         else rm_kind ?m = RDV_ANSWER \<and> rm_payload ?m = rc_answer (rh_c h ! i')) \<and>
        \<not> rc_pending (rh_c h' ! i') \<and> (\<forall>j < length (rh_c h). rc_holds (rh_c h' ! j) = (j = i'))"
      using reply by (intro exI [of _ i]) (simp add: host_reply_msg_def Let_def rdv_kinds)
    moreover have "rm_from ?m = rh_cid h \<and> rm_seq ?m = rh_seq h + 1 \<and> rh_seq h' = rm_seq ?m"
      using reply by (simp add: host_reply_msg_def Let_def)
    ultimately show ?thesis
      using n reply by (simp add: out_slot_def)
  qed
qed

theorem rdv_host_next_correct_witness:
  "length (ro_msg (the (fst (rdv_host_next host0 [9])))) \<le> RDV_MAX_MSG"
  using rdv_host_next_correct [of host0 "[9]"] host0_starts host0_states
  by (simp add: reachable.intros RDV_HOST_PAYLOAD_def split_beta split: prod.splits option.splits)

end
