(* ===== verification/Rdv_Client.thy ===== *)
theory Rdv_Client
  imports Rdv_Host
begin

text \<open>
  The claimant's side of the rendezvous (rdv.c): which host statement it follows, under which
  number it asks, which answer it takes. The operations are definitions over the record
  \<open>rdv_client\<close>, their interleavings the relation \<open>rdv_client_step\<close>. The last section puts the
  claimant and the host together: one round through the cell completes.
\<close>

datatype rdv_clstate = RDV_CL_ANNOUNCING | RDV_CL_OFFERED | RDV_CL_ANSWERED | RDV_CL_REFUSED

definition RDV_PREV_MAX :: nat where "RDV_PREV_MAX = 4"

record rdv_client =
  cl_cid :: cid
  cl_host_cid :: cid
  cl_prev_cid :: "cid list"
  cl_h_seq :: int
  cl_host_gen :: u32
  cl_seq :: u32
  cl_offer_seq :: u32
  cl_prev_offer_seq :: u32
  cl_answer_seq :: u32
  cl_state :: rdv_clstate
  cl_have_host :: bool
  cl_have_answer_seq :: bool
  cl_live :: bool
  cl_reask :: bool
  cl_refusal :: byte
  cl_host_gone :: bool
  cl_nprev :: nat
  cl_offer :: "byte list"
  cl_answer :: "byte list"

definition rdv_client_init :: "cid \<Rightarrow> rdv_client" where
  "rdv_client_init cid =
     \<lparr>cl_cid = cid, cl_host_cid = rdv_zero, cl_prev_cid = replicate RDV_PREV_MAX rdv_zero,
      cl_h_seq = -1, cl_host_gen = 0, cl_seq = 0, cl_offer_seq = 0, cl_prev_offer_seq = 0,
      cl_answer_seq = 0, cl_state = RDV_CL_ANNOUNCING, cl_have_host = False,
      cl_have_answer_seq = False, cl_live = False, cl_reask = False,
      cl_refusal = RDV_REFUSE_NONE, cl_host_gone = False, cl_nprev = 0, cl_offer = [],
      cl_answer = []\<rparr>"

definition client_knew :: "rdv_client \<Rightarrow> cid \<Rightarrow> bool" where
  "client_knew c cid \<longleftrightarrow>
     cl_have_host c \<and> cl_host_cid c = cid \<or>
     (\<exists>i < min (cl_nprev c) RDV_PREV_MAX. cl_prev_cid c ! i = cid)"

definition client_copy_acts :: "rdv_client \<Rightarrow> rdv_msg \<Rightarrow> int \<Rightarrow> bool \<times> rdv_client" where
  "client_copy_acts c m seq =
     (if 0 \<le> seq \<and> seq < cl_h_seq c \<and> client_knew c (rm_from m) then (False, c)
      else if cl_h_seq c < seq then (True, c\<lparr>cl_h_seq := seq\<rparr>)
      else (True, c))"

text \<open>The host is new or has moved: what was learned from the previous one is dropped.\<close>

definition client_retire :: "rdv_client \<Rightarrow> rdv_client" where
  "client_retire c =
     (let c = c\<lparr>cl_prev_cid := (cl_prev_cid c)[cl_nprev c mod RDV_PREV_MAX := cl_host_cid c]\<rparr>;
          c = (if cl_nprev c < RDV_PREV_MAX then c\<lparr>cl_nprev := cl_nprev c + 1\<rparr> else c)
      in c\<lparr>cl_have_answer_seq := False\<rparr>)"

definition rdv_client_host_slot :: "rdv_client \<Rightarrow> rdv_msg \<Rightarrow> int \<Rightarrow> int \<times> rdv_client" where
  "rdv_client_host_slot c m seq =
     (if rm_kind m \<noteq> RDV_TOMB \<and> rm_kind m \<noteq> RDV_HOSTINFO then (0, c)
      else if rm_from m = rdv_zero then (0, c)
      else case client_copy_acts c m seq of
             (False, c) \<Rightarrow> (-1, c)
           | (True, c) \<Rightarrow>
               if rm_kind m = RDV_TOMB then (0, c\<lparr>cl_host_gone := True\<rparr>)
               else
                 (let c = c\<lparr>cl_host_gone := False\<rparr>;
                      moved = (\<not> cl_have_host c \<or> cl_host_cid c \<noteq> rm_from m \<or>
                               rm_gen m \<noteq> cl_host_gen c)
                  in if \<not> moved then (0, c)
                     else
                       (let c = (if cl_have_host c \<and> cl_host_cid c \<noteq> rm_from m
                                 then client_retire c else c)
                        in (1, c\<lparr>cl_host_cid := rm_from m, cl_host_gen := rm_gen m,
                                  cl_have_host := True, cl_state := RDV_CL_ANNOUNCING,
                                  cl_answer := [], cl_offer_seq := 0,
                                  cl_refusal := RDV_REFUSE_NONE\<rparr>))))"

definition rdv_client_ask_gone :: "rdv_client \<Rightarrow> int \<Rightarrow> rdv_client" where
  "rdv_client_ask_gone c seq =
     (if 0 \<le> seq \<and> seq < cl_h_seq c then c
      else if cl_state c = RDV_CL_OFFERED then c\<lparr>cl_reask := True\<rparr> else c)"

datatype rdv_take = RDV_TAKE_OK | RDV_TAKE_NOT_AN_ANSWER | RDV_TAKE_ADDRESSED_ELSEWHERE
  | RDV_TAKE_ANOTHER_HOST | RDV_TAKE_NOTHING_ASKED | RDV_TAKE_ANOTHER_OFFER
  | RDV_TAKE_ALREADY_TAKEN

definition rdv_client_refusal :: "rdv_client \<Rightarrow> rdv_msg \<Rightarrow> rdv_take" where
  "rdv_client_refusal c m =
     (if rm_kind m \<noteq> RDV_ANSWER \<and> rm_kind m \<noteq> RDV_REFUSE then RDV_TAKE_NOT_AN_ANSWER
      else if \<not> rdv_addressed_to (rm_to m) (cl_cid c) \<or> rm_to m \<noteq> cl_cid c
      then RDV_TAKE_ADDRESSED_ELSEWHERE
      else if cl_have_host c \<and> rm_from m \<noteq> cl_host_cid c then RDV_TAKE_ANOTHER_HOST
      else if cl_offer_seq c = 0 then RDV_TAKE_NOTHING_ASKED
      else if rm_re m \<noteq> cl_offer_seq c \<and>
              \<not> (cl_prev_offer_seq c \<noteq> 0 \<and> rm_re m = cl_prev_offer_seq c)
      then RDV_TAKE_ANOTHER_OFFER
      else if cl_have_answer_seq c \<and> rm_seq m \<le> cl_answer_seq c then RDV_TAKE_ALREADY_TAKEN
      else RDV_TAKE_OK)"

fun rdv_client_refusal_name :: "rdv_take \<Rightarrow> string" where
  "rdv_client_refusal_name RDV_TAKE_OK = ''takeable''"
| "rdv_client_refusal_name RDV_TAKE_NOT_AN_ANSWER = ''not an answer''"
| "rdv_client_refusal_name RDV_TAKE_ADDRESSED_ELSEWHERE = ''addressed to somebody else''"
| "rdv_client_refusal_name RDV_TAKE_ANOTHER_HOST = ''from another host instance''"
| "rdv_client_refusal_name RDV_TAKE_NOTHING_ASKED = ''we have asked nothing''"
| "rdv_client_refusal_name RDV_TAKE_ANOTHER_OFFER = ''names an offer that is not ours''"
| "rdv_client_refusal_name RDV_TAKE_ALREADY_TAKEN = ''already taken''"

definition rdv_client_would_take :: "rdv_client \<Rightarrow> rdv_msg \<Rightarrow> bool" where
  "rdv_client_would_take c m \<longleftrightarrow> rdv_client_refusal c m = RDV_TAKE_OK"

definition rdv_client_may_replace :: "rdv_client \<Rightarrow> rdv_msg \<Rightarrow> bool \<Rightarrow> bool" where
  "rdv_client_may_replace c m opened =
     (if \<not> opened then True
      else if rm_from m = cl_cid c then rm_seq m \<noteq> cl_offer_seq c
      else if \<not> cl_have_host c \<or> rm_from m \<noteq> cl_host_cid c then True
      else \<not> rdv_client_would_take c m)"

definition rdv_client_own_slot :: "rdv_client \<Rightarrow> rdv_msg \<Rightarrow> bool \<times> rdv_client" where
  "rdv_client_own_slot c m =
     (if \<not> rdv_client_would_take c m then (False, c)
      else
        (let c = c\<lparr>cl_answer_seq := rm_seq m, cl_have_answer_seq := True\<rparr>
         in if rm_kind m = RDV_REFUSE
            then (True, c\<lparr>cl_state := RDV_CL_REFUSED,
                    cl_refusal := (if rm_payload m \<noteq> [] then rm_payload m ! 0 else RDV_REFUSE_NONE),
                    cl_answer := []\<rparr>)
            else (True, c\<lparr>cl_state := RDV_CL_ANSWERED, cl_refusal := RDV_REFUSE_NONE,
                    cl_answer := rm_payload m\<rparr>)))"

definition rdv_client_answer_unusable :: "rdv_client \<Rightarrow> rdv_msg \<Rightarrow> rdv_client" where
  "rdv_client_answer_unusable c m =
     (if \<not> rdv_client_would_take c m then c
      else c\<lparr>cl_answer_seq := rm_seq m, cl_have_answer_seq := True, cl_answer := [],
             cl_reask := True\<rparr>)"

definition rdv_client_ident_changed :: "rdv_client \<Rightarrow> rdv_client" where
  "rdv_client_ident_changed c = c\<lparr>cl_prev_offer_seq := 0\<rparr>"

definition rdv_client_reask :: "rdv_client \<Rightarrow> rdv_client" where
  "rdv_client_reask c = c\<lparr>cl_reask := True\<rparr>"

definition rdv_client_set_live :: "rdv_client \<Rightarrow> bool \<Rightarrow> rdv_client" where
  "rdv_client_set_live c live =
     (let c = c\<lparr>cl_live := live\<rparr>
      in if \<not> live \<and> cl_state c = RDV_CL_ANSWERED then c\<lparr>cl_state := RDV_CL_ANNOUNCING\<rparr> else c)"

definition offer_seq :: "rdv_client \<Rightarrow> byte list \<Rightarrow> u32 \<times> rdv_client" where
  "offer_seq c offer =
     (if \<not> cl_reask c \<and> cl_offer_seq c \<noteq> 0 \<and> length (cl_offer c) = length offer \<and>
         cl_offer c = offer
      then (cl_offer_seq c, c)
      else
        (let c = c\<lparr>cl_reask := False\<rparr>;
             c = c\<lparr>cl_offer := offer\<rparr>;
             c = c\<lparr>cl_prev_offer_seq := cl_offer_seq c\<rparr>;
             c = c\<lparr>cl_seq := cl_seq c + 1\<rparr>;
             c = c\<lparr>cl_offer_seq := cl_seq c\<rparr>
         in (cl_offer_seq c, c)))"

definition client_offer_msg :: "rdv_client \<Rightarrow> u32 \<Rightarrow> byte list \<Rightarrow> rdv_msg" where
  "client_offer_msg c seq offer =
     \<lparr>rm_kind = RDV_OFFER, rm_gen = cl_host_gen c, rm_from = cl_cid c, rm_to = cl_host_cid c,
      rm_seq = seq, rm_re = 0, rm_payload = offer\<rparr>"

definition rdv_client_next :: "rdv_client \<Rightarrow> byte list \<Rightarrow> rdv_out option \<times> rdv_client" where
  "rdv_client_next c offer =
     (if cl_live c \<or> cl_state c = RDV_CL_REFUSED \<or> cl_host_gone c then (None, c)
      else if cl_state c = RDV_CL_ANSWERED then (None, c)
      else if \<not> cl_have_host c then (None, c)
      else if RDV_MAX_PAYLOAD < length offer then (None, c)
      else
        (let (seq, c) = offer_seq c offer
         in case rdv_encode (client_offer_msg c seq offer) RDV_MAX_MSG of
              None \<Rightarrow> (None, c)
            | Some msg \<Rightarrow>
                (Some (out_slot msg RDV_SEAL_CLASS), c\<lparr>cl_state := RDV_CL_OFFERED\<rparr>)))"

section \<open>The claimant's operations in any order\<close>

text \<open>Everything but the emission of an offer.\<close>

inductive rdv_client_quiet :: "rdv_client \<Rightarrow> rdv_client \<Rightarrow> bool" where
  host_slot: "wf_rdv_msg m \<Longrightarrow> rdv_client_quiet c (snd (rdv_client_host_slot c m seq))"
| ask_gone: "rdv_client_quiet c (rdv_client_ask_gone c seq)"
| own_slot: "wf_rdv_msg m \<Longrightarrow> rdv_client_quiet c (snd (rdv_client_own_slot c m))"
| unusable: "rdv_client_quiet c (rdv_client_answer_unusable c m)"
| ident_changed: "rdv_client_quiet c (rdv_client_ident_changed c)"
| reask: "rdv_client_quiet c (rdv_client_reask c)"
| set_live: "rdv_client_quiet c (rdv_client_set_live c live)"

inductive rdv_client_step :: "rdv_client \<Rightarrow> rdv_client \<Rightarrow> bool" where
  quiet: "rdv_client_quiet c c' \<Longrightarrow> rdv_client_step c c'"
| emit: "rdv_client_step c (snd (rdv_client_next c offer))"

definition client_wf :: "rdv_client \<Rightarrow> bool" where
  "client_wf c \<longleftrightarrow> length (cl_cid c) = RDV_CID_LEN \<and> length (cl_host_cid c) = RDV_CID_LEN"

definition rdv_client_starts :: "rdv_client \<Rightarrow> bool" where
  "rdv_client_starts c \<longleftrightarrow> length (cl_cid c) = RDV_CID_LEN \<and> c = rdv_client_init (cl_cid c)"

lemmas rdv_client_defs = rdv_client_host_slot_def client_copy_acts_def client_retire_def
  rdv_client_ask_gone_def rdv_client_own_slot_def rdv_client_answer_unusable_def
  rdv_client_ident_changed_def rdv_client_reask_def rdv_client_set_live_def

lemma client_wf_quiet: "client_wf c \<Longrightarrow> rdv_client_quiet c c' \<Longrightarrow> client_wf c'"
  by (erule rdv_client_quiet.cases)
    (auto simp: client_wf_def rdv_client_defs Let_def wf_rdv_msg_def)

lemma offer_seq_fields [simp]:
  "cl_cid (snd (offer_seq c offer)) = cl_cid c" "cl_host_cid (snd (offer_seq c offer)) = cl_host_cid c"
  "cl_have_host (snd (offer_seq c offer)) = cl_have_host c"
  "cl_host_gen (snd (offer_seq c offer)) = cl_host_gen c"
  "cl_have_answer_seq (snd (offer_seq c offer)) = cl_have_answer_seq c"
  "cl_answer_seq (snd (offer_seq c offer)) = cl_answer_seq c"
  "cl_offer_seq (snd (offer_seq c offer)) = fst (offer_seq c offer)"
  "cl_offer (snd (offer_seq c offer)) = offer"
  by (auto simp: offer_seq_def Let_def)

text \<open>When the claimant speaks, and what it says.\<close>

lemma rdv_client_next_cases:
  assumes wf: "client_wf c"
  obtains (silent) "rdv_client_next c offer = (None, c)"
      "cl_live c \<or> cl_state c \<in> {RDV_CL_REFUSED, RDV_CL_ANSWERED} \<or> cl_host_gone c \<or>
       \<not> cl_have_host c \<or> RDV_MAX_PAYLOAD < length offer"
  | (offers) msg where
      "rdv_client_next c offer =
         (Some (out_slot msg RDV_SEAL_CLASS), (snd (offer_seq c offer))\<lparr>cl_state := RDV_CL_OFFERED\<rparr>)"
      "rdv_decode msg = Inr (client_offer_msg c (fst (offer_seq c offer)) offer)"
      "wf_rdv_msg (client_offer_msg c (fst (offer_seq c offer)) offer)"
      "cl_have_host c" "length msg \<le> RDV_MAX_MSG"
proof (cases "cl_live c \<or> cl_state c \<in> {RDV_CL_REFUSED, RDV_CL_ANSWERED} \<or> cl_host_gone c \<or>
       \<not> cl_have_host c \<or> RDV_MAX_PAYLOAD < length offer")
  case True
  then show thesis by (intro silent) (auto simp: rdv_client_next_def)
next
  case False
  let ?m = "client_offer_msg c (fst (offer_seq c offer)) offer"
  have wfm: "wf_rdv_msg ?m"
    using wf False by (auto simp: wf_rdv_msg_def client_offer_msg_def client_wf_def rdv_kinds)
  from rdv_encode_some [OF wfm order_refl]
  obtain msg where msg: "rdv_encode ?m RDV_MAX_MSG = Some msg" by blast
  have "client_offer_msg (snd (offer_seq c offer)) (fst (offer_seq c offer)) offer = ?m"
    by (simp add: client_offer_msg_def)
  with False msg have "rdv_client_next c offer =
      (Some (out_slot msg RDV_SEAL_CLASS), (snd (offer_seq c offer))\<lparr>cl_state := RDV_CL_OFFERED\<rparr>)"
    by (simp add: rdv_client_next_def split_beta)
  then show thesis
    using offers [of msg] rdv_decode_encode [OF wfm msg] wfm False rdv_encode_length [OF msg wfm]
    by blast
qed

lemma client_wf_next: "client_wf c \<Longrightarrow> client_wf (snd (rdv_client_next c offer))"
  by (rule rdv_client_next_cases [of c offer]) (simp_all add: client_wf_def)

interpretation rdv_client: invariant_system rdv_client_starts rdv_client_step client_wf
proof unfold_locales
  show "client_wf c" if "rdv_client_starts c" for c
  proof -
    have "length (cl_host_cid (rdv_client_init (cl_cid c))) = RDV_CID_LEN"
      by (simp add: rdv_client_init_def rdv_zero_def)
    then show ?thesis using that unfolding rdv_client_starts_def client_wf_def by metis
  qed
  show "client_wf c'" if "client_wf c" "rdv_client_step c c'" for c c'
    using that(2,1) by cases (auto intro: client_wf_quiet client_wf_next)
qed

section \<open>An answer is taken once\<close>

definition answer_spent :: "rdv_client \<Rightarrow> u32 \<Rightarrow> bool" where
  "answer_spent c q \<longleftrightarrow> cl_have_answer_seq c \<and> q \<le> cl_answer_seq c"

lemma answer_spent_refused: "answer_spent c (rm_seq m) \<Longrightarrow> rdv_client_own_slot c m = (False, c)"
  by (simp add: rdv_client_own_slot_def rdv_client_would_take_def rdv_client_refusal_def
      answer_spent_def)

lemma would_take_newer:
  "rdv_client_would_take c m \<Longrightarrow> cl_have_answer_seq c \<Longrightarrow> cl_answer_seq c < rm_seq m"
  by (auto simp: rdv_client_would_take_def rdv_client_refusal_def not_le split: if_splits)

lemma answer_spent_taken:
  "rdv_client_own_slot c m = (True, c') \<Longrightarrow> q \<le> rm_seq m \<Longrightarrow> answer_spent c' q"
  by (auto simp: rdv_client_own_slot_def answer_spent_def Let_def split: if_splits)

lemma answer_spent_quiet:
  assumes "rdv_client_quiet c c'" "answer_spent c q" "cl_host_cid c' = cl_host_cid c"
  shows "answer_spent c' q"
  using assms(1)
proof cases
  case (host_slot m seq)
  then show ?thesis using assms(2,3)
    by (auto simp: answer_spent_def rdv_client_defs Let_def split: if_splits)
next
  case (own_slot m)
  then show ?thesis using assms(2) would_take_newer [of c m]
    by (auto simp: answer_spent_def rdv_client_own_slot_def Let_def)
next
  case (unusable m)
  then show ?thesis using assms(2) would_take_newer [of c m]
    by (auto simp: answer_spent_def rdv_client_answer_unusable_def)
qed (use assms(2) in \<open>auto simp: answer_spent_def rdv_client_defs Let_def\<close>)

lemma answer_spent_next: "answer_spent c q \<Longrightarrow> answer_spent (snd (rdv_client_next c offer)) q"
  by (auto simp: answer_spent_def rdv_client_next_def split_beta split: option.split)

lemma answer_spent_step:
  "rdv_client_step c c' \<Longrightarrow> answer_spent c q \<Longrightarrow> cl_host_cid c' = cl_host_cid c \<Longrightarrow> answer_spent c' q"
  by (erule rdv_client_step.cases) (auto intro: answer_spent_quiet answer_spent_next)

text \<open>C32. A claimant takes an answer (or refusal) at most once: once it has taken one, no
  statement numbered no higher is taken again, whatever it reads, asks or is told in between,
  until it moves to another host instance. In particular a replica serving the same answer again
  does nothing.\<close>

theorem rdv_client_answer_once:
  assumes "rdv_client_own_slot c m = (True, c1)"
    and "(\<lambda>a b. rdv_client_step a b \<and> cl_host_cid b = cl_host_cid a)\<^sup>*\<^sup>* c1 c2"
    and "rm_seq m' \<le> rm_seq m"
  shows "rdv_client_own_slot c2 m' = (False, c2)"
proof -
  from assms(2) have "answer_spent c2 (rm_seq m')"
  proof induction
    case base
    then show ?case using answer_spent_taken [OF assms(1,3)] by simp
  next
    case (step a b)
    then show ?case using answer_spent_step by blast
  qed
  then show ?thesis by (rule answer_spent_refused)
qed

text \<open>A claimant that has asked its host, and the host's answer to it.\<close>

abbreviation client0 :: rdv_client where
  "client0 \<equiv> (rdv_client_init (replicate 8 2))\<lparr>cl_host_cid := replicate 8 1, cl_have_host := True,
     cl_state := RDV_CL_OFFERED, cl_offer_seq := 3, cl_seq := 3\<rparr>"

abbreviation answer0 :: rdv_msg where
  "answer0 \<equiv> \<lparr>rm_kind = RDV_ANSWER, rm_gen = 7, rm_from = replicate 8 1, rm_to = replicate 8 2,
     rm_seq = 4, rm_re = 3, rm_payload = [5, 6]\<rparr>"

theorem rdv_client_answer_once_witness:
  "rdv_client_own_slot (snd (rdv_client_own_slot client0 answer0)) answer0 =
   (False, snd (rdv_client_own_slot client0 answer0))"
  using rdv_client_answer_once [of client0 answer0 "snd (rdv_client_own_slot client0 answer0)"
      "snd (rdv_client_own_slot client0 answer0)" answer0]
  by (simp add: rdv_client_own_slot_def rdv_client_would_take_def rdv_client_refusal_def
      rdv_client_init_def rdv_addressed_to_def rdv_kinds Let_def)

section \<open>A number names one offer\<close>

text \<open>A run of the claimant with the log of the offers it put into the cell.\<close>

inductive rdv_client_run :: "rdv_client \<Rightarrow> (u32 \<times> byte list) list \<Rightarrow> bool" where
  begins: "rdv_client_starts c \<Longrightarrow> rdv_client_run c []"
| quiet: "rdv_client_run c log \<Longrightarrow> rdv_client_quiet c c' \<Longrightarrow> rdv_client_run c' log"
| silent: "rdv_client_run c log \<Longrightarrow> rdv_client_next c offer = (None, c') \<Longrightarrow> rdv_client_run c' log"
| offers: "rdv_client_run c log \<Longrightarrow> rdv_client_next c offer = (Some out, c') \<Longrightarrow>
    rdv_decode (ro_msg out) = Inr m \<Longrightarrow> rdv_client_run c' ((rm_seq m, rm_payload m) # log)"

text \<open>The numbers of the log lie at or below the counter, and the standing number names the
  standing offer.\<close>

definition log_inv :: "rdv_client \<Rightarrow> (u32 \<times> byte list) list \<Rightarrow> bool" where
  "log_inv c log \<longleftrightarrow>
     (\<forall>(q, p) \<in> set log. 0 < q \<and> q \<le> cl_seq c \<and>
        (q = cl_offer_seq c \<longrightarrow> p = cl_offer c)) \<and>
     (\<forall>(q, p) \<in> set log. \<forall>(q', p') \<in> set log. q = q' \<longrightarrow> p = p') \<and>
     cl_offer_seq c \<le> cl_seq c \<and> unat (cl_seq c) \<le> length log"

lemma log_inv_state [simp]: "log_inv (c\<lparr>cl_state := st\<rparr>) log = log_inv c log"
  by (simp add: log_inv_def)

lemma client_offer_msg_fields [simp]:
  "rm_seq (client_offer_msg c q offer) = q" "rm_payload (client_offer_msg c q offer) = offer"
  "rm_from (client_offer_msg c q offer) = cl_cid c" "rm_to (client_offer_msg c q offer) = cl_host_cid c"
  "rm_kind (client_offer_msg c q offer) = RDV_OFFER"
  by (simp_all add: client_offer_msg_def)

lemma ro_msg_out_slot [simp]: "ro_msg (out_slot msg seal) = msg"
  by (simp add: out_slot_def)

lemma quiet_keeps_numbers:
  "rdv_client_quiet c c' \<Longrightarrow>
   cl_seq c' = cl_seq c \<and> cl_offer c' = cl_offer c \<and> cl_offer_seq c' \<in> {cl_offer_seq c, 0}"
  by (erule rdv_client_quiet.cases) (auto simp: rdv_client_defs Let_def)

lemma log_inv_offer:
  assumes inv: "log_inv c log" and room: "length log < 2 ^ 32 - 1"
    and o: "offer_seq c offer = (q, c')"
  shows "log_inv c' ((q, offer) # log)"
proof (cases "\<not> cl_reask c \<and> cl_offer_seq c \<noteq> 0 \<and> cl_offer c = offer")
  case True
  then have "q = cl_offer_seq c" "c' = c" using o by (auto simp: offer_seq_def)
  then show ?thesis
    using inv True by (auto simp: log_inv_def word_neq_0_conv)
next
  case False
  then have q: "q = cl_seq c + 1" "cl_seq c' = cl_seq c + 1" "cl_offer_seq c' = cl_seq c + 1"
    "cl_offer c' = offer"
    using o by (auto simp: offer_seq_def Let_def)
  have small: "unat (cl_seq c) < 2 ^ 32 - 1" using inv room by (simp add: log_inv_def)
  then have suc: "unat (cl_seq c + 1) = unat (cl_seq c) + 1"
    by (simp add: unat_word_ariths)
  have above: "p < cl_seq c + 1" if "p \<le> cl_seq c" for p
    using that suc by (simp add: word_le_nat_alt word_less_nat_alt)
  then have "\<forall>(p, x) \<in> set log. 0 < p \<and> p \<le> cl_seq c + 1 \<and> p \<noteq> cl_seq c + 1"
    using inv by (fastforce simp: log_inv_def)
  moreover have "0 < cl_seq c + 1" using suc by (simp add: word_less_nat_alt)
  ultimately show ?thesis
    using inv suc q by (fastforce simp: log_inv_def)
qed

lemma rdv_client_run_inv:
  "rdv_client_run c log \<Longrightarrow> length log < 2 ^ 32 \<Longrightarrow> client_wf c \<and> log_inv c log"
proof (induction rule: rdv_client_run.induct)
  case (begins c)
  then have "c = rdv_client_init (cl_cid c)" by (simp add: rdv_client_starts_def)
  then have "cl_offer_seq c = 0" "cl_seq c = 0"
    by (metis rdv_client.simps(7) rdv_client_init_def, metis rdv_client.simps(6) rdv_client_init_def)
  then show ?case using rdv_client.inv_init [OF begins.hyps] by (simp add: log_inv_def)
next
  case (quiet c log c')
  then have "log_inv c log" "client_wf c" by auto
  with quiet_keeps_numbers [OF quiet.hyps(2)] show ?case
    using client_wf_quiet [OF _ quiet.hyps(2)]
    by (fastforce simp: log_inv_def)
next
  case (silent c log offer c')
  then have "client_wf c" by simp
  then show ?case
    using silent by (cases rule: rdv_client_next_cases [of c offer]) auto
next
  case (offers c log offer out c' m)
  then have wf: "client_wf c" and inv: "log_inv c log" and room: "length log < 2 ^ 32 - 1" by auto
  from wf show ?case
  proof (cases rule: rdv_client_next_cases [of c offer])
    case silent
    then show ?thesis using offers by simp
  next
    case (offers msg)
    have "log_inv (snd (offer_seq c offer)) ((fst (offer_seq c offer), offer) # log)"
      using log_inv_offer [OF inv room] by simp
    moreover have "m = client_offer_msg c (fst (offer_seq c offer)) offer"
      "c' = (snd (offer_seq c offer))\<lparr>cl_state := RDV_CL_OFFERED\<rparr>"
      using offers \<open>rdv_client_next c offer = (Some out, c')\<close> \<open>rdv_decode (ro_msg out) = Inr m\<close>
      by (auto simp: out_slot_def)
    ultimately show ?thesis
      using client_wf_next [OF wf, of offer] offers by simp
  qed
qed

text \<open>No number ever names two different offers: over a whole run of the claimant, with any
  mix of operations and offers, two emissions that carry the same number carry the same offer,
  and no emission carries the number zero, which stands for none. (The counter has 32 bits; the
  run is one of fewer than two to the 32 emissions.)\<close>

theorem rdv_client_number_names_one_offer:
  assumes "rdv_client_run c log" "length log < 2 ^ 32"
    and "(q, p) \<in> set log" "(q, p') \<in> set log"
  shows "p = p' \<and> q \<noteq> 0"
proof -
  have "log_inv c log" using rdv_client_run_inv [OF assms(1,2)] by simp
  then show ?thesis
    using assms(3,4) unfolding log_inv_def by (auto simp: word_neq_0_conv)
qed

lemma client_run_empty: "rdv_client_run (rdv_client_init (replicate 8 2)) []"
  by (rule rdv_client_run.begins) (simp add: rdv_client_starts_def rdv_client_init_def RDV_CID_LEN_def)

abbreviation hostinfo0 :: rdv_msg where
  "hostinfo0 \<equiv> \<lparr>rm_kind = RDV_HOSTINFO, rm_gen = 7, rm_from = replicate 8 1, rm_to = replicate 8 0,
     rm_seq = 1, rm_re = 0, rm_payload = []\<rparr>"

abbreviation client1 :: rdv_client where
  "client1 \<equiv> snd (rdv_client_host_slot (rdv_client_init (replicate 8 2)) hostinfo0 0)"

lemma client1_run:
  "\<exists>c q. rdv_client_run c [(q, [4, 2])]"
proof -
  have "rdv_client_run client1 []"
    by (rule rdv_client_run.quiet [OF client_run_empty rdv_client_quiet.host_slot])
      (simp add: wf_rdv_msg_def rdv_kinds rdv_lens)
  moreover have "client_wf client1" using rdv_client_run_inv [OF calculation] by simp
  then obtain msg where "rdv_client_next client1 [4, 2] = (Some (out_slot msg RDV_SEAL_CLASS),
      (snd (offer_seq client1 [4, 2]))\<lparr>cl_state := RDV_CL_OFFERED\<rparr>)"
    "rdv_decode msg = Inr (client_offer_msg client1 (fst (offer_seq client1 [4, 2])) [4, 2])"
  proof (cases rule: rdv_client_next_cases [of client1 "[4, 2]"])
    case silent
    then show ?thesis
      by (simp add: rdv_client_host_slot_def client_copy_acts_def rdv_client_init_def Let_def
          rdv_kinds rdv_lens rdv_zero_def)
  qed blast
  ultimately have "rdv_client_run ((snd (offer_seq client1 [4, 2]))\<lparr>cl_state := RDV_CL_OFFERED\<rparr>)
      [(fst (offer_seq client1 [4, 2]), [4, 2])]"
    using rdv_client_run.offers [of client1 "[]" "[4, 2]" "out_slot msg RDV_SEAL_CLASS" _
        "client_offer_msg client1 (fst (offer_seq client1 [4, 2])) [4, 2]"]
    by simp
  then show ?thesis by blast
qed

theorem rdv_client_number_names_one_offer_witness:
  "\<exists>c q. rdv_client_run c [(q, [4, 2])] \<and> q \<noteq> 0"
  using client1_run rdv_client_number_names_one_offer [of _ "[(_, [4, 2])]" _ "[4, 2]" "[4, 2]"]
  by fastforce

section \<open>Claimant and host together\<close>

text \<open>One round through the cell: the claimant's offer is read by the host, which answers it, and
  the statement the host makes next is read by the claimant.\<close>

definition cell_round ::
    "rdv_client \<Rightarrow> rdv_host \<Rightarrow> byte list \<Rightarrow> byte list \<Rightarrow> (bool \<times> rdv_client \<times> rdv_host) option" where
  "cell_round c h offer payload =
     (case rdv_client_next c offer of
        (None, _) \<Rightarrow> None
      | (Some out, c1) \<Rightarrow>
          (case rdv_decode (ro_msg out) of
             Inl _ \<Rightarrow> None
           | Inr m \<Rightarrow>
               (case rdv_host_slot h m of
                  (False, _) \<Rightarrow> None
                | (True, h1) \<Rightarrow>
                    (case rdv_host_next (rdv_host_answer h1 (rm_from m) payload) [] of
                       (None, _) \<Rightarrow> None
                     | (Some out2, h3) \<Rightarrow>
                         (case rdv_decode (ro_msg out2) of
                            Inl _ \<Rightarrow> None
                          | Inr m2 \<Rightarrow>
                              (case rdv_client_own_slot c1 m2 of
                                 (ok, c2) \<Rightarrow> Some (ok, c2, h3)))))))"

text \<open>A host with nothing of its own to state and nobody owed an answer takes a newcomer's offer
  into slot \<open>i\<close>, from where the next statement is the answer to it.\<close>

definition host_idle :: "rdv_host \<Rightarrow> bool" where
  "host_idle h \<longleftrightarrow> \<not> rh_info_pending h \<and> (\<forall>c \<in> set (rh_c h). \<not> rc_pending c)"

lemma host_takes_newcomer:
  assumes inv: "host_inv h" and idle: "host_idle h" and wf: "wf_rdv_msg m"
    and new: "rdv_host_find h (rm_from m) = None" "\<exists>c \<in> set (rh_c h). rc_state c = RDV_C_FREE"
    and m: "rm_kind m = RDV_OFFER" "rm_from m \<noteq> rdv_zero" "rm_to m = rh_cid h"
    and grant: "rh_grant h = 0 \<or> rh_answered h < rh_grant h"
  obtains h1 i where "rdv_host_slot h m = (True, h1)" "host_inv h1" "host_idle h1"
    "rdv_host_find h1 (rm_from m) = Some i" "rc_last_seq (rh_c h1 ! i) = rm_seq m"
    "rc_state (rh_c h1 ! i) = RDV_C_HARVESTED" "\<forall>c \<in> set (rh_c h1). \<not> rc_holds c"
    "rh_cid h1 = rh_cid h" "rh_seq h1 = rh_seq h" "rh_answered h1 = rh_answered h"
proof -
  have len: "length (rm_from m) = RDV_CID_LEN" using wf by (simp add: wf_rdv_msg_def)
  obtain i where i: "host_evict h RDV_C_FREE = Some i"
    using new(2) by (metis (mono_tags, lifting) find_index_ex host_evict_def)
  define c0 where "c0 = claimant_zero\<lparr>rc_cid := rm_from m, rc_state := RDV_C_HARVESTED\<rparr>"
  define h0 where "h0 = upd_c h i (\<lambda>_. c0)"
  have a: "host_admit h (rm_from m) = (h0, Some i)"
    by (simp add: host_admit_def new(1) i h0_def c0_def)
  note inv0 = host_inv_admit(1) [OF inv len a]
  have ilt: "i < length (rh_c h)"
    using find_index_SomeD [OF i [unfolded host_evict_def]] by simp
  have at: "rh_c h0 ! i = c0" "i < length (rh_c h0)" using ilt by (simp_all add: h0_def)
  have st: "rc_state (rh_c h0 ! i) \<noteq> RDV_C_FREE" by (simp add: at c0_def)
  define h1 where "h1 = slot_take h0 i (rm_seq m)"
  note at1 = slot_take_at [OF inv0 at(2) st, of "rm_seq m", folded h1_def]
  have not_ans: "\<not> rc_state (rh_c h0 ! i) = RDV_C_ANSWERED" by (simp add: at c0_def)
  have eq: "h1 = h0\<lparr>rh_turn_spent := False,
      rh_c := (map (\<lambda>c. c\<lparr>rc_holds := False\<rparr>) (rh_c h0))[i := harvest (rm_seq m) c0],
      rh_answered := rh_answered h0\<rparr>"
    using slot_take_eq [OF at(2), of "rm_seq m"] not_ans by (simp add: h1_def at(1))
  have idle0: "\<forall>c \<in> set (rh_c h0). \<not> rc_pending c"
    using idle set_update_subset_insert [of "rh_c h" i c0]
    by (auto simp: host_idle_def h0_def c0_def claimant_zero_def)
  have clean: "\<forall>c \<in> set (rh_c h1). \<not> rc_pending c \<and> \<not> rc_holds c"
    using idle0 set_update_subset_insert
        [of "map (\<lambda>c. c\<lparr>rc_holds := False\<rparr>) (rh_c h0)" i "harvest (rm_seq m) c0"]
    by (auto simp: eq harvest_def Let_def c0_def claimant_zero_def)
  have fields: "rh_cid h1 = rh_cid h" "rh_seq h1 = rh_seq h" "rh_answered h1 = rh_answered h"
    "rh_info_pending h1 = rh_info_pending h" "rh_grant h1 = rh_grant h"
    by (simp_all add: eq h0_def)
  have slot: "rdv_host_slot h m = (True, h1)"
  proof -
    have "\<not> rc_have_seq (rh_c h0 ! i)" by (simp add: at c0_def claimant_zero_def)
    then show ?thesis
      using m grant fields by (auto simp: rdv_host_slot_def a rdv_addressed_to_def Let_def
          h1_def [symmetric])
  qed
  moreover have inv1: "host_inv h1" using host_inv_slot [OF inv wf] slot by simp
  moreover have "rdv_host_find h1 (rm_from m) = Some i"
    using host_inv_find [OF inv1, of i] at at1 by (simp add: c0_def)
  moreover have "host_idle h1" using clean fields idle by (simp add: host_idle_def)
  ultimately show thesis
    using that [of h1 i] clean fields at1 by auto
qed

lemma host_states_answer:
  assumes inv: "host_inv h" and idle: "host_idle h" and i: "rdv_host_find h cid = Some i"
    and free: "\<forall>c \<in> set (rh_c h). \<not> rc_holds c" and p: "length payload \<le> RDV_MAX_PAYLOAD"
  obtains msg h' where
    "rdv_host_next (rdv_host_answer h cid payload) [] = (Some (out_slot msg RDV_SEAL_CLASS), h')"
    "rdv_decode msg = Inr \<lparr>rm_kind = RDV_ANSWER, rm_gen = rh_gen h, rm_from = rh_cid h, rm_to = cid,
       rm_seq = rh_seq h + 1, rm_re = rc_last_seq (rh_c h ! i), rm_payload = payload\<rparr>"
proof -
  let ?h = "rdv_host_answer h cid payload"
  define c where "c = (rh_c h ! i)\<lparr>rc_state := RDV_C_ANSWERED, rc_refusal := RDV_REFUSE_NONE,
      rc_pending := True, rc_answer_re := rc_last_seq (rh_c h ! i), rc_answer := payload\<rparr>"
  note d = host_inv_foundD [OF inv i]
  have inv': "host_inv ?h" by (rule host_inv_answer [OF inv])
  have cs: "rh_c ?h = (rh_c h)[i := c]" and flds: "rh_cid ?h = rh_cid h" "rh_seq ?h = rh_seq h"
      "rh_gen ?h = rh_gen h" "rh_info_pending ?h = rh_info_pending h"
    using i p by (simp_all add: rdv_host_answer_def Let_def c_def)
  have only: "j = i" if "j < length (rh_c ?h)" "rc_pending (rh_c ?h ! j)" for j
    using that idle by (cases "j = i") (auto simp: cs host_idle_def)
  have nobody: "\<not> rc_holds (rh_c ?h ! j)" if "j < length (rh_c ?h)" "j \<noteq> i" for j
    using that free by (simp add: cs)
  have not_info: "\<not> rh_info_pending ?h" using idle flds by (simp add: host_idle_def)
  obtain r h' where n: "rdv_host_next ?h [] = (r, h')" by fastforce
  from inv' n show thesis
  proof (cases rule: rdv_host_next_cases)
    case none
    then have "\<forall>j < length (rh_c ?h). rc_pending (rh_c ?h ! j) \<longrightarrow> answer_stands ?h j"
      using rdv_host_next_silent [OF inv', of "[]" h'] n by simp
    then have "answer_stands ?h i" using d by (simp add: cs c_def)
    then show thesis using nobody by (auto simp: answer_stands_def)
  next
    case (info msg)
    then show thesis using not_info by simp
  next
    case (reply j msg)
    have "j = i" using only reply by simp
    moreover have "rh_c (?h\<lparr>rh_seq := rh_seq h + 1\<rparr>) ! i = c" using d by (simp add: cs)
    ultimately show thesis
      using that [of msg h'] n reply(5,6) flds d
      by (simp add: host_reply_msg_def Let_def c_def rdv_kinds cong: if_cong)
  qed
qed

text \<open>C2. One round of the rendezvous completes: a claimant following this host, free to speak,
  unknown to the host and with room for it in the table and under the grant, has its offer
  taken, and the answer the host gives comes back to it through the cell bit for bit.\<close>

theorem rendezvous_completes:
  assumes "reachable rdv_host_starts rdv_host_step h" "reachable rdv_client_starts rdv_client_step c"
    and "host_idle h" "rh_seq h \<noteq> - 1"
    and "rdv_host_find h (cl_cid c) = None" "\<exists>d \<in> set (rh_c h). rc_state d = RDV_C_FREE"
    and "rh_grant h = 0 \<or> rh_answered h < rh_grant h"
    and "cl_have_host c" "cl_host_cid c = rh_cid h" "cl_cid c \<noteq> rdv_zero"
    and "\<not> cl_live c" "\<not> cl_host_gone c" "cl_state c \<in> {RDV_CL_ANNOUNCING, RDV_CL_OFFERED}"
    and "cl_seq c \<noteq> - 1" "cl_have_answer_seq c \<longrightarrow> cl_answer_seq c \<le> rh_seq h"
    and "length offer \<le> RDV_MAX_PAYLOAD" "length payload \<le> RDV_MAX_PAYLOAD"
  shows "\<exists>c' h'. cell_round c h offer payload = Some (True, c', h') \<and>
           cl_state c' = RDV_CL_ANSWERED \<and> cl_answer c' = payload"
proof -
  have inv: "host_inv h" by (rule rdv_host.reachable_inv [OF assms(1)])
  have wfc: "client_wf c" by (rule rdv_client.reachable_inv [OF assms(2)])
  let ?q = "fst (offer_seq c offer)" and ?c1 = "(snd (offer_seq c offer))\<lparr>cl_state := RDV_CL_OFFERED\<rparr>"
  let ?m = "client_offer_msg c ?q offer"
  obtain msg where next_c: "rdv_client_next c offer = (Some (out_slot msg RDV_SEAL_CLASS), ?c1)"
    and dec: "rdv_decode msg = Inr ?m" and wfm: "wf_rdv_msg ?m"
    using assms by (cases rule: rdv_client_next_cases [OF wfc, of offer]) auto
  obtain h1 i where slot: "rdv_host_slot h ?m = (True, h1)" and h1: "host_inv h1" "host_idle h1"
    "rdv_host_find h1 (cl_cid c) = Some i" "rc_last_seq (rh_c h1 ! i) = ?q"
    "\<forall>d \<in> set (rh_c h1). \<not> rc_holds d" "rh_cid h1 = rh_cid h" "rh_seq h1 = rh_seq h"
    by (rule host_takes_newcomer [OF inv assms(3) wfm])
      (use assms(5-10) that in simp_all)
  obtain msg2 h3 where next_h: "rdv_host_next (rdv_host_answer h1 (cl_cid c) payload) [] =
      (Some (out_slot msg2 RDV_SEAL_CLASS), h3)"
    and dec2: "rdv_decode msg2 = Inr \<lparr>rm_kind = RDV_ANSWER, rm_gen = rh_gen h1, rm_from = rh_cid h,
      rm_to = cl_cid c, rm_seq = rh_seq h + 1, rm_re = ?q, rm_payload = payload\<rparr>"
    using host_states_answer [OF h1(1,2,3,5) assms(17)] h1 by metis
  have q0: "?q \<noteq> 0"
    using assms(14) by (auto simp: offer_seq_def Let_def add_eq_0_iff2)
  have "\<not> rh_seq h + 1 \<le> a" if "a \<le> rh_seq h" for a
    using that word_less_add_1 [OF assms(4)] by auto
  then have "rdv_client_would_take ?c1 \<lparr>rm_kind = RDV_ANSWER, rm_gen = rh_gen h1,
      rm_from = rh_cid h, rm_to = cl_cid c, rm_seq = rh_seq h + 1, rm_re = ?q, rm_payload = payload\<rparr>"
    using q0 assms by (auto simp: rdv_client_would_take_def rdv_client_refusal_def
        rdv_addressed_to_def)
  then show ?thesis
    by (simp add: cell_round_def next_c dec slot next_h dec2 rdv_client_own_slot_def Let_def rdv_kinds)
qed

text \<open>The session \<open>host0\<close> after it has stated itself, and a claimant that has read it.\<close>

abbreviation host1 :: rdv_host where "host1 \<equiv> snd (rdv_host_next host0 [])"

lemma host1_reachable: "reachable rdv_host_starts rdv_host_step host1"
  by (rule next_state, rule start, rule host0_starts, rule rdv_host_step.emit)

lemma client1_reachable: "reachable rdv_client_starts rdv_client_step client1"
proof -
  have st: "rdv_client_starts (rdv_client_init (replicate 8 2))"
    by (simp add: rdv_client_starts_def rdv_client_init_def RDV_CID_LEN_def)
  have wf: "wf_rdv_msg hostinfo0" by (simp add: wf_rdv_msg_def rdv_kinds rdv_lens)
  show ?thesis
    by (rule next_state, rule start, rule st, rule rdv_client_step.quiet,
        rule rdv_client_quiet.host_slot, rule wf)
qed

lemma host1_facts:
  "host_idle host1" "rh_seq host1 \<noteq> - 1" "rdv_host_find host1 (cl_cid client1) = None"
  "\<exists>d \<in> set (rh_c host1). rc_state d = RDV_C_FREE" "rh_answered host1 < rh_grant host1"
  "cl_host_cid client1 = rh_cid host1"
  by code_simp+

lemma client1_facts:
  "cl_have_host client1" "cl_cid client1 \<noteq> rdv_zero" "\<not> cl_live client1" "\<not> cl_host_gone client1"
  "cl_state client1 = RDV_CL_ANNOUNCING" "cl_seq client1 \<noteq> - 1" "\<not> cl_have_answer_seq client1"
  by code_simp+

theorem rendezvous_completes_witness:
  "\<exists>c' h'. cell_round client1 host1 [4, 2] [5, 6] = Some (True, c', h') \<and> cl_answer c' = [5, 6]"
  using rendezvous_completes [OF host1_reachable client1_reachable host1_facts(1-4) _
      client1_facts(1) host1_facts(6) client1_facts(2,3,4) _ client1_facts(6), of "[4, 2]" "[5, 6]"]
    host1_facts(5) client1_facts(5,7)
  by (auto simp: rdv_lens)

end
