(* ===== verification/Keys.thy ===== *)
theory Keys
  imports Prelude
begin

text \<open>
  The key schedule and the sealed messages of keys.c. The primitives (keyed BLAKE2b,
  XChaCha20-Poly1305, X25519, Ed25519) come from a library behind ccrypto.h: they are the fields
  of the record \<open>crypto\<close>, an argument of every definition that calls them, and \<open>crypto_ok\<close>
  states what their documentation promises. The bytes \<open>random_bytes\<close> draws are an argument too,
  \<open>None\<close> standing for its failure.
\<close>

record crypto =
  blake2b :: "nat \<Rightarrow> byte list \<Rightarrow> byte list \<Rightarrow> byte list"
  aead_lock :: "byte list \<Rightarrow> byte list \<Rightarrow> byte list \<Rightarrow> byte list \<Rightarrow> (byte list \<times> byte list) option"
  aead_unlock ::
    "byte list \<Rightarrow> byte list \<Rightarrow> byte list \<Rightarrow> byte list \<Rightarrow> byte list \<Rightarrow> byte list option"
  x25519_public :: "byte list \<Rightarrow> byte list option"
  x25519 :: "byte list \<Rightarrow> byte list \<Rightarrow> byte list option"
  ed25519_key_pair :: "byte list \<Rightarrow> (byte list \<times> byte list) option"

text \<open>\<open>aead_lock C key nonce ad pt\<close> yields the tag and the ciphertext,
  \<open>aead_unlock C key nonce ad mac ct\<close> the plaintext. Documented behaviour: the digest has the
  length asked for; what was locked unlocks under the same key, nonce and data; the key
  agreement is symmetric.\<close>

definition crypto_ok :: "crypto \<Rightarrow> bool" where
  "crypto_ok C \<longleftrightarrow>
     (\<forall>n k m. length (blake2b C n k m) = n) \<and>
     (\<forall>k n ad p mac ct. aead_lock C k n ad p = Some (mac, ct) \<longrightarrow>
        length mac = 16 \<and> length ct = length p \<and> aead_unlock C k n ad mac ct = Some p) \<and>
     (\<forall>k n ad p. aead_lock C k n ad p \<noteq> None) \<and>
     (\<forall>k n ad mac ct p. aead_unlock C k n ad mac ct = Some p \<longrightarrow> length p = length ct) \<and>
     (\<forall>sk pk. x25519_public C sk = Some pk \<longrightarrow> length pk = 32) \<and>
     (\<forall>a b pa pb s. x25519_public C a = Some pa \<longrightarrow> x25519_public C b = Some pb \<longrightarrow>
        x25519 C a pb = Some s \<longrightarrow> x25519 C b pa = Some s)"

lemma crypto_okD:
  assumes "crypto_ok C"
  shows "length (blake2b C n k m) = n"
    "aead_lock C k nn ad p = Some (mac, ct) \<Longrightarrow>
       length mac = 16 \<and> length ct = length p \<and> aead_unlock C k nn ad mac ct = Some p"
    "\<exists>mac ct. aead_lock C k nn ad p = Some (mac, ct)"
    "aead_unlock C k nn ad mac ct = Some p \<Longrightarrow> length p = length ct"
    "x25519_public C sk = Some pk \<Longrightarrow> length pk = 32"
    "x25519_public C a = Some pa \<Longrightarrow> x25519_public C b = Some pb \<Longrightarrow>
       x25519 C a pb = Some s \<Longrightarrow> x25519 C b pa = Some s"
proof -
  from assms have h: "\<forall>n k m. length (blake2b C n k m) = n"
    and l: "\<forall>k n ad p mac ct. aead_lock C k n ad p = Some (mac, ct) \<longrightarrow>
        length mac = 16 \<and> length ct = length p \<and> aead_unlock C k n ad mac ct = Some p"
    and t: "\<forall>k n ad p. aead_lock C k n ad p \<noteq> None"
    and u: "\<forall>k n ad mac ct p. aead_unlock C k n ad mac ct = Some p \<longrightarrow> length p = length ct"
    and x: "\<forall>sk pk. x25519_public C sk = Some pk \<longrightarrow> length pk = 32"
    and y: "\<forall>a b pa pb s. x25519_public C a = Some pa \<longrightarrow> x25519_public C b = Some pb \<longrightarrow>
        x25519 C a pb = Some s \<longrightarrow> x25519 C b pa = Some s"
    unfolding crypto_ok_def by - (elim conjE, assumption)+
  show "length (blake2b C n k m) = n" using h by blast
  show "aead_lock C k nn ad p = Some (mac, ct) \<Longrightarrow>
       length mac = 16 \<and> length ct = length p \<and> aead_unlock C k nn ad mac ct = Some p"
    using l by blast
  show "\<exists>mac ct. aead_lock C k nn ad p = Some (mac, ct)" using t by fast
  show "aead_unlock C k nn ad mac ct = Some p \<Longrightarrow> length p = length ct" using u by blast
  show "x25519_public C sk = Some pk \<Longrightarrow> length pk = 32" using x by blast
  show "x25519_public C a = Some pa \<Longrightarrow> x25519_public C b = Some pb \<Longrightarrow>
       x25519 C a pb = Some s \<Longrightarrow> x25519 C b pa = Some s" using y by blast
qed

definition ascii :: "string \<Rightarrow> byte list" where
  "ascii s = map of_char s"

definition KEYS_HALF_LEN :: nat where "KEYS_HALF_LEN = 32"
definition SEAL_OVERHEAD :: nat where "SEAL_OVERHEAD = 24 + 16"
definition BOX_OVERHEAD :: nat where "BOX_OVERHEAD = 32 + 16"

section \<open>Sealed messages\<close>

definition msg_seal_ad ::
    "crypto \<Rightarrow> byte list option \<Rightarrow> nat \<Rightarrow> byte list \<Rightarrow> byte list \<Rightarrow> byte list \<Rightarrow> byte list option" where
  "msg_seal_ad C rnd dst_len key ad plain =
     (if dst_len < length plain + SEAL_OVERHEAD then None
      else case rnd of
             None \<Rightarrow> None
           | Some nonce \<Rightarrow>
               (case aead_lock C key nonce ad plain of
                  None \<Rightarrow> None
                | Some (mac, ct) \<Rightarrow> Some (nonce @ mac @ ct)))"

definition msg_seal ::
    "crypto \<Rightarrow> byte list option \<Rightarrow> nat \<Rightarrow> byte list \<Rightarrow> byte list \<Rightarrow> byte list option" where
  "msg_seal C rnd dst_len key plain = msg_seal_ad C rnd dst_len key [] plain"

definition msg_open_ad ::
    "crypto \<Rightarrow> nat \<Rightarrow> byte list \<Rightarrow> byte list \<Rightarrow> byte list \<Rightarrow> byte list option" where
  "msg_open_ad C dst_len key ad sealed =
     (if length sealed < SEAL_OVERHEAD then None
      else if dst_len < length sealed - SEAL_OVERHEAD then None
      else aead_unlock C key (take 24 sealed) ad (take 16 (drop 24 sealed)) (drop 40 sealed))"

definition msg_open :: "crypto \<Rightarrow> nat \<Rightarrow> byte list \<Rightarrow> byte list \<Rightarrow> byte list option" where
  "msg_open C dst_len key sealed = msg_open_ad C dst_len key [] sealed"

section \<open>Boxes sealed to a recipient\<close>

definition box_key :: "crypto \<Rightarrow> byte list \<Rightarrow> byte list \<Rightarrow> byte list \<Rightarrow> byte list" where
  "box_key C shared epk pk = blake2b C 32 shared (ascii ''comrade1 claim box'' @ epk @ pk)"

definition box_seal ::
    "crypto \<Rightarrow> byte list option \<Rightarrow> nat \<Rightarrow> byte list \<Rightarrow> byte list \<Rightarrow> byte list option" where
  "box_seal C rnd dst_len pk plain =
     (if dst_len < length plain + BOX_OVERHEAD then None
      else case rnd of
             None \<Rightarrow> None
           | Some esk \<Rightarrow>
               (case x25519_public C esk of
                  None \<Rightarrow> None
                | Some epk \<Rightarrow>
                    (case x25519 C esk pk of
                       None \<Rightarrow> None
                     | Some shared \<Rightarrow>
                         (case aead_lock C (box_key C shared epk pk) (replicate 24 0) epk plain of
                            None \<Rightarrow> None
                          | Some (mac, ct) \<Rightarrow> Some (epk @ mac @ ct)))))"

definition box_open :: "crypto \<Rightarrow> nat \<Rightarrow> byte list \<Rightarrow> byte list \<Rightarrow> byte list option" where
  "box_open C dst_len sk sealed =
     (if length sealed < BOX_OVERHEAD then None
      else if dst_len < length sealed - BOX_OVERHEAD then None
      else case x25519_public C sk of
             None \<Rightarrow> None
           | Some pk \<Rightarrow>
               (case x25519 C sk (take 32 sealed) of
                  None \<Rightarrow> None
                | Some shared \<Rightarrow>
                    aead_unlock C (box_key C shared (take 32 sealed) pk) (replicate 24 0)
                      (take 32 sealed) (take 16 (drop 32 sealed)) (drop 48 sealed)))"

section \<open>The session's keys\<close>

record session_keys =
  sk_sig_key :: "byte list"
  sk_bep44_pk :: "byte list"
  sk_bep44_sk :: "byte list"
  sk_probe_magic :: u32
  sk_conv :: u32
  sk_mcast_port :: u16

definition wg_msg_type :: "u32 \<Rightarrow> bool" where
  "wg_msg_type first_four_le \<longleftrightarrow> 1 \<le> first_four_le \<and> first_four_le \<le> 4"

definition bswap32 :: "u32 \<Rightarrow> u32" where
  "bswap32 v = (drop_bit 24 v OR (drop_bit 8 v AND 0xff00) OR (push_bit 8 v AND 0xff0000) OR
                push_bit 24 v)"

text \<open>Four digest bytes read as one tag, the inner loop of \<open>keys_derive\<close>.\<close>

definition tag_of_bytes :: "byte list \<Rightarrow> u32" where
  "tag_of_bytes bs = foldl (\<lambda>v b. push_bit 8 v OR ucast b) 0 bs"

text \<open>The draw of the two wire tags: attempt \<open>n\<close> of the loop, with the forced pair at 8.\<close>

function wire_tags :: "crypto \<Rightarrow> byte list \<Rightarrow> nat \<Rightarrow> u32 \<times> u32" where
  "wire_tags C rdv n =
     (let wbuf = ascii ''comrade1 wire tags'' @ (if n \<noteq> 0 then [of_nat n] else []);
          tags = blake2b C 32 rdv wbuf;
          probe_magic = tag_of_bytes (take 4 tags);
          conv = tag_of_bytes (take 4 (drop 4 tags))
      in if probe_magic \<noteq> conv \<and> \<not> wg_msg_type (bswap32 probe_magic) \<and> \<not> wg_msg_type conv
         then (probe_magic, conv)
         else if n \<ge> 8 then ((probe_magic AND 0x7fffffff) OR 0x80, conv OR 0x80000000)
         else wire_tags C rdv (n + 1))"
  by pat_completeness auto
termination
  by (relation "measure (\<lambda>(_, _, n). 8 - n)") auto

text \<open>The loop starts at 0 and ends at 8 at the latest, so the test \<open>n == 8\<close> of the source and
  \<open>8 \<le> n\<close> are the same on every value it takes.\<close>

declare wire_tags.simps [simp del]

definition keys_derive :: "crypto \<Rightarrow> byte list \<Rightarrow> session_keys option" where
  "keys_derive C rdv =
     (let sig_key = blake2b C 32 rdv (ascii ''comrade1 sig key'');
          seed = blake2b C 32 rdv (ascii ''comrade1 bep44 seed'');
          pb = blake2b C 32 rdv (ascii ''comrade1 mcast port'');
          mcast_port = (32768 + ((push_bit 8 (ucast (pb ! 0)) OR ucast (pb ! 1)) AND 0x3fff) :: u16);
          (probe_magic, conv) = wire_tags C rdv 0
      in case ed25519_key_pair C seed of
           None \<Rightarrow> None
         | Some (sk, pk) \<Rightarrow>
             Some \<lparr>sk_sig_key = sig_key, sk_bep44_pk = pk, sk_bep44_sk = sk,
                   sk_probe_magic = probe_magic, sk_conv = conv, sk_mcast_port = mcast_port\<rparr>)"

definition keys_conn_key :: "crypto \<Rightarrow> byte list \<Rightarrow> byte list \<Rightarrow> byte list \<Rightarrow> byte list" where
  "keys_conn_key C sig_key a b =
     (let (lo, hi) = (if memcmp a b \<le> 0 then (a, b) else (b, a))
      in blake2b C 32 sig_key (ascii ''comrade1 conn key'' @ lo @ hi))"

definition hex_digit :: "byte \<Rightarrow> char" where
  "hex_digit b = ''0123456789abcdef'' ! unat b"

definition keys_slot_salt :: "crypto \<Rightarrow> byte list \<Rightarrow> string" where
  "keys_slot_salt C rdv =
     (let raw = blake2b C 32 rdv (ascii ''comrade1 cell'')
      in CHR ''r'' # concat (map (\<lambda>b. [hex_digit (drop_bit 4 b), hex_digit (b AND 15)]) (take 8 raw)))"

definition keys_slot_key :: "crypto \<Rightarrow> byte list \<Rightarrow> byte list" where
  "keys_slot_key C auth = blake2b C 32 auth (ascii ''comrade1 cell class key'')"

definition keys_derive_ro_auth :: "crypto \<Rightarrow> byte list \<Rightarrow> byte list" where
  "keys_derive_ro_auth C rw = take 16 (blake2b C 32 rw (ascii ''comrade1 ro token''))"

section \<open>Round trips\<close>

lemma msg_seal_ad_length:
  "crypto_ok C \<Longrightarrow> length nonce = 24 \<Longrightarrow> msg_seal_ad C (Some nonce) n key ad plain = Some out \<Longrightarrow>
   length out = length plain + SEAL_OVERHEAD"
  by (auto simp: msg_seal_ad_def SEAL_OVERHEAD_def dest!: crypto_okD(2)
      split: if_splits option.splits)

lemma msg_open_seal_ad:
  assumes ok: "crypto_ok C" and n: "length nonce = 24"
    and seal: "msg_seal_ad C (Some nonce) dst_len key ad plain = Some out"
    and room: "length plain \<le> open_len"
  shows "msg_open_ad C open_len key ad out = Some plain"
proof -
  obtain mac ct where l: "aead_lock C key nonce ad plain = Some (mac, ct)" and out: "out = nonce @ mac @ ct"
    using seal by (auto simp: msg_seal_ad_def split: if_splits option.splits)
  from crypto_okD(2) [OF ok l] n room show ?thesis
    by (simp add: out msg_open_ad_def SEAL_OVERHEAD_def)
qed

lemma msg_seal_ad_total:
  assumes "crypto_ok C" "length plain + SEAL_OVERHEAD \<le> dst_len"
  shows "\<exists>out. msg_seal_ad C (Some nonce) dst_len key ad plain = Some out"
  using crypto_okD(3) [OF assms(1), of key nonce ad plain] assms(2)
  by (auto simp: msg_seal_ad_def)

lemma keys_conn_key_commute:
  "length a = length b \<Longrightarrow> keys_conn_key C k a b = keys_conn_key C k b a"
  using memcmp_swap [of a b] memcmp_eq_0 [of a b]
  by (auto simp: keys_conn_key_def)

section \<open>The wire tags\<close>

lemma bswap32_bit: "bit v 7 \<Longrightarrow> bit (bswap32 v) 31"
  by (simp add: bswap32_def bit_simps)

lemma not_wg_of_bit: "bit v k \<Longrightarrow> 3 \<le> k \<Longrightarrow> \<not> wg_msg_type v" for v :: u32
proof
  assume b: "bit v k" and k: "3 \<le> k" and "wg_msg_type v"
  then have "v \<le> 4" by (simp add: wg_msg_type_def)
  then have "unat v < 2 ^ 3" by (simp add: word_le_nat_alt)
  then have "take_bit 3 (unat v) = unat v" by (simp add: take_bit_nat_eq_self_iff)
  moreover have "bit (unat v) k" using b by (simp add: bit_unsigned_iff)
  ultimately show False using k by (metis bit_take_bit_iff not_less)
qed

lemma forced_tags:
  fixes m c :: u32
  shows "bit ((m AND 0x7fffffff) OR 0x80) 7" "\<not> bit ((m AND 0x7fffffff) OR 0x80) 31"
    "bit (c OR 0x80000000) 31"
  by (simp_all add: bit_simps)

lemma wire_tags_apart:
  "wire_tags C rdv n = (m, c) \<Longrightarrow> m \<noteq> c \<and> \<not> wg_msg_type (bswap32 m) \<and> \<not> wg_msg_type c"
proof (induction C rdv n rule: wire_tags.induct)
  case (1 C rdv n)
  define tags where "tags = blake2b C 32 rdv
      (ascii ''comrade1 wire tags'' @ (if n \<noteq> 0 then [of_nat n] else []))"
  define p where "p = tag_of_bytes (take 4 tags)"
  define q where "q = tag_of_bytes (take 4 (drop 4 tags))"
  have eq: "wire_tags C rdv n =
      (if p \<noteq> q \<and> \<not> wg_msg_type (bswap32 p) \<and> \<not> wg_msg_type q then (p, q)
       else if n \<ge> 8 then ((p AND 0x7fffffff) OR 0x80, q OR 0x80000000)
       else wire_tags C rdv (n + 1))"
    by (subst wire_tags.simps) (simp add: Let_def tags_def p_def q_def)
  consider (drawn) "p \<noteq> q \<and> \<not> wg_msg_type (bswap32 p) \<and> \<not> wg_msg_type q"
    | (forced) "\<not> (p \<noteq> q \<and> \<not> wg_msg_type (bswap32 p) \<and> \<not> wg_msg_type q)" "n \<ge> 8"
    | (again) "\<not> (p \<noteq> q \<and> \<not> wg_msg_type (bswap32 p) \<and> \<not> wg_msg_type q)" "\<not> n \<ge> 8"
    by blast
  then show ?case
  proof cases
    case drawn
    then show ?thesis using "1.prems" eq by simp
  next
    case forced
    then have mc: "m = (p AND 0x7fffffff) OR 0x80" "c = q OR 0x80000000" using "1.prems" eq by auto
    then have "bit m 7" "\<not> bit m 31" "bit c 31" using forced_tags by simp_all
    then show ?thesis
      using not_wg_of_bit [OF bswap32_bit] not_wg_of_bit [of c 31] by auto
  next
    case again
    then show ?thesis
      using "1.IH" [OF refl refl refl refl, folded tags_def, folded p_def q_def] "1.prems" eq
      by auto
  qed
qed

section \<open>Properties\<close>

text \<open>Whatever the token's secret and whatever the hash returns, the tags that open a
  session's datagrams can be told apart: the probe tag differs from the stream's conversation id,
  neither is a WireGuard message type in the order in which it reaches the wire, and the derived
  multicast port lies in 32768..49151.\<close>

theorem keys_derive_tags:
  assumes "keys_derive C rdv = Some k"
  shows "sk_probe_magic k \<noteq> sk_conv k \<and> \<not> wg_msg_type (bswap32 (sk_probe_magic k)) \<and>
         \<not> wg_msg_type (sk_conv k) \<and> 32768 \<le> unat (sk_mcast_port k) \<and> unat (sk_mcast_port k) \<le> 49151"
proof -
  obtain m c where t: "wire_tags C rdv 0 = (m, c)" by fastforce
  define x where "x = (push_bit 8 (ucast (blake2b C 32 rdv (ascii ''comrade1 mcast port'') ! 0)) OR
      ucast (blake2b C 32 rdv (ascii ''comrade1 mcast port'') ! 1) :: u16)"
  have k: "sk_probe_magic k = m" "sk_conv k = c" "sk_mcast_port k = 32768 + (x AND 0x3fff)"
    using assms t by (auto simp: keys_derive_def Let_def x_def split: option.splits)
  have "x AND 0x3fff \<le> 0x3fff" by (rule word_and_le1)
  then have "unat (x AND 0x3fff) \<le> 16383" by (simp add: word_le_nat_alt)
  moreover from this have "unat (32768 + (x AND 0x3fff)) = 32768 + unat (x AND 0x3fff)"
    by (simp add: unat_word_ariths)
  ultimately show ?thesis using wire_tags_apart [OF t] k by simp
qed

text \<open>A transparent instance of the primitives, for the witnesses: the digest repeats key and
  message, the seal carries the plaintext behind a fixed tag.\<close>

definition plain_crypto :: crypto where
  "plain_crypto =
     \<lparr>blake2b = (\<lambda>n k m. take n (k @ m @ replicate n 0)),
      aead_lock = (\<lambda>k n ad p. Some (take 16 (k @ replicate 16 0), p)),
      aead_unlock = (\<lambda>k n ad mac ct. if mac = take 16 (k @ replicate 16 0) then Some ct else None),
      x25519_public = (\<lambda>sk. Some (take 32 (sk @ replicate 32 0))),
      x25519 = (\<lambda>sk pk. Some (replicate 32 7)),
      ed25519_key_pair = (\<lambda>seed. Some (seed @ seed, seed))\<rparr>"

lemma plain_crypto_ok: "crypto_ok plain_crypto"
  by (auto simp: crypto_ok_def plain_crypto_def)

theorem keys_derive_tags_witness:
  "\<exists>k. keys_derive plain_crypto (replicate 16 3) = Some k \<and> sk_probe_magic k \<noteq> sk_conv k"
proof -
  obtain k where "keys_derive plain_crypto (replicate 16 3) = Some k"
    by (auto simp: keys_derive_def Let_def plain_crypto_def split_beta)
  with keys_derive_tags [OF this] show ?thesis by blast
qed

text \<open>A box sealed to a recipient's public key opens with the matching secret key to the
  plaintext it was made from, for any plaintext that fits the buffers: the sender's agreement with
  the recipient and the recipient's with the ephemeral key give the same box key.\<close>

theorem box_roundtrip:
  assumes ok: "crypto_ok C" and pk: "x25519_public C sk = Some pk"
    and seal: "box_seal C (Some esk) dst_len pk plain = Some sealed"
    and room: "length plain \<le> open_len"
  shows "box_open C open_len sk sealed = Some plain \<and>
         length sealed = length plain + BOX_OVERHEAD \<and> length sealed \<le> dst_len"
proof -
  obtain epk shared mac ct where
    e: "x25519_public C esk = Some epk" "x25519 C esk pk = Some shared"
    and l: "aead_lock C (box_key C shared epk pk) (replicate 24 0) epk plain = Some (mac, ct)"
    and out: "sealed = epk @ mac @ ct" and fits: "length plain + BOX_OVERHEAD \<le> dst_len"
    using seal by (auto simp: box_seal_def split: if_splits option.splits)
  have "x25519 C sk epk = Some shared" using crypto_okD(6) [OF ok e(1) pk e(2)] .
  then show ?thesis
    using crypto_okD(2) [OF ok l] crypto_okD(5) [OF ok e(1)] pk room fits
    by (simp add: out box_open_def BOX_OVERHEAD_def)
qed

theorem box_roundtrip_witness:
  "\<exists>sealed. box_seal plain_crypto (Some (replicate 32 1)) 100 (replicate 32 2) [5, 6] = Some sealed \<and>
     box_open plain_crypto 64 (replicate 32 2) sealed = Some [5, 6]"
proof -
  have pk: "x25519_public plain_crypto (replicate 32 2) = Some (replicate 32 2)"
    by (simp add: plain_crypto_def)
  obtain sealed where "box_seal plain_crypto (Some (replicate 32 1)) 100 (replicate 32 2) [5, 6] = Some sealed"
    by (auto simp: box_seal_def plain_crypto_def BOX_OVERHEAD_def)
  with box_roundtrip [OF plain_crypto_ok pk this, of 64] show ?thesis by auto
qed

end
