(* ===== verification/Path_Ep.thy ===== *)
theory Path_Ep
  imports Keys
begin

text \<open>
  The first part of path.c and path.h: endpoints and their packed form, the probe frame with its
  sealed plaintext, and the path id both ends compute from an unordered pair of endpoints.

  A socket address is modelled by the family and the fields the code reads; a port field holds
  the port number, which is what \<open>ntohs\<close> of the field gives. \<open>inet_ntop\<close> is a system call: it is
  the argument \<open>ntop\<close> of the functions that print an endpoint.
\<close>

definition PATH_ID_LEN :: nat where "PATH_ID_LEN = 8"
definition PATH_EP_LEN :: nat where "PATH_EP_LEN = 18"
definition PATH_LABEL_MAX :: nat where "PATH_LABEL_MAX = 80"

record path_ep =
  pe_addr :: "byte list"
  pe_port :: u16

definition ep_zero :: path_ep where
  "ep_zero = \<lparr>pe_addr = replicate 16 0, pe_port = 0\<rparr>"

definition wf_ep :: "path_ep \<Rightarrow> bool" where
  "wf_ep ep \<longleftrightarrow> length (pe_addr ep) = 16"

definition v4_prefix :: "byte list" where
  "v4_prefix = [0, 0, 0, 0, 0, 0, 0, 0, 0, 0, 0xff, 0xff]"

definition path_ep_is_v4 :: "path_ep \<Rightarrow> bool" where
  "path_ep_is_v4 ep \<longleftrightarrow> take 12 (pe_addr ep) = v4_prefix"

definition path_ep_is_unicast :: "path_ep \<Rightarrow> bool" where
  "path_ep_is_unicast ep =
     (if path_ep_is_v4 ep then
        (let a = drop 12 (pe_addr ep)
         in if 224 \<le> a ! 0 then False
            else if a ! 0 = 255 \<and> a ! 1 = 255 \<and> a ! 2 = 255 \<and> a ! 3 = 255 then False
            else if a ! 0 = 0 then False
            else True)
      else if pe_addr ep ! 0 = 0xff then False
      else pe_addr ep \<noteq> replicate 16 0)"

definition path_ep_any :: "path_ep \<Rightarrow> bool" where
  "path_ep_any ep \<longleftrightarrow> pe_port ep = 0 \<and> pe_addr ep = replicate 16 0"

definition path_ep_eq :: "path_ep \<Rightarrow> path_ep \<Rightarrow> bool" where
  "path_ep_eq a b \<longleftrightarrow> pe_port a = pe_port b \<and> pe_addr a = pe_addr b"

definition path_ep_same_addr :: "path_ep \<Rightarrow> path_ep \<Rightarrow> bool" where
  "path_ep_same_addr a b \<longleftrightarrow> pe_addr a = pe_addr b"

record sockaddr_in6 =
  sin6_addr :: "byte list"
  sin6_port :: u16
  sin6_scope_id :: u32

datatype sockaddr = AF_INET6 sockaddr_in6 | AF_INET "byte list" u16 | AF_OTHER

definition path_ep_from_sockaddr :: "sockaddr \<Rightarrow> nat \<Rightarrow> path_ep option" where
  "path_ep_from_sockaddr sa len =
     (case sa of
        AF_INET6 s6 \<Rightarrow>
          if len < 28 then None else Some \<lparr>pe_addr = sin6_addr s6, pe_port = sin6_port s6\<rparr>
      | AF_INET addr port \<Rightarrow>
          if len < 16 then None else Some \<lparr>pe_addr = v4_prefix @ addr, pe_port = port\<rparr>
      | AF_OTHER \<Rightarrow> None)"

definition path_ep_to_sockaddr :: "path_ep \<Rightarrow> sockaddr_in6" where
  "path_ep_to_sockaddr ep =
     \<lparr>sin6_addr = pe_addr ep, sin6_port = pe_port ep, sin6_scope_id = 0\<rparr>"

definition path_ep_pack :: "path_ep \<Rightarrow> byte list" where
  "path_ep_pack ep = pe_addr ep @ [ucast (drop_bit 8 (pe_port ep)), ucast (pe_port ep)]"

definition path_ep_unpack :: "byte list \<Rightarrow> path_ep" where
  "path_ep_unpack p =
     \<lparr>pe_addr = take 16 p, pe_port = (push_bit 8 (ucast (p ! 16)) OR ucast (p ! 17))\<rparr>"

text \<open>\<open>ntop True\<close> stands for \<open>inet_ntop(AF_INET, ...)\<close>, \<open>ntop False\<close> for \<open>AF_INET6\<close>.\<close>

definition path_ep_str :: "(bool \<Rightarrow> byte list \<Rightarrow> string option) \<Rightarrow> path_ep \<Rightarrow> nat \<Rightarrow> string" where
  "path_ep_str ntop ep n =
     (if path_ep_is_v4 ep then
        (case ntop True (drop 12 (pe_addr ep)) of
           None \<Rightarrow> ''''
         | Some host \<Rightarrow> take (n - 1) (host @ '':'' @ show_nat (unat (pe_port ep))))
      else
        (case ntop False (pe_addr ep) of
           None \<Rightarrow> ''''
         | Some host \<Rightarrow> take (n - 1) (''['' @ host @ '']:'' @ show_nat (unat (pe_port ep)))))"

text \<open>\<open>path_put16\<close> clamps, then writes two bytes.\<close>

definition path_put16 :: "int \<Rightarrow> byte list" where
  "path_put16 v =
     (let v = (if v < 0 then 0 else v);
          v = (if v > 0xffff then 0xffff else v)
      in put16 (word_of_int v))"

section \<open>The probe frame\<close>

definition PROBE_PING :: int where "PROBE_PING = 1"
definition PROBE_PONG :: int where "PROBE_PONG = 2"
definition PROBE_FRESH :: int where "PROBE_FRESH = 3"
definition PROBE_UFRAG_MAX :: nat where "PROBE_UFRAG_MAX = 40"
definition PROBE_TAIL_LEN :: nat where "PROBE_TAIL_LEN = 24"
definition PROBE_HEAD_FIXED :: nat where "PROBE_HEAD_FIXED = 18"
definition PROBE_PLAIN_MAX :: nat where
  "PROBE_PLAIN_MAX = PROBE_HEAD_FIXED + PROBE_UFRAG_MAX + PROBE_TAIL_LEN"
definition PROBE_MAX :: nat where "PROBE_MAX = 4 + PROBE_PLAIN_MAX + SEAL_OVERHEAD"

lemmas probe_lens = PROBE_UFRAG_MAX_def PROBE_TAIL_LEN_def PROBE_HEAD_FIXED_def
  PROBE_PLAIN_MAX_def PROBE_MAX_def SEAL_OVERHEAD_def

record path_probe =
  pr_type :: int
  pr_nonce :: u64
  pr_seq :: u64
  pr_ufrag :: "byte list"
  pr_have_tail :: bool
  pr_echo :: path_ep
  pr_srtt_ms :: int
  pr_loss_ppt :: int
  pr_base_srtt_ms :: int

definition path_probe_is :: "u32 \<Rightarrow> byte list \<Rightarrow> bool" where
  "path_probe_is magic data \<longleftrightarrow> 4 \<le> length data \<and> get32 data = magic"

text \<open>The plaintext of a probe.\<close>

definition probe_plain :: "path_probe \<Rightarrow> byte list" where
  "probe_plain pr =
     [word_of_int (pr_type pr)] @ put_u64 (pr_nonce pr) @ put_u64 (pr_seq pr) @
     [of_nat (length (pr_ufrag pr))] @ pr_ufrag pr @
     (if pr_have_tail pr
      then path_ep_pack (pr_echo pr) @ path_put16 (pr_srtt_ms pr) @ path_put16 (pr_loss_ppt pr) @
           path_put16 (pr_base_srtt_ms pr)
      else [])"

definition path_probe_build ::
    "crypto \<Rightarrow> byte list option \<Rightarrow> nat \<Rightarrow> u32 \<Rightarrow> byte list \<Rightarrow> path_probe \<Rightarrow> byte list option" where
  "path_probe_build C rnd out_len magic sig_key pr =
     (if PROBE_UFRAG_MAX < length (pr_ufrag pr) \<or> out_len < PROBE_MAX then None
      else case msg_seal C rnd (out_len - 4) sig_key (probe_plain pr) of
             None \<Rightarrow> None
           | Some sealed \<Rightarrow> Some (put32 magic @ sealed))"

definition path_probe_parse ::
    "crypto \<Rightarrow> u32 \<Rightarrow> byte list \<Rightarrow> byte list \<Rightarrow> path_probe option" where
  "path_probe_parse C magic sig_key data =
     (if \<not> path_probe_is magic data then None
      else case msg_open C (PROBE_PLAIN_MAX + 1) sig_key (drop 4 data) of
             None \<Rightarrow> None
           | Some plain \<Rightarrow>
               (let n = length plain
                in if n < PROBE_HEAD_FIXED then None
                   else
                     (let ul = unat (plain ! 17)
                      in if PROBE_UFRAG_MAX < ul \<or> n < PROBE_HEAD_FIXED + ul then None
                         else
                           (let pr = \<lparr>pr_type = uint (plain ! 0),
                                  pr_nonce = get_u64 (drop 1 plain),
                                  pr_seq = get_u64 (drop 9 plain),
                                  pr_ufrag = take ul (drop PROBE_HEAD_FIXED plain),
                                  pr_have_tail = False, pr_echo = ep_zero, pr_srtt_ms = 0,
                                  pr_loss_ppt = 0, pr_base_srtt_ms = 0\<rparr>
                            in if PROBE_HEAD_FIXED + ul + PROBE_TAIL_LEN \<le> n
                               then
                                 (let t = drop (PROBE_HEAD_FIXED + ul) plain
                                  in Some (pr\<lparr>pr_echo := path_ep_unpack t,
                                       pr_srtt_ms := uint (get16 (drop 18 t)),
                                       pr_loss_ppt := uint (get16 (drop 20 t)),
                                       pr_base_srtt_ms := uint (get16 (drop 22 t)),
                                       pr_have_tail := True\<rparr>))
                               else Some pr))))"

section \<open>The path id\<close>

definition path_id_calc :: "crypto \<Rightarrow> byte list \<Rightarrow> path_ep \<Rightarrow> path_ep \<Rightarrow> byte list" where
  "path_id_calc C sig_key a b =
     (let ea = path_ep_pack a; eb = path_ep_pack b;
          msg = (if memcmp ea eb \<le> 0 then ea @ eb else eb @ ea)
      in take PATH_ID_LEN (blake2b C 32 sig_key msg))"

section \<open>Facts\<close>

lemma path_ep_eq_iff [simp]: "path_ep_eq a b \<longleftrightarrow> a = b"
  by (auto simp: path_ep_eq_def)

lemma path_ep_any_iff [simp]: "path_ep_any ep \<longleftrightarrow> ep = ep_zero"
  by (auto simp: path_ep_any_def ep_zero_def)

lemma path_ep_pack_put16: "path_ep_pack ep = pe_addr ep @ put16 (pe_port ep)"
  by (simp add: path_ep_pack_def put16_def)

lemma length_path_ep_pack [simp]: "wf_ep ep \<Longrightarrow> length (path_ep_pack ep) = PATH_EP_LEN"
  by (simp add: path_ep_pack_def wf_ep_def PATH_EP_LEN_def)

lemma path_ep_unpack_get16: "18 \<le> length p \<Longrightarrow> pe_port (path_ep_unpack p) = get16 (drop 16 p)"
  by (simp add: path_ep_unpack_def get16_def)

lemma path_ep_unpack_pack [codec_simps]:
  assumes "wf_ep ep"
  shows "path_ep_unpack (path_ep_pack ep @ r) = ep"
proof -
  have "pe_port (path_ep_unpack (path_ep_pack ep @ r)) = pe_port ep"
    using assms by (subst path_ep_unpack_get16) (simp_all add: path_ep_pack_put16 wf_ep_def)
  moreover have "pe_addr (path_ep_unpack (path_ep_pack ep @ r)) = pe_addr ep"
    using assms by (simp add: path_ep_unpack_def path_ep_pack_def wf_ep_def)
  ultimately show ?thesis by simp
qed

lemma path_put16_in_range:
  "0 \<le> v \<Longrightarrow> v \<le> 65535 \<Longrightarrow> path_put16 v = put16 (word_of_int v)"
  by (simp add: path_put16_def)

lemma length_path_put16 [simp]: "length (path_put16 v) = 2"
  by (simp add: path_put16_def Let_def)

lemma path_id_calc_commute:
  assumes "wf_ep a" "wf_ep b"
  shows "path_id_calc C key a b = path_id_calc C key b a"
  using memcmp_swap [of "path_ep_pack a" "path_ep_pack b"] assms
    memcmp_eq_0 [of "path_ep_pack a" "path_ep_pack b"]
  by (auto simp: path_id_calc_def Let_def)

text \<open>What the fields of a probe hold when it goes out: a byte, a string without NUL, and the tail
  in the range of its two-byte fields, or no tail.\<close>

definition wf_probe :: "path_probe \<Rightarrow> bool" where
  "wf_probe pr \<longleftrightarrow>
     0 \<le> pr_type pr \<and> pr_type pr < 256 \<and> length (pr_ufrag pr) \<le> PROBE_UFRAG_MAX \<and>
     0 \<notin> set (pr_ufrag pr) \<and> wf_ep (pr_echo pr) \<and>
     (if pr_have_tail pr
      then pr_srtt_ms pr \<in> {0..65535} \<and> pr_loss_ppt pr \<in> {0..65535} \<and> pr_base_srtt_ms pr \<in> {0..65535}
      else pr_echo pr = ep_zero \<and> pr_srtt_ms pr = 0 \<and> pr_loss_ppt pr = 0 \<and> pr_base_srtt_ms pr = 0)"

lemma length_probe_plain:
  "wf_probe pr \<Longrightarrow> length (probe_plain pr) =
     PROBE_HEAD_FIXED + length (pr_ufrag pr) + (if pr_have_tail pr then PROBE_TAIL_LEN else 0)"
  by (simp add: probe_plain_def wf_probe_def probe_lens PATH_EP_LEN_def)

lemma length_probe_plain_le: "wf_probe pr \<Longrightarrow> length (probe_plain pr) \<le> PROBE_PLAIN_MAX"
  by (simp add: length_probe_plain) (simp add: wf_probe_def probe_lens)

text \<open>The parser's reading of a plaintext, by its parts.\<close>

lemma probe_plain_parts:
  assumes wf: "wf_probe pr"
  shows "probe_plain pr ! 17 = of_nat (length (pr_ufrag pr))"
    "uint (probe_plain pr ! 0) = pr_type pr"
    "get_u64 (drop 1 (probe_plain pr)) = pr_nonce pr" "get_u64 (drop 9 (probe_plain pr)) = pr_seq pr"
    "take (length (pr_ufrag pr)) (drop 18 (probe_plain pr)) = pr_ufrag pr"
    "drop (18 + length (pr_ufrag pr)) (probe_plain pr) =
       (if pr_have_tail pr
        then path_ep_pack (pr_echo pr) @ path_put16 (pr_srtt_ms pr) @ path_put16 (pr_loss_ppt pr) @
             path_put16 (pr_base_srtt_ms pr) else [])"
    "unat (of_nat (length (pr_ufrag pr)) :: byte) = length (pr_ufrag pr)"
proof -
  have ul: "length (pr_ufrag pr) \<le> 40" and t: "0 \<le> pr_type pr" "pr_type pr < 256"
    using wf by (simp_all add: wf_probe_def probe_lens)
  show "probe_plain pr ! 17 = of_nat (length (pr_ufrag pr))"
    by (simp add: probe_plain_def nth_append)
  show "uint (probe_plain pr ! 0) = pr_type pr"
    using t by (simp add: probe_plain_def uint_word_of_int)
  show "get_u64 (drop 1 (probe_plain pr)) = pr_nonce pr" by (simp add: probe_plain_def)
  show "get_u64 (drop 9 (probe_plain pr)) = pr_seq pr" by (simp add: probe_plain_def drop_Cons')
  show "take (length (pr_ufrag pr)) (drop 18 (probe_plain pr)) = pr_ufrag pr"
    by (simp add: probe_plain_def)
  show "drop (18 + length (pr_ufrag pr)) (probe_plain pr) =
       (if pr_have_tail pr
        then path_ep_pack (pr_echo pr) @ path_put16 (pr_srtt_ms pr) @ path_put16 (pr_loss_ppt pr) @
             path_put16 (pr_base_srtt_ms pr) else [])"
    by (subst add.commute, subst drop_drop [symmetric]) (simp add: probe_plain_def)
  show "unat (of_nat (length (pr_ufrag pr)) :: byte) = length (pr_ufrag pr)"
    using ul by (simp add: unat_of_nat)
qed

lemma get16_path_put16 [codec_simps]:
  assumes "v \<in> {0..65535}"
  shows "uint (get16 (path_put16 v @ r)) = v"
  using assms by (simp add: path_put16_in_range uint_word_of_int)

lemma probe_tail_parts:
  assumes wf: "wf_probe pr" and tail: "pr_have_tail pr"
    and t: "t = path_ep_pack (pr_echo pr) @ path_put16 (pr_srtt_ms pr) @ path_put16 (pr_loss_ppt pr) @
             path_put16 (pr_base_srtt_ms pr)"
  shows "path_ep_unpack t = pr_echo pr" "uint (get16 (drop 18 t)) = pr_srtt_ms pr"
    "uint (get16 (drop 20 t)) = pr_loss_ppt pr" "uint (get16 (drop 22 t)) = pr_base_srtt_ms pr"
proof -
  have r: "pr_srtt_ms pr \<in> {0..65535}" "pr_loss_ppt pr \<in> {0..65535}"
    "pr_base_srtt_ms pr \<in> {0..65535}" "wf_ep (pr_echo pr)"
    using wf tail by (auto simp: wf_probe_def)
  have l: "length (path_ep_pack (pr_echo pr)) = 18" using r by (simp add: PATH_EP_LEN_def)
  show "path_ep_unpack t = pr_echo pr" using r by (simp add: t path_ep_unpack_pack)
  show "uint (get16 (drop 18 t)) = pr_srtt_ms pr" using r l by (simp add: t get16_path_put16)
  show "uint (get16 (drop 20 t)) = pr_loss_ppt pr" using r l by (simp add: t get16_path_put16)
  show "uint (get16 (drop 22 t)) = pr_base_srtt_ms pr"
    using r l get16_path_put16 [of "pr_base_srtt_ms pr" "[]"] by (simp add: t)
qed

lemma path_probe_parse_plain:
  assumes wf: "wf_probe pr" and ours: "path_probe_is magic data"
    and o: "msg_open C (PROBE_PLAIN_MAX + 1) key (drop 4 data) = Some (probe_plain pr)"
  shows "path_probe_parse C magic key data = Some pr"
proof -
  note parts = probe_plain_parts [OF wf]
  have ul: "length (pr_ufrag pr) \<le> 40" using wf by (simp add: wf_probe_def probe_lens)
  show ?thesis
  proof (cases "pr_have_tail pr")
    case True
    note tail = probe_tail_parts [OF wf True refl]
    have "length (probe_plain pr) = 18 + length (pr_ufrag pr) + 24"
      using length_probe_plain [OF wf] True by (simp add: probe_lens)
    then show ?thesis
      using ours o ul parts tail True
      by (simp add: path_probe_parse_def Let_def probe_lens)
  next
    case False
    have "length (probe_plain pr) = 18 + length (pr_ufrag pr)"
      using length_probe_plain [OF wf] False by (simp add: probe_lens)
    moreover have "pr_echo pr = ep_zero \<and> pr_srtt_ms pr = 0 \<and> pr_loss_ppt pr = 0 \<and> pr_base_srtt_ms pr = 0"
      using wf False by (simp add: wf_probe_def)
    ultimately show ?thesis
      using ours o ul parts False
      by (simp add: path_probe_parse_def Let_def probe_lens)
  qed
qed

lemma path_probe_is_build [simp]: "path_probe_is magic (put32 magic @ sealed)"
  by (simp add: path_probe_is_def)

lemma path_probe_parse_build:
  assumes ok: "crypto_ok C" and wf: "wf_probe pr" and n: "length nonce = 24"
    and b: "path_probe_build C (Some nonce) out_len magic key pr = Some frame"
  shows "path_probe_parse C magic key frame = Some pr" "length frame \<le> PROBE_MAX"
proof -
  obtain sealed where s: "msg_seal C (Some nonce) (out_len - 4) key (probe_plain pr) = Some sealed"
    and f: "frame = put32 magic @ sealed"
    using b by (auto simp: path_probe_build_def split: if_splits option.splits)
  have "msg_open C (PROBE_PLAIN_MAX + 1) key sealed = Some (probe_plain pr)"
    using msg_open_seal_ad [OF ok n s [unfolded msg_seal_def]] length_probe_plain_le [OF wf]
    by (simp add: msg_open_def)
  then show "path_probe_parse C magic key frame = Some pr"
    using path_probe_parse_plain [OF wf, of magic frame C key] by (simp add: f)
  show "length frame \<le> PROBE_MAX"
    using msg_seal_ad_length [OF ok n s [unfolded msg_seal_def]] length_probe_plain_le [OF wf]
    by (simp add: f PROBE_MAX_def)
qed

lemma path_probe_build_total:
  assumes "crypto_ok C" "wf_probe pr" "PROBE_MAX \<le> out_len"
  shows "\<exists>frame. path_probe_build C (Some nonce) out_len magic key pr = Some frame"
proof -
  have "length (probe_plain pr) + SEAL_OVERHEAD \<le> out_len - 4"
    using length_probe_plain_le [OF assms(2)] assms(3) by (simp add: PROBE_MAX_def)
  from msg_seal_ad_total [OF assms(1) this, of nonce key "[]"] show ?thesis
    using assms(2,3) by (auto simp: path_probe_build_def wf_probe_def msg_seal_def)
qed

section \<open>Properties\<close>

text \<open>A probe survives the wire: built into a buffer of the documented size it is sealed into
  a frame that the same key parses back to the same probe, tail or no tail, and the frame never
  exceeds \<open>PROBE_MAX\<close>.\<close>

theorem path_probe_roundtrip:
  assumes "crypto_ok C" "wf_probe pr" "length nonce = 24" "PROBE_MAX \<le> out_len"
  shows "\<exists>frame. path_probe_build C (Some nonce) out_len magic key pr = Some frame \<and>
           path_probe_parse C magic key frame = Some pr \<and> length frame \<le> PROBE_MAX"
  using path_probe_build_total [OF assms(1,2,4)] path_probe_parse_build [OF assms(1,2,3)] by blast

definition example_probe :: path_probe where
  "example_probe = \<lparr>pr_type = PROBE_PING, pr_nonce = 77, pr_seq = 5, pr_ufrag = ascii ''abcd'',
     pr_have_tail = True, pr_echo = \<lparr>pe_addr = replicate 16 9, pe_port = 4000\<rparr>, pr_srtt_ms = 31,
     pr_loss_ppt = 62, pr_base_srtt_ms = 20\<rparr>"

lemma wf_example_probe: "wf_probe example_probe"
  by (simp add: wf_probe_def example_probe_def PROBE_PING_def ascii_def probe_lens wf_ep_def)

theorem path_probe_roundtrip_witness:
  "\<exists>frame. path_probe_build plain_crypto (Some (replicate 24 1)) PROBE_MAX 42 (replicate 32 5) example_probe
       = Some frame \<and> path_probe_parse plain_crypto 42 (replicate 32 5) frame = Some example_probe"
  using path_probe_roundtrip [OF plain_crypto_ok wf_example_probe, of "replicate 24 1" PROBE_MAX 42
      "replicate 32 5"] by auto

text \<open>Both ends of a path give it the same id: the id depends on the unordered pair of
  endpoints only, so the end that calls an endpoint its own and the end that calls it the peer's
  compute the same eight bytes.\<close>

theorem path_id_order_free:
  assumes "wf_ep a" "wf_ep b"
  shows "path_id_calc C key a b = path_id_calc C key b a \<and>
         (crypto_ok C \<longrightarrow> length (path_id_calc C key a b) = PATH_ID_LEN)"
  using path_id_calc_commute [OF assms]
  by (auto simp: path_id_calc_def Let_def crypto_okD(1) PATH_ID_LEN_def)

theorem path_id_order_free_witness:
  "path_id_calc plain_crypto (replicate 32 5) (path_ep_unpack (replicate 18 1)) (path_ep_unpack (replicate 18 2)) =
   path_id_calc plain_crypto (replicate 32 5) (path_ep_unpack (replicate 18 2)) (path_ep_unpack (replicate 18 1))"
  using path_id_order_free [of "path_ep_unpack (replicate 18 1)" "path_ep_unpack (replicate 18 2)"]
  by (simp add: wf_ep_def path_ep_unpack_def)

end
