(* ===== verification/Path_Measure.thy ===== *)
theory Path_Measure
  imports Path_Ep
begin

text \<open>
  One path and what is measured about it (path.c): warmth, the probe in flight, the loss register
  and the ring of round trips, the peer's own view, and the cost the ranking uses. A C \<open>int\<close> is an
  \<open>int\<close> here and \<open>/\<close> is \<open>sdiv\<close>, division towards zero; that the smoothed round trip stays within
  32 bits is a theorem. Times are 64-bit words, as in the source.
\<close>

datatype path_kind = PATH_SEGMENT | PATH_ROUTED | PATH_ICE

datatype path_warmth = PATH_WARM | PATH_COLD | PATH_UNQUALIFIED | PATH_DEAD

text \<open>The enumeration's value; the numeric order is the preference order.\<close>

fun warmth_rank :: "path_warmth \<Rightarrow> nat" where
  "warmth_rank PATH_WARM = 0"
| "warmth_rank PATH_COLD = 1"
| "warmth_rank PATH_UNQUALIFIED = 2"
| "warmth_rank PATH_DEAD = 3"

lemma warmth_rank_inj: "warmth_rank a = warmth_rank b \<longleftrightarrow> a = b"
  by (cases a; cases b) simp_all

instantiation path_warmth :: linorder
begin

definition less_eq_path_warmth :: "path_warmth \<Rightarrow> path_warmth \<Rightarrow> bool" where
  "less_eq_path_warmth a b \<longleftrightarrow> warmth_rank a \<le> warmth_rank b"

definition less_path_warmth :: "path_warmth \<Rightarrow> path_warmth \<Rightarrow> bool" where
  "less_path_warmth a b \<longleftrightarrow> warmth_rank a < warmth_rank b"

instance
  by standard (auto simp: less_eq_path_warmth_def less_path_warmth_def warmth_rank_inj)

end

lemma PATH_DEAD_max [simp]: "w \<le> PATH_DEAD" "PATH_DEAD \<le> w \<longleftrightarrow> w = PATH_DEAD"
  by (cases w; simp add: less_eq_path_warmth_def)+

definition PATH_TABLE_MAX :: nat where "PATH_TABLE_MAX = 8"
definition PROBE_EVERY_MS :: u64 where "PROBE_EVERY_MS = 200"
definition PATH_KEEP_MS :: u64 where "PATH_KEEP_MS = 1000"
definition PATH_WARM_MS :: u64 where "PATH_WARM_MS = 3000"
definition PATH_DEAD_MS :: u64 where "PATH_DEAD_MS = 8000"
definition PATH_LOSS_PENALTY_MS :: int where "PATH_LOSS_PENALTY_MS = 200"
definition PATH_PEER_SRTT_MAX :: int where "PATH_PEER_SRTT_MAX = 2000"
definition PATH_PEER_SRTT_RATIO :: int where "PATH_PEER_SRTT_RATIO = 4"
definition PATH_COST_QUANTUM_MS :: int where "PATH_COST_QUANTUM_MS = 5"
definition PATH_LOSS_WAIT_MS :: int where "PATH_LOSS_WAIT_MS = 1000"
definition PATH_LOSS_WINDOW :: nat where "PATH_LOSS_WINDOW = 16"

text \<open>The agent is a borrowed pointer, compared and never followed here: a number.\<close>

record path =
  pa_used :: bool
  pa_usable :: bool
  pa_kind :: path_kind
  pa_remote :: sockaddr_in6
  pa_agent :: "nat option"
  pa_peer_ep :: path_ep
  pa_self_ep :: path_ep
  pa_have_self_ep :: bool
  pa_in_src :: path_ep
  pa_id :: "byte list"
  pa_nonce :: u64
  pa_sent_ms :: u64
  pa_outstanding :: bool
  pa_srtt8 :: int
  pa_peer_srtt_ms :: int
  pa_peer_loss_ppt :: int
  pa_peer_base_srtt_ms :: int
  pa_loss_reg :: u16
  pa_loss_n :: nat
  pa_rtt :: "u16 list"
  pa_rtt_n :: nat
  pa_rtt_i :: nat
  pa_last_pong_ms :: u64
  pa_created_ms :: u64
  pa_trying_since_ms :: u64
  pa_next_probe_ms :: u64
  pa_qualified :: bool
  pa_warmth_noted :: path_warmth
  pa_label :: string

definition sockaddr_zero :: sockaddr_in6 where
  "sockaddr_zero = \<lparr>sin6_addr = replicate 16 0, sin6_port = 0, sin6_scope_id = 0\<rparr>"

text \<open>\<open>memset(p, 0, sizeof *p)\<close>.\<close>

definition path_zero :: path where
  "path_zero =
     \<lparr>pa_used = False, pa_usable = False, pa_kind = PATH_SEGMENT, pa_remote = sockaddr_zero,
      pa_agent = None, pa_peer_ep = ep_zero, pa_self_ep = ep_zero, pa_have_self_ep = False,
      pa_in_src = ep_zero, pa_id = replicate PATH_ID_LEN 0, pa_nonce = 0, pa_sent_ms = 0,
      pa_outstanding = False, pa_srtt8 = 0, pa_peer_srtt_ms = 0, pa_peer_loss_ppt = 0,
      pa_peer_base_srtt_ms = 0, pa_loss_reg = 0, pa_loss_n = 0,
      pa_rtt = replicate PATH_LOSS_WINDOW 0, pa_rtt_n = 0, pa_rtt_i = 0, pa_last_pong_ms = 0,
      pa_created_ms = 0, pa_trying_since_ms = 0, pa_next_probe_ms = 0, pa_qualified = False,
      pa_warmth_noted = PATH_WARM, pa_label = ''''\<rparr>"

section \<open>Endpoints of a path\<close>

definition path_id_refresh :: "crypto \<Rightarrow> path \<Rightarrow> byte list \<Rightarrow> path" where
  "path_id_refresh C p sig_key =
     p\<lparr>pa_id := path_id_calc C sig_key (pa_self_ep p) (pa_peer_ep p)\<rparr>"

definition path_set_self_ep :: "crypto \<Rightarrow> path \<Rightarrow> path_ep \<Rightarrow> byte list \<Rightarrow> path" where
  "path_set_self_ep C p ep sig_key =
     (if path_ep_any ep \<or> pa_have_self_ep p \<and> path_ep_eq (pa_self_ep p) ep then p
      else path_id_refresh C (p\<lparr>pa_self_ep := ep, pa_have_self_ep := True\<rparr>) sig_key)"

definition path_set_peer_ep ::
    "crypto \<Rightarrow> (bool \<Rightarrow> byte list \<Rightarrow> string option) \<Rightarrow> path \<Rightarrow> path_ep \<Rightarrow> byte list \<Rightarrow> path" where
  "path_set_peer_ep C ntop p ep sig_key =
     (if path_ep_any ep \<or> path_ep_eq (pa_peer_ep p) ep then p
      else path_id_refresh C
             (p\<lparr>pa_peer_ep := ep, pa_label := path_ep_str ntop ep PATH_LABEL_MAX\<rparr>) sig_key)"

definition path_saw_inbound :: "path \<Rightarrow> path_ep \<Rightarrow> path" where
  "path_saw_inbound p src = (if \<not> path_ep_any src then p\<lparr>pa_in_src := src\<rparr> else p)"

section \<open>Measurements\<close>

definition path_warmth_of :: "path \<Rightarrow> u64 \<Rightarrow> path_warmth" where
  "path_warmth_of p now =
     (if \<not> pa_qualified p then
        (if pa_trying_since_ms p < now \<and> PATH_DEAD_MS < now - pa_trying_since_ms p then PATH_DEAD
         else PATH_UNQUALIFIED)
      else
        (let silent = (if pa_last_pong_ms p < now then now - pa_last_pong_ms p else 0)
         in if PATH_DEAD_MS < silent then PATH_DEAD
            else if PATH_WARM_MS < silent then PATH_COLD
            else PATH_WARM))"

definition path_srtt_ms :: "path \<Rightarrow> int" where
  "path_srtt_ms p = pa_srtt8 p sdiv 8"

definition path_loss_ppt :: "path \<Rightarrow> int" where
  "path_loss_ppt p =
     (if pa_loss_n p = 0 then 0
      else int (length (filter (\<lambda>i. pa_loss_reg p AND push_bit i 1 \<noteq> 0) [0..<pa_loss_n p])) * 1000
             sdiv int (pa_loss_n p))"

definition loss_record :: "path \<Rightarrow> bool \<Rightarrow> path" where
  "loss_record p lost =
     (let p = p\<lparr>pa_loss_reg := push_bit 1 (pa_loss_reg p) OR (if lost then 1 else 0)\<rparr>
      in if pa_loss_n p < PATH_LOSS_WINDOW then p\<lparr>pa_loss_n := pa_loss_n p + 1\<rparr> else p)"

definition rtt_record :: "path \<Rightarrow> int \<Rightarrow> path" where
  "rtt_record p rtt =
     (let rtt = (if rtt < 0 then 0 else rtt);
          rtt = (if rtt > 0xffff then 0xffff else rtt);
          p = p\<lparr>pa_rtt_i := (if pa_rtt_n p \<noteq> 0 then (pa_rtt_i p + 1) mod PATH_LOSS_WINDOW else 0)\<rparr>;
          p = p\<lparr>pa_rtt := (pa_rtt p)[pa_rtt_i p := word_of_int rtt]\<rparr>
      in if pa_rtt_n p < PATH_LOSS_WINDOW then p\<lparr>pa_rtt_n := pa_rtt_n p + 1\<rparr> else p)"

definition loss_deadline :: "path \<Rightarrow> u64" where
  "loss_deadline p =
     (let d = path_srtt_ms p * 3
      in word_of_int (if d > PATH_LOSS_WAIT_MS then d else PATH_LOSS_WAIT_MS))"

definition path_probe_due :: "path \<Rightarrow> u64 \<Rightarrow> bool" where
  "path_probe_due p now \<longleftrightarrow> pa_used p \<and> \<not> pa_outstanding p \<and> pa_next_probe_ms p \<le> now"

definition path_probe_sent :: "path \<Rightarrow> u64 \<Rightarrow> u64 \<Rightarrow> path" where
  "path_probe_sent p nonce now =
     p\<lparr>pa_nonce := nonce, pa_sent_ms := now, pa_outstanding := True,
       pa_next_probe_ms := now + (if pa_qualified p then PATH_KEEP_MS else PROBE_EVERY_MS)\<rparr>"

definition path_probe_expire :: "path \<Rightarrow> u64 \<Rightarrow> path" where
  "path_probe_expire p now =
     (if \<not> pa_outstanding p \<or> now \<le> pa_sent_ms p \<or> now - pa_sent_ms p \<le> loss_deadline p then p
      else loss_record (p\<lparr>pa_outstanding := False\<rparr>) True)"

text \<open>\<open>(int)(now - p->sent_ms)\<close>: the low 32 bits, read as a signed number.\<close>

definition pong_rtt :: "path \<Rightarrow> u64 \<Rightarrow> int" where
  "pong_rtt p now =
     (if pa_sent_ms p < now then sint (ucast (now - pa_sent_ms p) :: 32 word) else 0)"

definition path_probe_pong :: "path \<Rightarrow> u64 \<Rightarrow> u64 \<Rightarrow> bool \<times> path" where
  "path_probe_pong p nonce now =
     (if \<not> pa_outstanding p \<or> nonce \<noteq> pa_nonce p then (False, p)
      else
        (let p = p\<lparr>pa_outstanding := False\<rparr>;
             rtt = pong_rtt p now;
             p = (if \<not> pa_qualified p then p\<lparr>pa_srtt8 := rtt * 8\<rparr>
                  else p\<lparr>pa_srtt8 := pa_srtt8 p + (rtt - pa_srtt8 p sdiv 8)\<rparr>);
             p = rtt_record p rtt;
             p = loss_record p False;
             p = p\<lparr>pa_last_pong_ms := now\<rparr>;
             p = (if \<not> pa_qualified p
                  then p\<lparr>pa_qualified := True, pa_next_probe_ms := now + PATH_KEEP_MS\<rparr> else p)
         in (True, p)))"

definition path_peer_view :: "path \<Rightarrow> int \<Rightarrow> int \<Rightarrow> int \<Rightarrow> path" where
  "path_peer_view p srtt_ms loss_ppt base_srtt_ms =
     (let mine = path_srtt_ms p;
          cap = PATH_PEER_SRTT_MAX;
          srtt_ms = (if srtt_ms < 0 then 0 else srtt_ms);
          loss_ppt = (if loss_ppt < 0 then 0 else loss_ppt);
          loss_ppt = (if loss_ppt > 1000 then 1000 else loss_ppt);
          base_srtt_ms = (if base_srtt_ms < 0 then 0 else base_srtt_ms);
          cap = (if pa_qualified p \<and> mine > 0 \<and> mine * PATH_PEER_SRTT_RATIO < cap
                 then mine * PATH_PEER_SRTT_RATIO else cap);
          srtt_ms = (if srtt_ms > cap then cap else srtt_ms);
          base_srtt_ms = (if base_srtt_ms > cap then cap else base_srtt_ms)
      in p\<lparr>pa_peer_srtt_ms := srtt_ms, pa_peer_loss_ppt := loss_ppt,
           pa_peer_base_srtt_ms := base_srtt_ms\<rparr>)"

section \<open>Cost\<close>

definition path_cost_of :: "int \<Rightarrow> int \<Rightarrow> int \<Rightarrow> int \<Rightarrow> int" where
  "path_cost_of srtt_a loss_a srtt_b loss_b =
     (let srtt = (if srtt_a > srtt_b then srtt_a else srtt_b);
          loss = (if loss_a > loss_b then loss_a else loss_b)
      in srtt + (PATH_LOSS_PENALTY_MS * loss) sdiv 1000)"

definition path_cost :: "path \<Rightarrow> int" where
  "path_cost p =
     path_cost_of (path_srtt_ms p) (path_loss_ppt p) (pa_peer_srtt_ms p) (pa_peer_loss_ppt p)"

definition path_bucket_of :: "int \<Rightarrow> int" where
  "path_bucket_of cost = cost sdiv PATH_COST_QUANTUM_MS"

definition path_bucket :: "path \<Rightarrow> int" where
  "path_bucket p = path_bucket_of (path_cost p)"

text \<open>The loop of \<open>path_base_srtt_ms\<close>: -1 until a first round trip has been read.\<close>

fun base_scan :: "int \<Rightarrow> u16 list \<Rightarrow> int" where
  "base_scan base [] = base"
| "base_scan base (r # rs) = base_scan (if base < 0 \<or> uint r < base then uint r else base) rs"

definition path_base_srtt_ms :: "path \<Rightarrow> int" where
  "path_base_srtt_ms p =
     (let base = base_scan (-1) (take (pa_rtt_n p) (pa_rtt p)) in if base < 0 then 0 else base)"

definition path_base_cost_of :: "int \<Rightarrow> int \<Rightarrow> int" where
  "path_base_cost_of base_a base_b = (if base_a > base_b then base_a else base_b)"

definition path_base_cost :: "path \<Rightarrow> int" where
  "path_base_cost p = path_base_cost_of (path_base_srtt_ms p) (pa_peer_base_srtt_ms p)"

definition path_base_bucket :: "path \<Rightarrow> int" where
  "path_base_bucket p = path_bucket_of (path_base_cost p)"

section \<open>The tail of a probe\<close>

definition path_fill_tail :: "path \<Rightarrow> path_probe \<Rightarrow> path_probe" where
  "path_fill_tail p pr =
     pr\<lparr>pr_have_tail := True, pr_echo := pa_in_src p, pr_srtt_ms := path_srtt_ms p,
        pr_loss_ppt := path_loss_ppt p, pr_base_srtt_ms := path_base_srtt_ms p\<rparr>"

definition path_apply_tail :: "crypto \<Rightarrow> path \<Rightarrow> path_probe \<Rightarrow> byte list \<Rightarrow> path" where
  "path_apply_tail C p pr sig_key =
     (if \<not> pr_have_tail pr then p
      else path_peer_view (path_set_self_ep C p (pr_echo pr) sig_key)
             (pr_srtt_ms pr) (pr_loss_ppt pr) (pr_base_srtt_ms pr))"

section \<open>Bounds\<close>

text \<open>What every path keeps, with \<open>R\<close> a bound on the round trips measured.\<close>

definition path_ok :: "int \<Rightarrow> path \<Rightarrow> bool" where
  "path_ok R p \<longleftrightarrow>
     length (pa_id p) = PATH_ID_LEN \<and> length (pa_rtt p) = PATH_LOSS_WINDOW \<and> pa_rtt_n p \<le> PATH_LOSS_WINDOW \<and>
     pa_rtt_i p < PATH_LOSS_WINDOW \<and> pa_loss_n p \<le> PATH_LOSS_WINDOW \<and>
     pa_rtt_n p \<le> pa_loss_n p \<and> (pa_qualified p \<longleftrightarrow> pa_rtt_n p \<noteq> 0) \<and>
     0 \<le> pa_srtt8 p \<and> pa_srtt8 p \<le> 8 * R + 7 \<and>
     pa_peer_srtt_ms p \<in> {0..PATH_PEER_SRTT_MAX} \<and> pa_peer_loss_ppt p \<in> {0..1000} \<and>
     pa_peer_base_srtt_ms p \<in> {0..PATH_PEER_SRTT_MAX}"

lemma path_ok_zero: "0 \<le> R \<Longrightarrow> path_ok R path_zero"
  by (simp add: path_ok_def path_zero_def PATH_LOSS_WINDOW_def PATH_PEER_SRTT_MAX_def)

lemma path_ok_sent: "path_ok R p \<Longrightarrow> path_ok R (path_probe_sent p nonce now)"
  by (simp add: path_ok_def path_probe_sent_def)

text \<open>The smoothing step stays in the interval it smooths over.\<close>

lemma srtt_step:
  fixes s r R :: int
  assumes "0 \<le> s" "s \<le> 8 * R + 7" "0 \<le> r" "r \<le> R"
  shows "0 \<le> s + (r - s sdiv 8)" "s + (r - s sdiv 8) \<le> 8 * R + 7"
  using assms by (simp_all add: sdiv_nonneg)

lemma rtt_record_fields [simp]:
  "pa_id (rtt_record p r) = pa_id p" "pa_loss_n (rtt_record p r) = pa_loss_n p" "pa_loss_reg (rtt_record p r) = pa_loss_reg p"
  "pa_qualified (rtt_record p r) = pa_qualified p" "pa_srtt8 (rtt_record p r) = pa_srtt8 p"
  "pa_peer_srtt_ms (rtt_record p r) = pa_peer_srtt_ms p"
  "pa_peer_loss_ppt (rtt_record p r) = pa_peer_loss_ppt p"
  "pa_peer_base_srtt_ms (rtt_record p r) = pa_peer_base_srtt_ms p"
  "pa_outstanding (rtt_record p r) = pa_outstanding p"
  "length (pa_rtt (rtt_record p r)) = length (pa_rtt p)"
  by (auto simp: rtt_record_def Let_def)

lemma rtt_record_i:
  "pa_rtt_i (rtt_record p r) =
     (if pa_rtt_n p \<noteq> 0 then (pa_rtt_i p + 1) mod PATH_LOSS_WINDOW else 0)"
  by (simp add: rtt_record_def Let_def)

lemma rtt_record_n:
  "pa_rtt_n (rtt_record p r) = (if pa_rtt_n p < PATH_LOSS_WINDOW then pa_rtt_n p + 1 else pa_rtt_n p)"
  by (simp add: rtt_record_def Let_def)

lemma loss_record_fields [simp]:
  "pa_id (loss_record p l) = pa_id p" "pa_rtt (loss_record p l) = pa_rtt p" "pa_rtt_n (loss_record p l) = pa_rtt_n p"
  "pa_rtt_i (loss_record p l) = pa_rtt_i p" "pa_qualified (loss_record p l) = pa_qualified p"
  "pa_srtt8 (loss_record p l) = pa_srtt8 p" "pa_peer_srtt_ms (loss_record p l) = pa_peer_srtt_ms p"
  "pa_peer_loss_ppt (loss_record p l) = pa_peer_loss_ppt p"
  "pa_peer_base_srtt_ms (loss_record p l) = pa_peer_base_srtt_ms p"
  "pa_outstanding (loss_record p l) = pa_outstanding p"
  "pa_loss_n (loss_record p l) =
     (if pa_loss_n p < PATH_LOSS_WINDOW then pa_loss_n p + 1 else pa_loss_n p)"
  by (simp_all add: loss_record_def Let_def)

lemma path_ok_expire: "path_ok R p \<Longrightarrow> path_ok R (path_probe_expire p now)"
  by (auto simp: path_ok_def path_probe_expire_def)

lemma path_ok_pong:
  assumes ok: "path_ok R p" and r: "0 \<le> pong_rtt p now" "pong_rtt p now \<le> R"
  shows "path_ok R (snd (path_probe_pong p nonce now))"
proof (cases "\<not> pa_outstanding p \<or> nonce \<noteq> pa_nonce p")
  case True
  then show ?thesis using ok by (simp add: path_probe_pong_def)
next
  case False
  have rtt: "pong_rtt (p\<lparr>pa_outstanding := False\<rparr>) now = pong_rtt p now" by (simp add: pong_rtt_def)
  have "0 \<le> pa_srtt8 p" "pa_srtt8 p \<le> 8 * R + 7" using ok by (simp_all add: path_ok_def)
  note step = srtt_step [OF this r]
  show ?thesis
    using ok False r step
    by (cases "pa_qualified p")
      (auto simp: path_probe_pong_def Let_def rtt path_ok_def rtt_record_n rtt_record_i PATH_LOSS_WINDOW_def)
qed

lemma path_peer_view_bounds:
  shows "pa_peer_srtt_ms (path_peer_view p s l b) \<in> {0..PATH_PEER_SRTT_MAX}"
    "pa_peer_loss_ppt (path_peer_view p s l b) \<in> {0..1000}"
    "pa_peer_base_srtt_ms (path_peer_view p s l b) \<in> {0..PATH_PEER_SRTT_MAX}"
    "pa_qualified p \<Longrightarrow> path_srtt_ms p > 0 \<Longrightarrow>
       pa_peer_srtt_ms (path_peer_view p s l b) \<le> path_srtt_ms p * PATH_PEER_SRTT_RATIO"
    "pa_qualified p \<Longrightarrow> path_srtt_ms p > 0 \<Longrightarrow>
       pa_peer_base_srtt_ms (path_peer_view p s l b) \<le> path_srtt_ms p * PATH_PEER_SRTT_RATIO"
  by (auto simp: path_peer_view_def Let_def PATH_PEER_SRTT_MAX_def PATH_PEER_SRTT_RATIO_def)

lemma path_peer_view_fields [simp]:
  "path_srtt_ms (path_peer_view p s l b) = path_srtt_ms p"
  "path_loss_ppt (path_peer_view p s l b) = path_loss_ppt p"
  "path_base_srtt_ms (path_peer_view p s l b) = path_base_srtt_ms p"
  by (simp_all add: path_peer_view_def Let_def path_srtt_ms_def path_loss_ppt_def path_base_srtt_ms_def)

lemma path_ok_peer_view: "path_ok R p \<Longrightarrow> path_ok R (path_peer_view p s l b)"
  using path_peer_view_bounds(1-3) [of p s l b]
  by (simp add: path_ok_def) (simp add: path_peer_view_def Let_def)

lemma path_ok_endpoints:
  "crypto_ok C \<Longrightarrow> path_ok R p \<Longrightarrow> path_ok R (path_set_self_ep C p ep key)"
  "crypto_ok C \<Longrightarrow> path_ok R p \<Longrightarrow> path_ok R (path_set_peer_ep C ntop p ep key)"
  "path_ok R p \<Longrightarrow> path_ok R (path_saw_inbound p ep)"
  by (simp_all add: path_ok_def path_set_self_ep_def path_set_peer_ep_def path_saw_inbound_def
      path_id_refresh_def path_id_calc_def Let_def crypto_okD(1) PATH_ID_LEN_def)

lemma path_ok_apply_tail: "crypto_ok C \<Longrightarrow> path_ok R p \<Longrightarrow> path_ok R (path_apply_tail C p pr key)"
  by (simp add: path_apply_tail_def path_ok_peer_view path_ok_endpoints)

text \<open>The operations on one path, with every round trip between 0 and \<open>R\<close>.\<close>

inductive path_step :: "int \<Rightarrow> path \<Rightarrow> path \<Rightarrow> bool" for R where
  sent: "path_step R p (path_probe_sent p nonce now)"
| expire: "path_step R p (path_probe_expire p now)"
| pong: "0 \<le> pong_rtt p now \<Longrightarrow> pong_rtt p now \<le> R \<Longrightarrow>
    path_step R p (snd (path_probe_pong p nonce now))"
| peer_view: "path_step R p (path_peer_view p s l b)"
| tail: "crypto_ok C \<Longrightarrow> path_step R p (path_apply_tail C p pr key)"
| self_ep: "crypto_ok C \<Longrightarrow> path_step R p (path_set_self_ep C p ep key)"
| peer_ep: "crypto_ok C \<Longrightarrow> path_step R p (path_set_peer_ep C ntop p ep key)"
| inbound: "path_step R p (path_saw_inbound p ep)"

definition path_fresh :: "int \<Rightarrow> path \<Rightarrow> bool" where
  "path_fresh R p \<longleftrightarrow> 0 \<le> R \<and> p = path_zero"

interpretation path: invariant_system "path_fresh R" "path_step R" "path_ok R" for R
proof unfold_locales
  show "path_ok R p" if "path_fresh R p" for p using that by (auto simp: path_fresh_def path_ok_zero)
  show "path_ok R q" if "path_ok R p" "path_step R p q" for p q
    using that(2,1)
    by cases (simp_all add: path_ok_sent path_ok_expire path_ok_pong path_ok_peer_view
        path_ok_apply_tail path_ok_endpoints)
qed

lemma path_loss_ppt_bounds: "0 \<le> path_loss_ppt p" "path_loss_ppt p \<le> 1000"
proof -
  let ?l = "length (filter (\<lambda>i. pa_loss_reg p AND push_bit i 1 \<noteq> 0) [0..<pa_loss_n p])"
  have l: "?l \<le> pa_loss_n p"
    using length_filter_le [of "\<lambda>i. pa_loss_reg p AND push_bit i 1 \<noteq> 0" "[0..<pa_loss_n p]"] by simp
  have "path_loss_ppt p = (if pa_loss_n p = 0 then 0 else int ?l * 1000 div int (pa_loss_n p))"
    by (simp add: path_loss_ppt_def sdiv_nonneg)
  moreover have "int ?l * 1000 div int (pa_loss_n p) \<le> int (pa_loss_n p) * 1000 div int (pa_loss_n p)"
    if "pa_loss_n p \<noteq> 0" using l that by (intro zdiv_mono1) auto
  ultimately show "0 \<le> path_loss_ppt p" "path_loss_ppt p \<le> 1000"
    by (auto simp: pos_imp_zdiv_nonneg_iff split: if_splits)
qed

lemma path_cost_bounds:
  assumes ok: "path_ok R p"
  shows "0 \<le> path_srtt_ms p" "path_srtt_ms p \<le> R" "0 \<le> path_cost p"
    "path_cost p \<le> max R PATH_PEER_SRTT_MAX + PATH_LOSS_PENALTY_MS"
proof -
  show s: "0 \<le> path_srtt_ms p" "path_srtt_ms p \<le> R"
    using ok by (auto simp: path_ok_def path_srtt_ms_def sdiv_nonneg)
  define loss where "loss = max (path_loss_ppt p) (pa_peer_loss_ppt p)"
  have l: "0 \<le> loss" "loss \<le> 1000"
    using path_loss_ppt_bounds [of p] ok by (auto simp: loss_def path_ok_def)
  have "path_cost p = max (path_srtt_ms p) (pa_peer_srtt_ms p) + 200 * loss div 1000"
    using l by (auto simp: path_cost_def path_cost_of_def Let_def PATH_LOSS_PENALTY_MS_def
        sdiv_nonneg loss_def max_def)
  moreover have "0 \<le> pa_peer_srtt_ms p" "pa_peer_srtt_ms p \<le> PATH_PEER_SRTT_MAX"
    using ok by (auto simp: path_ok_def)
  moreover have "200 * loss div 1000 \<le> 200" using l by simp
  ultimately show "0 \<le> path_cost p" "path_cost p \<le> max R PATH_PEER_SRTT_MAX + PATH_LOSS_PENALTY_MS"
    using s l by (auto simp: PATH_LOSS_PENALTY_MS_def)
qed

section \<open>The windows hold the last sixteen outcomes\<close>

text \<open>The outcomes recorded so far, newest first, against the register and the ring.\<close>

definition loss_log :: "path \<Rightarrow> bool list \<Rightarrow> bool" where
  "loss_log p log \<longleftrightarrow>
     pa_loss_n p = min PATH_LOSS_WINDOW (length log) \<and>
     (\<forall>i < pa_loss_n p. bit (pa_loss_reg p) i = log ! i)"

lemma loss_record_bit:
  "bit (pa_loss_reg (loss_record p l)) i =
     (case i of 0 \<Rightarrow> l | Suc k \<Rightarrow> k < 15 \<and> bit (pa_loss_reg p) k)"
proof -
  have "pa_loss_reg (loss_record p l) = push_bit 1 (pa_loss_reg p) OR (if l then 1 else 0)"
    by (simp add: loss_record_def Let_def)
  then show ?thesis
    unfolding bit_or_iff bit_push_bit_iff by (cases i) (auto simp: bit_1_iff possible_bit_def
        bit_push_bit_iff bit_or_iff simp del: push_bit_Suc push_bit_numeral)
qed

lemma loss_log_record: "loss_log p log \<Longrightarrow> loss_log (loss_record p l) (l # log)"
  by (auto simp: loss_log_def PATH_LOSS_WINDOW_def loss_record_bit nth_Cons
      split: nat.splits if_splits)

lemma loss_log_zero: "loss_log path_zero []"
  by (simp add: loss_log_def path_zero_def)

lemma path_loss_ppt_log:
  assumes "loss_log p log" "log \<noteq> []"
  shows "path_loss_ppt p = int (length (filter id (take 16 log))) * 1000 div int (length (take 16 log))"
proof -
  have n: "pa_loss_n p = length (take 16 log)"
    using assms(1) by (simp add: loss_log_def PATH_LOSS_WINDOW_def min.commute)
  have "map (\<lambda>i. pa_loss_reg p AND push_bit i 1 \<noteq> 0) [0..<pa_loss_n p] = take 16 log"
    using assms(1) n
    by (intro nth_equalityI) (auto simp: loss_log_def and_push_bit_1 simp del: push_bit_of_1)
  then have "length (filter (\<lambda>i. pa_loss_reg p AND push_bit i 1 \<noteq> 0) [0..<pa_loss_n p]) =
      length (filter id (take 16 log))"
    by (metis (no_types, lifting) comp_apply filter_cong filter_map id_apply length_map)
  then show ?thesis
    using assms(2) n by (simp add: path_loss_ppt_def sdiv_nonneg del: length_take)
qed

text \<open>The ring: the \<open>j\<close>-th newest round trip stands \<open>j\<close> places behind \<open>rtt_i\<close>.\<close>

definition rtt_clamp :: "int \<Rightarrow> int" where
  "rtt_clamp r = min 65535 (max 0 r)"

definition rtt_log :: "path \<Rightarrow> int list \<Rightarrow> bool" where
  "rtt_log p log \<longleftrightarrow>
     length (pa_rtt p) = 16 \<and> pa_rtt_n p = min 16 (length log) \<and> pa_rtt_i p < 16 \<and>
     (pa_rtt_n p < 16 \<longrightarrow> pa_rtt_n p = 0 \<or> pa_rtt_i p = pa_rtt_n p - 1) \<and>
     (\<forall>j < pa_rtt_n p. uint (pa_rtt p ! ((pa_rtt_i p + 16 - j) mod 16)) = rtt_clamp (log ! j))"

lemma rtt_log_zero: "rtt_log path_zero []"
  by (simp add: rtt_log_def path_zero_def PATH_LOSS_WINDOW_def)

lemma rtt_record_ring:
  "pa_rtt (rtt_record p r) = (pa_rtt p)[pa_rtt_i (rtt_record p r) := word_of_int (rtt_clamp r)]"
  by (simp add: rtt_record_def Let_def rtt_clamp_def max_def min_def)

lemma uint_rtt_clamp: "uint (word_of_int (rtt_clamp r) :: u16) = rtt_clamp r"
  by (simp add: uint_word_of_int rtt_clamp_def)

lemma ring_pos:
  assumes "i < 16" "j < (16 :: nat)"
  shows "(i + 16 - j) mod 16 = (if j \<le> i then i - j else i + 16 - j)"
proof (cases "j \<le> i")
  case True
  then have "i + 16 - j = (i - j) + 16" by simp
  then have "(i + 16 - j) mod 16 = (i - j) mod 16" by (simp only: mod_add_self2)
  then show ?thesis using assms True by simp
qed (use assms in simp)

lemma rtt_log_record:
  assumes log: "rtt_log p log"
  shows "rtt_log (rtt_record p r) (r # log)"
proof -
  let ?q = "rtt_record p r"
  define i where "i = pa_rtt_i ?q"
  have i: "i = (if pa_rtt_n p \<noteq> 0 then (pa_rtt_i p + 1) mod 16 else 0)"
    by (simp add: i_def rtt_record_i PATH_LOSS_WINDOW_def)
  have n: "pa_rtt_n ?q = min 16 (length (r # log))"
    using log by (auto simp: rtt_log_def rtt_record_n PATH_LOSS_WINDOW_def)
  have ring: "uint (pa_rtt ?q ! ((i + 16 - j) mod 16)) = rtt_clamp ((r # log) ! j)"
    if j: "j < pa_rtt_n ?q" for j
  proof (cases j)
    case 0
    have "i < 16" using i by simp
    then show ?thesis
      using 0 log by (simp add: rtt_record_ring i_def [symmetric] uint_rtt_clamp rtt_log_def)
  next
    case (Suc k)
    have k: "k < pa_rtt_n p" "k < 15"
      using j n Suc log by (auto simp: rtt_log_def)
    have pi: "pa_rtt_i p < 16" using log by (simp add: rtt_log_def)
    have i16: "i < 16" "j < 16" "0 < j" using i Suc k by simp_all
    have "i = (if pa_rtt_i p = 15 then 0 else pa_rtt_i p + 1)" using i k pi by simp
    then have pos: "(i + 16 - j) mod 16 = (pa_rtt_i p + 16 - k) mod 16"
      using ring_pos [OF i16(1,2)] ring_pos [of "pa_rtt_i p" k] Suc k pi
      by (auto split: if_splits)
    moreover have "(i + 16 - j) mod 16 \<noteq> i"
      using i16 ring_pos [OF i16(1,2)] by (cases "j \<le> i") auto
    ultimately show ?thesis
      using k log Suc by (simp add: rtt_record_ring i_def [symmetric] rtt_log_def)
  qed
  moreover have "pa_rtt_n ?q < 16 \<longrightarrow> pa_rtt_n ?q = 0 \<or> i = pa_rtt_n ?q - 1"
    using log i by (auto simp: rtt_log_def rtt_record_n PATH_LOSS_WINDOW_def split: if_splits)
  moreover have "i < 16" using i by simp
  ultimately show ?thesis using n log by (simp add: rtt_log_def i_def)
qed

lemma base_scan_Min:
  "0 \<le> b \<Longrightarrow> base_scan b xs = Min (insert b (uint ` set xs))"
proof (induction xs arbitrary: b)
  case (Cons x xs)
  have "base_scan b (x # xs) = Min (insert (min (uint x) b) (uint ` set xs))"
    using Cons by (auto simp: min_def)
  also have "\<dots> = Min (insert b (uint ` set (x # xs)))"
    by (cases "xs = []") (simp_all add: min.commute min.left_commute)
  finally show ?case .
qed simp

lemma base_scan_first: "xs \<noteq> [] \<Longrightarrow> base_scan (-1) xs = Min (uint ` set xs)"
  by (cases xs) (simp_all add: base_scan_Min)

lemma ring_image:
  assumes "i < 16" "n \<le> 16" "n < 16 \<longrightarrow> i = n - (1 :: nat)"
  shows "(\<lambda>j. (i + 16 - j) mod 16) ` {..<n} = {..<n}"
proof (intro equalityI subsetI)
  fix k
  assume "k \<in> (\<lambda>j. (i + 16 - j) mod 16) ` {..<n}"
  then obtain j where j: "j < n" "k = (i + 16 - j) mod 16" by auto
  then have "k = (if j \<le> i then i - j else i + 16 - j)" using ring_pos [of i j] assms by simp
  then show "k \<in> {..<n}" using j assms by (cases "n < 16") auto
next
  fix k
  assume "k \<in> {..<n}"
  then have k: "k < n" by simp
  define j where "j = (if k \<le> i then i - k else i + 16 - k)"
  have j: "j < n" using k assms by (cases "n < 16") (auto simp: j_def)
  moreover have "(i + 16 - j) mod 16 = k"
    using ring_pos [of i j] j k assms by (auto simp: j_def split: if_splits)
  ultimately show "k \<in> (\<lambda>j. (i + 16 - j) mod 16) ` {..<n}" by force
qed

lemma set_take_image: "n \<le> length xs \<Longrightarrow> set (take n xs) = (\<lambda>j. xs ! j) ` {..<n}"
  using nth_image [of n xs] by (simp add: atLeast0LessThan)

lemma path_base_srtt_log:
  assumes log: "rtt_log p log" and ne: "log \<noteq> []"
  shows "path_base_srtt_ms p = Min (rtt_clamp ` set (take 16 log))"
proof -
  define n where "n = pa_rtt_n p"
  have n: "n = min 16 (length log)" "0 < n" "n \<le> 16" using log ne by (auto simp: rtt_log_def n_def)
  have i: "pa_rtt_i p < 16" "n < 16 \<longrightarrow> pa_rtt_i p = n - 1" "length (pa_rtt p) = 16"
    and at: "\<forall>j < n. uint (pa_rtt p ! ((pa_rtt_i p + 16 - j) mod 16)) = rtt_clamp (log ! j)"
    using log n by (auto simp: rtt_log_def n_def)
  let ?pos = "\<lambda>j. (pa_rtt_i p + 16 - j) mod 16"
  have "set (take n (pa_rtt p)) = (\<lambda>j. pa_rtt p ! j) ` (?pos ` {..<n})"
    using ring_image [OF i(1) n(3) i(2)] set_take_image [of n "pa_rtt p"] i(3) n(3) by simp
  then have "uint ` set (take n (pa_rtt p)) = (\<lambda>j. uint (pa_rtt p ! (?pos j))) ` {..<n}"
    by (simp add: image_image)
  also have "\<dots> = (\<lambda>j. rtt_clamp (log ! j)) ` {..<n}" using at by (intro image_cong) auto
  also have "\<dots> = rtt_clamp ` (\<lambda>j. log ! j) ` {..<n}" by (simp add: image_image)
  also have "(\<lambda>j. log ! j) ` {..<n} = set (take n log)"
    using n by (subst set_take_image) auto
  also have "take n log = take 16 log" using n by (simp add: min_def)
  finally have eq: "uint ` set (take n (pa_rtt p)) = rtt_clamp ` set (take 16 log)" .
  have "take n (pa_rtt p) \<noteq> []" using i n by auto
  then have b: "base_scan (-1) (take n (pa_rtt p)) = Min (rtt_clamp ` set (take 16 log))"
    by (simp add: base_scan_first eq)
  moreover have "0 \<le> Min (rtt_clamp ` set (take 16 log))"
    using ne by (subst Min_ge_iff) (auto simp: rtt_clamp_def)
  ultimately show ?thesis by (simp add: path_base_srtt_ms_def n_def [symmetric])
qed

section \<open>A probe's life\<close>

text \<open>What happens to a path's probes: the tick sends one when it is due, a probe past its
  deadline is scored, a pong arrives.\<close>

datatype probe_event = Send u64 u64 | Expire u64 | Pong u64 u64

text \<open>The path, the probes sent, their outcomes (\<open>True\<close> is lost) and the round trips measured, both
  newest first.\<close>

type_synonym probe_book = "path \<times> nat \<times> bool list \<times> int list"

fun probe_event_step :: "probe_book \<Rightarrow> probe_event \<Rightarrow> probe_book" where
  "probe_event_step (p, n, os, rs) (Send nonce now) =
     (if path_probe_due p now then (path_probe_sent p nonce now, n + 1, os, rs) else (p, n, os, rs))"
| "probe_event_step (p, n, os, rs) (Expire now) =
     (let q = path_probe_expire p now
      in (q, n, if pa_outstanding p \<and> \<not> pa_outstanding q then True # os else os, rs))"
| "probe_event_step (p, n, os, rs) (Pong nonce now) =
     (case path_probe_pong p nonce now of
        (True, q) \<Rightarrow> (q, n, False # os, pong_rtt p now # rs)
      | (False, q) \<Rightarrow> (q, n, os, rs))"

definition book_ok :: "probe_book \<Rightarrow> bool" where
  "book_ok b = (case b of (p, n, os, rs) \<Rightarrow>
     n = length os + of_bool (pa_outstanding p) \<and> loss_log p os \<and> rtt_log p rs)"

lemma log_fields:
  "loss_log (p\<lparr>pa_outstanding := b\<rparr>) os = loss_log p os" "rtt_log (p\<lparr>pa_outstanding := b\<rparr>) rs = rtt_log p rs"
  "loss_log (p\<lparr>pa_srtt8 := v\<rparr>) os = loss_log p os" "rtt_log (p\<lparr>pa_srtt8 := v\<rparr>) rs = rtt_log p rs"
  "loss_log (p\<lparr>pa_last_pong_ms := t\<rparr>) os = loss_log p os"
  "rtt_log (p\<lparr>pa_last_pong_ms := t\<rparr>) rs = rtt_log p rs"
  "loss_log (p\<lparr>pa_qualified := b\<rparr>) os = loss_log p os"
  "rtt_log (p\<lparr>pa_qualified := b\<rparr>) rs = rtt_log p rs"
  "loss_log (p\<lparr>pa_next_probe_ms := t\<rparr>) os = loss_log p os"
  "rtt_log (p\<lparr>pa_next_probe_ms := t\<rparr>) rs = rtt_log p rs"
  "rtt_log (loss_record p l) rs = rtt_log p rs" "loss_log (rtt_record p r) os = loss_log p os"
  by (simp_all add: loss_log_def rtt_log_def)

lemma book_ok_step: "book_ok b \<Longrightarrow> book_ok (probe_event_step b ev)"
proof (cases b)
  case (fields p n os rs)
  assume ok: "book_ok b"
  show ?thesis
  proof (cases ev)
    case (Send nonce now)
    then show ?thesis using ok fields
      by (auto simp: book_ok_def path_probe_due_def path_probe_sent_def loss_log_def rtt_log_def)
  next
    case (Expire now)
    then show ?thesis using ok fields
      by (auto simp: book_ok_def path_probe_expire_def Let_def log_fields intro!: loss_log_record)
  next
    case (Pong nonce now)
    have rtt: "pong_rtt (p\<lparr>pa_outstanding := False\<rparr>) now = pong_rtt p now" by (simp add: pong_rtt_def)
    show ?thesis using Pong ok fields
      by (auto simp: book_ok_def path_probe_pong_def Let_def log_fields rtt
          intro!: loss_log_record rtt_log_record)
  qed
qed

lemma book_ok_run: "book_ok b \<Longrightarrow> book_ok (foldl probe_event_step b evs)"
  by (induction evs arbitrary: b) (simp_all add: book_ok_step)

lemma book_ok_start: "book_ok (path_zero\<lparr>pa_used := True\<rparr>, 0, [], [])"
  using loss_log_zero rtt_log_zero
  by (simp add: book_ok_def loss_log_def rtt_log_def) (simp add: path_zero_def)

section \<open>Properties\<close>

text \<open>C28. The statistics of a path are exactly those of its last sixteen probes: in any run of
  sends, expiries and pongs every probe sent is scored once, as answered or as lost (or is the one
  outstanding); the loss ratio is the proportion of losses among the last sixteen outcomes in
  thousandths, and the base round trip the least of the last sixteen round trips measured.\<close>

theorem path_statistics_exact:
  assumes "foldl probe_event_step (path_zero\<lparr>pa_used := True\<rparr>, 0, [], []) evs = (p, sent, os, rs)"
  shows "sent = length os + of_bool (pa_outstanding p) \<and>
    (os \<noteq> [] \<longrightarrow> path_loss_ppt p =
       int (length (filter id (take 16 os))) * 1000 div int (length (take 16 os))) \<and>
    (rs \<noteq> [] \<longrightarrow> path_base_srtt_ms p = Min (rtt_clamp ` set (take 16 rs)))"
  using book_ok_run [OF book_ok_start, of evs] assms path_loss_ppt_log path_base_srtt_log
  by (simp add: book_ok_def)

theorem path_statistics_exact_witness:
  "case foldl probe_event_step (path_zero\<lparr>pa_used := True\<rparr>, 0, [], [])
      [Send 7 10, Pong 7 52, Send 8 1052, Expire 3000, Send 9 3001, Pong 9 3031] of
    (p, sent, os, rs) \<Rightarrow> sent = length os + of_bool (pa_outstanding p) \<and> path_loss_ppt p = 333"
proof -
  let ?evs = "[Send 7 10, Pong 7 52, Send 8 1052, Expire 3000, Send 9 3001, Pong 9 3031]"
  obtain p sent os rs where run: "foldl probe_event_step (path_zero\<lparr>pa_used := True\<rparr>, 0, [], []) ?evs =
      (p, sent, os, rs)" by (metis prod_cases4)
  have "fst (snd (snd (foldl probe_event_step (path_zero\<lparr>pa_used := True\<rparr>, 0, [], []) ?evs))) =
      [False, True, False]"
    by code_simp
  then have "os = [False, True, False]" by (simp only: run fst_conv snd_conv)
  with path_statistics_exact [OF run] run show ?thesis by simp
qed

text \<open>The figures a path is ranked by stay in range and within 32 bits. Whatever the operations
  on it, as long as no round trip measured exceeds \<open>R\<close>: the smoothed round trip is between 0 and
  \<open>R\<close>, its scaled form \<open>srtt8\<close> at most \<open>8 R + 7\<close> (so it fits a C \<open>int\<close> for every \<open>R\<close> below
  two to the 28, three days in milliseconds), the loss ratio is between 0 and 1000, and the cost
  between 0 and the larger of \<open>R\<close> and the peer's ceiling plus the loss penalty.\<close>

theorem path_figures_bounded:
  assumes "reachable (path_fresh R) (path_step R) p"
  shows "path_srtt_ms p \<in> {0..R} \<and> pa_srtt8 p \<in> {0..8 * R + 7} \<and>
    (R < 2 ^ 28 \<longrightarrow> pa_srtt8 p < 2 ^ 31) \<and> path_loss_ppt p \<in> {0..1000} \<and>
    path_cost p \<in> {0..max R PATH_PEER_SRTT_MAX + PATH_LOSS_PENALTY_MS}"
proof -
  have ok: "path_ok R p" by (rule path.reachable_inv [OF assms])
  then have "pa_srtt8 p \<in> {0..8 * R + 7}" by (simp add: path_ok_def)
  moreover from this have "R < 2 ^ 28 \<longrightarrow> pa_srtt8 p < 2 ^ 31" by auto
  ultimately show ?thesis
    using path_cost_bounds [OF ok] path_loss_ppt_bounds [of p] by simp
qed

theorem path_figures_bounded_witness:
  "path_cost (path_probe_sent path_zero 7 10) \<in> {0..max 100 PATH_PEER_SRTT_MAX + PATH_LOSS_PENALTY_MS}"
proof -
  have st: "path_fresh 100 path_zero" by (simp add: path_fresh_def)
  have "reachable (path_fresh 100) (path_step 100) (path_probe_sent path_zero 7 10)"
    by (rule next_state, rule start, rule st, rule path_step.sent)
  from path_figures_bounded [OF this] show ?thesis by simp
qed

text \<open>A peer's claim about a path can only argue it down, and only so far: taking its view
  never lowers the cost below this end's own measurement, and raises the delay it counts at most
  to the ceiling, and at most to four times our own measurement where we have one.\<close>

theorem path_peer_view_bounded:
  assumes "path_ok R p"
  shows "path_cost_of (path_srtt_ms p) (path_loss_ppt p) 0 0 \<le> path_cost (path_peer_view p s l b) \<and>
    path_cost (path_peer_view p s l b) \<le>
      max (path_srtt_ms p)
          (if pa_qualified p \<and> path_srtt_ms p > 0 then min PATH_PEER_SRTT_MAX (4 * path_srtt_ms p)
           else PATH_PEER_SRTT_MAX) + PATH_LOSS_PENALTY_MS"
proof -
  let ?q = "path_peer_view p s l b"
  define loss where "loss = max (path_loss_ppt p) (pa_peer_loss_ppt ?q)"
  note bounds = path_peer_view_bounds [of p s l b]
  have l: "0 \<le> loss" "loss \<le> 1000" "path_loss_ppt p \<le> loss"
    using path_loss_ppt_bounds [of p] bounds(2) by (auto simp: loss_def)
  have s: "0 \<le> path_srtt_ms p" by (rule path_cost_bounds(1) [OF assms])
  have c: "path_cost ?q = max (path_srtt_ms p) (pa_peer_srtt_ms ?q) + 200 * loss div 1000"
    using l by (auto simp: path_cost_def path_cost_of_def Let_def PATH_LOSS_PENALTY_MS_def
        sdiv_nonneg loss_def max_def)
  have own: "path_cost_of (path_srtt_ms p) (path_loss_ppt p) 0 0 =
      path_srtt_ms p + 200 * path_loss_ppt p div 1000"
    using s path_loss_ppt_bounds [of p]
    by (auto simp: path_cost_of_def Let_def PATH_LOSS_PENALTY_MS_def sdiv_nonneg)
  have "200 * path_loss_ppt p div 1000 \<le> 200 * loss div 1000" using l by (intro zdiv_mono1) auto
  moreover have "200 * loss div 1000 \<le> 200" using l by simp
  moreover have "pa_peer_srtt_ms ?q \<le> (if pa_qualified p \<and> path_srtt_ms p > 0
      then min PATH_PEER_SRTT_MAX (4 * path_srtt_ms p) else PATH_PEER_SRTT_MAX)" "0 \<le> pa_peer_srtt_ms ?q"
    using bounds(1,4) by (auto simp: PATH_PEER_SRTT_RATIO_def)
  ultimately show ?thesis
    using s by (auto simp: c own PATH_LOSS_PENALTY_MS_def split: if_splits)
qed

theorem path_peer_view_bounded_witness:
  "path_cost (path_peer_view path_zero 60000 5000 9) \<le> 2200"
proof -
  have "path_srtt_ms path_zero = 0" by (simp add: path_zero_def path_srtt_ms_def)
  then show ?thesis
    using path_peer_view_bounded [OF path_ok_zero, of 0 60000 5000 9]
    by (simp add: PATH_LOSS_PENALTY_MS_def PATH_PEER_SRTT_MAX_def split: if_splits)
qed

end
