(* ===== verification/Path_Table.thy ===== *)
theory Path_Table
  imports Path_Measure
begin

text \<open>
  A connection's paths (path.c): the table with its search, eviction, admission and removal, and
  the ranking that chooses the path to carry the session. A \<open>struct path *\<close> into the table is an
  index, -1 and NULL are \<open>None\<close>.
\<close>

record path_table =
  pt_p :: "path list"
  pt_sel :: "nat option"

definition path_table_init :: path_table where
  "path_table_init = \<lparr>pt_p = replicate PATH_TABLE_MAX path_zero, pt_sel = None\<rparr>"

definition path_table_count :: "path_table \<Rightarrow> nat" where
  "path_table_count t = length (filter pa_used (pt_p t))"

fun kind_is_lanlink :: "path_kind \<Rightarrow> bool" where
  "kind_is_lanlink PATH_SEGMENT = True"
| "kind_is_lanlink PATH_ROUTED = True"
| "kind_is_lanlink PATH_ICE = False"

definition path_table_find :: "path_table \<Rightarrow> path_kind \<Rightarrow> path_ep \<Rightarrow> nat option" where
  "path_table_find t kind ep =
     find_index (\<lambda>p. pa_used p \<and> pa_kind p = kind \<and> path_ep_eq (pa_peer_ep p) ep) (pt_p t)"

definition path_table_find_ep :: "path_table \<Rightarrow> path_ep \<Rightarrow> nat option" where
  "path_table_find_ep t ep =
     find_index (\<lambda>p. pa_used p \<and> kind_is_lanlink (pa_kind p) \<and> path_ep_eq (pa_peer_ep p) ep) (pt_p t)"

definition path_table_find_port :: "path_table \<Rightarrow> u16 \<Rightarrow> nat option" where
  "path_table_find_port t port =
     find_index (\<lambda>p. pa_used p \<and> kind_is_lanlink (pa_kind p) \<and> pe_port (pa_peer_ep p) = port) (pt_p t)"

definition path_table_find_agent :: "path_table \<Rightarrow> nat option \<Rightarrow> nat option" where
  "path_table_find_agent t agent =
     (if agent = None then None
      else find_index (\<lambda>p. pa_used p \<and> pa_agent p = agent) (pt_p t))"

definition path_table_sel :: "path_table \<Rightarrow> nat option" where
  "path_table_sel t =
     (case pt_sel t of None \<Rightarrow> None | Some i \<Rightarrow> if \<not> pa_used (pt_p t ! i) then None else Some i)"

section \<open>Eviction and admission\<close>

text \<open>Is path \<open>p\<close> a better victim than \<open>w\<close>: colder, or as cold and older?\<close>

definition worse :: "u64 \<Rightarrow> path \<Rightarrow> path \<Rightarrow> bool" where
  "worse now p w \<longleftrightarrow>
     path_warmth_of p now > path_warmth_of w now \<or>
     path_warmth_of p now = path_warmth_of w now \<and> pa_created_ms p < pa_created_ms w"

definition path_table_evict :: "path_table \<Rightarrow> u64 \<Rightarrow> nat option" where
  "path_table_evict t now =
     (case find_index (\<lambda>p. \<not> pa_used p) (pt_p t) of
        Some i \<Rightarrow> Some i
      | None \<Rightarrow>
          best_scan (\<lambda>i. Some i \<noteq> pt_sel t) (\<lambda>i w. worse now (pt_p t ! i) (pt_p t ! w)) None
            [0..<length (pt_p t)])"

text \<open>The slot a new path takes, filled in.\<close>

definition path_new ::
    "(bool \<Rightarrow> byte list \<Rightarrow> string option) \<Rightarrow> path_kind \<Rightarrow> sockaddr_in6 option \<Rightarrow> nat option \<Rightarrow>
     path_ep \<Rightarrow> u64 \<Rightarrow> path" where
  "path_new ntop kind remote agent ep now =
     (let p = path_zero\<lparr>pa_used := True, pa_usable := (agent = None), pa_kind := kind,
                pa_agent := agent, pa_peer_ep := ep\<rparr>;
          p = (case remote of Some r \<Rightarrow> p\<lparr>pa_remote := r\<rparr> | None \<Rightarrow> p);
          p = p\<lparr>pa_created_ms := now, pa_trying_since_ms := now\<rparr>
      in if \<not> path_ep_any ep then p\<lparr>pa_label := path_ep_str ntop ep PATH_LABEL_MAX\<rparr> else p)"

definition path_table_add ::
    "(bool \<Rightarrow> byte list \<Rightarrow> string option) \<Rightarrow> path_table \<Rightarrow> path_kind \<Rightarrow> sockaddr_in6 option \<Rightarrow>
     nat option \<Rightarrow> u64 \<Rightarrow> nat option \<times> path_table" where
  "path_table_add ntop t kind remote agent now =
     (case (case remote of None \<Rightarrow> Some ep_zero | Some r \<Rightarrow> path_ep_from_sockaddr (AF_INET6 r) 28) of
        None \<Rightarrow> (None, t)
      | Some ep \<Rightarrow>
          (case (if agent \<noteq> None then path_table_find_agent t agent else path_table_find t kind ep) of
             Some i \<Rightarrow> (Some i, t)
           | None \<Rightarrow>
               (case path_table_evict t now of
                  None \<Rightarrow> (None, t)
                | Some slot \<Rightarrow>
                    (Some slot, t\<lparr>pt_p := (pt_p t)[slot := path_new ntop kind remote agent ep now]\<rparr>))))"

definition path_table_spare :: "path_table \<Rightarrow> u64 \<Rightarrow> bool" where
  "path_table_spare t now =
     (if \<exists>i < length (pt_p t). \<not> pa_used (pt_p t ! i) then True
      else \<exists>i < length (pt_p t). Some i \<noteq> pt_sel t \<and> path_warmth_of (pt_p t ! i) now = PATH_DEAD)"

definition path_table_offer ::
    "(bool \<Rightarrow> byte list \<Rightarrow> string option) \<Rightarrow> path_table \<Rightarrow> path_kind \<Rightarrow> sockaddr_in6 option \<Rightarrow> u64 \<Rightarrow>
     nat option \<times> path_table" where
  "path_table_offer ntop t kind remote now =
     (case remote of
        None \<Rightarrow> (None, t)
      | Some r \<Rightarrow>
          (case path_ep_from_sockaddr (AF_INET6 r) 28 of
             None \<Rightarrow> (None, t)
           | Some ep \<Rightarrow>
               (case path_table_find_ep t ep of
                  Some i \<Rightarrow> (Some i, t)
                | None \<Rightarrow>
                    if \<not> path_table_spare t now then (None, t)
                    else path_table_add ntop t kind (Some r) None now)))"

definition path_table_clear :: "path_table \<Rightarrow> path_table" where
  "path_table_clear t = path_table_init"

text \<open>The loop of the two drops: every slot that matches is zeroed, and with it the selection.\<close>

definition table_drop :: "(path \<Rightarrow> bool) \<Rightarrow> path_table \<Rightarrow> path_table" where
  "table_drop gone t =
     t\<lparr>pt_p := map (\<lambda>p. if \<not> pa_used p \<or> \<not> gone p then p else path_zero) (pt_p t),
       pt_sel := (case pt_sel t of
                    None \<Rightarrow> None
                  | Some i \<Rightarrow> if pa_used (pt_p t ! i) \<and> gone (pt_p t ! i) then None else Some i)\<rparr>"

definition path_table_drop_agent :: "path_table \<Rightarrow> nat option \<Rightarrow> path_table" where
  "path_table_drop_agent t agent =
     (if agent = None then t else table_drop (\<lambda>p. pa_agent p = agent) t)"

definition path_table_drop_kind :: "path_table \<Rightarrow> path_kind \<Rightarrow> path_table" where
  "path_table_drop_kind t kind = table_drop (\<lambda>p. pa_kind p = kind) t"

text \<open>One turn of the loop of \<open>path_table_reset_stats\<close>.\<close>

definition path_reset :: "u64 \<Rightarrow> path \<Rightarrow> path" where
  "path_reset now p =
     (if \<not> pa_used p then p
      else p\<lparr>pa_nonce := 0, pa_sent_ms := 0, pa_outstanding := False, pa_srtt8 := 0,
             pa_peer_srtt_ms := 0, pa_peer_loss_ppt := 0, pa_peer_base_srtt_ms := 0,
             pa_loss_reg := 0, pa_loss_n := 0, pa_rtt_n := 0, pa_rtt_i := 0,
             pa_last_pong_ms := 0, pa_next_probe_ms := 0, pa_qualified := False,
             pa_warmth_noted := PATH_WARM, pa_trying_since_ms := now\<rparr>)"

definition path_table_reset_stats :: "path_table \<Rightarrow> u64 \<Rightarrow> path_table" where
  "path_table_reset_stats t now = t\<lparr>pt_p := map (path_reset now) (pt_p t)\<rparr>"

definition path_table_any_qualified :: "path_table \<Rightarrow> bool" where
  "path_table_any_qualified t \<longleftrightarrow> (\<exists>p \<in> set (pt_p t). pa_used p \<and> pa_qualified p)"

text \<open>The loop of \<open>path_table_all_dead\<close>, with its early return.\<close>

fun all_dead_scan :: "u64 \<Rightarrow> bool \<Rightarrow> path list \<Rightarrow> bool" where
  "all_dead_scan now any [] = any"
| "all_dead_scan now any (p # ps) =
     (if \<not> pa_used p \<or> \<not> pa_qualified p then all_dead_scan now any ps
      else if path_warmth_of p now \<noteq> PATH_DEAD then False
      else all_dead_scan now True ps)"

definition path_table_all_dead :: "path_table \<Rightarrow> u64 \<Rightarrow> bool" where
  "path_table_all_dead t now = all_dead_scan now False (pt_p t)"

section \<open>Ranking\<close>

definition path_cmp :: "path \<Rightarrow> path \<Rightarrow> u64 \<Rightarrow> int" where
  "path_cmp a b now =
     (let wa = path_warmth_of a now; wb = path_warmth_of b now
      in if wa \<noteq> wb then (if wa < wb then -1 else 1)
         else
           (let ba = path_bucket a; bb = path_bucket b
            in if ba \<noteq> bb then (if ba < bb then -1 else 1)
               else memcmp (pa_id a) (pa_id b)))"

text \<open>Every probe of half a window's worth is gone.\<close>

definition fully_lost :: "path \<Rightarrow> bool" where
  "fully_lost p \<longleftrightarrow> PATH_LOSS_WINDOW div 2 \<le> pa_loss_n p \<and> 1000 \<le> path_loss_ppt p"

definition best_eligible :: "path \<Rightarrow> bool" where
  "best_eligible p = (if \<not> pa_used p \<or> \<not> pa_usable p then False else \<not> fully_lost p)"

definition path_best :: "path_table \<Rightarrow> u64 \<Rightarrow> nat option" where
  "path_best t now =
     best_scan (\<lambda>i. best_eligible (pt_p t ! i)) (\<lambda>i b. path_cmp (pt_p t ! i) (pt_p t ! b) now < 0)
       None [0..<length (pt_p t)]"

text \<open>The table \<open>path_select\<close> ranks: every probe past its deadline is scored first.\<close>

definition slot_expire :: "u64 \<Rightarrow> path \<Rightarrow> path" where
  "slot_expire now p = (if pa_used p then path_probe_expire p now else p)"

definition table_expired :: "path_table \<Rightarrow> u64 \<Rightarrow> path_table" where
  "table_expired t now = t\<lparr>pt_p := map (slot_expire now) (pt_p t)\<rparr>"

definition path_select :: "path_table \<Rightarrow> u64 \<Rightarrow> nat option \<times> path_table" where
  "path_select t now =
     (let t = table_expired t now
      in case path_best t now of
           None \<Rightarrow> (None, t\<lparr>pt_sel := None\<rparr>)
         | Some best \<Rightarrow>
             (let move = (case pt_sel t of
                            None \<Rightarrow> True
                          | Some s \<Rightarrow> \<not> pa_used (pt_p t ! s) \<or> \<not> pa_usable (pt_p t ! s) \<or>
                              path_warmth_of (pt_p t ! best) now < path_warmth_of (pt_p t ! s) now);
                  t = (if move then t\<lparr>pt_sel := Some best\<rparr> else t)
              in (pt_sel t, t)))"

definition challenger_eligible :: "path_table \<Rightarrow> nat \<Rightarrow> nat \<Rightarrow> u64 \<Rightarrow> bool" where
  "challenger_eligible t i sel now =
     (let p = pt_p t ! i
      in if i = sel \<or> \<not> pa_used p \<or> \<not> pa_usable p then False
         else if fully_lost p then False
         else if path_warmth_of p now \<noteq> path_warmth_of (pt_p t ! sel) now then False
         else path_base_srtt_ms p > 0)"

definition path_challenger :: "path_table \<Rightarrow> u64 \<Rightarrow> nat option" where
  "path_challenger t now =
     (case pt_sel t of
        None \<Rightarrow> None
      | Some sel \<Rightarrow>
          if \<not> pa_used (pt_p t ! sel) then None
          else best_scan
                 (\<lambda>i. challenger_eligible t i sel now \<and>
                      path_base_bucket (pt_p t ! i) < path_base_bucket (pt_p t ! sel) \<and>
                      path_bucket (pt_p t ! i) < path_bucket (pt_p t ! sel))
                 (\<lambda>i b. path_cmp (pt_p t ! i) (pt_p t ! b) now < 0) None [0..<length (pt_p t)])"

section \<open>Both orders are rankings\<close>

interpretation victim: ranking "\<lambda>i w. worse now (pt_p t ! i) (pt_p t ! w)" "\<lambda>_. True" for t now
  by unfold_locales (auto simp: worse_def)

text \<open>The order of \<open>path_cmp\<close>, on paths whose id has its eight bytes.\<close>

lemma path_cmp_swap: "path_cmp b a now = - path_cmp a b now"
  using memcmp_swap [of "pa_id b" "pa_id a"]
  by (auto simp: path_cmp_def Let_def)

lemma path_cmp_trans:
  assumes "length (pa_id a) = PATH_ID_LEN" "length (pa_id b) = PATH_ID_LEN"
    "length (pa_id c) = PATH_ID_LEN" "path_cmp a b now \<le> 0" "path_cmp b c now \<le> 0"
  shows "path_cmp a c now \<le> 0"
  using assms memcmp_trans [of "pa_id a" "pa_id b" "pa_id c"]
  by (auto simp: path_cmp_def Let_def split: if_splits)

interpretation rank: ranking "\<lambda>i b. path_cmp (pt_p t ! i) (pt_p t ! b) now < 0"
  "\<lambda>i. length (pa_id (pt_p t ! i)) = PATH_ID_LEN" for t now
proof unfold_locales
  fix a b c
  show "\<not> path_cmp (pt_p t ! b) (pt_p t ! a) now < 0"
    if "path_cmp (pt_p t ! a) (pt_p t ! b) now < 0"
    using that path_cmp_swap [of "pt_p t ! b" "pt_p t ! a" now] by simp
  show "\<not> path_cmp (pt_p t ! a) (pt_p t ! c) now < 0"
    if "length (pa_id (pt_p t ! a)) = PATH_ID_LEN" "length (pa_id (pt_p t ! b)) = PATH_ID_LEN"
      "length (pa_id (pt_p t ! c)) = PATH_ID_LEN"
      "\<not> path_cmp (pt_p t ! a) (pt_p t ! b) now < 0" "\<not> path_cmp (pt_p t ! b) (pt_p t ! c) now < 0"
    using path_cmp_trans [of "pt_p t ! c" "pt_p t ! b" "pt_p t ! a" now] that
      path_cmp_swap [of "pt_p t ! b" "pt_p t ! a" now] path_cmp_swap [of "pt_p t ! c" "pt_p t ! b" now]
      path_cmp_swap [of "pt_p t ! c" "pt_p t ! a" now] by simp
qed

section \<open>The table's invariant\<close>

text \<open>Two paths name the same thing: the same agent, or without one the same kind and endpoint.\<close>

definition same_path :: "path \<Rightarrow> path \<Rightarrow> bool" where
  "same_path p q \<longleftrightarrow>
     (if pa_agent p = None \<and> pa_agent q = None then pa_kind p = pa_kind q \<and> pa_peer_ep p = pa_peer_ep q
      else pa_agent p = pa_agent q)"

definition slots_distinct :: "path list \<Rightarrow> bool" where
  "slots_distinct ps \<longleftrightarrow>
     (\<forall>i < length ps. \<forall>j < length ps. i \<noteq> j \<longrightarrow> pa_used (ps ! i) \<longrightarrow> pa_used (ps ! j) \<longrightarrow>
        \<not> same_path (ps ! i) (ps ! j))"

lemma same_path_sym: "same_path p q = same_path q p"
  by (auto simp: same_path_def)

lemma path_zero_used [simp]: "\<not> pa_used path_zero"
  by (simp add: path_zero_def)

definition table_ok :: "int \<Rightarrow> path_table \<Rightarrow> bool" where
  "table_ok R t \<longleftrightarrow>
     length (pt_p t) = PATH_TABLE_MAX \<and> (\<forall>p \<in> set (pt_p t). path_ok R p) \<and>
     (\<forall>i. pt_sel t = Some i \<longrightarrow> i < PATH_TABLE_MAX \<and> pa_used (pt_p t ! i)) \<and>
     slots_distinct (pt_p t)"

lemma table_okD:
  assumes "table_ok R t" "i < length (pt_p t)"
  shows "path_ok R (pt_p t ! i)" "length (pa_id (pt_p t ! i)) = PATH_ID_LEN"
  using assms by (auto simp: table_ok_def path_ok_def)

lemma path_new_fields [simp]:
  "pa_used (path_new ntop kind remote agent ep now)"
  "pa_kind (path_new ntop kind remote agent ep now) = kind"
  "pa_agent (path_new ntop kind remote agent ep now) = agent"
  "pa_peer_ep (path_new ntop kind remote agent ep now) = ep"
  by (simp_all add: path_new_def Let_def split: option.split)

lemma path_new_ok: "0 \<le> R \<Longrightarrow> path_ok R (path_new ntop kind remote agent ep now)"
  using path_ok_zero [of R] by (simp add: path_new_def Let_def path_ok_def split: option.split)

text \<open>The victim is never the path in use, and when a path is evicted it is a worst one.\<close>

lemma path_table_evict_SomeD:
  assumes e: "path_table_evict t now = Some i" and len: "length (pt_p t) = PATH_TABLE_MAX"
  shows "i < length (pt_p t)" "\<not> pa_used (pt_p t ! i) \<or> Some i \<noteq> pt_sel t"
    "pa_used (pt_p t ! i) \<Longrightarrow> j < length (pt_p t) \<Longrightarrow> Some j \<noteq> pt_sel t \<Longrightarrow>
       path_warmth_of (pt_p t ! j) now \<le> path_warmth_of (pt_p t ! i) now"
    "pa_used (pt_p t ! i) \<Longrightarrow> \<forall>p \<in> set (pt_p t). pa_used p"
proof -
  have "i < length (pt_p t) \<and> (\<not> pa_used (pt_p t ! i) \<or> Some i \<noteq> pt_sel t) \<and>
    (pa_used (pt_p t ! i) \<longrightarrow> (\<forall>j < length (pt_p t). Some j \<noteq> pt_sel t \<longrightarrow>
       path_warmth_of (pt_p t ! j) now \<le> path_warmth_of (pt_p t ! i) now)) \<and>
    (pa_used (pt_p t ! i) \<longrightarrow> (\<forall>p \<in> set (pt_p t). pa_used p))"
  proof (cases "find_index (\<lambda>p. \<not> pa_used p) (pt_p t)")
    case None
    then have b: "best_scan (\<lambda>i. Some i \<noteq> pt_sel t) (\<lambda>i w. worse now (pt_p t ! i) (pt_p t ! w)) None
        [0..<length (pt_p t)] = Some i"
      using e by (simp add: path_table_evict_def del: find_index_None)
    have "i \<in> set [0..<length (pt_p t)] \<and> Some i \<noteq> pt_sel t \<and> (\<forall>j \<in> set [0..<length (pt_p t)].
        Some j \<noteq> pt_sel t \<longrightarrow> \<not> worse now (pt_p t ! j) (pt_p t ! i))"
      by (rule victim.best_scan_least [OF _ b]) simp
    then show ?thesis using None by (auto simp: worse_def not_less)
  next
    case (Some k)
    then show ?thesis using e find_index_SomeD [OF Some] by (auto simp: path_table_evict_def)
  qed
  then show "i < length (pt_p t)" "\<not> pa_used (pt_p t ! i) \<or> Some i \<noteq> pt_sel t"
    "pa_used (pt_p t ! i) \<Longrightarrow> j < length (pt_p t) \<Longrightarrow> Some j \<noteq> pt_sel t \<Longrightarrow>
       path_warmth_of (pt_p t ! j) now \<le> path_warmth_of (pt_p t ! i) now"
    "pa_used (pt_p t ! i) \<Longrightarrow> \<forall>p \<in> set (pt_p t). pa_used p"
    by auto
qed

text \<open>The three outcomes of an addition.\<close>

lemma path_table_add_cases:
  fixes remote :: "sockaddr_in6 option"
  defines "ep \<equiv> (case remote of None \<Rightarrow> ep_zero
                   | Some r \<Rightarrow> \<lparr>pe_addr = sin6_addr r, pe_port = sin6_port r\<rparr>)"
  assumes len: "length (pt_p t) = PATH_TABLE_MAX"
  obtains (found) i where "path_table_add ntop t kind remote agent now = (Some i, t)"
      "i < length (pt_p t)" "pa_used (pt_p t ! i)"
      "if agent = None then pa_kind (pt_p t ! i) = kind \<and> pa_peer_ep (pt_p t ! i) = ep
       else pa_agent (pt_p t ! i) = agent"
  | (full) "path_table_add ntop t kind remote agent now = (None, t)" "path_table_evict t now = None"
  | (new) i where
      "path_table_add ntop t kind remote agent now =
         (Some i, t\<lparr>pt_p := (pt_p t)[i := path_new ntop kind remote agent ep now]\<rparr>)"
      "path_table_evict t now = Some i"
      "\<forall>p \<in> set (pt_p t). pa_used p \<longrightarrow>
         (if agent = None then pa_kind p \<noteq> kind \<or> pa_peer_ep p \<noteq> ep else pa_agent p \<noteq> agent)"
proof -
  let ?find = "if agent \<noteq> None then path_table_find_agent t agent else path_table_find t kind ep"
  have ep: "(case remote of None \<Rightarrow> Some ep_zero | Some r \<Rightarrow> path_ep_from_sockaddr (AF_INET6 r) 28) = Some ep"
    by (simp add: ep_def path_ep_from_sockaddr_def split: option.split)
  have add: "path_table_add ntop t kind remote agent now =
     (case ?find of Some i \<Rightarrow> (Some i, t)
      | None \<Rightarrow> (case path_table_evict t now of None \<Rightarrow> (None, t)
                | Some slot \<Rightarrow>
                    (Some slot, t\<lparr>pt_p := (pt_p t)[slot := path_new ntop kind remote agent ep now]\<rparr>)))"
    by (simp add: path_table_add_def ep)
  show thesis
  proof (cases ?find)
    case (Some i)
    have "i < length (pt_p t) \<and> pa_used (pt_p t ! i) \<and>
      (if agent = None then pa_kind (pt_p t ! i) = kind \<and> pa_peer_ep (pt_p t ! i) = ep
       else pa_agent (pt_p t ! i) = agent)"
      using Some by (auto simp: path_table_find_agent_def path_table_find_def
          dest: find_index_SomeD split: if_splits)
    then show thesis using found [of i] add Some by simp
  next
    case None
    then have none: "\<forall>p \<in> set (pt_p t). pa_used p \<longrightarrow>
         (if agent = None then pa_kind p \<noteq> kind \<or> pa_peer_ep p \<noteq> ep else pa_agent p \<noteq> agent)"
      by (auto simp: path_table_find_agent_def path_table_find_def split: if_splits)
    show thesis
    proof (cases "path_table_evict t now")
      case None
      then show thesis using full add \<open>?find = None\<close> by simp
    next
      case (Some i)
      then show thesis using new [of i] none add \<open>?find = None\<close> by simp
    qed
  qed
qed

lemma slots_distinct_upd:
  assumes "slots_distinct ps" "i < length ps"
    and "\<forall>j < length ps. j \<noteq> i \<longrightarrow> pa_used (ps ! j) \<longrightarrow> \<not> same_path p (ps ! j)"
  shows "slots_distinct (ps[i := p])"
  using assms same_path_sym unfolding slots_distinct_def
  by (auto simp: nth_list_update)

lemma table_ok_add:
  assumes ok: "table_ok R t" and R: "0 \<le> R"
  shows "table_ok R (snd (path_table_add ntop t kind remote agent now))"
proof -
  have len: "length (pt_p t) = PATH_TABLE_MAX" using ok by (simp add: table_ok_def)
  show ?thesis
  proof (rule path_table_add_cases [OF len, where ntop = ntop and kind = kind and remote = remote
        and agent = agent and now = now])
    fix i
    let ?ep = "case remote of None \<Rightarrow> ep_zero
                | Some r \<Rightarrow> \<lparr>pe_addr = sin6_addr r, pe_port = sin6_port r\<rparr>"
    let ?p = "path_new ntop kind remote agent ?ep now"
    assume add: "path_table_add ntop t kind remote agent now = (Some i, t\<lparr>pt_p := (pt_p t)[i := ?p]\<rparr>)"
      and ev: "path_table_evict t now = Some i"
      and none: "\<forall>p \<in> set (pt_p t). pa_used p \<longrightarrow>
         (if agent = None then pa_kind p \<noteq> kind \<or> pa_peer_ep p \<noteq> ?ep else pa_agent p \<noteq> agent)"
    have i: "i < length (pt_p t)" by (rule path_table_evict_SomeD(1) [OF ev len])
    have "slots_distinct ((pt_p t)[i := ?p])"
    proof (rule slots_distinct_upd [OF _ i])
      show "slots_distinct (pt_p t)" using ok by (simp add: table_ok_def)
      show "\<forall>j < length (pt_p t). j \<noteq> i \<longrightarrow> pa_used (pt_p t ! j) \<longrightarrow> \<not> same_path ?p (pt_p t ! j)"
        using none by (auto simp: same_path_def split: if_splits)
    qed
    moreover have "\<forall>p \<in> set ((pt_p t)[i := ?p]). path_ok R p"
      using ok path_new_ok [OF R] set_update_subset_insert [of "pt_p t" i ?p]
      by (auto simp: table_ok_def)
    ultimately show ?thesis
      using ok i by (auto simp: add table_ok_def nth_list_update)
  qed (use ok in auto)
qed

lemma table_ok_offer:
  assumes "table_ok R t" "0 \<le> R"
  shows "table_ok R (snd (path_table_offer ntop t kind remote now))"
  using assms table_ok_add [OF assms]
  by (auto simp: path_table_offer_def split: option.split)

lemma table_ok_init: "0 \<le> R \<Longrightarrow> table_ok R path_table_init"
  by (auto simp: table_ok_def path_table_init_def path_ok_zero slots_distinct_def)

lemma table_ok_map:
  assumes ok: "table_ok R t" and f: "\<And>p. path_ok R p \<Longrightarrow> path_ok R (f p)"
    and same: "\<And>p. pa_used (f p) \<Longrightarrow> pa_used p \<and> pa_kind (f p) = pa_kind p \<and>
      pa_agent (f p) = pa_agent p \<and> pa_peer_ep (f p) = pa_peer_ep p"
    and sel: "\<forall>i. sel = Some i \<longrightarrow> pt_sel t = Some i \<and> pa_used (f (pt_p t ! i))"
  shows "table_ok R (t\<lparr>pt_p := map f (pt_p t), pt_sel := sel\<rparr>)"
proof -
  have "\<not> same_path (f p) (f q)" if "pa_used (f p)" "pa_used (f q)" "\<not> same_path p q" for p q
    using that same [of p] same [of q] unfolding same_path_def by metis
  then have "slots_distinct (map f (pt_p t))"
    using ok same unfolding table_ok_def slots_distinct_def by simp
  then show ?thesis using ok f sel by (auto simp: table_ok_def)
qed

lemma table_ok_drop:
  assumes "table_ok R t" "0 \<le> R"
  shows "table_ok R (table_drop gone t)"
  unfolding table_drop_def
  by (rule table_ok_map [OF assms(1)])
    (use assms path_ok_zero in \<open>auto simp: table_ok_def split: option.splits if_splits\<close>)

lemma path_reset_fields [simp]:
  "pa_used (path_reset now p) = pa_used p" "pa_kind (path_reset now p) = pa_kind p"
  "pa_agent (path_reset now p) = pa_agent p" "pa_peer_ep (path_reset now p) = pa_peer_ep p"
  by (simp_all add: path_reset_def)

lemma path_reset_ok: "path_ok R p \<Longrightarrow> 0 \<le> R \<Longrightarrow> path_ok R (path_reset now p)"
  by (simp add: path_ok_def path_reset_def PATH_LOSS_WINDOW_def PATH_PEER_SRTT_MAX_def)

lemma table_ok_reset:
  assumes "table_ok R t" "0 \<le> R"
  shows "table_ok R (path_table_reset_stats t now)"
  using table_ok_map [OF assms(1), of "path_reset now" "pt_sel t"] assms path_reset_ok
  by (simp add: path_table_reset_stats_def table_ok_def)

lemma path_probe_expire_fields [simp]:
  "pa_used (path_probe_expire p now) = pa_used p" "pa_kind (path_probe_expire p now) = pa_kind p"
  "pa_agent (path_probe_expire p now) = pa_agent p"
  "pa_peer_ep (path_probe_expire p now) = pa_peer_ep p"
  "pa_usable (path_probe_expire p now) = pa_usable p"
  by (simp_all add: path_probe_expire_def loss_record_def Let_def)

lemma slot_expire_fields [simp]:
  "pa_used (slot_expire now p) = pa_used p" "pa_kind (slot_expire now p) = pa_kind p"
  "pa_agent (slot_expire now p) = pa_agent p" "pa_peer_ep (slot_expire now p) = pa_peer_ep p"
  "pa_usable (slot_expire now p) = pa_usable p"
  by (simp_all add: slot_expire_def)

lemma slot_expire_ok: "path_ok R p \<Longrightarrow> path_ok R (slot_expire now p)"
  by (simp add: slot_expire_def path_ok_expire)

lemma table_ok_expired:
  assumes "table_ok R t"
  shows "table_ok R (table_expired t now)"
  using table_ok_map [OF assms, of "slot_expire now" "pt_sel t"] assms slot_expire_ok
  by (simp add: table_expired_def table_ok_def)

lemma table_expired_sel [simp]: "pt_sel (table_expired t now) = pt_sel t"
  by (simp add: table_expired_def)

lemma path_best_spec:
  assumes ok: "table_ok R t"
  shows "path_best t now = Some b \<Longrightarrow>
      b < length (pt_p t) \<and> best_eligible (pt_p t ! b) \<and>
      (\<forall>j < length (pt_p t). best_eligible (pt_p t ! j) \<longrightarrow> path_cmp (pt_p t ! b) (pt_p t ! j) now \<le> 0)"
    "path_best t now = None \<longleftrightarrow> (\<forall>p \<in> set (pt_p t). \<not> best_eligible p)"
proof -
  have ids: "\<forall>i \<in> set [0..<length (pt_p t)]. length (pa_id (pt_p t ! i)) = PATH_ID_LEN"
    using table_okD(2) [OF ok] by auto
  show "b < length (pt_p t) \<and> best_eligible (pt_p t ! b) \<and>
      (\<forall>j < length (pt_p t). best_eligible (pt_p t ! j) \<longrightarrow> path_cmp (pt_p t ! b) (pt_p t ! j) now \<le> 0)"
    if "path_best t now = Some b"
    using rank.best_scan_least [OF ids that [unfolded path_best_def]]
      path_cmp_swap [of "pt_p t ! b" _ now] by force
  show "path_best t now = None \<longleftrightarrow> (\<forall>p \<in> set (pt_p t). \<not> best_eligible p)"
    unfolding path_best_def rank.best_scan_None by (force simp: in_set_conv_nth)
qed

text \<open>What a selection does, on the table with the overdue probes scored.\<close>

lemma path_select_spec:
  assumes ok: "table_ok R t" and sel: "path_select t now = (r, t')"
  defines "u \<equiv> table_expired t now"
  shows "r = None \<Longrightarrow> t' = u\<lparr>pt_sel := None\<rparr> \<and> (\<forall>p \<in> set (pt_p u). \<not> best_eligible p)"
    and "r = Some s \<Longrightarrow> t' = u\<lparr>pt_sel := Some s\<rparr> \<and> s < length (pt_p u) \<and> pa_used (pt_p u ! s) \<and>
      pa_usable (pt_p u ! s) \<and>
      (\<forall>j < length (pt_p u). best_eligible (pt_p u ! j) \<longrightarrow>
         path_warmth_of (pt_p u ! s) now \<le> path_warmth_of (pt_p u ! j) now) \<and>
      (pt_sel t = Some s \<or> best_eligible (pt_p u ! s) \<and>
         (\<forall>j < length (pt_p u). best_eligible (pt_p u ! j) \<longrightarrow> path_cmp (pt_p u ! s) (pt_p u ! j) now \<le> 0))"
    and "pt_sel t = Some i \<Longrightarrow> pa_usable (pt_p t ! i) \<Longrightarrow> r \<noteq> None \<Longrightarrow>
      (\<forall>j < length (pt_p u). best_eligible (pt_p u ! j) \<longrightarrow>
         path_warmth_of (pt_p u ! i) now \<le> path_warmth_of (pt_p u ! j) now) \<Longrightarrow> r = Some i"
proof -
  have oku: "table_ok R u" unfolding u_def by (rule table_ok_expired [OF ok])
  have selu: "pt_sel u = pt_sel t" by (simp add: u_def)
  have len: "length (pt_p u) = PATH_TABLE_MAX" "length (pt_p t) = PATH_TABLE_MAX"
    using oku ok by (simp_all add: table_ok_def)
  note best = path_best_spec [OF oku, of now]
  show "r = None \<Longrightarrow> t' = u\<lparr>pt_sel := None\<rparr> \<and> (\<forall>p \<in> set (pt_p u). \<not> best_eligible p)"
    using sel best(2) by (auto simp: path_select_def Let_def u_def [symmetric] split: option.splits if_splits)
  have warm: "path_warmth_of (pt_p u ! b) now \<le> path_warmth_of (pt_p u ! j) now"
    if "path_cmp (pt_p u ! b) (pt_p u ! j) now \<le> 0" for b j
    using that by (auto simp: path_cmp_def Let_def split: if_splits)
  have used: "pt_sel t = Some i \<Longrightarrow> i < length (pt_p u) \<and> pa_used (pt_p u ! i) \<and>
      pa_usable (pt_p u ! i) = pa_usable (pt_p t ! i)" for i
    using oku selu len by (auto simp: table_ok_def u_def table_expired_def)
  show "r = Some s \<Longrightarrow> t' = u\<lparr>pt_sel := Some s\<rparr> \<and> s < length (pt_p u) \<and> pa_used (pt_p u ! s) \<and>
      pa_usable (pt_p u ! s) \<and>
      (\<forall>j < length (pt_p u). best_eligible (pt_p u ! j) \<longrightarrow>
         path_warmth_of (pt_p u ! s) now \<le> path_warmth_of (pt_p u ! j) now) \<and>
      (pt_sel t = Some s \<or> best_eligible (pt_p u ! s) \<and>
         (\<forall>j < length (pt_p u). best_eligible (pt_p u ! j) \<longrightarrow> path_cmp (pt_p u ! s) (pt_p u ! j) now \<le> 0))"
  proof -
    assume r: "r = Some s"
    obtain b where b: "path_best u now = Some b"
      using sel r by (auto simp: path_select_def Let_def u_def [symmetric] split: option.splits)
    note bb = best(1) [OF b]
    show ?thesis
    proof (cases "pt_sel t = Some s \<and> pa_usable (pt_p u ! s) \<and>
        \<not> path_warmth_of (pt_p u ! b) now < path_warmth_of (pt_p u ! s) now")
      case True
      have "path_warmth_of (pt_p u ! s) now \<le> path_warmth_of (pt_p u ! j) now"
        if "j < length (pt_p u)" "best_eligible (pt_p u ! j)" for j
        using True bb warm [of b j] that by auto
      moreover have "t' = u\<lparr>pt_sel := Some s\<rparr>"
        using True sel b r selu used [of s]
        by (auto simp: path_select_def Let_def u_def [symmetric] split: if_splits)
      ultimately show ?thesis using True used [of s] by blast
    next
      case False
      have "s = b \<and> t' = u\<lparr>pt_sel := Some s\<rparr>"
        using False sel b r selu
        by (auto simp: path_select_def Let_def u_def [symmetric] split: option.splits if_splits)
      moreover have "pa_used (pt_p u ! b)" "pa_usable (pt_p u ! b)"
        using bb by (auto simp: best_eligible_def split: if_splits)
      ultimately show ?thesis using bb warm by blast
    qed
  qed
  show "r = Some i" if h: "pt_sel t = Some i" "pa_usable (pt_p t ! i)" "r \<noteq> None"
    "\<forall>j < length (pt_p u). best_eligible (pt_p u ! j) \<longrightarrow>
         path_warmth_of (pt_p u ! i) now \<le> path_warmth_of (pt_p u ! j) now"
  proof -
    obtain b where b: "path_best u now = Some b"
      using sel h(3) by (auto simp: path_select_def Let_def u_def [symmetric] split: option.splits)
    have "path_warmth_of (pt_p u ! i) now \<le> path_warmth_of (pt_p u ! b) now"
      using best(1) [OF b] h(4) by blast
    then show ?thesis
      using sel b h(1,2) used [of i] selu
      by (auto simp: path_select_def Let_def u_def [symmetric] split: if_splits)
  qed
qed

lemma table_ok_select:
  assumes ok: "table_ok R t"
  shows "table_ok R (snd (path_select t now))"
proof -
  obtain r t' where s: "path_select t now = (r, t')" by fastforce
  have oku: "table_ok R (table_expired t now)" by (rule table_ok_expired [OF ok])
  show ?thesis
    using path_select_spec(1,2) [OF ok s] oku s
    by (cases r) (auto simp: table_ok_def)
qed

section \<open>The table's operations in any order\<close>

text \<open>What an operation on one path keeps of its name.\<close>

lemma path_step_keeps:
  "path_step R p q \<Longrightarrow> pa_used q = pa_used p \<and> pa_kind q = pa_kind p \<and> pa_agent q = pa_agent p"
  by (erule path_step.cases)
    (auto simp: path_probe_sent_def path_probe_expire_def path_probe_pong_def path_peer_view_def
      path_apply_tail_def path_set_self_ep_def path_set_peer_ep_def path_saw_inbound_def
      path_id_refresh_def rtt_record_def loss_record_def Let_def)

inductive path_table_step :: "int \<Rightarrow> path_table \<Rightarrow> path_table \<Rightarrow> bool" for R where
  add: "path_table_step R t (snd (path_table_add ntop t kind remote agent now))"
| offer: "path_table_step R t (snd (path_table_offer ntop t kind remote now))"
| clear: "path_table_step R t (path_table_clear t)"
| drop_agent: "path_table_step R t (path_table_drop_agent t agent)"
| drop_kind: "path_table_step R t (path_table_drop_kind t kind)"
| reset: "path_table_step R t (path_table_reset_stats t now)"
| select: "path_table_step R t (snd (path_select t now))"
| measured: "i < length (pt_p t) \<Longrightarrow> pa_used (pt_p t ! i) \<Longrightarrow> path_step R (pt_p t ! i) p \<Longrightarrow>
    pa_agent p \<noteq> None \<or> pa_peer_ep p = pa_peer_ep (pt_p t ! i) \<Longrightarrow>
    path_table_step R t (t\<lparr>pt_p := (pt_p t)[i := p]\<rparr>)"

definition path_table_starts :: "int \<Rightarrow> path_table \<Rightarrow> bool" where
  "path_table_starts R t \<longleftrightarrow> 0 \<le> R \<and> t = path_table_init"

lemma table_ok_measured:
  assumes ok: "table_ok R t" and i: "i < length (pt_p t)" and st: "path_step R (pt_p t ! i) p"
    and name: "pa_agent p \<noteq> None \<or> pa_peer_ep p = pa_peer_ep (pt_p t ! i)"
    and used: "pa_used (pt_p t ! i)"
  shows "table_ok R (t\<lparr>pt_p := (pt_p t)[i := p]\<rparr>)"
proof -
  note keeps = path_step_keeps [OF st]
  have "path_ok R p" using path.inv_step [OF table_okD(1) [OF ok i] st] .
  then have "\<forall>q \<in> set ((pt_p t)[i := p]). path_ok R q"
    using ok set_update_subset_insert [of "pt_p t" i p] by (auto simp: table_ok_def)
  moreover have "slots_distinct ((pt_p t)[i := p])"
  proof (rule slots_distinct_upd [OF _ i])
    show d: "slots_distinct (pt_p t)" using ok by (simp add: table_ok_def)
    show "\<forall>j < length (pt_p t). j \<noteq> i \<longrightarrow> pa_used (pt_p t ! j) \<longrightarrow> \<not> same_path p (pt_p t ! j)"
    proof (intro allI impI)
      fix j
      assume j: "j < length (pt_p t)" "j \<noteq> i" "pa_used (pt_p t ! j)"
      then have "\<not> same_path (pt_p t ! i) (pt_p t ! j)"
        using d i used unfolding slots_distinct_def by blast
      then show "\<not> same_path p (pt_p t ! j)"
        using name keeps by (auto simp: same_path_def split: if_splits)
    qed
  qed
  ultimately show ?thesis using ok keeps i by (auto simp: table_ok_def nth_list_update)
qed

interpretation path_table: invariant_system "path_table_starts R" "path_table_step R"
  "\<lambda>t. 0 \<le> R \<and> table_ok R t" for R
proof unfold_locales
  show "0 \<le> R \<and> table_ok R t" if "path_table_starts R t" for t
    using that table_ok_init by (auto simp: path_table_starts_def)
  show "0 \<le> R \<and> table_ok R u" if "0 \<le> R \<and> table_ok R t" "path_table_step R t u" for t u
    using that(2,1)
  proof cases
    case (measured i p)
    then show ?thesis using that table_ok_measured by blast
  qed (use that in \<open>auto simp: table_ok_add table_ok_offer path_table_clear_def table_ok_init
      path_table_drop_agent_def path_table_drop_kind_def table_ok_drop table_ok_reset table_ok_select\<close>)
qed

section \<open>Properties\<close>

text \<open>A table with two paths, for the witnesses.\<close>

abbreviation nowhere :: "bool \<Rightarrow> byte list \<Rightarrow> string option" where
  "nowhere \<equiv> (\<lambda>_ _. None)"

definition addr_a :: sockaddr_in6 where
  "addr_a = \<lparr>sin6_addr = replicate 16 1, sin6_port = 4000, sin6_scope_id = 0\<rparr>"

definition table1 :: path_table where
  "table1 = snd (path_table_add nowhere path_table_init PATH_ROUTED (Some addr_a) None 10)"

lemma table1_reachable: "reachable (path_table_starts 100) (path_table_step 100) table1"
proof -
  have st: "path_table_starts 100 path_table_init" by (simp add: path_table_starts_def)
  show ?thesis
    unfolding table1_def by (rule next_state, rule start, rule st, rule path_table_step.add)
qed

text \<open>C29. In every state of the path table the selection, if there is one, names a slot in use,
  and no two slots in use name the same path: the same agent, or without one the same kind and
  remote endpoint.\<close>

theorem path_table_consistent:
  assumes "reachable (path_table_starts R) (path_table_step R) t"
  shows "length (pt_p t) = PATH_TABLE_MAX \<and>
    (\<forall>i. pt_sel t = Some i \<longrightarrow> i < PATH_TABLE_MAX \<and> pa_used (pt_p t ! i)) \<and>
    (\<forall>i < PATH_TABLE_MAX. \<forall>j < PATH_TABLE_MAX. i \<noteq> j \<longrightarrow> pa_used (pt_p t ! i) \<longrightarrow>
       pa_used (pt_p t ! j) \<longrightarrow> \<not> same_path (pt_p t ! i) (pt_p t ! j))"
  using path_table.reachable_inv [OF assms] unfolding table_ok_def slots_distinct_def by auto

theorem path_table_consistent_witness: "length (pt_p table1) = PATH_TABLE_MAX"
  using path_table_consistent [OF table1_reachable] by simp

text \<open>Adding a path never displaces the one in use: the selection and its slot are untouched,
  as is every other slot but the one the new path takes; the slot returned names the path asked
  for, and when none is returned nothing has changed.\<close>

theorem path_table_add_keeps_carrier:
  assumes reach: "reachable (path_table_starts R) (path_table_step R) t"
    and add: "path_table_add ntop t kind remote agent now = (r, t')"
  shows "pt_sel t' = pt_sel t \<and> (\<forall>s. pt_sel t = Some s \<longrightarrow> pt_p t' ! s = pt_p t ! s) \<and>
    (case r of
       None \<Rightarrow> t' = t
     | Some i \<Rightarrow> i < PATH_TABLE_MAX \<and> pa_used (pt_p t' ! i) \<and>
         (if agent = None then pa_kind (pt_p t' ! i) = kind else pa_agent (pt_p t' ! i) = agent) \<and>
         (\<forall>j. j \<noteq> i \<longrightarrow> pt_p t' ! j = pt_p t ! j))"
proof -
  have ok: "table_ok R t" using path_table.reachable_inv [OF reach] by simp
  have len: "length (pt_p t) = PATH_TABLE_MAX" using ok by (simp add: table_ok_def)
  have carrier: "pa_used (pt_p t ! s)" if "pt_sel t = Some s" for s using ok that by (simp add: table_ok_def)
  show ?thesis
  proof (rule path_table_add_cases [OF len, where ntop = ntop and kind = kind and remote = remote
        and agent = agent and now = now])
    fix i
    assume new: "path_table_add ntop t kind remote agent now = (Some i, t\<lparr>pt_p := (pt_p t)[i :=
        path_new ntop kind remote agent (case remote of None \<Rightarrow> ep_zero
            | Some r \<Rightarrow> \<lparr>pe_addr = sin6_addr r, pe_port = sin6_port r\<rparr>) now]\<rparr>)"
      and ev: "path_table_evict t now = Some i"
    have "pt_sel t \<noteq> Some i" using path_table_evict_SomeD(2) [OF ev len] carrier [of i] by auto
    then show ?thesis using new add path_table_evict_SomeD(1) [OF ev len] len by auto
  qed (use add len in \<open>auto split: if_splits\<close>)
qed

theorem path_table_add_keeps_carrier_witness:
  "pt_sel (snd (path_table_add nowhere table1 PATH_SEGMENT (Some addr_a) None 20)) = pt_sel table1"
  using path_table_add_keeps_carrier [OF table1_reachable prod.collapse [symmetric],
      of nowhere PATH_SEGMENT "Some addr_a" None 20] by blast

text \<open>An endpoint a peer merely advertises never displaces a path that is not dead: whatever
  is offered, every path in use that is not DEAD keeps its slot unchanged, and so does the path
  carrying the session.\<close>

theorem path_table_offer_displaces_only_dead:
  assumes reach: "reachable (path_table_starts R) (path_table_step R) t"
    and offer: "path_table_offer ntop t kind remote now = (r, t')"
    and i: "i < PATH_TABLE_MAX" "pa_used (pt_p t ! i)"
    and alive: "path_warmth_of (pt_p t ! i) now \<noteq> PATH_DEAD \<or> pt_sel t = Some i"
  shows "pt_p t' ! i = pt_p t ! i"
proof -
  have ok: "table_ok R t" using path_table.reachable_inv [OF reach] by simp
  have len: "length (pt_p t) = PATH_TABLE_MAX" using ok by (simp add: table_ok_def)
  consider "t' = t" | x where "remote = Some x" "path_table_spare t now"
      "path_table_add ntop t kind (Some x) None now = (r, t')"
    using offer by (auto simp: path_table_offer_def split: option.splits if_splits)
  then show ?thesis
  proof cases
    case (2 x)
    show ?thesis
    proof (rule path_table_add_cases [OF len, where ntop = ntop and kind = kind and remote = "Some x"
          and agent = None and now = now])
      fix k
      assume new: "path_table_add ntop t kind (Some x) None now = (Some k, t\<lparr>pt_p := (pt_p t)[k :=
          path_new ntop kind (Some x) None (case Some x of None \<Rightarrow> ep_zero
            | Some r \<Rightarrow> \<lparr>pe_addr = sin6_addr r, pe_port = sin6_port r\<rparr>) now]\<rparr>)"
        and ev: "path_table_evict t now = Some k"
      note evd = path_table_evict_SomeD [OF ev len]
      have "k \<noteq> i"
      proof
        assume "k = i"
        then have "pt_sel t \<noteq> Some i" "\<forall>p \<in> set (pt_p t). pa_used p" using evd i by auto
        moreover obtain j where "j < length (pt_p t)" "Some j \<noteq> pt_sel t"
          "path_warmth_of (pt_p t ! j) now = PATH_DEAD"
          using 2(2) calculation(2) by (auto simp: path_table_spare_def split: if_splits)
        ultimately show False using evd(3) [of j] \<open>k = i\<close> i alive by auto
      qed
      then show ?thesis using new 2(3) by auto
    qed (use 2 in auto)
  qed simp
qed

lemma table1_slot0: "pa_used (pt_p table1 ! 0)" "path_warmth_of (pt_p table1 ! 0) 20 = PATH_UNQUALIFIED"
  by code_simp+

theorem path_table_offer_displaces_only_dead_witness:
  "pt_p (snd (path_table_offer nowhere table1 PATH_SEGMENT (Some addr_a) 20)) ! 0 = pt_p table1 ! 0"
  by (rule path_table_offer_displaces_only_dead [OF table1_reachable prod.collapse [symmetric]])
    (use table1_slot0 in \<open>simp_all add: PATH_TABLE_MAX_def\<close>)



text \<open>What the order looks at.\<close>

definition rank_key :: "u64 \<Rightarrow> path \<Rightarrow> path_warmth \<times> int \<times> byte list" where
  "rank_key now p = (path_warmth_of p now, path_bucket p, pa_id p)"

lemma path_cmp_key:
  assumes "rank_key now a = rank_key now' a'" "rank_key now b = rank_key now' b'"
  shows "path_cmp a b now = path_cmp a' b' now'"
  using assms by (auto simp: rank_key_def path_cmp_def Let_def)

lemma path_cmp_antisym:
  assumes "length (pa_id a) = PATH_ID_LEN" "length (pa_id b) = PATH_ID_LEN"
    "path_cmp a b now \<le> 0" "path_cmp b a now \<le> 0"
  shows "rank_key now a = rank_key now b"
  using assms path_cmp_swap [of b a now] memcmp_eq_0 [of "pa_id a" "pa_id b"]
  by (auto simp: rank_key_def path_cmp_def Let_def split: if_splits)

lemma best_key_unique:
  assumes okt: "table_ok R t" and oku: "table_ok R' u"
    and sub: "rank_key now' ` {q \<in> set (pt_p u). best_eligible q} \<subseteq>
      rank_key now ` {p \<in> set (pt_p t). best_eligible p}"
    and bt: "path_best t now = Some i" and bu: "path_best u now' = Some j"
    and back_sub: "rank_key now ` {p \<in> set (pt_p t). best_eligible p} \<subseteq>
      rank_key now' ` {q \<in> set (pt_p u). best_eligible q}"
  shows "rank_key now (pt_p t ! i) = rank_key now' (pt_p u ! j)"
proof -
  note it = path_best_spec(1) [OF okt bt] and ju = path_best_spec(1) [OF oku bu]
  obtain p where p: "p \<in> set (pt_p t)" "best_eligible p" "rank_key now p = rank_key now' (pt_p u ! j)"
    using subsetD [OF sub, of "rank_key now' (pt_p u ! j)"] ju by auto
  obtain q where q: "q \<in> set (pt_p u)" "best_eligible q" "rank_key now' q = rank_key now (pt_p t ! i)"
    using subsetD [OF back_sub, of "rank_key now (pt_p t ! i)"] it by auto
  have ids: "length (pa_id (pt_p t ! i)) = PATH_ID_LEN" "length (pa_id p) = PATH_ID_LEN"
    using it p(1) table_okD(2) [OF okt] by (auto simp: in_set_conv_nth)
  have "path_cmp (pt_p t ! i) p now \<le> 0" using it p by (metis in_set_conv_nth)
  moreover have "path_cmp (pt_p u ! j) q now' \<le> 0" using ju q by (metis in_set_conv_nth)
  then have "path_cmp p (pt_p t ! i) now \<le> 0"
    using path_cmp_key [of now p now' "pt_p u ! j" "pt_p t ! i" q] p q by simp
  ultimately have "rank_key now (pt_p t ! i) = rank_key now p" using path_cmp_antisym ids by blast
  then show ?thesis using p(3) by simp
qed

text \<open>Both ends come to the same choice without either deciding for the other: when the two
  tables hold the same ranks (warmth, cost bucket and id) among the paths that can carry, the best
  path of one end has the rank of the best path of the other, and one end has none exactly when
  the other has none.\<close>

theorem path_best_agreement:
  assumes "reachable (path_table_starts R) (path_table_step R) t"
    and "reachable (path_table_starts R') (path_table_step R') u"
    and same: "rank_key now ` {p \<in> set (pt_p t). best_eligible p} =
               rank_key now' ` {q \<in> set (pt_p u). best_eligible q}"
  shows "map_option (\<lambda>i. rank_key now (pt_p t ! i)) (path_best t now) =
         map_option (\<lambda>j. rank_key now' (pt_p u ! j)) (path_best u now')"
proof -
  have okt: "table_ok R t" and oku: "table_ok R' u"
    using path_table.reachable_inv [OF assms(1)] path_table.reachable_inv [OF assms(2)] by auto
  have none: "path_best t now = None \<longleftrightarrow> path_best u now' = None"
    using path_best_spec(2) [OF okt] path_best_spec(2) [OF oku] same by blast
  show ?thesis
  proof (cases "path_best t now")
    case None
    then show ?thesis using none by simp
  next
    case (Some i)
    then obtain j where "path_best u now' = Some j" using none by auto
    then show ?thesis using best_key_unique [OF okt oku _ Some] same Some by simp
  qed
qed

theorem path_best_agreement_witness:
  "map_option (\<lambda>i. rank_key 20 (pt_p table1 ! i)) (path_best table1 20) =
   map_option (\<lambda>j. rank_key 21 (pt_p table1 ! j)) (path_best table1 21)"
proof (rule path_best_agreement [OF table1_reachable table1_reachable])
  have "\<forall>p \<in> set (pt_p table1). rank_key 20 p = rank_key 21 p" by code_simp
  then show "rank_key 20 ` {p \<in> set (pt_p table1). best_eligible p} =
      rank_key 21 ` {q \<in> set (pt_p table1). best_eligible q}"
    by (intro image_cong) auto
qed

text \<open>Path \<open>i\<close> beats path \<open>s\<close> within its tier on both buckets.\<close>

definition beats :: "path_table \<Rightarrow> nat \<Rightarrow> u64 \<Rightarrow> nat \<Rightarrow> bool" where
  "beats t s now i \<longleftrightarrow> i \<noteq> s \<and> best_eligible (pt_p t ! i) \<and>
      path_warmth_of (pt_p t ! i) now = path_warmth_of (pt_p t ! s) now \<and>
      0 < path_base_srtt_ms (pt_p t ! i) \<and>
      path_base_bucket (pt_p t ! i) < path_base_bucket (pt_p t ! s) \<and>
      path_bucket (pt_p t ! i) < path_bucket (pt_p t ! s)"

text \<open>A challenger really beats the path in use: it is another path that can carry, in the same
  warmth tier, with a measured base round trip, in a strictly lower cost bucket both unloaded and
  loaded; no such path is passed over, and among several it is the least in the order.\<close>

theorem path_challenger_correct:
  assumes reach: "reachable (path_table_starts R) (path_table_step R) t"
    and sel: "pt_sel t = Some s"
  shows "case path_challenger t now of
       None \<Rightarrow> \<forall>i < PATH_TABLE_MAX. \<not> beats t s now i
     | Some c \<Rightarrow> c < PATH_TABLE_MAX \<and> beats t s now c \<and>
         (\<forall>i < PATH_TABLE_MAX. beats t s now i \<longrightarrow> path_cmp (pt_p t ! c) (pt_p t ! i) now \<le> 0)"
proof -
  have ok: "table_ok R t" using path_table.reachable_inv [OF reach] by simp
  have len: "length (pt_p t) = PATH_TABLE_MAX" and used: "pa_used (pt_p t ! s)"
    using ok sel by (simp_all add: table_ok_def)
  have elig: "(challenger_eligible t i s now \<and> path_base_bucket (pt_p t ! i) < path_base_bucket (pt_p t ! s) \<and>
      path_bucket (pt_p t ! i) < path_bucket (pt_p t ! s)) = beats t s now i" for i
    by (auto simp: challenger_eligible_def best_eligible_def beats_def Let_def)
  have c: "path_challenger t now = best_scan (beats t s now)
      (\<lambda>i b. path_cmp (pt_p t ! i) (pt_p t ! b) now < 0) None [0..<PATH_TABLE_MAX]"
    using used by (simp add: path_challenger_def sel elig len)
  have ids: "\<forall>i \<in> set [0..<PATH_TABLE_MAX]. length (pa_id (pt_p t ! i)) = PATH_ID_LEN"
    using table_okD(2) [OF ok] len by auto
  show ?thesis
  proof (cases "path_challenger t now")
    case None
    then show ?thesis using rank.best_scan_None [of "beats t s now" t now "[0..<PATH_TABLE_MAX]"] c by auto
  next
    case (Some d)
    then show ?thesis
      using rank.best_scan_least [OF ids, where elig = "beats t s now" and c = d] c
        path_cmp_swap [of "pt_p t ! d" _ now] by force
  qed
qed

lemma table1_selected:
  "reachable (path_table_starts 100) (path_table_step 100) (snd (path_select table1 20))"
  "pt_sel (snd (path_select table1 20)) = Some 0"
  by (rule next_state, rule table1_reachable, rule path_table_step.select) code_simp

lemma table1_no_challenger: "path_challenger (snd (path_select table1 20)) 20 = None"
  by code_simp

theorem path_challenger_correct_witness: "\<not> beats (snd (path_select table1 20)) 0 20 1"
  using path_challenger_correct [OF table1_selected, of 20] table1_no_challenger
  by (simp add: PATH_TABLE_MAX_def)

end
