(* ===== verification/Path_Adopt.thy ===== *)
theory Path_Adopt
  imports Path_Ep
begin

text \<open>
  The budget for opening probes from unknown sources (the end of path.c): a token bucket per source
  in a ring of eight, and a shared one. Tokens are counted in thousandths. The rate the budget
  promises is proved over any stretch of time and any mix of sources.
\<close>

definition PATH_ADOPT_RATE :: u64 where "PATH_ADOPT_RATE = 8"
definition PATH_ADOPT_DEPTH :: int where "PATH_ADOPT_DEPTH = 8"
definition PATH_ADOPT_SRC_MAX :: nat where "PATH_ADOPT_SRC_MAX = 8"

record path_adopt_src =
  as_addr :: "byte list"
  as_port :: u16
  as_used :: bool
  as_tokens :: int
  as_ms :: u64
  as_seen_ms :: u64

record path_adopt =
  ad_tokens :: int
  ad_ms :: u64
  ad_src :: "path_adopt_src list"

definition adopt_src_zero :: path_adopt_src where
  "adopt_src_zero = \<lparr>as_addr = replicate 16 0, as_port = 0, as_used = False, as_tokens = 0, as_ms = 0,
     as_seen_ms = 0\<rparr>"

definition adopt_zero :: path_adopt where
  "adopt_zero = \<lparr>ad_tokens = 0, ad_ms = 0, ad_src = replicate PATH_ADOPT_SRC_MAX adopt_src_zero\<rparr>"

text \<open>\<open>bucket_take\<close> on the pair of the tokens and the time of the last refill. In the second test
  \<open>gained\<close> is below the capacity, so the cast to \<open>int\<close> is its value.\<close>

definition bucket_take :: "int \<Rightarrow> u64 \<Rightarrow> u64 \<Rightarrow> bool \<times> int \<times> u64" where
  "bucket_take tokens ms now =
     (let cap = PATH_ADOPT_DEPTH * 1000;
          gained = (now - ms) * PATH_ADOPT_RATE;
          ms = now;
          tokens = (if uint gained \<ge> cap \<or> tokens + uint gained \<ge> cap then cap
                    else tokens + uint gained)
      in if tokens < 1000 then (False, tokens, ms) else (True, tokens - 1000, ms))"

text \<open>The search for the source's slot: the first that is this source or free, else the one longest
  unused.\<close>

fun adopt_scan :: "path_adopt_src list \<Rightarrow> path_ep \<Rightarrow> nat \<Rightarrow> nat list \<Rightarrow> nat" where
  "adopt_scan src ep oldest [] = oldest"
| "adopt_scan src ep oldest (i # is) =
     (if as_used (src ! i) \<and> as_port (src ! i) = pe_port ep \<and> as_addr (src ! i) = pe_addr ep then i
      else if \<not> as_used (src ! i) then i
      else adopt_scan src ep
             (if as_seen_ms (src ! i) < as_seen_ms (src ! oldest) then i else oldest) is)"

definition adopt_slot :: "path_adopt_src \<Rightarrow> path_ep \<Rightarrow> u64 \<Rightarrow> path_adopt_src" where
  "adopt_slot s ep now =
     (let s = (if \<not> as_used s \<or> as_port s \<noteq> pe_port ep \<or> as_addr s \<noteq> pe_addr ep
               then adopt_src_zero\<lparr>as_addr := pe_addr ep, as_port := pe_port ep, as_used := True,
                      as_tokens := PATH_ADOPT_DEPTH * 1000, as_ms := now\<rparr>
               else s)
      in s\<lparr>as_seen_ms := now\<rparr>)"

definition path_adopt_allow :: "path_adopt \<Rightarrow> path_ep \<Rightarrow> u64 \<Rightarrow> bool \<times> path_adopt" where
  "path_adopt_allow a ep now =
     (let i = adopt_scan (ad_src a) ep 0 [0..<PATH_ADOPT_SRC_MAX];
          s = adopt_slot (ad_src a ! i) ep now
      in case bucket_take (as_tokens s) (as_ms s) now of
           (paid, tokens, ms) \<Rightarrow>
             (let a = a\<lparr>ad_src := (ad_src a)[i := s\<lparr>as_tokens := tokens, as_ms := ms\<rparr>]\<rparr>
              in if \<not> paid then (False, a)
                 else case bucket_take (ad_tokens a) (ad_ms a) now of
                        (ok, tokens, ms) \<Rightarrow> (ok, a\<lparr>ad_tokens := tokens, ad_ms := ms\<rparr>)))"

section \<open>What a bucket grants\<close>

lemma bucket_take_spec:
  assumes "0 \<le> tokens" "ms \<le> now" "bucket_take tokens ms now = (ok, tokens', ms')"
  shows "ms' = now" "0 \<le> tokens'" "tokens' + 1000 * of_bool ok \<le> 8000"
    "tokens' + 1000 * of_bool ok \<le> tokens + 8 * (uint now - uint ms)"
proof -
  define gained where "gained = uint ((now - ms) * PATH_ADOPT_RATE)"
  have "uint (x * PATH_ADOPT_RATE) \<le> uint x * 8" for x
    by (simp add: uint_word_ariths PATH_ADOPT_RATE_def zmod_le_nonneg_dividend)
  moreover have "uint (now - ms) = uint now - uint ms"
    using assms(2) by (simp add: uint_minus_simple_alt)
  ultimately have g: "gained \<le> 8 * (uint now - uint ms)" "0 \<le> gained"
    unfolding gained_def by (metis mult.commute, simp)
  define t where "t = (if 8000 \<le> gained \<or> 8000 \<le> tokens + gained then 8000 else tokens + gained)"
  have bt: "bucket_take tokens ms now = (if t < 1000 then (False, t, now) else (True, t - 1000, now))"
    by (simp add: bucket_take_def Let_def gained_def t_def PATH_ADOPT_DEPTH_def)
  have "0 \<le> t" "t \<le> 8000" "t \<le> tokens + gained" using assms(1) g by (auto simp: t_def)
  with g have "0 \<le> t" "t \<le> 8000" "t \<le> tokens + 8 * (uint now - uint ms)" by auto
  then show "ms' = now" "0 \<le> tokens'" "tokens' + 1000 * of_bool ok \<le> 8000"
    "tokens' + 1000 * of_bool ok \<le> tokens + 8 * (uint now - uint ms)"
    using bt [unfolded assms(3)] by (auto split: if_splits)
qed

text \<open>The answers to a stream of requests, and the state they leave.\<close>

fun adopt_run :: "path_adopt \<Rightarrow> (path_ep \<times> u64) list \<Rightarrow> nat \<times> path_adopt" where
  "adopt_run a [] = (0, a)"
| "adopt_run a ((ep, now) # calls) =
     (case path_adopt_allow a ep now of
        (ok, a) \<Rightarrow> (case adopt_run a calls of (n, a) \<Rightarrow> ((if ok then n + 1 else n), a)))"

text \<open>What the shared bucket keeps while it has granted \<open>g\<close> requests since time \<open>t0\<close>.\<close>

definition adopt_inv :: "u64 \<Rightarrow> nat \<Rightarrow> path_adopt \<Rightarrow> bool" where
  "adopt_inv t0 g a \<longleftrightarrow>
     0 \<le> ad_tokens a \<and>
     (g = 0 \<and> ad_ms a \<le> t0 \<or>
      t0 \<le> ad_ms a \<and>
        ad_tokens a + 1000 * int g \<le> 8000 + 8 * (uint (ad_ms a) - uint t0))"

lemma path_adopt_allow_shared:
  assumes "path_adopt_allow a ep now = (ok, a')"
  obtains (refused) "\<not> ok" "ad_tokens a' = ad_tokens a" "ad_ms a' = ad_ms a"
  | (asked) "bucket_take (ad_tokens a) (ad_ms a) now = (ok, ad_tokens a', ad_ms a')"
  using assms
  by (auto simp: path_adopt_allow_def Let_def split: prod.splits if_splits)

lemma adopt_inv_step:
  assumes inv: "adopt_inv t0 g a" and now: "t0 \<le> now" "ad_ms a \<le> now"
    and st: "path_adopt_allow a ep now = (ok, a')"
  shows "adopt_inv t0 (if ok then g + 1 else g) a'" "ad_ms a' \<le> now"
proof -
  have t: "0 \<le> ad_tokens a" using inv by (simp add: adopt_inv_def)
  have "adopt_inv t0 (if ok then g + 1 else g) a' \<and> ad_ms a' \<le> now"
    using st
  proof (cases rule: path_adopt_allow_shared)
    case refused
    then show ?thesis using inv now by (simp add: adopt_inv_def)
  next
    case asked
    note b = bucket_take_spec [OF t now(2) asked]
    show ?thesis
    proof (cases "g = 0 \<and> ad_ms a \<le> t0")
      case True
      moreover have "uint t0 \<le> uint now" using now by (simp add: word_le_def)
      ultimately show ?thesis using b now by (auto simp: adopt_inv_def)
    next
      case False
      then show ?thesis using inv b now by (auto simp: adopt_inv_def)
    qed
  qed
  then show "adopt_inv t0 (if ok then g + 1 else g) a'" "ad_ms a' \<le> now" by auto
qed

lemma adopt_inv_run:
  "\<lbrakk>adopt_inv t0 g a; sorted (map snd calls); \<forall>(ep, t) \<in> set calls. t0 \<le> t \<and> ad_ms a \<le> t;
    adopt_run a calls = (n, a')\<rbrakk>
   \<Longrightarrow> adopt_inv t0 (g + n) a' \<and> (\<forall>t1. ad_ms a \<le> t1 \<longrightarrow> (\<forall>(ep, t) \<in> set calls. t \<le> t1) \<longrightarrow> ad_ms a' \<le> t1)"
proof (induction calls arbitrary: a g n)
  case (Cons c calls)
  obtain ep now where c: "c = (ep, now)" by fastforce
  obtain ok a1 where s: "path_adopt_allow a ep now = (ok, a1)" by fastforce
  obtain m where r: "adopt_run a1 calls = (m, a')" and n: "n = (if ok then m + 1 else m)"
    using Cons.prems(4) by (auto simp: c s split: prod.splits)
  have st: "adopt_inv t0 (if ok then g + 1 else g) a1" "ad_ms a1 \<le> now"
    using adopt_inv_step [OF Cons.prems(1) _ _ s] Cons.prems(3) by (auto simp: c)
  have later: "\<forall>(ep, t) \<in> set calls. t0 \<le> t \<and> ad_ms a1 \<le> t"
    using Cons.prems(2,3) st(2) by (fastforce simp: c)
  have "adopt_inv t0 ((if ok then g + 1 else g) + m) a' \<and>
      (\<forall>t1. ad_ms a1 \<le> t1 \<longrightarrow> (\<forall>(ep, t) \<in> set calls. t \<le> t1) \<longrightarrow> ad_ms a' \<le> t1)"
    using Cons.IH [OF st(1) _ later r] Cons.prems(2) by (auto simp: c)
  then show ?case using n st(2) by (auto simp: c)
qed simp

section \<open>Properties\<close>

text \<open>C37. The budget is a ceiling: over any stretch from \<open>t0\<close> to \<open>t1\<close>, whatever sources ask and
  however often, the requests granted number at most 8 (the depth) plus 8 a second, from any state
  of the buckets that are not ahead of the clock.\<close>

theorem adopt_rate_bounded:
  assumes "0 \<le> ad_tokens a" "ad_ms a \<le> t0"
    and "sorted (map snd calls)" "\<forall>(ep, t) \<in> set calls. t0 \<le> t \<and> t \<le> t1"
    and "t0 \<le> t1"
  shows "1000 * fst (adopt_run a calls) \<le> 8000 + 8 * (unat t1 - unat t0)"
proof -
  obtain n a' where r: "adopt_run a calls = (n, a')" by fastforce
  have "adopt_inv t0 0 a" using assms by (simp add: adopt_inv_def)
  moreover have "\<forall>(ep, t) \<in> set calls. t0 \<le> t \<and> ad_ms a \<le> t" using assms(2,4) by fastforce
  moreover have "ad_ms a \<le> t1" "\<forall>(ep, t) \<in> set calls. t \<le> t1" using assms(2,4,5) by auto
  ultimately have inv: "adopt_inv t0 n a'" and ms: "ad_ms a' \<le> t1"
    using adopt_inv_run [of t0 0 a calls n a'] assms(3) r by auto
  have "uint (ad_ms a') \<le> uint t1" "uint t0 \<le> uint t1"
    using ms assms(5) by (simp_all add: word_le_def)
  then have "1000 * int n \<le> 8000 + 8 * (uint t1 - uint t0)"
    using inv by (auto simp: adopt_inv_def)
  moreover have "uint t1 - uint t0 = int (unat t1 - unat t0)"
    using assms(5) by (simp add: word_le_nat_alt)
  ultimately have "1000 * int n \<le> 8000 + 8 * int (unat t1 - unat t0)" by simp
  then have "1000 * n \<le> 8000 + 8 * (unat t1 - unat t0)" by linarith
  then show ?thesis by (simp add: r)
qed

theorem adopt_rate_bounded_witness:
  "1000 * fst (adopt_run adopt_zero [(ep_zero, 5000), (ep_zero, 5001)]) \<le> 8000 + 8 * (unat (6000 :: u64) - unat (5000 :: u64))"
  by (rule adopt_rate_bounded) (simp_all add: adopt_zero_def)

text \<open>How the two buckets are charged. A source out of credit leaves the shared bucket as it
  was; a source that pays is charged even when the shared bucket then refuses, although the header
  says both are charged only when they can pay.\<close>

theorem adopt_charges_source_first:
  assumes "path_adopt_allow a ep now = (ok, a')"
  defines "i \<equiv> adopt_scan (ad_src a) ep 0 [0..<PATH_ADOPT_SRC_MAX]"
  defines "s \<equiv> adopt_slot (ad_src a ! i) ep now"
  shows "(\<not> fst (bucket_take (as_tokens s) (as_ms s) now) \<longrightarrow>
            \<not> ok \<and> ad_tokens a' = ad_tokens a \<and> ad_ms a' = ad_ms a) \<and>
         (fst (bucket_take (as_tokens s) (as_ms s) now) \<longrightarrow> i < length (ad_src a) \<longrightarrow>
            ok = fst (bucket_take (ad_tokens a) (ad_ms a) now) \<and>
            as_tokens (ad_src a' ! i) = fst (snd (bucket_take (as_tokens s) (as_ms s) now)))"
  using assms(1)
  by (auto simp: path_adopt_allow_def Let_def i_def [symmetric] s_def [symmetric] split: prod.splits)

theorem adopt_charges_source_first_witness:
  "as_tokens (ad_src (snd (path_adopt_allow adopt_zero ep_zero 100)) ! 0) = 7000 \<and>
   \<not> fst (path_adopt_allow adopt_zero ep_zero 100)"
  using adopt_charges_source_first [OF prod.collapse [symmetric], of adopt_zero ep_zero 100]
  by code_simp

end
