(* ===== verification/Ctlproto.thy ===== *)
theory Ctlproto
  imports Path_Ep
begin

text \<open>
  The control channel's wire format (ctlproto.c): the frame, the reframer that cuts a byte
  stream into frames again, and the codecs of the payloads.

  A frame is the type byte, a length byte and the payload. The reframer's buffer is the list of
  its first \<open>len\<close> bytes; the callback's invocations are the list of frames a feed emits, in
  order. The main result: however the stream is cut into reads of the size the session makes,
  exactly the frames sent come out.
\<close>

section \<open>Message types and sizes\<close>

definition CTLM_PING :: int where "CTLM_PING = 0"
definition CTLM_PONG :: int where "CTLM_PONG = 1"
definition CTLM_RDV :: int where "CTLM_RDV = 2"
definition CTLM_CAND :: int where "CTLM_CAND = 3"
definition CTLM_REACH :: int where "CTLM_REACH = 4"
definition CTLM_RDVASK :: int where "CTLM_RDVASK = 5"
definition CTLM_KEY :: int where "CTLM_KEY = 6"
definition CTLM_KEYOK :: int where "CTLM_KEYOK = 7"
definition CTLM_BYE :: int where "CTLM_BYE = 8"
definition CTLM_DETACHED :: int where "CTLM_DETACHED = 9"
definition CTLM_TXSEL :: int where "CTLM_TXSEL = 10"
definition CTLM_TXACK :: int where "CTLM_TXACK = 11"

lemmas ctlm_types = CTLM_PING_def CTLM_PONG_def CTLM_RDV_def CTLM_CAND_def CTLM_REACH_def
  CTLM_RDVASK_def CTLM_KEY_def CTLM_KEYOK_def CTLM_BYE_def CTLM_DETACHED_def CTLM_TXSEL_def
  CTLM_TXACK_def

definition CTL_KEY_PLEN :: nat where "CTL_KEY_PLEN = 32"
definition CTL_HDR :: nat where "CTL_HDR = 2"
definition CTL_TS_LEN :: nat where "CTL_TS_LEN = 8"
definition CTL_RDV_PLEN :: nat where "CTL_RDV_PLEN = 19"
definition CTL_RDVST_PLEN :: nat where "CTL_RDVST_PLEN = CTL_RDV_PLEN + 1"
definition CTL_REACH_PLEN :: nat where "CTL_REACH_PLEN = 4"
definition CTL_RDVASK_PLEN :: nat where "CTL_RDVASK_PLEN = 1"
definition CTL_TXSEL_ID_LEN :: nat where "CTL_TXSEL_ID_LEN = 8"
definition CTL_TXSEL_PLEN :: nat where "CTL_TXSEL_PLEN = 13"
definition CTL_FRAME_MAX :: nat where "CTL_FRAME_MAX = CTL_HDR + CTL_KEY_PLEN"

definition CTL_REACH_DOWN :: int where "CTL_REACH_DOWN = 0"
definition CTL_REACH_PENDING :: int where "CTL_REACH_PENDING = 1"
definition CTL_REACH_UP :: int where "CTL_REACH_UP = 2"

lemmas ctl_lens = CTL_KEY_PLEN_def CTL_HDR_def CTL_TS_LEN_def CTL_RDV_PLEN_def
  CTL_RDVST_PLEN_def CTL_REACH_PLEN_def CTL_RDVASK_PLEN_def CTL_TXSEL_ID_LEN_def
  CTL_TXSEL_PLEN_def CTL_FRAME_MAX_def
lemmas ctl_reach_states = CTL_REACH_DOWN_def CTL_REACH_PENDING_def CTL_REACH_UP_def

section \<open>Frames and the reframer\<close>

text \<open>A message: its type and payload. The bytes of a frame; the empty list where the source
  returns 0 and writes nothing.\<close>

type_synonym ctl_msg = "int \<times> byte list"

definition ctl_frame :: "int \<Rightarrow> byte list \<Rightarrow> byte list" where
  "ctl_frame typ payload =
     (if CTL_FRAME_MAX - CTL_HDR < length payload then []
      else [word_of_int typ, of_nat (length payload)] @ payload)"

definition REFRAMER_BUF :: nat where "REFRAMER_BUF = 128"

text \<open>The loop over the buffer: the frames it calls back with, and what it keeps.\<close>

function reframe :: "byte list \<Rightarrow> ctl_msg list \<times> byte list" where
  "reframe held =
     (if length held < CTL_HDR then ([], held)
      else let plen = unat (held ! 1) in
        if CTL_FRAME_MAX < CTL_HDR + plen then ([], [])
        else if length held < CTL_HDR + plen then ([], held)
        else let (ms, rest) = reframe (drop (CTL_HDR + plen) held)
             in ((uint (held ! 0), take plen (drop CTL_HDR held)) # ms, rest))"
  by pat_completeness auto
termination by (relation "measure length") (auto simp: CTL_HDR_def)

declare reframe.simps [simp del]

definition ctl_reframer_feed :: "byte list \<Rightarrow> byte list \<Rightarrow> ctl_msg list \<times> byte list" where
  "ctl_reframer_feed r inp =
     (if REFRAMER_BUF < length inp then ([], r)
      else reframe ((if REFRAMER_BUF < length r + length inp then [] else r) @ inp))"

text \<open>A sequence of feeds: all frames emitted, and the bytes held at the end.\<close>

fun reframer_run :: "byte list \<Rightarrow> byte list list \<Rightarrow> ctl_msg list \<times> byte list" where
  "reframer_run r [] = ([], r)"
| "reframer_run r (c # cs) =
     (let (ms, r1) = ctl_reframer_feed r c; (ms', r2) = reframer_run r1 cs in (ms @ ms', r2))"

text \<open>What a writer may send: a byte type and a payload within the maximum.\<close>

definition ctl_msg_ok :: "ctl_msg \<Rightarrow> bool" where
  "ctl_msg_ok m \<longleftrightarrow> 0 \<le> fst m \<and> fst m < 256 \<and> length (snd m) \<le> CTL_FRAME_MAX - CTL_HDR"

definition ctl_wire :: "ctl_msg list \<Rightarrow> byte list" where
  "ctl_wire ms = concat (map (\<lambda>(t, p). ctl_frame t p) ms)"

lemma ctl_wire_Nil [simp]: "ctl_wire [] = []"
  by (simp add: ctl_wire_def)

lemma ctl_wire_Cons: "ctl_msg_ok (t, p) \<Longrightarrow>
  ctl_wire ((t, p) # ms) = word_of_int t # of_nat (length p) # p @ ctl_wire ms"
  by (simp add: ctl_wire_def ctl_frame_def ctl_msg_ok_def)

lemma unat_plen: "ctl_msg_ok (t, p) \<Longrightarrow> unat (of_nat (length p) :: byte) = length p"
  by (simp add: ctl_msg_ok_def ctl_lens unat_of_nat)

lemma uint_type: "ctl_msg_ok (t, p) \<Longrightarrow> uint (word_of_int t :: byte) = t"
  by (simp add: ctl_msg_ok_def unsigned_of_int take_bit_int_eq_self)

lemma reframe_short: "length held < CTL_HDR \<Longrightarrow> reframe held = ([], held)"
  by (subst reframe.simps) simp

text \<open>A whole frame at the head of the buffer is emitted, a proper prefix of one is kept.\<close>

lemma reframe_frame:
  assumes "ctl_msg_ok (t, p)"
  shows "reframe (word_of_int t # of_nat (length p) # p @ held) =
    (let (ms, rest) = reframe held in ((t, p) # ms, rest))"
  using assms uint_type [OF assms]
  by (subst reframe.simps)
    (simp add: unat_plen, simp add: ctl_msg_ok_def ctl_lens split_beta)

lemma reframe_partial:
  assumes "ctl_msg_ok (t, p)" "length q < length p"
  shows "reframe (word_of_int t # of_nat (length p) # q) = ([], word_of_int t # of_nat (length p) # q)"
  using assms
  by (subst reframe.simps)
    (simp add: unat_plen, simp add: ctl_msg_ok_def ctl_lens)

text \<open>Any prefix of a stream of frames is cut into the whole frames it holds and a remainder
  shorter than a frame.\<close>

lemma reframe_prefix:
  assumes "\<forall>m \<in> set ms. ctl_msg_ok m" "a @ x = ctl_wire ms"
  shows "\<exists>ms1 ms2 r. ms = ms1 @ ms2 \<and> reframe a = (ms1, r) \<and> r @ x = ctl_wire ms2 \<and>
    length r < CTL_FRAME_MAX \<and> reframe r = ([], r)"
  using assms
proof (induction ms arbitrary: a)
  case Nil
  then show ?case by (auto simp: reframe_short ctl_lens)
next
  case (Cons m ms)
  obtain t p where m: "m = (t, p)" by (cases m)
  have ok: "ctl_msg_ok (t, p)" and split: "a @ x = word_of_int t # of_nat (length p) # p @ ctl_wire ms"
    using Cons.prems m by (simp_all add: ctl_wire_Cons)
  have plen: "length p \<le> 32" using ok by (simp add: ctl_msg_ok_def ctl_lens)
  show ?case
  proof (cases "length a < CTL_HDR + length p")
    case True
    have "reframe a = ([], a)"
    proof (cases "length a < CTL_HDR")
      case False
      then obtain q where q: "a = word_of_int t # of_nat (length p) # q"
        using split by (cases a; cases "tl a") (auto simp: CTL_HDR_def)
      then show ?thesis using True reframe_partial [OF ok, of q] by (simp add: CTL_HDR_def)
    qed (simp add: reframe_short)
    then show ?thesis
      using Cons.prems True plen by (intro exI [of _ "[]"] exI [of _ "m # ms"] exI [of _ a]) (auto simp: ctl_lens)
  next
    case False
    define b where "b = drop (CTL_HDR + length p) a"
    have "take (CTL_HDR + length p) (a @ x) = word_of_int t # of_nat (length p) # p"
      "drop (CTL_HDR + length p) (a @ x) = ctl_wire ms"
      unfolding split by (simp_all add: CTL_HDR_def)
    then have a: "a = word_of_int t # of_nat (length p) # p @ b" and rest: "b @ x = ctl_wire ms"
      using False append_take_drop_id [of "CTL_HDR + length p" a] by (simp_all add: b_def)
    obtain ms1 ms2 r where "ms = ms1 @ ms2" "reframe b = (ms1, r)" "r @ x = ctl_wire ms2"
      "length r < CTL_FRAME_MAX" "reframe r = ([], r)"
      using Cons.IH [OF _ rest] Cons.prems by auto
    then show ?thesis
      using m a reframe_frame [OF ok, of b]
      by (intro exI [of _ "m # ms1"] exI [of _ ms2] exI [of _ r]) simp
  qed
qed

lemma reframer_run_prefix:
  assumes "\<forall>m \<in> set ms. ctl_msg_ok m" "\<forall>c \<in> set cs. length c \<le> 95" "length r < CTL_FRAME_MAX" "reframe r = ([], r)"
    and "r @ concat cs @ x = ctl_wire ms"
  shows "\<exists>ms1 ms2 r'. ms = ms1 @ ms2 \<and> reframer_run r cs = (ms1, r') \<and> r' @ x = ctl_wire ms2 \<and>
    length r' < CTL_FRAME_MAX \<and> reframe r' = ([], r')"
  using assms
proof (induction cs arbitrary: r ms)
  case (Cons c cs)
  have feed: "ctl_reframer_feed r c = reframe (r @ c)"
    using Cons.prems by (simp add: ctl_reframer_feed_def REFRAMER_BUF_def ctl_lens)
  obtain ms1 ms2 r1 where 1: "ms = ms1 @ ms2" "reframe (r @ c) = (ms1, r1)"
    "r1 @ concat cs @ x = ctl_wire ms2" "length r1 < CTL_FRAME_MAX" "reframe r1 = ([], r1)"
    using reframe_prefix [of ms "r @ c" "concat cs @ x"] Cons.prems by auto
  then obtain ms3 ms4 r2 where "ms2 = ms3 @ ms4" "reframer_run r1 cs = (ms3, r2)"
    "r2 @ x = ctl_wire ms4" "length r2 < CTL_FRAME_MAX" "reframe r2 = ([], r2)"
    using Cons.IH [of ms2 r1] Cons.prems by auto
  then show ?case
    using 1 feed by (intro exI [of _ "ms1 @ ms3"] exI [of _ ms4] exI [of _ r2]) simp
qed simp

text \<open>C22. The messages one end writes on the control channel are exactly the messages the other
  end's reframer emits, in order and each once, with nothing left over, however the stream is cut
  into reads: for every division into chunks of at most 95 bytes (the session reads 64 at a time),
  where 95 is what fits the 128-byte buffer beside the longest partial frame.\<close>

theorem reframer_exact:
  assumes "\<forall>m \<in> set ms. ctl_msg_ok m" "\<forall>c \<in> set cs. length c \<le> 95" "concat cs = ctl_wire ms"
  shows "reframer_run [] cs = (ms, [])"
proof -
  obtain ms1 ms2 r where 1: "ms = ms1 @ ms2" "reframer_run [] cs = (ms1, r)" "r = ctl_wire ms2"
    "reframe r = ([], r)"
    using reframer_run_prefix [of ms cs "[]" "[]"] assms by (auto simp: ctl_lens reframe_short)
  have "ms2 = []"
  proof (cases ms2)
    case (Cons m ms3)
    obtain t p where m: "m = (t, p)" by (cases m)
    then have "ctl_msg_ok (t, p)" using assms(1) 1(1) Cons by simp
    then show ?thesis
      using 1(3,4) Cons m by (simp add: ctl_wire_Cons reframe_frame split_beta)
  qed
  then show ?thesis using 1 by simp
qed

theorem reframer_exact_witness:
  "reframer_run [] [[10], [2, 7], [9, 7, 0, 0], [1], [255]] = ([(10, [7, 9]), (7, []), (0, [255])], [])"
proof (rule reframer_exact)
  show "\<forall>m \<in> set [(10, [7, 9]), (7, []), (0, [255])]. ctl_msg_ok m"
    by (simp add: ctl_msg_ok_def ctl_lens)
qed (simp_all add: ctl_wire_def ctl_frame_def ctl_lens)

section \<open>The payloads\<close>

text \<open>\<open>ctl_put_u64\<close> and \<open>ctl_get_u64\<close>: the heartbeat's time stamp.\<close>

definition ctl_put_u64 :: "u64 \<Rightarrow> byte list" where
  "ctl_put_u64 v = map (\<lambda>i. ucast (drop_bit (56 - 8 * i) v)) [0..<8]"

definition ctl_get_u64 :: "byte list \<Rightarrow> u64" where
  "ctl_get_u64 p = foldl (\<lambda>v b. push_bit 8 v OR ucast b) 0 (take 8 p)"

text \<open>The endpoint of a rendezvous node or a candidate. \<open>family\<close> says which structure \<open>sa\<close> points
  to; \<open>None\<close> where the two disagree, which the source leaves to its callers.\<close>

definition ctl_rdv_encode :: "int \<Rightarrow> sockaddr \<Rightarrow> byte list option" where
  "ctl_rdv_encode family sa =
     (if family = 6 then
        (case sa of AF_INET6 s6 \<Rightarrow> Some (6 # put16 (sin6_port s6) @ sin6_addr s6) | _ \<Rightarrow> None)
      else
        (case sa of AF_INET addr port \<Rightarrow> Some (4 # put16 port @ addr @ replicate 12 0) | _ \<Rightarrow> None))"

text \<open>The family (0 for neither) with the address and its length.\<close>

definition ctl_rdv_decode :: "byte list \<Rightarrow> (int \<times> sockaddr \<times> nat) option" where
  "ctl_rdv_decode pl =
     (if length pl < CTL_RDV_PLEN then None
      else let port = get16 (drop 1 pl) in
        if pl ! 0 = 6 then
          Some (6, AF_INET6 \<lparr>sin6_addr = take 16 (drop 3 pl), sin6_port = port, sin6_scope_id = 0\<rparr>, 28)
        else if pl ! 0 = 4 then Some (4, AF_INET (take 4 (drop 3 pl)) port, 16)
        else None)"

definition ctl_txsel_encode :: "u32 \<Rightarrow> byte list \<Rightarrow> int \<Rightarrow> byte list" where
  "ctl_txsel_encode seq pid flags =
     [ucast (drop_bit 24 seq), ucast (drop_bit 16 seq), ucast (drop_bit 8 seq), ucast seq] @
     take CTL_TXSEL_ID_LEN pid @ [word_of_int flags]"

definition ctl_txsel_decode :: "byte list \<Rightarrow> (u32 \<times> byte list \<times> int) option" where
  "ctl_txsel_decode pl =
     (if length pl < CTL_TXSEL_PLEN then None
      else Some (push_bit 24 (ucast (pl ! 0)) OR push_bit 16 (ucast (pl ! 1)) OR
                 push_bit 8 (ucast (pl ! 2)) OR ucast (pl ! 3),
                 take CTL_TXSEL_ID_LEN (drop 4 pl), uint (pl ! (4 + CTL_TXSEL_ID_LEN))))"

definition ctl_reach_encode :: "byte list \<Rightarrow> int \<Rightarrow> int \<Rightarrow> int \<Rightarrow> byte list" where
  "ctl_reach_encode pl slot state flags =
     (if slot \<noteq> 0 \<and> slot \<noteq> 1 then pl
      else pl[nat (slot * 2) := word_of_int state, nat (slot * 2 + 1) := word_of_int flags])"

text \<open>The result, and the state and flags it leaves in its arguments.\<close>

definition ctl_reach_decode :: "byte list \<Rightarrow> int \<Rightarrow> bool \<times> int \<times> int" where
  "ctl_reach_decode pl slot =
     (if length pl < CTL_REACH_PLEN \<or> (slot \<noteq> 0 \<and> slot \<noteq> 1) then (False, CTL_REACH_DOWN, 0)
      else let st = uint (pl ! nat (slot * 2)) in
        (True, (if st = CTL_REACH_PENDING \<or> st = CTL_REACH_UP then st else CTL_REACH_DOWN),
         uint (pl ! nat (slot * 2 + 1))))"

lemma ctl_get_put_u64 [simp]: "ctl_get_u64 (ctl_put_u64 v @ r) = v"
  using get_u64_put_u64 [of v r]
  by (simp only: ctl_get_u64_def ctl_put_u64_def get_u64_def put_u64_def)

lemma length_ctl_put_u64 [simp]: "length (ctl_put_u64 v) = 8"
  by (simp add: ctl_put_u64_def)

lemma length_ctl_txsel_encode [simp]:
  "length pid = CTL_TXSEL_ID_LEN \<Longrightarrow> length (ctl_txsel_encode seq pid flags) = CTL_TXSEL_PLEN"
  by (simp add: ctl_txsel_encode_def ctl_lens)

lemma ctl_txsel_roundtrip [simp]:
  assumes "length pid = CTL_TXSEL_ID_LEN" "0 \<le> flags" "flags < 256"
  shows "ctl_txsel_decode (ctl_txsel_encode seq pid flags @ r) = Some (seq, pid, flags)"
proof -
  have "get32 (put32 seq @ pid) = seq" by simp
  then show ?thesis
    using assms
    by (simp add: ctl_txsel_decode_def ctl_txsel_encode_def ctl_lens get32_def put32_def nth_append
        unsigned_of_int take_bit_int_eq_self)
qed

lemma ctl_rdv_roundtrip:
  assumes "ctl_rdv_encode family sa = Some pl" "path_ep_from_sockaddr sa 28 = Some ep"
    and "length (pe_addr ep) = 16"
  shows "\<exists>fam sa' len. ctl_rdv_decode (pl @ r) = Some (fam, sa', len) \<and>
    path_ep_from_sockaddr sa' len = Some ep \<and> fam = (if family = 6 then 6 else 4) \<and>
    length pl = CTL_RDV_PLEN"
proof (cases sa)
  case (AF_INET6 s6)
  have "get16 (put16 (sin6_port s6) @ sin6_addr s6 @ r) = sin6_port s6" by simp
  then show ?thesis
    using assms AF_INET6
    by (auto simp: ctl_rdv_encode_def ctl_rdv_decode_def path_ep_from_sockaddr_def ctl_lens
        split: if_splits)
next
  case (AF_INET addr port)
  have "get16 (put16 port @ addr @ replicate 12 0 @ r) = port" by simp
  then show ?thesis
    using assms AF_INET
    by (auto simp: ctl_rdv_encode_def ctl_rdv_decode_def path_ep_from_sockaddr_def ctl_lens
        v4_prefix_def split: if_splits)
qed (use assms in \<open>simp add: path_ep_from_sockaddr_def\<close>)

lemma ctl_reach_roundtrip:
  assumes "length pl = CTL_REACH_PLEN" "slot \<in> {0, 1}" "st \<in> {0, 1, 2}" "0 \<le> flags" "flags < 256"
  shows "ctl_reach_decode (ctl_reach_encode pl slot st flags) slot = (True, st, flags)"
    and "slot' \<in> {0, 1} - {slot} \<Longrightarrow>
      ctl_reach_decode (ctl_reach_encode pl slot st flags) slot' = ctl_reach_decode pl slot'"
  using assms
  by (auto simp: ctl_reach_decode_def ctl_reach_encode_def ctl_lens ctl_reach_states
      unsigned_of_int take_bit_int_eq_self)

end
