(* ===== verification/Dataauth.thy ===== *)
theory Dataauth
  imports Keys
begin

text \<open>
  The tag on a stream datagram (dataauth.c): body, counter and a truncated keyed digest over both.
  What is shown: a frame opens exactly when it is the wrapping of its own body and counter under
  that key, so a frame changed in any byte opens only if the digest collides.
\<close>

definition DATAAUTH_CTR_LEN :: nat where "DATAAUTH_CTR_LEN = 8"
definition DATAAUTH_TAG_LEN :: nat where "DATAAUTH_TAG_LEN = 16"
definition DATAAUTH_OVERHEAD :: nat where
  "DATAAUTH_OVERHEAD = DATAAUTH_CTR_LEN + DATAAUTH_TAG_LEN"

lemmas dataauth_lens = DATAAUTH_CTR_LEN_def DATAAUTH_TAG_LEN_def DATAAUTH_OVERHEAD_def

definition tag_of :: "crypto \<Rightarrow> byte list \<Rightarrow> byte list \<Rightarrow> byte list" where
  "tag_of C key body = take DATAAUTH_TAG_LEN (blake2b C 32 key body)"

text \<open>The loop of \<open>tag_eq\<close>: the differences are collected, never the place of one.\<close>

definition tag_eq :: "byte list \<Rightarrow> byte list \<Rightarrow> bool" where
  "tag_eq a b \<longleftrightarrow> foldl (\<lambda>d i. d OR (a ! i XOR b ! i)) 0 [0..<DATAAUTH_TAG_LEN] = 0"

definition dataauth_wrap ::
    "crypto \<Rightarrow> nat \<Rightarrow> byte list \<Rightarrow> byte list \<Rightarrow> u64 \<Rightarrow> byte list option" where
  "dataauth_wrap C out_max key data seq =
     (if out_max < length data + DATAAUTH_OVERHEAD then None
      else let out = data @ put_u64 seq in Some (out @ tag_of C key out))"

definition dataauth_open :: "crypto \<Rightarrow> byte list \<Rightarrow> byte list \<Rightarrow> (nat \<times> u64) option" where
  "dataauth_open C key inp =
     (if length inp < DATAAUTH_OVERHEAD then None
      else let n = length inp - DATAAUTH_TAG_LEN;
               tag = tag_of C key (take n inp)
           in if \<not> tag_eq tag (drop n inp) then None
              else Some (n - DATAAUTH_CTR_LEN, get_u64 (drop (n - DATAAUTH_CTR_LEN) inp)))"

lemma foldl_or_0:
  "foldl (\<lambda>d i. d OR f i) d is = 0 \<longleftrightarrow> d = 0 \<and> (\<forall>i \<in> set is. f i = (0 :: byte))"
  by (induction "is" arbitrary: d) (auto simp: or_eq_0_iff)

lemma tag_eq_iff: "length a = 16 \<Longrightarrow> length b = 16 \<Longrightarrow> tag_eq a b \<longleftrightarrow> a = b"
  by (auto simp: tag_eq_def foldl_or_0 DATAAUTH_TAG_LEN_def xor_eq_0 intro: nth_equalityI)

lemma length_tag_of: "crypto_ok C \<Longrightarrow> length (tag_of C key body) = 16"
  by (simp add: tag_of_def crypto_okD(1) DATAAUTH_TAG_LEN_def)

lemma dataauth_open_iff:
  assumes ok: "crypto_ok C"
  shows "dataauth_open C key inp = Some (body, seq) \<longleftrightarrow>
    body + DATAAUTH_OVERHEAD = length inp \<and>
    dataauth_wrap C (length inp) key (take body inp) seq = Some inp"
proof
  assume o: "dataauth_open C key inp = Some (body, seq)"
  then have len: "body + 24 = length inp"
    by (auto simp: dataauth_open_def dataauth_lens Let_def split: if_splits)
  then have seq: "seq = get_u64 (drop body inp)"
    and tag: "tag_eq (tag_of C key (take (body + 8) inp)) (drop (body + 8) inp)"
    using o by (auto simp: dataauth_open_def dataauth_lens Let_def split: if_splits
        simp flip: len) (simp add: add.commute)
  have t: "tag_of C key (take (body + 8) inp) = drop (body + 8) inp"
    using tag tag_eq_iff [of "tag_of C key (take (body + 8) inp)" "drop (body + 8) inp"]
      length_tag_of [OF ok] len by simp
  have "seq = get_u64 (take 8 (drop body inp))" by (simp add: seq get_u64_def)
  then have "put_u64 seq = take 8 (drop body inp)"
    using put_u64_get_u64 [of "take 8 (drop body inp)"] len by simp
  then have out: "take body inp @ put_u64 seq = take (body + 8) inp" by (simp add: take_add)
  show "body + DATAAUTH_OVERHEAD = length inp \<and>
      dataauth_wrap C (length inp) key (take body inp) seq = Some inp"
    using len out t by (simp add: dataauth_wrap_def dataauth_lens min_def)
next
  assume w: "body + DATAAUTH_OVERHEAD = length inp \<and>
    dataauth_wrap C (length inp) key (take body inp) seq = Some inp"
  define b where "b = take body inp"
  define out where "out = b @ put_u64 seq"
  have len: "length inp = body + 24" using w by (simp add: dataauth_lens)
  have lb: "length b = body" using len by (simp add: b_def)
  have inp: "inp = out @ tag_of C key out"
    using w lb by (auto simp: dataauth_wrap_def Let_def out_def b_def [symmetric] split: if_splits)
  have lout: "length out = body + 8" using lb by (simp add: out_def)
  have "drop body (out @ tag_of C key out) = put_u64 seq @ tag_of C key out"
    using lb by (simp add: out_def)
  then have "get_u64 (drop body inp) = seq" by (simp only: inp [symmetric] get_u64_put_u64)
  moreover have "take (body + 8) inp = out" "drop (body + 8) inp = tag_of C key out"
    using lout inp by (metis append_eq_conv_conj)+
  ultimately show "dataauth_open C key inp = Some (body, seq)"
    using len length_tag_of [OF ok] tag_eq_iff
    by (simp add: dataauth_open_def dataauth_lens Let_def add.commute [of 8])
qed

section \<open>Properties\<close>

text \<open>A stream datagram opens under a key exactly when it is the wrapping, under that key, of
  the body and the counter it yields; in particular everything wrapped opens, with the counter it
  was given, and nothing else does.\<close>

theorem dataauth_exact:
  assumes "crypto_ok C"
  shows "dataauth_open C key inp = Some (body, seq) \<longleftrightarrow>
    body + DATAAUTH_OVERHEAD = length inp \<and>
    dataauth_wrap C (length inp) key (take body inp) seq = Some inp"
  using assms by (rule dataauth_open_iff)

theorem dataauth_exact_witness:
  "dataauth_open plain_crypto (replicate 32 1) ([7, 8, 9] @ put_u64 5 @ replicate 16 1) = Some (3, 5)"
  using dataauth_exact [OF plain_crypto_ok, of "replicate 32 1"
      "[7, 8, 9] @ put_u64 5 @ replicate 16 1" 3 5]
  by (simp add: dataauth_wrap_def dataauth_lens tag_of_def plain_crypto_def)

end
