(* ===== verification/Probeplane.thy ===== *)
theory Probeplane
  imports Path_Ep Dataauth Replay
begin

text \<open>
  The path plane's key schedule (probeplane.c): the base key every holder of the invitation has,
  the pair key this connection agrees, which of the two seals, which opens, and the counters and
  windows over probes and stream datagrams.

  The structure is shared by two threads and its lock covers short sections, one definition
  each. \<open>probeplane_open\<close> and \<open>probeplane_unwrap\<close> take the keys in one section and mark the base
  key spent in another; the sequential functions compose them as the source does, and the last
  section interleaves them with \<open>probeplane_reset\<close>.
\<close>

record probeplane =
  pp_magic :: u32
  pp_base :: "byte list"
  pp_pair :: "byte list"
  pp_pair_ready :: bool
  pp_pair_tx :: bool
  pp_base_ok :: bool
  pp_seq :: u64
  pp_rx :: replay_win
  pp_data_seq :: u64
  pp_data_rx :: replay_win

definition probeplane_init :: "u32 \<Rightarrow> byte list \<Rightarrow> u64 \<Rightarrow> probeplane" where
  "probeplane_init magic base seq0 =
     \<lparr>pp_magic = magic, pp_base = base, pp_pair = replicate 32 0, pp_pair_ready = False,
      pp_pair_tx = False, pp_base_ok = True, pp_seq = seq0, pp_rx = replay_init,
      pp_data_seq = seq0, pp_data_rx = replay_init\<rparr>"

definition probeplane_reset :: "probeplane \<Rightarrow> probeplane" where
  "probeplane_reset pp = pp\<lparr>pp_pair_ready := False, pp_pair_tx := False, pp_base_ok := True\<rparr>"

definition probeplane_bind :: "crypto \<Rightarrow> probeplane \<Rightarrow> byte list \<Rightarrow> byte list \<Rightarrow> probeplane" where
  "probeplane_bind C pp half_out half_in =
     pp\<lparr>pp_pair := keys_conn_key C (pp_base pp) half_out half_in, pp_pair_ready := True\<rparr>"

definition probeplane_tx_ready :: "probeplane \<Rightarrow> bool \<times> probeplane" where
  "probeplane_tx_ready pp =
     (if pp_pair_ready pp \<and> \<not> pp_pair_tx pp then (True, pp\<lparr>pp_pair_tx := True\<rparr>) else (False, pp))"

record keys_now =
  kn_tx :: "byte list"
  kn_rx :: "byte list"
  kn_have_rx :: bool
  kn_base_ok :: bool

definition keys_take :: "probeplane \<Rightarrow> keys_now" where
  "keys_take pp =
     \<lparr>kn_tx = (if pp_pair_tx pp then pp_pair pp else pp_base pp), kn_rx = pp_pair pp,
      kn_have_rx = pp_pair_ready pp, kn_base_ok = pp_base_ok pp\<rparr>"

definition saw_pair :: "probeplane \<Rightarrow> probeplane" where
  "saw_pair pp = (if pp_base_ok pp then pp\<lparr>pp_base_ok := False\<rparr> else pp)"

definition probeplane_seal ::
    "crypto \<Rightarrow> byte list option \<Rightarrow> probeplane \<Rightarrow> path_probe \<Rightarrow> byte list \<Rightarrow> nat \<Rightarrow>
     byte list option \<times> path_probe \<times> probeplane" where
  "probeplane_seal C rnd pp pr ufrag out_len =
     (let pr = pr\<lparr>pr_ufrag := take PROBE_UFRAG_MAX ufrag\<rparr>;
          pp = pp\<lparr>pp_seq := pp_seq pp + 1\<rparr>;
          pr = pr\<lparr>pr_seq := pp_seq pp\<rparr>;
          tx = (if pp_pair_tx pp then pp_pair pp else pp_base pp)
      in (path_probe_build C rnd out_len (pp_magic pp) tx pr, pr, pp))"

text \<open>What the keys taken make of a probe frame: the probe, and whether the pair key opened it.\<close>

definition open_judge ::
    "crypto \<Rightarrow> u32 \<Rightarrow> byte list \<Rightarrow> keys_now \<Rightarrow> byte list \<Rightarrow> path_probe option \<times> bool" where
  "open_judge C magic base k data =
     (case (if kn_have_rx k then path_probe_parse C magic (kn_rx k) data else None) of
        Some pr \<Rightarrow> (Some pr, True)
      | None \<Rightarrow>
          (case path_probe_parse C magic base data of
             None \<Rightarrow> (None, False)
           | Some pr \<Rightarrow>
               if kn_base_ok k then (Some pr, False)
               else if pr_type pr = PROBE_FRESH then (Some pr, False) else (None, False)))"

definition probeplane_open ::
    "crypto \<Rightarrow> probeplane \<Rightarrow> byte list \<Rightarrow> path_probe option \<times> probeplane" where
  "probeplane_open C pp data =
     (let k = keys_take pp
      in case open_judge C (pp_magic pp) (pp_base pp) k data of
           (r, True) \<Rightarrow> (r, saw_pair pp)
         | (r, False) \<Rightarrow> (r, pp))"

definition probeplane_wrap ::
    "crypto \<Rightarrow> probeplane \<Rightarrow> nat \<Rightarrow> byte list \<Rightarrow> byte list option \<times> probeplane" where
  "probeplane_wrap C pp out_max data =
     (let k = keys_take pp;
          pp = pp\<lparr>pp_data_seq := pp_data_seq pp + 1\<rparr>
      in (dataauth_wrap C out_max (kn_tx k) data (pp_data_seq pp), pp))"

definition probeplane_unwrap ::
    "crypto \<Rightarrow> probeplane \<Rightarrow> byte list \<Rightarrow> nat option \<times> probeplane" where
  "probeplane_unwrap C pp data =
     (let k = keys_take pp;
          opened = (case (if kn_have_rx k then dataauth_open C (kn_rx k) data else None) of
                      Some bs \<Rightarrow> Some (bs, saw_pair pp)
                    | None \<Rightarrow>
                        if \<not> kn_base_ok k then None
                        else map_option (\<lambda>bs. (bs, pp)) (dataauth_open C (pp_base pp) data))
      in case opened of
           None \<Rightarrow> (None, pp)
         | Some ((body, seq), pp) \<Rightarrow>
             (case replay_ok (pp_data_rx pp) seq of
                (ok, w) \<Rightarrow> (if ok then Some body else None, pp\<lparr>pp_data_rx := w\<rparr>)))"

definition probeplane_fresh :: "probeplane \<Rightarrow> path_probe \<Rightarrow> bool \<times> probeplane" where
  "probeplane_fresh pp pr =
     (case replay_ok (pp_rx pp) (pr_seq pr) of (ok, w) \<Rightarrow> (ok, pp\<lparr>pp_rx := w\<rparr>))"

section \<open>Each number is acted on once\<close>

text \<open>What happens to a connection's key plane, in the order it happens.\<close>

datatype plane_event =
    Stream_in "byte list"
  | Probe_in path_probe
  | Reset
  | Bind "byte list" "byte list"
  | Tx_ready
  | Open "byte list"
  | Seal "byte list option" path_probe "byte list"
  | Wrap "byte list"

fun plane_event_step :: "crypto \<Rightarrow> probeplane \<Rightarrow> plane_event \<Rightarrow> bool \<times> probeplane" where
  "plane_event_step C pp (Stream_in data) =
     (fst (probeplane_unwrap C pp data) \<noteq> None, snd (probeplane_unwrap C pp data))"
| "plane_event_step C pp (Probe_in pr) = probeplane_fresh pp pr"
| "plane_event_step C pp Reset = (False, probeplane_reset pp)"
| "plane_event_step C pp (Bind a b) = (False, probeplane_bind C pp a b)"
| "plane_event_step C pp Tx_ready = (False, snd (probeplane_tx_ready pp))"
| "plane_event_step C pp (Open data) = (False, snd (probeplane_open C pp data))"
| "plane_event_step C pp (Seal rnd pr ufrag) =
     (False, snd (snd (probeplane_seal C rnd pp pr ufrag PROBE_MAX)))"
| "plane_event_step C pp (Wrap data) = (False, snd (probeplane_wrap C pp (length data + 24) data))"

text \<open>The number an arrival carries, stream and probes counted apart. A stream datagram's is in
  the bytes before its tag.\<close>

fun plane_number :: "plane_event \<Rightarrow> bool \<times> nat" where
  "plane_number (Stream_in data) =
     (True, unat (get_u64 (drop (length data - DATAAUTH_OVERHEAD) data)))"
| "plane_number (Probe_in pr) = (False, unat (pr_seq pr))"
| "plane_number _ = (False, 0)"

definition plane_refuses :: "probeplane \<Rightarrow> bool \<times> nat \<Rightarrow> bool" where
  "plane_refuses pp k =
     (case k of (stream, n) \<Rightarrow> replay_refuses (if stream then pp_data_rx pp else pp_rx pp) n)"

lemma dataauth_open_seq:
  assumes "dataauth_open C key data = Some (body, seq)"
  shows "seq = get_u64 (drop (length data - DATAAUTH_OVERHEAD) data)"
  using assms
  by (auto simp: dataauth_open_def Let_def dataauth_lens split: if_splits)

lemma saw_pair_fields [simp]:
  "pp_data_rx (saw_pair pp) = pp_data_rx pp" "pp_rx (saw_pair pp) = pp_rx pp"
  "pp_pair (saw_pair pp) = pp_pair pp" "pp_pair_ready (saw_pair pp) = pp_pair_ready pp"
  "pp_base (saw_pair pp) = pp_base pp" "pp_magic (saw_pair pp) = pp_magic pp"
  "pp_pair_tx (saw_pair pp) = pp_pair_tx pp" "\<not> pp_base_ok (saw_pair pp)"
  by (simp_all add: saw_pair_def)

text \<open>A datagram passes the window under the number it carries, whichever key opened it.\<close>

lemma probeplane_unwrap_window:
  obtains (shut) "fst (probeplane_unwrap C pp data) = None"
      "pp_data_rx (snd (probeplane_unwrap C pp data)) = pp_data_rx pp"
  | (opened) seq where "seq = get_u64 (drop (length data - DATAAUTH_OVERHEAD) data)"
      "(fst (probeplane_unwrap C pp data) \<noteq> None) = fst (replay_ok (pp_data_rx pp) seq)"
      "pp_data_rx (snd (probeplane_unwrap C pp data)) = snd (replay_ok (pp_data_rx pp) seq)"
proof -
  define opened where "opened =
    (case (if pp_pair_ready pp then dataauth_open C (pp_pair pp) data else None) of
        Some bs \<Rightarrow> Some (bs, saw_pair pp)
      | None \<Rightarrow> if \<not> pp_base_ok pp then None
                else map_option (\<lambda>bs. (bs, pp)) (dataauth_open C (pp_base pp) data))"
  have u: "probeplane_unwrap C pp data = (case opened of None \<Rightarrow> (None, pp)
         | Some ((body, seq), pp) \<Rightarrow> (case replay_ok (pp_data_rx pp) seq of
                (ok, w) \<Rightarrow> (if ok then Some body else None, pp\<lparr>pp_data_rx := w\<rparr>)))"
    by (simp add: probeplane_unwrap_def Let_def keys_take_def opened_def cong: option.case_cong)
  show thesis
  proof (cases opened)
    case None
    then show thesis by (intro shut) (simp_all add: u)
  next
    case (Some a)
    then obtain body seq q where a: "a = ((body, seq), q)" by (metis surj_pair)
    have q: "pp_data_rx q = pp_data_rx pp"
      using Some by (auto simp: opened_def a split: option.splits if_splits)
    have "seq = get_u64 (drop (length data - DATAAUTH_OVERHEAD) data)"
      using Some unfolding opened_def a
      by (auto intro!: dataauth_open_seq split: option.splits if_splits)
    then show thesis
      using q by (intro opened [of seq]) (simp_all add: u Some a split_beta)
  qed
qed

text \<open>The windows are touched by arrivals alone.\<close>

lemma plane_event_windows:
  assumes "\<not> (\<exists>data. ev = Stream_in data)" "\<not> (\<exists>pr. ev = Probe_in pr)"
  shows "pp_data_rx (snd (plane_event_step C pp ev)) = pp_data_rx pp"
    "pp_rx (snd (plane_event_step C pp ev)) = pp_rx pp" "\<not> fst (plane_event_step C pp ev)"
  using assms
  by (cases ev; simp add: probeplane_reset_def probeplane_bind_def probeplane_tx_ready_def
      probeplane_open_def probeplane_seal_def probeplane_wrap_def Let_def split: prod.split bool.split)+

lemma probeplane_unwrap_rx: "pp_rx (snd (probeplane_unwrap C pp data)) = pp_rx pp"
  by (auto simp: probeplane_unwrap_def Let_def split: option.splits if_splits prod.splits)

lemma plane_stream_once:
  shows "fst (plane_event_step C pp (Stream_in d)) \<Longrightarrow> \<not> plane_refuses pp (plane_number (Stream_in d))"
    "fst (plane_event_step C pp (Stream_in d)) \<Longrightarrow>
       plane_refuses (snd (plane_event_step C pp (Stream_in d))) (plane_number (Stream_in d))"
    "plane_refuses pp k \<Longrightarrow> plane_refuses (snd (plane_event_step C pp (Stream_in d))) k"
proof -
  show "fst (plane_event_step C pp (Stream_in d)) \<Longrightarrow> \<not> plane_refuses pp (plane_number (Stream_in d))"
    by (rule probeplane_unwrap_window [of C pp d])
      (auto simp: plane_refuses_def dest: replay.accept_fresh)
  show "fst (plane_event_step C pp (Stream_in d)) \<Longrightarrow>
       plane_refuses (snd (plane_event_step C pp (Stream_in d))) (plane_number (Stream_in d))"
    by (rule probeplane_unwrap_window [of C pp d])
      (auto simp: plane_refuses_def dest: replay.accept_records)
  show "plane_refuses pp k \<Longrightarrow> plane_refuses (snd (plane_event_step C pp (Stream_in d))) k"
    by (rule probeplane_unwrap_window [of C pp d])
      (auto simp: plane_refuses_def probeplane_unwrap_rx intro: replay.refuses_stays
        split: prod.splits if_splits)
qed

interpretation plane: once_filter "plane_event_step C" plane_number plane_refuses for C
proof unfold_locales
  fix pp ev k
  show "\<not> plane_refuses pp (plane_number ev)" if "fst (plane_event_step C pp ev)"
  proof (cases ev)
    case (Probe_in pr)
    then show ?thesis using that replay.accept_fresh [of "pp_rx pp" "pr_seq pr"]
      by (simp add: probeplane_fresh_def plane_refuses_def split_beta)
  qed (use that plane_stream_once(1) plane_event_windows(3) in auto)
  show "plane_refuses (snd (plane_event_step C pp ev)) (plane_number ev)"
    if "fst (plane_event_step C pp ev)"
  proof (cases ev)
    case (Probe_in pr)
    then show ?thesis using that replay.accept_records [of "pp_rx pp" "pr_seq pr"]
      by (simp add: probeplane_fresh_def plane_refuses_def split_beta)
  qed (use that plane_stream_once(2) plane_event_windows(3) in auto)
  show "plane_refuses (snd (plane_event_step C pp ev)) k" if "plane_refuses pp k"
  proof (cases "(\<exists>d. ev = Stream_in d) \<or> (\<exists>pr. ev = Probe_in pr)")
    case True
    then consider d where "ev = Stream_in d" | pr where "ev = Probe_in pr" by blast
    then show ?thesis
    proof cases
      case 1
      then show ?thesis using plane_stream_once(3) [OF that, of C d] by simp
    next
      case (2 pr)
      then show ?thesis using that replay.refuses_stays [of "pp_rx pp" "snd k" "pr_seq pr"]
        by (auto simp: probeplane_fresh_def plane_refuses_def split_beta)
    qed
  next
    case False
    then show ?thesis using that plane_event_windows [of ev C pp]
      by (cases k; cases "fst k") (simp_all add: plane_refuses_def)
  qed
qed

text \<open>Over the life of a connection no stream datagram's counter and no probe's sequence is
  acted on twice: in any stream of arrivals and key changes (resets and rebinds included, under
  any keys), the numbers accepted are distinct, streams and probes counted apart.\<close>

theorem probeplane_never_twice:
  "distinct (map plane_number (accepted (plane_event_step C) pp evs))"
  by (rule plane.distinct_accepted)

section \<open>The base key is spent\<close>

lemma base_spent_stays:
  assumes "\<not> pp_base_ok pp" "ev \<noteq> Reset"
  shows "\<not> pp_base_ok (snd (plane_event_step C pp ev))"
  using assms
  by (cases ev)
    (auto simp: probeplane_bind_def probeplane_tx_ready_def probeplane_open_def probeplane_seal_def
      probeplane_wrap_def probeplane_unwrap_def probeplane_fresh_def saw_pair_def keys_take_def Let_def
      split: prod.splits bool.splits option.splits if_splits)

lemma open_spent:
  assumes "\<not> pp_base_ok pp" "probeplane_open C pp data = (Some pr, pp')"
  shows "pp_pair_ready pp \<and> path_probe_parse C (pp_magic pp) (pp_pair pp) data = Some pr \<or>
         pr_type pr = PROBE_FRESH"
  using assms
  by (auto simp: probeplane_open_def open_judge_def keys_take_def Let_def
      split: option.splits if_splits bool.splits prod.splits)

lemma unwrap_spent:
  assumes "\<not> pp_base_ok pp" "probeplane_unwrap C pp data = (Some body, pp')"
  shows "pp_pair_ready pp \<and> (\<exists>seq. dataauth_open C (pp_pair pp) data = Some (body, seq))"
  using assms
  by (auto simp: probeplane_unwrap_def keys_take_def Let_def
      split: option.splits if_splits prod.splits)

fun plane_run :: "crypto \<Rightarrow> probeplane \<Rightarrow> plane_event list \<Rightarrow> probeplane" where
  "plane_run C pp [] = pp"
| "plane_run C pp (ev # evs) = plane_run C (snd (plane_event_step C pp ev)) evs"

lemma base_spent_run:
  "\<not> pp_base_ok pp \<Longrightarrow> Reset \<notin> set evs \<Longrightarrow> \<not> pp_base_ok (plane_run C pp evs)"
proof (induction evs arbitrary: pp)
  case (Cons ev evs)
  then have "\<not> pp_base_ok (snd (plane_event_step C pp ev))" using base_spent_stays [of pp ev C] by auto
  then show ?case using Cons by simp
qed simp


text \<open>A connection bound on both sides, for the witnesses: two planes of one session.\<close>

definition plane_a :: probeplane where
  "plane_a = snd (probeplane_tx_ready (probeplane_bind plain_crypto
     (probeplane_init 42 (replicate 32 5) 100) (replicate 32 1) (replicate 32 2)))"

definition plane_b :: probeplane where
  "plane_b = probeplane_bind plain_crypto (probeplane_init 42 (replicate 32 5) 900)
     (replicate 32 2) (replicate 32 1)"

lemma plane_ab:
  "pp_magic plane_a = 42" "pp_magic plane_b = 42" "pp_base plane_a = replicate 32 5"
  "pp_base plane_b = replicate 32 5" "pp_pair_tx plane_a" "pp_pair_ready plane_b"
  "pp_pair plane_b = pp_pair plane_a" "pp_base_ok plane_b"
  using keys_conn_key_commute [of "replicate 32 1" "replicate 32 2" plain_crypto "replicate 32 5"]
  by (simp_all add: plane_a_def plane_b_def probeplane_init_def probeplane_bind_def
      probeplane_tx_ready_def)

section \<open>What one end seals, the other opens\<close>

lemma probeplane_open_sealed:
  assumes ok: "crypto_ok C" and n: "length nonce = 24"
    and wf: "wf_probe (pr\<lparr>pr_ufrag := take PROBE_UFRAG_MAX ufrag, pr_seq := pp_seq a + 1\<rparr>)"
    and same: "pp_magic a = pp_magic b" "pp_base a = pp_base b"
    and keys: "if pp_pair_tx a then pp_pair_ready b \<and> pp_pair b = pp_pair a else pp_base_ok b"
    and seal: "probeplane_seal C (Some nonce) a pr ufrag out_len = (Some frame, pr', a')"
    and apart: "\<not> pp_pair_tx a \<longrightarrow> pp_pair_ready b \<longrightarrow>
      path_probe_parse C (pp_magic b) (pp_pair b) frame = None"
  shows "fst (probeplane_open C b frame) = Some pr'" "pp_seq a' = pp_seq a + 1"
    "pr_seq pr' = pp_seq a'"
proof -
  let ?tx = "if pp_pair_tx a then pp_pair a else pp_base a"
  have pr': "pr' = pr\<lparr>pr_ufrag := take PROBE_UFRAG_MAX ufrag, pr_seq := pp_seq a + 1\<rparr>"
    and frame: "path_probe_build C (Some nonce) out_len (pp_magic a) ?tx pr' = Some frame"
    and a': "a' = a\<lparr>pp_seq := pp_seq a + 1\<rparr>"
    using seal by (auto simp: probeplane_seal_def Let_def)
  have parse: "path_probe_parse C (pp_magic b) ?tx frame = Some pr'"
    using path_probe_parse_build(1) [OF ok _ n frame] wf pr' same by simp
  show "fst (probeplane_open C b frame) = Some pr'"
    using parse keys apart same
    by (auto simp: probeplane_open_def Let_def open_judge_def keys_take_def
        split: if_splits option.splits bool.splits)
  show "pp_seq a' = pp_seq a + 1" "pr_seq pr' = pp_seq a'" by (simp_all add: a' pr')
qed

text \<open>A probe sealed at one end opens at the other to the same probe, under the next number
  of the sender, through the whole key change: while the sender still seals with the base key and
  the receiver still takes it, and once the sender seals with the pair key and the receiver holds
  the same one. (A frame of the base key is assumed not to open under the pair key.)\<close>

theorem probe_sealed_opens:
  assumes "crypto_ok C" "length nonce = 24" "PROBE_MAX \<le> out_len"
    and "wf_probe (pr\<lparr>pr_ufrag := take PROBE_UFRAG_MAX ufrag, pr_seq := pp_seq a + 1\<rparr>)"
    and "pp_magic a = pp_magic b" "pp_base a = pp_base b"
    and "if pp_pair_tx a then pp_pair_ready b \<and> pp_pair b = pp_pair a else pp_base_ok b"
    and "\<not> pp_pair_tx a \<longrightarrow> pp_pair_ready b \<longrightarrow>
      (\<forall>frame. fst (probeplane_seal C (Some nonce) a pr ufrag out_len) = Some frame \<longrightarrow>
         path_probe_parse C (pp_magic b) (pp_pair b) frame = None)"
  shows "\<exists>frame pr' a'. probeplane_seal C (Some nonce) a pr ufrag out_len = (Some frame, pr', a') \<and>
           pr_seq pr' = pp_seq a + 1 \<and> pp_seq a' = pp_seq a + 1 \<and>
           fst (probeplane_open C b frame) = Some pr'"
proof -
  let ?pr = "pr\<lparr>pr_ufrag := take PROBE_UFRAG_MAX ufrag, pr_seq := pp_seq a + 1\<rparr>"
  obtain frame where f: "path_probe_build C (Some nonce) out_len (pp_magic a)
      (if pp_pair_tx a then pp_pair a else pp_base a) ?pr = Some frame"
    using path_probe_build_total [OF assms(1,4,3)] by blast
  then have seal: "probeplane_seal C (Some nonce) a pr ufrag out_len =
      (Some frame, ?pr, a\<lparr>pp_seq := pp_seq a + 1\<rparr>)"
    by (cases "pp_pair_tx a") (simp_all add: probeplane_seal_def Let_def)
  show ?thesis
    using probeplane_open_sealed [OF assms(1,2,4,5,6,7) seal] assms(8) seal by simp
qed

theorem probe_sealed_opens_witness:
  "\<exists>frame pr' a'. probeplane_seal plain_crypto (Some (replicate 24 1)) plane_a example_probe
      (ascii ''abcd'') PROBE_MAX = (Some frame, pr', a') \<and>
    fst (probeplane_open plain_crypto plane_b frame) = Some pr'"
proof -
  have wf: "wf_probe (example_probe\<lparr>pr_ufrag := take PROBE_UFRAG_MAX (ascii ''abcd''),
      pr_seq := pp_seq plane_a + 1\<rparr>)"
    by (simp add: wf_probe_def example_probe_def PROBE_PING_def ascii_def probe_lens wf_ep_def)
  show ?thesis
    using probe_sealed_opens [OF plain_crypto_ok _ order_refl wf, of "replicate 24 1" plane_b] plane_ab
    by (auto simp: less_imp_le)
qed

lemma plane_b_saw_pair:
  "\<exists>frame pr pp1. probeplane_open plain_crypto plane_b frame = (Some pr, pp1) \<and> \<not> pp_base_ok pp1"
proof -
  obtain frame where f: "path_probe_build plain_crypto (Some (replicate 24 1)) PROBE_MAX 42
      (pp_pair plane_b) example_probe = Some frame"
    using path_probe_build_total [OF plain_crypto_ok wf_example_probe order_refl] by blast
  have "path_probe_parse plain_crypto 42 (pp_pair plane_b) frame = Some example_probe"
    using path_probe_parse_build(1) [OF plain_crypto_ok wf_example_probe _ f] by simp
  then have "probeplane_open plain_crypto plane_b frame = (Some example_probe, saw_pair plane_b)"
    using plane_ab by (simp add: probeplane_open_def open_judge_def keys_take_def)
  then show ?thesis by (metis saw_pair_fields(8))
qed


section \<open>A reset between two locked sections\<close>

text \<open>The first section of such an open, on a connection that is bound.\<close>

lemma open_under_pair_reachable:
  "\<exists>frame pr. open_judge plain_crypto 42 (pp_base plane_b) (keys_take plane_b) frame = (Some pr, True)"
proof -
  obtain frame pr pp1 where o: "probeplane_open plain_crypto plane_b frame = (Some pr, pp1)"
    "\<not> pp_base_ok pp1" using plane_b_saw_pair by blast
  then have j: "open_judge plain_crypto (pp_magic plane_b) (pp_base plane_b) (keys_take plane_b) frame =
      (Some pr, True)"
    using plane_ab by (auto simp: probeplane_open_def split: prod.splits bool.splits)
  then show ?thesis using plane_ab by auto
qed

text \<open>C36. The sections of the lock do not cover a whole open. When a transport thread has taken
  the keys and opened a frame under the pair key, and the connection is reset before it marks the
  base key spent, the plane is left with neither key: no stream datagram opens any more and no
  probe but the notice, until the next reset or bind.\<close>

theorem reset_race_leaves_no_key:
  "let pp' = saw_pair (probeplane_reset pp)
   in \<not> pp_pair_ready pp' \<and> \<not> pp_base_ok pp' \<and>
      (\<forall>frame. fst (probeplane_unwrap C pp' frame) = None) \<and>
      (\<forall>frame. case fst (probeplane_open C pp' frame) of
                  None \<Rightarrow> True | Some pr \<Rightarrow> pr_type pr = PROBE_FRESH)"
proof -
  define pp' where "pp' = saw_pair (probeplane_reset pp)"
  have k: "\<not> pp_pair_ready pp'" "\<not> pp_base_ok pp'"
    by (simp_all add: pp'_def) (simp add: probeplane_reset_def)
  then have "fst (probeplane_unwrap C pp' frame) = None" for frame
    using unwrap_spent [OF k(2), of C frame] by (cases "fst (probeplane_unwrap C pp' frame)") (auto simp: prod_eq_iff)
  moreover have "case fst (probeplane_open C pp' frame) of
      None \<Rightarrow> True | Some pr \<Rightarrow> pr_type pr = PROBE_FRESH" for frame
    using open_spent [OF k(2), of C frame] k(1)
    by (cases "fst (probeplane_open C pp' frame)") (auto simp: prod_eq_iff)
  ultimately show ?thesis using k by (simp add: Let_def pp'_def)
qed

end
