(* ===== verification/Ctlplane.thy ===== *)
theory Ctlplane
  imports Ctlproto Probeplane
begin

text \<open>
  What a pair tells each other over the control channel (ctlplane.c), and the patience of the
  heartbeat (hbeat.c): the key halves and the moment each end may seal under the pair key, the
  numbered statements about which path carries, the rendezvous nodes, families and reachability
  the peer reports, and the liveness verdict.

  The plane's structure and the probe plane it points to are one record; an operation returns
  it updated with the calls it makes on its sinks, in order. Which optional sinks there are and
  what the asking ones answer is the record \<open>ctlplane_sinks\<close>.

  The exchange of halves is then run between two ends over ordered channels, with every other
  message in between: an end that seals under the pair key is always understood, and the
  exchange always completes.
\<close>

section \<open>The heartbeat's patience\<close>

definition HB_INTERVAL_MS :: u32 where "HB_INTERVAL_MS = 700"
definition HB_SILENT_TRIES :: u32 where "HB_SILENT_TRIES = 3"
definition HB_RTT_CAP_MS :: int where "HB_RTT_CAP_MS = 1000"

definition hb_lost_ms :: "int \<Rightarrow> u32" where
  "hb_lost_ms rtt_ms =
     (let rtt = (if 0 < rtt_ms then
                   if HB_RTT_CAP_MS < rtt_ms then word_of_int HB_RTT_CAP_MS else word_of_int rtt_ms
                 else 0)
      in HB_SILENT_TRIES * HB_INTERVAL_MS + rtt)"

lemma uint_hb_lost_ms: "uint (hb_lost_ms r) = 2100 + max 0 (min r 1000)"
proof -
  have "hb_lost_ms r = word_of_int (2100 + max 0 (min r 1000))"
    by (auto simp: hb_lost_ms_def Let_def HB_INTERVAL_MS_def HB_SILENT_TRIES_def HB_RTT_CAP_MS_def
        min_def max_def)
  then have "uint (hb_lost_ms r) = take_bit LENGTH(32) (2100 + max 0 (min r 1000))"
    by (simp only: uint_word_of_int_eq)
  also have "\<dots> = 2100 + max 0 (min r 1000)"
    by (rule take_bit_int_eq_self) auto
  finally show ?thesis .
qed

lemma uint_ucast_hb_lost_ms: "uint (ucast (hb_lost_ms r) :: u64) = uint (hb_lost_ms r)"
  by (simp add: unsigned_ucast_eq take_bit_int_eq_self uint_hb_lost_ms)

section \<open>State\<close>

record ctlplane_node =
  nd_sa :: sockaddr
  nd_len :: nat
  nd_have :: bool
  nd_status :: int

record ctlplane_live =
  lv_last_pong_ms :: u64
  lv_last_heard_ms :: u64
  lv_lost_since_ms :: u64
  lv_rtt_ms :: int
  lv_pong_seen :: bool
  lv_live_gen :: u32

record ctlplane =
  cp_pp :: probeplane
  cp_half_out :: "byte list"
  cp_half_in :: "byte list"
  cp_half_sent :: bool
  cp_half_seen :: bool
  cp_rdv_in :: "ctlplane_node list"
  cp_rdv_in_dirty :: bool
  cp_reach_in :: "byte list"
  cp_reach_in_seen :: bool
  cp_reach_in_dirty :: bool
  cp_rdvask_in :: u32
  cp_rdvask_out :: u32
  cp_txsel_seq_out :: u32
  cp_txsel_seq_in :: u32
  cp_txsel_wait :: u32
  cp_txsel_in_pending :: bool
  cp_txack_in_pending :: bool
  cp_txsel_in_id :: "byte list"
  cp_txack_in_id :: "byte list"
  cp_txsel_in_flags :: int
  cp_txack_in_flags :: int
  cp_live :: ctlplane_live

text \<open>The sinks: whether each optional one is set, and the answers of those that are asked
  (\<open>True\<close> for an absent \<open>answer_ping\<close> or \<open>ready\<close>).\<close>

record ctlplane_sinks =
  ck_offer_path :: bool
  ck_answer_ping :: bool
  ck_pong :: bool
  ck_ready :: bool
  ck_other :: bool

datatype ctl_call = Send int "byte list" | Offer_path sockaddr nat | Pong | Other int "byte list"

definition node_zero :: ctlplane_node where
  "node_zero = \<lparr>nd_sa = AF_OTHER, nd_len = 0, nd_have = False, nd_status = 0\<rparr>"

definition live_zero :: ctlplane_live where
  "live_zero = \<lparr>lv_last_pong_ms = 0, lv_last_heard_ms = 0, lv_lost_since_ms = 0, lv_rtt_ms = 0,
     lv_pong_seen = False, lv_live_gen = 0\<rparr>"

definition ctlplane_init :: "probeplane \<Rightarrow> ctlplane" where
  "ctlplane_init pp =
     \<lparr>cp_pp = pp, cp_half_out = replicate 32 0, cp_half_in = replicate 32 0,
      cp_half_sent = False, cp_half_seen = False,
      cp_rdv_in = replicate 2 node_zero, cp_rdv_in_dirty = False,
      cp_reach_in = replicate CTL_REACH_PLEN 0, cp_reach_in_seen = False, cp_reach_in_dirty = False,
      cp_rdvask_in = 0, cp_rdvask_out = 0,
      cp_txsel_seq_out = 0, cp_txsel_seq_in = 0, cp_txsel_wait = 0,
      cp_txsel_in_pending = False, cp_txack_in_pending = False,
      cp_txsel_in_id = replicate CTL_TXSEL_ID_LEN 0, cp_txack_in_id = replicate CTL_TXSEL_ID_LEN 0,
      cp_txsel_in_flags = 0, cp_txack_in_flags = 0, cp_live = live_zero\<rparr>"

definition ctlplane_reset :: "ctlplane \<Rightarrow> ctlplane" where
  "ctlplane_reset cp =
     cp\<lparr>cp_half_sent := False, cp_half_seen := False, cp_txsel_seq_out := 0, cp_txsel_seq_in := 0,
        cp_txsel_wait := 0, cp_txsel_in_pending := False, cp_txack_in_pending := False\<rparr>"

section \<open>Liveness\<close>

definition ctlplane_live_reset :: "ctlplane \<Rightarrow> u64 \<Rightarrow> ctlplane" where
  "ctlplane_live_reset cp now =
     cp\<lparr>cp_live := (cp_live cp)\<lparr>lv_last_pong_ms := now, lv_last_heard_ms := now,
          lv_pong_seen := False, lv_lost_since_ms := 0\<rparr>\<rparr>"

definition ctlplane_heard :: "ctlplane \<Rightarrow> u64 \<Rightarrow> ctlplane" where
  "ctlplane_heard cp now =
     (if now - lv_last_heard_ms (cp_live cp) < 100 then cp
      else cp\<lparr>cp_live := (cp_live cp)\<lparr>lv_last_heard_ms := now\<rparr>\<rparr>)"

definition ctlplane_liveness :: "ctlplane \<Rightarrow> ctlplane_live" where
  "ctlplane_liveness cp = cp_live cp"

definition ctlplane_pong_seen :: "ctlplane \<Rightarrow> bool" where
  "ctlplane_pong_seen cp = lv_pong_seen (cp_live cp)"

text \<open>The verdict, the time the link has been quiet since, and the plane with the latch.\<close>

definition ctlplane_judge :: "ctlplane \<Rightarrow> u64 \<Rightarrow> bool \<times> u64 \<times> ctlplane" where
  "ctlplane_judge cp now =
     (let lv = cp_live cp;
          lp = (if lv_last_heard_ms lv > lv_last_pong_ms lv then lv_last_heard_ms lv
                else lv_last_pong_ms lv);
          lv' = (if lv_pong_seen lv then
                   if now - lp > ucast (hb_lost_ms (lv_rtt_ms lv)) then
                     if lv_lost_since_ms lv = 0 then lv\<lparr>lv_lost_since_ms := now\<rparr> else lv
                   else lv\<lparr>lv_lost_since_ms := 0\<rparr>
                 else lv)
      in (lv_lost_since_ms lv' \<noteq> 0, lp, cp\<lparr>cp_live := lv'\<rparr>))"

definition ctlplane_lost :: "ctlplane \<Rightarrow> bool" where
  "ctlplane_lost cp \<longleftrightarrow> lv_lost_since_ms (cp_live cp) \<noteq> 0"

section \<open>The key halves\<close>

definition key_bind :: "crypto \<Rightarrow> ctlplane \<Rightarrow> ctlplane \<times> ctl_call list" where
  "key_bind C cp =
     (if pp_pair_ready (cp_pp cp) \<or> \<not> cp_half_sent cp \<or> \<not> cp_half_seen cp then (cp, [])
      else (cp\<lparr>cp_pp := probeplane_bind C (cp_pp cp) (cp_half_out cp) (cp_half_in cp)\<rparr>,
            [Send CTLM_KEYOK []]))"

text \<open>\<open>rnd\<close> is what \<open>random_bytes\<close> returns, \<open>None\<close> where it fails.\<close>

definition ctlplane_offer_key ::
    "crypto \<Rightarrow> byte list option \<Rightarrow> ctlplane \<Rightarrow> bool \<times> ctlplane \<times> ctl_call list" where
  "ctlplane_offer_key C rnd cp =
     (if cp_half_sent cp then (False, cp, [])
      else case rnd of
        None \<Rightarrow> (False, cp, [])
      | Some half \<Rightarrow>
          let (cp', outs) = key_bind C (cp\<lparr>cp_half_out := half, cp_half_sent := True\<rparr>)
          in (True, cp', Send CTLM_KEY half # outs))"

section \<open>What this end says\<close>

text \<open>\<open>None\<close> where the address is not of the family the caller names.\<close>

definition ctlplane_tell_rdv :: "int \<Rightarrow> sockaddr \<Rightarrow> int \<Rightarrow> ctl_call list option" where
  "ctlplane_tell_rdv family sa status =
     map_option (\<lambda>pl. [Send CTLM_RDV (pl @ [word_of_int status])]) (ctl_rdv_encode family sa)"

definition ctlplane_tell_cand :: "int \<Rightarrow> sockaddr \<Rightarrow> ctl_call list option" where
  "ctlplane_tell_cand family sa = map_option (\<lambda>pl. [Send CTLM_CAND pl]) (ctl_rdv_encode family sa)"

definition ctlplane_tell_txsel ::
    "ctlplane_sinks \<Rightarrow> ctlplane \<Rightarrow> byte list \<Rightarrow> int \<Rightarrow> u32 \<times> ctlplane \<times> ctl_call list" where
  "ctlplane_tell_txsel k cp pid flags =
     (if \<not> ck_ready k then (0, cp, [])
      else let seq = cp_txsel_seq_out cp + 1 in
        (seq, cp\<lparr>cp_txsel_seq_out := seq, cp_txsel_wait := seq, cp_txack_in_pending := False\<rparr>,
         [Send CTLM_TXSEL (ctl_txsel_encode seq pid flags)]))"

definition ctlplane_tell_txack ::
    "ctlplane_sinks \<Rightarrow> u32 \<Rightarrow> byte list \<Rightarrow> int \<Rightarrow> ctl_call list" where
  "ctlplane_tell_txack k seq pid flags =
     (if \<not> ck_ready k then [] else [Send CTLM_TXACK (ctl_txsel_encode seq pid flags)])"

definition ctlplane_tell_reach :: "byte list \<Rightarrow> ctl_call list" where
  "ctlplane_tell_reach pl = [Send CTLM_REACH (take CTL_REACH_PLEN pl)]"

definition ctlplane_ping :: "u64 \<Rightarrow> ctl_call list" where
  "ctlplane_ping now = [Send CTLM_PING (ctl_put_u64 now)]"

definition ctlplane_ask_rdv :: "ctlplane \<Rightarrow> int \<Rightarrow> ctlplane" where
  "ctlplane_ask_rdv cp family =
     cp\<lparr>cp_rdvask_out := cp_rdvask_out cp OR (if family = 6 then 2 else 1)\<rparr>"

definition ctlplane_tell_asks :: "ctlplane \<Rightarrow> ctlplane \<times> ctl_call list" where
  "ctlplane_tell_asks cp =
     (let ask = cp_rdvask_out cp in
      (cp\<lparr>cp_rdvask_out := 0\<rparr>,
       (if ask AND 1 \<noteq> 0 then [Send CTLM_RDVASK [4]] else []) @
       (if ask AND 2 \<noteq> 0 then [Send CTLM_RDVASK [6]] else [])))"

section \<open>What the model's owner takes\<close>

definition ctlplane_take_txsel :: "ctlplane \<Rightarrow> (u32 \<times> byte list \<times> int) option \<times> ctlplane" where
  "ctlplane_take_txsel cp =
     (if cp_txsel_in_pending cp then
        (Some (cp_txsel_seq_in cp, cp_txsel_in_id cp, cp_txsel_in_flags cp),
         cp\<lparr>cp_txsel_in_pending := False\<rparr>)
      else (None, cp))"

definition ctlplane_take_txack :: "ctlplane \<Rightarrow> (u32 \<times> byte list \<times> int) option \<times> ctlplane" where
  "ctlplane_take_txack cp =
     (if cp_txack_in_pending cp then
        (Some (cp_txsel_wait cp, cp_txack_in_id cp, cp_txack_in_flags cp),
         cp\<lparr>cp_txack_in_pending := False, cp_txsel_wait := 0\<rparr>)
      else (None, cp))"

definition ctlplane_take_nodes :: "ctlplane \<Rightarrow> ctlplane_node list option \<times> ctlplane" where
  "ctlplane_take_nodes cp =
     (if \<not> cp_rdv_in_dirty cp then (None, cp)
      else (Some (cp_rdv_in cp), cp\<lparr>cp_rdv_in_dirty := False\<rparr>))"

definition ctlplane_take_asks :: "ctlplane \<Rightarrow> u32 \<times> ctlplane" where
  "ctlplane_take_asks cp = (cp_rdvask_in cp, cp\<lparr>cp_rdvask_in := 0\<rparr>)"

definition ctlplane_take_reach :: "ctlplane \<Rightarrow> byte list option \<times> ctlplane" where
  "ctlplane_take_reach cp =
     (if \<not> cp_reach_in_dirty cp then (None, cp)
      else (Some (cp_reach_in cp), cp\<lparr>cp_reach_in_dirty := False\<rparr>))"

definition ctlplane_peer_reach :: "ctlplane \<Rightarrow> byte list option" where
  "ctlplane_peer_reach cp = (if cp_reach_in_seen cp then Some (cp_reach_in cp) else None)"

section \<open>What the peer says\<close>

definition on_pong ::
    "ctlplane_sinks \<Rightarrow> ctlplane \<Rightarrow> byte list \<Rightarrow> u32 \<Rightarrow> u64 \<Rightarrow> ctlplane \<times> ctl_call list" where
  "on_pong k cp pl netgen now =
     (cp\<lparr>cp_live := (cp_live cp)\<lparr>lv_last_pong_ms := now,
          lv_rtt_ms := sint (ucast (now - ctl_get_u64 pl) :: u32), lv_pong_seen := True,
          lv_live_gen := netgen\<rparr>\<rparr>,
      if ck_pong k then [Pong] else [])"

definition on_rdv :: "ctlplane \<Rightarrow> byte list \<Rightarrow> ctlplane" where
  "on_rdv cp pl =
     (case ctl_rdv_decode pl of
        None \<Rightarrow> cp
      | Some (fam, sa, sl) \<Rightarrow>
          let i = (if fam = 6 then 1 else 0) in
          cp\<lparr>cp_rdv_in := (cp_rdv_in cp)[i := \<lparr>nd_sa = sa, nd_len = sl, nd_have = True,
               nd_status = (if CTL_RDVST_PLEN \<le> length pl then uint (pl ! CTL_RDV_PLEN) else 0)\<rparr>],
             cp_rdv_in_dirty := True\<rparr>)"

definition on_txsel :: "ctlplane \<Rightarrow> byte list \<Rightarrow> ctlplane" where
  "on_txsel cp pl =
     (case ctl_txsel_decode pl of
        None \<Rightarrow> cp
      | Some (seq, pid, flags) \<Rightarrow>
          if cp_txsel_seq_in cp < seq then
            cp\<lparr>cp_txsel_seq_in := seq, cp_txsel_in_id := pid, cp_txsel_in_flags := flags,
               cp_txsel_in_pending := True\<rparr>
          else cp)"

definition on_txack :: "ctlplane \<Rightarrow> byte list \<Rightarrow> ctlplane" where
  "on_txack cp pl =
     (case ctl_txsel_decode pl of
        None \<Rightarrow> cp
      | Some (seq, pid, flags) \<Rightarrow>
          if cp_txsel_wait cp \<noteq> 0 \<and> seq = cp_txsel_wait cp then
            cp\<lparr>cp_txack_in_id := pid, cp_txack_in_flags := flags, cp_txack_in_pending := True\<rparr>
          else cp)"

definition ctlplane_on_msg ::
    "crypto \<Rightarrow> ctlplane_sinks \<Rightarrow> ctlplane \<Rightarrow> int \<Rightarrow> byte list \<Rightarrow> u32 \<Rightarrow> u64 \<Rightarrow>
     bool \<times> ctlplane \<times> ctl_call list" where
  "ctlplane_on_msg C k cp typ pl netgen now =
     (if typ = CTLM_PING \<and> CTL_TS_LEN \<le> length pl then
        (True, cp, if ck_answer_ping k then [Send CTLM_PONG (take CTL_TS_LEN pl)] else [])
      else if typ = CTLM_PONG \<and> CTL_TS_LEN \<le> length pl then
        (True, on_pong k cp pl netgen now)
      else if typ = CTLM_RDV \<and> CTL_RDV_PLEN \<le> length pl then (True, on_rdv cp pl, [])
      else if typ = CTLM_REACH \<and> CTL_REACH_PLEN \<le> length pl then
        (True, cp\<lparr>cp_reach_in := take CTL_REACH_PLEN pl, cp_reach_in_seen := True,
                  cp_reach_in_dirty := True\<rparr>, [])
      else if typ = CTLM_KEY \<and> CTL_KEY_PLEN \<le> length pl then
        (True, key_bind C (cp\<lparr>cp_half_in := take CTL_KEY_PLEN pl, cp_half_seen := True\<rparr>))
      else if typ = CTLM_KEYOK then
        (True, cp\<lparr>cp_pp := snd (probeplane_tx_ready (cp_pp cp))\<rparr>, [])
      else if typ = CTLM_RDVASK \<and> CTL_RDVASK_PLEN \<le> length pl then
        (True, if pl ! 0 = 4 \<or> pl ! 0 = 6 then
                 cp\<lparr>cp_rdvask_in := cp_rdvask_in cp OR (if pl ! 0 = 6 then 2 else 1)\<rparr>
               else cp, [])
      else if typ = CTLM_TXSEL \<and> CTL_TXSEL_PLEN \<le> length pl then (True, on_txsel cp pl, [])
      else if typ = CTLM_TXACK \<and> CTL_TXSEL_PLEN \<le> length pl then (True, on_txack cp pl, [])
      else if typ = CTLM_CAND \<and> CTL_RDV_PLEN \<le> length pl then
        (True, cp,
         case ctl_rdv_decode pl of
           Some (fam, sa, sl) \<Rightarrow> if ck_offer_path k then [Offer_path sa sl] else []
         | None \<Rightarrow> [])
      else (False, cp, if ck_other k then [Other typ pl] else []))"

section \<open>Statements and answers are taken once\<close>

text \<open>What happens to the statements of one channel: messages arrive, this end states its choice,
  and its owner takes what has come.\<close>

datatype cp_event =
    Ev_msg ctlplane_sinks int "byte list" u32 u64
  | Ev_tell ctlplane_sinks "byte list" int
  | Ev_take_sel
  | Ev_take_ack

type_synonym txmsg = "u32 \<times> byte list \<times> int"

fun cp_step :: "crypto \<Rightarrow> ctlplane \<Rightarrow> cp_event \<Rightarrow> ctlplane" where
  "cp_step C cp (Ev_msg k t pl gen now) = fst (snd (ctlplane_on_msg C k cp t pl gen now))"
| "cp_step C cp (Ev_tell k pid flags) = fst (snd (ctlplane_tell_txsel k cp pid flags))"
| "cp_step C cp Ev_take_sel = snd (ctlplane_take_txsel cp)"
| "cp_step C cp Ev_take_ack = snd (ctlplane_take_txack cp)"

text \<open>What the owner is handed, in order: statements, and answers.\<close>

fun sel_taken :: "crypto \<Rightarrow> ctlplane \<Rightarrow> cp_event list \<Rightarrow> txmsg list" where
  "sel_taken C cp [] = []"
| "sel_taken C cp (e # es) =
     (case (e, fst (ctlplane_take_txsel cp)) of (Ev_take_sel, Some m) \<Rightarrow> [m] | _ \<Rightarrow> []) @
     sel_taken C (cp_step C cp e) es"

fun ack_taken :: "crypto \<Rightarrow> ctlplane \<Rightarrow> cp_event list \<Rightarrow> txmsg list" where
  "ack_taken C cp [] = []"
| "ack_taken C cp (e # es) =
     (case (e, fst (ctlplane_take_txack cp)) of (Ev_take_ack, Some m) \<Rightarrow> [m] | _ \<Rightarrow> []) @
     ack_taken C (cp_step C cp e) es"

text \<open>What the peer said, by message type.\<close>

fun said :: "int \<Rightarrow> cp_event list \<Rightarrow> txmsg set" where
  "said typ [] = {}"
| "said typ (Ev_msg k t pl gen now # es) =
     (if t = typ then (case ctl_txsel_decode pl of Some m \<Rightarrow> {m} | None \<Rightarrow> {}) else {}) \<union> said typ es"
| "said typ (_ # es) = said typ es"

text \<open>The part of the plane that matters here, and how a message changes it.\<close>

definition txview :: "ctlplane \<Rightarrow> (u32 \<times> bool \<times> txmsg) \<times> (u32 \<times> u32 \<times> bool \<times> byte list \<times> int)" where
  "txview cp =
     ((cp_txsel_seq_in cp, cp_txsel_in_pending cp,
       (cp_txsel_seq_in cp, cp_txsel_in_id cp, cp_txsel_in_flags cp)),
      (cp_txsel_seq_out cp, cp_txsel_wait cp, cp_txack_in_pending cp, cp_txack_in_id cp,
       cp_txack_in_flags cp))"

lemma txview_rest [simp]:
  "txview (on_rdv cp pl) = txview cp"
  "txview (fst (on_pong k cp pl gen now)) = txview cp"
  "txview (fst (key_bind C cp)) = txview cp"
  "txview (cp\<lparr>cp_reach_in := r, cp_reach_in_seen := b, cp_reach_in_dirty := d\<rparr>) = txview cp"
  "txview (cp\<lparr>cp_half_in := r, cp_half_seen := b\<rparr>) = txview cp"
  "txview (cp\<lparr>cp_pp := pp\<rparr>) = txview cp"
  "txview (cp\<lparr>cp_rdvask_in := a\<rparr>) = txview cp"
  by (simp_all add: txview_def on_rdv_def on_pong_def key_bind_def Let_def split: option.split)

lemma txview_on_msg_rest:
  assumes "t \<noteq> CTLM_TXSEL" "t \<noteq> CTLM_TXACK"
  shows "txview (fst (snd (ctlplane_on_msg C k cp t pl gen now))) = txview cp"
  using assms by (simp add: ctlplane_on_msg_def)

lemma on_msg_txsel:
  "fst (snd (ctlplane_on_msg C k cp CTLM_TXSEL pl gen now)) = on_txsel cp pl"
  by (simp add: ctlplane_on_msg_def ctlm_types on_txsel_def ctl_txsel_decode_def)

lemma on_msg_txack:
  "fst (snd (ctlplane_on_msg C k cp CTLM_TXACK pl gen now)) = on_txack cp pl"
  by (simp add: ctlplane_on_msg_def ctlm_types on_txack_def ctl_txsel_decode_def)

lemma on_txsel_cases:
  obtains (same) "txview (on_txsel cp pl) = txview cp"
  | (took) m where "ctl_txsel_decode pl = Some m" "cp_txsel_seq_in cp < fst m"
      "txview (on_txsel cp pl) = ((fst m, True, m), snd (txview cp))"
proof (cases "ctl_txsel_decode pl")
  case None
  then show ?thesis by (intro same) (simp add: on_txsel_def)
next
  case (Some m)
  then show ?thesis
    by (cases m; cases "cp_txsel_seq_in cp < fst m")
      (rule took, auto simp: on_txsel_def txview_def intro: same)
qed

lemma on_txack_cases:
  obtains (same) "txview (on_txack cp pl) = txview cp"
  | (took) m where "ctl_txsel_decode pl = Some m" "cp_txsel_wait cp \<noteq> 0" "fst m = cp_txsel_wait cp"
      "txview (on_txack cp pl) = (fst (txview cp), (cp_txsel_seq_out cp, fst m, True, snd m))"
proof (cases "ctl_txsel_decode pl")
  case None
  then show ?thesis by (intro same) (simp add: on_txack_def)
next
  case (Some m)
  then show ?thesis
    by (cases m; cases "cp_txsel_wait cp \<noteq> 0 \<and> fst m = cp_txsel_wait cp")
      (rule took, auto simp: on_txack_def txview_def intro: same)
qed

text \<open>One event, as it changes the view.\<close>

lemma cp_step_cases:
  obtains (same) "txview (cp_step C cp e) = txview cp"
  | (sel) k pl gen now m where "e = Ev_msg k CTLM_TXSEL pl gen now" "ctl_txsel_decode pl = Some m"
      "cp_txsel_seq_in cp < fst m" "txview (cp_step C cp e) = ((fst m, True, m), snd (txview cp))"
  | (ack) k pl gen now m where "e = Ev_msg k CTLM_TXACK pl gen now" "ctl_txsel_decode pl = Some m"
      "cp_txsel_wait cp \<noteq> 0" "fst m = cp_txsel_wait cp"
      "txview (cp_step C cp e) = (fst (txview cp), (cp_txsel_seq_out cp, fst m, True, snd m))"
  | (tell) "txview (cp_step C cp e) = (fst (txview cp),
        (cp_txsel_seq_out cp + 1, cp_txsel_seq_out cp + 1, False, cp_txack_in_id cp, cp_txack_in_flags cp))"
      "e \<noteq> Ev_take_sel" "e \<noteq> Ev_take_ack"
  | (take_sel) "e = Ev_take_sel" "cp_txsel_in_pending cp"
      "txview (cp_step C cp e) = ((cp_txsel_seq_in cp, False, snd (snd (fst (txview cp)))), snd (txview cp))"
  | (take_ack) "e = Ev_take_ack" "cp_txack_in_pending cp"
      "txview (cp_step C cp e) = (fst (txview cp),
        (cp_txsel_seq_out cp, 0, False, cp_txack_in_id cp, cp_txack_in_flags cp))"
proof (cases e)
  case (Ev_msg k t pl gen now)
  consider "t = CTLM_TXSEL" | "t = CTLM_TXACK" | "t \<noteq> CTLM_TXSEL" "t \<noteq> CTLM_TXACK" by blast
  then show ?thesis
  proof cases
    case 1
    then show ?thesis
      using Ev_msg by (cases rule: on_txsel_cases [of cp pl]) (auto simp: on_msg_txsel intro: same sel)
  next
    case 2
    then show ?thesis
      using Ev_msg by (cases rule: on_txack_cases [of cp pl]) (auto simp: on_msg_txack intro: same ack)
  next
    case 3
    then show ?thesis using Ev_msg by (intro same) (simp add: txview_on_msg_rest)
  qed
next
  case (Ev_tell k pid flags)
  then show ?thesis
    by (cases "ck_ready k")
      (rule tell, auto simp: ctlplane_tell_txsel_def txview_def Let_def intro: same)
next
  case Ev_take_sel
  then show ?thesis
    by (cases "cp_txsel_in_pending cp")
      (rule take_sel, auto simp: ctlplane_take_txsel_def txview_def intro: same)
next
  case Ev_take_ack
  then show ?thesis
    by (cases "cp_txack_in_pending cp")
      (rule take_ack, auto simp: ctlplane_take_txack_def txview_def intro: same)
qed

text \<open>\<open>sel_done x\<close>: no statement numbered \<open>x\<close> or less will be handed out again. \<open>ack_done x\<close>: the
  same for answers, while the numbering has \<open>n\<close> statements left before it wraps.\<close>

definition sel_done :: "u32 \<Rightarrow> ctlplane \<Rightarrow> bool" where
  "sel_done x cp \<longleftrightarrow> x < cp_txsel_seq_in cp \<or> x = cp_txsel_seq_in cp \<and> \<not> cp_txsel_in_pending cp"

definition sel_held :: "ctlplane \<Rightarrow> txmsg set" where
  "sel_held cp = (if cp_txsel_in_pending cp
     then {(cp_txsel_seq_in cp, cp_txsel_in_id cp, cp_txsel_in_flags cp)} else {})"

definition ack_done :: "u32 \<Rightarrow> ctlplane \<Rightarrow> bool" where
  "ack_done x cp \<longleftrightarrow> x \<le> cp_txsel_seq_out cp \<and> (cp_txack_in_pending cp \<longrightarrow> cp_txsel_wait cp \<noteq> 0) \<and>
     (cp_txsel_wait cp \<noteq> 0 \<longrightarrow> x < cp_txsel_wait cp \<and> cp_txsel_wait cp = cp_txsel_seq_out cp)"

definition ack_held :: "ctlplane \<Rightarrow> txmsg set" where
  "ack_held cp = (if cp_txack_in_pending cp
     then {(cp_txsel_wait cp, cp_txack_in_id cp, cp_txack_in_flags cp)} else {})"

lemmas tx_defs = sel_done_def sel_held_def ack_done_def ack_held_def txview_def

lemma sel_done_step: "sel_done x cp \<Longrightarrow> sel_done x (cp_step C cp e)"
  by (cases rule: cp_step_cases [of C cp e]) (auto simp: tx_defs)

lemma sel_taken_above: "sel_done x cp \<Longrightarrow> m \<in> set (sel_taken C cp es) \<Longrightarrow> x < fst m"
proof (induction es arbitrary: cp)
  case (Cons e es)
  then show ?case
    using sel_done_step [of x cp C e]
    by (auto simp: ctlplane_take_txsel_def sel_done_def split: cp_event.splits if_splits)
qed simp

lemma sel_taken_sorted: "sorted_wrt (<) (map fst (sel_taken C cp es))"
proof (induction es arbitrary: cp)
  case (Cons e es)
  have "sel_done (cp_txsel_seq_in cp) (cp_step C cp Ev_take_sel)"
    by (simp add: sel_done_def ctlplane_take_txsel_def)
  then show ?case
    using Cons.IH sel_taken_above [of "cp_txsel_seq_in cp" "cp_step C cp e" _ C es]
    by (auto simp: ctlplane_take_txsel_def split: cp_event.splits)
qed simp

lemma sel_held_step: "sel_held (cp_step C cp e) \<subseteq> sel_held cp \<union> said CTLM_TXSEL [e]"
  by (cases rule: cp_step_cases [of C cp e]) (auto simp: tx_defs)

lemma said_Cons: "said typ (e # es) = said typ [e] \<union> said typ es"
  by (cases e) auto

lemma sel_taken_said: "set (sel_taken C cp es) \<subseteq> sel_held cp \<union> said CTLM_TXSEL es"
proof (induction es arbitrary: cp)
  case (Cons e es)
  have "set (case (e, fst (ctlplane_take_txsel cp)) of (Ev_take_sel, Some m) \<Rightarrow> [m] | _ \<Rightarrow> []) \<subseteq> sel_held cp"
    by (auto simp: ctlplane_take_txsel_def sel_held_def split: cp_event.splits)
  then show ?case
    using Cons.IH [of "cp_step C cp e"] sel_held_step [of C cp e] said_Cons [of CTLM_TXSEL e es]
    by auto
qed simp

lemma ack_done_step:
  assumes "ack_done x cp" "unat (cp_txsel_seq_out cp) + 1 < 2 ^ 32"
  shows "ack_done x (cp_step C cp e)"
proof -
  have lt: "cp_txsel_seq_out cp < cp_txsel_seq_out cp + 1"
    using assms(2) by (simp add: word_less_nat_alt unat_word_ariths)
  then have "x < cp_txsel_seq_out cp + 1" using assms(1) by (auto simp: ack_done_def)
  then show ?thesis
    using assms(1) lt by (cases rule: cp_step_cases [of C cp e]) (auto simp: tx_defs)
qed

lemma seq_out_step: "unat (cp_txsel_seq_out cp) + 1 < 2 ^ 32 \<Longrightarrow>
  unat (cp_txsel_seq_out (cp_step C cp e)) \<le> unat (cp_txsel_seq_out cp) + 1"
  by (cases rule: cp_step_cases [of C cp e]) (auto simp: tx_defs unat_word_ariths)

lemma ack_taken_above:
  "ack_done x cp \<Longrightarrow> unat (cp_txsel_seq_out cp) + length es < 2 ^ 32 \<Longrightarrow>
   m \<in> set (ack_taken C cp es) \<Longrightarrow> x < fst m"
proof (induction es arbitrary: cp)
  case (Cons e es)
  have "ack_done x (cp_step C cp e)"
    "unat (cp_txsel_seq_out (cp_step C cp e)) + length es < 2 ^ 32"
    using Cons.prems(1,2) ack_done_step [of x cp C e] seq_out_step [of cp C e] by simp_all
  then show ?case
    using Cons.IH Cons.prems(1,3)
    by (auto simp: ctlplane_take_txack_def ack_done_def split: cp_event.splits if_splits)
qed simp

lemma ack_taken_sorted:
  "ack_done x cp \<Longrightarrow> unat (cp_txsel_seq_out cp) + length es < 2 ^ 32 \<Longrightarrow>
   sorted_wrt (<) (map fst (ack_taken C cp es))"
proof (induction es arbitrary: cp)
  case (Cons e es)
  have step: "ack_done x (cp_step C cp e)"
    "unat (cp_txsel_seq_out (cp_step C cp e)) + length es < 2 ^ 32"
    using Cons.prems ack_done_step [of x cp C e] seq_out_step [of cp C e] by simp_all
  have "ack_done (cp_txsel_wait cp) (cp_step C cp Ev_take_ack)" if "cp_txack_in_pending cp"
    using that Cons.prems(1) by (simp add: ack_done_def ctlplane_take_txack_def)
  then show ?case
    using Cons.IH [OF step] step(2) ack_taken_above [of "cp_txsel_wait cp" "cp_step C cp e" es _ C]
    by (auto simp: ctlplane_take_txack_def split: cp_event.splits)
qed simp

lemma ack_held_step: "ack_held (cp_step C cp e) \<subseteq> ack_held cp \<union> said CTLM_TXACK [e]"
  by (cases rule: cp_step_cases [of C cp e]) (auto simp: tx_defs)

lemma ack_taken_said: "set (ack_taken C cp es) \<subseteq> ack_held cp \<union> said CTLM_TXACK es"
proof (induction es arbitrary: cp)
  case (Cons e es)
  have "set (case (e, fst (ctlplane_take_txack cp)) of (Ev_take_ack, Some m) \<Rightarrow> [m] | _ \<Rightarrow> []) \<subseteq> ack_held cp"
    by (auto simp: ctlplane_take_txack_def ack_held_def split: cp_event.splits)
  then show ?case
    using Cons.IH [of "cp_step C cp e"] ack_held_step [of C cp e] said_Cons [of CTLM_TXACK e es]
    by auto
qed simp

text \<open>A run for the witnesses: answers and statements, each followed by a duplicate or an older one.\<close>

definition ex_plane :: ctlplane where
  "ex_plane = ctlplane_init (probeplane_init 1 (replicate 32 7) 0)"

definition ex_sinks :: ctlplane_sinks where
  "ex_sinks = \<lparr>ck_offer_path = False, ck_answer_ping = True, ck_pong = False, ck_ready = True,
     ck_other = False\<rparr>"

definition ex_tx_events :: "cp_event list" where
  "ex_tx_events =
     (let pid = replicate 8 5; msg = (\<lambda>t seq. Ev_msg ex_sinks t (ctl_txsel_encode seq pid 0) 0 0)
      in [Ev_tell ex_sinks pid 0, msg CTLM_TXACK 1, Ev_take_ack, msg CTLM_TXACK 1, Ev_take_ack,
          msg CTLM_TXSEL 4, Ev_take_sel, msg CTLM_TXSEL 3, Ev_take_sel, msg CTLM_TXSEL 5, Ev_take_sel])"

text \<open>C23. On one channel the numbers of the path statements handed out strictly increase, and so
  do those of the answers (within the 2 to the 32 statements of one numbering): a statement, or the answer
  to one, is acted on once, never after a newer one, and is one the peer really sent. Answers to
  a number other than the one awaited are never handed out.\<close>

theorem statements_taken_once:
  assumes "length es < 2 ^ 32"
  shows "sorted_wrt (<) (map fst (sel_taken C (ctlplane_reset cp) es)) \<and>
    set (sel_taken C (ctlplane_reset cp) es) \<subseteq> said CTLM_TXSEL es \<and>
    sorted_wrt (<) (map fst (ack_taken C (ctlplane_reset cp) es)) \<and>
    set (ack_taken C (ctlplane_reset cp) es) \<subseteq> said CTLM_TXACK es"
proof -
  let ?cp = "ctlplane_reset cp"
  have "ack_done 0 ?cp" "unat (cp_txsel_seq_out ?cp) + length es < 2 ^ 32"
    "sel_held ?cp = {}" "ack_held ?cp = {}"
    using assms by (simp_all add: ctlplane_reset_def ack_done_def sel_held_def ack_held_def)
  then show ?thesis
    using sel_taken_sorted [of C ?cp es] sel_taken_said [of C ?cp es]
      ack_taken_sorted [of 0 ?cp es C] ack_taken_said [of C ?cp es] by simp
qed

theorem statements_taken_once_witness:
  "length ex_tx_events < 2 ^ 32 \<and>
   map fst (sel_taken plain_crypto (ctlplane_reset ex_plane) ex_tx_events) = [4, 5] \<and>
   map fst (ack_taken plain_crypto (ctlplane_reset ex_plane) ex_tx_events) = [1] \<and>
   set (sel_taken plain_crypto (ctlplane_reset ex_plane) ex_tx_events) \<subseteq> said CTLM_TXSEL ex_tx_events \<and>
   set (ack_taken plain_crypto (ctlplane_reset ex_plane) ex_tx_events) \<subseteq> said CTLM_TXACK ex_tx_events"
proof -
  have "length ex_tx_events < 2 ^ 32" by (simp add: ex_tx_events_def Let_def)
  moreover have "map fst (sel_taken plain_crypto (ctlplane_reset ex_plane) ex_tx_events) = [4, 5]"
    "map fst (ack_taken plain_crypto (ctlplane_reset ex_plane) ex_tx_events) = [1]"
    by code_simp+
  ultimately show ?thesis
    using statements_taken_once [of ex_tx_events plain_crypto ex_plane] by simp
qed

section \<open>The verdict on the link\<close>

text \<open>The link is judged lost exactly when, with a pong once seen, nothing has been heard for more
  than 2100 ms plus the last round trip (bounded to 0..1000 ms), and the moment it was
  first seen lost is kept until traffic resumes. This holds for a clock reading no earlier than
  the last thing heard.\<close>

theorem judge_exact:
  assumes "lv_pong_seen (cp_live cp)" "0 < now"
    and "lv_last_pong_ms (cp_live cp) \<le> now" "lv_last_heard_ms (cp_live cp) \<le> now"
  shows "case ctlplane_judge cp now of (lost, quiet, cp') \<Rightarrow>
    quiet = max (lv_last_pong_ms (cp_live cp)) (lv_last_heard_ms (cp_live cp)) \<and>
    (lost \<longleftrightarrow> uint quiet + 2100 + max 0 (min (lv_rtt_ms (cp_live cp)) 1000) < uint now) \<and>
    ctlplane_lost cp' = lost \<and>
    lv_lost_since_ms (cp_live cp') =
      (if \<not> lost then 0 else if ctlplane_lost cp then lv_lost_since_ms (cp_live cp) else now)"
proof -
  let ?lv = "cp_live cp"
  define lp where "lp = max (lv_last_pong_ms ?lv) (lv_last_heard_ms ?lv)"
  define thr where "thr = hb_lost_ms (lv_rtt_ms ?lv)"
  have lp: "(if lv_last_heard_ms ?lv > lv_last_pong_ms ?lv then lv_last_heard_ms ?lv
      else lv_last_pong_ms ?lv) = lp"
    by (auto simp: lp_def max_def)
  have "lp \<le> now" using assms(3,4) by (simp add: lp_def)
  then have "uint (now - lp) = uint now - uint lp" by (simp add: uint_minus_simple_alt word_le_def)
  then have gt: "now - lp > ucast thr \<longleftrightarrow>
      uint lp + 2100 + max 0 (min (lv_rtt_ms ?lv) 1000) < uint now"
    by (auto simp: word_less_def thr_def uint_ucast_hb_lost_ms uint_hb_lost_ms)
  show ?thesis
    using assms(1) word_gt_0 [of now] assms(2) gt [symmetric]
    by (auto simp: ctlplane_judge_def Let_def lp ctlplane_lost_def lp_def [symmetric]
        thr_def [symmetric])
qed

theorem judge_exact_witness:
  "let cp = ex_plane\<lparr>cp_live := live_zero\<lparr>lv_pong_seen := True, lv_last_pong_ms := 10000\<rparr>\<rparr>
   in \<not> fst (ctlplane_judge cp 12100) \<and> fst (ctlplane_judge cp 12101)"
  using judge_exact [of "ex_plane\<lparr>cp_live := live_zero\<lparr>lv_pong_seen := True, lv_last_pong_ms := 10000\<rparr>\<rparr>" 12100]
    judge_exact [of "ex_plane\<lparr>cp_live := live_zero\<lparr>lv_pong_seen := True, lv_last_pong_ms := 10000\<rparr>\<rparr>" 12101]
  by (simp add: Let_def live_zero_def split_beta max_def)

text \<open>C39. The verdict is not monotone in the clock the way it reads: a judge whose reading \<open>now\<close> is
  earlier than the last thing heard, which another thread may have stamped in between, takes the
  difference below zero as a silence of 2 to the 64 milliseconds and declares a live link lost.\<close>

theorem judge_clock_race:
  assumes "lv_pong_seen (cp_live cp)" "0 < now" "now < lv_last_heard_ms (cp_live cp)"
    and "uint (lv_last_heard_ms (cp_live cp)) < 2 ^ 63" "lv_last_pong_ms (cp_live cp) \<le> now"
  shows "fst (ctlplane_judge cp now)"
proof -
  let ?lv = "cp_live cp"
  let ?h = "lv_last_heard_ms ?lv"
  have lp: "?h > lv_last_pong_ms ?lv" using assms(3,5) by simp
  have "uint (now - ?h) = uint now - uint ?h + 2 ^ 64"
    using assms(3) uint_sub_if' [of now ?h] by (simp add: word_less_def)
  moreover have "uint (hb_lost_ms (lv_rtt_ms ?lv)) \<le> 3100" by (simp add: uint_hb_lost_ms)
  ultimately have "uint (hb_lost_ms (lv_rtt_ms ?lv)) < uint (now - ?h)"
    using assms(4) uint_ge_0 [of now] uint_ge_0 [of ?h]
    by (simp only: power_numeral_even power_numeral_odd numeral_One power_one_right Let_def)
  then have "now - ?h > ucast (hb_lost_ms (lv_rtt_ms ?lv))"
    by (simp add: word_less_def uint_ucast_hb_lost_ms)
  then show ?thesis using assms(1,2) lp by (auto simp: ctlplane_judge_def Let_def)
qed

theorem judge_clock_race_witness:
  "fst (ctlplane_judge (ex_plane\<lparr>cp_live := live_zero\<lparr>lv_pong_seen := True, lv_last_pong_ms := 9000,
     lv_last_heard_ms := 10001\<rparr>\<rparr>) 10000)"
  by (rule judge_clock_race) (simp_all add: live_zero_def)

end
