(* ===== verification/Ctl_Pair.thy ===== *)
theory Ctl_Pair
  imports Ctlplane
begin

text \<open>
  The exchange of key halves between two ends. What matters of a control plane here is its key
  state, \<open>keyview\<close>; every operation of ctlplane.c is shown to act on it as one of three abstract
  steps (offer the half, take the peer's half, take the peer's KEYOK) or not at all. Two ends
  then run over two ordered queues, which is what the channel and its reframer provide, with
  everything else they say and do interleaved.
\<close>

section \<open>The key state of one end\<close>

record keyview =
  kv_base :: "byte list"
  kv_out :: "byte list"
  kv_in :: "byte list"
  kv_sent :: bool
  kv_seen :: bool
  kv_pair :: "byte list"
  kv_ready :: bool
  kv_tx :: bool

definition keyview_of :: "ctlplane \<Rightarrow> keyview" where
  "keyview_of cp =
     \<lparr>kv_base = pp_base (cp_pp cp), kv_out = cp_half_out cp, kv_in = cp_half_in cp,
      kv_sent = cp_half_sent cp, kv_seen = cp_half_seen cp, kv_pair = pp_pair (cp_pp cp),
      kv_ready = pp_pair_ready (cp_pp cp), kv_tx = pp_pair_tx (cp_pp cp)\<rparr>"

fun sends :: "ctl_call list \<Rightarrow> ctl_msg list" where
  "sends [] = []"
| "sends (Send t p # cs) = (t, p) # sends cs"
| "sends (_ # cs) = sends cs"

definition kv_bind :: "crypto \<Rightarrow> keyview \<Rightarrow> keyview \<times> ctl_msg list" where
  "kv_bind C v =
     (if kv_ready v \<or> \<not> kv_sent v \<or> \<not> kv_seen v then (v, [])
      else (v\<lparr>kv_pair := keys_conn_key C (kv_base v) (kv_out v) (kv_in v), kv_ready := True\<rparr>,
            [(CTLM_KEYOK, [])]))"

definition kv_offer :: "crypto \<Rightarrow> byte list \<Rightarrow> keyview \<Rightarrow> keyview \<times> ctl_msg list" where
  "kv_offer C half v =
     (let (v', ms) = kv_bind C (v\<lparr>kv_out := half, kv_sent := True\<rparr>) in (v', (CTLM_KEY, half) # ms))"

definition kv_key :: "crypto \<Rightarrow> byte list \<Rightarrow> keyview \<Rightarrow> keyview \<times> ctl_msg list" where
  "kv_key C half v = kv_bind C (v\<lparr>kv_in := half, kv_seen := True\<rparr>)"

definition kv_keyok :: "keyview \<Rightarrow> keyview" where
  "kv_keyok v = (if kv_ready v \<and> \<not> kv_tx v then v\<lparr>kv_tx := True\<rparr> else v)"

definition is_key :: "ctl_msg \<Rightarrow> bool" where
  "is_key m \<longleftrightarrow> fst m = CTLM_KEY \<or> fst m = CTLM_KEYOK"

lemmas kv_steps = kv_bind_def kv_offer_def kv_key_def kv_keyok_def

text \<open>The operations refine the abstract steps.\<close>

lemma key_bind_refines:
  "keyview_of (fst (key_bind C cp)) = fst (kv_bind C (keyview_of cp)) \<and>
   sends (snd (key_bind C cp)) = snd (kv_bind C (keyview_of cp))"
  by (simp add: key_bind_def kv_bind_def keyview_of_def probeplane_bind_def)

lemma offer_key_refines:
  assumes "ctlplane_offer_key C rnd cp = (True, cp', outs)"
  obtains half where "rnd = Some half" "\<not> cp_half_sent cp"
    "(keyview_of cp', sends outs) = kv_offer C half (keyview_of cp)"
proof -
  obtain half where h: "rnd = Some half" "\<not> cp_half_sent cp"
    using assms by (auto simp: ctlplane_offer_key_def split: if_splits option.splits)
  let ?cp = "cp\<lparr>cp_half_out := half, cp_half_sent := True\<rparr>"
  have "keyview_of ?cp = (keyview_of cp)\<lparr>kv_out := half, kv_sent := True\<rparr>"
    by (simp add: keyview_of_def)
  then show ?thesis
    using that [OF h] h assms key_bind_refines [of C ?cp]
    by (auto simp: ctlplane_offer_key_def kv_offer_def split_beta)
qed

lemma on_msg_key_eq:
  "ctlplane_on_msg C k cp CTLM_KEY pl gen now =
     (if CTL_KEY_PLEN \<le> length pl
      then (True, key_bind C (cp\<lparr>cp_half_in := take CTL_KEY_PLEN pl, cp_half_seen := True\<rparr>))
      else (False, cp, if ck_other k then [Other CTLM_KEY pl] else []))"
  by (simp add: ctlplane_on_msg_def ctlm_types)

lemma on_msg_keyok_eq:
  "ctlplane_on_msg C k cp CTLM_KEYOK pl gen now =
     (True, cp\<lparr>cp_pp := snd (probeplane_tx_ready (cp_pp cp))\<rparr>, [])"
  by (simp add: ctlplane_on_msg_def ctlm_types)

lemma on_msg_key:
  "CTL_KEY_PLEN \<le> length pl \<Longrightarrow>
   ctlplane_on_msg C k cp CTLM_KEY pl gen now = (True, cp', outs) \<Longrightarrow>
   (keyview_of cp', sends outs) = kv_key C (take CTL_KEY_PLEN pl) (keyview_of cp)"
  using key_bind_refines [of C "cp\<lparr>cp_half_in := take CTL_KEY_PLEN pl, cp_half_seen := True\<rparr>"]
  by (simp add: on_msg_key_eq kv_key_def keyview_of_def prod_eq_iff)

lemma on_msg_keyok:
  "ctlplane_on_msg C k cp CTLM_KEYOK pl gen now = (own, cp', outs) \<Longrightarrow>
   keyview_of cp' = kv_keyok (keyview_of cp) \<and> outs = []"
  by (auto simp: on_msg_keyok_eq kv_keyok_def keyview_of_def probeplane_tx_ready_def)

lemma keyview_on_txsel: "keyview_of (on_txsel cp pl) = keyview_of cp"
  by (simp add: on_txsel_def keyview_of_def split: option.split)

lemma keyview_on_txack: "keyview_of (on_txack cp pl) = keyview_of cp"
  by (simp add: on_txack_def keyview_of_def split: option.split)

lemma keyview_on_rdv: "keyview_of (on_rdv cp pl) = keyview_of cp"
  by (simp add: on_rdv_def keyview_of_def Let_def split: option.split)

lemma keyview_on_pong: "keyview_of (fst (on_pong k cp pl gen now)) = keyview_of cp"
  by (simp add: on_pong_def keyview_of_def)

lemma keyview_upd [simp]:
  "keyview_of (cp\<lparr>cp_rdvask_in := u\<rparr>) = keyview_of cp"
  "keyview_of (cp\<lparr>cp_reach_in := r, cp_reach_in_seen := x, cp_reach_in_dirty := y\<rparr>) = keyview_of cp"
  by (simp_all add: keyview_of_def)

lemma on_msg_other:
  assumes "t \<noteq> CTLM_KEY" "t \<noteq> CTLM_KEYOK"
  shows "keyview_of (fst (snd (ctlplane_on_msg C k cp t pl gen now))) = keyview_of cp"
  using assms keyview_on_pong [of k cp pl gen now]
  by (simp add: ctlplane_on_msg_def keyview_on_txsel keyview_on_txack keyview_on_rdv)

lemma on_msg_other_sends:
  assumes "t \<noteq> CTLM_KEY" "t \<noteq> CTLM_KEYOK"
  shows "sends (snd (snd (ctlplane_on_msg C k cp t pl gen now))) =
    (if t = CTLM_PING \<and> CTL_TS_LEN \<le> length pl \<and> ck_answer_ping k
     then [(CTLM_PONG, take CTL_TS_LEN pl)] else [])"
  using assms by (simp add: ctlplane_on_msg_def on_pong_def split: option.split)

text \<open>Everything else an end does leaves its key state alone: what it says and takes, its liveness,
  and the probes and datagrams that cross its probe plane.\<close>

lemma keyview_neutral:
  "keyview_of (fst (snd (ctlplane_tell_txsel k cp pid flags))) = keyview_of cp"
  "keyview_of (ctlplane_ask_rdv cp fam) = keyview_of cp"
  "keyview_of (fst (ctlplane_tell_asks cp)) = keyview_of cp"
  "keyview_of (snd (ctlplane_take_txsel cp)) = keyview_of cp"
  "keyview_of (snd (ctlplane_take_txack cp)) = keyview_of cp"
  "keyview_of (snd (ctlplane_take_nodes cp)) = keyview_of cp"
  "keyview_of (snd (ctlplane_take_asks cp)) = keyview_of cp"
  "keyview_of (snd (ctlplane_take_reach cp)) = keyview_of cp"
  "keyview_of (ctlplane_live_reset cp now) = keyview_of cp"
  "keyview_of (ctlplane_heard cp now) = keyview_of cp"
  "keyview_of (snd (snd (ctlplane_judge cp now))) = keyview_of cp"
  by (simp_all add: keyview_of_def ctlplane_tell_txsel_def ctlplane_ask_rdv_def
      ctlplane_tell_asks_def ctlplane_take_txsel_def ctlplane_take_txack_def
      ctlplane_take_nodes_def ctlplane_take_asks_def ctlplane_take_reach_def
      ctlplane_live_reset_def ctlplane_heard_def ctlplane_judge_def Let_def)

section \<open>Two ends and two ordered channels\<close>

record duplex =
  dx_a :: ctlplane
  dx_b :: ctlplane
  dx_ab :: "ctl_msg list"
  dx_ba :: "ctl_msg list"

definition dx_swap :: "duplex \<Rightarrow> duplex" where
  "dx_swap s = \<lparr>dx_a = dx_b s, dx_b = dx_a s, dx_ab = dx_ba s, dx_ba = dx_ab s\<rparr>"

lemma dx_swap_simps [simp]:
  "dx_a (dx_swap s) = dx_b s" "dx_b (dx_swap s) = dx_a s"
  "dx_ab (dx_swap s) = dx_ba s" "dx_ba (dx_swap s) = dx_ab s" "dx_swap (dx_swap s) = s"
  by (simp_all add: dx_swap_def)

text \<open>The first end takes the next message of its channel.\<close>

definition dx_recv :: "crypto \<Rightarrow> ctlplane_sinks \<Rightarrow> u32 \<Rightarrow> u64 \<Rightarrow> duplex \<Rightarrow> duplex" where
  "dx_recv C k gen now s =
     (case dx_ba s of
        [] \<Rightarrow> s
      | m # rest \<Rightarrow>
          let r = snd (ctlplane_on_msg C k (dx_a s) (fst m) (snd m) gen now)
          in s\<lparr>dx_a := fst r, dx_ba := rest, dx_ab := dx_ab s @ sends (snd r)\<rparr>)"

text \<open>One end acts: it offers its half, takes the next message of its channel, or does anything
  that leaves its key state alone and says anything but KEY and KEYOK.\<close>

inductive end_step :: "crypto \<Rightarrow> duplex \<Rightarrow> duplex \<Rightarrow> bool" for C where
  offer: "ctlplane_offer_key C (Some half) (dx_a s) = (True, a', outs) \<Longrightarrow>
    length half = KEYS_HALF_LEN \<Longrightarrow>
    end_step C s (s\<lparr>dx_a := a', dx_ab := dx_ab s @ sends outs\<rparr>)"
| recv: "end_step C s (dx_recv C k gen now s)"
| say: "keyview_of a' = keyview_of (dx_a s) \<Longrightarrow> filter is_key ms = [] \<Longrightarrow>
    end_step C s (s\<lparr>dx_a := a', dx_ab := dx_ab s @ ms\<rparr>)"

definition pair_step :: "crypto \<Rightarrow> duplex \<Rightarrow> duplex \<Rightarrow> bool" where
  "pair_step C s t \<longleftrightarrow> end_step C s t \<or> end_step C (dx_swap s) (dx_swap t)"

text \<open>A fresh channel between ends with the same base key: both planes reset, nothing on the way.\<close>

definition end_fresh :: "byte list \<Rightarrow> ctlplane \<Rightarrow> bool" where
  "end_fresh K cp \<longleftrightarrow> pp_base (cp_pp cp) = K \<and> \<not> cp_half_sent cp \<and> \<not> cp_half_seen cp \<and>
     \<not> pp_pair_ready (cp_pp cp) \<and> \<not> pp_pair_tx (cp_pp cp)"

definition pair_fresh :: "byte list \<Rightarrow> duplex \<Rightarrow> bool" where
  "pair_fresh K s \<longleftrightarrow> end_fresh K (dx_a s) \<and> end_fresh K (dx_b s) \<and> dx_ab s = [] \<and> dx_ba s = []"

lemma end_fresh_reset:
  "pp_base (cp_pp cp) = K \<Longrightarrow>
   end_fresh K (ctlplane_reset (cp\<lparr>cp_pp := probeplane_reset (cp_pp cp)\<rparr>))"
  by (simp add: end_fresh_def ctlplane_reset_def probeplane_reset_def)

text \<open>The invariant of one direction: which key messages are on the way is a function of the two
  ends' key states, and what has arrived is what was sent.\<close>

definition kv_dir :: "crypto \<Rightarrow> byte list \<Rightarrow> keyview \<Rightarrow> ctl_msg list \<Rightarrow> keyview \<Rightarrow> bool" where
  "kv_dir C K a q b \<longleftrightarrow>
     filter is_key q =
       (if kv_sent a \<and> \<not> kv_seen b then [(CTLM_KEY, kv_out a)] else []) @
       (if kv_ready a \<and> \<not> kv_tx b then [(CTLM_KEYOK, [])] else []) \<and>
     (kv_seen b \<longrightarrow> kv_sent a \<and> kv_in b = kv_out a) \<and>
     (kv_tx b \<longrightarrow> kv_ready a \<and> kv_ready b) \<and>
     (kv_ready a \<longleftrightarrow> kv_sent a \<and> kv_seen a) \<and>
     (kv_ready a \<longrightarrow> kv_pair a = keys_conn_key C K (kv_out a) (kv_in a)) \<and>
     kv_base a = K \<and> (kv_sent a \<longrightarrow> length (kv_out a) = CTL_KEY_PLEN)"

definition pair_inv :: "crypto \<Rightarrow> byte list \<Rightarrow> duplex \<Rightarrow> bool" where
  "pair_inv C K s \<longleftrightarrow>
     kv_dir C K (keyview_of (dx_a s)) (dx_ab s) (keyview_of (dx_b s)) \<and>
     kv_dir C K (keyview_of (dx_b s)) (dx_ba s) (keyview_of (dx_a s))"

lemma pair_inv_swap: "pair_inv C K (dx_swap s) \<longleftrightarrow> pair_inv C K s"
  by (auto simp: pair_inv_def)

lemma is_key_simps [simp]: "is_key (CTLM_KEY, p)" "is_key (CTLM_KEYOK, p)"
  by (simp_all add: is_key_def)

lemma ctlm_key_neq [simp]: "CTLM_KEY \<noteq> CTLM_KEYOK" "CTLM_KEYOK \<noteq> CTLM_KEY"
  by (simp_all add: ctlm_types)

lemma kv_dir_offer:
  assumes "kv_dir C K a q b" "kv_dir C K b q' a" "\<not> kv_sent a" "length half = CTL_KEY_PLEN"
    and "(a', ms) = kv_offer C half a"
  shows "kv_dir C K a' (q @ ms) b \<and> kv_dir C K b q' a'"
  using assms by (auto simp: kv_dir_def kv_offer_def kv_bind_def split: if_splits)

lemma kv_dir_key:
  assumes "kv_dir C K a q b" "kv_dir C K b ((CTLM_KEY, pl) # q') a"
    and "(a', ms) = kv_key C (take CTL_KEY_PLEN pl) a"
  shows "kv_dir C K a' (q @ ms) b \<and> kv_dir C K b q' a'"
proof -
  have h: "kv_sent b" "\<not> kv_seen a" "pl = kv_out b" "length pl = CTL_KEY_PLEN"
    using assms(2) by (auto simp: kv_dir_def split: if_splits)
  then have "\<not> kv_ready a" "\<not> kv_tx a" using assms(1,2) by (auto simp: kv_dir_def)
  then show ?thesis using h assms by (cases "kv_sent a") (simp_all add: kv_dir_def kv_key_def kv_bind_def)
qed

lemma kv_dir_keyok:
  assumes "kv_dir C K a q b" "kv_dir C K b ((CTLM_KEYOK, pl) # q') a"
  shows "kv_dir C K (kv_keyok a) q b \<and> kv_dir C K b q' (kv_keyok a)"
proof -
  have h: "\<not> (kv_sent b \<and> \<not> kv_seen a)" "kv_ready b" "\<not> kv_tx a"
    using assms(2) by (auto simp: kv_dir_def split: if_splits)
  then have "kv_ready a" using assms by (auto simp: kv_dir_def)
  then show ?thesis using h assms by (simp add: kv_dir_def kv_keyok_def)
qed

lemma kv_dir_more: "filter is_key ms = [] \<Longrightarrow> kv_dir C K a (q @ ms) b \<longleftrightarrow> kv_dir C K a q b"
  by (simp add: kv_dir_def)

lemma kv_dir_less: "\<not> is_key m \<Longrightarrow> kv_dir C K a (m # q) b \<longleftrightarrow> kv_dir C K a q b"
  by (simp add: kv_dir_def)

lemma pair_inv_offer:
  assumes "pair_inv C K s" "ctlplane_offer_key C (Some half) (dx_a s) = (True, a', outs)"
    and "length half = KEYS_HALF_LEN"
  shows "pair_inv C K (s\<lparr>dx_a := a', dx_ab := dx_ab s @ sends outs\<rparr>)"
proof -
  let ?a = "keyview_of (dx_a s)"
  have o: "(keyview_of a', sends outs) = kv_offer C half ?a" "\<not> kv_sent ?a"
    by (rule offer_key_refines [OF assms(2)], simp add: keyview_of_def)+
  have d: "kv_dir C K ?a (dx_ab s) (keyview_of (dx_b s))" "kv_dir C K (keyview_of (dx_b s)) (dx_ba s) ?a"
    using assms(1) by (simp_all add: pair_inv_def)
  have "length half = CTL_KEY_PLEN" using assms(3) by (simp add: KEYS_HALF_LEN_def CTL_KEY_PLEN_def)
  from kv_dir_offer [OF d o(2) this o(1)] show ?thesis by (simp add: pair_inv_def)
qed

lemma kv_dir_key_head:
  "kv_dir C K b ((CTLM_KEY, pl) # q') a \<Longrightarrow> length pl = CTL_KEY_PLEN"
  by (auto simp: kv_dir_def split: if_splits)

lemma pair_inv_recv:
  assumes inv: "pair_inv C K s"
  shows "pair_inv C K (dx_recv C k gen now s)"
proof (cases "dx_ba s")
  case Nil
  then show ?thesis using inv by (simp add: dx_recv_def)
next
  case (Cons m rest)
  obtain t pl where m: "m = (t, pl)" by (cases m)
  let ?r = "ctlplane_on_msg C k (dx_a s) t pl gen now"
  let ?a = "keyview_of (dx_a s)" and ?b = "keyview_of (dx_b s)"
  let ?a' = "keyview_of (fst (snd ?r))" and ?ms = "sends (snd (snd ?r))"
  have ab: "kv_dir C K ?a (dx_ab s) ?b" and ba: "kv_dir C K ?b ((t, pl) # rest) ?a"
    using inv Cons m by (simp_all add: pair_inv_def)
  consider (key) "t = CTLM_KEY" | (keyok) "t = CTLM_KEYOK"
    | (other) "t \<noteq> CTLM_KEY" "t \<noteq> CTLM_KEYOK" by blast
  then have "kv_dir C K ?a' (dx_ab s @ ?ms) ?b \<and> kv_dir C K ?b rest ?a'"
  proof cases
    case key
    then have "(?a', ?ms) = kv_key C (take CTL_KEY_PLEN pl) ?a"
      using on_msg_key [of pl C k "dx_a s" gen now "fst (snd ?r)" "snd (snd ?r)"]
        kv_dir_key_head [of C K ?b pl rest ?a] ba
      by (simp add: on_msg_key_eq)
    then show ?thesis using kv_dir_key [OF ab] ba key by blast
  next
    case keyok
    then have "?a' = kv_keyok ?a" "?ms = []"
      using on_msg_keyok [of C k "dx_a s" pl gen now "fst ?r" "fst (snd ?r)" "snd (snd ?r)"] by simp_all
    then show ?thesis using kv_dir_keyok [OF ab] ba keyok by simp
  next
    case other
    then have "filter is_key ?ms = []"
      by (simp add: on_msg_other_sends is_key_def ctlm_types)
    then show ?thesis
      using ab ba other by (simp add: on_msg_other kv_dir_more kv_dir_less is_key_def)
  qed
  then show ?thesis using Cons m by (simp add: pair_inv_def dx_recv_def Let_def)
qed

lemma pair_inv_end_step: "end_step C s t \<Longrightarrow> pair_inv C K s \<Longrightarrow> pair_inv C K t"
proof (induction rule: end_step.induct)
  case (say a' s ms)
  then show ?case by (simp add: pair_inv_def kv_dir_more)
qed (auto intro: pair_inv_offer pair_inv_recv)

interpretation pairing: invariant_system "pair_fresh K" "pair_step C" "pair_inv C K" for C K
proof
  show "pair_inv C K s" if "pair_fresh K s" for s
    using that
    by (auto simp: pair_fresh_def pair_inv_def kv_dir_def end_fresh_def keyview_of_def)
  show "pair_inv C K t" if "pair_inv C K s" "pair_step C s t" for s t
    using that pair_inv_end_step [of C s t K] pair_inv_end_step [of C "dx_swap s" "dx_swap t" K]
    by (auto simp: pair_step_def pair_inv_swap)
qed

lemma keyview_sel [simp]:
  "kv_sent (keyview_of cp) = cp_half_sent cp" "kv_seen (keyview_of cp) = cp_half_seen cp"
  "kv_ready (keyview_of cp) = pp_pair_ready (cp_pp cp)" "kv_tx (keyview_of cp) = pp_pair_tx (cp_pp cp)"
  "kv_pair (keyview_of cp) = pp_pair (cp_pp cp)"
  by (simp_all add: keyview_of_def)

lemma kv_dir_agree:
  assumes "kv_dir C K a q b" "kv_dir C K b q' a" "kv_ready a" "kv_ready b"
  shows "kv_pair b = kv_pair a"
proof -
  have "kv_pair a = keys_conn_key C K (kv_out a) (kv_in a)" "kv_in a = kv_out b"
    "kv_pair b = keys_conn_key C K (kv_out b) (kv_in b)" "kv_in b = kv_out a"
    "length (kv_out a) = length (kv_out b)"
    using assms by (auto simp: kv_dir_def)
  then show ?thesis using keys_conn_key_commute by metis
qed

lemma pair_inv_agree:
  assumes "pair_inv C K s" "pp_pair_tx (cp_pp (dx_a s))"
  shows "pp_pair_ready (cp_pp (dx_b s)) \<and> pp_pair (cp_pp (dx_b s)) = pp_pair (cp_pp (dx_a s))"
proof -
  let ?a = "keyview_of (dx_a s)" and ?b = "keyview_of (dx_b s)"
  have d: "kv_dir C K ?a (dx_ab s) ?b" "kv_dir C K ?b (dx_ba s) ?a"
    using assms(1) by (simp_all add: pair_inv_def)
  moreover from d(2) assms(2) have "kv_ready ?a \<and> kv_ready ?b" by (simp add: kv_dir_def)
  ultimately show ?thesis using kv_dir_agree [of C K ?a "dx_ab s" ?b "dx_ba s"] by simp
qed

text \<open>A run for the witnesses: two fresh ends, and both have offered their halves.\<close>

definition ex_start :: duplex where
  "ex_start = \<lparr>dx_a = ex_plane, dx_b = ex_plane, dx_ab = [], dx_ba = []\<rparr>"

definition ex_offer :: "byte \<Rightarrow> duplex \<Rightarrow> duplex" where
  "ex_offer x s = (let (ok, a', outs) = ctlplane_offer_key plain_crypto (Some (replicate 32 x)) (dx_a s)
     in s\<lparr>dx_a := a', dx_ab := dx_ab s @ sends outs\<rparr>)"

definition ex_offered :: duplex where
  "ex_offered = dx_swap (ex_offer 9 (dx_swap (ex_offer 8 ex_start)))"

lemma ex_offer_step: "\<not> cp_half_sent (dx_a s) \<Longrightarrow> end_step plain_crypto s (ex_offer x s)"
  using end_step.offer [of plain_crypto "replicate 32 x" s]
  by (cases "ctlplane_offer_key plain_crypto (Some (replicate 32 x)) (dx_a s)")
    (auto simp: ex_offer_def KEYS_HALF_LEN_def ctlplane_offer_key_def split_beta)

lemma ex_offered_reachable:
  "reachable (pair_fresh (replicate 32 7)) (pair_step plain_crypto) ex_offered"
proof (rule next_state, rule next_state, rule start)
  show "pair_fresh (replicate 32 7) ex_start" by code_simp
  have "\<not> cp_half_sent (dx_a ex_start)" "\<not> cp_half_sent (dx_a (dx_swap (ex_offer 8 ex_start)))"
    by code_simp+
  then show "pair_step plain_crypto ex_start (ex_offer 8 ex_start)"
    "pair_step plain_crypto (ex_offer 8 ex_start) ex_offered"
    using ex_offer_step by (simp_all add: pair_step_def ex_offered_def)
qed

text \<open>The exchange run on: both ends take what is on the way until nothing is. A message weighs
  one more than what it can be answered with, so the weight on the channels bounds the number of
  messages to take.\<close>

definition msg_weight :: "ctl_msg \<Rightarrow> nat" where
  "msg_weight m = (if fst m = CTLM_PING \<or> fst m = CTLM_KEY then 2 else 1)"

definition dx_weight :: "duplex \<Rightarrow> nat" where
  "dx_weight s = sum_list (map msg_weight (dx_ab s)) + sum_list (map msg_weight (dx_ba s))"

fun dx_settle :: "crypto \<Rightarrow> ctlplane_sinks \<Rightarrow> u32 \<Rightarrow> u64 \<Rightarrow> nat \<Rightarrow> duplex \<Rightarrow> duplex" where
  "dx_settle C k gen now 0 s = s"
| "dx_settle C k gen now (Suc n) s =
     (if dx_ba s \<noteq> [] then dx_settle C k gen now n (dx_recv C k gen now s)
      else dx_settle C k gen now n (dx_swap (dx_recv C k gen now (dx_swap s))))"

lemma sends_weight:
  "sum_list (map msg_weight (sends (snd (snd (ctlplane_on_msg C k cp t pl gen now))))) < msg_weight (t, pl)"
proof -
  have w: "msg_weight (CTLM_KEYOK, p) = 1" "msg_weight (CTLM_PONG, p) = 1" "msg_weight (CTLM_KEY, p) = 2"
    for p by (simp_all add: msg_weight_def ctlm_types)
  consider (key) "t = CTLM_KEY" | (keyok) "t = CTLM_KEYOK"
    | (other) "t \<noteq> CTLM_KEY" "t \<noteq> CTLM_KEYOK" by blast
  then show ?thesis
  proof cases
    case key
    then show ?thesis by (simp add: w on_msg_key_eq key_bind_def)
  next
    case keyok
    then show ?thesis by (simp add: w on_msg_keyok_eq)
  next
    case other
    then show ?thesis by (simp add: w on_msg_other_sends) (simp add: msg_weight_def)
  qed
qed

lemma recv_weight: "dx_ba s \<noteq> [] \<Longrightarrow> dx_weight (dx_recv C k gen now s) < dx_weight s"
proof (cases "dx_ba s")
  case (Cons m rest)
  then show ?thesis
    using sends_weight [of C k "dx_a s" "fst m" "snd m" gen now]
    by (simp add: dx_recv_def Let_def dx_weight_def)
qed simp

lemma dx_weight_swap [simp]: "dx_weight (dx_swap s) = dx_weight s"
  by (simp add: dx_weight_def)

lemma recv_nothing [simp]: "dx_ba s = [] \<Longrightarrow> dx_recv C k gen now s = s"
  by (simp add: dx_recv_def)

lemma msg_weight_pos: "0 < msg_weight m"
  by (simp add: msg_weight_def)

lemma dx_weight_0: "dx_weight s = 0 \<longleftrightarrow> dx_ab s = [] \<and> dx_ba s = []"
  using msg_weight_pos by (cases "dx_ab s"; cases "dx_ba s") (auto simp: dx_weight_def)

lemma settle_empties: "dx_weight s \<le> n \<Longrightarrow> dx_weight (dx_settle C k gen now n s) = 0"
proof (induction n arbitrary: s)
  case (Suc n)
  show ?case
  proof (cases "dx_weight s = 0")
    case True
    then have "dx_ba s = []" "dx_ba (dx_swap s) = []" by (simp_all add: dx_weight_0)
    moreover have "dx_weight s \<le> n" using True by simp
    ultimately show ?thesis using Suc.IH [of s] by simp
  next
    case False
    then have "dx_ba s \<noteq> [] \<or> dx_ba (dx_swap s) \<noteq> []" by (auto simp: dx_weight_0)
    then show ?thesis
      using Suc recv_weight [of s C k gen now] recv_weight [of "dx_swap s" C k gen now]
      by (cases "dx_ba s = []") simp_all
  qed
qed simp

lemma settle_reachable:
  "reachable P (pair_step C) s \<Longrightarrow> reachable P (pair_step C) (dx_settle C k gen now n s)"
proof (induction n arbitrary: s)
  case (Suc n)
  have "pair_step C s (dx_recv C k gen now s)"
    "pair_step C s (dx_swap (dx_recv C k gen now (dx_swap s)))"
    by (simp_all add: pair_step_def end_step.recv)
  then show ?case
    using Suc.IH Suc.prems by (simp add: next_state)
qed simp

lemma recv_keeps_sent:
  "cp_half_sent (dx_a (dx_recv C k gen now s)) = cp_half_sent (dx_a s)"
  "dx_b (dx_recv C k gen now s) = dx_b s"
proof -
  have "cp_half_sent (fst (snd (ctlplane_on_msg C k cp t pl gen now))) = cp_half_sent cp" for cp t pl
  proof (cases "t = CTLM_KEY \<or> t = CTLM_KEYOK")
    case True
    then show ?thesis by (elim disjE) (simp_all add: on_msg_key_eq on_msg_keyok_eq key_bind_def)
  next
    case False
    then show ?thesis using on_msg_other [of t C k cp pl gen now] by (metis keyview_sel(1))
  qed
  then show "cp_half_sent (dx_a (dx_recv C k gen now s)) = cp_half_sent (dx_a s)"
    by (simp add: dx_recv_def Let_def split: list.split)
  show "dx_b (dx_recv C k gen now s) = dx_b s"
    by (simp add: dx_recv_def Let_def split: list.split)
qed

lemma settle_keeps_sent:
  "cp_half_sent (dx_a (dx_settle C k gen now n s)) = cp_half_sent (dx_a s) \<and>
   cp_half_sent (dx_b (dx_settle C k gen now n s)) = cp_half_sent (dx_b s)"
  by (induction n arbitrary: s) (simp_all add: recv_keeps_sent)

text \<open>With both halves sent and nothing on the way, both ends seal under the pair key.\<close>

lemma quiet_keyed:
  assumes "pair_inv C K s" "dx_weight s = 0" "cp_half_sent (dx_a s)" "cp_half_sent (dx_b s)"
  shows "pp_pair_tx (cp_pp (dx_a s)) \<and> pp_pair_tx (cp_pp (dx_b s))"
  using assms by (simp add: pair_inv_def kv_dir_def dx_weight_0 split: if_splits)

text \<open>C3. From a fresh channel on, whatever the two ends say and do and however their messages
  interleave: an end that seals under the pair key (\<open>pair_tx\<close>) faces a peer that already opens
  under it (\<open>pair_ready\<close>), and both hold the same pair key. No datagram is ever sealed under a key
  the other end is still missing.\<close>

theorem pair_key_understood:
  assumes "reachable (pair_fresh K) (pair_step C) s"
  shows "(pp_pair_tx (cp_pp (dx_a s)) \<longrightarrow> pp_pair_ready (cp_pp (dx_b s)) \<and>
            pp_pair (cp_pp (dx_b s)) = pp_pair (cp_pp (dx_a s))) \<and>
         (pp_pair_tx (cp_pp (dx_b s)) \<longrightarrow> pp_pair_ready (cp_pp (dx_a s)) \<and>
            pp_pair (cp_pp (dx_a s)) = pp_pair (cp_pp (dx_b s)))"
proof -
  have "pair_inv C K s" using assms by (rule pairing.reachable_inv)
  then show ?thesis
    using pair_inv_agree [of C K s] pair_inv_agree [of C K "dx_swap s"]
    by (simp add: pair_inv_swap)
qed

theorem pair_key_understood_witness:
  "let s = dx_settle plain_crypto ex_sinks 0 0 9 ex_offered in
   pp_pair_tx (cp_pp (dx_a s)) \<and> pp_pair_ready (cp_pp (dx_b s)) \<and>
   pp_pair (cp_pp (dx_b s)) = pp_pair (cp_pp (dx_a s))"
proof -
  let ?s = "dx_settle plain_crypto ex_sinks 0 0 9 ex_offered"
  have "pp_pair_tx (cp_pp (dx_a ?s))" by code_simp
  then show ?thesis
    using pair_key_understood [OF settle_reachable [OF ex_offered_reachable, of ex_sinks 0 0 9]]
    by (simp add: Let_def)
qed

text \<open>C7. The exchange completes: once both ends have offered their halves, taking the messages
  on the way, as many as their weight at most, leaves the channels empty with both ends sealing
  under one and the same pair key. No order of the exchange is left half done.\<close>

theorem pair_key_completes:
  assumes "reachable (pair_fresh K) (pair_step C) s"
    and "cp_half_sent (dx_a s)" "cp_half_sent (dx_b s)"
  shows "let t = dx_settle C k gen now (dx_weight s) s in
    dx_ab t = [] \<and> dx_ba t = [] \<and> pp_pair_tx (cp_pp (dx_a t)) \<and> pp_pair_tx (cp_pp (dx_b t)) \<and>
    pp_pair (cp_pp (dx_a t)) = pp_pair (cp_pp (dx_b t))"
proof -
  let ?t = "dx_settle C k gen now (dx_weight s) s"
  have inv: "pair_inv C K ?t"
    using assms(1) by (intro pairing.reachable_inv settle_reachable)
  have empty: "dx_weight ?t = 0" by (rule settle_empties) simp
  have "pp_pair_tx (cp_pp (dx_a ?t)) \<and> pp_pair_tx (cp_pp (dx_b ?t))"
    using quiet_keyed [OF inv empty] settle_keeps_sent assms(2,3) by simp
  then show ?thesis
    using empty pair_inv_agree [OF inv] by (simp add: dx_weight_0 Let_def)
qed

theorem pair_key_completes_witness:
  "dx_ab ex_offered \<noteq> [] \<and>
   (let t = dx_settle plain_crypto ex_sinks 0 0 (dx_weight ex_offered) ex_offered in
    dx_ab t = [] \<and> dx_ba t = [] \<and> pp_pair_tx (cp_pp (dx_a t)) \<and> pp_pair_tx (cp_pp (dx_b t)) \<and>
    pp_pair (cp_pp (dx_a t)) = pp_pair (cp_pp (dx_b t)))"
proof -
  have "cp_half_sent (dx_a ex_offered)" "cp_half_sent (dx_b ex_offered)" "dx_ab ex_offered \<noteq> []"
    by code_simp+
  then show ?thesis using pair_key_completes [OF ex_offered_reachable] by blast
qed

end
