(* ===== verification/Bencode.thy ===== *)
theory Bencode
  imports Prelude
begin

text \<open>
  Bencoding (bencode.c), the encoding of the DHT's messages: the buffer writers, the walk over
  an encoded value, the readers of a dictionary entry, a string and an integer, and the test
  that a buffer is one canonically encoded value.

  A read position is the rest of the input from there; a parser returns the rest behind what it
  has read, \<open>None\<close> for -1. The reference is the data type \<open>bval\<close> with its encoding: the canonical
  test accepts exactly the encodings of well-formed values.
\<close>

definition BENC_MAX_DEPTH :: nat where "BENC_MAX_DEPTH = 16"
definition INT64_MAX :: nat where "INT64_MAX = 2 ^ 63 - 1"

section \<open>Writing\<close>

text \<open>The decimal digits \<open>snprintf\<close> writes.\<close>

definition dec_bytes :: "nat \<Rightarrow> byte list" where
  "dec_bytes n = map (\<lambda>d. 48 + of_nat d) (dec_digits n)"

definition dec_bytes_int :: "int \<Rightarrow> byte list" where
  "dec_bytes_int v = (if v < 0 then 45 # dec_bytes (nat (- v)) else dec_bytes (nat v))"

text \<open>The first \<open>len\<close> bytes of the buffer, its capacity and the sticky error.\<close>

record benc_buf =
  bb_buf :: "byte list"
  bb_cap :: nat
  bb_err :: bool

definition benc_buf_init :: "nat \<Rightarrow> benc_buf" where
  "benc_buf_init cap = \<lparr>bb_buf = [], bb_cap = cap, bb_err = False\<rparr>"

definition benc_raw_add :: "benc_buf \<Rightarrow> byte list \<Rightarrow> benc_buf" where
  "benc_raw_add b data =
     (if bb_err b \<or> bb_cap b - length (bb_buf b) < length data then b\<lparr>bb_err := True\<rparr>
      else b\<lparr>bb_buf := bb_buf b @ data\<rparr>)"

definition benc_str_add :: "benc_buf \<Rightarrow> byte list \<Rightarrow> benc_buf" where
  "benc_str_add b data = benc_raw_add (benc_raw_add b (dec_bytes (length data) @ [58])) data"

definition benc_int_add :: "benc_buf \<Rightarrow> int \<Rightarrow> benc_buf" where
  "benc_int_add b val = benc_raw_add b (105 # dec_bytes_int val @ [101])"

definition benc_key_add :: "benc_buf \<Rightarrow> byte list \<Rightarrow> benc_buf" where
  "benc_key_add b key = benc_str_add b key"

section \<open>Reading\<close>

definition is_digit :: "byte \<Rightarrow> bool" where
  "is_digit c \<longleftrightarrow> 48 \<le> c \<and> c \<le> 57"

text \<open>The loop of \<open>benc_digits\<close>: the value so far and the number of digits.\<close>

fun digits_loop :: "nat \<Rightarrow> nat \<Rightarrow> byte list \<Rightarrow> (nat \<times> nat \<times> byte list) option" where
  "digits_loop val digits [] = Some (val, digits, [])"
| "digits_loop val digits (c # p) =
     (if is_digit c then
        let d = unat c - 48 in
        if (INT64_MAX - d) div 10 < val then None
        else digits_loop (val * 10 + d) (digits + 1) p
      else Some (val, digits, c # p))"

definition benc_digits :: "byte list \<Rightarrow> (nat \<times> byte list) option" where
  "benc_digits p =
     (case digits_loop 0 0 p of
        None \<Rightarrow> None
      | Some (val, digits, q) \<Rightarrow> if digits = 0 then None else Some (val, q))"

text \<open>A length, a colon and that many bytes: the bytes, and the rest.\<close>

definition str_body :: "byte list \<Rightarrow> (byte list \<times> byte list) option" where
  "str_body p =
     (case benc_digits p of
        None \<Rightarrow> None
      | Some (num, q) \<Rightarrow>
          (case q of
             [] \<Rightarrow> None
           | c # r \<Rightarrow> if c \<noteq> 58 \<or> length r < num then None else Some (take num r, drop num r)))"

definition benc_str_get :: "byte list \<Rightarrow> byte list option" where
  "benc_str_get val = map_option fst (str_body val)"

text \<open>Digits and an \<open>e\<close>: the number, and the rest.\<close>

definition int_body :: "byte list \<Rightarrow> (nat \<times> byte list) option" where
  "int_body p =
     (case benc_digits p of
        None \<Rightarrow> None
      | Some (num, q) \<Rightarrow> (case q of [] \<Rightarrow> None | c # r \<Rightarrow> if c \<noteq> 101 then None else Some (num, r)))"

definition benc_int_get :: "byte list \<Rightarrow> int option" where
  "benc_int_get val =
     (case val of
        [] \<Rightarrow> None
      | c # p \<Rightarrow>
          if c \<noteq> 105 then None
          else if p \<noteq> [] \<and> hd p = 45 then map_option (\<lambda>(num, r). - int num) (int_body (tl p))
          else map_option (\<lambda>(num, r). int num) (int_body p))"

lemma digits_loop_len:
  "digits_loop v n p = Some (v', n', q) \<Longrightarrow> length q + n' = length p + n"
  by (induction v n p rule: digits_loop.induct) (auto simp: Let_def split: if_splits)

lemma benc_digits_len: "benc_digits p = Some (v, q) \<Longrightarrow> length q < length p"
  using digits_loop_len [of 0 0 p]
  by (fastforce simp: benc_digits_def split: option.splits if_splits)

lemma str_body_len: "str_body p = Some (d, q) \<Longrightarrow> length q < length p"
  using benc_digits_len [of p]
  by (fastforce simp: str_body_def split: option.splits list.splits if_splits)

lemma int_body_len: "int_body p = Some (d, q) \<Longrightarrow> length q < length p"
  using benc_digits_len [of p]
  by (fastforce simp: int_body_def split: option.splits list.splits if_splits)

text \<open>\<open>benc_skip_depth\<close>, and the loop over the items of a list or dictionary.\<close>

function benc_skip_depth :: "nat \<Rightarrow> byte list \<Rightarrow> byte list option"
  and benc_skip_items :: "nat \<Rightarrow> byte list \<Rightarrow> byte list option" where
  "benc_skip_depth depth p =
     (if BENC_MAX_DEPTH < depth then None
      else case p of
        [] \<Rightarrow> None
      | c # q \<Rightarrow>
          if c = 105 then map_option snd (int_body (if q \<noteq> [] \<and> hd q = 45 then tl q else q))
          else if c = 108 \<or> c = 100 then benc_skip_items depth q
          else map_option snd (str_body p))"
| "benc_skip_items depth p =
     (case p of
        [] \<Rightarrow> None
      | c # q \<Rightarrow>
          if c = 101 then Some q
          else (case benc_skip_depth (depth + 1) p of
                  None \<Rightarrow> None
                | Some r \<Rightarrow> benc_skip_items depth r))"
  by pat_completeness auto
termination
proof -
  have len: "benc_skip_depth_benc_skip_items_dom (Inl (d, p)) \<Longrightarrow> benc_skip_depth d p = Some q \<Longrightarrow> length q < length p"
    "benc_skip_depth_benc_skip_items_dom (Inr (d, p)) \<Longrightarrow> benc_skip_items d p = Some q \<Longrightarrow> length q < length p"
    for d p q
  proof (induction d p and d p arbitrary: q and q rule: benc_skip_depth_benc_skip_items.pinduct)
    case (1 depth p)
    show ?case
      using "1.prems" "1.IH" "1.hyps"
      by (auto simp: benc_skip_depth.psimps dest!: int_body_len str_body_len intro: less_SucI
          split: if_splits list.splits)
  next
    case (2 depth p)
    show ?case
      using "2.prems" "2.IH" "2.hyps"
      by (auto simp: benc_skip_items.psimps split: if_splits list.splits option.splits)
        (meson less_trans)
  qed
  show "All benc_skip_depth_benc_skip_items_dom"
    by (relation "measure (\<lambda>x. case x of Inl (d, p) \<Rightarrow> 2 * length p | Inr (d, p) \<Rightarrow> 2 * length p + 1)")
      (auto dest: len(1))
qed

declare benc_skip_depth.simps [simp del] benc_skip_items.simps [simp del]

definition benc_skip :: "byte list \<Rightarrow> byte list option" where
  "benc_skip p = benc_skip_depth 0 p"

lemma skip_len:
  "benc_skip_depth d p = Some q \<Longrightarrow> length q < length p"
  "benc_skip_items d p = Some q \<Longrightarrow> length q < length p"
proof (induction d p and d p arbitrary: q and q rule: benc_skip_depth_benc_skip_items.induct)
  case (1 depth p)
  show ?case
    using "1.prems" "1.IH" unfolding benc_skip_depth.simps [of depth p]
    by (auto dest!: int_body_len str_body_len intro: less_SucI
        split: if_splits list.splits)
next
  case (2 depth p)
  show ?case
    using "2.prems" "2.IH" unfolding benc_skip_items.simps [of depth p]
    by (auto split: if_splits list.splits option.splits) (meson less_trans)
qed

lemma benc_skip_len: "benc_skip p = Some q \<Longrightarrow> length q < length p"
  unfolding benc_skip_def by (rule skip_len(1))

text \<open>The loop of \<open>benc_dict_find\<close>: the encoded value found, \<open>val_len\<close> bytes of it.\<close>

function find_loop :: "byte list \<Rightarrow> byte list \<Rightarrow> byte list option" where
  "find_loop key p =
     (if p = [] \<or> hd p = 101 then None
      else (case benc_skip p of
              None \<Rightarrow> None
            | Some v \<Rightarrow>
                (case benc_str_get (take (length p - length v) p) of
                   None \<Rightarrow> None
                 | Some k \<Rightarrow>
                     (case benc_skip v of
                        None \<Rightarrow> None
                      | Some q \<Rightarrow>
                          if k = key then Some (take (length v - length q) v) else find_loop key q))))"
  by pat_completeness auto
termination
  by (relation "measure (\<lambda>(key, p). length p)") (auto dest!: benc_skip_len)

declare find_loop.simps [simp del]

definition benc_dict_find :: "byte list \<Rightarrow> byte list \<Rightarrow> byte list option" where
  "benc_dict_find dict key = (if dict = [] \<or> hd dict \<noteq> 100 then None else find_loop key (tl dict))"

section \<open>The canonical form\<close>

definition benc_key_cmp :: "byte list \<Rightarrow> byte list \<Rightarrow> int" where
  "benc_key_cmp a b =
     (let n = (if length a < length b then length a else length b); rc = memcmp (take n a) (take n b)
      in if rc \<noteq> 0 then rc else if length a < length b then -1 else if length b < length a then 1 else 0)"

definition benc_canon_str :: "byte list \<Rightarrow> (byte list \<times> byte list) option" where
  "benc_canon_str q =
     (if q = [] \<or> \<not> is_digit (hd q) then None
      else if hd q = 48 \<and> 1 < length q \<and> is_digit (q ! 1) then None
      else str_body q)"

definition canon_int :: "byte list \<Rightarrow> byte list option" where
  "canon_int q =
     (if q \<noteq> [] \<and> hd q = 45 then
        if tl q \<noteq> [] \<and> hd (tl q) = 48 then None else map_option snd (int_body (tl q))
      else if 1 < length q \<and> hd q = 48 \<and> is_digit (q ! 1) then None
      else map_option snd (int_body q))"

lemma canon_str_len: "benc_canon_str p = Some (d, q) \<Longrightarrow> length q < length p"
  using str_body_len [of p] by (auto simp: benc_canon_str_def split: if_splits)

lemma canon_int_len: "canon_int p = Some q \<Longrightarrow> length q < length p"
  using int_body_len [of p] int_body_len [of "tl p"]
  by (cases p) (auto simp: canon_int_def split: if_splits)

text \<open>\<open>benc_canon\<close>, with its loop over a list's items and over a dictionary's pairs, which carries
  the previous key.\<close>

function benc_canon :: "nat \<Rightarrow> byte list \<Rightarrow> byte list option"
  and canon_items :: "nat \<Rightarrow> byte list \<Rightarrow> byte list option"
  and canon_pairs :: "nat \<Rightarrow> byte list option \<Rightarrow> byte list \<Rightarrow> byte list option" where
  "benc_canon depth p =
     (if BENC_MAX_DEPTH < depth then None
      else (case p of
              [] \<Rightarrow> None
            | c # q \<Rightarrow>
                if c = 105 then canon_int q
                else if c = 108 then canon_items depth q
                else if c = 100 then canon_pairs depth None q
                else map_option snd (benc_canon_str p)))"
| "canon_items depth p =
     (case p of
        [] \<Rightarrow> None
      | c # q \<Rightarrow>
          if c = 101 then Some q
          else (case benc_canon (depth + 1) p of
                  None \<Rightarrow> None
                | Some r \<Rightarrow> canon_items depth r))"
| "canon_pairs depth prev p =
     (case p of
        [] \<Rightarrow> None
      | c # q \<Rightarrow>
          if c = 101 then Some q
          else (case benc_canon_str p of
                  None \<Rightarrow> None
                | Some (data, v) \<Rightarrow>
                    if prev \<noteq> None \<and> 0 \<le> benc_key_cmp (the prev) data then None
                    else (case benc_canon (depth + 1) v of
                            None \<Rightarrow> None
                          | Some r \<Rightarrow> canon_pairs depth (Some data) r)))"
  by pat_completeness auto
termination
proof -
  have len: "benc_canon_canon_items_canon_pairs_dom (Inl (d, p)) \<Longrightarrow> benc_canon d p = Some q \<Longrightarrow> length q < length p"
    "benc_canon_canon_items_canon_pairs_dom (Inr (Inl (d, p))) \<Longrightarrow> canon_items d p = Some q \<Longrightarrow> length q < length p"
    "benc_canon_canon_items_canon_pairs_dom (Inr (Inr (d, prev, p))) \<Longrightarrow> canon_pairs d prev p = Some q \<Longrightarrow>
     length q < length p" for d prev p q
  proof (induction d p and d p and d prev p arbitrary: q and q and q
      rule: benc_canon_canon_items_canon_pairs.pinduct)
    case (1 depth p)
    show ?case
      using "1.prems" "1.IH" "1.hyps"
      by (auto simp: benc_canon.psimps dest!: canon_int_len canon_str_len intro: less_SucI
          split: if_splits list.splits)
  next
    case (2 depth p)
    show ?case
      using "2.prems" "2.IH" "2.hyps"
      by (auto simp: canon_items.psimps split: if_splits list.splits option.splits)
        (meson less_trans)
  next
    case (3 depth prev p)
    show ?case
      using "3.prems" "3.IH" "3.hyps" canon_str_len [of p]
      by (auto simp: canon_pairs.psimps split: if_splits list.splits option.splits)
        (meson less_trans)+
  qed
  show "All benc_canon_canon_items_canon_pairs_dom"
    by (relation "measure (\<lambda>x. case x of Inl (d, p) \<Rightarrow> 2 * length p | Inr (Inl (d, p)) \<Rightarrow> 2 * length p + 1
          | Inr (Inr (d, prev, p)) \<Rightarrow> 2 * length p + 1)")
      (auto dest: len(1) canon_str_len, (drule len(1), assumption, drule canon_str_len, simp)+)
qed

declare benc_canon.simps [simp del] canon_items.simps [simp del] canon_pairs.simps [simp del]

definition benc_canonical :: "byte list \<Rightarrow> bool" where
  "benc_canonical buf \<longleftrightarrow> benc_canon 0 buf = Some []"

section \<open>The reference\<close>

datatype bval = BInt int | BStr "byte list" | BList "bval list" | BDict "(byte list \<times> bval) list"

definition bstr :: "byte list \<Rightarrow> byte list" where
  "bstr s = dec_bytes (length s) @ 58 # s"

fun bencode :: "bval \<Rightarrow> byte list" where
  "bencode (BInt i) = 105 # dec_bytes_int i @ [101]"
| "bencode (BStr s) = bstr s"
| "bencode (BList vs) = 108 # concat (map bencode vs) @ [101]"
| "bencode (BDict kvs) = 100 # concat (map (\<lambda>(k, v). bstr k @ bencode v) kvs) @ [101]"

definition key_less :: "byte list \<Rightarrow> byte list \<Rightarrow> bool" where
  "key_less a b \<longleftrightarrow> (a, b) \<in> lexord {(x, y). x < y}"

text \<open>A value the encoding is canonical for: integers and lengths within 64 bits, keys strictly
  ascending, nested at most \<open>n\<close> levels.\<close>

fun bval_ok :: "nat \<Rightarrow> bval \<Rightarrow> bool" where
  "bval_ok n (BInt i) \<longleftrightarrow> nat \<bar>i\<bar> \<le> INT64_MAX"
| "bval_ok n (BStr s) \<longleftrightarrow> length s \<le> INT64_MAX"
| "bval_ok n (BList vs) \<longleftrightarrow> (\<forall>v \<in> set vs. 0 < n \<and> bval_ok (n - 1) v)"
| "bval_ok n (BDict kvs) \<longleftrightarrow>
     sorted_wrt key_less (map fst kvs) \<and>
     (\<forall>(k, v) \<in> set kvs. length k \<le> INT64_MAX \<and> 0 < n \<and> bval_ok (n - 1) v)"

text \<open>The key comparison is the lexicographic order.\<close>

lemma key_cmp_simps [simp]:
  "benc_key_cmp [] [] = 0" "benc_key_cmp [] (y # ys) = -1" "benc_key_cmp (x # xs) [] = 1"
  "benc_key_cmp (x # xs) (y # ys) = (if x < y then -1 else if y < x then 1 else benc_key_cmp xs ys)"
  by (auto simp: benc_key_cmp_def Let_def)

lemma key_cmp_less: "benc_key_cmp a b < 0 \<longleftrightarrow> key_less a b"
proof (induction a arbitrary: b)
  case Nil
  then show ?case by (cases b) (auto simp: key_less_def)
next
  case (Cons x xs)
  then show ?case by (cases b) (auto simp: key_less_def)
qed

lemma key_less_trans: "key_less a b \<Longrightarrow> key_less b c \<Longrightarrow> key_less a c"
  unfolding key_less_def by (rule lexord_trans) (auto simp: trans_def)

section \<open>Decimal numbers\<close>

definition dec_val :: "byte list \<Rightarrow> nat" where
  "dec_val ds = foldl (\<lambda>v c. v * 10 + (unat c - 48)) 0 ds"

lemma digit_byte:
  assumes "d < 10"
  shows "is_digit (48 + of_nat d) \<and> unat (48 + of_nat d :: byte) = 48 + d"
proof -
  have "unat (of_nat (48 + d) :: byte) = 48 + d" using assms by (subst unat_of_nat) simp
  then have "unat (48 + of_nat d :: byte) = 48 + d" by simp
  then show ?thesis using assms by (simp add: is_digit_def word_le_nat_alt)
qed

lemma dec_digits_less: "d \<in> set (dec_digits n) \<Longrightarrow> d < 10"
proof (induction n rule: dec_digits.induct)
  case (1 n)
  then show ?case by (subst (asm) (2) dec_digits.simps) (auto split: if_splits)
qed

lemma dec_bytes_rec: "dec_bytes n = (if n < 10 then [48 + of_nat n] else dec_bytes (n div 10) @ [48 + of_nat (n mod 10)])"
  unfolding dec_bytes_def by (subst dec_digits.simps) simp

lemma dec_bytes_digit: "c \<in> set (dec_bytes n) \<Longrightarrow> is_digit c"
  using dec_digits_less digit_byte by (auto simp: dec_bytes_def)

lemma dec_val_snoc [simp]: "dec_val (ds @ [c]) = dec_val ds * 10 + (unat c - 48)"
  by (simp add: dec_val_def)

lemma dec_val_dec_bytes [simp]: "dec_val (dec_bytes n) = n"
proof (induction n rule: dec_digits.induct)
  case (1 n)
  show ?case
  proof (cases "n < 10")
    case True
    then show ?thesis using digit_byte [of n] by (simp add: dec_bytes_rec [of n] dec_val_def)
  next
    case False
    then show ?thesis using 1 digit_byte [of "n mod 10"] by (simp add: dec_bytes_rec [of n])
  qed
qed

lemma dec_bytes_nonempty [simp]: "dec_bytes n \<noteq> []"
  by (simp add: dec_bytes_rec [of n])

lemma dec_val_mono: "v \<le> foldl (\<lambda>v c. v * 10 + (unat c - 48)) v (ds :: byte list)"
proof (induction ds arbitrary: v)
  case (Cons c ds)
  have "v \<le> v * 10 + (unat c - 48)" by simp
  also have "\<dots> \<le> foldl (\<lambda>v c. v * 10 + (unat c - 48)) (v * 10 + (unat c - 48)) ds" by (rule Cons)
  finally show ?case by simp
qed simp

lemma is_digit_le: "is_digit c \<Longrightarrow> unat c - 48 \<le> 9"
  by (auto simp: is_digit_def word_le_nat_alt)

lemma digits_loop_eq:
  "digits_loop v n p =
     (if INT64_MAX < foldl (\<lambda>v c. v * 10 + (unat c - 48)) v (takeWhile is_digit p) \<and> takeWhile is_digit p \<noteq> []
      then None
      else Some (foldl (\<lambda>v c. v * 10 + (unat c - 48)) v (takeWhile is_digit p),
                 n + length (takeWhile is_digit p), dropWhile is_digit p))"
proof (induction v n p rule: digits_loop.induct)
  case (2 v n c p)
  let ?f = "\<lambda>v c. v * 10 + (unat (c :: byte) - 48)"
  show ?case
  proof (cases "is_digit c")
    case True
    let ?d = "unat c - 48"
    have d: "?d \<le> 9" using True by (rule is_digit_le)
    then have over: "(INT64_MAX - ?d) div 10 < v \<longleftrightarrow> INT64_MAX < v * 10 + ?d"
      by (simp add: INT64_MAX_def) linarith
    show ?thesis
    proof (cases "(INT64_MAX - ?d) div 10 < v")
      case ov: True
      then have "INT64_MAX < foldl ?f (v * 10 + ?d) (takeWhile is_digit p)"
        using over dec_val_mono [of "v * 10 + ?d" "takeWhile is_digit p"] by linarith
      then show ?thesis using True ov by simp
    next
      case False
      then show ?thesis using 2 [OF True refl False] True over by auto
    qed
  qed simp
qed simp

text \<open>\<open>benc_digits\<close> reads the longest run of digits, if there is one and its value is within
  \<open>INT64_MAX\<close>.\<close>

lemma benc_digits_eq:
  "benc_digits p =
     (let ds = takeWhile is_digit p in
      if ds = [] \<or> INT64_MAX < dec_val ds then None else Some (dec_val ds, dropWhile is_digit p))"
  by (auto simp: benc_digits_def digits_loop_eq dec_val_def Let_def)

lemma dec_bytes_hd: "hd (dec_bytes n) = 48 \<longleftrightarrow> n = 0"
proof (induction n rule: dec_digits.induct)
  case (1 n)
  show ?case
  proof (cases "n < 10")
    case True
    have "(48 + of_nat n :: byte) = 48 \<longleftrightarrow> unat (of_nat n :: byte) = 0" by (simp add: unat_eq_0)
    then show ?thesis using True by (simp add: dec_bytes_rec [of n] unat_of_nat)
  next
    case False
    then show ?thesis using 1 by (simp add: dec_bytes_rec [of n] hd_append)
  qed
qed

lemma dec_val_pos: "ds \<noteq> [] \<Longrightarrow> \<forall>c \<in> set ds. is_digit c \<Longrightarrow> hd ds \<noteq> 48 \<Longrightarrow> 0 < dec_val ds"
proof -
  assume ds: "ds \<noteq> []" "\<forall>c \<in> set ds. is_digit c" "hd ds \<noteq> 48"
  then obtain c cs where c: "ds = c # cs" by (cases ds) auto
  have "unat c \<noteq> unat (48 :: byte)" using ds(3) c by (simp add: word_unat_eq_iff)
  then have "0 < unat c - 48" using ds(2) c by (simp add: is_digit_def word_le_nat_alt)
  then show ?thesis using dec_val_mono [of "unat c - 48" cs] c by (simp add: dec_val_def)
qed

lemma canonical_digits:
  "ds \<noteq> [] \<Longrightarrow> \<forall>c \<in> set ds. is_digit c \<Longrightarrow> (hd ds = 48 \<longrightarrow> length ds = 1) \<Longrightarrow> dec_bytes (dec_val ds) = ds"
proof (induction ds rule: rev_induct)
  case (snoc c ds)
  have d: "unat c - 48 < 10" "48 + of_nat (unat c - 48) = c"
    using snoc.prems(2) is_digit_le [of c] by (auto simp: is_digit_def word_le_nat_alt)
  show ?case
  proof (cases "ds = []")
    case True
    then show ?thesis using d by (simp add: dec_val_def dec_bytes_rec [of "unat c - 48"])
  next
    case False
    then have "hd ds \<noteq> 48" using snoc.prems(3) by (cases ds) auto
    then have "dec_bytes (dec_val ds) = ds" "0 < dec_val ds"
      using False snoc dec_val_pos [of ds] by auto
    then show ?thesis using d by (subst dec_bytes_rec) simp
  qed
qed simp

section \<open>The parsers on encodings\<close>

lemma takeWhile_dec [simp]:
  "\<not> is_digit c \<Longrightarrow> takeWhile is_digit (dec_bytes n @ c # q) = dec_bytes n"
  "\<not> is_digit c \<Longrightarrow> dropWhile is_digit (dec_bytes n @ c # q) = c # q"
  using dec_bytes_digit by simp_all

lemma not_digits [simp]: "\<not> is_digit 58" "\<not> is_digit 101" "\<not> is_digit 105" "\<not> is_digit 108"
    "\<not> is_digit 100" "\<not> is_digit 45"
  by (simp_all add: is_digit_def)

lemma benc_digits_dec:
  "n \<le> INT64_MAX \<Longrightarrow> \<not> is_digit c \<Longrightarrow> benc_digits (dec_bytes n @ c # q) = Some (n, c # q)"
  by (simp add: benc_digits_eq Let_def)

lemma str_body_bstr: "length s \<le> INT64_MAX \<Longrightarrow> str_body (bstr s @ q) = Some (s, q)"
  by (simp add: str_body_def bstr_def benc_digits_dec)

lemma int_body_dec: "n \<le> INT64_MAX \<Longrightarrow> int_body (dec_bytes n @ 101 # q) = Some (n, q)"
  by (simp add: int_body_def benc_digits_dec)

lemma dec_bytes_cases:
  obtains c cs where "dec_bytes n = c # cs" "is_digit c"
  using dec_bytes_digit [of "hd (dec_bytes n)" n] by (cases "dec_bytes n") auto

text \<open>What a digit run is followed by: the parsers split their input at the end of the run.\<close>

lemma digits_canonical:
  assumes "benc_digits p = Some (n, q)" "\<not> (hd p = 48 \<and> 1 < length p \<and> is_digit (p ! 1))"
  shows "p = dec_bytes n @ q \<and> n \<le> INT64_MAX \<and> (hd p \<noteq> 48 \<longrightarrow> 0 < n)"
proof -
  define ds where "ds = takeWhile is_digit p"
  have ds: "ds \<noteq> []" "n = dec_val ds" "n \<le> INT64_MAX" "q = dropWhile is_digit p"
    using assms(1) by (auto simp: benc_digits_eq Let_def ds_def split: if_splits)
  have p: "p = ds @ q" "\<forall>c \<in> set ds. is_digit c"
    using ds(4) set_takeWhileD by (fastforce simp: ds_def)+
  have "length ds = 1" if "hd ds = 48"
  proof (rule ccontr)
    assume "length ds \<noteq> 1"
    then obtain a b cs where "ds = a # b # cs" using ds(1) by (cases ds; cases "tl ds") auto
    then show False using assms(2) p that by simp
  qed
  then have "dec_bytes n = ds" using canonical_digits [of ds] ds p by simp
  then show ?thesis using ds p dec_val_pos [of ds] by auto
qed

lemma canon_str_bstr: "length s \<le> INT64_MAX \<Longrightarrow> benc_canon_str (bstr s @ q) = Some (s, q)"
proof -
  assume len: "length s \<le> INT64_MAX"
  obtain c cs where c: "dec_bytes (length s) = c # cs" "is_digit c" by (rule dec_bytes_cases)
  have "cs = []" if "c = 48"
    using dec_bytes_hd [of "length s"] c(1) that by (simp add: dec_bytes_rec [of 0])
  then have "\<not> (c = 48 \<and> is_digit ((bstr s @ q) ! 1))" using c(1) by (auto simp: bstr_def)
  then show ?thesis
    using c str_body_bstr [OF len, of q] by (auto simp: benc_canon_str_def bstr_def)
qed

lemma canon_str_sound:
  assumes "benc_canon_str p = Some (s, q)"
  shows "p = bstr s @ q \<and> length s \<le> INT64_MAX"
proof -
  have p: "p \<noteq> []" "is_digit (hd p)" "\<not> (hd p = 48 \<and> 1 < length p \<and> is_digit (p ! 1))"
    "str_body p = Some (s, q)"
    using assms by (auto simp: benc_canon_str_def split: if_splits)
  then obtain n r where r: "benc_digits p = Some (n, 58 # r)" "s = take n r" "q = drop n r" "n \<le> length r"
    by (auto simp: str_body_def split: option.splits list.splits if_splits)
  then show ?thesis using digits_canonical [OF r(1) p(3)] by (simp add: bstr_def)
qed

lemma canon_int_dec:
  assumes "nat \<bar>i\<bar> \<le> INT64_MAX"
  shows "canon_int (dec_bytes_int i @ 101 # q) = Some q"
proof (cases "i < 0")
  case True
  obtain c cs where c: "dec_bytes (nat (- i)) = c # cs" "is_digit c" by (rule dec_bytes_cases)
  have "c \<noteq> 48" using dec_bytes_hd [of "nat (- i)"] c(1) True by simp
  then show ?thesis
    using True assms c int_body_dec [of "nat (- i)" q] by (simp add: canon_int_def dec_bytes_int_def)
next
  case False
  obtain c cs where c: "dec_bytes (nat i) = c # cs" "is_digit c" by (rule dec_bytes_cases)
  have "cs = []" if "c = 48"
    using dec_bytes_hd [of "nat i"] c(1) that by (simp add: dec_bytes_rec [of 0])
  then have "\<not> (c = 48 \<and> is_digit ((c # cs @ 101 # q) ! 1))" by auto
  moreover have "c \<noteq> 45" using c(2) by auto
  ultimately show ?thesis
    using False assms c int_body_dec [of "nat i" q] by (auto simp: canon_int_def dec_bytes_int_def)
qed

lemma canon_int_sound:
  assumes "canon_int p = Some q"
  obtains i where "p = dec_bytes_int i @ 101 # q" "nat \<bar>i\<bar> \<le> INT64_MAX"
proof -
  have run: "\<exists>n. p = dec_bytes n @ 101 # q \<and> n \<le> INT64_MAX \<and> (hd p \<noteq> 48 \<longrightarrow> 0 < n)"
    if int: "map_option snd (int_body p) = Some q"
      and z: "\<not> (hd p = 48 \<and> 1 < length p \<and> is_digit (p ! 1))" for p
  proof (cases "benc_digits p")
    case (Some r)
    then have "benc_digits p = Some (fst r, 101 # q)"
      using int by (cases r) (auto simp: int_body_def split: list.splits if_splits)
    then show ?thesis using digits_canonical [OF _ z] by blast
  qed (use int in \<open>simp add: int_body_def\<close>)
  show ?thesis
  proof (cases "p \<noteq> [] \<and> hd p = 45")
    case True
    then have t: "map_option snd (int_body (tl p)) = Some q" "hd (tl p) \<noteq> 48"
      using assms by (auto simp: canon_int_def int_body_def benc_digits_eq split: if_splits)
    then obtain n where "tl p = dec_bytes n @ 101 # q" "n \<le> INT64_MAX" "0 < n" using run [of "tl p"] by auto
    then show ?thesis using that [of "- int n"] True by (cases p) (auto simp: dec_bytes_int_def)
  next
    case False
    then obtain n where "p = dec_bytes n @ 101 # q" "n \<le> INT64_MAX"
      using run [of p] assms by (auto simp: canon_int_def split: if_splits)
    then show ?thesis using that [of "int n"] by (simp add: dec_bytes_int_def)
  qed
qed

section \<open>The canonical test accepts exactly the encodings\<close>

lemma bencode_hd: obtains c r where "bencode v = c # r" "c \<noteq> 101"
proof (cases v)
  case (BStr s)
  obtain c cs where c: "dec_bytes (length s) = c # cs" "is_digit c" by (rule dec_bytes_cases)
  then have "c \<noteq> 101" by auto
  then show ?thesis using that [of c "cs @ 58 # s"] BStr c(1) by (simp add: bstr_def)
qed (use that in auto)

lemma bstr_hd: obtains c r where "bstr s = c # r" "is_digit c"
proof -
  obtain c cs where "dec_bytes (length s) = c # cs" "is_digit c" by (rule dec_bytes_cases)
  then show ?thesis using that [of c "cs @ 58 # s"] by (simp add: bstr_def)
qed

lemma canon_items_complete:
  "\<forall>v \<in> set vs. \<forall>q. benc_canon (d + 1) (bencode v @ q) = Some q \<Longrightarrow>
   canon_items d (concat (map bencode vs) @ 101 # q) = Some q"
proof (induction vs)
  case Nil
  then show ?case by (simp add: canon_items.simps)
next
  case (Cons v vs)
  obtain c r where c: "bencode v = c # r" "c \<noteq> 101" by (rule bencode_hd)
  have "benc_canon (d + 1) (bencode v @ concat (map bencode vs) @ 101 # q) =
      Some (concat (map bencode vs) @ 101 # q)"
    using Cons.prems by simp
  then show ?case using Cons c by (subst canon_items.simps) simp
qed

lemma canon_pairs_complete:
  "\<forall>(k, v) \<in> set kvs. length k \<le> INT64_MAX \<and> (\<forall>q. benc_canon (d + 1) (bencode v @ q) = Some q) \<Longrightarrow>
   sorted_wrt key_less (case_option [] (\<lambda>p. [p]) prev @ map fst kvs) \<Longrightarrow>
   canon_pairs d prev (concat (map (\<lambda>(k, v). bstr k @ bencode v) kvs) @ 101 # q) = Some q"
proof (induction kvs arbitrary: prev)
  case Nil
  then show ?case by (simp add: canon_pairs.simps)
next
  case (Cons kv kvs)
  obtain k v where kv: "kv = (k, v)" by (cases kv)
  obtain c r where c: "bstr k = c # r" "is_digit c" by (rule bstr_hd)
  let ?rest = "concat (map (\<lambda>(k, v). bstr k @ bencode v) kvs) @ 101 # q"
  have 1: "benc_canon_str (bstr k @ bencode v @ ?rest) = Some (k, bencode v @ ?rest)"
    "benc_canon (d + 1) (bencode v @ ?rest) = Some ?rest"
    using Cons.prems kv by (simp_all add: canon_str_bstr)
  have 2: "\<not> (prev \<noteq> None \<and> 0 \<le> benc_key_cmp (the prev) k)"
    using Cons.prems(2) kv key_cmp_less by (cases prev) (auto simp: not_le)
  have 3: "canon_pairs d (Some k) ?rest = Some q"
  proof (rule Cons.IH)
    show "sorted_wrt key_less ((case Some k of None \<Rightarrow> [] | Some p \<Rightarrow> [p]) @ map fst kvs)"
      using Cons.prems(2) kv by (simp add: sorted_wrt_append)
  qed (use Cons.prems(1) in simp)
  have "c \<noteq> 101" using c(2) by auto
  then show ?case using 1 2 3 c kv by (subst canon_pairs.simps) auto
qed

lemma canon_complete:
  "bval_ok (BENC_MAX_DEPTH - d) v \<Longrightarrow> d \<le> BENC_MAX_DEPTH \<Longrightarrow> benc_canon d (bencode v @ q) = Some q"
proof (induction v arbitrary: d q)
  case (BInt i)
  then show ?case using canon_int_dec [of i q] by (simp add: benc_canon.simps)
next
  case (BStr s)
  obtain c r where "bstr s = c # r" "is_digit c" by (rule bstr_hd)
  then show ?case
    using BStr canon_str_bstr [of s q] by (auto simp: benc_canon.simps split: if_splits)
next
  case (BList vs)
  have "\<forall>v \<in> set vs. \<forall>q. benc_canon (d + 1) (bencode v @ q) = Some q"
    using BList by (auto simp: Suc_le_eq)
  then show ?case using BList.prems canon_items_complete [of vs d q] by (simp add: benc_canon.simps)
next
  case (BDict kvs)
  have "\<forall>(k, v) \<in> set kvs. length k \<le> INT64_MAX \<and> (\<forall>q. benc_canon (d + 1) (bencode v @ q) = Some q)"
    using BDict by (fastforce simp: Suc_le_eq)
  then show ?case
    using BDict.prems canon_pairs_complete [of kvs d None q] by (simp add: benc_canon.simps)
qed

lemma canon_sound:
  "benc_canon d p = Some q \<Longrightarrow> d \<le> BENC_MAX_DEPTH \<and> (\<exists>v. bval_ok (BENC_MAX_DEPTH - d) v \<and> p = bencode v @ q)"
  "canon_items d p = Some q \<Longrightarrow>
   \<exists>vs. bval_ok (BENC_MAX_DEPTH - d) (BList vs) \<and> p = concat (map bencode vs) @ 101 # q"
  "canon_pairs d prev p = Some q \<Longrightarrow>
   \<exists>kvs. bval_ok (BENC_MAX_DEPTH - d) (BDict kvs) \<and>
     sorted_wrt key_less (case_option [] (\<lambda>p. [p]) prev @ map fst kvs) \<and>
     p = concat (map (\<lambda>(k, v). bstr k @ bencode v) kvs) @ 101 # q"
proof (induction d p and d p and d prev p arbitrary: q and q and q
    rule: benc_canon_canon_items_canon_pairs.induct)
  case (1 depth p)
  obtain c r where p: "p = c # r" and depth: "\<not> BENC_MAX_DEPTH < depth"
    using "1.prems" by (auto simp: benc_canon.simps split: if_splits list.splits)
  consider "c = 105" | "c = 108" | "c = 100" | "c \<noteq> 105" "c \<noteq> 108" "c \<noteq> 100" by blast
  then show ?case
  proof cases
    case 1
    then have "canon_int r = Some q" using "1.prems" p depth by (simp add: benc_canon.simps)
    then obtain i where "r = dec_bytes_int i @ 101 # q" "nat \<bar>i\<bar> \<le> INT64_MAX" by (rule canon_int_sound)
    then show ?thesis using 1 p depth by (auto intro!: exI [of _ "BInt i"])
  next
    case 2
    then have "canon_items depth r = Some q" using "1.prems" p depth by (simp add: benc_canon.simps)
    then obtain vs where "bval_ok (BENC_MAX_DEPTH - depth) (BList vs)"
      "r = concat (map bencode vs) @ 101 # q"
      using "1.IH"(1) [OF depth p] 2 by auto
    then show ?thesis using 2 p depth by (auto intro!: exI [of _ "BList vs"])
  next
    case 3
    then have "canon_pairs depth None r = Some q" using "1.prems" p depth by (simp add: benc_canon.simps)
    then obtain kvs where "bval_ok (BENC_MAX_DEPTH - depth) (BDict kvs)"
      "r = concat (map (\<lambda>(k, v). bstr k @ bencode v) kvs) @ 101 # q"
      using "1.IH"(2) [OF depth p] 3 by auto
    then show ?thesis using 3 p depth by (auto intro!: exI [of _ "BDict kvs"])
  next
    case 4
    then obtain s where "benc_canon_str p = Some (s, q)"
      using "1.prems" p depth by (auto simp: benc_canon.simps)
    then show ?thesis
      using canon_str_sound [of p s q] depth by (auto intro!: exI [of _ "BStr s"])
  qed
next
  case (2 depth p)
  show ?case
  proof (cases "hd p = 101")
    case True
    then show ?thesis
      using "2.prems" by (auto simp: canon_items.simps split: list.splits intro!: exI [of _ "[]"])
  next
    case False
    then obtain c r x where p: "p = c # r" "c \<noteq> 101" "benc_canon (depth + 1) p = Some x"
      "canon_items depth x = Some q"
      using "2.prems" by (auto simp: canon_items.simps [of _ p] split: list.splits option.splits)
    obtain v where v: "depth + 1 \<le> BENC_MAX_DEPTH" "bval_ok (BENC_MAX_DEPTH - (depth + 1)) v" "p = bencode v @ x"
      using "2.IH"(1) [OF p(1,2,3)] by auto
    obtain vs where "bval_ok (BENC_MAX_DEPTH - depth) (BList vs)" "x = concat (map bencode vs) @ 101 # q"
      using "2.IH"(2) [OF p(1,2,3,4)] by auto
    then show ?thesis using v by (intro exI [of _ "v # vs"]) auto
  qed
next
  case (3 depth prev p)
  show ?case
  proof (cases "hd p = 101")
    case True
    then show ?thesis
      using "3.prems"
      by (auto simp: canon_pairs.simps split: list.splits option.splits intro!: exI [of _ "[]"])
  next
    case False
    then obtain c r k y x where p: "p = c # r" "c \<noteq> 101" "benc_canon_str p = Some (k, y)"
      "\<not> (prev \<noteq> None \<and> 0 \<le> benc_key_cmp (the prev) k)"
      "benc_canon (depth + 1) y = Some x" "canon_pairs depth (Some k) x = Some q"
      using "3.prems"
      by (auto simp: canon_pairs.simps [of _ _ p] split: list.splits option.splits if_splits)
    obtain v where v: "depth + 1 \<le> BENC_MAX_DEPTH" "bval_ok (BENC_MAX_DEPTH - (depth + 1)) v" "y = bencode v @ x"
      using "3.IH"(1) [OF p(1,2,3) refl p(4,5)] by auto
    obtain kvs where kvs: "bval_ok (BENC_MAX_DEPTH - depth) (BDict kvs)"
      "sorted_wrt key_less (k # map fst kvs)"
      "x = concat (map (\<lambda>(k, v). bstr k @ bencode v) kvs) @ 101 # q"
      using "3.IH"(2) [OF p(1,2,3) refl p(4,5,6)] by auto
    have prev: "key_less a k" if "prev = Some a" for a
      using p(4) that key_cmp_less [of a k] by auto
    have "p = bstr k @ y" "length k \<le> INT64_MAX" using canon_str_sound [OF p(3)] by auto
    then show ?thesis
      using v kvs prev key_less_trans by (intro exI [of _ "(k, v) # kvs"]) (auto split: option.split)
  qed
qed

text \<open>C24. A buffer passes the canonical test exactly when it is, with nothing trailing, the encoding of
  a value: integers and string lengths that fit 64 bits without leading zeros or a negative zero,
  dictionary keys strictly ascending in the order of their bytes, nested at most sixteen levels.\<close>

theorem benc_canonical_exact:
  "benc_canonical buf \<longleftrightarrow> (\<exists>v. bval_ok BENC_MAX_DEPTH v \<and> buf = bencode v)"
  using canon_sound(1) [of 0 buf "[]"] canon_complete [of 0 _ "[]"]
  by (auto simp: benc_canonical_def)

section \<open>Reading a dictionary\<close>

lemma skip_items_complete:
  "\<forall>v \<in> set vs. \<forall>q. benc_skip_depth (d + 1) (bencode v @ q) = Some q \<Longrightarrow>
   benc_skip_items d (concat (map bencode vs) @ 101 # q) = Some q"
proof (induction vs)
  case Nil
  then show ?case by (simp add: benc_skip_items.simps)
next
  case (Cons v vs)
  obtain c r where c: "bencode v = c # r" "c \<noteq> 101" by (rule bencode_hd)
  have "benc_skip_depth (d + 1) (bencode v @ concat (map bencode vs) @ 101 # q) =
      Some (concat (map bencode vs) @ 101 # q)"
    using Cons.prems by simp
  then show ?case using Cons c by (subst benc_skip_items.simps) simp
qed

lemma skip_bstr: "length s \<le> INT64_MAX \<Longrightarrow> d \<le> BENC_MAX_DEPTH \<Longrightarrow> benc_skip_depth d (bstr s @ q) = Some q"
proof -
  assume s: "length s \<le> INT64_MAX" "d \<le> BENC_MAX_DEPTH"
  obtain c r where "bstr s = c # r" "is_digit c" by (rule bstr_hd)
  then show ?thesis using s str_body_bstr [of s q] by (auto simp: benc_skip_depth.simps split: if_splits)
qed

lemma int_skip:
  assumes "nat \<bar>i\<bar> \<le> INT64_MAX"
  shows "benc_int_get (bencode (BInt i) @ q) = Some i"
    and "d \<le> BENC_MAX_DEPTH \<Longrightarrow> benc_skip_depth d (bencode (BInt i) @ q) = Some q"
proof -
  obtain c cs where c: "dec_bytes (nat i) = c # cs" "is_digit c" by (rule dec_bytes_cases)
  have "c \<noteq> 45" using c(2) by auto
  then show "benc_int_get (bencode (BInt i) @ q) = Some i"
    and "d \<le> BENC_MAX_DEPTH \<Longrightarrow> benc_skip_depth d (bencode (BInt i) @ q) = Some q"
    using assms c int_body_dec [of "nat (- i)" q] int_body_dec [of "nat i" q]
    by (auto simp: benc_int_get_def benc_skip_depth.simps dec_bytes_int_def)
qed

lemma skip_complete:
  "bval_ok n v \<Longrightarrow> d + n \<le> BENC_MAX_DEPTH \<Longrightarrow> benc_skip_depth d (bencode v @ q) = Some q"
proof (induction v arbitrary: n d q)
  case (BInt i)
  then show ?case using int_skip(2) by simp
next
  case (BStr s)
  then show ?case by (simp add: skip_bstr)
next
  case (BList vs)
  have "\<forall>v \<in> set vs. \<forall>q. benc_skip_depth (d + 1) (bencode v @ q) = Some q"
  proof (intro ballI allI)
    fix v q
    assume "v \<in> set vs"
    then show "benc_skip_depth (d + 1) (bencode v @ q) = Some q"
      using BList.prems by (intro BList.IH [of v "n - 1"]) auto
  qed
  then show ?case using BList.prems skip_items_complete [of vs d q] by (simp add: benc_skip_depth.simps)
next
  case (BDict kvs)
  let ?vs = "concat (map (\<lambda>(k, v). [BStr k, v]) kvs)"
  have eq: "concat (map (\<lambda>(k, v). bstr k @ bencode v) kvs) = concat (map bencode ?vs)"
    by (induction kvs) auto
  have "\<forall>v \<in> set ?vs. \<forall>q. benc_skip_depth (d + 1) (bencode v @ q) = Some q"
  proof (intro ballI allI)
    fix w q
    assume "w \<in> set ?vs"
    then obtain k v where kv: "(k, v) \<in> set kvs" "w = BStr k \<or> w = v" by auto
    then have ok: "length k \<le> INT64_MAX" "0 < n" "bval_ok (n - 1) v" using BDict.prems by auto
    then have "benc_skip_depth (d + 1) (bencode v @ q) = Some q"
      using BDict.prems(2) kv by (intro BDict.IH [of "(k, v)" v "n - 1"]) auto
    then show "benc_skip_depth (d + 1) (bencode w @ q) = Some q"
      using kv(2) ok BDict.prems(2) skip_bstr [of k "d + 1" q] by auto
  qed
  then show ?case
    using BDict.prems(2) skip_items_complete [of ?vs d q] eq by (simp add: benc_skip_depth.simps)
qed

lemma find_loop_step:
  assumes "length k \<le> INT64_MAX" "bval_ok n v" "n \<le> BENC_MAX_DEPTH"
  shows "find_loop key (bstr k @ bencode v @ q) = (if k = key then Some (bencode v) else find_loop key q)"
proof -
  obtain c r where c: "bstr k = c # r" "is_digit c" by (rule bstr_hd)
  have "benc_skip (bstr k @ bencode v @ q) = Some (bencode v @ q)" "benc_skip (bencode v @ q) = Some q"
    using assms skip_bstr [of k 0] skip_complete [of n v 0] by (simp_all add: benc_skip_def)
  moreover have "benc_str_get (bstr k) = Some k"
    using assms(1) str_body_bstr [of k "[]"] by (simp add: benc_str_get_def)
  moreover have "hd (bstr k @ bencode v @ q) \<noteq> 101" "bstr k \<noteq> []" using c by auto
  ultimately show ?thesis by (subst find_loop.simps) simp
qed

lemma dict_find_bencode:
  assumes "bval_ok BENC_MAX_DEPTH (BDict kvs)"
  shows "benc_dict_find (bencode (BDict kvs) @ q) key = map_option bencode (map_of kvs key)"
proof -
  have "find_loop key (concat (map (\<lambda>(k, v). bstr k @ bencode v) kvs) @ 101 # q) =
      map_option bencode (map_of kvs key)"
    if "\<forall>(k, v) \<in> set kvs. length k \<le> INT64_MAX \<and> bval_ok (BENC_MAX_DEPTH - 1) v"
    using that
  proof (induction kvs)
    case Nil
    then show ?case by (simp add: find_loop.simps)
  next
    case (Cons kv kvs)
    then show ?case
      using find_loop_step [of "fst kv" "BENC_MAX_DEPTH - 1" "snd kv" key]
      by (cases kv) auto
  qed
  then show ?thesis using assms by (force simp: benc_dict_find_def)
qed

text \<open>Looking a key up in an encoded dictionary returns the encoding of the value the
  dictionary holds for it, and nothing when it holds none, whatever follows the dictionary in the buffer.\<close>

theorem benc_dict_find_correct:
  assumes "bval_ok BENC_MAX_DEPTH (BDict kvs)"
  shows "benc_dict_find (bencode (BDict kvs) @ q) key = map_option bencode (map_of kvs key)"
  by (rule dict_find_bencode [OF assms])

theorem benc_dict_find_correct_witness:
  "benc_dict_find (bencode (BDict [([97], BInt 5), ([98, 99], BStr [1, 2])])) [98, 99] = Some [50, 58, 1, 2]"
  using benc_dict_find_correct [of "[([97], BInt 5), ([98, 99], BStr [1, 2])]" "[]" "[98, 99]"]
  by (simp add: INT64_MAX_def BENC_MAX_DEPTH_def key_less_def bstr_def dec_bytes_rec)

text \<open>The writers append the reference encoding where it fits, and end in the sticky error where
  it does not.\<close>

lemma benc_str_add_exact:
  assumes "\<not> bb_err b" "length (bb_buf b) \<le> bb_cap b"
  shows "if length (bb_buf b) + length (bstr s) \<le> bb_cap b
    then benc_str_add b s = b\<lparr>bb_buf := bb_buf b @ bencode (BStr s)\<rparr> else bb_err (benc_str_add b s)"
  using assms by (auto simp: benc_str_add_def benc_raw_add_def bstr_def)

lemma benc_int_add_exact:
  assumes "\<not> bb_err b" "length (bb_buf b) \<le> bb_cap b"
  shows "if length (bb_buf b) + length (bencode (BInt i)) \<le> bb_cap b
    then benc_int_add b i = b\<lparr>bb_buf := bb_buf b @ bencode (BInt i)\<rparr> else bb_err (benc_int_add b i)"
  using assms by (auto simp: benc_int_add_def benc_raw_add_def)

end
