(* ===== verification/Pathplane.thy ===== *)
theory Pathplane
  imports Path_Table Path_Adopt Probeplane
begin

text \<open>
  The path plane (pathplane.c): a connection's paths with the probe round that measures them, the
  handling of pings and pongs, the pin a peer's statement sets, the decision which path carries,
  and the carriers set aside.

  The sinks are a record of what they answer: functions and lists for those that are asked, a
  flag for those that are only told, with the NULL defaults written out; what the plane does
  through them is the list of calls each operation returns. Agents and contexts are borrowed
  pointers, compared and never followed: numbers. Each locked section is one definition where the
  source unlocks in between. Log lines are left out.
\<close>

definition PATHPLANE_LIVE_MAX :: nat where "PATHPLANE_LIVE_MAX = 17"
definition PATHPLANE_HOLD_MAX :: nat where "PATHPLANE_HOLD_MAX = 16"

section \<open>State\<close>

record pathplane_hold =
  ho_agent :: "nat option"
  ho_ctx :: "nat option"
  ho_until_ms :: u64

record pathplane =
  pl_t :: path_table
  pl_pin_id :: "byte list"
  pl_pinned :: bool
  pl_pin_warmth :: path_warmth
  pl_pp :: probeplane
  pl_next_ice_ep_ms :: u64
  pl_holds :: "pathplane_hold list"
  pl_bh_kind :: "path_kind option"
  pl_bh_ep :: path_ep
  pl_bh_mute :: bool

text \<open>\<open>pk_live\<close> is \<open>None\<close> for a NULL sink, else the agents that can send now; \<open>pk_ice_ep\<close> the pair
  each agent has nominated.\<close>

record pathplane_sinks =
  pk_ident :: "byte list"
  pk_live :: "nat list option"
  pk_ice_ep :: "(nat \<Rightarrow> path_ep option) option"
  pk_is_self :: "path_ep \<Rightarrow> bool"
  pk_kind_of :: "path_ep \<Rightarrow> path_kind"
  pk_heard :: bool
  pk_qualified :: bool
  pk_agent_free :: bool
  pk_agent_failed :: "nat \<Rightarrow> bool"
  pk_other :: bool

datatype pl_call =
    Pl_send path_kind "nat option" "sockaddr_in6 option" "byte list"
  | Pl_heard u64
  | Pl_qualified
  | Pl_agent_free "nat option" "nat option"
  | Pl_other path_probe path_kind bool

definition hold_zero :: pathplane_hold where
  "hold_zero = \<lparr>ho_agent = None, ho_ctx = None, ho_until_ms = 0\<rparr>"

definition pathplane_init :: "probeplane \<Rightarrow> pathplane" where
  "pathplane_init pp =
     \<lparr>pl_t = path_table_init, pl_pin_id = replicate PATH_ID_LEN 0, pl_pinned = False,
      pl_pin_warmth = PATH_WARM, pl_pp = pp, pl_next_ice_ep_ms = 0,
      pl_holds = replicate PATHPLANE_HOLD_MAX hold_zero, pl_bh_kind = None, pl_bh_ep = ep_zero,
      pl_bh_mute = False\<rparr>"

section \<open>Entering and retiring paths\<close>

type_synonym ntop = "bool \<Rightarrow> byte list \<Rightarrow> string option"

definition pathplane_add_ice :: "ntop \<Rightarrow> pathplane \<Rightarrow> nat option \<Rightarrow> u64 \<Rightarrow> pathplane" where
  "pathplane_add_ice ntop pl agent now =
     pl\<lparr>pl_t := snd (path_table_add ntop (pl_t pl) PATH_ICE None agent now)\<rparr>"

definition pathplane_drop_ice :: "pathplane \<Rightarrow> pathplane" where
  "pathplane_drop_ice pl = pl\<lparr>pl_t := path_table_drop_kind (pl_t pl) PATH_ICE\<rparr>"

definition pathplane_drop_agent :: "pathplane \<Rightarrow> nat option \<Rightarrow> pathplane" where
  "pathplane_drop_agent pl agent = pl\<lparr>pl_t := path_table_drop_agent (pl_t pl) agent\<rparr>"

text \<open>The path held afterwards, with its label.\<close>

definition pathplane_add_ep ::
    "ntop \<Rightarrow> pathplane \<Rightarrow> pathplane_sinks \<Rightarrow> path_kind \<Rightarrow> sockaddr_in6 \<Rightarrow> u64 \<Rightarrow>
     string option \<times> pathplane" where
  "pathplane_add_ep ntop pl k kind remote now =
     (case path_ep_from_sockaddr (AF_INET6 remote) 28 of
        Some ep \<Rightarrow>
          if pk_is_self k ep then (None, pl)
          else (case path_table_add ntop (pl_t pl) kind (Some remote) None now of
                  (p, t) \<Rightarrow> (map_option (\<lambda>i. pa_label (pt_p t ! i)) p, pl\<lparr>pl_t := t\<rparr>))
      | None \<Rightarrow>
          (case path_table_add ntop (pl_t pl) kind (Some remote) None now of
             (p, t) \<Rightarrow> (map_option (\<lambda>i. pa_label (pt_p t ! i)) p, pl\<lparr>pl_t := t\<rparr>)))"

definition pathplane_offer_path ::
    "ntop \<Rightarrow> pathplane \<Rightarrow> pathplane_sinks \<Rightarrow> sockaddr_in6 \<Rightarrow> u64 \<Rightarrow> pathplane" where
  "pathplane_offer_path ntop pl k remote now =
     (case path_ep_from_sockaddr (AF_INET6 remote) 28 of
        None \<Rightarrow> pl
      | Some ep \<Rightarrow>
          if path_ep_any ep \<or> pe_port ep = 0 then pl
          else if \<not> path_ep_is_unicast ep then pl
          else if pk_is_self k ep then pl
          else pl\<lparr>pl_t := snd (path_table_offer ntop (pl_t pl) (pk_kind_of k ep) (Some remote) now)\<rparr>)"

definition pathplane_reset_stats :: "pathplane \<Rightarrow> u64 \<Rightarrow> pathplane" where
  "pathplane_reset_stats pl now = pl\<lparr>pl_t := path_table_reset_stats (pl_t pl) now\<rparr>"

definition pathplane_clear :: "pathplane \<Rightarrow> pathplane" where
  "pathplane_clear pl = pl\<lparr>pl_t := path_table_clear (pl_t pl)\<rparr>"

section \<open>What the plane says of itself\<close>

definition pathplane_holds_ep :: "pathplane \<Rightarrow> path_ep \<Rightarrow> bool \<Rightarrow> bool" where
  "pathplane_holds_ep pl ep exact =
     (if exact then path_table_find_ep (pl_t pl) ep \<noteq> None
      else path_table_find_port (pl_t pl) (pe_port ep) \<noteq> None)"

definition in6_is_addr_linklocal :: "byte list \<Rightarrow> bool" where
  "in6_is_addr_linklocal a \<longleftrightarrow> a ! 0 = 0xfe \<and> a ! 1 AND 0xc0 = 0x80"

definition pathplane_lan_paths :: "pathplane \<Rightarrow> bool \<Rightarrow> nat" where
  "pathplane_lan_paths pl routable_only =
     length (filter (\<lambda>p. if \<not> pa_used p \<or> pa_kind p = PATH_ICE then False
                         else if routable_only \<and> in6_is_addr_linklocal (sin6_addr (pa_remote p)) then False
                         else True)
               (pt_p (pl_t pl)))"

definition pathplane_any_qualified :: "pathplane \<Rightarrow> bool" where
  "pathplane_any_qualified pl = path_table_any_qualified (pl_t pl)"

definition pathplane_all_dead :: "pathplane \<Rightarrow> u64 \<Rightarrow> bool" where
  "pathplane_all_dead pl now = path_table_all_dead (pl_t pl) now"

definition pathplane_is_probe :: "pathplane \<Rightarrow> byte list \<Rightarrow> bool" where
  "pathplane_is_probe pl data = path_probe_is (pp_magic (pl_pp pl)) data"

definition pathplane_gate ::
    "pathplane option \<Rightarrow> path_adopt \<Rightarrow> u32 \<Rightarrow> path_ep \<Rightarrow> byte list \<Rightarrow> u64 \<Rightarrow> bool \<times> path_adopt" where
  "pathplane_gate pl a magic ep data now =
     (if \<not> path_probe_is magic data then (True, a)
      else if (case pl of Some pl \<Rightarrow> pathplane_holds_ep pl ep True | None \<Rightarrow> False) then (True, a)
      else path_adopt_allow a ep now)"

definition pathplane_carry_rtt :: "pathplane \<Rightarrow> int option" where
  "pathplane_carry_rtt pl =
     (case pt_sel (pl_t pl) of
        None \<Rightarrow> None
      | Some sel \<Rightarrow>
          if pa_qualified (pt_p (pl_t pl) ! sel) then Some (path_srtt_ms (pt_p (pl_t pl) ! sel)) else None)"

definition pathplane_proven :: "pathplane \<Rightarrow> u64 \<Rightarrow> nat" where
  "pathplane_proven pl now =
     length (filter (\<lambda>p. pa_used p \<and> pa_qualified p \<and> path_warmth_of p now \<noteq> PATH_DEAD)
               (pt_p (pl_t pl)))"

text \<open>The path a frame arrived on, and the path a nonce names.\<close>

definition recv_path :: "pathplane \<Rightarrow> path_kind \<Rightarrow> path_ep \<Rightarrow> nat option \<Rightarrow> nat option" where
  "recv_path pl kind src agent =
     (if kind = PATH_ICE then path_table_find_agent (pl_t pl) agent
      else path_table_find_ep (pl_t pl) src)"

definition nonce_path :: "pathplane \<Rightarrow> u64 \<Rightarrow> nat option" where
  "nonce_path pl nonce =
     find_index (\<lambda>p. pa_used p \<and> pa_outstanding p \<and> pa_nonce p = nonce) (pt_p (pl_t pl))"

section \<open>The test hook\<close>

definition blackholed :: "pathplane \<Rightarrow> path_kind \<Rightarrow> sockaddr_in6 option \<Rightarrow> bool" where
  "blackholed pl kind to =
     (if pl_bh_mute pl then True
      else if pl_bh_kind pl = None \<or> Some kind \<noteq> pl_bh_kind pl then False
      else if kind = PATH_ICE then True
      else (case to of
              None \<Rightarrow> False
            | Some r \<Rightarrow>
                (case path_ep_from_sockaddr (AF_INET6 r) 28 of
                   None \<Rightarrow> False
                 | Some ep \<Rightarrow> path_ep_eq ep (pl_bh_ep pl))))"

definition pathplane_blackhole_arm ::
    "pathplane \<Rightarrow> path_kind option \<Rightarrow> sockaddr_in6 option \<Rightarrow> pathplane" where
  "pathplane_blackhole_arm pl kind to =
     pl\<lparr>pl_bh_ep := (case to of
                       None \<Rightarrow> ep_zero
                     | Some r \<Rightarrow> (case path_ep_from_sockaddr (AF_INET6 r) 28 of
                                    None \<Rightarrow> ep_zero | Some ep \<Rightarrow> ep)),
        pl_bh_kind := kind\<rparr>"

definition pathplane_blackhole_mute :: "pathplane \<Rightarrow> bool \<Rightarrow> pathplane" where
  "pathplane_blackhole_mute pl b = pl\<lparr>pl_bh_mute := b\<rparr>"

definition pathplane_blackhole_lift :: "pathplane \<Rightarrow> pathplane" where
  "pathplane_blackhole_lift pl = pl\<lparr>pl_bh_kind := None, pl_bh_mute := False\<rparr>"

definition pathplane_muted :: "pathplane \<Rightarrow> bool" where
  "pathplane_muted pl = pl_bh_mute pl"

definition pathplane_blackhole_kind :: "pathplane \<Rightarrow> path_kind option" where
  "pathplane_blackhole_kind pl = pl_bh_kind pl"

definition pathplane_blackhole_armed :: "pathplane \<Rightarrow> bool" where
  "pathplane_blackhole_armed pl \<longleftrightarrow> pl_bh_kind pl \<noteq> None \<or> pathplane_muted pl"

section \<open>The probe round\<close>

definition agent_listed :: "nat list \<Rightarrow> nat option \<Rightarrow> bool" where
  "agent_listed live a \<longleftrightarrow> (\<exists>x \<in> set live. Some x = a)"

definition pathplane_usable :: "path \<Rightarrow> nat list \<Rightarrow> bool" where
  "pathplane_usable p live = (if pa_kind p \<noteq> PATH_ICE then True else agent_listed live (pa_agent p))"

text \<open>\<open>k->live ? pathplane_usable(p, live, nlive) : 1\<close>, with the list the sink fills.\<close>

definition live_now :: "pathplane_sinks \<Rightarrow> nat list" where
  "live_now k = (case pk_live k of Some l \<Rightarrow> take PATHPLANE_LIVE_MAX l | None \<Rightarrow> [])"

definition usable_now :: "pathplane_sinks \<Rightarrow> path \<Rightarrow> bool" where
  "usable_now k p = (if pk_live k \<noteq> None then pathplane_usable p (live_now k) else True)"

text \<open>The pairs the agents name on this round.\<close>

definition tick_eps :: "pathplane_sinks \<Rightarrow> (nat \<times> path_ep) list" where
  "tick_eps k =
     (case pk_ice_ep k of
        None \<Rightarrow> []
      | Some ice_ep \<Rightarrow>
          concat (map (\<lambda>a. case ice_ep a of None \<Rightarrow> [] | Some ep \<Rightarrow> [(a, ep)]) (live_now k)))"

text \<open>The first locked section, one slot: refresh and expire.\<close>

definition tick_slot ::
    "crypto \<Rightarrow> ntop \<Rightarrow> pathplane_sinks \<Rightarrow> (nat \<times> path_ep) list \<Rightarrow> byte list \<Rightarrow> u64 \<Rightarrow> path \<Rightarrow> path" where
  "tick_slot C ntop k eps base now p =
     (if \<not> pa_used p then p
      else
        (let p = path_probe_expire (p\<lparr>pa_usable := usable_now k p\<rparr>) now;
             p = (if pa_qualified p \<and> path_warmth_of p now \<noteq> pa_warmth_noted p
                  then p\<lparr>pa_warmth_noted := path_warmth_of p now\<rparr> else p)
         in if pa_kind p = PATH_ICE then
              (case find (\<lambda>(a, ep). pa_agent p = Some a) eps of
                 None \<Rightarrow> p
               | Some (a, ep) \<Rightarrow> path_set_peer_ep C ntop p ep base)
            else p))"

definition tick_scan :: "crypto \<Rightarrow> ntop \<Rightarrow> pathplane_sinks \<Rightarrow> pathplane \<Rightarrow> u64 \<Rightarrow> nat list \<times> pathplane" where
  "tick_scan C ntop k pl now =
     (let ask = pl_next_ice_ep_ms pl \<le> now \<and> pk_ice_ep k \<noteq> None;
          eps = (if ask then tick_eps k else []);
          pl = (if ask then pl\<lparr>pl_next_ice_ep_ms := now + PATH_KEEP_MS\<rparr> else pl);
          ps = map (tick_slot C ntop k eps (pp_base (pl_pp pl)) now) (pt_p (pl_t pl))
      in (filter (\<lambda>i. pa_usable (ps ! i) \<and> path_probe_due (ps ! i) now) [0..<length ps],
          pl\<lparr>pl_t := (pl_t pl)\<lparr>pt_p := ps\<rparr>\<rparr>))"

text \<open>The second locked section: one ping per path still due, with whether the hook swallows it.\<close>

type_synonym ping = "path_probe \<times> path_kind \<times> nat option \<times> bool \<times> sockaddr_in6"

definition probe_zero :: path_probe where
  "probe_zero = \<lparr>pr_type = 0, pr_nonce = 0, pr_seq = 0, pr_ufrag = [], pr_have_tail = False,
     pr_echo = ep_zero, pr_srtt_ms = 0, pr_loss_ppt = 0, pr_base_srtt_ms = 0\<rparr>"

fun tick_mark :: "pathplane \<Rightarrow> u64 \<Rightarrow> (nat \<times> u64) list \<Rightarrow> ping list \<times> pathplane" where
  "tick_mark pl now [] = ([], pl)"
| "tick_mark pl now ((i, nonce) # due) =
     (let p = pt_p (pl_t pl) ! i in
      if \<not> pa_usable p \<or> \<not> path_probe_due p now then tick_mark pl now due
      else
        (let pr = path_fill_tail p (probe_zero\<lparr>pr_type := PROBE_PING, pr_nonce := nonce\<rparr>);
             ping = (pr, pa_kind p, pa_agent p, blackholed pl (pa_kind p) (Some (pa_remote p)), pa_remote p);
             pl = pl\<lparr>pl_t := (pl_t pl)\<lparr>pt_p := (pt_p (pl_t pl))[i := path_probe_sent p nonce now]\<rparr>\<rparr>;
             (pings, pl) = tick_mark pl now due
         in (ping # pings, pl)))"

text \<open>The sends, outside the lock; \<open>rnds\<close> are the nonces the seals draw. A seal that fails ends the
  round.\<close>

fun tick_send ::
    "crypto \<Rightarrow> byte list \<Rightarrow> byte list option list \<Rightarrow> pathplane \<Rightarrow> ping list \<Rightarrow> pl_call list \<times> pathplane" where
  "tick_send C mine rnds pl [] = ([], pl)"
| "tick_send C mine rnds pl ((pr, kind, agent, drp, to) # pings) =
     (if drp then tick_send C mine rnds pl pings
      else
        (case probeplane_seal C (if rnds = [] then None else hd rnds) (pl_pp pl) pr mine PROBE_MAX of
           (None, _, pp) \<Rightarrow> ([], pl\<lparr>pl_pp := pp\<rparr>)
         | (Some out, _, pp) \<Rightarrow>
             (let (calls, pl) = tick_send C mine (tl rnds) (pl\<lparr>pl_pp := pp\<rparr>) pings
              in (Pl_send kind agent (Some to) out # calls, pl))))"

text \<open>\<open>nonces\<close> is what \<open>random_bytes\<close> returns, \<open>None\<close> where it fails.\<close>

definition tick_probes ::
    "crypto \<Rightarrow> ntop \<Rightarrow> u64 list option \<Rightarrow> byte list option list \<Rightarrow> pathplane_sinks \<Rightarrow> pathplane \<Rightarrow> u64 \<Rightarrow>
     pl_call list \<times> pathplane" where
  "tick_probes C ntop nonces rnds k pl now =
     (if pk_ident k = [] then ([], pl)
      else
        (let (due, pl) = tick_scan C ntop k pl now in
         if due = [] then ([], pl)
         else (case nonces of
                 None \<Rightarrow> ([], pl)
               | Some ns \<Rightarrow>
                   (let (pings, pl) = tick_mark pl now (zip due ns)
                    in tick_send C (pk_ident k) rnds pl pings))))"

section \<open>Probes that arrive\<close>

abbreviation upd_slot :: "pathplane \<Rightarrow> nat \<Rightarrow> path \<Rightarrow> pathplane" where
  "upd_slot pl i p \<equiv> pl\<lparr>pl_t := (pl_t pl)\<lparr>pt_p := (pt_p (pl_t pl))[i := p]\<rparr>\<rparr>"

text \<open>The path a ping belongs to, adopting its source where no path names it.\<close>

definition ping_path ::
    "ntop \<Rightarrow> pathplane \<Rightarrow> pathplane_sinks \<Rightarrow> path_kind \<Rightarrow> path_kind \<Rightarrow> path_ep \<Rightarrow> sockaddr_in6 option \<Rightarrow>
     nat option \<Rightarrow> u64 \<Rightarrow> nat option \<times> pathplane" where
  "ping_path ntop pl k kind srck from src agent now =
     (let found = recv_path pl kind from agent
      in if found = None \<and> src \<noteq> None \<and> kind \<noteq> PATH_ICE \<and> \<not> pk_is_self k from
         then (case path_table_offer ntop (pl_t pl) srck src now of (p, t) \<Rightarrow> (p, pl\<lparr>pl_t := t\<rparr>))
         else (found, pl))"

text \<open>The locked section of \<open>apply_ping\<close>: \<open>None\<close> for a nonce this end is waiting on, else the answer
  and whether the hook swallows it.\<close>

definition ping_locked ::
    "crypto \<Rightarrow> ntop \<Rightarrow> pathplane \<Rightarrow> pathplane_sinks \<Rightarrow> path_probe \<Rightarrow> path_kind \<Rightarrow> path_ep \<Rightarrow>
     sockaddr_in6 option \<Rightarrow> nat option \<Rightarrow> u64 \<Rightarrow> (path_probe \<times> bool) option \<times> pathplane" where
  "ping_locked C ntop pl k pr kind from src agent now =
     (let srck = (if kind = PATH_ICE then kind else pk_kind_of k from);
          rp = probe_zero\<lparr>pr_type := PROBE_PONG, pr_nonce := pr_nonce pr\<rparr>
      in if nonce_path pl (pr_nonce pr) \<noteq> None then (None, pl)
         else
           (case ping_path ntop pl k kind srck from src agent now of
              (None, pl) \<Rightarrow>
                (Some (rp\<lparr>pr_have_tail := True, pr_echo := from\<rparr>, blackholed pl srck src), pl)
            | (Some i, pl) \<Rightarrow>
                (let q = pt_p (pl_t pl) ! i;
                     drp = blackholed pl (pa_kind q) src;
                     from = (if path_ep_any from then pa_peer_ep q else from);
                     q = path_apply_tail C (path_saw_inbound q from) pr (pp_base (pl_pp pl))
                 in (Some (path_fill_tail q rp, drp), upd_slot pl i q))))"

definition apply_ping ::
    "crypto \<Rightarrow> ntop \<Rightarrow> byte list option \<Rightarrow> pathplane \<Rightarrow> pathplane_sinks \<Rightarrow> path_probe \<Rightarrow> path_kind \<Rightarrow> path_ep \<Rightarrow>
     sockaddr_in6 option \<Rightarrow> nat option \<Rightarrow> byte list \<Rightarrow> u64 \<Rightarrow> pl_call list \<times> pathplane" where
  "apply_ping C ntop rnd pl k pr kind from src agent mine now =
     (case ping_locked C ntop pl k pr kind from src agent now of
        (None, pl) \<Rightarrow> ([], pl)
      | (Some (rp, drp), pl) \<Rightarrow>
          if drp then ([], pl)
          else (case probeplane_seal C rnd (pl_pp pl) rp mine PROBE_MAX of
                  (None, _, pp) \<Rightarrow> ([], pl\<lparr>pl_pp := pp\<rparr>)
                | (Some out, _, pp) \<Rightarrow> ([Pl_send kind agent src out], pl\<lparr>pl_pp := pp\<rparr>)))"

definition apply_pong ::
    "crypto \<Rightarrow> pathplane \<Rightarrow> pathplane_sinks \<Rightarrow> path_probe \<Rightarrow> path_kind \<Rightarrow> path_ep \<Rightarrow> sockaddr_in6 option \<Rightarrow>
     u64 \<Rightarrow> pl_call list \<times> pathplane" where
  "apply_pong C pl k pr kind from src now =
     (case nonce_path pl (pr_nonce pr) of
        None \<Rightarrow> ([], pl)
      | Some i \<Rightarrow>
          (let p = pt_p (pl_t pl) ! i in
           if kind \<noteq> PATH_ICE \<and> src \<noteq> None \<and> \<not> path_ep_any from \<and> \<not> path_ep_eq from (pa_peer_ep p)
           then ([], pl)
           else
             (let fresh = \<not> pa_qualified p;
                  from = (if path_ep_any from then pa_peer_ep p else from);
                  p = path_apply_tail C (path_saw_inbound p from) pr (pp_base (pl_pp pl));
                  (ok, p) = path_probe_pong p (pr_nonce pr) now;
                  rtt = (if ok \<and> fresh then path_srtt_ms p else -1);
                  pl = upd_slot pl i p
              in if rtt < 0 then ([], pl)
                 else (if pk_qualified k then [Pl_qualified] else [], pl))))"

definition pathplane_apply ::
    "crypto \<Rightarrow> ntop \<Rightarrow> byte list option \<Rightarrow> pathplane \<Rightarrow> pathplane_sinks \<Rightarrow> path_probe \<Rightarrow> path_kind \<Rightarrow>
     sockaddr_in6 option \<Rightarrow> nat option \<Rightarrow> u64 \<Rightarrow> pl_call list \<times> pathplane" where
  "pathplane_apply C ntop rnd pl k pr kind src agent now =
     (let from = (case src of
                    None \<Rightarrow> ep_zero
                  | Some r \<Rightarrow> (case path_ep_from_sockaddr (AF_INET6 r) 28 of None \<Rightarrow> ep_zero | Some ep \<Rightarrow> ep))
      in if pr_type pr = PROBE_PING then apply_ping C ntop rnd pl k pr kind from src agent (pk_ident k) now
         else if pr_type pr = PROBE_PONG then apply_pong C pl k pr kind from src now
         else if pk_other k then
           ([Pl_other pr kind (kind = PATH_ICE \<or> recv_path pl kind from agent \<noteq> None)], pl)
         else ([], pl))"

text \<open>\<open>strcmp\<close> on the identity, which ends at a NUL byte.\<close>

definition c_str :: "byte list \<Rightarrow> byte list" where
  "c_str bs = takeWhile (\<lambda>b. b \<noteq> 0) bs"

definition pathplane_recv ::
    "crypto \<Rightarrow> ntop \<Rightarrow> byte list option \<Rightarrow> pathplane \<Rightarrow> pathplane_sinks \<Rightarrow> byte list \<Rightarrow> path_kind \<Rightarrow>
     sockaddr_in6 option \<Rightarrow> nat option \<Rightarrow> u64 \<Rightarrow> bool \<times> pl_call list \<times> pathplane" where
  "pathplane_recv C ntop rnd pl k data kind src agent now =
     (case probeplane_open C (pl_pp pl) data of
        (None, pp) \<Rightarrow> (False, [], pl\<lparr>pl_pp := pp\<rparr>)
      | (Some pr, pp) \<Rightarrow>
          if c_str (pr_ufrag pr) \<noteq> c_str (pk_ident k) then (False, [], pl\<lparr>pl_pp := pp\<rparr>)
          else (case probeplane_fresh pp pr of
                  (False, pp) \<Rightarrow> (False, [], pl\<lparr>pl_pp := pp\<rparr>)
                | (True, pp) \<Rightarrow>
                    (let (calls, pl) = pathplane_apply C ntop rnd (pl\<lparr>pl_pp := pp\<rparr>) k pr kind src agent now
                     in (True, (if pk_heard k then [Pl_heard now] else []) @ calls, pl))))"

definition pathplane_claims ::
    "crypto \<Rightarrow> pathplane \<Rightarrow> pathplane_sinks \<Rightarrow> byte list \<Rightarrow> int \<times> path_probe option \<times> pathplane" where
  "pathplane_claims C pl k data =
     (case probeplane_open C (pl_pp pl) data of
        (None, pp) \<Rightarrow> (0, None, pl\<lparr>pl_pp := pp\<rparr>)
      | (Some pr, pp) \<Rightarrow>
          if pr_type pr \<noteq> PROBE_PING \<or> c_str (pr_ufrag pr) = [] \<or> c_str (pk_ident k) \<noteq> c_str (pr_ufrag pr)
          then (0, Some pr, pl\<lparr>pl_pp := pp\<rparr>)
          else (case probeplane_fresh pp pr of
                  (ok, pp) \<Rightarrow> (if ok then 1 else -1, Some pr, pl\<lparr>pl_pp := pp\<rparr>)))"

section \<open>The decision\<close>

definition pin_check :: "pathplane \<Rightarrow> u64 \<Rightarrow> pathplane" where
  "pin_check pl now =
     (if \<not> pl_pinned pl then pl
      else (case find_index (\<lambda>p. pa_used p \<and> pa_id p = pl_pin_id pl) (pt_p (pl_t pl)) of
              None \<Rightarrow> pl\<lparr>pl_pinned := False\<rparr>
            | Some i \<Rightarrow>
                (let p = pt_p (pl_t pl) ! i in
                 if pa_usable p \<and> path_warmth_of p now \<le> pl_pin_warmth pl
                 then pl\<lparr>pl_t := (pl_t pl)\<lparr>pt_sel := Some i\<rparr>\<rparr>
                 else pl\<lparr>pl_pinned := False\<rparr>)))"

definition show_int :: "int \<Rightarrow> string" where
  "show_int v = (if v < 0 then CHR ''-'' # show_nat (nat (- v)) else show_nat (nat v))"

definition pathplane_desc :: "path \<Rightarrow> nat \<Rightarrow> string" where
  "pathplane_desc p n =
     take (n - 1)
       ((if pa_label p \<noteq> '''' then pa_label p else ''ICE'') @ '' bucket='' @ show_int (path_bucket p) @
        '' srtt='' @ show_int (path_srtt_ms p) @ ''/'' @ show_int (pa_peer_srtt_ms p) @
        '' loss='' @ show_int (path_loss_ppt p) @ ''/'' @ show_int (pa_peer_loss_ppt p))"

record pathplane_pick =
  pi_kind :: "path_kind option"
  pi_blackholed :: bool
  pi_qualified :: bool
  pi_srtt_ms :: int
  pi_remote :: sockaddr_in6
  pi_agent :: "nat option"
  pi_label :: string
  pi_nlive :: nat
  pi_moved :: bool

definition pick_none :: "nat \<Rightarrow> pathplane_pick" where
  "pick_none nlive =
     \<lparr>pi_kind = None, pi_blackholed = False, pi_qualified = False, pi_srtt_ms = 0,
      pi_remote = sockaddr_zero, pi_agent = None, pi_label = '''', pi_nlive = nlive, pi_moved = False\<rparr>"

definition pick_path :: "pathplane \<Rightarrow> path \<Rightarrow> pathplane_pick \<Rightarrow> pathplane_pick" where
  "pick_path pl p out =
     out\<lparr>pi_kind := Some (pa_kind p), pi_remote := pa_remote p, pi_agent := pa_agent p,
         pi_qualified := pa_qualified p, pi_srtt_ms := path_srtt_ms p,
         pi_blackholed := blackholed pl (pa_kind p) (Some (pa_remote p)),
         pi_label := take (PATH_LABEL_MAX - 1) (pa_label p)\<rparr>"

definition pathplane_decide ::
    "pathplane \<Rightarrow> pathplane_sinks \<Rightarrow> u64 \<Rightarrow> bool \<times> pathplane_pick \<times> pathplane" where
  "pathplane_decide pl k now =
     (let out = pick_none (length (live_now k));
          pl = pl\<lparr>pl_t := (pl_t pl)\<lparr>pt_p := map (\<lambda>p. p\<lparr>pa_usable := usable_now k p\<rparr>) (pt_p (pl_t pl))\<rparr>\<rparr>;
          prev = pt_sel (pl_t pl);
          pl = pin_check (pl\<lparr>pl_t := snd (path_select (pl_t pl) now)\<rparr>) now
      in case pt_sel (pl_t pl) of
           None \<Rightarrow> (False, out, pl)
         | Some sel \<Rightarrow>
             (let p = pt_p (pl_t pl) ! sel;
                  to = (if Some sel \<noteq> prev then pathplane_desc p (PATH_LABEL_MAX + 64) else '''')
              in (True, (pick_path pl p out)\<lparr>pi_moved := (to \<noteq> '''')\<rparr>, pl)))"

definition pathplane_pick_now ::
    "pathplane \<Rightarrow> pathplane_sinks \<Rightarrow> bool \<times> pathplane_pick" where
  "pathplane_pick_now pl k =
     (let out = pick_none (length (live_now k))
      in case pt_sel (pl_t pl) of
           None \<Rightarrow> (False, out)
         | Some sel \<Rightarrow>
             if \<not> pa_used (pt_p (pl_t pl) ! sel) then (False, out)
             else (True, pick_path pl (pt_p (pl_t pl) ! sel) out))"

definition pathplane_carry_id :: "pathplane \<Rightarrow> byte list option" where
  "pathplane_carry_id pl =
     (case pt_sel (pl_t pl) of
        None \<Rightarrow> None
      | Some sel \<Rightarrow> if pa_used (pt_p (pl_t pl) ! sel) then Some (pa_id (pt_p (pl_t pl) ! sel)) else None)"

definition pathplane_challenger :: "pathplane \<Rightarrow> u64 \<Rightarrow> byte list option" where
  "pathplane_challenger pl now =
     map_option (\<lambda>i. pa_id (pt_p (pl_t pl) ! i)) (path_challenger (pl_t pl) now)"

datatype pin_result = PATHPLANE_PIN_OK | PATHPLANE_PIN_UNKNOWN | PATHPLANE_PIN_UNUSABLE

definition pathplane_pin ::
    "pathplane \<Rightarrow> pathplane_sinks \<Rightarrow> byte list \<Rightarrow> u64 \<Rightarrow> pin_result \<times> pathplane" where
  "pathplane_pin pl k pid now =
     (case find_index (\<lambda>p. pa_used p \<and> pa_id p = pid) (pt_p (pl_t pl)) of
        None \<Rightarrow> (PATHPLANE_PIN_UNKNOWN, pl)
      | Some i \<Rightarrow>
          (let p = pt_p (pl_t pl) ! i;
               p = p\<lparr>pa_usable := usable_now k p\<rparr>;
               pl = upd_slot pl i p
           in if \<not> pa_usable p then (PATHPLANE_PIN_UNUSABLE, pl)
              else (PATHPLANE_PIN_OK,
                    pl\<lparr>pl_pin_id := pid, pl_pin_warmth := path_warmth_of p now, pl_pinned := True,
                       pl_t := (pl_t pl)\<lparr>pt_sel := Some i\<rparr>\<rparr>)))"

definition pathplane_tick ::
    "crypto \<Rightarrow> ntop \<Rightarrow> u64 list option \<Rightarrow> byte list option list \<Rightarrow> pathplane_sinks \<Rightarrow> pathplane \<Rightarrow> u64 \<Rightarrow>
     bool \<times> pl_call list \<times> pathplane" where
  "pathplane_tick C ntop nonces rnds k pl now =
     (let (calls, pl) = tick_probes C ntop nonces rnds k pl now;
          (ok, out, pl) = pathplane_decide pl k now
      in (pi_moved out \<and> pi_qualified out, calls, pl))"

section \<open>Carriers set aside\<close>

definition pathplane_free_agent ::
    "pathplane \<Rightarrow> pathplane_sinks \<Rightarrow> nat option \<Rightarrow> nat option \<Rightarrow> pl_call list \<times> pathplane" where
  "pathplane_free_agent pl k agent ctx =
     (if pk_agent_free k then [Pl_agent_free agent ctx] else [],
      if agent \<noteq> None then pathplane_drop_agent pl agent else pl)"

definition hold_clear :: "pathplane \<Rightarrow> pathplane_sinks \<Rightarrow> nat \<Rightarrow> pl_call list \<times> pathplane" where
  "hold_clear pl k i =
     (let h = pl_holds pl ! i
      in pathplane_free_agent (pl\<lparr>pl_holds := (pl_holds pl)[i := hold_zero]\<rparr>) k (ho_agent h) (ho_ctx h))"

definition pathplane_hold_add ::
    "pathplane \<Rightarrow> pathplane_sinks \<Rightarrow> nat option \<Rightarrow> nat option \<Rightarrow> u64 \<Rightarrow> pl_call list \<times> pathplane" where
  "pathplane_hold_add pl k agent ctx until_ms =
     (case find_index (\<lambda>h. ho_agent h = None) (pl_holds pl) of
        Some i \<Rightarrow>
          ([], pl\<lparr>pl_holds := (pl_holds pl)[i := \<lparr>ho_agent = agent, ho_ctx = ctx, ho_until_ms = until_ms\<rparr>]\<rparr>)
      | None \<Rightarrow> pathplane_free_agent pl k agent ctx)"

definition pathplane_has_hold :: "pathplane \<Rightarrow> bool" where
  "pathplane_has_hold pl \<longleftrightarrow> (\<exists>h \<in> set (pl_holds pl). ho_agent h \<noteq> None)"

definition pathplane_hold_carrying :: "pathplane \<Rightarrow> nat option" where
  "pathplane_hold_carrying pl =
     (case pt_sel (pl_t pl) of
        None \<Rightarrow> None
      | Some sel \<Rightarrow>
          (let p = pt_p (pl_t pl) ! sel in
           if pa_used p \<and> pa_agent p \<noteq> None
           then find_index (\<lambda>h. ho_agent h = pa_agent p) (pl_holds pl) else None))"

definition pathplane_holds_agents :: "pathplane \<Rightarrow> nat \<Rightarrow> nat list" where
  "pathplane_holds_agents pl maxn =
     take maxn (concat (map (\<lambda>h. case ho_agent h of None \<Rightarrow> [] | Some a \<Rightarrow> [a]) (pl_holds pl)))"

text \<open>The loops over the set, from slot \<open>i\<close> on: the slots a test names are let go.\<close>

fun holds_loop ::
    "pathplane_sinks \<Rightarrow> (nat \<Rightarrow> pathplane_hold \<Rightarrow> bool) \<Rightarrow> nat list \<Rightarrow> pathplane \<Rightarrow> pl_call list \<times> pathplane" where
  "holds_loop k go [] pl = ([], pl)"
| "holds_loop k go (i # is) pl =
     (if go i (pl_holds pl ! i) then
        (let (calls, pl) = hold_clear pl k i; (calls', pl) = holds_loop k go is pl in (calls @ calls', pl))
      else holds_loop k go is pl)"

definition pathplane_holds_free_all :: "pathplane \<Rightarrow> pathplane_sinks \<Rightarrow> pl_call list \<times> pathplane" where
  "pathplane_holds_free_all pl k =
     holds_loop k (\<lambda>i h. ho_agent h \<noteq> None) [0..<length (pl_holds pl)] pl"

definition pathplane_holds_reap ::
    "pathplane \<Rightarrow> pathplane_sinks \<Rightarrow> u64 \<Rightarrow> pl_call list \<times> pathplane" where
  "pathplane_holds_reap pl k now =
     (let carrying = pathplane_hold_carrying pl
      in holds_loop k
           (\<lambda>i h. case ho_agent h of
                    None \<Rightarrow> False
                  | Some a \<Rightarrow> Some i \<noteq> carrying \<and> \<not> (now < ho_until_ms h \<and> \<not> pk_agent_failed k a))
           [0..<length (pl_holds pl)] pl)"

definition pathplane_hold_take ::
    "pathplane \<Rightarrow> nat option \<Rightarrow> nat option \<times> nat option \<times> pathplane" where
  "pathplane_hold_take pl i =
     (case i of
        None \<Rightarrow> (None, None, pl)
      | Some i \<Rightarrow>
          if PATHPLANE_HOLD_MAX \<le> i then (None, None, pl)
          else (ho_agent (pl_holds pl ! i), ho_ctx (pl_holds pl ! i),
                pl\<lparr>pl_holds := (pl_holds pl)[i := hold_zero]\<rparr>))"

text \<open>The result, the carrier in use and its context, the calls.\<close>

definition pathplane_holds_settle ::
    "pathplane \<Rightarrow> pathplane_sinks \<Rightarrow> nat option \<Rightarrow> nat option \<Rightarrow>
     int \<times> (nat option \<times> nat option) \<times> pl_call list \<times> pathplane" where
  "pathplane_holds_settle pl k live live_ctx =
     (case pathplane_hold_carrying pl of
        Some hi \<Rightarrow>
          (let (agent, ctx, pl) = pathplane_hold_take pl (Some hi);
               (calls, pl) = pathplane_free_agent pl k live live_ctx
           in (1, (agent, ctx), calls, pl))
      | None \<Rightarrow>
          if \<not> pathplane_has_hold pl then (0, (live, live_ctx), [], pl)
          else (let (calls, pl) = pathplane_holds_free_all pl k in (-1, (live, live_ctx), calls, pl)))"

text \<open>Two slots hold the same route; which agent is then redundant.\<close>

definition same_route :: "path \<Rightarrow> path \<Rightarrow> bool" where
  "same_route p q \<longleftrightarrow>
     pa_used p \<and> pa_kind p = PATH_ICE \<and> \<not> path_ep_any (pa_peer_ep p) \<and>
     pa_used q \<and> pa_kind q = PATH_ICE \<and> path_ep_same_addr (pa_peer_ep p) (pa_peer_ep q) \<and>
     pa_have_self_ep p \<and> pa_have_self_ep q \<and> path_ep_same_addr (pa_self_ep p) (pa_self_ep q)"

definition dedup_drop :: "path_table \<Rightarrow> nat option \<Rightarrow> nat \<Rightarrow> nat \<Rightarrow> nat option" where
  "dedup_drop t live i j =
     (if pa_agent (pt_p t ! j) \<noteq> live \<and> Some j \<noteq> pt_sel t then pa_agent (pt_p t ! j)
      else if pa_agent (pt_p t ! i) \<noteq> live \<and> Some i \<noteq> pt_sel t then pa_agent (pt_p t ! i)
      else None)"

text \<open>The double loop over pairs of slots, taking the losers out of the set.\<close>

fun dedup_loop ::
    "path_table \<Rightarrow> nat option \<Rightarrow> (nat \<times> nat) list \<Rightarrow> pathplane_hold list \<Rightarrow>
     (nat option \<times> nat option) list \<times> pathplane_hold list" where
  "dedup_loop t live [] hs = ([], hs)"
| "dedup_loop t live ((i, j) # ps) hs =
     (if \<not> same_route (pt_p t ! i) (pt_p t ! j) then dedup_loop t live ps hs
      else
        (case dedup_drop t live i j of
           None \<Rightarrow> dedup_loop t live ps hs
         | Some a \<Rightarrow>
             (case find_index (\<lambda>h. ho_agent h = Some a) hs of
                None \<Rightarrow> dedup_loop t live ps hs
              | Some h \<Rightarrow>
                  (let (losers, hs') = dedup_loop t live ps (hs[h := hold_zero])
                   in ((Some a, ho_ctx (hs ! h)) # losers, hs')))))"

fun free_agents ::
    "pathplane_sinks \<Rightarrow> (nat option \<times> nat option) list \<Rightarrow> pathplane \<Rightarrow> pl_call list \<times> pathplane" where
  "free_agents k [] pl = ([], pl)"
| "free_agents k ((a, c) # ls) pl =
     (let (calls, pl) = pathplane_free_agent pl k a c; (calls', pl) = free_agents k ls pl in (calls @ calls', pl))"

definition slot_pairs :: "nat \<Rightarrow> (nat \<times> nat) list" where
  "slot_pairs n = concat (map (\<lambda>i. map (\<lambda>j. (i, j)) [i + 1..<n]) [0..<n])"

definition pathplane_route_dedup ::
    "pathplane \<Rightarrow> pathplane_sinks \<Rightarrow> nat option \<Rightarrow> pl_call list \<times> pathplane" where
  "pathplane_route_dedup pl k live =
     (let (losers, hs) = dedup_loop (pl_t pl) live (slot_pairs (length (pt_p (pl_t pl)))) (pl_holds pl)
      in free_agents k losers (pl\<lparr>pl_holds := hs\<rparr>))"

end
