(* ===== verification/Pathplane_Probe.thy ===== *)
theory Pathplane_Probe
  imports Pathplane
begin

text \<open>
  What a probe can do to the path plane. The interface \<open>slot_invariant\<close> is a property of one path
  that every operation of path.c on a path keeps; each operation of the plane then keeps it for
  all slots. On it rest the two theorems of this theory: a path is qualified only by an answer to
  its own outstanding question, and frames of this end reflected back at it qualify nothing.
\<close>

section \<open>Properties of all slots\<close>

abbreviation slots :: "pathplane \<Rightarrow> path list" where
  "slots pl \<equiv> pt_p (pl_t pl)"

locale slot_invariant =
  fixes P :: "path \<Rightarrow> bool"
  assumes zero: "P path_zero"
    and new: "P (path_new ntop kind remote None ep now)"
    and usable: "P p \<Longrightarrow> P (p\<lparr>pa_usable := b\<rparr>)"
    and noted: "P p \<Longrightarrow> P (p\<lparr>pa_warmth_noted := w\<rparr>)"
    and expire: "P p \<Longrightarrow> P (path_probe_expire p now)"
    and peer_ep: "P p \<Longrightarrow> P (path_set_peer_ep C ntop p ep key)"
    and reset: "P p \<Longrightarrow> P (path_reset now p)"
    and tail: "P p \<Longrightarrow> P (path_apply_tail C p pr key)"
    and inbound: "P p \<Longrightarrow> P (path_saw_inbound p ep)"
begin

lemma add_slots:
  assumes "list_all P (pt_p t)" "P (path_new ntop kind remote agent
    (case remote of None \<Rightarrow> ep_zero | Some r \<Rightarrow> \<lparr>pe_addr = sin6_addr r, pe_port = sin6_port r\<rparr>) now)"
  shows "list_all P (pt_p (snd (path_table_add ntop t kind remote agent now)))"
proof -
  have "list_all P ((pt_p t)[i := p])" if "P p" for i p
    using assms(1) that set_update_subset_insert [of "pt_p t" i p] by (auto simp: list_all_iff)
  then show ?thesis
    using assms by (auto simp: path_table_add_def path_ep_from_sockaddr_def split: option.splits)
qed

lemma offer_slots:
  "list_all P (pt_p t) \<Longrightarrow> list_all P (pt_p (snd (path_table_offer ntop t kind remote now)))"
  using add_slots [OF _ new] by (auto simp: path_table_offer_def split: option.splits)

lemma drop_slots: "list_all P (pt_p t) \<Longrightarrow> list_all P (pt_p (table_drop gone t))"
  using zero by (auto simp: table_drop_def list_all_iff)

lemma select_slots: "list_all P (pt_p t) \<Longrightarrow> list_all P (pt_p (snd (path_select t now)))"
  using expire
  by (auto simp: path_select_def Let_def table_expired_def slot_expire_def list_all_iff
      split: option.split)

lemma tick_slot_P: "P p \<Longrightarrow> P (tick_slot C ntop k eps base now p)"
  by (auto simp: tick_slot_def Let_def intro: usable noted expire peer_ep split: option.split prod.split)

lemma tick_scan_slots: "list_all P (slots pl) \<Longrightarrow> list_all P (slots (snd (tick_scan C ntop k pl now)))"
  by (auto simp: tick_scan_def Let_def list_all_iff intro: tick_slot_P)

lemma upd_slots:
  "list_all P ps \<Longrightarrow> (i < length ps \<Longrightarrow> P (ps ! i) \<Longrightarrow> P p) \<Longrightarrow> list_all P (ps[i := p])"
  by (cases "i < length ps") (auto simp: list_all_length nth_list_update)

lemma usable_slots:
  "list_all P ps \<Longrightarrow> list_all P (map (\<lambda>p. p\<lparr>pa_usable := f p\<rparr>) ps)"
  by (auto simp: list_all_iff intro: usable)

lemma pin_check_slots [simp]: "slots (pin_check pl now) = slots pl"
  by (simp add: pin_check_def Let_def split: option.split)

lemma decide_slots: "list_all P (slots pl) \<Longrightarrow> list_all P (slots (snd (snd (pathplane_decide pl k now))))"
  using select_slots [of "(pl_t pl)\<lparr>pt_p := map (\<lambda>p. p\<lparr>pa_usable := usable_now k p\<rparr>) (slots pl)\<rparr>" now]
    usable_slots [of "slots pl" "usable_now k"]
  by (simp add: pathplane_decide_def Let_def split: option.split)

lemma pin_slots:
  assumes "list_all P (slots pl)"
  shows "list_all P (slots (snd (pathplane_pin pl k pid now)))"
proof (cases "find_index (\<lambda>p. pa_used p \<and> pa_id p = pid) (slots pl)")
  case (Some i)
  then have "P (slots pl ! i)"
    using find_index_SomeD [OF Some] assms by (simp add: list_all_length)
  then show ?thesis
    using assms Some upd_slots usable by (simp add: pathplane_pin_def Let_def)
qed (use assms in \<open>simp add: pathplane_pin_def del: find_index_None\<close>)

lemma ping_path_slots:
  assumes "list_all P (slots pl)"
  shows "list_all P (slots (snd (ping_path ntop pl k kind srck from src agent now)))"
  using assms offer_slots [of "pl_t pl" ntop srck src now]
  by (simp add: ping_path_def Let_def split_beta)

lemma ping_locked_slots:
  assumes "list_all P (slots pl)"
  shows "list_all P (slots (snd (ping_locked C ntop pl k pr kind from src agent now)))"
proof -
  define srck where "srck = (if kind = PATH_ICE then kind else pk_kind_of k from)"
  obtain p pl' where r: "ping_path ntop pl k kind srck from src agent now = (p, pl')" by fastforce
  then have "list_all P (slots pl')"
    using ping_path_slots [OF assms, of ntop k kind srck "from" src agent now] by simp
  then show ?thesis
    using assms r by (cases p) (auto simp: ping_locked_def Let_def srck_def [symmetric]
        intro!: upd_slots tail inbound)
qed

lemma apply_ping_slots:
  "list_all P (slots pl) \<Longrightarrow>
   list_all P (slots (snd (apply_ping C ntop rnd pl k pr kind from src agent mine now)))"
  using ping_locked_slots [of pl C ntop k pr kind "from" src agent now]
  by (auto simp: apply_ping_def split: option.split prod.split)

end

lemma tick_send_slots: "slots (snd (tick_send C mine rnds pl pings)) = slots pl"
proof (induction pings arbitrary: rnds pl)
  case (Cons p pings)
  then show ?case by (cases p) (simp add: Let_def split_beta split: option.split)
qed simp

section \<open>The owner's operations\<close>

text \<open>What the owner of the plane does besides the probe round and what arrives.\<close>

datatype pl_op =
    Op_decide pathplane_sinks u64
  | Op_pin pathplane_sinks "byte list" u64
  | Op_add_ice "nat option" u64
  | Op_add_ep pathplane_sinks path_kind sockaddr_in6 u64
  | Op_offer pathplane_sinks sockaddr_in6 u64
  | Op_drop_ice
  | Op_drop_agent "nat option"
  | Op_reset_stats u64
  | Op_clear
  | Op_blackhole "path_kind option" "sockaddr_in6 option"
  | Op_mute bool
  | Op_lift

fun pl_op_step :: "ntop \<Rightarrow> pathplane \<Rightarrow> pl_op \<Rightarrow> pathplane" where
  "pl_op_step ntop pl (Op_decide k now) = snd (snd (pathplane_decide pl k now))"
| "pl_op_step ntop pl (Op_pin k pid now) = snd (pathplane_pin pl k pid now)"
| "pl_op_step ntop pl (Op_add_ice agent now) = pathplane_add_ice ntop pl agent now"
| "pl_op_step ntop pl (Op_add_ep k kind remote now) = snd (pathplane_add_ep ntop pl k kind remote now)"
| "pl_op_step ntop pl (Op_offer k remote now) = pathplane_offer_path ntop pl k remote now"
| "pl_op_step ntop pl Op_drop_ice = pathplane_drop_ice pl"
| "pl_op_step ntop pl (Op_drop_agent agent) = pathplane_drop_agent pl agent"
| "pl_op_step ntop pl (Op_reset_stats now) = pathplane_reset_stats pl now"
| "pl_op_step ntop pl Op_clear = pathplane_clear pl"
| "pl_op_step ntop pl (Op_blackhole kind to) = pathplane_blackhole_arm pl kind to"
| "pl_op_step ntop pl (Op_mute b) = pathplane_blackhole_mute pl b"
| "pl_op_step ntop pl Op_lift = pathplane_blackhole_lift pl"

context slot_invariant
begin

lemma op_slots:
  assumes all: "list_all P (slots pl)"
    and ice: "\<And>agent now. e = Op_add_ice agent now \<Longrightarrow> P (path_new ntop PATH_ICE None agent ep_zero now)"
  shows "list_all P (slots (pl_op_step ntop pl e))"
proof (cases e)
  case (Op_add_ice agent now)
  then show ?thesis
    using add_slots [OF all, of ntop PATH_ICE None agent now] ice by (simp add: pathplane_add_ice_def)
next
  case (Op_add_ep k kind remote now)
  then show ?thesis
    using add_slots [OF all new, of ntop kind "Some remote" now] all
    by (simp add: pathplane_add_ep_def path_ep_from_sockaddr_def split_beta)
next
  case (Op_offer k remote now)
  then show ?thesis
    using offer_slots [OF all] all
    by (simp add: pathplane_offer_path_def path_ep_from_sockaddr_def)
next
  case (Op_reset_stats now)
  then show ?thesis
    using all reset
    by (auto simp: pathplane_reset_stats_def path_table_reset_stats_def list_all_iff)
next
  case Op_clear
  then show ?thesis
    using zero by (simp add: pathplane_clear_def path_table_clear_def path_table_init_def list_all_iff)
qed (use all in \<open>simp_all add: decide_slots pin_slots drop_slots pathplane_drop_ice_def
      path_table_drop_kind_def pathplane_drop_agent_def path_table_drop_agent_def
      pathplane_blackhole_arm_def pathplane_blackhole_mute_def pathplane_blackhole_lift_def\<close>)

end

locale slot_invariant_any_agent = slot_invariant +
  assumes new_any: "P (path_new ntop kind remote agent ep now)"
begin

lemma op_slots_any: "list_all P (slots pl) \<Longrightarrow> list_all P (slots (pl_op_step ntop pl e))"
  by (rule op_slots) (auto intro: new_any)

end

text \<open>Properties that the probe in flight and its answer keep as well hold for the whole plane.\<close>

locale slot_invariant_probe = slot_invariant +
  assumes sent: "P p \<Longrightarrow> P (path_probe_sent p nonce now)"
    and pong: "P p \<Longrightarrow> P (snd (path_probe_pong p nonce now))"
begin

lemma tick_mark_slots: "list_all P (slots pl) \<Longrightarrow> list_all P (slots (snd (tick_mark pl now due)))"
proof (induction pl now due rule: tick_mark.induct)
  case (2 pl now i n due)
  have "list_all P ((slots pl)[i := path_probe_sent (slots pl ! i) n now])"
    using "2.prems" sent by (intro upd_slots)
  then show ?case using 2 by (simp add: Let_def split_beta)
qed simp

lemma tick_slots:
  assumes "list_all P (slots pl)"
  shows "list_all P (slots (snd (snd (pathplane_tick C ntop nonces rnds k pl now))))"
proof -
  have "list_all P (slots (snd (tick_probes C ntop nonces rnds k pl now)))"
    using assms tick_mark_slots [OF tick_scan_slots [OF assms]] tick_scan_slots [OF assms]
    by (simp add: tick_probes_def Let_def split_beta tick_send_slots split: option.split)
  then show ?thesis by (simp add: pathplane_tick_def Let_def split_beta decide_slots)
qed

lemma apply_pong_slots:
  "list_all P (slots pl) \<Longrightarrow> list_all P (slots (snd (apply_pong C pl k pr kind from src now)))"
  by (simp add: apply_pong_def Let_def split_beta upd_slots tail inbound pong split: option.split)

lemma recv_slots:
  assumes "list_all P (slots pl)"
  shows "list_all P (slots (snd (snd (pathplane_recv C ntop rnd pl k data kind src agent now))))"
proof -
  have "list_all P (slots (snd (pathplane_apply C ntop rnd (pl\<lparr>pl_pp := pp\<rparr>) k pr kind src agent now)))" for pr pp
    using assms apply_ping_slots [of "pl\<lparr>pl_pp := pp\<rparr>" C ntop rnd k pr kind _ src agent "pk_ident k" now]
      apply_pong_slots [of "pl\<lparr>pl_pp := pp\<rparr>" C k pr kind _ src now]
    by (simp add: pathplane_apply_def Let_def)
  then show ?thesis
    using assms by (auto simp: pathplane_recv_def split_beta split: option.split prod.split bool.split)
qed

end

section \<open>Reflected frames\<close>

text \<open>A path nobody has answered on, whose question no answer of this end's own matches. \<open>U\<close> are
  the nonces drawn so far, \<open>R\<close> the kinds and nonces of the probes this end has sent.\<close>

definition unanswered :: "u64 set \<Rightarrow> (int \<times> u64) set \<Rightarrow> path \<Rightarrow> bool" where
  "unanswered U R p \<longleftrightarrow> \<not> pa_qualified p \<and>
     (pa_used p \<longrightarrow> pa_outstanding p \<longrightarrow> pa_nonce p \<in> U \<and> (PROBE_PONG, pa_nonce p) \<notin> R)"

lemma path_quiet_fields [simp]:
  "pa_qualified (path_set_peer_ep C ntop p ep key) = pa_qualified p"
  "pa_used (path_set_peer_ep C ntop p ep key) = pa_used p"
  "pa_outstanding (path_set_peer_ep C ntop p ep key) = pa_outstanding p"
  "pa_nonce (path_set_peer_ep C ntop p ep key) = pa_nonce p"
  "pa_qualified (path_apply_tail C p pr key) = pa_qualified p"
  "pa_used (path_apply_tail C p pr key) = pa_used p"
  "pa_outstanding (path_apply_tail C p pr key) = pa_outstanding p"
  "pa_nonce (path_apply_tail C p pr key) = pa_nonce p"
  "pa_peer_ep (path_apply_tail C p pr key) = pa_peer_ep p"
  "pa_agent (path_apply_tail C p pr key) = pa_agent p"
  "pa_kind (path_apply_tail C p pr key) = pa_kind p"
  "pa_qualified (path_saw_inbound p ep) = pa_qualified p"
  "pa_used (path_saw_inbound p ep) = pa_used p"
  "pa_outstanding (path_saw_inbound p ep) = pa_outstanding p"
  "pa_nonce (path_saw_inbound p ep) = pa_nonce p"
  "pa_peer_ep (path_saw_inbound p ep) = pa_peer_ep p"
  "pa_agent (path_saw_inbound p ep) = pa_agent p"
  "pa_kind (path_saw_inbound p ep) = pa_kind p"
  "pa_agent (path_set_peer_ep C ntop p ep key) = pa_agent p"
  "pa_kind (path_set_peer_ep C ntop p ep key) = pa_kind p"
  by (simp_all add: path_set_peer_ep_def path_id_refresh_def path_apply_tail_def
      path_set_self_ep_def path_peer_view_def Let_def path_saw_inbound_def)

lemma expire_fields [simp]:
  "pa_qualified (path_probe_expire p now) = pa_qualified p"
  "pa_nonce (path_probe_expire p now) = pa_nonce p"
  by (auto simp: path_probe_expire_def loss_record_def Let_def)

lemma expire_outstanding: "pa_outstanding (path_probe_expire p now) \<Longrightarrow> pa_outstanding p"
  by (auto simp: path_probe_expire_def split: if_splits)

lemma path_new_quiet [simp]:
  "\<not> pa_qualified (path_new ntop kind remote agent ep now)"
  "\<not> pa_outstanding (path_new ntop kind remote agent ep now)"
  by (simp_all add: path_new_def Let_def path_zero_def split: option.split)

lemma unanswered_expire: "unanswered U R p \<Longrightarrow> unanswered U R (path_probe_expire p now)"
  using expire_outstanding [of p now] by (simp add: unanswered_def)

lemma unanswered_reset: "unanswered U R p \<Longrightarrow> unanswered U R (path_reset now p)"
  by (simp add: unanswered_def path_reset_def)

lemma unanswered_zero: "unanswered U R path_zero"
  by (simp add: unanswered_def path_zero_def)

interpretation unanswered: slot_invariant_any_agent "unanswered U R" for U R
  by unfold_locales
    (simp_all add: unanswered_zero unanswered_expire unanswered_reset, simp_all add: unanswered_def)

text \<open>A plane to which only its own probes come back: the nonces it has drawn, and the kinds and
  nonces of what it has sent. An answer to a ping carries the ping's nonce.\<close>

record reflect =
  re_pl :: pathplane
  re_used :: "u64 set"
  re_sent :: "(int \<times> u64) set"

fun is_send :: "pl_call \<Rightarrow> bool" where
  "is_send (Pl_send _ _ _ _) = True"
| "is_send _ = False"

inductive reflect_step :: "crypto \<Rightarrow> ntop \<Rightarrow> reflect \<Rightarrow> reflect \<Rightarrow> bool" for C ntop where
  tick: "set ns \<inter> re_used s = {} \<Longrightarrow> tick_probes C ntop (Some ns) rnds k (re_pl s) now = (calls, pl') \<Longrightarrow>
    reflect_step C ntop s
      \<lparr>re_pl = pl', re_used = re_used s \<union> set ns, re_sent = re_sent s \<union> Pair PROBE_PING ` set ns\<rparr>"
| comes_back: "(pr_type pr, pr_nonce pr) \<in> re_sent s \<Longrightarrow>
    pathplane_apply C ntop rnd (re_pl s) k pr kind src agent now = (calls, pl') \<Longrightarrow>
    reflect_step C ntop s
      \<lparr>re_pl = pl', re_used = re_used s,
       re_sent = re_sent s \<union> (if list_ex is_send calls then {(PROBE_PONG, pr_nonce pr)} else {})\<rparr>"
| own: "reflect_step C ntop s (s\<lparr>re_pl := pl_op_step ntop (re_pl s) e\<rparr>)"

definition reflect_init :: "reflect \<Rightarrow> bool" where
  "reflect_init s \<longleftrightarrow> (\<exists>pp. re_pl s = pathplane_init pp) \<and> re_used s = {} \<and> re_sent s = {}"

definition reflect_inv :: "reflect \<Rightarrow> bool" where
  "reflect_inv s \<longleftrightarrow> re_sent s \<subseteq> {PROBE_PING, PROBE_PONG} \<times> re_used s \<and>
     list_all (unanswered (re_used s) (re_sent s)) (slots (re_pl s))"

lemma unanswered_more: "unanswered U R p \<Longrightarrow> U \<subseteq> U' \<Longrightarrow> unanswered U' R p"
  by (auto simp: unanswered_def)

lemma tick_mark_unanswered:
  "list_all (unanswered U R) (slots pl) \<Longrightarrow> \<forall>(i, n) \<in> set due. n \<in> U \<and> (PROBE_PONG, n) \<notin> R \<Longrightarrow>
   list_all (unanswered U R) (slots (snd (tick_mark pl now due)))"
proof (induction pl now due rule: tick_mark.induct)
  case (2 pl now i n due)
  let ?p = "slots pl ! i"
  show ?case
  proof (cases "\<not> pa_usable ?p \<or> \<not> path_probe_due ?p now")
    case True
    then show ?thesis using 2 by simp
  next
    case False
    have "list_all (unanswered U R) ((slots pl)[i := path_probe_sent ?p n now])"
    proof (rule unanswered.upd_slots)
      show "unanswered U R (path_probe_sent ?p n now)" if "unanswered U R ?p"
        using that "2.prems"(2) by (simp add: unanswered_def path_probe_sent_def)
    qed (rule "2.prems"(1))
    then show ?thesis using 2(2) False "2.prems"(2) by (simp add: Let_def split_beta)
  qed
qed simp

lemma tick_probes_unanswered:
  assumes "list_all (unanswered U R) (slots pl)" "\<forall>n \<in> set ns. n \<in> U \<and> (PROBE_PONG, n) \<notin> R"
  shows "list_all (unanswered U R) (slots (snd (tick_probes C ntop (Some ns) rnds k pl now)))"
proof -
  have "\<forall>(i, n) \<in> set (zip (fst (tick_scan C ntop k pl now)) ns). n \<in> U \<and> (PROBE_PONG, n) \<notin> R"
    using assms(2) by (auto dest: set_zip_rightD)
  then show ?thesis
    using assms(1) unanswered.tick_scan_slots [OF assms(1), of C ntop k now]
      tick_mark_unanswered [of U R "snd (tick_scan C ntop k pl now)" _ now]
    by (simp add: tick_probes_def Let_def split_beta tick_send_slots)
qed

lemma nonce_path_None:
  "nonce_path pl n = None \<longleftrightarrow> (\<forall>p \<in> set (slots pl). \<not> (pa_used p \<and> pa_outstanding p \<and> pa_nonce p = n))"
  by (simp add: nonce_path_def)

text \<open>A ping that carries an outstanding nonce is dropped; answering any other is harmless.\<close>

lemma apply_ping_reflect:
  assumes "list_all (unanswered U R) (slots pl)"
    and "apply_ping C ntop rnd pl k pr kind from src agent mine now = (calls, pl')"
  shows "list_all (unanswered U (R \<union> (if list_ex is_send calls then {(PROBE_PONG, pr_nonce pr)} else {})))
    (slots pl')"
proof (cases "nonce_path pl (pr_nonce pr)")
  case None
  let ?R = "insert (PROBE_PONG, pr_nonce pr) R"
  have "list_all (unanswered U ?R) (slots pl)"
    using assms(1) None by (auto simp: nonce_path_None list_all_iff unanswered_def)
  then have "list_all (unanswered U ?R) (slots pl')" "list_all (unanswered U R) (slots pl')"
    using unanswered.apply_ping_slots [of U _ pl C ntop rnd k pr kind "from" src agent mine now]
      assms by auto
  then show ?thesis by simp
next
  case (Some i)
  then show ?thesis using assms by (auto simp: apply_ping_def ping_locked_def Let_def)
qed

lemma apply_reflect:
  assumes "list_all (unanswered U R) (slots pl)" "(pr_type pr, pr_nonce pr) \<in> R"
    and "pathplane_apply C ntop rnd pl k pr kind src agent now = (calls, pl')"
  shows "list_all (unanswered U (R \<union> (if list_ex is_send calls then {(PROBE_PONG, pr_nonce pr)} else {})))
    (slots pl')"
proof -
  consider "pr_type pr = PROBE_PING" | "pr_type pr = PROBE_PONG"
    | "pr_type pr \<noteq> PROBE_PING" "pr_type pr \<noteq> PROBE_PONG" by blast
  then show ?thesis
  proof cases
    case 1
    then show ?thesis using assms apply_ping_reflect by (simp add: pathplane_apply_def Let_def)
  next
    case 2
    then have "nonce_path pl (pr_nonce pr) = None"
      using assms(1,2) by (auto simp: nonce_path_None list_all_iff unanswered_def)
    then show ?thesis
      using 2 assms by (simp add: pathplane_apply_def Let_def apply_pong_def PROBE_PING_def PROBE_PONG_def)
  next
    case 3
    then show ?thesis using assms by (auto simp: pathplane_apply_def Let_def split: if_splits)
  qed
qed

lemma reflect_inv_step: "reflect_step C ntop s t \<Longrightarrow> reflect_inv s \<Longrightarrow> reflect_inv t"
proof (induction rule: reflect_step.induct)
  case (tick ns s rnds k now calls pl')
  let ?U = "re_used s \<union> set ns" and ?R = "re_sent s \<union> Pair PROBE_PING ` set ns"
  have "list_all (unanswered ?U ?R) (slots (re_pl s))"
    using tick.prems unfolding reflect_inv_def list_all_iff
    by (auto simp: unanswered_def PROBE_PING_def PROBE_PONG_def)
  moreover have "\<forall>n \<in> set ns. n \<in> ?U \<and> (PROBE_PONG, n) \<notin> ?R"
    using tick by (auto simp: reflect_inv_def PROBE_PING_def PROBE_PONG_def)
  ultimately have "list_all (unanswered ?U ?R) (slots pl')"
    using tick_probes_unanswered [of ?U ?R "re_pl s" ns C ntop rnds k now] tick.hyps(2) by simp
  then show ?case using tick.prems by (auto simp: reflect_inv_def)
next
  case (comes_back pr s rnd k kind src agent now calls pl')
  then have inv: "list_all (unanswered (re_used s) (re_sent s)) (slots (re_pl s))"
    by (simp add: reflect_inv_def)
  show ?case
    using apply_reflect [OF inv comes_back.hyps] comes_back.prems comes_back.hyps(1)
    by (auto simp: reflect_inv_def)
next
  case (own s e)
  then show ?case by (simp add: reflect_inv_def unanswered.op_slots_any)
qed

interpretation reflection: invariant_system reflect_init "reflect_step C ntop" reflect_inv for C ntop
proof
  show "reflect_inv s" if "reflect_init s" for s
    using that unanswered_zero
    by (auto simp: reflect_init_def reflect_inv_def pathplane_init_def path_table_init_def list_all_iff)
qed (rule reflect_inv_step)

text \<open>C11. Frames reflected at their sender prove nothing: whatever probes of its own come back to an end,
  in any order, from any source and any number of times, between its probe rounds (each with
  nonces never drawn before) and whatever else its owner does, no path is ever qualified. A path
  nobody has answered on cannot be made to look answered by bouncing this end's own pings and
  pongs.\<close>

theorem reflection_qualifies_nothing:
  assumes "reachable reflect_init (reflect_step C ntop) s"
  shows "\<not> pathplane_any_qualified (re_pl s)"
proof -
  have "reflect_inv s" using assms by (rule reflection.reachable_inv)
  then show ?thesis
    by (auto simp: reflect_inv_def pathplane_any_qualified_def path_table_any_qualified_def
        list_all_iff unanswered_def)
qed

theorem reflection_qualifies_nothing_witness:
  "\<exists>s. reachable reflect_init (reflect_step plain_crypto (\<lambda>_ _. None)) s \<and>
    (PROBE_PING, 5) \<in> re_sent s \<and> \<not> pathplane_any_qualified (re_pl s)"
proof -
  let ?step = "reflect_step plain_crypto (\<lambda>_ _. None)"
  let ?k = "\<lparr>pk_ident = [97], pk_live = None, pk_ice_ep = None, pk_is_self = \<lambda>_. False,
    pk_kind_of = \<lambda>_. PATH_ROUTED, pk_heard = False, pk_qualified = False, pk_agent_free = False,
    pk_agent_failed = \<lambda>_. False, pk_other = False\<rparr>"
  let ?pl = "pathplane_init (probeplane_init 1 (replicate 32 7) 0)"
  let ?s0 = "\<lparr>re_pl = ?pl, re_used = {}, re_sent = {}\<rparr>"
  let ?s1 = "?s0\<lparr>re_pl := pl_op_step (\<lambda>_ _. None) (re_pl ?s0) (Op_add_ep ?k PATH_ROUTED
      \<lparr>sin6_addr = replicate 16 1, sin6_port = 9, sin6_scope_id = 0\<rparr> 0)\<rparr>"
  obtain calls pl2 where t: "tick_probes plain_crypto (\<lambda>_ _. None) (Some [5]) [] ?k (re_pl ?s1) 1 = (calls, pl2)"
    by fastforce
  let ?s2 = "\<lparr>re_pl = pl2, re_used = re_used ?s1 \<union> set [5],
     re_sent = re_sent ?s1 \<union> Pair PROBE_PING ` set [5]\<rparr>"
  have "reflect_init ?s0" by (auto simp: reflect_init_def)
  moreover have "?step ?s0 ?s1" by (rule reflect_step.own)
  moreover have "?step ?s1 ?s2" using t by (intro reflect_step.tick) simp_all
  ultimately have r: "reachable reflect_init ?step ?s2" by (blast intro: start next_state)
  then show ?thesis using reflection_qualifies_nothing [OF r] by (intro exI [of _ ?s2]) simp
qed

section \<open>What qualifies a path\<close>

lemma nth_update_back: "P (xs[j := q] ! i) \<Longrightarrow> (P q \<Longrightarrow> P (xs ! j)) \<Longrightarrow> P (xs ! i)"
  by (cases "j < length xs"; cases "i = j") (auto simp: list_update_beyond)

lemma add_unqualified:
  assumes "pa_qualified (pt_p (snd (path_table_add ntop t kind remote agent now)) ! i)"
  shows "pa_qualified (pt_p t ! i)"
proof -
  let ?q = "path_new ntop kind remote agent
    (case remote of None \<Rightarrow> ep_zero | Some r \<Rightarrow> \<lparr>pe_addr = sin6_addr r, pe_port = sin6_port r\<rparr>) now"
  have "pt_p (snd (path_table_add ntop t kind remote agent now)) \<in> insert (pt_p t) (range (\<lambda>j. (pt_p t)[j := ?q]))"
    by (simp add: path_table_add_def path_ep_from_sockaddr_def split: option.split)
  then show ?thesis
    using assms nth_update_back [of pa_qualified "pt_p t" _ ?q i] by auto
qed

lemma offer_unqualified:
  assumes "pa_qualified (pt_p (snd (path_table_offer ntop t kind remote now)) ! i)"
  shows "pa_qualified (pt_p t ! i)"
proof (cases remote)
  case (Some r)
  then show ?thesis
    using assms add_unqualified [of ntop t kind "Some r" None now i]
    by (cases "path_table_find_ep t \<lparr>pe_addr = sin6_addr r, pe_port = sin6_port r\<rparr>")
      (auto simp: path_table_offer_def path_ep_from_sockaddr_def split: if_splits)
qed (use assms in \<open>simp add: path_table_offer_def\<close>)

lemma apply_ping_unqualified:
  assumes "pa_qualified (slots (snd (apply_ping C ntop rnd pl k pr kind from src agent mine now)) ! i)"
  shows "pa_qualified (slots pl ! i)"
proof -
  define srck where "srck = (if kind = PATH_ICE then kind else pk_kind_of k from)"
  obtain p pl' where r: "ping_path ntop pl k kind srck from src agent now = (p, pl')" by fastforce
  then have p: "pa_qualified (slots pl' ! i) \<Longrightarrow> pa_qualified (slots pl ! i)"
    using offer_unqualified [of ntop "pl_t pl" srck src now i]
    by (auto simp: ping_path_def Let_def split_beta split: if_splits)
  have q: "pa_qualified (slots (snd (ping_locked C ntop pl k pr kind from src agent now)) ! i)"
    using assms by (auto simp: apply_ping_def split: option.splits prod.splits if_splits)
  show ?thesis
  proof (cases "nonce_path pl (pr_nonce pr) = None")
    case True
    then show ?thesis
      using r p q by (cases p) (auto simp: ping_locked_def Let_def srck_def [symmetric]
          dest!: nth_update_back [where P = pa_qualified])
  qed (use q in \<open>simp add: ping_locked_def Let_def\<close>)
qed

lemma apply_pong_qualifies:
  assumes "pa_qualified (slots (snd (apply_pong C pl k pr kind from src now)) ! i)"
    and "\<not> pa_qualified (slots pl ! i)"
  shows "pa_used (slots pl ! i) \<and> pa_outstanding (slots pl ! i) \<and> pa_nonce (slots pl ! i) = pr_nonce pr \<and>
    (kind = PATH_ICE \<or> src = None \<or> path_ep_any from \<or> path_ep_eq from (pa_peer_ep (slots pl ! i)))"
proof (cases "nonce_path pl (pr_nonce pr)")
  case None
  then show ?thesis using assms by (simp add: apply_pong_def)
next
  case (Some j)
  note j = find_index_SomeD [OF Some [unfolded nonce_path_def]]
  show ?thesis
  proof (cases "j = i")
    case True
    then show ?thesis
      using assms Some j by (auto simp: apply_pong_def Let_def split: if_splits)
  next
    case False
    then show ?thesis
      using assms Some by (auto simp: apply_pong_def Let_def split_beta split: if_splits)
  qed
qed


definition ex_plane_sinks :: pathplane_sinks where
  "ex_plane_sinks = \<lparr>pk_ident = [97], pk_live = None, pk_ice_ep = None, pk_is_self = \<lambda>_. False,
    pk_kind_of = \<lambda>_. PATH_ROUTED, pk_heard = False, pk_qualified = True, pk_agent_free = True,
    pk_agent_failed = \<lambda>_. False, pk_other = False\<rparr>"

definition ex_remote :: sockaddr_in6 where
  "ex_remote = \<lparr>sin6_addr = 0x20 # replicate 15 1, sin6_port = 9, sin6_scope_id = 0\<rparr>"

definition ex_asked :: pathplane where
  "ex_asked = snd (tick_mark (snd (pathplane_add_ep (\<lambda>_ _. None)
     (pathplane_init (probeplane_init 1 (replicate 32 7) 0)) ex_plane_sinks PATH_ROUTED ex_remote 0)) 1 [(0, 5)])"

definition ex_pong :: "byte list" where
  "ex_pong = the (fst (probeplane_seal plain_crypto (Some (replicate 24 3))
     (probeplane_init 1 (replicate 32 7) 0)
     (probe_zero\<lparr>pr_type := PROBE_PONG, pr_nonce := 5\<rparr>) [97] PROBE_MAX))"


end
