(* ===== verification/Pathplane_Carry.thy ===== *)
theory Pathplane_Carry
  imports Pathplane_Probe
begin

text \<open>
  The carriers of a connection: the agent in use (\<open>peering_ice_adopt\<close> and \<open>peering_ice_stop\<close> of
  peering.c) and the ones the plane has set aside. The paths of the table borrow them. Over any
  sequence of operations every agent is in use, set aside, or has been given back exactly once,
  and no path names one that has been given back.
\<close>

section \<open>Agents set aside\<close>

definition held :: "pathplane_hold list \<Rightarrow> nat list" where
  "held hs = concat (map (\<lambda>h. case ho_agent h of None \<Rightarrow> [] | Some a \<Rightarrow> [a]) hs)"

fun freed :: "pl_call list \<Rightarrow> nat list" where
  "freed [] = []"
| "freed (Pl_agent_free (Some a) _ # cs) = a # freed cs"
| "freed (_ # cs) = freed cs"

lemma freed_append [simp]: "freed (xs @ ys) = freed xs @ freed ys"
  by (induction xs rule: freed.induct) auto

lemma held_simps [simp]:
  "held [] = []" "held (h # hs) = (case ho_agent h of None \<Rightarrow> [] | Some a \<Rightarrow> [a]) @ held hs"
  by (simp_all add: held_def)

lemma held_iff: "a \<in> set (held hs) \<longleftrightarrow> (\<exists>h \<in> set hs. ho_agent h = Some a)"
  by (induction hs) (auto split: option.splits)

lemma hold_zero_agent [simp]: "ho_agent hold_zero = None"
  by (simp add: hold_zero_def)

lemma held_clear:
  assumes "distinct (held hs)" "i < length hs" "ho_agent (hs ! i) = Some a"
  shows "set (held (hs[i := hold_zero])) = set (held hs) - {a} \<and> distinct (held (hs[i := hold_zero]))"
  using assms
proof (induction hs arbitrary: i)
  case (Cons h hs)
  show ?case
  proof (cases i)
    case 0
    then show ?thesis using Cons.prems by auto
  next
    case (Suc j)
    then have "a \<in> set (held hs)" using Cons.prems by (auto simp: held_iff)
    then show ?thesis using Cons Suc by (auto split: option.splits)
  qed
qed simp

lemma held_add:
  assumes "distinct (held hs)" "i < length hs" "ho_agent (hs ! i) = None" "ho_agent h = Some a"
    and "a \<notin> set (held hs)"
  shows "set (held (hs[i := h])) = insert a (set (held hs)) \<and> distinct (held (hs[i := h]))"
  using assms
proof (induction hs arbitrary: i)
  case (Cons h hs)
  then show ?case by (cases i) (auto split: option.splits)
qed simp

section \<open>Paths that borrow an agent\<close>

definition borrows :: "nat set \<Rightarrow> path \<Rightarrow> bool" where
  "borrows S p \<longleftrightarrow> (pa_used p \<longrightarrow> (\<forall>a. pa_agent p = Some a \<longrightarrow> a \<in> S))"

lemma pong_agent [simp]:
  "pa_agent (snd (path_probe_pong p nonce now)) = pa_agent p"
  "pa_used (snd (path_probe_pong p nonce now)) = pa_used p"
  by (simp_all add: path_probe_pong_def Let_def rtt_record_def loss_record_def)

interpretation borrows: slot_invariant_probe "borrows S" for S
  by unfold_locales (simp_all add: borrows_def path_probe_sent_def)

lemma borrows_more: "list_all (borrows S) ps \<Longrightarrow> S \<subseteq> T \<Longrightarrow> list_all (borrows T) ps"
  by (auto simp: list_all_iff borrows_def)

lemma drop_agent_borrows:
  "list_all (borrows S) (slots pl) \<Longrightarrow> list_all (borrows (S - {a})) (slots (pathplane_drop_agent pl (Some a)))"
  by (auto simp: pathplane_drop_agent_def path_table_drop_agent_def table_drop_def list_all_iff borrows_def)

text \<open>What letting carriers go does: each was set aside and is given back once, the others stay, and
  no path names one of them any more.\<close>

definition lets_go :: "pathplane \<Rightarrow> pl_call list \<Rightarrow> pathplane \<Rightarrow> bool" where
  "lets_go pl calls pl' \<longleftrightarrow>
     distinct (freed calls) \<and> set (freed calls) \<subseteq> set (held (pl_holds pl)) \<and>
     set (held (pl_holds pl')) = set (held (pl_holds pl)) - set (freed calls) \<and>
     distinct (held (pl_holds pl')) \<and> length (pl_holds pl') = length (pl_holds pl) \<and>
     (\<forall>S. list_all (borrows S) (slots pl) \<longrightarrow> list_all (borrows (S - set (freed calls))) (slots pl'))"

lemma lets_go_nothing: "distinct (held (pl_holds pl)) \<Longrightarrow> lets_go pl [] pl"
  by (simp add: lets_go_def)

lemma lets_go_trans: "lets_go p c q \<Longrightarrow> lets_go q d r \<Longrightarrow> lets_go p (c @ d) r"
  unfolding lets_go_def by (auto simp: Diff_eq Int_assoc)

lemma hold_clear_lets_go:
  assumes "distinct (held (pl_holds pl))" "i < length (pl_holds pl)" "ho_agent (pl_holds pl ! i) \<noteq> None"
    and "pk_agent_free k"
  shows "lets_go pl (fst (hold_clear pl k i)) (snd (hold_clear pl k i))"
proof -
  obtain a where a: "ho_agent (pl_holds pl ! i) = Some a" using assms(3) by auto
  have "slots (pathplane_drop_agent (pl\<lparr>pl_holds := hs\<rparr>) (Some a)) = slots (pathplane_drop_agent pl (Some a))"
    "pl_holds (pathplane_drop_agent (pl\<lparr>pl_holds := hs\<rparr>) (Some a)) = hs" for hs
    by (simp_all add: pathplane_drop_agent_def)
  then show ?thesis
    using held_clear [OF assms(1,2) a] a assms(2,4) drop_agent_borrows [of _ pl a]
    by (auto simp: lets_go_def hold_clear_def Let_def pathplane_free_agent_def held_iff)
qed

lemma holds_loop_lets_go:
  assumes "distinct (held (pl_holds pl))" "\<forall>i \<in> set is. i < length (pl_holds pl)" "distinct is"
    and "pk_agent_free k" "\<And>i h. go i h \<Longrightarrow> ho_agent h \<noteq> None"
  shows "lets_go pl (fst (holds_loop k go is pl)) (snd (holds_loop k go is pl))"
  using assms
proof (induction "is" arbitrary: pl)
  case (Cons i "is")
  show ?case
  proof (cases "go i (pl_holds pl ! i)")
    case True
    have c: "lets_go pl (fst (hold_clear pl k i)) (snd (hold_clear pl k i))"
      using Cons.prems True by (intro hold_clear_lets_go) auto
    then have "lets_go (snd (hold_clear pl k i)) (fst (holds_loop k go is (snd (hold_clear pl k i))))
        (snd (holds_loop k go is (snd (hold_clear pl k i))))"
      using Cons.prems by (intro Cons.IH) (auto simp: lets_go_def)
    then show ?thesis using lets_go_trans [OF c] True by (simp add: Let_def split_beta)
  next
    case False
    then show ?thesis using Cons by simp
  qed
qed (simp add: lets_go_nothing)

lemma dedup_loop_losers:
  assumes "distinct (held hs)"
  shows "(\<forall>(a, c) \<in> set (fst (dedup_loop t live ps hs)). a \<noteq> None) \<and>
    (let L = map (the \<circ> fst) (fst (dedup_loop t live ps hs)); hs' = snd (dedup_loop t live ps hs) in
     distinct L \<and> set L \<subseteq> set (held hs) \<and> set (held hs') = set (held hs) - set L \<and>
     distinct (held hs') \<and> length hs' = length hs)"
  using assms
proof (induction t live ps hs rule: dedup_loop.induct)
  case (2 t live i j ps hs)
  show ?case
  proof (cases "\<not> same_route (pt_p t ! i) (pt_p t ! j)")
    case True
    then show ?thesis using 2 by simp
  next
    case route: False
    show ?thesis
    proof (cases "dedup_drop t live i j")
      case None
      then show ?thesis using 2 route by simp
    next
      case (Some a)
      show ?thesis
      proof (cases "find_index (\<lambda>h. ho_agent h = Some a) hs")
        case None
        then show ?thesis using 2 route Some by (simp del: find_index_None)
      next
        case found: (Some h)
        have h: "h < length hs" "ho_agent (hs ! h) = Some a" using find_index_SomeD [OF found] by auto
        note c = held_clear [OF "2.prems" h]
        have "a \<in> set (held hs)" using h by (auto simp: held_iff)
        then show ?thesis
          using "2.IH"(4) [OF _ Some found] c route Some found by (auto simp: Let_def split_beta)
      qed
    qed
  qed
qed simp

lemma free_agents_spec:
  assumes "pk_agent_free k" "\<forall>(a, c) \<in> set ls. a \<noteq> None"
  shows "freed (fst (free_agents k ls pl)) = map (the \<circ> fst) ls \<and>
    pl_holds (snd (free_agents k ls pl)) = pl_holds pl \<and>
    (\<forall>S. list_all (borrows S) (slots pl) \<longrightarrow>
      list_all (borrows (S - set (map (the \<circ> fst) ls))) (slots (snd (free_agents k ls pl))))"
  using assms(2)
proof (induction ls arbitrary: pl)
  case (Cons l ls)
  obtain a c where l: "l = (Some a, c)" using Cons.prems by (cases l) auto
  let ?pl = "pathplane_drop_agent pl (Some a)"
  have IH: "freed (fst (free_agents k ls ?pl)) = map (the \<circ> fst) ls"
    "pl_holds (snd (free_agents k ls ?pl)) = pl_holds ?pl"
    "list_all (borrows S) (slots ?pl) \<Longrightarrow>
      list_all (borrows (S - set (map (the \<circ> fst) ls))) (slots (snd (free_agents k ls ?pl)))" for S
    using Cons.IH [of ?pl] Cons.prems by auto
  have run: "free_agents k (l # ls) pl =
      (Pl_agent_free (Some a) c # fst (free_agents k ls ?pl), snd (free_agents k ls ?pl))"
    using l assms(1) by (simp add: pathplane_free_agent_def Let_def split_beta)
  have all: "set (map (the \<circ> fst) (l # ls)) = insert a (set (map (the \<circ> fst) ls))" using l by simp
  show ?case
  proof (intro conjI allI impI)
    show "freed (fst (free_agents k (l # ls) pl)) = map (the \<circ> fst) (l # ls)"
      unfolding run using IH(1) l by simp
    show "pl_holds (snd (free_agents k (l # ls) pl)) = pl_holds pl"
      unfolding run using IH(2) by (simp add: pathplane_drop_agent_def)
    fix S
    assume "list_all (borrows S) (slots pl)"
    then have "list_all (borrows (S - {a} - set (map (the \<circ> fst) ls))) (slots (snd (free_agents k ls ?pl)))"
      by (intro IH(3) drop_agent_borrows)
    moreover have "S - set (map (the \<circ> fst) (l # ls)) = S - {a} - set (map (the \<circ> fst) ls)"
      unfolding all by blast
    ultimately show "list_all (borrows (S - set (map (the \<circ> fst) (l # ls)))) (slots (snd (free_agents k (l # ls) pl)))"
      unfolding run by simp
  qed
qed simp

lemma route_dedup_lets_go:
  assumes "distinct (held (pl_holds pl))" "pk_agent_free k"
  shows "lets_go pl (fst (pathplane_route_dedup pl k live)) (snd (pathplane_route_dedup pl k live))"
proof -
  let ?r = "dedup_loop (pl_t pl) live (slot_pairs (length (slots pl))) (pl_holds pl)"
  note l = dedup_loop_losers [OF assms(1), of "pl_t pl" live "slot_pairs (length (slots pl))"]
  have f: "freed (fst (free_agents k (fst ?r) (pl\<lparr>pl_holds := snd ?r\<rparr>))) = map (the \<circ> fst) (fst ?r)"
    "pl_holds (snd (free_agents k (fst ?r) (pl\<lparr>pl_holds := snd ?r\<rparr>))) = snd ?r"
    "list_all (borrows S) (slots pl) \<Longrightarrow> list_all (borrows (S - set (map (the \<circ> fst) (fst ?r))))
       (slots (snd (free_agents k (fst ?r) (pl\<lparr>pl_holds := snd ?r\<rparr>))))" for S
    using free_agents_spec [OF assms(2), of "fst ?r" "pl\<lparr>pl_holds := snd ?r\<rparr>"] l by auto
  show ?thesis using l f by (simp add: lets_go_def pathplane_route_dedup_def Let_def split_beta)
qed

section \<open>The carrier in use\<close>

text \<open>The connection's agent and context (\<open>pr->ice.agent\<close>, \<open>pr->ice.ctx\<close>), with what has been made
  and given back so far.\<close>

record carriers =
  ca_pl :: pathplane
  ca_agent :: "nat option"
  ca_ctx :: "nat option"
  ca_made :: "nat set"
  ca_freed :: "nat list"

definition peering_ice_adopt :: "ntop \<Rightarrow> carriers \<Rightarrow> nat option \<Rightarrow> nat option \<Rightarrow> u64 \<Rightarrow> carriers" where
  "peering_ice_adopt ntop s agent ctx now =
     s\<lparr>ca_agent := agent, ca_ctx := ctx, ca_pl := pathplane_add_ice ntop (ca_pl s) agent now\<rparr>"

definition peering_ice_stop :: "carriers \<Rightarrow> pathplane_sinks \<Rightarrow> pl_call list \<times> carriers" where
  "peering_ice_stop s k =
     (let agent = ca_agent s; ctx = ca_ctx s;
          s = s\<lparr>ca_agent := None, ca_ctx := None\<rparr>;
          (calls, pl) = pathplane_free_agent (pathplane_drop_ice (ca_pl s)) k agent ctx
      in (calls, s\<lparr>ca_pl := pl\<rparr>))"

definition owned :: "carriers \<Rightarrow> nat set" where
  "owned s = set_option (ca_agent s) \<union> set (held (pl_holds (ca_pl s)))"

text \<open>What happens to the carriers: a new agent comes into use, the one it replaces set aside (the
  session's resume); the connection's agent stops; the set aside are reaped, freed, deduplicated
  and settled; and the plane's other operations.\<close>

inductive carrier_step :: "crypto \<Rightarrow> ntop \<Rightarrow> carriers \<Rightarrow> carriers \<Rightarrow> bool" for C ntop where
  first: "ca_agent s = None \<Longrightarrow> a \<notin> ca_made s \<Longrightarrow>
    carrier_step C ntop s (peering_ice_adopt ntop (s\<lparr>ca_made := insert a (ca_made s)\<rparr>) (Some a) ctx now)"
| replace: "ca_agent s \<noteq> None \<Longrightarrow> a \<notin> ca_made s \<Longrightarrow> pk_agent_free k \<Longrightarrow>
    pathplane_hold_add (ca_pl s) k (ca_agent s) (ca_ctx s) until_ms = (calls, pl) \<Longrightarrow>
    carrier_step C ntop s (peering_ice_adopt ntop
      (s\<lparr>ca_pl := pl, ca_made := insert a (ca_made s), ca_freed := ca_freed s @ freed calls\<rparr>) (Some a) ctx now)"
| stop: "pk_agent_free k \<Longrightarrow> peering_ice_stop s k = (calls, s') \<Longrightarrow>
    carrier_step C ntop s (s'\<lparr>ca_freed := ca_freed s @ freed calls\<rparr>)"
| reap: "pk_agent_free k \<Longrightarrow> pathplane_holds_reap (ca_pl s) k now = (calls, pl) \<Longrightarrow>
    carrier_step C ntop s (s\<lparr>ca_pl := pl, ca_freed := ca_freed s @ freed calls\<rparr>)"
| free_all: "pk_agent_free k \<Longrightarrow> pathplane_holds_free_all (ca_pl s) k = (calls, pl) \<Longrightarrow>
    carrier_step C ntop s (s\<lparr>ca_pl := pl, ca_freed := ca_freed s @ freed calls\<rparr>)"
| dedup: "pk_agent_free k \<Longrightarrow> pathplane_route_dedup (ca_pl s) k (ca_agent s) = (calls, pl) \<Longrightarrow>
    carrier_step C ntop s (s\<lparr>ca_pl := pl, ca_freed := ca_freed s @ freed calls\<rparr>)"
| settle: "pk_agent_free k \<Longrightarrow>
    pathplane_holds_settle (ca_pl s) k (ca_agent s) (ca_ctx s) = (rc, (agent, ctx), calls, pl) \<Longrightarrow>
    carrier_step C ntop s
      (s\<lparr>ca_pl := pl, ca_agent := agent, ca_ctx := ctx, ca_freed := ca_freed s @ freed calls\<rparr>)"
| tick: "pathplane_tick C ntop nonces rnds k (ca_pl s) now = (moved, calls, pl) \<Longrightarrow>
    carrier_step C ntop s (s\<lparr>ca_pl := pl\<rparr>)"
| recv: "pathplane_recv C ntop rnd (ca_pl s) k data kind src agent now = (acted, calls, pl) \<Longrightarrow>
    carrier_step C ntop s (s\<lparr>ca_pl := pl\<rparr>)"
| own: "(\<forall>agent now. e \<noteq> Op_add_ice agent now) \<Longrightarrow>
    carrier_step C ntop s (s\<lparr>ca_pl := pl_op_step ntop (ca_pl s) e\<rparr>)"

definition carriers_init :: "carriers \<Rightarrow> bool" where
  "carriers_init s \<longleftrightarrow> (\<exists>pp. ca_pl s = pathplane_init pp) \<and> ca_agent s = None \<and> ca_made s = {} \<and> ca_freed s = []"

definition carriers_inv :: "carriers \<Rightarrow> bool" where
  "carriers_inv s \<longleftrightarrow>
     length (pl_holds (ca_pl s)) = PATHPLANE_HOLD_MAX \<and> distinct (held (pl_holds (ca_pl s))) \<and>
     (\<forall>a. ca_agent s = Some a \<longrightarrow> a \<notin> set (held (pl_holds (ca_pl s)))) \<and>
     distinct (ca_freed s) \<and> set (ca_freed s) \<inter> owned s = {} \<and>
     ca_made s = owned s \<union> set (ca_freed s) \<and> list_all (borrows (owned s)) (slots (ca_pl s))"

text \<open>The plane's other operations leave the set aside alone.\<close>

lemma tick_mark_holds: "pl_holds (snd (tick_mark pl now due)) = pl_holds pl"
  by (induction pl now due rule: tick_mark.induct) (simp_all add: Let_def split_beta)

lemma tick_send_holds: "pl_holds (snd (tick_send C mine rnds pl pings)) = pl_holds pl"
proof (induction pings arbitrary: rnds pl)
  case (Cons p pings)
  then show ?case by (cases p) (simp add: Let_def split_beta split: option.split)
qed simp

lemma decide_holds: "pl_holds (snd (snd (pathplane_decide pl k now))) = pl_holds pl"
  by (simp add: pathplane_decide_def Let_def pin_check_def split: option.split)

lemma tick_holds: "pl_holds (snd (snd (pathplane_tick C ntop nonces rnds k pl now))) = pl_holds pl"
  by (simp add: pathplane_tick_def tick_probes_def tick_scan_def Let_def split_beta decide_holds
      tick_mark_holds tick_send_holds split: option.split)

lemma recv_holds: "pl_holds (snd (snd (pathplane_recv C ntop rnd pl k data kind src agent now))) = pl_holds pl"
proof -
  have "pl_holds (snd (ping_locked C ntop pl k pr kind from src agent now)) = pl_holds pl" for pl pr "from"
    by (simp add: ping_locked_def ping_path_def Let_def split_beta split: option.split)
  then have "pl_holds (snd (apply_ping C ntop rnd pl k pr kind from src agent mine now)) = pl_holds pl"
    for pl pr "from" mine
    by (simp add: apply_ping_def split_beta split: option.split)
  moreover have "pl_holds (snd (apply_pong C pl k pr kind from src now)) = pl_holds pl" for pl pr "from"
    by (simp add: apply_pong_def Let_def split_beta split: option.split)
  ultimately have "pl_holds (snd (pathplane_apply C ntop rnd pl k pr kind src agent now)) = pl_holds pl" for pl pr
    by (simp add: pathplane_apply_def Let_def)
  then show ?thesis
    by (auto simp: pathplane_recv_def split_beta split: option.split prod.split bool.split)
qed

lemma op_holds: "pl_holds (pl_op_step ntop pl e) = pl_holds pl"
  by (cases e) (simp_all add: decide_holds pathplane_pin_def Let_def pathplane_add_ice_def
      pathplane_add_ep_def path_ep_from_sockaddr_def split_beta pathplane_offer_path_def
      pathplane_drop_ice_def pathplane_drop_agent_def pathplane_reset_stats_def pathplane_clear_def
      pathplane_blackhole_arm_def pathplane_blackhole_mute_def pathplane_blackhole_lift_def
      split: option.split)

section \<open>Every agent is given back once\<close>

lemma inv_quiet:
  assumes "carriers_inv s" "pl_holds pl = pl_holds (ca_pl s)" "list_all (borrows (owned s)) (slots pl)"
  shows "carriers_inv (s\<lparr>ca_pl := pl\<rparr>)"
  using assms by (simp add: carriers_inv_def owned_def)

lemma inv_lets_go:
  assumes "carriers_inv s" "lets_go (ca_pl s) calls pl"
  shows "carriers_inv (s\<lparr>ca_pl := pl, ca_freed := ca_freed s @ freed calls\<rparr>)"
proof -
  have "owned (s\<lparr>ca_pl := pl, ca_freed := ca_freed s @ freed calls\<rparr>) = owned s - set (freed calls)"
    using assms by (auto simp: owned_def lets_go_def carriers_inv_def)
  moreover have "list_all (borrows (owned s - set (freed calls))) (slots pl)"
    using assms by (simp add: lets_go_def carriers_inv_def)
  ultimately show ?thesis
    using assms by (auto simp: carriers_inv_def lets_go_def owned_def)
qed

lemma inv_adopt:
  assumes "carriers_inv s" "ca_agent s = None" "a \<notin> ca_made s"
  shows "carriers_inv (peering_ice_adopt ntop (s\<lparr>ca_made := insert a (ca_made s)\<rparr>) (Some a) ctx now)"
proof -
  let ?s = "peering_ice_adopt ntop (s\<lparr>ca_made := insert a (ca_made s)\<rparr>) (Some a) ctx now"
  have holds: "pl_holds (ca_pl ?s) = pl_holds (ca_pl s)"
    by (simp add: peering_ice_adopt_def pathplane_add_ice_def)
  then have own: "owned ?s = insert a (owned s)"
    using assms(2) by (simp add: owned_def peering_ice_adopt_def)
  have "list_all (borrows (owned ?s)) (slots (ca_pl s))"
    using assms(1) own by (auto simp: carriers_inv_def intro: borrows_more)
  then have "list_all (borrows (owned ?s)) (slots (ca_pl ?s))"
    using own borrows.add_slots [of "owned ?s" "pl_t (ca_pl s)" ntop PATH_ICE None "Some a" now]
    by (simp add: peering_ice_adopt_def pathplane_add_ice_def borrows_def)
  moreover have "set (held (pl_holds (ca_pl s))) \<subseteq> owned s" by (simp add: owned_def)
  ultimately show ?thesis
    using assms own holds by (auto simp: carriers_inv_def peering_ice_adopt_def)
qed

text \<open>The agent in use leaves it: set aside, or given back.\<close>

lemma inv_hold_add:
  assumes "carriers_inv s" "ca_agent s \<noteq> None" "pk_agent_free k"
    and add: "pathplane_hold_add (ca_pl s) k (ca_agent s) (ca_ctx s) until_ms = (calls, pl)"
  shows "carriers_inv (s\<lparr>ca_pl := pl, ca_agent := None, ca_freed := ca_freed s @ freed calls\<rparr>)"
proof -
  obtain a where a: "ca_agent s = Some a" using assms(2) by auto
  let ?hs = "pl_holds (ca_pl s)"
  let ?s = "s\<lparr>ca_pl := pl, ca_agent := None, ca_freed := ca_freed s @ freed calls\<rparr>"
  have inv: "a \<notin> set (held ?hs)" "distinct (held ?hs)" "owned s = insert a (set (held ?hs))"
    using assms(1) a by (auto simp: carriers_inv_def owned_def)
  show ?thesis
  proof (cases "find_index (\<lambda>h. ho_agent h = None) ?hs")
    case None
    then have pl: "pl = pathplane_drop_agent (ca_pl s) (Some a)" "freed calls = [a]"
      using add a assms(3) by (auto simp: pathplane_hold_add_def pathplane_free_agent_def simp del: find_index_None)
    then have "owned ?s = owned s - {a}" "pl_holds pl = ?hs"
      using inv by (auto simp: owned_def pathplane_drop_agent_def)
    then show ?thesis
      using assms(1) pl inv drop_agent_borrows [of "owned s" "ca_pl s" a]
      by (auto simp: carriers_inv_def)
  next
    case (Some i)
    let ?h = "\<lparr>ho_agent = Some a, ho_ctx = ca_ctx s, ho_until_ms = until_ms\<rparr>"
    have i: "i < length ?hs" "ho_agent (?hs ! i) = None" using find_index_SomeD [OF Some] by auto
    have pl: "pl = (ca_pl s)\<lparr>pl_holds := ?hs[i := ?h]\<rparr>" "calls = []"
      using add Some a by (auto simp: pathplane_hold_add_def)
    have "set (held (?hs[i := ?h])) = insert a (set (held ?hs))" "distinct (held (?hs[i := ?h]))"
      using held_add [OF inv(2) i, of ?h a] inv(1) by simp_all
    then show ?thesis using assms(1) pl inv by (simp add: carriers_inv_def owned_def)
  qed
qed

lemma inv_free_live:
  assumes "carriers_inv s" "list_all (borrows (owned s)) (slots pl0)" "pl_holds pl0 = pl_holds (ca_pl s)"
    and "pk_agent_free k" "pathplane_free_agent pl0 k (ca_agent s) (ca_ctx s) = (calls, pl)"
  shows "carriers_inv (s\<lparr>ca_pl := pl, ca_agent := None, ca_ctx := ctx, ca_freed := ca_freed s @ freed calls\<rparr>)"
proof (cases "ca_agent s")
  case None
  then have "pl = pl0" "freed calls = []" using assms(4,5) by (auto simp: pathplane_free_agent_def)
  then show ?thesis using assms(1-3) None by (simp add: carriers_inv_def owned_def)
next
  case (Some a)
  let ?s = "s\<lparr>ca_pl := pl, ca_agent := None, ca_ctx := ctx, ca_freed := ca_freed s @ freed calls\<rparr>"
  have pl: "pl = pathplane_drop_agent pl0 (Some a)" "freed calls = [a]"
    using assms(4,5) Some by (auto simp: pathplane_free_agent_def)
  then have h: "pl_holds pl = pl_holds (ca_pl s)" using assms(3) by (simp add: pathplane_drop_agent_def)
  then have "owned ?s = owned s - {a}" "a \<in> owned s" using assms(1) Some by (auto simp: owned_def carriers_inv_def)
  then show ?thesis
    using assms(1) pl h Some drop_agent_borrows [OF assms(2), of a] by (auto simp: carriers_inv_def)
qed

lemma inv_settle:
  assumes inv: "carriers_inv s" and free: "pk_agent_free k"
    and st: "pathplane_holds_settle (ca_pl s) k (ca_agent s) (ca_ctx s) = (rc, (agent, ctx), calls, pl)"
  shows "carriers_inv (s\<lparr>ca_pl := pl, ca_agent := agent, ca_ctx := ctx, ca_freed := ca_freed s @ freed calls\<rparr>)"
proof (cases "pathplane_hold_carrying (ca_pl s)")
  case None
  show ?thesis
  proof (cases "pathplane_has_hold (ca_pl s)")
    case False
    then show ?thesis using None st inv by (simp add: pathplane_holds_settle_def carriers_inv_def owned_def)
  next
    case True
    have "lets_go (ca_pl s) (fst (pathplane_holds_free_all (ca_pl s) k)) (snd (pathplane_holds_free_all (ca_pl s) k))"
      unfolding pathplane_holds_free_all_def
      using inv free by (intro holds_loop_lets_go) (auto simp: carriers_inv_def)
    then show ?thesis
      using inv_lets_go [OF inv] None True st
      by (auto simp: pathplane_holds_settle_def split_beta Let_def)
  qed
next
  case (Some hi)
  let ?hs = "pl_holds (ca_pl s)"
  have h: "hi < length ?hs" "ho_agent (?hs ! hi) \<noteq> None"
    using Some by (auto simp: pathplane_hold_carrying_def Let_def dest: find_index_SomeD
        split: option.splits if_splits)
  then obtain a where a: "ho_agent (?hs ! hi) = Some a" by auto
  have len: "\<not> PATHPLANE_HOLD_MAX \<le> hi" using h inv by (simp add: carriers_inv_def)
  let ?pl0 = "(ca_pl s)\<lparr>pl_holds := ?hs[hi := hold_zero]\<rparr>"
  have c: "agent = Some a" "ctx = ho_ctx (?hs ! hi)"
      "pathplane_free_agent ?pl0 k (ca_agent s) (ca_ctx s) = (calls, pl)"
    using st Some a len by (auto simp: pathplane_holds_settle_def pathplane_hold_take_def Let_def split_beta)
  have dist: "distinct (held ?hs)" using inv by (simp add: carriers_inv_def)
  note cl = held_clear [OF dist h(1) a]
  have "a \<in> set (held ?hs)" using a h(1) by (auto simp: held_iff)
  then have live: "b \<noteq> a \<and> b \<notin> set (held ?hs)" if "ca_agent s = Some b" for b
    using inv that by (auto simp: carriers_inv_def)
  have pl: "pl_holds pl = ?hs[hi := hold_zero]" "set (freed calls) = set_option (ca_agent s)"
      "distinct (freed calls)"
      "list_all (borrows (owned s - set_option (ca_agent s))) (slots pl)"
    using c(3) free inv drop_agent_borrows [of "owned s" "ca_pl s" ]
    by (cases "ca_agent s"; auto simp: pathplane_free_agent_def pathplane_drop_agent_def carriers_inv_def)+
  have "insert a (set (held (?hs[hi := hold_zero]))) = set (held ?hs)"
    using cl \<open>a \<in> set (held ?hs)\<close> by auto
  then have own: "owned (s\<lparr>ca_pl := pl, ca_agent := agent, ca_ctx := ctx, ca_freed := ca_freed s @ freed calls\<rparr>) =
      owned s - set_option (ca_agent s)"
    using pl(1) c(1) live by (auto simp: owned_def)
  have "set_option (ca_agent s) \<subseteq> owned s" by (simp add: owned_def)
  then show ?thesis
    using inv pl own cl c(1) unfolding carriers_inv_def own by auto
qed

lemma ca_upd_swap:
  "s\<lparr>ca_agent := a, ca_ctx := c, ca_pl := pl\<rparr> = s\<lparr>ca_pl := pl, ca_agent := a, ca_ctx := c\<rparr>"
  "peering_ice_adopt ntop (s\<lparr>ca_pl := pl, ca_agent := b, ca_freed := f, ca_made := insert x (ca_made s)\<rparr>) a c now =
   peering_ice_adopt ntop (s\<lparr>ca_pl := pl, ca_made := insert x (ca_made s), ca_freed := f\<rparr>) a c now"
  by (rule carriers.equality; simp add: peering_ice_adopt_def)+

lemma carriers_invD:
  assumes "carriers_inv s"
  shows "distinct (held (pl_holds (ca_pl s)))" "list_all (borrows (owned s)) (slots (ca_pl s))"
  using assms by (simp_all add: carriers_inv_def)

lemma reap_lets_go:
  assumes "distinct (held (pl_holds pl))" "pk_agent_free k"
  shows "lets_go pl (fst (pathplane_holds_reap pl k now)) (snd (pathplane_holds_reap pl k now))"
    and "lets_go pl (fst (pathplane_holds_free_all pl k)) (snd (pathplane_holds_free_all pl k))"
  unfolding pathplane_holds_reap_def pathplane_holds_free_all_def Let_def
  by (rule holds_loop_lets_go; use assms in \<open>simp split: option.splits\<close>)+

lemma inv_replace:
  assumes "carriers_inv s" "ca_agent s \<noteq> None" "a \<notin> ca_made s" "pk_agent_free k"
    and "pathplane_hold_add (ca_pl s) k (ca_agent s) (ca_ctx s) until_ms = (calls, pl)"
  shows "carriers_inv (peering_ice_adopt ntop
    (s\<lparr>ca_pl := pl, ca_made := insert a (ca_made s), ca_freed := ca_freed s @ freed calls\<rparr>) (Some a) ctx now)"
proof -
  let ?s = "s\<lparr>ca_pl := pl, ca_agent := None, ca_freed := ca_freed s @ freed calls\<rparr>"
  have "carriers_inv ?s" using assms(1,2,4,5) by (rule inv_hold_add)
  then have "carriers_inv (peering_ice_adopt ntop (?s\<lparr>ca_made := insert a (ca_made ?s)\<rparr>) (Some a) ctx now)"
    by (rule inv_adopt) (simp_all add: assms(3))
  moreover have "ca_made ?s = ca_made s" by simp
  ultimately show ?thesis by (simp only: ca_upd_swap)
qed

lemma inv_stop:
  assumes "carriers_inv s" "pk_agent_free k" "peering_ice_stop s k = (calls, s')"
  shows "carriers_inv (s'\<lparr>ca_freed := ca_freed s @ freed calls\<rparr>)"
proof -
  let ?pl = "pathplane_drop_ice (ca_pl s)"
  obtain pl where f: "pathplane_free_agent ?pl k (ca_agent s) (ca_ctx s) = (calls, pl)"
    and s': "s' = s\<lparr>ca_agent := None, ca_ctx := None, ca_pl := pl\<rparr>"
    using assms(3) by (simp add: peering_ice_stop_def Let_def split: prod.splits)
  have "list_all (borrows (owned s)) (slots ?pl)"
    using borrows.drop_slots [OF carriers_invD(2) [OF assms(1)]]
    by (simp add: pathplane_drop_ice_def path_table_drop_kind_def)
  moreover have "pl_holds ?pl = pl_holds (ca_pl s)" by (simp add: pathplane_drop_ice_def)
  ultimately have "carriers_inv (s\<lparr>ca_pl := pl, ca_agent := None, ca_ctx := None, ca_freed := ca_freed s @ freed calls\<rparr>)"
    using inv_free_live [OF assms(1) _ _ assms(2) f] by blast
  then show ?thesis by (simp only: s' ca_upd_swap)
qed

lemma carriers_inv_step: "carrier_step C ntop s t \<Longrightarrow> carriers_inv s \<Longrightarrow> carriers_inv t"
proof (induction rule: carrier_step.induct)
  case (first s a ctx now)
  then show ?case by (intro inv_adopt)
next
  case (replace s a k until_ms calls pl ctx now)
  from replace.prems replace.hyps show ?case by (rule inv_replace)
next
  case (stop k s calls s')
  from stop.prems stop.hyps show ?case by (rule inv_stop)
next
  case (reap k s now calls pl)
  show ?case
    using inv_lets_go [OF reap.prems reap_lets_go(1) [OF carriers_invD(1) [OF reap.prems] reap.hyps(1)]] reap.hyps(2)
    by (metis fst_conv snd_conv)
next
  case (free_all k s calls pl)
  show ?case
    using inv_lets_go [OF free_all.prems reap_lets_go(2) [OF carriers_invD(1) [OF free_all.prems] free_all.hyps(1)]]
      free_all.hyps(2)
    by (metis fst_conv snd_conv)
next
  case (dedup k s calls pl)
  show ?case
    using inv_lets_go [OF dedup.prems route_dedup_lets_go [OF carriers_invD(1) [OF dedup.prems] dedup.hyps(1)]]
      dedup.hyps(2)
    by (metis fst_conv snd_conv)
next
  case (settle k s rc agent ctx calls pl)
  from settle.prems settle.hyps show ?case by (rule inv_settle)
next
  case (tick nonces rnds k s now moved calls pl)
  show ?case
    using borrows.tick_slots [OF carriers_invD(2) [OF tick.prems], of C ntop nonces rnds k now]
      tick_holds [of C ntop nonces rnds k "ca_pl s" now] tick.hyps
    by (intro inv_quiet [OF tick.prems]) simp_all
next
  case (recv rnd s k data kind src agent now acted calls pl)
  show ?case
    using borrows.recv_slots [OF carriers_invD(2) [OF recv.prems], of C ntop rnd k data kind src agent now]
      recv_holds [of C ntop rnd "ca_pl s" k data kind src agent now] recv.hyps
    by (intro inv_quiet [OF recv.prems]) simp_all
next
  case (own e s)
  have "list_all (borrows (owned s)) (slots (pl_op_step ntop (ca_pl s) e))"
    by (rule borrows.op_slots [OF carriers_invD(2) [OF own.prems]]) (use own.hyps in blast)
  then show ?case by (intro inv_quiet [OF own.prems]) (simp_all add: op_holds)
qed

interpretation carriers: invariant_system carriers_init "carrier_step C ntop" carriers_inv for C ntop
proof
  have "held (replicate n hold_zero) = []" for n by (induction n) auto
  then show "carriers_inv s" if "carriers_init s" for s
    using that
    by (auto simp: carriers_init_def carriers_inv_def pathplane_init_def path_table_init_def owned_def
        list_all_iff borrows_def)
qed (rule carriers_inv_step)

text \<open>C12. The agents of a connection are neither leaked nor given back twice, and no path outlives
  its agent: in every reachable state each agent ever made is in use, set aside, or given back,
  exactly one of the three and given back once, and every agent a path names is in use or set aside.\<close>

theorem carriers_given_back_once:
  assumes "reachable carriers_init (carrier_step C ntop) s"
  shows "ca_made s = owned s \<union> set (ca_freed s) \<and> owned s \<inter> set (ca_freed s) = {} \<and>
    distinct (ca_freed s) \<and>
    distinct (held (pl_holds (ca_pl s)) @ (case ca_agent s of None \<Rightarrow> [] | Some a \<Rightarrow> [a])) \<and>
    list_all (\<lambda>p. pa_used p \<longrightarrow> set_option (pa_agent p) \<subseteq> owned s) (slots (ca_pl s))"
proof -
  have "carriers_inv s" using assms by (rule carriers.reachable_inv)
  then show ?thesis
    by (auto simp: carriers_inv_def borrows_def list_all_iff split: option.split)
qed

theorem carriers_given_back_once_witness:
  "\<exists>s. reachable carriers_init (carrier_step plain_crypto (\<lambda>_ _. None)) s \<and>
    ca_made s = {3, 4} \<and> owned s \<union> set (ca_freed s) = {3, 4} \<and> owned s \<inter> set (ca_freed s) = {}"
proof -
  let ?step = "carrier_step plain_crypto (\<lambda>_ _. None)"
  let ?s0 = "\<lparr>ca_pl = pathplane_init (probeplane_init 1 (replicate 32 7) 0), ca_agent = None, ca_ctx = None,
    ca_made = {}, ca_freed = []\<rparr>"
  let ?s1 = "peering_ice_adopt (\<lambda>_ _. None) (?s0\<lparr>ca_made := insert 3 (ca_made ?s0)\<rparr>) (Some 3) None 0"
  obtain calls pl where h: "pathplane_hold_add (ca_pl ?s1) ex_plane_sinks (ca_agent ?s1) (ca_ctx ?s1) 9 = (calls, pl)"
    by fastforce
  let ?s2 = "peering_ice_adopt (\<lambda>_ _. None)
    (?s1\<lparr>ca_pl := pl, ca_made := insert 4 (ca_made ?s1), ca_freed := ca_freed ?s1 @ freed calls\<rparr>) (Some 4) None 1"
  have "carriers_init ?s0" by (auto simp: carriers_init_def)
  moreover have "?step ?s0 ?s1" by (rule carrier_step.first) simp_all
  moreover have "?step ?s1 ?s2"
    by (rule carrier_step.replace [OF _ _ _ h]) (simp_all add: peering_ice_adopt_def ex_plane_sinks_def)
  ultimately have r: "reachable carriers_init ?step ?s2" by (blast intro: start next_state)
  then show ?thesis
    using carriers_given_back_once [OF r]
    by (intro exI [of _ ?s2]) (auto simp: peering_ice_adopt_def)
qed

end
