(* ===== verification/Netstate.thy ===== *)
theory Netstate
  imports Prelude
begin

text \<open>
  What a host knows about its own reachability: netstate.c, with the token decision of tokgen.c
  that reads it. An address or a node with its length is one list of bytes, empty where the length
  is zero; the C code compares \<open>len\<close> bytes after comparing the lengths, which is equality of the
  lists. Counters of rounds and tries are natural numbers; epochs and times keep their width.
\<close>

section \<open>The token decision\<close>

datatype tok_advert = TOK_ADVERT_PENDING | TOK_ADVERT_ENDPOINT | TOK_ADVERT_RENDEZVOUS | TOK_ADVERT_NONE

record tokgen_facts =
  has_usable_addr :: bool
  has_default_route :: bool
  dht_acked :: bool
  dht_attempt_concluded :: bool
  public_port_proven :: bool

definition tokgen_decide :: "tokgen_facts \<Rightarrow> tok_advert" where
  "tokgen_decide f =
     (if \<not> has_usable_addr f then TOK_ADVERT_NONE
      else if public_port_proven f then TOK_ADVERT_ENDPOINT
      else if dht_acked f then TOK_ADVERT_RENDEZVOUS
      else if \<not> has_default_route f \<or> dht_attempt_concluded f then TOK_ADVERT_NONE
      else TOK_ADVERT_PENDING)"

definition tokgen_decide_host :: "tokgen_facts \<Rightarrow> tokgen_facts \<Rightarrow> int \<times> tok_advert \<times> tok_advert" where
  "tokgen_decide_host v4 v6 =
     (if \<not> has_usable_addr v4 \<and> \<not> has_usable_addr v6 then -1 else 0, tokgen_decide v4, tokgen_decide v6)"

section \<open>Constants\<close>

datatype net_scope = NET_SCOPE_LAN | NET_SCOPE_CGNAT | NET_SCOPE_GLOBAL
datatype net_via = NET_VIA_DIRECT | NET_VIA_STUN | NET_VIA_SHADOW

datatype netmon_family = NETMON_AF_INET | NETMON_AF_INET6

definition NETMON_MAX_ADDRS :: nat where "NETMON_MAX_ADDRS = 64"
definition NETMON_CH_V4 :: u32 where "NETMON_CH_V4 = 1"
definition NETMON_CH_V6 :: u32 where "NETMON_CH_V6 = 2"

definition NET_CONN_UP :: int where "NET_CONN_UP = 1"
definition NET_CONN_PENDING :: int where "NET_CONN_PENDING = 2"

definition NETSTATE_ADDR_MAX :: nat where "NETSTATE_ADDR_MAX = 64"
definition NETSTATE_SA_MAX :: nat where "NETSTATE_SA_MAX = 128"
definition NETSTATE_LOCAL_MAX :: nat where "NETSTATE_LOCAL_MAX = NETMON_MAX_ADDRS"
definition NETSTATE_XLAT_MAX :: nat where "NETSTATE_XLAT_MAX = 8"
definition NETSTATE_CANDS_MAX :: nat where "NETSTATE_CANDS_MAX = 4"
definition NETSTATE_SRC_FAST_MS :: u64 where "NETSTATE_SRC_FAST_MS = 500"
definition NETSTATE_SRC_FAST_TRIES :: nat where
  "NETSTATE_SRC_FAST_TRIES = (3 * 4000 + 3 * 4000 div 4) div 500"
definition NETSTATE_SRC_SLOW_MS :: u64 where "NETSTATE_SRC_SLOW_MS = 5000"
definition NETSTATE_ANCHOR_QUALIFY :: nat where "NETSTATE_ANCHOR_QUALIFY = 4"
definition NETSTATE_RDV_MS :: u64 where "NETSTATE_RDV_MS = 2000"
definition NETSTATE_ANCHOR_PROVE_MS :: u64 where "NETSTATE_ANCHOR_PROVE_MS = 10000"
definition NETSTATE_ANCHOR_TRY_MS :: u64 where "NETSTATE_ANCHOR_TRY_MS = 3 * NETSTATE_ANCHOR_PROVE_MS"
definition NETSTATE_ANCHOR_QUIET :: nat where "NETSTATE_ANCHOR_QUIET = 5"
definition NETSTATE_ANCHOR_GONE :: nat where "NETSTATE_ANCHOR_GONE = 90"
definition NETSTATE_PROBE_ROUNDS :: nat where "NETSTATE_PROBE_ROUNDS = 5"
definition NETSTATE_PROBE_MS :: u64 where "NETSTATE_PROBE_MS = 4000"
definition NETSTATE_PROBE_SLOW_MS :: u64 where "NETSTATE_PROBE_SLOW_MS = 30000"

definition NSA_SAMPLE_SRC :: u32 where "NSA_SAMPLE_SRC = 1"
definition NSA_KICK_PROBE :: u32 where "NSA_KICK_PROBE = 2"
definition NSA_EMIT_ROWS :: u32 where "NSA_EMIT_ROWS = 4"
definition NSA_EMIT_CONN :: u32 where "NSA_EMIT_CONN = 8"
definition NSA_EMIT_RDV :: u32 where "NSA_EMIT_RDV = 16"
definition NSA_RDV_PIN :: u32 where "NSA_RDV_PIN = 32"
definition NSA_RDV_RELOCATE :: u32 where "NSA_RDV_RELOCATE = 64"
definition NSA_EMIT_TOKEN :: u32 where "NSA_EMIT_TOKEN = 128"
definition NSA_RDV_DROP :: u32 where "NSA_RDV_DROP = 256"

section \<open>The state\<close>

record netmon_addr =
  na_family :: netmon_family
  na_addr :: "byte list"

record netstate_cand =
  nc_addr :: "byte list"
  nc_acks :: nat
  nc_first_ms :: u64
  nc_seen_ms :: u64

record netstate_local =
  nl_addr :: "byte list"
  nl_scope :: net_scope
  nl_proven :: bool

record netstate_xlat =
  nx_addr :: "byte list"
  nx_scope :: net_scope

record netstate_fam =
  nf_epoch :: u32
  nf_src :: "byte list"
  nf_src_text :: string
  nf_src_scope :: net_scope
  nf_src_epoch :: u32
  nf_src_next_ms :: u64
  nf_src_tries :: nat
  nf_routed :: bool
  nf_conn :: int
  nf_up_epoch :: u32
  nf_probe_running :: bool
  nf_probe_wanted :: bool
  nf_probe_next_ms :: u64
  nf_probe_rounds :: nat
  nf_anchor :: "byte list"
  nf_picking :: bool
  nf_cands :: "netstate_cand list"
  nf_anchor_confirmed :: bool
  nf_anchor_vouched :: bool
  nf_anchor_candidate :: bool
  nf_anchor_acks :: nat
  nf_anchor_quiet :: nat
  nf_anchor_set_ms :: u64
  nf_anchor_first_ms :: u64
  nf_anchor_next_ms :: u64
  nf_has_addr :: bool
  nf_dht_acked :: bool
  nf_concluded :: bool
  nf_locals :: "netstate_local list"
  nf_xlats :: "netstate_xlat list"

record netstate =
  ns_f :: "netstate_fam list"
  ns_is_host :: bool
  ns_pend :: "u32 list"

text \<open>An operation works on one family with its actions owed (\<open>ns->f[i]\<close> and \<open>ns->pend[i]\<close>).\<close>

type_synonym famx = "netstate_fam \<times> u32"

definition fam_idx :: "nat \<Rightarrow> nat" where
  "fam_idx family = (if family = 6 then 1 else 0)"

definition with_fam :: "netstate \<Rightarrow> nat \<Rightarrow> (famx \<Rightarrow> famx) \<Rightarrow> netstate" where
  "with_fam ns i g =
     (let (f, p) = g (ns_f ns ! i, ns_pend ns ! i)
      in ns\<lparr>ns_f := (ns_f ns)[i := f], ns_pend := (ns_pend ns)[i := p]\<rparr>)"

definition raise_act :: "u32 \<Rightarrow> famx \<Rightarrow> famx" where
  "raise_act bits x = (fst x, snd x OR bits)"

definition conn_of :: "netstate_fam \<Rightarrow> int" where
  "conn_of f = (if \<not> nf_has_addr f then 0 else if nf_up_epoch f = nf_epoch f then NET_CONN_UP
     else if nf_routed f then NET_CONN_PENDING else 0)"

definition sync_conn :: "famx \<Rightarrow> famx" where
  "sync_conn x =
     (if conn_of (fst x) = nf_conn (fst x) then x
      else raise_act NSA_EMIT_CONN ((fst x)\<lparr>nf_conn := conn_of (fst x)\<rparr>, snd x))"

definition probe_gap :: "netstate_fam \<Rightarrow> u64" where
  "probe_gap f = (if nf_probe_rounds f < NETSTATE_PROBE_ROUNDS then NETSTATE_PROBE_MS else NETSTATE_PROBE_SLOW_MS)"

definition facts_moved :: "bool \<Rightarrow> famx \<Rightarrow> famx" where
  "facts_moved is_host x = (if is_host then raise_act NSA_EMIT_TOKEN x else x)"

definition addr_scope_raw :: "byte list \<Rightarrow> net_scope" where
  "addr_scope_raw b =
     (if length b = 16 then
        if b ! 0 = 0xfe \<and> b ! 1 AND 0xc0 = 0x80 then NET_SCOPE_LAN
        else if b ! 0 = 0xfe \<and> b ! 1 AND 0xc0 = 0xc0 then NET_SCOPE_LAN
        else if b ! 0 AND 0xfe = 0xfc then NET_SCOPE_LAN
        else NET_SCOPE_GLOBAL
      else if b ! 0 = 10 \<or> b ! 0 = 192 \<and> b ! 1 = 168 \<or> b ! 0 = 172 \<and> 16 \<le> b ! 1 \<and> b ! 1 \<le> 31 \<or>
              b ! 0 = 169 \<and> b ! 1 = 254 then NET_SCOPE_LAN
      else if b ! 0 = 100 \<and> 64 \<le> b ! 1 \<and> b ! 1 \<le> 127 then NET_SCOPE_CGNAT
      else NET_SCOPE_GLOBAL)"

section \<open>The addresses of this machine and of this network\<close>

definition local_idx :: "netstate_fam \<Rightarrow> byte list \<Rightarrow> nat option" where
  "local_idx f a = find_index (\<lambda>l. nl_addr l = a) (nf_locals f)"

definition snap_has :: "netmon_addr list \<Rightarrow> netmon_family \<Rightarrow> byte list \<Rightarrow> bool" where
  "snap_has addrs af a \<longleftrightarrow> list_ex (\<lambda>n. na_family n = af \<and> na_addr n = a) addrs"

definition xlat_forget :: "netstate_fam \<Rightarrow> byte list \<Rightarrow> bool \<times> netstate_fam" where
  "xlat_forget f a =
     (case find_index (\<lambda>x. nx_addr x = a) (nf_xlats f) of
        None \<Rightarrow> (False, f)
      | Some i \<Rightarrow> (True, f\<lparr>nf_xlats := take i (nf_xlats f) @ drop (Suc i) (nf_xlats f)\<rparr>))"

fun af_len :: "netmon_family \<Rightarrow> nat" where
  "af_len NETMON_AF_INET = 4"
| "af_len NETMON_AF_INET6 = 16"

text \<open>\<open>local_sync\<close>: what the kernel no longer reports goes, then what it newly reports is taken in
  while there is room. The result says what was gained and what lost.\<close>

fun local_gain :: "netmon_family \<Rightarrow> netmon_addr list \<Rightarrow> netstate_fam \<Rightarrow> bool \<times> netstate_fam" where
  "local_gain af [] f = (False, f)"
| "local_gain af (n # ns) f =
     (if \<not> length (nf_locals f) < NETSTATE_LOCAL_MAX then (False, f)
      else if na_family n \<noteq> af \<or> length (na_addr n) \<noteq> af_len af then local_gain af ns f
      else if local_idx f (na_addr n) \<noteq> None then local_gain af ns f
      else
        (let (was, f) = xlat_forget f (na_addr n);
             l = \<lparr>nl_addr = na_addr n, nl_scope = addr_scope_raw (na_addr n), nl_proven = was\<rparr>
         in (True, snd (local_gain af ns (f\<lparr>nf_locals := nf_locals f @ [l]\<rparr>)))))"

definition local_sync :: "netmon_family \<Rightarrow> netmon_addr list \<Rightarrow> netstate_fam \<Rightarrow> bool \<times> bool \<times> netstate_fam" where
  "local_sync af addrs f =
     (let kept = filter (\<lambda>l. snap_has addrs af (nl_addr l)) (nf_locals f);
          lost = (length kept \<noteq> length (nf_locals f));
          (gained, f) = local_gain af addrs (f\<lparr>nf_locals := kept\<rparr>)
      in (gained, lost, f))"

definition proofs_demote :: "netstate_fam \<Rightarrow> netstate_fam" where
  "proofs_demote f = f\<lparr>nf_locals := map (\<lambda>l. l\<lparr>nl_proven := False\<rparr>) (nf_locals f)\<rparr>"

definition xlat_note :: "netstate_fam \<Rightarrow> byte list \<Rightarrow> bool \<times> netstate_fam" where
  "xlat_note f a =
     (if list_ex (\<lambda>x. nx_addr x = a) (nf_xlats f) then (False, f)
      else if NETSTATE_XLAT_MAX \<le> length (nf_xlats f) then (False, f)
      else (True, f\<lparr>nf_xlats := nf_xlats f @ [\<lparr>nx_addr = a, nx_scope = addr_scope_raw a\<rparr>]\<rparr>))"

section \<open>Moves and facts\<close>

definition fam_init :: "bool \<Rightarrow> u64 \<Rightarrow> netstate_fam" where
  "fam_init is_host now =
     \<lparr>nf_epoch = 1, nf_src = [], nf_src_text = '''', nf_src_scope = NET_SCOPE_LAN, nf_src_epoch = 0,
      nf_src_next_ms = now, nf_src_tries = 0, nf_routed = False, nf_conn = 0, nf_up_epoch = 0,
      nf_probe_running = False, nf_probe_wanted = False, nf_probe_next_ms = now, nf_probe_rounds = 0,
      nf_anchor = [], nf_picking = is_host, nf_cands = [], nf_anchor_confirmed = False,
      nf_anchor_vouched = False, nf_anchor_candidate = False, nf_anchor_acks = 0, nf_anchor_quiet = 0,
      nf_anchor_set_ms = 0, nf_anchor_first_ms = 0, nf_anchor_next_ms = now, nf_has_addr = False,
      nf_dht_acked = False, nf_concluded = False, nf_locals = [], nf_xlats = []\<rparr>"

definition netstate_init :: "bool \<Rightarrow> u64 \<Rightarrow> netstate" where
  "netstate_init is_host now =
     \<lparr>ns_f = replicate 2 (fam_init is_host now), ns_is_host = is_host, ns_pend = replicate 2 0\<rparr>"

definition fam_af :: "nat \<Rightarrow> netmon_family" where
  "fam_af i = (if i \<noteq> 0 then NETMON_AF_INET6 else NETMON_AF_INET)"

definition fam_bit :: "nat \<Rightarrow> u32" where
  "fam_bit i = (if i \<noteq> 0 then NETMON_CH_V6 else NETMON_CH_V4)"

text \<open>The body of \<open>netstate_on_netmon\<close> for a family whose bit is set: everything learnt on the
  network left behind goes.\<close>

definition fam_moved :: "bool \<Rightarrow> bool \<Rightarrow> bool \<Rightarrow> u64 \<Rightarrow> famx \<Rightarrow> famx" where
  "fam_moved is_host same was_up now x =
     (let f = (fst x)\<lparr>nf_epoch := nf_epoch (fst x) + 1, nf_src_tries := 0, nf_src_next_ms := now\<rparr>;
          f = (if \<not> same then f\<lparr>nf_routed := False\<rparr> else f);
          f = f\<lparr>nf_anchor_acks := 0, nf_anchor_set_ms := now, nf_anchor_first_ms := 0,
                nf_anchor_quiet := 0, nf_anchor_next_ms := now, nf_cands := [], nf_dht_acked := False,
                nf_concluded := False, nf_probe_rounds := 0, nf_probe_wanted := False,
                nf_probe_running := False, nf_probe_next_ms := now\<rparr>;
          f = (if \<not> same then (proofs_demote f)\<lparr>nf_xlats := []\<rparr>
               else if was_up then f\<lparr>nf_up_epoch := nf_epoch f\<rparr> else f);
          f = f\<lparr>nf_conn := conn_of f\<rparr>;
          x = raise_act (NSA_SAMPLE_SRC OR NSA_KICK_PROBE OR NSA_EMIT_ROWS OR NSA_EMIT_CONN) (f, snd x);
          x = (if nf_anchor f \<noteq> [] then raise_act (NSA_RDV_PIN OR NSA_EMIT_RDV) x else x)
      in facts_moved is_host x)"

definition fam_on_netmon :: "bool \<Rightarrow> nat \<Rightarrow> u32 \<Rightarrow> netmon_addr list \<Rightarrow> u64 \<Rightarrow> famx \<Rightarrow> famx" where
  "fam_on_netmon is_host i changed addrs now x =
     (let had = (nf_locals (fst x) \<noteq> []);
          (gained, lost, f) = local_sync (fam_af i) addrs (fst x);
          x = (if gained \<or> lost then raise_act NSA_EMIT_ROWS (f, snd x) else (f, snd x));
          same = (if gained \<and> \<not> lost then had else if lost \<and> \<not> gained then nf_locals f \<noteq> [] else False);
          was_up = (nf_up_epoch f = nf_epoch f);
          x = (if nf_has_addr f \<noteq> (nf_locals f \<noteq> [])
               then facts_moved is_host (sync_conn (f\<lparr>nf_has_addr := (nf_locals f \<noteq> [])\<rparr>, snd x))
               else x)
      in if changed AND fam_bit i = 0 then x else fam_moved is_host same was_up now x)"

definition netstate_on_netmon :: "netstate \<Rightarrow> u32 \<Rightarrow> netmon_addr list \<Rightarrow> u64 \<Rightarrow> netstate" where
  "netstate_on_netmon ns changed addrs now =
     foldl (\<lambda>ns i. with_fam ns i (fam_on_netmon (ns_is_host ns) i changed addrs now)) ns [0, 1]"

definition src_unusable :: "byte list \<Rightarrow> bool" where
  "src_unusable a \<longleftrightarrow> length a = 16 \<and> a ! 0 = 0xfe \<and> a ! 1 AND 0xc0 = 0x80"

definition src_gap :: "netstate_fam \<Rightarrow> u64" where
  "src_gap f = (if nf_src_tries f < NETSTATE_SRC_FAST_TRIES then NETSTATE_SRC_FAST_MS else NETSTATE_SRC_SLOW_MS)"

text \<open>\<open>addr\<close> is empty where the caller passes no address or no length.\<close>

definition fam_on_src ::
    "bool \<Rightarrow> u32 \<Rightarrow> byte list \<Rightarrow> net_scope \<Rightarrow> string option \<Rightarrow> u64 \<Rightarrow> famx \<Rightarrow> famx" where
  "fam_on_src is_host epoch addr scope txt now x =
     (let f = fst x in
      if epoch \<noteq> nf_epoch f then x
      else if addr = [] \<or> src_unusable addr then
        (let f = f\<lparr>nf_src_tries := nf_src_tries f + 1\<rparr>;
             f = f\<lparr>nf_src_next_ms := now + src_gap f\<rparr>
         in if nf_routed f
            then facts_moved is_host (sync_conn (f\<lparr>nf_routed := False\<rparr>, snd x))
            else (f, snd x))
      else
        (let f = f\<lparr>nf_src_tries := 0, nf_src_next_ms := now + NETSTATE_SRC_SLOW_MS\<rparr>;
             addr = take 16 addr;
             f = (if nf_src_epoch f \<noteq> nf_epoch f \<or> nf_src f \<noteq> addr
                  then f\<lparr>nf_src := addr, nf_src_scope := scope, nf_src_epoch := nf_epoch f,
                         nf_src_text := (case txt of None \<Rightarrow> '''' | Some t \<Rightarrow> take (NETSTATE_ADDR_MAX - 1) t)\<rparr>
                  else f)
         in if \<not> nf_routed f
            then facts_moved is_host (sync_conn (f\<lparr>nf_routed := True\<rparr>, snd x))
            else (f, snd x)))"

definition netstate_on_src ::
    "netstate \<Rightarrow> nat \<Rightarrow> u32 \<Rightarrow> byte list \<Rightarrow> net_scope \<Rightarrow> string option \<Rightarrow> u64 \<Rightarrow> netstate" where
  "netstate_on_src ns family epoch addr scope txt now =
     with_fam ns (fam_idx family) (fam_on_src (ns_is_host ns) epoch addr scope txt now)"

definition fam_on_probe_started :: "u32 \<Rightarrow> u64 \<Rightarrow> famx \<Rightarrow> famx" where
  "fam_on_probe_started epoch now x =
     (let f = fst x in
      if epoch \<noteq> nf_epoch f then x
      else
        (let f = f\<lparr>nf_probe_running := True, nf_probe_wanted := False,
                   nf_probe_rounds := nf_probe_rounds f + 1\<rparr>
         in (f\<lparr>nf_probe_next_ms := now + probe_gap f\<rparr>, snd x)))"

definition netstate_on_probe_started :: "netstate \<Rightarrow> nat \<Rightarrow> u32 \<Rightarrow> u64 \<Rightarrow> netstate" where
  "netstate_on_probe_started ns family epoch now =
     with_fam ns (fam_idx family) (fam_on_probe_started epoch now)"

definition fam_on_probe_deferred :: "u32 \<Rightarrow> famx \<Rightarrow> famx" where
  "fam_on_probe_deferred epoch x =
     (if epoch \<noteq> nf_epoch (fst x) then x else ((fst x)\<lparr>nf_probe_wanted := True\<rparr>, snd x))"

definition netstate_on_probe_deferred :: "netstate \<Rightarrow> nat \<Rightarrow> u32 \<Rightarrow> netstate" where
  "netstate_on_probe_deferred ns family epoch =
     with_fam ns (fam_idx family) (fam_on_probe_deferred epoch)"

definition fam_on_probe_done :: "u32 \<Rightarrow> u64 \<Rightarrow> famx \<Rightarrow> famx" where
  "fam_on_probe_done epoch now x =
     (let f = fst x in
      if epoch \<noteq> nf_epoch f then x
      else
        (let f = f\<lparr>nf_probe_running := False\<rparr>
         in if nf_probe_wanted f
            then raise_act NSA_KICK_PROBE (f\<lparr>nf_probe_wanted := False, nf_probe_next_ms := now\<rparr>, snd x)
            else if now + probe_gap f < nf_probe_next_ms f
            then (f\<lparr>nf_probe_next_ms := now + probe_gap f\<rparr>, snd x)
            else (f, snd x)))"

definition netstate_on_probe_done :: "netstate \<Rightarrow> nat \<Rightarrow> u32 \<Rightarrow> u64 \<Rightarrow> netstate" where
  "netstate_on_probe_done ns family epoch now =
     with_fam ns (fam_idx family) (fam_on_probe_done epoch now)"

definition fam_on_servers :: "u32 \<Rightarrow> u64 \<Rightarrow> famx \<Rightarrow> famx" where
  "fam_on_servers epoch now x =
     (if epoch \<noteq> nf_epoch (fst x) \<or> nf_probe_running (fst x) then x
      else raise_act NSA_KICK_PROBE ((fst x)\<lparr>nf_probe_next_ms := now\<rparr>, snd x))"

definition netstate_on_servers :: "netstate \<Rightarrow> nat \<Rightarrow> u32 \<Rightarrow> u64 \<Rightarrow> netstate" where
  "netstate_on_servers ns family epoch now = with_fam ns (fam_idx family) (fam_on_servers epoch now)"

definition fam_on_roundtrip :: "u32 \<Rightarrow> famx \<Rightarrow> famx" where
  "fam_on_roundtrip epoch x =
     (if epoch \<noteq> nf_epoch (fst x) then x else sync_conn ((fst x)\<lparr>nf_up_epoch := epoch\<rparr>, snd x))"

definition netstate_on_roundtrip :: "netstate \<Rightarrow> nat \<Rightarrow> u32 \<Rightarrow> netstate" where
  "netstate_on_roundtrip ns family epoch = with_fam ns (fam_idx family) (fam_on_roundtrip epoch)"

section \<open>The rendezvous node\<close>

text \<open>The index of the weakest candidate, and \<open>cand_ack\<close>.\<close>

definition cand_weaker :: "netstate_cand \<Rightarrow> netstate_cand \<Rightarrow> bool" where
  "cand_weaker c w \<longleftrightarrow>
     nc_acks c < nc_acks w \<or> nc_acks c = nc_acks w \<and> nc_first_ms w < nc_first_ms c"

definition cand_worst :: "netstate_cand list \<Rightarrow> nat" where
  "cand_worst cs = foldl (\<lambda>w i. if cand_weaker (cs ! i) (cs ! w) then i else w) 0 [1..<length cs]"

definition cand_new :: "byte list \<Rightarrow> u64 \<Rightarrow> netstate_cand" where
  "cand_new node now = \<lparr>nc_addr = node, nc_acks = 0, nc_first_ms = now, nc_seen_ms = 0\<rparr>"

definition cand_answered :: "u64 \<Rightarrow> netstate_cand \<Rightarrow> netstate_cand" where
  "cand_answered now c =
     (let c = c\<lparr>nc_seen_ms := now\<rparr>
      in if nc_acks c < NETSTATE_ANCHOR_QUALIFY then c\<lparr>nc_acks := nc_acks c + 1\<rparr> else c)"

definition cand_ack :: "byte list \<Rightarrow> u64 \<Rightarrow> netstate_cand list \<Rightarrow> bool \<times> netstate_cand list" where
  "cand_ack node now cs =
     (let found = find_index (\<lambda>c. nc_addr c = node) cs;
          slot = (case found of
                    Some i \<Rightarrow> Some (i, cs)
                  | None \<Rightarrow>
                      if length cs < NETSTATE_CANDS_MAX then Some (length cs, cs @ [cand_new node now])
                      else if NETSTATE_ANCHOR_QUALIFY \<le> nc_acks (cs ! cand_worst cs) then None
                      else Some (cand_worst cs, cs[cand_worst cs := cand_new node now]))
      in case slot of
           None \<Rightarrow> (False, cs)
         | Some (i, cs) \<Rightarrow>
             (let c = cand_answered now (cs ! i)
              in (NETSTATE_ANCHOR_QUALIFY \<le> nc_acks c \<and> NETSTATE_ANCHOR_PROVE_MS \<le> now - nc_first_ms c,
                  cs[i := c])))"

definition anchor_set :: "byte list \<Rightarrow> u64 \<Rightarrow> bool \<Rightarrow> nat \<Rightarrow> famx \<Rightarrow> famx" where
  "anchor_set node now candidate acks x =
     (let f = fst x in
      if node = [] \<or> NETSTATE_SA_MAX < length node then x
      else if nf_anchor f = node then x
      else raise_act (NSA_RDV_PIN OR NSA_EMIT_RDV)
             (f\<lparr>nf_anchor := node, nf_anchor_confirmed := False, nf_anchor_vouched := False,
                nf_anchor_candidate := candidate, nf_anchor_acks := acks, nf_anchor_set_ms := now,
                nf_anchor_first_ms := (if acks \<noteq> 0 then now else 0), nf_anchor_quiet := 0\<rparr>, snd x))"

definition anchor_confirm :: "bool \<Rightarrow> u64 \<Rightarrow> famx \<Rightarrow> famx" where
  "anchor_confirm is_host now x =
     (let f = fst x in
      if nf_anchor f = [] \<or> nf_anchor_confirmed f then x
      else if nf_anchor_acks f < NETSTATE_ANCHOR_QUALIFY \<or>
              now - nf_anchor_first_ms f < NETSTATE_ANCHOR_PROVE_MS then x
      else facts_moved is_host (raise_act NSA_EMIT_RDV
             (f\<lparr>nf_anchor_confirmed := True, nf_anchor_candidate := False\<rparr>, snd x)))"

text \<open>What an answer of the node held does to its run of answers.\<close>

definition anchor_answered :: "u64 \<Rightarrow> netstate_fam \<Rightarrow> netstate_fam" where
  "anchor_answered now f =
     (let f = f\<lparr>nf_anchor_quiet := 0\<rparr>;
          f = (if nf_anchor_acks f = 0 then f\<lparr>nf_anchor_first_ms := now\<rparr> else f)
      in if nf_anchor_acks f < NETSTATE_ANCHOR_QUALIFY
         then f\<lparr>nf_anchor_acks := nf_anchor_acks f + 1\<rparr> else f)"

definition fam_on_dht_ack :: "bool \<Rightarrow> u32 \<Rightarrow> byte list \<Rightarrow> u64 \<Rightarrow> famx \<Rightarrow> famx" where
  "fam_on_dht_ack is_host epoch node now x =
     (if epoch \<noteq> nf_epoch (fst x) then x
      else
        (let x = sync_conn ((fst x)\<lparr>nf_up_epoch := epoch\<rparr>, snd x);
             x = (if \<not> nf_dht_acked (fst x)
                  then facts_moved is_host ((fst x)\<lparr>nf_dht_acked := True\<rparr>, snd x) else x)
         in if node = [] \<or> NETSTATE_SA_MAX < length node then x
            else
              (let f = (fst x)\<lparr>nf_anchor_next_ms := now + NETSTATE_RDV_MS\<rparr>
               in if nf_anchor f \<noteq> [] \<and> nf_anchor f = node
                  then anchor_confirm is_host now (anchor_answered now f, snd x)
                  else if \<not> nf_picking f then (f, snd x)
                  else
                    (let (ripe, f) = (if nf_anchor_confirmed f then (False, f)
                                      else (let (r, cs) = cand_ack node now (nf_cands f)
                                            in (r, f\<lparr>nf_cands := cs\<rparr>)))
                     in if ripe
                        then (let x = anchor_set node now False NETSTATE_ANCHOR_QUALIFY (f, snd x)
                              in facts_moved is_host (raise_act NSA_EMIT_RDV
                                   ((fst x)\<lparr>nf_anchor_confirmed := True, nf_cands := []\<rparr>, snd x)))
                        else if nf_anchor f \<noteq> [] \<and> nf_anchor_quiet f < NETSTATE_ANCHOR_GONE then (f, snd x)
                        else anchor_set node now True 1 (f, snd x)))))"

definition netstate_on_dht_ack :: "netstate \<Rightarrow> nat \<Rightarrow> u32 \<Rightarrow> byte list \<Rightarrow> u64 \<Rightarrow> netstate" where
  "netstate_on_dht_ack ns family epoch node now =
     with_fam ns (fam_idx family) (fam_on_dht_ack (ns_is_host ns) epoch node now)"

definition fam_on_anchor_seen :: "u64 \<Rightarrow> famx \<Rightarrow> famx" where
  "fam_on_anchor_seen now x = (if nf_anchor (fst x) = [] then x else (anchor_answered now (fst x), snd x))"

definition netstate_on_anchor_seen :: "netstate \<Rightarrow> nat \<Rightarrow> u64 \<Rightarrow> netstate" where
  "netstate_on_anchor_seen ns family now = with_fam ns (fam_idx family) (fam_on_anchor_seen now)"

definition netstate_on_rdv_offered :: "netstate \<Rightarrow> nat \<Rightarrow> byte list \<Rightarrow> u64 \<Rightarrow> netstate" where
  "netstate_on_rdv_offered ns family node now = with_fam ns (fam_idx family) (anchor_set node now False 0)"

definition fam_on_rdv_vouched :: "bool \<Rightarrow> byte list \<Rightarrow> u64 \<Rightarrow> famx \<Rightarrow> famx" where
  "fam_on_rdv_vouched is_host node now x =
     (let x = anchor_set node now False 0 x
      in if nf_anchor (fst x) = [] \<or> nf_anchor_vouched (fst x) then x
         else facts_moved is_host (raise_act NSA_EMIT_RDV
                ((fst x)\<lparr>nf_anchor_vouched := True, nf_anchor_candidate := False\<rparr>, snd x)))"

definition netstate_on_rdv_vouched :: "netstate \<Rightarrow> nat \<Rightarrow> byte list \<Rightarrow> u64 \<Rightarrow> netstate" where
  "netstate_on_rdv_vouched ns family node now =
     with_fam ns (fam_idx family) (fam_on_rdv_vouched (ns_is_host ns) node now)"

definition fam_set_picking :: "bool \<Rightarrow> famx \<Rightarrow> famx" where
  "fam_set_picking on x =
     (if nf_picking (fst x) = on then x
      else (let f = (fst x)\<lparr>nf_picking := on\<rparr> in (if \<not> on then f\<lparr>nf_cands := []\<rparr> else f, snd x)))"

definition netstate_set_picking :: "netstate \<Rightarrow> nat \<Rightarrow> bool \<Rightarrow> netstate" where
  "netstate_set_picking ns family on = with_fam ns (fam_idx family) (fam_set_picking on)"

definition fam_on_reflexive :: "nat \<Rightarrow> u32 \<Rightarrow> byte list \<Rightarrow> famx \<Rightarrow> famx" where
  "fam_on_reflexive family epoch addr x =
     (let f = fst x in
      if epoch \<noteq> nf_epoch f \<or> length addr \<noteq> (if family = 6 then 16 else 4) then x
      else case local_idx f addr of
             Some k \<Rightarrow>
               (let l = nf_locals f ! k in
                if nl_proven l \<or> nl_scope l = NET_SCOPE_LAN then x
                else raise_act NSA_EMIT_ROWS (f\<lparr>nf_locals := (nf_locals f)[k := l\<lparr>nl_proven := True\<rparr>]\<rparr>, snd x))
           | None \<Rightarrow>
               (let (noted, f) = xlat_note f addr
                in if \<not> noted then (f, snd x) else raise_act NSA_EMIT_ROWS (f, snd x)))"

definition netstate_on_reflexive :: "netstate \<Rightarrow> nat \<Rightarrow> u32 \<Rightarrow> byte list \<Rightarrow> netstate" where
  "netstate_on_reflexive ns family epoch addr =
     with_fam ns (fam_idx family) (fam_on_reflexive family epoch addr)"

definition fam_on_dht_concluded :: "bool \<Rightarrow> bool \<Rightarrow> famx \<Rightarrow> famx" where
  "fam_on_dht_concluded is_host concluded x =
     (if nf_concluded (fst x) = concluded then x
      else facts_moved is_host ((fst x)\<lparr>nf_concluded := concluded\<rparr>, snd x))"

definition netstate_on_dht_concluded :: "netstate \<Rightarrow> nat \<Rightarrow> bool \<Rightarrow> netstate" where
  "netstate_on_dht_concluded ns family concluded =
     with_fam ns (fam_idx family) (fam_on_dht_concluded (ns_is_host ns) concluded)"

section \<open>The clock\<close>

definition cand_drop :: "bool \<Rightarrow> famx \<Rightarrow> famx" where
  "cand_drop is_host x =
     facts_moved is_host (raise_act (NSA_EMIT_RDV OR NSA_RDV_DROP)
       ((fst x)\<lparr>nf_anchor := [], nf_anchor_candidate := False, nf_anchor_confirmed := False,
                nf_anchor_acks := 0, nf_anchor_first_ms := 0, nf_anchor_quiet := 0\<rparr>, snd x))"

text \<open>The four parts of \<open>netstate_tick\<close> for one family.\<close>

definition tick_src :: "u64 \<Rightarrow> famx \<Rightarrow> famx" where
  "tick_src now x =
     (if nf_src_next_ms (fst x) \<le> now
      then ((fst x)\<lparr>nf_src_next_ms := now + src_gap (fst x)\<rparr>, snd x OR NSA_SAMPLE_SRC) else x)"

definition tick_probe :: "u64 \<Rightarrow> famx \<Rightarrow> famx" where
  "tick_probe now x =
     (if nf_has_addr (fst x) \<and> \<not> nf_probe_running (fst x) \<and> nf_probe_next_ms (fst x) \<le> now
      then ((fst x)\<lparr>nf_probe_next_ms := now + probe_gap (fst x)\<rparr>, snd x OR NSA_KICK_PROBE) else x)"

definition tick_quiet :: "bool \<Rightarrow> u64 \<Rightarrow> famx \<Rightarrow> famx" where
  "tick_quiet is_host now x =
     (if nf_anchor (fst x) \<noteq> [] \<and> nf_anchor_next_ms (fst x) \<le> now then
        (let f = (fst x)\<lparr>nf_anchor_next_ms := now + NETSTATE_RDV_MS\<rparr>
         in if nf_conn f \<noteq> NET_CONN_UP then (f, snd x)
            else
              (let f = f\<lparr>nf_anchor_quiet := nf_anchor_quiet f + 1\<rparr>
               in if nf_anchor_quiet f < NETSTATE_ANCHOR_QUIET then (f, snd x)
                  else if nf_anchor_candidate f then cand_drop is_host (f, snd x)
                  else raise_act NSA_RDV_RELOCATE (f, snd x)))
      else x)"

definition tick_ceiling :: "bool \<Rightarrow> u64 \<Rightarrow> famx \<Rightarrow> famx" where
  "tick_ceiling is_host now x =
     (if nf_anchor (fst x) \<noteq> [] \<and> nf_anchor_candidate (fst x) \<and>
         NETSTATE_ANCHOR_TRY_MS \<le> now - nf_anchor_set_ms (fst x)
      then cand_drop is_host x else x)"

definition fam_tick :: "bool \<Rightarrow> u64 \<Rightarrow> famx \<Rightarrow> famx" where
  "fam_tick is_host now x =
     tick_ceiling is_host now (anchor_confirm is_host now (tick_quiet is_host now (tick_probe now (tick_src now x))))"

definition netstate_tick :: "netstate \<Rightarrow> u64 \<Rightarrow> netstate" where
  "netstate_tick ns now = foldl (\<lambda>ns i. with_fam ns i (fam_tick (ns_is_host ns) now)) ns [0, 1]"

definition netstate_resync :: "netstate \<Rightarrow> netstate" where
  "netstate_resync ns =
     foldl (\<lambda>ns i. with_fam ns i (raise_act (NSA_EMIT_ROWS OR NSA_EMIT_CONN OR NSA_EMIT_RDV))) ns [0, 1]"

text \<open>The actions owed and the epochs they belong to; the boolean says whether there are any.\<close>

definition netstate_take_actions :: "netstate \<Rightarrow> bool \<times> (u32 list \<times> u32 list) \<times> netstate" where
  "netstate_take_actions ns =
     (list_ex (\<lambda>p. p \<noteq> 0) (ns_pend ns), (ns_pend ns, map nf_epoch (ns_f ns)),
      ns\<lparr>ns_pend := map (\<lambda>_. 0) (ns_pend ns)\<rparr>)"

section \<open>What is read\<close>

definition netstate_conn :: "netstate \<Rightarrow> nat \<Rightarrow> int" where
  "netstate_conn ns family = nf_conn (ns_f ns ! fam_idx family)"

definition netstate_epoch :: "netstate \<Rightarrow> nat \<Rightarrow> u32" where
  "netstate_epoch ns family = nf_epoch (ns_f ns ! fam_idx family)"

definition netstate_src_text :: "netstate \<Rightarrow> nat \<Rightarrow> string" where
  "netstate_src_text ns family =
     (let f = ns_f ns ! fam_idx family
      in if nf_src_epoch f \<noteq> nf_epoch f \<or> nf_src f = [] then '''' else nf_src_text f)"

definition netstate_src :: "netstate \<Rightarrow> nat \<Rightarrow> byte list" where
  "netstate_src ns family =
     (let f = ns_f ns ! fam_idx family
      in if nf_src_epoch f \<noteq> nf_epoch f \<or> nf_src f = [] then [] else nf_src f)"

text \<open>A row as a view is told it; \<open>ntop\<close> stands for \<open>inet_ntop\<close>.\<close>

record netstate_row =
  nr_text :: string
  nr_addr :: "byte list"
  nr_scope :: net_scope
  nr_via :: net_via

definition row_of :: "(bool \<Rightarrow> byte list \<Rightarrow> string option) \<Rightarrow> byte list \<Rightarrow> net_scope \<Rightarrow> net_via \<Rightarrow> netstate_row" where
  "row_of ntop a scope via =
     \<lparr>nr_text = (case ntop (length a = 16) a of None \<Rightarrow> '''' | Some t \<Rightarrow> t), nr_addr = a,
      nr_scope = scope, nr_via = via\<rparr>"

text \<open>One of the loops of \<open>netstate_rows\<close>: the entries that match, until \<open>max\<close> rows are out.\<close>

fun rows_loop :: "('a \<Rightarrow> bool) \<Rightarrow> ('a \<Rightarrow> netstate_row) \<Rightarrow> nat \<Rightarrow> 'a list \<Rightarrow> netstate_row list \<Rightarrow> netstate_row list" where
  "rows_loop P r mx [] out = out"
| "rows_loop P r mx (a # as) out =
     (if \<not> length out < mx then out else rows_loop P r mx as (if P a then out @ [r a] else out))"

definition netstate_rows ::
    "(bool \<Rightarrow> byte list \<Rightarrow> string option) \<Rightarrow> netstate \<Rightarrow> nat \<Rightarrow> nat \<Rightarrow> netstate_row list" where
  "netstate_rows ntop ns family mx =
     (let f = ns_f ns ! fam_idx family;
          r = (\<lambda>via l. row_of ntop (nl_addr l) (nl_scope l) via);
          out = rows_loop (\<lambda>l. nl_scope l \<noteq> NET_SCOPE_LAN \<and> nl_proven l) (r NET_VIA_DIRECT) mx (nf_locals f) [];
          out = rows_loop (\<lambda>_. True) (\<lambda>x. row_of ntop (nx_addr x) (nx_scope x) NET_VIA_STUN) mx (nf_xlats f) out;
          out = rows_loop (\<lambda>l. nl_scope l = NET_SCOPE_LAN) (r NET_VIA_DIRECT) mx (nf_locals f) out
      in rows_loop (\<lambda>l. nl_scope l \<noteq> NET_SCOPE_LAN \<and> \<not> nl_proven l) (r NET_VIA_SHADOW) mx (nf_locals f) out)"

definition netstate_has_local :: "netstate \<Rightarrow> nat \<Rightarrow> byte list \<Rightarrow> bool" where
  "netstate_has_local ns family a \<longleftrightarrow> local_idx (ns_f ns ! fam_idx family) a \<noteq> None"

definition netstate_has_xlat :: "netstate \<Rightarrow> nat \<Rightarrow> byte list \<Rightarrow> bool" where
  "netstate_has_xlat ns family a \<longleftrightarrow> list_ex (\<lambda>x. nx_addr x = a) (nf_xlats (ns_f ns ! fam_idx family))"

definition netstate_facts :: "netstate \<Rightarrow> nat \<Rightarrow> tokgen_facts" where
  "netstate_facts ns family =
     (let f = ns_f ns ! fam_idx family
      in \<lparr>has_usable_addr = nf_has_addr f, has_default_route = nf_routed f,
          dht_acked = (nf_anchor_confirmed f \<and> nf_conn f = NET_CONN_UP \<or> nf_anchor_vouched f),
          dht_attempt_concluded = nf_concluded f, public_port_proven = False\<rparr>)"

definition netstate_reach :: "netstate \<Rightarrow> nat \<Rightarrow> int \<times> bool" where
  "netstate_reach ns family = (nf_conn (ns_f ns ! fam_idx family), nf_dht_acked (ns_f ns ! fam_idx family))"

definition anchor_proven :: "netstate_fam \<Rightarrow> bool" where
  "anchor_proven f \<longleftrightarrow> nf_anchor_confirmed f \<or> nf_anchor_vouched f \<and> nf_conn f \<noteq> NET_CONN_UP"

text \<open>Proven here, vouched for, and blind.\<close>

definition netstate_anchor_state :: "netstate \<Rightarrow> nat \<Rightarrow> bool \<times> bool \<times> bool" where
  "netstate_anchor_state ns family =
     (let f = ns_f ns ! fam_idx family
      in (nf_anchor_confirmed f, nf_anchor_vouched f, nf_conn f AND (NET_CONN_UP OR NET_CONN_PENDING) = 0))"

definition netstate_anchor :: "netstate \<Rightarrow> nat \<Rightarrow> (byte list \<times> bool) option" where
  "netstate_anchor ns family =
     (let f = ns_f ns ! fam_idx family
      in if nf_anchor f = [] then None else Some (nf_anchor f, anchor_proven f))"

text \<open>\<open>pton\<close> stands for \<open>inet_pton\<close>, the boolean for the family.\<close>

definition net_addr_scope :: "(bool \<Rightarrow> string \<Rightarrow> byte list option) \<Rightarrow> string \<Rightarrow> net_scope" where
  "net_addr_scope pton addr =
     (case pton (CHR '':'' \<in> set addr) addr of
        None \<Rightarrow> NET_SCOPE_GLOBAL
      | Some b \<Rightarrow> addr_scope_raw b)"

end
