(* ===== verification/Netstate_View.thy ===== *)
theory Netstate_View
  imports Netstate
begin

text \<open>
  What the network state stands for. The specification of one address family is five things: the
  addresses the kernel reports, the addresses an exchange on this network has named, whether a
  round trip has completed on it, whether there is a route, and the number of the network. The
  implementation, with its epochs, stamps, bounded tables and proofs carried from one table to the
  other, refines it for every sequence of events.
\<close>

section \<open>Events\<close>

datatype ns_event =
    Ev_netmon u32 "netmon_addr list" u64
  | Ev_src nat u32 "byte list" net_scope "string option" u64
  | Ev_probe_started nat u32 u64
  | Ev_probe_deferred nat u32
  | Ev_probe_done nat u32 u64
  | Ev_servers nat u32 u64
  | Ev_roundtrip nat u32
  | Ev_dht_ack nat u32 "byte list" u64
  | Ev_anchor_seen nat u64
  | Ev_rdv_offered nat "byte list" u64
  | Ev_rdv_vouched nat "byte list" u64
  | Ev_set_picking nat bool
  | Ev_reflexive nat u32 "byte list"
  | Ev_dht_concluded nat bool
  | Ev_ns_tick u64
  | Ev_resync
  | Ev_take

fun ns_step :: "netstate \<Rightarrow> ns_event \<Rightarrow> netstate" where
  "ns_step ns (Ev_netmon changed addrs now) = netstate_on_netmon ns changed addrs now"
| "ns_step ns (Ev_src fam e addr scope txt now) = netstate_on_src ns fam e addr scope txt now"
| "ns_step ns (Ev_probe_started fam e now) = netstate_on_probe_started ns fam e now"
| "ns_step ns (Ev_probe_deferred fam e) = netstate_on_probe_deferred ns fam e"
| "ns_step ns (Ev_probe_done fam e now) = netstate_on_probe_done ns fam e now"
| "ns_step ns (Ev_servers fam e now) = netstate_on_servers ns fam e now"
| "ns_step ns (Ev_roundtrip fam e) = netstate_on_roundtrip ns fam e"
| "ns_step ns (Ev_dht_ack fam e node now) = netstate_on_dht_ack ns fam e node now"
| "ns_step ns (Ev_anchor_seen fam now) = netstate_on_anchor_seen ns fam now"
| "ns_step ns (Ev_rdv_offered fam node now) = netstate_on_rdv_offered ns fam node now"
| "ns_step ns (Ev_rdv_vouched fam node now) = netstate_on_rdv_vouched ns fam node now"
| "ns_step ns (Ev_set_picking fam on) = netstate_set_picking ns fam on"
| "ns_step ns (Ev_reflexive fam e addr) = netstate_on_reflexive ns fam e addr"
| "ns_step ns (Ev_dht_concluded fam c) = netstate_on_dht_concluded ns fam c"
| "ns_step ns (Ev_ns_tick now) = netstate_tick ns now"
| "ns_step ns Ev_resync = netstate_resync ns"
| "ns_step ns Ev_take = snd (snd (netstate_take_actions ns))"

text \<open>What an event does to family \<open>i\<close> alone.\<close>

fun fam_step :: "bool \<Rightarrow> nat \<Rightarrow> ns_event \<Rightarrow> famx \<Rightarrow> famx" where
  "fam_step h i (Ev_netmon changed addrs now) = fam_on_netmon h i changed addrs now"
| "fam_step h i (Ev_src fam e addr scope txt now) =
     (if fam_idx fam = i then fam_on_src h e addr scope txt now else id)"
| "fam_step h i (Ev_probe_started fam e now) = (if fam_idx fam = i then fam_on_probe_started e now else id)"
| "fam_step h i (Ev_probe_deferred fam e) = (if fam_idx fam = i then fam_on_probe_deferred e else id)"
| "fam_step h i (Ev_probe_done fam e now) = (if fam_idx fam = i then fam_on_probe_done e now else id)"
| "fam_step h i (Ev_servers fam e now) = (if fam_idx fam = i then fam_on_servers e now else id)"
| "fam_step h i (Ev_roundtrip fam e) = (if fam_idx fam = i then fam_on_roundtrip e else id)"
| "fam_step h i (Ev_dht_ack fam e node now) = (if fam_idx fam = i then fam_on_dht_ack h e node now else id)"
| "fam_step h i (Ev_anchor_seen fam now) = (if fam_idx fam = i then fam_on_anchor_seen now else id)"
| "fam_step h i (Ev_rdv_offered fam node now) = (if fam_idx fam = i then anchor_set node now False 0 else id)"
| "fam_step h i (Ev_rdv_vouched fam node now) = (if fam_idx fam = i then fam_on_rdv_vouched h node now else id)"
| "fam_step h i (Ev_set_picking fam on) = (if fam_idx fam = i then fam_set_picking on else id)"
| "fam_step h i (Ev_reflexive fam e addr) = (if fam_idx fam = i then fam_on_reflexive fam e addr else id)"
| "fam_step h i (Ev_dht_concluded fam c) = (if fam_idx fam = i then fam_on_dht_concluded h c else id)"
| "fam_step h i (Ev_ns_tick now) = fam_tick h now"
| "fam_step h i Ev_resync = raise_act (NSA_EMIT_ROWS OR NSA_EMIT_CONN OR NSA_EMIT_RDV)"
| "fam_step h i Ev_take = (\<lambda>x. (fst x, 0))"

abbreviation famx_of :: "netstate \<Rightarrow> nat \<Rightarrow> famx" where
  "famx_of ns i \<equiv> (ns_f ns ! i, ns_pend ns ! i)"

definition ns_sized :: "netstate \<Rightarrow> bool" where
  "ns_sized ns \<longleftrightarrow> length (ns_f ns) = 2 \<and> length (ns_pend ns) = 2"

text \<open>\<open>ns'\<close> is \<open>ns\<close> with family \<open>i\<close> changed by \<open>g\<close>.\<close>

definition acts :: "netstate \<Rightarrow> nat \<Rightarrow> (famx \<Rightarrow> famx) \<Rightarrow> netstate \<Rightarrow> bool" where
  "acts ns i g ns' \<longleftrightarrow> ns_sized ns' \<and> ns_is_host ns' = ns_is_host ns \<and> famx_of ns' i = g (famx_of ns i)"

lemma fam_idx_less [simp]: "fam_idx fam < 2"
  by (simp add: fam_idx_def)

lemma with_fam_acts:
  "ns_sized ns \<Longrightarrow> j < 2 \<Longrightarrow> acts ns i (if j = i then g else id) (with_fam ns j g)"
  by (auto simp: acts_def with_fam_def ns_sized_def split_beta)

lemma both_fams_acts:
  assumes "ns_sized ns" "i < 2"
  shows "acts ns i (g (ns_is_host ns) i) (foldl (\<lambda>ns j. with_fam ns j (g (ns_is_host ns) j)) ns [0, 1])"
proof -
  let ?ns = "with_fam ns 0 (g (ns_is_host ns) 0)"
  have "acts ns i (if 0 = i then g (ns_is_host ns) 0 else id) ?ns" using assms by (intro with_fam_acts) auto
  moreover from this have "acts ?ns i (if 1 = i then g (ns_is_host ns) 1 else id) (with_fam ?ns 1 (g (ns_is_host ns) 1))"
    by (intro with_fam_acts) (auto simp: acts_def)
  ultimately show ?thesis using assms by (auto simp: acts_def less_2_cases_iff)
qed

lemmas ns_op_defs = netstate_on_netmon_def netstate_on_src_def netstate_on_probe_started_def
  netstate_on_probe_deferred_def netstate_on_probe_done_def netstate_on_servers_def
  netstate_on_roundtrip_def netstate_on_dht_ack_def netstate_on_anchor_seen_def
  netstate_on_rdv_offered_def netstate_on_rdv_vouched_def netstate_set_picking_def
  netstate_on_reflexive_def netstate_on_dht_concluded_def netstate_tick_def netstate_resync_def

lemma ns_step_fam:
  assumes "ns_sized ns" "i < 2"
  shows "acts ns i (fam_step (ns_is_host ns) i e) (ns_step ns e)"
proof -
  note one = with_fam_acts [OF assms(1) fam_idx_less]
  note both = both_fams_acts [OF assms]
  show ?thesis
  proof (cases e)
    case (Ev_netmon changed addrs now)
    then show ?thesis using both [of "\<lambda>h i. fam_on_netmon h i changed addrs now"] by (simp add: ns_op_defs)
  next
    case (Ev_ns_tick now)
    then show ?thesis using both [of "\<lambda>h i. fam_tick h now"] by (simp add: ns_op_defs)
  next
    case Ev_resync
    then show ?thesis
      using both [of "\<lambda>h i. raise_act (NSA_EMIT_ROWS OR NSA_EMIT_CONN OR NSA_EMIT_RDV)"] by (simp add: ns_op_defs)
  next
    case Ev_take
    then show ?thesis using assms by (simp add: acts_def netstate_take_actions_def ns_sized_def)
  qed (simp_all only: ns_step.simps fam_step.simps ns_op_defs one)
qed

definition ns_run :: "bool \<Rightarrow> u64 \<Rightarrow> ns_event list \<Rightarrow> netstate" where
  "ns_run h t0 es = foldl ns_step (netstate_init h t0) es"

lemma ns_run_fam:
  assumes "i < 2"
  shows "ns_f (ns_run h t0 es) ! i = fst (foldl (\<lambda>x e. fam_step h i e x) (fam_init h t0, 0) es)"
proof -
  have run: "famx_of (foldl ns_step ns es) i = foldl (\<lambda>x e. fam_step (ns_is_host ns) i e x) (famx_of ns i) es"
    if "ns_sized ns" for ns
    using that
  proof (induction es arbitrary: ns)
    case (Cons e es)
    then show ?case using ns_step_fam [OF Cons.prems assms, of e] by (simp add: acts_def)
  qed simp
  have init: "ns_sized (netstate_init h t0)" "famx_of (netstate_init h t0) i = (fam_init h t0, 0)"
    "ns_is_host (netstate_init h t0) = h"
    using assms by (auto simp: ns_sized_def netstate_init_def)
  show ?thesis using arg_cong [OF run [OF init(1)], of fst] unfolding init ns_run_def fst_conv .
qed

section \<open>The specification\<close>

record net_view =
  nv_kernel :: "byte list set"
  nv_named :: "byte list set"
  nv_up :: bool
  nv_routed :: bool
  nv_epoch :: nat

definition view_init :: net_view where
  "view_init = \<lparr>nv_kernel = {}, nv_named = {}, nv_up = False, nv_routed = False, nv_epoch = 1\<rparr>"

definition snap_set :: "nat \<Rightarrow> netmon_addr list \<Rightarrow> byte list set" where
  "snap_set i addrs =
     na_addr ` {n \<in> set addrs. na_family n = fam_af i \<and> length (na_addr n) = af_len (fam_af i)}"

text \<open>The kernel gained or retired addresses on the network we are already on: one direction, with
  an address left on either side.\<close>

definition same_network :: "byte list set \<Rightarrow> byte list set \<Rightarrow> bool" where
  "same_network K K' \<longleftrightarrow> K \<subset> K' \<and> K \<noteq> {} \<or> K' \<subset> K \<and> K' \<noteq> {}"

fun view_step :: "nat \<Rightarrow> net_view \<Rightarrow> ns_event \<Rightarrow> net_view" where
  "view_step i v (Ev_netmon changed addrs now) =
     (let K = nv_kernel v; K' = snap_set i addrs;
          v' = v\<lparr>nv_kernel := K', nv_named := nv_named v - (K - K')\<rparr>
      in if changed AND fam_bit i = 0 then v'
         else if same_network K K' then v'\<lparr>nv_epoch := nv_epoch v + 1\<rparr>
         else v'\<lparr>nv_epoch := nv_epoch v + 1, nv_up := False, nv_routed := False, nv_named := {}\<rparr>)"
| "view_step i v (Ev_src fam e addr scope txt now) =
     (if fam_idx fam = i \<and> e = of_nat (nv_epoch v)
      then v\<lparr>nv_routed := (addr \<noteq> [] \<and> \<not> src_unusable addr)\<rparr> else v)"
| "view_step i v (Ev_roundtrip fam e) =
     (if fam_idx fam = i \<and> e = of_nat (nv_epoch v) then v\<lparr>nv_up := True\<rparr> else v)"
| "view_step i v (Ev_dht_ack fam e node now) =
     (if fam_idx fam = i \<and> e = of_nat (nv_epoch v) then v\<lparr>nv_up := True\<rparr> else v)"
| "view_step i v (Ev_reflexive fam e addr) =
     (if fam_idx fam = i \<and> e = of_nat (nv_epoch v) \<and> length addr = af_len (fam_af i) then
        if addr \<in> nv_kernel v then
          if addr_scope_raw addr = NET_SCOPE_LAN then v else v\<lparr>nv_named := insert addr (nv_named v)\<rparr>
        else if card (nv_named v - nv_kernel v) < NETSTATE_XLAT_MAX
        then v\<lparr>nv_named := insert addr (nv_named v)\<rparr>
        else v
      else v)"
| "view_step i v _ = v"

definition view_run :: "nat \<Rightarrow> ns_event list \<Rightarrow> net_view" where
  "view_run i es = foldl (view_step i) view_init es"

fun ev_ok :: "ns_event \<Rightarrow> bool" where
  "ev_ok (Ev_netmon changed addrs now) \<longleftrightarrow> length addrs \<le> NETMON_MAX_ADDRS"
| "ev_ok _ \<longleftrightarrow> True"

section \<open>The address tables\<close>

definition addrs_ok ::
    "netmon_family \<Rightarrow> netstate_local list \<Rightarrow> netstate_xlat list \<Rightarrow> byte list set \<Rightarrow> byte list set \<Rightarrow> bool" where
  "addrs_ok af ls xs K N \<longleftrightarrow>
     nl_addr ` set ls = K \<and> distinct (map nl_addr ls) \<and>
     (\<forall>l \<in> set ls. length (nl_addr l) = af_len af \<and> nl_scope l = addr_scope_raw (nl_addr l) \<and>
        (nl_proven l \<longleftrightarrow> nl_addr l \<in> N)) \<and>
     nx_addr ` set xs = N - K \<and> distinct (map nx_addr xs) \<and>
     (\<forall>x \<in> set xs. nx_scope x = addr_scope_raw (nx_addr x)) \<and> length xs \<le> NETSTATE_XLAT_MAX"

lemma addrs_ok_filter:
  assumes "addrs_ok af ls xs K N"
  shows "addrs_ok af (filter (\<lambda>l. nl_addr l \<in> K') ls) xs (K \<inter> K') (N - (K - K'))"
  using assms by (auto simp: addrs_ok_def distinct_map inj_on_def)

lemma card_kernel: "addrs_ok af ls xs K N \<Longrightarrow> length ls = card K"
  by (metis addrs_ok_def distinct_card length_map set_map)

lemma local_idx_None: "addrs_ok af (nf_locals f) xs K N \<Longrightarrow> local_idx f a = None \<longleftrightarrow> a \<notin> K"
  unfolding local_idx_def find_index_None addrs_ok_def by (metis imageE imageI)

lemma remove_nth_distinct:
  assumes "distinct (map g xs)" "k < length xs"
  shows "set (take k xs @ drop (Suc k) xs) = {x \<in> set xs. g x \<noteq> g (xs ! k)}"
    "distinct (map g (take k xs @ drop (Suc k) xs))"
proof -
  have xs: "xs = take k xs @ xs ! k # drop (Suc k) xs" using assms(2) by (simp add: id_take_nth_drop)
  show "distinct (map g (take k xs @ drop (Suc k) xs))"
    using assms(1) by (subst (asm) xs) simp
  have "g (xs ! k) \<notin> g ` set (take k xs)" "g (xs ! k) \<notin> g ` set (drop (Suc k) xs)"
    using assms(1) by (subst (asm) xs, simp)+
  then show "set (take k xs @ drop (Suc k) xs) = {x \<in> set xs. g x \<noteq> g (xs ! k)}"
    by (subst (3) xs) (auto, (metis imageI)+)
qed

lemma xlat_forget_spec:
  assumes "addrs_ok af ls (nf_xlats f) K N" "a \<notin> K" "length a = af_len af" "xlat_forget f a = (was, f')"
  shows "(\<exists>xs. f' = f\<lparr>nf_xlats := xs\<rparr>) \<and>
    addrs_ok af (ls @ [\<lparr>nl_addr = a, nl_scope = addr_scope_raw a, nl_proven = was\<rparr>]) (nf_xlats f') (insert a K) N"
proof (cases "find_index (\<lambda>x. nx_addr x = a) (nf_xlats f)")
  case None
  then have "\<forall>x \<in> set (nf_xlats f). nx_addr x \<noteq> a" by simp
  moreover have "a \<notin> N"
  proof
    assume "a \<in> N"
    then have "a \<in> nx_addr ` set (nf_xlats f)" using assms(1,2) by (simp add: addrs_ok_def)
    then show False using None by auto
  qed
  moreover have "was = False" "f' = f" using assms(4) unfolding xlat_forget_def None by simp_all
  ultimately show ?thesis using assms(1-3) by (auto simp: addrs_ok_def image_iff intro!: exI [of _ "nf_xlats f"])
next
  case (Some k)
  note k = find_index_SomeD [OF Some]
  have f': "was = True" "f' = f\<lparr>nf_xlats := take k (nf_xlats f) @ drop (Suc k) (nf_xlats f)\<rparr>"
    using Some assms(4) by (auto simp: xlat_forget_def)
  have d: "distinct (map nx_addr (nf_xlats f))" using assms(1) by (simp add: addrs_ok_def)
  note r = remove_nth_distinct [OF d, of k]
  have "nx_addr ` set (nf_xlats f') = N - insert a K"
    using r(1) k assms(1) f' by (auto simp: addrs_ok_def)
  moreover have "a \<in> N" using k assms(1) unfolding addrs_ok_def by (metis DiffD1 imageI nth_mem)
  ultimately have "addrs_ok af (ls @ [\<lparr>nl_addr = a, nl_scope = addr_scope_raw a, nl_proven = was\<rparr>])
      (nf_xlats f') (insert a K) N"
    using assms(1-3) r k f' unfolding addrs_ok_def by auto
  then show ?thesis using f' by blast
qed

lemma tables_same: "\<exists>ls xs. f = f\<lparr>nf_locals := ls, nf_xlats := xs\<rparr>"
  by (rule exI [of _ "nf_locals f"], rule exI [of _ "nf_xlats f"]) simp

lemma local_gain_spec:
  assumes "addrs_ok af (nf_locals f) (nf_xlats f) K N" "local_gain af ns f = (g, f')"
    and "A = na_addr ` {n \<in> set ns. na_family n = af \<and> length (na_addr n) = af_len af}"
    and "K \<union> A \<subseteq> S" "finite S" "card S \<le> NETSTATE_LOCAL_MAX"
  shows "addrs_ok af (nf_locals f') (nf_xlats f') (K \<union> A) N \<and> (g \<longleftrightarrow> \<not> A \<subseteq> K) \<and>
    (\<exists>ls xs. f' = f\<lparr>nf_locals := ls, nf_xlats := xs\<rparr>)"
  using assms
proof (induction ns arbitrary: f K A g f')
  case (Cons n ns)
  let ?A = "na_addr ` {n \<in> set ns. na_family n = af \<and> length (na_addr n) = af_len af}"
  have A: "A = (if na_family n = af \<and> length (na_addr n) = af_len af then insert (na_addr n) ?A else ?A)"
    using Cons.prems(3) by auto
  show ?case
  proof (cases "length (nf_locals f) < NETSTATE_LOCAL_MAX")
    case False
    then have "card S \<le> card K" using card_kernel [OF Cons.prems(1)] Cons.prems(6) by simp
    then have "K = S" using Cons.prems(4,5) by (metis card_seteq le_sup_iff)
    then have "K \<union> A = K" "A \<subseteq> K" using Cons.prems(4) by auto
    then show ?thesis
      using False Cons.prems(1,2) tables_same [of f] by auto
  next
    case room: True
    show ?thesis
    proof (cases "na_family n = af \<and> length (na_addr n) = af_len af \<and> na_addr n \<notin> K")
      case False
      have "local_idx f (na_addr n) \<noteq> None" if "na_addr n \<in> K"
        using that local_idx_None [OF Cons.prems(1)] by simp
      then have "local_gain af ns f = (g, f')" using False room Cons.prems(2) by (auto split: if_splits)
      moreover have "K \<union> A = K \<union> ?A" "A \<subseteq> K \<longleftrightarrow> ?A \<subseteq> K" using False A by auto
      ultimately show ?thesis
        using Cons.IH [OF Cons.prems(1), of g f' ?A] Cons.prems(4-6) by auto
    next
      case new: True
      have "local_idx f (na_addr n) = None"
        using new local_idx_None [OF Cons.prems(1)] by simp
      obtain was f1 where x: "xlat_forget f (na_addr n) = (was, f1)" by fastforce
      let ?f2 = "f1\<lparr>nf_locals := nf_locals f1 @ [\<lparr>nl_addr = na_addr n, nl_scope = addr_scope_raw (na_addr n),
        nl_proven = was\<rparr>]\<rparr>"
      obtain g2 where g: "local_gain af ns ?f2 = (g2, f')" and True: "g = True"
        using Cons.prems(2) room new \<open>local_idx f (na_addr n) = None\<close> x by (cases "local_gain af ns ?f2") auto
      have x1: "\<exists>xs. f1 = f\<lparr>nf_xlats := xs\<rparr>" and ok1: "addrs_ok af (nf_locals f @ [\<lparr>nl_addr = na_addr n,
          nl_scope = addr_scope_raw (na_addr n), nl_proven = was\<rparr>]) (nf_xlats f1) (insert (na_addr n) K) N"
        using xlat_forget_spec [OF Cons.prems(1) _ _ x] new by auto
      then have ok: "addrs_ok af (nf_locals ?f2) (nf_xlats ?f2) (insert (na_addr n) K) N" by auto
      have un: "insert (na_addr n) K \<union> ?A = K \<union> A" using A new by auto
      have "addrs_ok af (nf_locals f') (nf_xlats f') (K \<union> A) N \<and>
        (\<exists>ls xs. f' = ?f2\<lparr>nf_locals := ls, nf_xlats := xs\<rparr>)"
        using Cons.IH [OF ok g refl _ Cons.prems(5,6)] Cons.prems(4) unfolding un by blast
      moreover have "\<not> A \<subseteq> K" using A new by auto
      ultimately show ?thesis using x1 True by (elim exE conjE) (intro conjI exI, auto)
    qed
  qed
qed (auto intro: tables_same)

lemma snap_set_iff:
  "a \<in> snap_set i addrs \<longleftrightarrow> snap_has addrs (fam_af i) a \<and> length a = af_len (fam_af i)"
  by (auto simp: snap_set_def snap_has_def list_ex_iff)

lemma local_sync_spec:
  assumes "addrs_ok (fam_af i) (nf_locals f) (nf_xlats f) K N" "length addrs \<le> NETMON_MAX_ADDRS"
    and "local_sync (fam_af i) addrs f = (gained, lost, f')"
  defines "K' \<equiv> snap_set i addrs"
  shows "addrs_ok (fam_af i) (nf_locals f') (nf_xlats f') K' (N - (K - K'))"
    "gained \<longleftrightarrow> \<not> K' \<subseteq> K" "lost \<longleftrightarrow> \<not> K \<subseteq> K'" "\<exists>ls xs. f' = f\<lparr>nf_locals := ls, nf_xlats := xs\<rparr>"
proof -
  let ?kept = "filter (\<lambda>l. snap_has addrs (fam_af i) (nl_addr l)) (nf_locals f)"
  have kept: "?kept = filter (\<lambda>l. nl_addr l \<in> K') (nf_locals f)"
    using assms(1) by (intro filter_cong) (auto simp: snap_set_iff K'_def addrs_ok_def)
  have card: "finite K'" "card K' \<le> NETSTATE_LOCAL_MAX"
  proof -
    show "finite K'" by (simp add: K'_def snap_set_def)
    have "card K' \<le> card (na_addr ` set addrs)" unfolding K'_def snap_set_def by (intro card_mono) auto
    also have "\<dots> \<le> length addrs" using card_length [of "map na_addr addrs"] by simp
    finally show "card K' \<le> NETSTATE_LOCAL_MAX" using assms(2) by (simp add: NETSTATE_LOCAL_MAX_def)
  qed
  have ok: "addrs_ok (fam_af i) (nf_locals (f\<lparr>nf_locals := ?kept\<rparr>)) (nf_xlats (f\<lparr>nf_locals := ?kept\<rparr>))
      (K \<inter> K') (N - (K - K'))"
    using addrs_ok_filter [OF assms(1)] kept by simp
  have run: "local_gain (fam_af i) addrs (f\<lparr>nf_locals := ?kept\<rparr>) = (gained, f')"
    and lost: "lost \<longleftrightarrow> length ?kept \<noteq> length (nf_locals f)"
    using assms(3) by (auto simp: local_sync_def Let_def split: prod.splits)
  have K': "K' = na_addr ` {n \<in> set addrs. na_family n = fam_af i \<and> length (na_addr n) = af_len (fam_af i)}"
    by (simp add: K'_def snap_set_def)
  have un: "K \<inter> K' \<union> K' = K'" by blast
  note g = local_gain_spec [OF ok run K' _ card, unfolded un]
  show "addrs_ok (fam_af i) (nf_locals f') (nf_xlats f') K' (N - (K - K'))" using g by simp
  show "gained \<longleftrightarrow> \<not> K' \<subseteq> K" using g by blast
  show "\<exists>ls xs. f' = f\<lparr>nf_locals := ls, nf_xlats := xs\<rparr>" using g by auto
  have "length ?kept = length (nf_locals f) \<longleftrightarrow> (\<forall>l \<in> set (nf_locals f). nl_addr l \<in> K')"
    unfolding kept by (metis filter_True length_filter_less less_irrefl)
  then show "lost \<longleftrightarrow> \<not> K \<subseteq> K'" using lost assms(1) by (auto simp: addrs_ok_def)
qed

section \<open>The refinement\<close>

text \<open>The part of a family the specification speaks about.\<close>

definition core :: "netstate_fam \<Rightarrow>
    netstate_local list \<times> netstate_xlat list \<times> u32 \<times> bool \<times> bool \<times> int \<times> u32" where
  "core f = (nf_locals f, nf_xlats f, nf_epoch f, nf_has_addr f, nf_routed f, nf_conn f, nf_up_epoch f)"

lemma core_upd [simp]:
  "core (f\<lparr>nf_src := a\<rparr>) = core f" "core (f\<lparr>nf_src_text := t\<rparr>) = core f" "core (f\<lparr>nf_src_scope := s\<rparr>) = core f"
  "core (f\<lparr>nf_src_epoch := e\<rparr>) = core f" "core (f\<lparr>nf_src_next_ms := m\<rparr>) = core f"
  "core (f\<lparr>nf_src_tries := n\<rparr>) = core f" "core (f\<lparr>nf_probe_running := b\<rparr>) = core f"
  "core (f\<lparr>nf_probe_wanted := b\<rparr>) = core f" "core (f\<lparr>nf_probe_next_ms := m\<rparr>) = core f"
  "core (f\<lparr>nf_probe_rounds := n\<rparr>) = core f" "core (f\<lparr>nf_anchor := a\<rparr>) = core f"
  "core (f\<lparr>nf_picking := b\<rparr>) = core f" "core (f\<lparr>nf_cands := cs\<rparr>) = core f"
  "core (f\<lparr>nf_anchor_confirmed := b\<rparr>) = core f" "core (f\<lparr>nf_anchor_vouched := b\<rparr>) = core f"
  "core (f\<lparr>nf_anchor_candidate := b\<rparr>) = core f" "core (f\<lparr>nf_anchor_acks := n\<rparr>) = core f"
  "core (f\<lparr>nf_anchor_quiet := n\<rparr>) = core f" "core (f\<lparr>nf_anchor_set_ms := m\<rparr>) = core f"
  "core (f\<lparr>nf_anchor_first_ms := m\<rparr>) = core f" "core (f\<lparr>nf_anchor_next_ms := m\<rparr>) = core f"
  "core (f\<lparr>nf_dht_acked := b\<rparr>) = core f" "core (f\<lparr>nf_concluded := b\<rparr>) = core f"
  by (simp_all add: core_def)

lemma raise_facts_fst [simp]:
  "fst (raise_act b x) = fst x" "fst (facts_moved h x) = fst x"
  by (simp_all add: raise_act_def facts_moved_def)

lemma sync_conn_fst [simp]: "fst (sync_conn x) = (fst x)\<lparr>nf_conn := conn_of (fst x)\<rparr>"
  by (simp add: sync_conn_def)

lemma anchor_core [simp]:
  "core (fst (anchor_set node now c acks x)) = core (fst x)"
  "core (fst (anchor_confirm h now x)) = core (fst x)"
  "core (anchor_answered now f) = core f"
  "core (fst (cand_drop h x)) = core (fst x)"
  by (simp_all add: anchor_set_def anchor_confirm_def anchor_answered_def cand_drop_def Let_def)

lemma tick_core: "core (fst (fam_tick h now x)) = core (fst x)"
proof -
  have "core (fst (tick_src now x)) = core (fst x)" "core (fst (tick_probe now x)) = core (fst x)" for x
    by (simp_all add: tick_src_def tick_probe_def)
  moreover have "core (fst (tick_ceiling h now x)) = core (fst x)" for x
    by (simp add: tick_ceiling_def)
  moreover have "core (fst (tick_quiet h now x)) = core (fst x)" for x
    by (simp add: tick_quiet_def Let_def)
  ultimately show ?thesis by (simp add: fam_tick_def)
qed

fun quiet_event :: "ns_event \<Rightarrow> bool" where
  "quiet_event (Ev_netmon _ _ _) = False"
| "quiet_event (Ev_src _ _ _ _ _ _) = False"
| "quiet_event (Ev_roundtrip _ _) = False"
| "quiet_event (Ev_dht_ack _ _ _ _) = False"
| "quiet_event (Ev_reflexive _ _ _) = False"
| "quiet_event _ = True"

lemma quiet_core: "quiet_event e \<Longrightarrow> core (fst (fam_step h i e x)) = core (fst x)"
  by (cases e) (simp_all add: tick_core fam_on_probe_started_def fam_on_probe_deferred_def
      fam_on_probe_done_def fam_on_servers_def fam_on_anchor_seen_def fam_on_rdv_vouched_def
      fam_set_picking_def fam_on_dht_concluded_def Let_def)

lemma quiet_view: "quiet_event e \<Longrightarrow> view_step i v e = v"
  by (cases e) simp_all

definition fam_rel :: "nat \<Rightarrow> netstate_fam \<Rightarrow> net_view \<Rightarrow> bool" where
  "fam_rel i f v \<longleftrightarrow>
     addrs_ok (fam_af i) (nf_locals f) (nf_xlats f) (nv_kernel v) (nv_named v) \<and>
     nf_epoch f = of_nat (nv_epoch v) \<and> (nf_has_addr f \<longleftrightarrow> nf_locals f \<noteq> []) \<and>
     (nf_routed f \<longleftrightarrow> nv_routed v) \<and> nf_conn f = conn_of f \<and>
     (\<exists>e \<le> nv_epoch v. nf_up_epoch f = of_nat e \<and> (nv_up v \<longleftrightarrow> e = nv_epoch v))"

lemma conn_of_core: "core f = core g \<Longrightarrow> conn_of f = conn_of g"
  by (simp add: core_def conn_of_def)

lemma fam_rel_core: "core f = core g \<Longrightarrow> fam_rel i f v \<longleftrightarrow> fam_rel i g v"
  using conn_of_core [of f g] by (simp add: core_def fam_rel_def)

lemma rel_up:
  assumes "fam_rel i f v" "core g = core (f\<lparr>nf_up_epoch := nf_epoch f, nf_conn := conn_of (f\<lparr>nf_up_epoch := nf_epoch f\<rparr>)\<rparr>)"
  shows "fam_rel i g (v\<lparr>nv_up := True\<rparr>)"
  unfolding fam_rel_core [OF assms(2)] using assms(1) by (auto simp: fam_rel_def conn_of_def)

lemma dht_ack_core:
  "e \<noteq> nf_epoch (fst x) \<Longrightarrow> core (fst (fam_on_dht_ack h e node now x)) = core (fst x)"
  "core (fst (fam_on_dht_ack h (nf_epoch (fst x)) node now x)) =
   core ((fst x)\<lparr>nf_up_epoch := nf_epoch (fst x), nf_conn := conn_of ((fst x)\<lparr>nf_up_epoch := nf_epoch (fst x)\<rparr>)\<rparr>)"
  by (auto simp: fam_on_dht_ack_def Let_def split: prod.split)

lemma of_nat_epoch:
  "m < 2 ^ 32 \<Longrightarrow> n < 2 ^ 32 \<Longrightarrow> (of_nat m :: u32) = of_nat n \<longleftrightarrow> m = n"
  by (auto simp: word_unat_eq_iff unsigned_of_nat take_bit_nat_eq_self)

lemma rel_up_iff:
  assumes "fam_rel i f v" "nv_epoch v < 2 ^ 32"
  shows "nf_up_epoch f = nf_epoch f \<longleftrightarrow> nv_up v"
proof -
  obtain e where "e \<le> nv_epoch v" "nf_up_epoch f = of_nat e" "nv_up v \<longleftrightarrow> e = nv_epoch v"
    using assms(1) by (auto simp: fam_rel_def)
  then show ?thesis using assms of_nat_epoch [of e "nv_epoch v"] by (auto simp: fam_rel_def)
qed

lemma rel_kernel: "fam_rel i f v \<Longrightarrow> nf_locals f = [] \<longleftrightarrow> nv_kernel v = {}"
  by (auto simp: fam_rel_def addrs_ok_def)

lemma rel_routed:
  "fam_rel i f v \<Longrightarrow> fam_rel i (f\<lparr>nf_routed := r, nf_conn := conn_of (f\<lparr>nf_routed := r\<rparr>)\<rparr>) (v\<lparr>nv_routed := r\<rparr>)"
  by (simp add: fam_rel_def) (simp add: conn_of_def)

lemma src_core:
  assumes "nf_conn f = conn_of f" "r \<longleftrightarrow> addr \<noteq> [] \<and> \<not> src_unusable addr"
  shows "core (fst (fam_on_src h (nf_epoch f) addr scope txt now (f, p))) =
    core (f\<lparr>nf_routed := r, nf_conn := conn_of (f\<lparr>nf_routed := r\<rparr>)\<rparr>)"
proof -
  show ?thesis
  proof (cases "nf_routed f = r")
    case True
    then have "core (fst (fam_on_src h (nf_epoch f) addr scope txt now (f, p))) = core f"
      using assms(2) by (cases r) (auto simp: fam_on_src_def Let_def)
    moreover have "core (f\<lparr>nf_routed := r, nf_conn := conn_of (f\<lparr>nf_routed := r\<rparr>)\<rparr>) = core f"
      using assms(1) True by (simp add: core_def conn_of_def)
    ultimately show ?thesis by simp
  next
    case False
    then show ?thesis
      using assms(2) by (cases r) (simp_all add: fam_on_src_def Let_def core_def conn_of_def)
  qed
qed

lemma rel_src:
  assumes "fam_rel i f v"
  shows "fam_rel i (fst (fam_on_src h e addr scope txt now (f, p)))
    (if e = of_nat (nv_epoch v) then v\<lparr>nv_routed := (addr \<noteq> [] \<and> \<not> src_unusable addr)\<rparr> else v)"
proof -
  have ep: "nf_epoch f = of_nat (nv_epoch v)" and conn: "nf_conn f = conn_of f"
    using assms by (auto simp: fam_rel_def)
  show ?thesis
  proof (cases "e = of_nat (nv_epoch v)")
    case True
    show ?thesis
      unfolding True if_P [OF refl]
      using iffD2 [OF fam_rel_core [OF src_core [OF conn refl]] rel_routed [OF assms]] unfolding ep .
  next
    case False
    then show ?thesis using assms ep by (simp add: fam_on_src_def)
  qed
qed

lemma addrs_okD:
  "addrs_ok af ls xs K N \<Longrightarrow> l \<in> set ls \<Longrightarrow>
   nl_addr l \<in> K \<and> nl_scope l = addr_scope_raw (nl_addr l) \<and> (nl_proven l \<longleftrightarrow> nl_addr l \<in> N)"
  by (auto simp: addrs_ok_def)

lemma addrs_ok_xlats:
  "addrs_ok af ls xs K N \<Longrightarrow> nx_addr ` set xs = N - K" "addrs_ok af ls xs K N \<Longrightarrow> distinct (map nx_addr xs)"
  by (simp_all add: addrs_ok_def)

lemma addrs_ok_note:
  assumes "addrs_ok af ls xs K N" "addr \<notin> K" "addr \<notin> N" "length xs < NETSTATE_XLAT_MAX"
  shows "addrs_ok af ls (xs @ [\<lparr>nx_addr = addr, nx_scope = addr_scope_raw addr\<rparr>]) K (insert addr N)"
proof -
  have "nx_addr ` set xs = N - K" "insert addr N - K = insert addr (N - K)" using assms by (auto simp: addrs_ok_def)
  moreover have "nl_addr l \<noteq> addr" if "l \<in> set ls" for l using that assms by (auto simp: addrs_ok_def)
  ultimately show ?thesis using assms by (auto simp: addrs_ok_def)
qed

lemma addrs_ok_prove:
  assumes "addrs_ok af ls xs K N" "k < length ls"
  shows "addrs_ok af (ls[k := (ls ! k)\<lparr>nl_proven := True\<rparr>]) xs K (insert (nl_addr (ls ! k)) N)"
proof -
  let ?ls = "ls[k := (ls ! k)\<lparr>nl_proven := True\<rparr>]"
  have same: "map nl_addr ?ls = map nl_addr ls"
    using assms(2) by (intro nth_equalityI) (auto simp: nth_list_update)
  have d: "distinct (map nl_addr ls)" and mem: "ls ! k \<in> set ls" using assms by (auto simp: addrs_ok_def)
  have el: "l = (ls ! k)\<lparr>nl_proven := True\<rparr> \<or> l \<in> set ls \<and> nl_addr l \<noteq> nl_addr (ls ! k)" if l: "l \<in> set ?ls" for l
  proof -
    obtain j where j: "j < length ls" "l = ?ls ! j" using l by (auto simp: in_set_conv_nth)
    then show ?thesis
      using d assms(2) nth_eq_iff_index_eq [OF d, of j k] by (cases "j = k") auto
  qed
  have "nl_addr (ls ! k) \<in> K" using assms(1) mem by (auto simp: addrs_ok_def)
  then have xs: "nx_addr ` set xs = insert (nl_addr (ls ! k)) N - K" using assms(1) by (auto simp: addrs_ok_def)
  show ?thesis
    unfolding addrs_ok_def
  proof (intro conjI ballI)
    show "nl_addr ` set ?ls = K" using same assms(1) by (metis addrs_ok_def set_map)
    show "distinct (map nl_addr ?ls)" using same d by simp
    fix l assume "l \<in> set ?ls"
    from el [OF this] show "length (nl_addr l) = af_len af" "nl_scope l = addr_scope_raw (nl_addr l)"
      "nl_proven l \<longleftrightarrow> nl_addr l \<in> insert (nl_addr (ls ! k)) N"
      using assms(1) mem by (auto simp: addrs_ok_def)
  qed (use xs assms(1) in \<open>simp_all add: addrs_ok_def\<close>)
qed

lemma rel_named:
  assumes "fam_rel i f v" "addrs_ok (fam_af i) ls xs (nv_kernel v) N"
  shows "fam_rel i (f\<lparr>nf_locals := ls, nf_xlats := xs\<rparr>) (v\<lparr>nv_named := N\<rparr>)"
proof -
  have "ls = [] \<longleftrightarrow> nf_locals f = []" using assms rel_kernel [OF assms(1)] by (auto simp: addrs_ok_def)
  then show ?thesis using assms by (simp add: fam_rel_def) (simp add: conn_of_def)
qed

lemma rel_reflexive:
  assumes "fam_rel i f v" "fam_idx fam = i"
  shows "fam_rel i (fst (fam_on_reflexive fam e addr (f, p))) (view_step i v (Ev_reflexive fam e addr))"
proof -
  have len: "(if fam = 6 then 16 else 4) = af_len (fam_af i)"
    using assms(2) by (auto simp: fam_idx_def fam_af_def split: if_splits)
  have ok: "addrs_ok (fam_af i) (nf_locals f) (nf_xlats f) (nv_kernel v) (nv_named v)"
    and ep: "nf_epoch f = of_nat (nv_epoch v)"
    using assms(1) by (auto simp: fam_rel_def)
  show ?thesis
  proof (cases "e = of_nat (nv_epoch v) \<and> length addr = af_len (fam_af i)")
    case cur: True
    show ?thesis
    proof (cases "local_idx f addr")
      case None
      then have out: "addr \<notin> nv_kernel v" using local_idx_None [OF ok] by simp
      note xs = addrs_ok_xlats [OF ok]
      have card: "length (nf_xlats f) = card (nv_named v - nv_kernel v)"
        using distinct_card [OF xs(2)] xs(1) by simp
      have "list_ex (\<lambda>x. nx_addr x = addr) (nf_xlats f) \<longleftrightarrow> addr \<in> nx_addr ` set (nf_xlats f)"
        by (auto simp: list_ex_iff)
      then have held: "list_ex (\<lambda>x. nx_addr x = addr) (nf_xlats f) \<longleftrightarrow> addr \<in> nv_named v"
        using out xs(1) by simp
      have run: "fst (fam_on_reflexive fam e addr (f, p)) = snd (xlat_note f addr)"
        using cur None unfolding fam_on_reflexive_def len by (simp add: ep split_beta)
      show ?thesis
      proof (cases "addr \<in> nv_named v \<or> \<not> length (nf_xlats f) < NETSTATE_XLAT_MAX")
        case True
        then have "snd (xlat_note f addr) = f" using held by (auto simp: xlat_note_def)
        then show ?thesis using True assms cur out card run by (cases "addr \<in> nv_named v") (simp_all add: insert_absorb)
      next
        case False
        then have "snd (xlat_note f addr) =
            f\<lparr>nf_locals := nf_locals f, nf_xlats := nf_xlats f @ [\<lparr>nx_addr = addr, nx_scope = addr_scope_raw addr\<rparr>]\<rparr>"
          using held by (simp add: xlat_note_def)
        then show ?thesis
          using rel_named [OF assms(1) addrs_ok_note [OF ok out]] False cur out assms(2) card run by simp
      qed
    next
      case (Some k)
      note k = find_index_SomeD [OF Some [unfolded local_idx_def]]
      have l: "addr \<in> nv_kernel v" "nl_scope (nf_locals f ! k) = addr_scope_raw addr"
        "nl_proven (nf_locals f ! k) \<longleftrightarrow> addr \<in> nv_named v"
        using addrs_okD [OF ok, of "nf_locals f ! k"] k by auto
      let ?ls = "(nf_locals f)[k := (nf_locals f ! k)\<lparr>nl_proven := True\<rparr>]"
      have run: "fst (fam_on_reflexive fam e addr (f, p)) =
          (if addr \<in> nv_named v \<or> addr_scope_raw addr = NET_SCOPE_LAN then f else f\<lparr>nf_locals := ?ls\<rparr>)"
        using cur Some l unfolding fam_on_reflexive_def len by (simp add: ep Let_def)
      have "fam_rel i (f\<lparr>nf_locals := ?ls, nf_xlats := nf_xlats f\<rparr>) (v\<lparr>nv_named := insert addr (nv_named v)\<rparr>)"
        using addrs_ok_prove [OF ok, of k] k by (intro rel_named [OF assms(1)]) simp
      then show ?thesis
        unfolding run using l cur assms
        by (cases "addr \<in> nv_named v"; cases "addr_scope_raw addr = NET_SCOPE_LAN") (simp_all add: insert_absorb)
    qed
  next
    case False
    then have "fst (fam_on_reflexive fam e addr (f, p)) = f"
      unfolding fam_on_reflexive_def len by (auto simp: Let_def ep)
    then show ?thesis using assms False by auto
  qed
qed

definition moved_to :: "bool \<Rightarrow> bool \<Rightarrow> netstate_fam \<Rightarrow> netstate_fam" where
  "moved_to same was_up f =
     (let f = f\<lparr>nf_epoch := nf_epoch f + 1\<rparr>;
          f = (if \<not> same then (proofs_demote f)\<lparr>nf_routed := False, nf_xlats := []\<rparr>
               else if was_up then f\<lparr>nf_up_epoch := nf_epoch f\<rparr> else f)
      in f\<lparr>nf_conn := conn_of f\<rparr>)"

lemma moved_core: "core (fst (fam_moved h same was_up now x)) = core (moved_to same was_up (fst x))"
  by (simp add: fam_moved_def moved_to_def Let_def core_def conn_of_def proofs_demote_def)

lemma rel_moved:
  assumes "fam_rel i (fst x) v" "nv_epoch v + 1 < 2 ^ 32" "was_up \<longleftrightarrow> nv_up v"
  shows "fam_rel i (fst (fam_moved h same was_up now x))
    (if same then v\<lparr>nv_epoch := nv_epoch v + 1\<rparr>
     else v\<lparr>nv_epoch := nv_epoch v + 1, nv_up := False, nv_routed := False, nv_named := {}\<rparr>)"
proof -
  obtain e where e: "e \<le> nv_epoch v" "nf_up_epoch (fst x) = of_nat e" "nv_up v \<longleftrightarrow> e = nv_epoch v"
    using assms(1) by (auto simp: fam_rel_def)
  have "addrs_ok (fam_af i) (map (\<lambda>l. l\<lparr>nl_proven := False\<rparr>) (nf_locals (fst x))) [] (nv_kernel v) {}"
    using assms(1) by (auto simp: fam_rel_def addrs_ok_def image_image comp_def)
  then show ?thesis
    unfolding fam_rel_core [OF moved_core] using assms e
    by (auto simp: fam_rel_def moved_to_def Let_def conn_of_def proofs_demote_def intro!: exI [of _ e])
qed

lemma rel_netmon:
  assumes "fam_rel i f v" "length addrs \<le> NETMON_MAX_ADDRS" "nv_epoch v + 1 < 2 ^ 32"
  shows "fam_rel i (fst (fam_on_netmon h i changed addrs now (f, p))) (view_step i v (Ev_netmon changed addrs now))"
proof -
  let ?K = "nv_kernel v" and ?K' = "snap_set i addrs"
  obtain gained lost f1 where sync: "local_sync (fam_af i) addrs f = (gained, lost, f1)"
    using prod_cases3 by blast
  have ok: "addrs_ok (fam_af i) (nf_locals f) (nf_xlats f) ?K (nv_named v)" using assms(1) by (simp add: fam_rel_def)
  note l = local_sync_spec [OF ok assms(2) sync]
  obtain ls xs where f1: "f1 = f\<lparr>nf_locals := ls, nf_xlats := xs\<rparr>" using l(4) by blast
  define has where "has = (nf_locals f1 \<noteq> [])"
  define x1 where "x1 = (if gained \<or> lost then raise_act NSA_EMIT_ROWS (f1, p) else (f1, p))"
  define x2 where "x2 = (if nf_has_addr f1 \<noteq> has
    then facts_moved h (sync_conn (f1\<lparr>nf_has_addr := has\<rparr>, snd x1)) else x1)"
  define same where "same = (if gained \<and> \<not> lost then nf_locals f \<noteq> [] else if lost \<and> \<not> gained then has else False)"
  have run: "fam_on_netmon h i changed addrs now (f, p) =
      (if changed AND fam_bit i = 0 then x2 else fam_moved h same (nf_up_epoch f1 = nf_epoch f1) now x2)"
    by (simp add: fam_on_netmon_def sync Let_def x2_def x1_def has_def same_def)
  have "nf_conn f1 = conn_of f1" using assms(1) f1 by (simp add: fam_rel_def conn_of_def)
  then have "core (fst x2) = core (f1\<lparr>nf_has_addr := has, nf_conn := conn_of (f1\<lparr>nf_has_addr := has\<rparr>)\<rparr>)"
    by (auto simp: x2_def x1_def core_def conn_of_def)
  moreover have "fam_rel i (f1\<lparr>nf_has_addr := has, nf_conn := conn_of (f1\<lparr>nf_has_addr := has\<rparr>)\<rparr>)
      (v\<lparr>nv_kernel := ?K', nv_named := nv_named v - (?K - ?K')\<rparr>)"
    using assms(1) f1 l(1) by (simp add: fam_rel_def has_def) (simp add: conn_of_def)
  ultimately have x2: "fam_rel i (fst x2) (v\<lparr>nv_kernel := ?K', nv_named := nv_named v - (?K - ?K')\<rparr>)"
    by (rule iffD2 [OF fam_rel_core])
  have hasK: "has \<longleftrightarrow> ?K' \<noteq> {}" using l(1) by (auto simp: has_def addrs_ok_def)
  have "same \<longleftrightarrow> same_network ?K ?K'"
    using l(2,3) rel_kernel [OF assms(1)] hasK unfolding same_def same_network_def by auto
  moreover have "nf_up_epoch f1 = nf_epoch f1 \<longleftrightarrow> nv_up v"
    using rel_up_iff [OF assms(1)] assms(3) f1 by simp
  ultimately show ?thesis
    using rel_moved [OF x2, of "nf_up_epoch f1 = nf_epoch f1" h "same_network ?K ?K'" now] x2 assms(3)
    unfolding run by (auto simp: Let_def)
qed

lemma rel_step:
  assumes "fam_rel i (fst x) v" "ev_ok e" "nv_epoch v + 1 < 2 ^ 32"
  shows "fam_rel i (fst (fam_step h i e x)) (view_step i v e)"
proof -
  obtain f p where x: "x = (f, p)" by fastforce
  have ep: "nf_epoch f = of_nat (nv_epoch v)" using assms(1) x by (simp add: fam_rel_def)
  show ?thesis
  proof (cases "quiet_event e")
    case True
    then show ?thesis using fam_rel_core [OF quiet_core [OF True]] assms(1) by (simp add: quiet_view)
  next
    case False
    then consider (netmon) changed addrs now where "e = Ev_netmon changed addrs now"
      | (src) fam ep addr scope tx now where "e = Ev_src fam ep addr scope tx now"
      | (roundtrip) fam ep where "e = Ev_roundtrip fam ep"
      | (ack) fam ep node now where "e = Ev_dht_ack fam ep node now"
      | (refl) fam ep addr where "e = Ev_reflexive fam ep addr"
      by (cases e) auto
    then show ?thesis
    proof cases
      case netmon
      then show ?thesis using rel_netmon [of i f v addrs h changed now p] assms x by simp
    next
      case src
      then show ?thesis using rel_src [of i f v h ep addr scope tx now p] assms x by auto
    next
      case roundtrip
      then show ?thesis
        using rel_up [of i f v "f\<lparr>nf_up_epoch := nf_epoch f, nf_conn := conn_of (f\<lparr>nf_up_epoch := nf_epoch f\<rparr>)\<rparr>"]
          assms x ep by (auto simp: fam_on_roundtrip_def)
    next
      case ack
      then show ?thesis
        using rel_up [OF assms(1) dht_ack_core(2) [of h x node now]] assms(1) x ep
          fam_rel_core [OF dht_ack_core(1) [of ep x h node now], of i v]
        by (cases "ep = nf_epoch f") auto
    next
      case refl
      have r: "fam_rel i (fst (fam_on_reflexive fam ep addr (f, p))) (view_step i v (Ev_reflexive fam ep addr))"
        if "fam_idx fam = i" using rel_reflexive [OF _ that] assms(1) x by simp
      show ?thesis
      proof (cases "fam_idx fam = i")
        case True
        then show ?thesis using r unfolding refl x fam_step.simps if_P [OF True] by blast
      qed (use refl assms(1) in simp)
    qed
  qed
qed

lemma view_epoch_le: "nv_epoch (foldl (view_step i) v es) \<le> nv_epoch v + length es"
proof (induction es arbitrary: v)
  case (Cons e es)
  have "nv_epoch (view_step i v e) \<le> nv_epoch v + 1" by (cases e) (simp_all add: Let_def)
  then show ?case using Cons.IH [of "view_step i v e"] by simp
qed simp

lemma rel_run:
  assumes "list_all ev_ok es" "length es + 1 < 2 ^ 32" "i < 2"
  shows "fam_rel i (ns_f (ns_run h t0 es) ! i) (view_run i es)"
proof -
  have run: "fam_rel i (fst (foldl (\<lambda>x e. fam_step h i e x) x es)) (foldl (view_step i) v es)"
    if "fam_rel i (fst x) v" "nv_epoch v + length es < 2 ^ 32" for x v
    using assms(1) that
  proof (induction es arbitrary: x v)
    case (Cons e es)
    have "nv_epoch (view_step i v e) \<le> nv_epoch v + 1"
      using view_epoch_le [of i v "[e]"] by simp
    then show ?case using Cons.IH [of "fam_step h i e x" "view_step i v e"] rel_step [of i x v e h] Cons.prems by simp
  qed simp
  have "fam_rel i (fam_init h t0) view_init"
    by (auto simp: fam_rel_def fam_init_def view_init_def addrs_ok_def conn_of_def)
  then show ?thesis
    using run [of "(fam_init h t0, 0)" view_init] assms(2) ns_run_fam [OF assms(3), of h t0 es]
    by (simp add: view_run_def view_init_def)
qed

lemma rows_loop_take:
  "length out \<le> mx \<Longrightarrow> rows_loop P r mx xs out = take mx (out @ map r (filter P xs))"
proof (induction P r mx xs out rule: rows_loop.induct)
  case (2 P r mx a as out)
  then show ?case by (cases "length out < mx") (auto simp: take_Cons')
qed simp

lemma rows_loop_next:
  "rows_loop P r mx xs (take mx out) = take mx (out @ map r (filter P xs))"
  by (cases "length out \<le> mx") (simp_all add: rows_loop_take)

lemma rows_loop_start: "rows_loop P r mx xs [] = take mx (map r (filter P xs))"
  by (simp add: rows_loop_take)

lemma netstate_rows_take:
  "netstate_rows ntop ns fam mx =
   (let f = ns_f ns ! fam_idx fam; r = (\<lambda>via l. row_of ntop (nl_addr l) (nl_scope l) via)
    in take mx (map (r NET_VIA_DIRECT) (filter (\<lambda>l. nl_scope l \<noteq> NET_SCOPE_LAN \<and> nl_proven l) (nf_locals f)) @
         map (\<lambda>x. row_of ntop (nx_addr x) (nx_scope x) NET_VIA_STUN) (nf_xlats f) @
         map (r NET_VIA_DIRECT) (filter (\<lambda>l. nl_scope l = NET_SCOPE_LAN) (nf_locals f)) @
         map (r NET_VIA_SHADOW) (filter (\<lambda>l. nl_scope l \<noteq> NET_SCOPE_LAN \<and> \<not> nl_proven l) (nf_locals f))))"
  unfolding netstate_rows_def Let_def rows_loop_start rows_loop_next by simp

lemma card_view:
  assumes "list_all ev_ok es"
  shows "card (nv_kernel (view_run i es)) \<le> NETSTATE_LOCAL_MAX"
proof -
  have snap: "card (snap_set i addrs) \<le> NETSTATE_LOCAL_MAX" if "length addrs \<le> NETMON_MAX_ADDRS" for addrs
  proof -
    have "card (snap_set i addrs) \<le> card (na_addr ` set addrs)" unfolding snap_set_def by (intro card_mono) auto
    also have "\<dots> \<le> length addrs" using card_length [of "map na_addr addrs"] by simp
    finally show ?thesis using that by (simp add: NETSTATE_LOCAL_MAX_def)
  qed
  have "card (nv_kernel (foldl (view_step i) v es)) \<le> NETSTATE_LOCAL_MAX"
    if "card (nv_kernel v) \<le> NETSTATE_LOCAL_MAX" for v
    using assms that
  proof (induction es arbitrary: v)
    case (Cons e es)
    have "card (nv_kernel (view_step i v e)) \<le> NETSTATE_LOCAL_MAX"
      using Cons.prems snap by (cases e) (simp_all add: Let_def)
    then show ?case using Cons by simp
  qed simp
  then show ?thesis by (simp add: view_run_def view_init_def)
qed

lemma filter_three:
  "length (filter (\<lambda>x. P x \<and> Q x) xs) + (length (filter (\<lambda>x. \<not> P x) xs) + length (filter (\<lambda>x. P x \<and> \<not> Q x) xs)) = length xs"
  by (induction xs) auto

lemma rows_split:
  fixes ntop :: "bool \<Rightarrow> byte list \<Rightarrow> string option"
  assumes "addrs_ok af ls xs K N"
  defines "r \<equiv> (\<lambda>via l. row_of ntop (nl_addr l) (nl_scope l) via)"
  defines "rows \<equiv> map (r NET_VIA_DIRECT) (filter (\<lambda>l. nl_scope l \<noteq> NET_SCOPE_LAN \<and> nl_proven l) ls) @
    map (\<lambda>x. row_of ntop (nx_addr x) (nx_scope x) NET_VIA_STUN) xs @
    map (r NET_VIA_DIRECT) (filter (\<lambda>l. nl_scope l = NET_SCOPE_LAN) ls) @
    map (r NET_VIA_SHADOW) (filter (\<lambda>l. nl_scope l \<noteq> NET_SCOPE_LAN \<and> \<not> nl_proven l) ls)"
  shows "distinct (map nr_addr rows)"
    "(\<lambda>r. (nr_addr r, nr_via r)) ` set rows =
      (\<lambda>a. (a, if addr_scope_raw a = NET_SCOPE_LAN \<or> a \<in> N then NET_VIA_DIRECT else NET_VIA_SHADOW)) ` K \<union>
      (\<lambda>a. (a, NET_VIA_STUN)) ` (N - K)"
proof -
  have d: "distinct (map nl_addr (filter P ls))" for P using assms(1) by (simp add: addrs_ok_def distinct_map_filter)
  have inj: "inj_on nl_addr (set ls)" using assms(1) by (simp add: addrs_ok_def distinct_map)
  have apart: "nl_addr ` set (filter P ls) \<inter> nl_addr ` set (filter Q ls) = {}" if "\<And>l. P l \<Longrightarrow> \<not> Q l" for P Q
    using inj that by (auto simp: inj_on_def)
  have x: "nx_addr ` set xs \<inter> nl_addr ` set (filter P ls) = {}" for P
    using assms(1) by (auto simp: addrs_ok_def)
  have addr: "nr_addr (row_of ntop a sc via) = a" "nr_via (row_of ntop a sc via) = via" for a sc via
    by (simp_all add: row_of_def)
  let ?A = "filter (\<lambda>l. nl_scope l \<noteq> NET_SCOPE_LAN \<and> nl_proven l) ls"
  let ?B = "filter (\<lambda>l. nl_scope l = NET_SCOPE_LAN) ls"
  let ?C = "filter (\<lambda>l. nl_scope l \<noteq> NET_SCOPE_LAN \<and> \<not> nl_proven l) ls"
  have m: "map nr_addr rows = map nl_addr ?A @ map nx_addr xs @ map nl_addr ?B @ map nl_addr ?C"
    by (simp add: rows_def r_def addr)
  have "nl_addr ` set ?A \<inter> nl_addr ` set ?B = {}" "nl_addr ` set ?A \<inter> nl_addr ` set ?C = {}"
    "nl_addr ` set ?B \<inter> nl_addr ` set ?C = {}"
    by (rule apart; simp)+
  then show "distinct (map nr_addr rows)"
    unfolding m using d x addrs_ok_xlats(2) [OF assms(1)] by (simp add: Int_Un_distrib Int_commute)
  define F where
    "F = (\<lambda>l :: netstate_local. (nl_addr l, if nl_scope l = NET_SCOPE_LAN \<or> nl_proven l then NET_VIA_DIRECT else NET_VIA_SHADOW))"
  have ls: "set ls = set ?A \<union> (set ?B \<union> set ?C)" by auto
  have F: "F ` set ?A = (\<lambda>l. (nl_addr l, NET_VIA_DIRECT)) ` set ?A" "F ` set ?B = (\<lambda>l. (nl_addr l, NET_VIA_DIRECT)) ` set ?B"
    "F ` set ?C = (\<lambda>l. (nl_addr l, NET_VIA_SHADOW)) ` set ?C"
    by (rule image_cong; simp add: F_def)+
  have pair: "(\<lambda>r. (nr_addr r, nr_via r)) ` set rows = F ` set ls \<union> (\<lambda>a. (a, NET_VIA_STUN)) ` nx_addr ` set xs"
    unfolding ls image_Un F unfolding rows_def r_def set_append set_map image_Un image_image addr by (simp only: Un_ac)
  have "F ` set ls =
      (\<lambda>a. (a, if addr_scope_raw a = NET_SCOPE_LAN \<or> a \<in> N then NET_VIA_DIRECT else NET_VIA_SHADOW)) ` nl_addr ` set ls"
    unfolding image_image F_def by (intro image_cong refl) (use addrs_okD [OF assms(1)] in auto)
  moreover have "nl_addr ` set ls = K" using assms(1) by (simp add: addrs_ok_def)
  ultimately show "(\<lambda>r. (nr_addr r, nr_via r)) ` set rows =
      (\<lambda>a. (a, if addr_scope_raw a = NET_SCOPE_LAN \<or> a \<in> N then NET_VIA_DIRECT else NET_VIA_SHADOW)) ` K \<union>
      (\<lambda>a. (a, NET_VIA_STUN)) ` (N - K)"
    unfolding pair addrs_ok_xlats(1) [OF assms(1)] by simp
qed

text \<open>C14. Everything this end says about its reachability follows from five simple facts. After any
  sequence of events, the verdict on a family is UP exactly when the kernel reports an address and a round trip
  stamped with the current network completed on it, an address is held as this machine's own exactly when
  the last snapshot has it, and as a translation exactly when an exchange on this network named it
  and the kernel does not report it. Facts stamped with another network change nothing.\<close>

theorem netstate_refines:
  assumes "list_all ev_ok es" "length es + 1 < 2 ^ 32"
  shows "let ns = ns_run h t0 es; v = view_run (fam_idx family) es in
    netstate_conn ns family = (if nv_kernel v = {} then 0 else if nv_up v then NET_CONN_UP
      else if nv_routed v then NET_CONN_PENDING else 0) \<and>
    netstate_epoch ns family = of_nat (nv_epoch v) \<and>
    (\<forall>a. netstate_has_local ns family a \<longleftrightarrow> a \<in> nv_kernel v) \<and>
    (\<forall>a. netstate_has_xlat ns family a \<longleftrightarrow> a \<in> nv_named v - nv_kernel v)"
proof -
  let ?i = "fam_idx family"
  let ?f = "ns_f (ns_run h t0 es) ! ?i" and ?v = "view_run ?i es"
  have rel: "fam_rel ?i ?f ?v" by (rule rel_run [OF assms fam_idx_less])
  then have ok: "addrs_ok (fam_af ?i) (nf_locals ?f) (nf_xlats ?f) (nv_kernel ?v) (nv_named ?v)"
    and f: "nf_epoch ?f = of_nat (nv_epoch ?v)" "nf_has_addr ?f \<longleftrightarrow> nf_locals ?f \<noteq> []"
      "nf_routed ?f \<longleftrightarrow> nv_routed ?v" "nf_conn ?f = conn_of ?f"
    by (auto simp: fam_rel_def)
  have "nv_epoch ?v < 2 ^ 32"
    using view_epoch_le [of ?i view_init es] assms(2) by (simp add: view_run_def view_init_def)
  note up = rel_up_iff [OF rel this]
  have "list_ex (\<lambda>x. nx_addr x = a) (nf_xlats ?f) \<longleftrightarrow> a \<in> nx_addr ` set (nf_xlats ?f)" for a
    by (auto simp: list_ex_iff)
  then have "netstate_has_xlat (ns_run h t0 es) family a \<longleftrightarrow> a \<in> nv_named ?v - nv_kernel ?v" for a
    unfolding netstate_has_xlat_def addrs_ok_xlats(1) [OF ok] by simp
  moreover have "netstate_has_local (ns_run h t0 es) family a \<longleftrightarrow> a \<in> nv_kernel ?v" for a
    unfolding netstate_has_local_def local_idx_None [OF ok] by simp
  ultimately show ?thesis
    using f up rel_kernel [OF rel] by (simp add: netstate_conn_def netstate_epoch_def conn_of_def)
qed

definition ex_net_events :: "ns_event list" where
  "ex_net_events =
     [Ev_netmon 1 [\<lparr>na_family = NETMON_AF_INET, na_addr = [192, 168, 1, 2]\<rparr>] 0,
      Ev_src 4 2 [192, 168, 1, 2] NET_SCOPE_LAN None 1, Ev_roundtrip 4 1, Ev_reflexive 4 2 [9, 9, 9, 9]]"

theorem netstate_refines_witness:
  "let ns = ns_run True 0 ex_net_events in
   netstate_conn ns 4 = NET_CONN_PENDING \<and> netstate_has_xlat ns 4 [9, 9, 9, 9] \<and> \<not> netstate_has_local ns 4 [9, 9, 9, 9]"
proof -
  let ?v = "view_run (fam_idx 4) ex_net_events"
  have "nv_kernel ?v \<noteq> {}" "\<not> nv_up ?v" "nv_routed ?v" "[9, 9, 9, 9] \<in> nv_named ?v - nv_kernel ?v"
    by code_simp+
  moreover have "list_all ev_ok ex_net_events" "length ex_net_events + 1 < 2 ^ 32"
    by (simp_all add: ex_net_events_def NETMON_MAX_ADDRS_def)
  ultimately show ?thesis using netstate_refines [of ex_net_events True 0 4] by (simp add: Let_def)
qed

text \<open>The rows a view is shown name every address once: this machine's own as direct where they are
  on a segment or an exchange on this network has named them and as shadows otherwise, the
  translations as such. A view with less room loses the last rows only.\<close>

theorem netstate_rows_exact:
  assumes "list_all ev_ok es" "length es + 1 < 2 ^ 32"
  shows "let ns = ns_run h t0 es; v = view_run (fam_idx family) es;
      rows = netstate_rows ntop ns family (NETSTATE_LOCAL_MAX + NETSTATE_XLAT_MAX) in
    distinct (map nr_addr rows) \<and>
    (\<lambda>r. (nr_addr r, nr_via r)) ` set rows =
      (\<lambda>a. (a, if addr_scope_raw a = NET_SCOPE_LAN \<or> a \<in> nv_named v then NET_VIA_DIRECT else NET_VIA_SHADOW))
        ` nv_kernel v \<union> (\<lambda>a. (a, NET_VIA_STUN)) ` (nv_named v - nv_kernel v) \<and>
    netstate_rows ntop ns family mx = take mx rows"
proof -
  let ?i = "fam_idx family"
  let ?f = "ns_f (ns_run h t0 es) ! ?i" and ?v = "view_run ?i es"
  define r where "r = (\<lambda>via (l :: netstate_local). row_of ntop (nl_addr l) (nl_scope l) via)"
  define full where "full = map (r NET_VIA_DIRECT) (filter (\<lambda>l. nl_scope l \<noteq> NET_SCOPE_LAN \<and> nl_proven l) (nf_locals ?f)) @
    map (\<lambda>x. row_of ntop (nx_addr x) (nx_scope x) NET_VIA_STUN) (nf_xlats ?f) @
    map (r NET_VIA_DIRECT) (filter (\<lambda>l. nl_scope l = NET_SCOPE_LAN) (nf_locals ?f)) @
    map (r NET_VIA_SHADOW) (filter (\<lambda>l. nl_scope l \<noteq> NET_SCOPE_LAN \<and> \<not> nl_proven l) (nf_locals ?f))"
  have rows: "netstate_rows ntop (ns_run h t0 es) family mx = take mx full" for mx
    unfolding netstate_rows_take full_def r_def Let_def by (rule refl)
  have rel: "fam_rel ?i ?f ?v" by (rule rel_run [OF assms fam_idx_less])
  then have ok: "addrs_ok (fam_af ?i) (nf_locals ?f) (nf_xlats ?f) (nv_kernel ?v) (nv_named ?v)"
    by (simp add: fam_rel_def)
  note split = rows_split [OF ok]
  have "length (nf_locals ?f) \<le> NETSTATE_LOCAL_MAX"
    unfolding card_kernel [OF ok] by (rule card_view [OF assms(1)])
  moreover have "length (nf_xlats ?f) \<le> NETSTATE_XLAT_MAX" using ok by (simp add: addrs_ok_def)
  moreover have "length full = length (nf_locals ?f) + length (nf_xlats ?f)"
    using filter_three [of "\<lambda>l. nl_scope l \<noteq> NET_SCOPE_LAN" nl_proven "nf_locals ?f"] unfolding full_def by simp
  ultimately have all: "take (NETSTATE_LOCAL_MAX + NETSTATE_XLAT_MAX) full = full" by simp
  show ?thesis
    unfolding rows all Let_def using split unfolding full_def r_def by simp
qed

theorem netstate_rows_exact_witness:
  "let rows = netstate_rows (\<lambda>_ _. None) (ns_run True 0 ex_net_events) 4 72 in
   distinct (map nr_addr rows) \<and>
   ([9, 9, 9, 9], NET_VIA_STUN) \<in> (\<lambda>r. (nr_addr r, nr_via r)) ` set rows"
proof -
  let ?v = "view_run (fam_idx 4) ex_net_events"
  have "[9, 9, 9, 9] \<in> nv_named ?v - nv_kernel ?v" by code_simp
  moreover have "list_all ev_ok ex_net_events" "length ex_net_events + 1 < 2 ^ 32"
    by (simp_all add: ex_net_events_def NETMON_MAX_ADDRS_def)
  ultimately show ?thesis
    using netstate_rows_exact [of ex_net_events True 0 4 "\<lambda>_ _. None" 72]
    by (simp add: Let_def NETSTATE_LOCAL_MAX_def NETMON_MAX_ADDRS_def NETSTATE_XLAT_MAX_def)
qed

end
