(* ===== verification/Netstate_Anchor.thy ===== *)
theory Netstate_Anchor
  imports Netstate_View
begin

text \<open>
  The rendezvous node of a family: what it takes to be confirmed, how long a confirmed one is kept,
  and what the token says of it. A token is in other hands once it is shared, so a confirmed node is
  unseated by its own silence only, and a node is confirmed only by a run of answers.
\<close>

section \<open>The clock of a run\<close>

fun ev_time :: "ns_event \<Rightarrow> u64 option" where
  "ev_time (Ev_netmon _ _ now) = Some now"
| "ev_time (Ev_src _ _ _ _ _ now) = Some now"
| "ev_time (Ev_probe_started _ _ now) = Some now"
| "ev_time (Ev_probe_done _ _ now) = Some now"
| "ev_time (Ev_servers _ _ now) = Some now"
| "ev_time (Ev_dht_ack _ _ _ now) = Some now"
| "ev_time (Ev_anchor_seen _ now) = Some now"
| "ev_time (Ev_rdv_offered _ _ now) = Some now"
| "ev_time (Ev_rdv_vouched _ _ now) = Some now"
| "ev_time (Ev_ns_tick now) = Some now"
| "ev_time _ = None"

text \<open>The clock after an event, and a run whose clock never goes back and stays within \<open>bnd\<close>.\<close>

definition clock_step :: "u64 \<Rightarrow> ns_event \<Rightarrow> u64" where
  "clock_step c e = (case ev_time e of None \<Rightarrow> c | Some t \<Rightarrow> t)"

fun clocked :: "u64 \<Rightarrow> u64 \<Rightarrow> ns_event list \<Rightarrow> bool" where
  "clocked bnd c [] \<longleftrightarrow> c \<le> bnd"
| "clocked bnd c (e # es) \<longleftrightarrow> c \<le> clock_step c e \<and> clocked bnd (clock_step c e) es"

lemma clocked_append:
  "clocked bnd c (xs @ ys) \<longleftrightarrow> clocked bnd c xs \<and> clocked bnd (foldl clock_step c xs) ys"
proof (induction xs arbitrary: c)
  case Nil
  have "clocked bnd c ys \<Longrightarrow> c \<le> bnd" for c by (induction ys arbitrary: c) (auto intro: order_trans)
  then show ?case by auto
qed auto

lemma clocked_le: "clocked bnd c es \<Longrightarrow> c \<le> bnd"
  by (induction es arbitrary: c) (auto intro: order_trans)

section \<open>The shape of an anchor\<close>

text \<open>What holds of the anchor's flags at any time: one that is confirmed or vouched for is a node
  and not a candidate.\<close>

definition anchor_ok :: "netstate_fam \<Rightarrow> bool" where
  "anchor_ok f \<longleftrightarrow>
     (nf_anchor_confirmed f \<or> nf_anchor_vouched f \<longrightarrow> nf_anchor f \<noteq> [] \<and> \<not> nf_anchor_candidate f) \<and>
     (nf_anchor_candidate f \<longrightarrow> nf_anchor f \<noteq> [])"

definition anchor_view :: "netstate_fam \<Rightarrow> byte list \<times> bool \<times> bool \<times> bool \<times> nat \<times> nat \<times> u64 \<times> u64 \<times> netstate_cand list" where
  "anchor_view f = (nf_anchor f, nf_anchor_confirmed f, nf_anchor_vouched f, nf_anchor_candidate f,
     nf_anchor_acks f, nf_anchor_quiet f, nf_anchor_first_ms f, nf_anchor_next_ms f, nf_cands f)"

text \<open>Events that leave the anchor and the candidates alone.\<close>

fun anchor_quiet_event :: "nat \<Rightarrow> ns_event \<Rightarrow> bool" where
  "anchor_quiet_event i (Ev_netmon changed _ _) \<longleftrightarrow> changed AND fam_bit i = 0"
| "anchor_quiet_event i (Ev_dht_ack fam _ _ _) \<longleftrightarrow> fam_idx fam \<noteq> i"
| "anchor_quiet_event i (Ev_anchor_seen fam _) \<longleftrightarrow> fam_idx fam \<noteq> i"
| "anchor_quiet_event i (Ev_rdv_offered fam _ _) \<longleftrightarrow> fam_idx fam \<noteq> i"
| "anchor_quiet_event i (Ev_rdv_vouched fam _ _) \<longleftrightarrow> fam_idx fam \<noteq> i"
| "anchor_quiet_event i (Ev_set_picking fam _) \<longleftrightarrow> fam_idx fam \<noteq> i"
| "anchor_quiet_event i (Ev_ns_tick _) = False"
| "anchor_quiet_event i _ = True"

lemma local_gain_anchor: "anchor_view (snd (local_gain af ns f)) = anchor_view f"
proof (induction af ns f rule: local_gain.induct)
  case (2 af n ns f)
  have "anchor_view (snd (xlat_forget f a)) = anchor_view f" for a
    by (simp add: xlat_forget_def anchor_view_def split: option.split)
  then show ?case using 2 by (auto simp: Let_def split_beta) (simp add: anchor_view_def)
qed simp

lemma netmon_anchor:
  "changed AND fam_bit i = 0 \<Longrightarrow> anchor_view (fst (fam_on_netmon h i changed addrs now x)) = anchor_view (fst x)"
  using local_gain_anchor [of "fam_af i" addrs "(fst x)\<lparr>nf_locals := ls\<rparr>" for ls]
  by (simp add: fam_on_netmon_def local_sync_def Let_def split_beta anchor_view_def)

lemma quiet_anchor:
  "anchor_quiet_event i e \<Longrightarrow> anchor_view (fst (fam_step h i e x)) = anchor_view (fst x)"
  by (cases e) (simp_all add: netmon_anchor, simp_all add: anchor_view_def fam_on_src_def
      fam_on_probe_started_def fam_on_probe_deferred_def fam_on_probe_done_def fam_on_servers_def
      fam_on_roundtrip_def fam_on_reflexive_def fam_on_dht_concluded_def xlat_note_def Let_def split_beta
      split: option.split)

lemma moved_anchor:
  assumes "changed AND fam_bit i \<noteq> 0"
  shows "anchor_view (fst (fam_on_netmon h i changed addrs now x)) =
    (nf_anchor (fst x), nf_anchor_confirmed (fst x), nf_anchor_vouched (fst x), nf_anchor_candidate (fst x),
     0, 0, 0, now, [])"
proof -
  have moved: "anchor_view (fst (fam_moved h same was_up now y)) =
      (nf_anchor (fst y), nf_anchor_confirmed (fst y), nf_anchor_vouched (fst y), nf_anchor_candidate (fst y),
       0, 0, 0, now, [])" for same was_up y
    by (simp add: fam_moved_def Let_def anchor_view_def proofs_demote_def)
  show ?thesis
    using assms local_gain_anchor [of "fam_af i" addrs "(fst x)\<lparr>nf_locals := ls\<rparr>" for ls]
    by (simp add: fam_on_netmon_def local_sync_def Let_def split_beta moved)
      (simp add: anchor_view_def)
qed

text \<open>What an answer from the DHT does to the anchor.\<close>

lemma dht_ack_anchor:
  fixes x :: famx and h :: bool and e :: u32 and node :: "byte list" and now :: u64
  defines "f \<equiv> fst x"
  defines "f' \<equiv> fst (fam_on_dht_ack h e node now x)"
  obtains (stale) "anchor_view f' = anchor_view f"
  | (own) g where "e = nf_epoch f" "nf_anchor f = node" "node \<noteq> []"
      "anchor_view g = anchor_view (anchor_answered now (f\<lparr>nf_anchor_next_ms := now + NETSTATE_RDV_MS\<rparr>))"
      "f' = fst (anchor_confirm h now (g, 0))"
  | (ignored) "anchor_view f' = anchor_view (f\<lparr>nf_anchor_next_ms := now + NETSTATE_RDV_MS\<rparr>)"
  | (ripe) cs where "e = nf_epoch f" "nf_anchor f \<noteq> node" "node \<noteq> []" "\<not> nf_anchor_confirmed f"
      "cand_ack node now (nf_cands f) = (True, cs)"
      "anchor_view f' = (node, True, False, False, NETSTATE_ANCHOR_QUALIFY, 0, now, now + NETSTATE_RDV_MS, [])"
  | (kept) cs where "e = nf_epoch f" "nf_anchor f \<noteq> []" "nf_anchor f \<noteq> node"
      "cs = nf_cands f \<or> cs = snd (cand_ack node now (nf_cands f))"
      "anchor_view f' = anchor_view (f\<lparr>nf_anchor_next_ms := now + NETSTATE_RDV_MS, nf_cands := cs\<rparr>)"
  | (taken) cs where "e = nf_epoch f" "nf_anchor f \<noteq> node" "node \<noteq> []"
      "nf_anchor f = [] \<or> NETSTATE_ANCHOR_GONE \<le> nf_anchor_quiet f"
      "cs = nf_cands f \<or> cs = snd (cand_ack node now (nf_cands f))"
      "anchor_view f' = (node, False, False, True, 1, 0, now, now + NETSTATE_RDV_MS, cs)"
proof (cases "e = nf_epoch f \<and> node \<noteq> [] \<and> \<not> NETSTATE_SA_MAX < length node")
  case False
  then have "anchor_view f' = anchor_view f"
    by (auto simp: f'_def f_def fam_on_dht_ack_def Let_def anchor_view_def)
  then show ?thesis by (rule stale)
next
  case cur: True
  define y where "y = (let x = sync_conn ((fst x)\<lparr>nf_up_epoch := e\<rparr>, snd x)
    in if \<not> nf_dht_acked (fst x) then facts_moved h ((fst x)\<lparr>nf_dht_acked := True\<rparr>, snd x) else x)"
  define g where "g = (fst y)\<lparr>nf_anchor_next_ms := now + NETSTATE_RDV_MS\<rparr>"
  have g: "anchor_view g = anchor_view (f\<lparr>nf_anchor_next_ms := now + NETSTATE_RDV_MS\<rparr>)"
    by (simp add: g_def y_def f_def Let_def anchor_view_def)
  have gf: "nf_anchor g = nf_anchor f" "nf_anchor_confirmed g = nf_anchor_confirmed f"
    "nf_anchor_quiet g = nf_anchor_quiet f" "nf_cands g = nf_cands f"
    using g by (simp_all add: anchor_view_def)
  have run: "fam_on_dht_ack h e node now x =
      (if nf_anchor g \<noteq> [] \<and> nf_anchor g = node then anchor_confirm h now (anchor_answered now g, snd y)
       else if \<not> nf_picking g then (g, snd y)
       else (let (ripe, f) = (if nf_anchor_confirmed g then (False, g)
                              else (let (r, cs) = cand_ack node now (nf_cands g) in (r, g\<lparr>nf_cands := cs\<rparr>)))
             in if ripe
                then (let x = anchor_set node now False NETSTATE_ANCHOR_QUALIFY (f, snd y)
                      in facts_moved h (raise_act NSA_EMIT_RDV
                           ((fst x)\<lparr>nf_anchor_confirmed := True, nf_cands := []\<rparr>, snd x)))
                else if nf_anchor f \<noteq> [] \<and> nf_anchor_quiet f < NETSTATE_ANCHOR_GONE then (f, snd y)
                else anchor_set node now True 1 (f, snd y)))"
    using cur unfolding fam_on_dht_ack_def f_def y_def g_def by (simp only: Let_def if_False simp_thms)
  show ?thesis
  proof (cases "nf_anchor f = node")
    case True
    then have "f' = fst (anchor_confirm h now (anchor_answered now g, 0))"
      using run cur gf by (simp add: f'_def anchor_confirm_def Let_def)
    moreover have "anchor_view (anchor_answered now g) =
        anchor_view (anchor_answered now (f\<lparr>nf_anchor_next_ms := now + NETSTATE_RDV_MS\<rparr>))"
      using g by (simp add: anchor_view_def anchor_answered_def Let_def)
    ultimately show ?thesis using own True cur by blast
  next
    case other: False
    define cs where "cs = (if nf_anchor_confirmed f then nf_cands f else snd (cand_ack node now (nf_cands f)))"
    have cs: "cs = nf_cands f \<or> cs = snd (cand_ack node now (nf_cands f))" by (simp add: cs_def)
    have set: "anchor_view (fst (anchor_set node now c a (g\<lparr>nf_cands := cs\<rparr>, p))) =
        (node, False, False, c, a, 0, if a \<noteq> 0 then now else 0, now + NETSTATE_RDV_MS, cs)" for c a cs p
      using other cur g by (simp add: anchor_set_def Let_def anchor_view_def)
    consider (np) "\<not> nf_picking g"
      | (rp) "nf_picking g" "\<not> nf_anchor_confirmed f" "fst (cand_ack node now (nf_cands f))"
      | (nr) "nf_picking g" "nf_anchor_confirmed f \<or> \<not> fst (cand_ack node now (nf_cands f))" by blast
    then show ?thesis
    proof cases
      case np
      then have "f' = g" using run other gf by (simp add: f'_def)
      then show ?thesis using ignored g by simp
    next
      case rp
      then have "anchor_view f' = (node, True, False, False, NETSTATE_ANCHOR_QUALIFY, 0, now, now + NETSTATE_RDV_MS, [])"
        using run other gf set [of False NETSTATE_ANCHOR_QUALIFY] by (simp add: f'_def split_beta Let_def anchor_view_def NETSTATE_ANCHOR_QUALIFY_def)
      then show ?thesis using ripe [of "snd (cand_ack node now (nf_cands f))"] rp other cur by (simp add: prod_eq_iff)
    next
      case nr
      have eta: "g\<lparr>nf_cands := nf_cands f\<rparr> = g" using gf by simp
      have r: "fam_on_dht_ack h e node now x =
          (if nf_anchor f \<noteq> [] \<and> nf_anchor_quiet f < NETSTATE_ANCHOR_GONE then (g\<lparr>nf_cands := cs\<rparr>, snd y)
           else anchor_set node now True 1 (g\<lparr>nf_cands := cs\<rparr>, snd y))"
        using run nr other gf by (auto simp: split_beta Let_def cs_def eta)
      show ?thesis
      proof (cases "nf_anchor f \<noteq> [] \<and> nf_anchor_quiet f < NETSTATE_ANCHOR_GONE")
        case True
        then show ?thesis using kept [of cs] r cs other cur g by (simp add: f'_def anchor_view_def)
      next
        case False
        then show ?thesis using taken [of cs] r cs other cur set [of True 1 cs] by (auto simp: f'_def)
      qed
    qed
  qed
qed

lemmas anchor_ok_defs = anchor_ok_def anchor_view_def

lemma anchor_ok_view: "anchor_view f = anchor_view g \<Longrightarrow> anchor_ok f \<longleftrightarrow> anchor_ok g"
  by (simp add: anchor_ok_defs)

lemma anchor_ok_ops:
  "anchor_ok (fst x) \<Longrightarrow> anchor_ok (fst (anchor_set node now c a x))"
  "anchor_ok (fst x) \<Longrightarrow> anchor_ok (fst (anchor_confirm h now x))"
  "anchor_ok f \<Longrightarrow> anchor_ok (anchor_answered now f)"
  "anchor_ok (fst x) \<Longrightarrow> nf_anchor_candidate (fst x) \<Longrightarrow> anchor_ok (fst (cand_drop h x))"
  by (auto simp: anchor_ok_def anchor_set_def anchor_confirm_def anchor_answered_def cand_drop_def Let_def)

lemma anchor_ok_tick: "anchor_ok (fst x) \<Longrightarrow> anchor_ok (fst (fam_tick h now x))"
proof -
  have "anchor_ok (fst y) \<Longrightarrow> anchor_ok (fst (tick_src now y))" "anchor_ok (fst y) \<Longrightarrow> anchor_ok (fst (tick_probe now y))" for y
    by (simp_all add: tick_src_def tick_probe_def anchor_ok_def)
  moreover have "anchor_ok (fst y) \<Longrightarrow> anchor_ok (fst (tick_ceiling h now y))" for y
    by (simp add: tick_ceiling_def anchor_ok_ops)
  moreover have "anchor_ok (fst y) \<Longrightarrow> anchor_ok (fst (tick_quiet h now y))" for y
    using anchor_ok_ops(4) [of "(f, snd y)" h for f]
    by (auto simp: tick_quiet_def Let_def) (auto simp: anchor_ok_def)
  ultimately show "anchor_ok (fst x) \<Longrightarrow> ?thesis" by (simp add: fam_tick_def anchor_ok_ops)
qed

lemma anchor_ok_step: "anchor_ok (fst x) \<Longrightarrow> anchor_ok (fst (fam_step h i e x))"
proof (cases "anchor_quiet_event i e")
  case True
  then show "anchor_ok (fst x) \<Longrightarrow> ?thesis" using anchor_ok_view [OF quiet_anchor] by blast
next
  case False
  assume ok: "anchor_ok (fst x)"
  have ack: "anchor_ok (fst (fam_on_dht_ack h ep node now x))" for ep node now
  proof (cases rule: dht_ack_anchor [where e = ep and node = node and now = now and x = x and h = h])
    case (own g)
    then have "anchor_ok g" using anchor_ok_view [OF own(4)] ok anchor_ok_ops(3) by (simp add: anchor_ok_def)
    then show ?thesis using own anchor_ok_ops(2) [of "(g, 0)"] by simp
  qed (use ok in \<open>auto simp: anchor_ok_defs\<close>)
  show ?thesis
    using False ok ack anchor_ok_tick anchor_ok_ops moved_anchor [of _ i h _ _ x]
    by (cases e) (auto simp: fam_on_anchor_seen_def fam_on_rdv_vouched_def fam_set_picking_def Let_def anchor_ok_defs)
qed

section \<open>A confirmed node is kept\<close>

lemma next_time: "unat c + 2000 < 2 ^ 64 \<Longrightarrow> unat (c + NETSTATE_RDV_MS) = unat c + 2000"
  by (simp add: NETSTATE_RDV_MS_def unat_word_ariths)

text \<open>The next round is never more than one gap ahead of the clock.\<close>

definition next_ok :: "u64 \<Rightarrow> netstate_fam \<Rightarrow> bool" where
  "next_ok c f \<longleftrightarrow> unat (nf_anchor_next_ms f) \<le> unat c + 2000"

lemma confirm_fields [simp]:
  "nf_anchor (fst (anchor_confirm h now x)) = nf_anchor (fst x)"
  "nf_anchor_next_ms (fst (anchor_confirm h now x)) = nf_anchor_next_ms (fst x)"
  "nf_anchor_quiet (fst (anchor_confirm h now x)) = nf_anchor_quiet (fst x)"
  "nf_cands (fst (anchor_confirm h now x)) = nf_cands (fst x)"
  "nf_anchor_acks (fst (anchor_confirm h now x)) = nf_anchor_acks (fst x)"
  "nf_anchor_first_ms (fst (anchor_confirm h now x)) = nf_anchor_first_ms (fst x)"
  by (simp_all add: anchor_confirm_def Let_def)

lemma answered_fields [simp]:
  "nf_anchor (anchor_answered now f) = nf_anchor f"
  "nf_anchor_next_ms (anchor_answered now f) = nf_anchor_next_ms f"
  "nf_anchor_quiet (anchor_answered now f) = 0"
  "nf_cands (anchor_answered now f) = nf_cands f"
  "nf_anchor_confirmed (anchor_answered now f) = nf_anchor_confirmed f"
  by (simp_all add: anchor_answered_def Let_def)

lemma tick_start: "anchor_view (fst (tick_probe now (tick_src now x))) = anchor_view (fst x)"
  by (simp add: tick_probe_def tick_src_def anchor_view_def)

lemma tick_quiet_next: "nf_anchor_next_ms (fst (tick_quiet h now x)) \<in> {nf_anchor_next_ms (fst x), now + NETSTATE_RDV_MS}"
  by (simp add: tick_quiet_def cand_drop_def Let_def)

lemma tick_next:
  "nf_anchor_next_ms (fst (fam_tick h now x)) \<in> {nf_anchor_next_ms (fst x), now + NETSTATE_RDV_MS}"
proof -
  let ?y = "tick_probe now (tick_src now x)"
  have "nf_anchor_next_ms (fst ?y) = nf_anchor_next_ms (fst x)" using tick_start [of now x] by (simp add: anchor_view_def)
  moreover have "nf_anchor_next_ms (fst (tick_ceiling h now z)) = nf_anchor_next_ms (fst z)" for z
    by (simp add: tick_ceiling_def cand_drop_def)
  ultimately show ?thesis using tick_quiet_next [of h now ?y] by (simp add: fam_tick_def)
qed

lemma next_ack:
  "nf_anchor_next_ms (fst (fam_on_dht_ack h ep node now x)) \<in> {nf_anchor_next_ms (fst x), now + NETSTATE_RDV_MS}"
  by (cases rule: dht_ack_anchor [where e = ep and node = node and now = now and x = x and h = h])
    (auto simp: anchor_view_def)

lemma next_step:
  "nf_anchor_next_ms (fst (fam_step h i e x)) \<in>
     {nf_anchor_next_ms (fst x), the (ev_time e), the (ev_time e) + NETSTATE_RDV_MS} \<and>
   (ev_time e = None \<longrightarrow> nf_anchor_next_ms (fst (fam_step h i e x)) = nf_anchor_next_ms (fst x))"
proof (cases "anchor_quiet_event i e")
  case True
  then show ?thesis using quiet_anchor [OF True, of h x] by (simp add: anchor_view_def)
next
  case False
  then show ?thesis
  proof (cases e)
    case (Ev_ns_tick now)
    then show ?thesis using tick_next [of h now x] by auto
  next
    case (Ev_dht_ack fam ep node now)
    then show ?thesis using next_ack [of h ep node now x] by auto
  qed (use moved_anchor [of _ i h _ _ x] in \<open>auto simp: anchor_view_def fam_on_anchor_seen_def anchor_set_def
      fam_on_rdv_vouched_def fam_set_picking_def Let_def\<close>)
qed

lemma next_ok_step:
  assumes "next_ok c (fst x)" "c \<le> clock_step c e" "unat (clock_step c e) + 2000 < 2 ^ 64"
  shows "next_ok (clock_step c e) (fst (fam_step h i e x))"
proof -
  have "unat c \<le> unat (clock_step c e)" using assms(2) by (simp add: word_le_nat_alt)
  then show ?thesis
    using next_step [of h i e x] assms next_time [of "clock_step c e"]
    by (cases "ev_time e") (auto simp: next_ok_def clock_step_def)
qed

lemma tick_quiet_confirmed:
  assumes "nf_anchor_confirmed (fst x)" "\<not> nf_anchor_candidate (fst x)"
  shows "let f = fst x; f' = fst (tick_quiet h now x) in
    nf_anchor f' = nf_anchor f \<and> nf_anchor_confirmed f' \<and> \<not> nf_anchor_candidate f' \<and>
    (nf_anchor_next_ms f' = nf_anchor_next_ms f \<and> nf_anchor_quiet f' = nf_anchor_quiet f \<or>
     nf_anchor_next_ms f \<le> now \<and> nf_anchor_next_ms f' = now + NETSTATE_RDV_MS \<and>
     nf_anchor_quiet f' \<le> nf_anchor_quiet f + 1)"
  using assms by (simp add: tick_quiet_def Let_def)

lemma tick_confirmed:
  assumes "nf_anchor_confirmed (fst x)" "anchor_ok (fst x)"
  shows "let f = fst x; f' = fst (fam_tick h now x) in
    nf_anchor f' = nf_anchor f \<and> nf_anchor_confirmed f' \<and>
    (nf_anchor_next_ms f' = nf_anchor_next_ms f \<and> nf_anchor_quiet f' = nf_anchor_quiet f \<or>
     nf_anchor_next_ms f \<le> now \<and> nf_anchor_next_ms f' = now + NETSTATE_RDV_MS \<and>
     nf_anchor_quiet f' \<le> nf_anchor_quiet f + 1)"
proof -
  let ?y = "tick_probe now (tick_src now x)"
  have y: "anchor_view (fst ?y) = anchor_view (fst x)" by (rule tick_start)
  then have c: "nf_anchor_confirmed (fst ?y)" "\<not> nf_anchor_candidate (fst ?y)"
    using assms by (auto simp: anchor_view_def anchor_ok_def)
  note q = tick_quiet_confirmed [OF c, of h now]
  then have "anchor_confirm h now (tick_quiet h now ?y) = tick_quiet h now ?y"
    by (simp add: anchor_confirm_def Let_def)
  moreover have "tick_ceiling h now (tick_quiet h now ?y) = tick_quiet h now ?y"
    using q by (simp add: tick_ceiling_def Let_def)
  ultimately have "fam_tick h now x = tick_quiet h now ?y" by (simp add: fam_tick_def)
  then show ?thesis using q y by (simp add: anchor_view_def Let_def)
qed

text \<open>The silence of a confirmed node \<open>A\<close> that answered for itself at \<open>t\<close>.\<close>

definition silence :: "byte list \<Rightarrow> nat \<Rightarrow> u64 \<Rightarrow> netstate_fam \<Rightarrow> bool" where
  "silence A t c f \<longleftrightarrow> nf_anchor f = A \<and> nf_anchor_confirmed f \<and> anchor_ok f \<and> t \<le> unat c \<and> next_ok c f \<and>
     (0 < nf_anchor_quiet f \<longrightarrow> t + 2000 * nf_anchor_quiet f \<le> unat (nf_anchor_next_ms f))"

fun peer_names :: "nat \<Rightarrow> ns_event \<Rightarrow> bool" where
  "peer_names i (Ev_rdv_offered fam _ _) \<longleftrightarrow> fam_idx fam = i"
| "peer_names i (Ev_rdv_vouched fam _ _) \<longleftrightarrow> fam_idx fam = i"
| "peer_names i _ \<longleftrightarrow> False"

lemma silence_ack:
  fixes x :: famx and h :: bool and ep :: u32 and node :: "byte list" and now :: u64
  assumes "silence A t c (fst x)" "c \<le> now" "unat now < t + 178000" "t + 180000 < 2 ^ 64"
  defines "f' \<equiv> fst (fam_on_dht_ack h ep node now x)"
  shows "nf_anchor f' = A \<and> nf_anchor_confirmed f' \<and>
    (nf_anchor_quiet f' = 0 \<or> nf_anchor_quiet f' = nf_anchor_quiet (fst x) \<and>
       unat (nf_anchor_next_ms (fst x)) \<le> unat (nf_anchor_next_ms f'))"
proof -
  have nx: "unat (now + NETSTATE_RDV_MS) = unat now + 2000" using assms(3,4) by (intro next_time) simp
  have cn: "unat c \<le> unat now" using assms(2) by (simp add: word_le_nat_alt)
  have later: "unat (nf_anchor_next_ms (fst x)) \<le> unat (now + NETSTATE_RDV_MS)"
    using assms(1) nx cn by (simp add: silence_def next_ok_def)
  have q: "nf_anchor_quiet (fst x) < NETSTATE_ANCHOR_GONE"
    using assms(1) nx cn later assms(3)
    by (cases "nf_anchor_quiet (fst x)") (auto simp: silence_def NETSTATE_ANCHOR_GONE_def)
  have A: "nf_anchor (fst x) = A" "nf_anchor_confirmed (fst x)" "A \<noteq> []"
    using assms(1) by (auto simp: silence_def anchor_ok_def)
  show ?thesis
  proof (cases rule: dht_ack_anchor [where e = ep and node = node and now = now and x = x and h = h])
    case (own g)
    then have "nf_anchor g = A" "nf_anchor_confirmed g" "nf_anchor_quiet g = 0"
      using A by (simp_all add: anchor_view_def)
    then show ?thesis using own by (simp add: f'_def anchor_confirm_def)
  qed (use A q later in \<open>auto simp: f'_def anchor_view_def\<close>)
qed

lemma silence_step:
  assumes "silence A t c (fst x)" "c \<le> clock_step c e" "unat (clock_step c e) < t + 178000" "t + 180000 < 2 ^ 64"
    and "\<not> peer_names i e"
  shows "silence A t (clock_step c e) (fst (fam_step h i e x))"
proof -
  let ?f = "fst x" and ?f' = "fst (fam_step h i e x)"
  have t: "t \<le> unat (clock_step c e)" and cn: "unat c \<le> unat (clock_step c e)"
    using assms(1,2) by (auto simp: silence_def word_le_nat_alt)
  have ok: "anchor_ok ?f'" "next_ok (clock_step c e) ?f'"
    using assms anchor_ok_step next_ok_step by (auto simp: silence_def)
  have "nf_anchor ?f' = A \<and> nf_anchor_confirmed ?f' \<and> (nf_anchor_quiet ?f' = 0 \<or>
      nf_anchor_quiet ?f' = nf_anchor_quiet ?f \<and> unat (nf_anchor_next_ms ?f) \<le> unat (nf_anchor_next_ms ?f') \<or>
      nf_anchor_quiet ?f' \<le> nf_anchor_quiet ?f + 1 \<and> unat (nf_anchor_next_ms ?f) \<le> unat (clock_step c e) \<and>
      unat (nf_anchor_next_ms ?f') = unat (clock_step c e) + 2000)"
  proof (cases "anchor_quiet_event i e")
    case True
    then show ?thesis using quiet_anchor [OF True, of h x] assms(1) by (simp add: anchor_view_def silence_def)
  next
    case False
    note moved = moved_anchor [of _ i h _ _ x] and tick = tick_confirmed [of x h]
      and ack = silence_ack [OF assms(1) _ _ assms(4), of _ h]
    have nx: "unat (clock_step c e + NETSTATE_RDV_MS) = unat (clock_step c e) + 2000"
      using assms(3,4) by (intro next_time) simp
    show ?thesis
    proof (cases e)
      case (Ev_ns_tick now)
      then show ?thesis
        using tick [of now] assms(1) nx by (auto simp: silence_def clock_step_def word_le_nat_alt Let_def)
    next
      case (Ev_dht_ack fam ep node now)
      then show ?thesis using ack [of now ep node] False assms(2,3) by (auto simp: clock_step_def)
    qed (use False assms(1,5) moved in \<open>auto simp: silence_def anchor_view_def fam_on_anchor_seen_def
        fam_set_picking_def Let_def\<close>)
  qed
  then show ?thesis
    using ok t assms(1) by (auto simp: silence_def)
qed

abbreviation fam_run :: "bool \<Rightarrow> nat \<Rightarrow> famx \<Rightarrow> ns_event list \<Rightarrow> famx" where
  "fam_run h i x es \<equiv> foldl (\<lambda>x e. fam_step h i e x) x es"

lemma silence_run:
  assumes "clocked bnd c es" "silence A t c (fst x)" "unat bnd < t + 178000" "t + 180000 < 2 ^ 64"
    and "list_all (\<lambda>e. \<not> peer_names i e) es"
  shows "silence A t (foldl clock_step c es) (fst (fam_run h i x es))"
  using assms
proof (induction es arbitrary: c x)
  case (Cons e es)
  have "clock_step c e \<le> bnd" using Cons.prems(1) clocked_le by auto
  then have "unat (clock_step c e) < t + 178000" using Cons.prems(3) by (simp add: word_le_nat_alt)
  then show ?case
    using Cons.IH [of "clock_step c e" "fam_step h i e x"] silence_step [of A t c x e i h] Cons.prems by simp
qed simp

lemma anchor_run:
  assumes "clocked bnd t0 es" "unat bnd + 2000 < 2 ^ 64"
  shows "anchor_ok (fst (fam_run h i (fam_init h t0, 0) es)) \<and>
    next_ok (foldl clock_step t0 es) (fst (fam_run h i (fam_init h t0, 0) es))"
proof -
  have "anchor_ok (fst (fam_run h i x es)) \<and> next_ok (foldl clock_step c es) (fst (fam_run h i x es))"
    if "clocked bnd c es" "anchor_ok (fst x)" "next_ok c (fst x)" for c x
    using that
  proof (induction es arbitrary: c x)
    case (Cons e es)
    have "clock_step c e \<le> bnd" using Cons.prems(1) clocked_le by auto
    then have "unat (clock_step c e) + 2000 < 2 ^ 64" using assms(2) by (simp add: word_le_nat_alt)
    then show ?case
      using Cons.IH [of "clock_step c e" "fam_step h i e x"] anchor_ok_step [of x h i e] next_ok_step [of c x e h i] Cons.prems
      by simp
  qed simp
  moreover have "anchor_ok (fam_init h t0)" "next_ok t0 (fam_init h t0)"
    by (simp_all add: anchor_ok_def next_ok_def fam_init_def)
  ultimately show ?thesis using assms(1) by simp
qed

text \<open>C15. A confirmed rendezvous outlives everything but its own silence: once it has answered for itself
  at time \<open>t\<close>, it is still the confirmed one after any sequence of events within the next 178 seconds (89
  rounds), network moves, losses and any number of other nodes' answers included, as long
  as the peer names no other.\<close>

theorem confirmed_anchor_kept:
  assumes "clocked bnd t0 (es1 @ Ev_anchor_seen family t # es2)"
    and "unat bnd < unat t + 178000" "unat t + 180000 < 2 ^ 64"
    and "fst (netstate_anchor_state (ns_run h t0 es1) family)" "netstate_anchor (ns_run h t0 es1) family = Some (A, b)"
    and "list_all (\<lambda>e. \<not> peer_names (fam_idx family) e) es2"
  shows "let ns = ns_run h t0 (es1 @ Ev_anchor_seen family t # es2) in
    fst (netstate_anchor_state ns family) \<and> map_option fst (netstate_anchor ns family) = Some A"
proof -
  let ?i = "fam_idx family"
  let ?x = "fam_run h ?i (fam_init h t0, 0) es1"
  let ?y = "fam_step h ?i (Ev_anchor_seen family t) ?x"
  note run = ns_run_fam [of ?i, OF fam_idx_less]
  have clk: "clocked bnd t0 es1" "foldl clock_step t0 es1 \<le> t" "clocked bnd t es2"
    using assms(1) by (auto simp: clocked_append clock_step_def)
  have ok: "anchor_ok (fst ?x)" "next_ok (foldl clock_step t0 es1) (fst ?x)"
    using anchor_run [OF clk(1), of h ?i] assms(2,3) by auto
  have f: "nf_anchor (fst ?x) = A" "nf_anchor_confirmed (fst ?x)" "A \<noteq> []"
    using assms(4,5) run [of h t0 es1]
    by (auto simp: netstate_anchor_state_def netstate_anchor_def Let_def split: if_splits)
  have "next_ok t (fst ?x)" using ok(2) clk(2) by (simp add: next_ok_def word_le_nat_alt)
  then have "silence A (unat t) t (fst ?y)"
    using f ok(1) anchor_ok_ops(3) by (simp add: silence_def fam_on_anchor_seen_def next_ok_def)
  from silence_run [OF clk(3) this assms(2,3,6), of h]
  have "nf_anchor (fst (fam_run h ?i ?y es2)) = A" "nf_anchor_confirmed (fst (fam_run h ?i ?y es2))"
    by (auto simp: silence_def)
  moreover have "ns_f (ns_run h t0 (es1 @ Ev_anchor_seen family t # es2)) ! ?i = fst (fam_run h ?i ?y es2)"
    unfolding run by simp
  ultimately show ?thesis using f(3) by (simp add: netstate_anchor_state_def netstate_anchor_def Let_def)
qed

section \<open>A node is confirmed by its answers\<close>

text \<open>The answers a run brings from the nodes of family \<open>i\<close>, with their times.\<close>

fun ans_of :: "nat \<Rightarrow> ns_event \<Rightarrow> netstate_fam \<Rightarrow> (byte list \<times> u64) list" where
  "ans_of i (Ev_dht_ack fam ep node now) f = (if fam_idx fam = i \<and> ep = nf_epoch f then [(node, now)] else [])"
| "ans_of i (Ev_anchor_seen fam now) f = (if fam_idx fam = i \<and> nf_anchor f \<noteq> [] then [(nf_anchor f, now)] else [])"
| "ans_of i _ f = []"

fun answers :: "bool \<Rightarrow> nat \<Rightarrow> famx \<Rightarrow> ns_event list \<Rightarrow> (byte list \<times> u64) list" where
  "answers h i x [] = []"
| "answers h i x (e # es) = ans_of i e (fst x) @ answers h i (fam_step h i e x) es"

definition count_from :: "(byte list \<times> u64) list \<Rightarrow> byte list \<Rightarrow> u64 \<Rightarrow> nat" where
  "count_from log A t = length (filter (\<lambda>(n, s). n = A \<and> t \<le> s) log)"

lemma count_from_append [simp]: "count_from (xs @ ys) A t = count_from xs A t + count_from ys A t"
  by (simp add: count_from_def)

lemma count_from_one [simp]: "count_from [(n, s)] A t = (if n = A \<and> t \<le> s then 1 else 0)" "count_from [] A t = 0"
  by (simp_all add: count_from_def)

definition cand_earned :: "(byte list \<times> u64) list \<Rightarrow> netstate_cand \<Rightarrow> bool" where
  "cand_earned log k \<longleftrightarrow> (nc_addr k, nc_first_ms k) \<in> set log \<and> nc_acks k \<le> count_from log (nc_addr k) (nc_first_ms k)"

definition proven_by :: "(byte list \<times> u64) list \<Rightarrow> byte list \<Rightarrow> u64 \<Rightarrow> bool" where
  "proven_by log A c \<longleftrightarrow> (\<exists>s. (A, s) \<in> set log \<and> NETSTATE_ANCHOR_QUALIFY \<le> count_from log A s \<and>
     unat s + unat NETSTATE_ANCHOR_PROVE_MS \<le> unat c)"

definition earned :: "(byte list \<times> u64) list \<Rightarrow> u64 \<Rightarrow> netstate_fam \<Rightarrow> bool" where
  "earned log c f \<longleftrightarrow> (\<forall>(n, s) \<in> set log. s \<le> c) \<and> (\<forall>k \<in> set (nf_cands f). cand_earned log k) \<and>
     (nf_anchor_confirmed f \<longrightarrow> proven_by log (nf_anchor f) c) \<and>
     (\<not> nf_anchor_confirmed f \<longrightarrow> 0 < nf_anchor_acks f \<longrightarrow>
        (nf_anchor f, nf_anchor_first_ms f) \<in> set log \<and>
        nf_anchor_acks f \<le> count_from log (nf_anchor f) (nf_anchor_first_ms f))"

lemma earned_view: "anchor_view f = anchor_view g \<Longrightarrow> earned log c f \<longleftrightarrow> earned log c g"
  by (simp add: earned_def anchor_view_def)

lemma proven_by_more: "proven_by log A c \<Longrightarrow> c \<le> c' \<Longrightarrow> proven_by (log @ l) A c'"
  by (auto simp: proven_by_def word_le_nat_alt intro: trans_le_add1 order_trans)

lemma cand_earned_more: "cand_earned log k \<Longrightarrow> cand_earned (log @ l) k"
  by (auto simp: cand_earned_def)

lemma earned_more:
  "earned log c f \<Longrightarrow> c \<le> c' \<Longrightarrow> \<forall>(n, s) \<in> set l. s \<le> c' \<Longrightarrow> earned (log @ l) c' f"
  by (auto simp: earned_def proven_by_more cand_earned_more intro: order_trans)

lemma long_enough:
  "s \<le> c \<Longrightarrow> p \<le> c - s \<Longrightarrow> unat s + unat p \<le> unat (c :: u64)"
  by (simp add: word_le_nat_alt unat_sub_if_size)

text \<open>A candidate that answers, and whether its run is ripe.\<close>

lemma cand_answered_earned:
  assumes "cand_earned log k \<or> nc_acks k = 0 \<and> nc_first_ms k = now" "nc_first_ms k \<le> now"
  shows "cand_earned (log @ [(nc_addr k, now)]) (cand_answered now k)"
  using assms by (auto simp: cand_earned_def cand_answered_def Let_def)

lemma cand_worst_less: "cs \<noteq> [] \<Longrightarrow> cand_worst cs < length cs"
proof -
  have "foldl (\<lambda>w i. if cand_weaker (cs ! i) (cs ! w) then i else w) w is \<in> insert w (set is)" for w "is"
    by (induction "is" arbitrary: w) fastforce+
  then have "cand_worst cs \<in> insert 0 (set [1..<length cs])" unfolding cand_worst_def .
  then show "cs \<noteq> [] \<Longrightarrow> ?thesis" by auto
qed

lemma cand_ack_earned:
  assumes "\<forall>k \<in> set cs. cand_earned log k" "\<forall>(n, s) \<in> set log. s \<le> now" "cand_ack node now cs = (r, cs')"
  shows "(\<forall>k \<in> set cs'. cand_earned (log @ [(node, now)]) k) \<and>
    (r \<longrightarrow> proven_by (log @ [(node, now)]) node now)"
proof -
  let ?log = "log @ [(node, now)]"
  have old: "\<forall>k \<in> set cs. cand_earned ?log k" using assms(1) cand_earned_more by blast
  have put: "(\<forall>k \<in> set (ds[i := cand_answered now (ds ! i)]). cand_earned ?log k) \<and>
      (NETSTATE_ANCHOR_QUALIFY \<le> nc_acks (cand_answered now (ds ! i)) \<and>
       NETSTATE_ANCHOR_PROVE_MS \<le> now - nc_first_ms (cand_answered now (ds ! i)) \<longrightarrow> proven_by ?log node now)"
    if "i < length ds" "set ds \<subseteq> insert (ds ! i) (set cs)" "nc_addr (ds ! i) = node"
      "cand_earned log (ds ! i) \<or> nc_acks (ds ! i) = 0 \<and> nc_first_ms (ds ! i) = now"
      "\<forall>j < length ds. j \<noteq> i \<longrightarrow> ds ! j \<in> set cs" for ds i
  proof -
    let ?k = "ds ! i"
    have le: "nc_first_ms ?k \<le> now" using that(4) assms(2) by (auto simp: cand_earned_def)
    have k: "cand_earned ?log (cand_answered now ?k)"
      using cand_answered_earned [OF that(4) le] that(3) by simp
    have same: "nc_first_ms (cand_answered now ?k) = nc_first_ms ?k" "nc_addr (cand_answered now ?k) = node"
      using that(3) by (simp_all add: cand_answered_def Let_def)
    have "\<forall>q \<in> set (ds[i := cand_answered now ?k]). cand_earned ?log q"
    proof
      fix q assume "q \<in> set (ds[i := cand_answered now ?k])"
      then obtain j where j: "j < length ds" "q = ds[i := cand_answered now ?k] ! j" by (auto simp: in_set_conv_nth)
      show "cand_earned ?log q"
      proof (cases "j = i")
        case False
        then have "q \<in> set cs" using that(5) j by simp
        then show ?thesis using old by blast
      qed (use k j in simp)
    qed
    moreover have "proven_by ?log node now"
      if q: "NETSTATE_ANCHOR_QUALIFY \<le> nc_acks (cand_answered now ?k)"
        "NETSTATE_ANCHOR_PROVE_MS \<le> now - nc_first_ms (cand_answered now ?k)"
    proof -
      have "unat (nc_first_ms ?k) + unat NETSTATE_ANCHOR_PROVE_MS \<le> unat now"
        using q(2) same by (intro long_enough [OF le]) simp
      then show ?thesis
        using k q(1) same unfolding proven_by_def cand_earned_def by (intro exI [of _ "nc_first_ms ?k"]) auto
    qed
    ultimately show ?thesis by blast
  qed
  show ?thesis
  proof (cases "find_index (\<lambda>c. nc_addr c = node) cs")
    case (Some i)
    note k = find_index_SomeD [OF Some]
    show ?thesis
      using put [of i cs] k assms(1,3) Some by (auto simp: cand_ack_def Let_def)
  next
    case None
    note none = None
    show ?thesis
    proof (cases "length cs < NETSTATE_CANDS_MAX")
      case True
      have "cs' = (cs @ [cand_new node now])[length cs := cand_answered now ((cs @ [cand_new node now]) ! length cs)]"
        "r \<longleftrightarrow> NETSTATE_ANCHOR_QUALIFY \<le> nc_acks (cand_answered now ((cs @ [cand_new node now]) ! length cs)) \<and>
          NETSTATE_ANCHOR_PROVE_MS \<le> now - nc_first_ms (cand_answered now ((cs @ [cand_new node now]) ! length cs))"
        using assms(3) True unfolding cand_ack_def none by (simp_all add: Let_def)
      then show ?thesis
        using put [of "length cs" "cs @ [cand_new node now]"] by (auto simp: cand_new_def nth_append)
    next
      case full: False
      let ?w = "cand_worst cs" and ?ds = "cs[cand_worst cs := cand_new node now]"
      show ?thesis
      proof (cases "NETSTATE_ANCHOR_QUALIFY \<le> nc_acks (cs ! ?w)")
        case True
        then show ?thesis using assms(3) full old unfolding cand_ack_def none by (simp add: Let_def)
      next
        case False
        have w: "?w < length cs" using full by (intro cand_worst_less) (auto simp: NETSTATE_CANDS_MAX_def)
        have "cs' = ?ds[?w := cand_answered now (?ds ! ?w)]"
          "r \<longleftrightarrow> NETSTATE_ANCHOR_QUALIFY \<le> nc_acks (cand_answered now (?ds ! ?w)) \<and>
            NETSTATE_ANCHOR_PROVE_MS \<le> now - nc_first_ms (cand_answered now (?ds ! ?w))"
          using assms(3) full False unfolding cand_ack_def none by (simp_all add: Let_def)
        moreover have "set ?ds \<subseteq> insert (cand_new node now) (set cs)" by (rule set_update_subset_insert)
        ultimately show ?thesis
          using put [of ?w ?ds] w by (auto simp: cand_new_def)
      qed
    qed
  qed
qed

lemma confirm_earned:
  assumes "earned log now (fst x)"
  shows "earned log now (fst (anchor_confirm h now x))"
proof (cases "nf_anchor (fst x) = [] \<or> nf_anchor_confirmed (fst x) \<or> nf_anchor_acks (fst x) < NETSTATE_ANCHOR_QUALIFY \<or>
    now - nf_anchor_first_ms (fst x) < NETSTATE_ANCHOR_PROVE_MS")
  case True
  then have "anchor_confirm h now x = x" by (auto simp: anchor_confirm_def Let_def)
  then show ?thesis using assms by simp
next
  case False
  let ?f = "fst x"
  have acks: "0 < nf_anchor_acks ?f" "NETSTATE_ANCHOR_QUALIFY \<le> nf_anchor_acks ?f"
    using False by (auto simp: NETSTATE_ANCHOR_QUALIFY_def)
  then have log: "(nf_anchor ?f, nf_anchor_first_ms ?f) \<in> set log"
    "nf_anchor_acks ?f \<le> count_from log (nf_anchor ?f) (nf_anchor_first_ms ?f)"
    using assms False by (auto simp: earned_def)
  have "nf_anchor_first_ms ?f \<le> now" using assms log(1) by (auto simp: earned_def)
  then have "unat (nf_anchor_first_ms ?f) + unat NETSTATE_ANCHOR_PROVE_MS \<le> unat now"
    using False by (intro long_enough) auto
  then have "proven_by log (nf_anchor ?f) now" using log acks unfolding proven_by_def by (meson order_trans)
  then show ?thesis
    using assms False by (auto simp: earned_def anchor_confirm_def Let_def)
qed

lemma answered_earned:
  assumes "earned log c f" "c \<le> now" "nf_anchor f = A"
  shows "earned (log @ [(A, now)]) now (anchor_answered now f)"
proof -
  have more: "earned (log @ [(A, now)]) now f" using assms by (intro earned_more) auto
  have first: "0 < nf_anchor_acks f \<Longrightarrow> \<not> nf_anchor_confirmed f \<Longrightarrow> nf_anchor_first_ms f \<le> now"
    using assms(1,2) by (auto simp: earned_def intro: order_trans)
  show ?thesis
    using more first assms(1,3) by (auto simp: earned_def anchor_answered_def Let_def)
qed

lemma set_earned:
  "earned log c (fst x) \<Longrightarrow> earned log c (fst (anchor_set node now d 0 x))"
  "earned log c (fst x) \<Longrightarrow> earned log c (fst (cand_drop h x))"
  by (auto simp: earned_def anchor_set_def cand_drop_def Let_def)

lemma tick_earned:
  assumes "earned log now (fst x)"
  shows "earned log now (fst (fam_tick h now x))"
proof -
  let ?y = "tick_probe now (tick_src now x)"
  have y: "earned log now (fst ?y)" using assms earned_view [OF tick_start] by blast
  have drop: "earned log now f \<Longrightarrow> earned log now (fst (cand_drop h (f, p)))" for f p
    using set_earned(2) [of log now "(f, p)"] by simp
  have "earned log now (fst (tick_quiet h now ?y))"
    using y by (simp add: tick_quiet_def Let_def drop) (simp add: earned_def cand_drop_def)
  then have "earned log now (fst (anchor_confirm h now (tick_quiet h now ?y)))" by (rule confirm_earned)
  then show ?thesis by (simp add: fam_tick_def tick_ceiling_def set_earned)
qed

lemma earned_next [simp]: "earned log c (f\<lparr>nf_anchor_next_ms := t\<rparr>) = earned log c f"
  by (simp add: earned_def)

lemma earned_cands:
  "earned log c f \<Longrightarrow> \<forall>k \<in> set cs. cand_earned log k \<Longrightarrow> earned log c (f\<lparr>nf_anchor_next_ms := t, nf_cands := cs\<rparr>)"
  by (simp add: earned_def)

lemma ack_earned:
  assumes "earned log c (fst x)" "c \<le> now"
  shows "earned (log @ (if ep = nf_epoch (fst x) then [(node, now)] else [])) now (fst (fam_on_dht_ack h ep node now x))"
proof -
  let ?f = "fst x" and ?log = "log @ [(node, now)]"
  have le: "\<forall>(n, s) \<in> set log. s \<le> now" using assms by (auto simp: earned_def intro: order_trans)
  have cands: "\<forall>k \<in> set (nf_cands ?f). cand_earned log k" using assms by (simp add: earned_def)
  have more: "earned (log @ l) now ?f" if "l = [] \<or> l = [(node, now)]" for l
    using earned_more [OF assms, of l] that by auto
  have ack: "(\<forall>k \<in> set (snd (cand_ack node now (nf_cands ?f))). cand_earned ?log k)"
    using cand_ack_earned [OF cands le] by (metis prod.collapse)
  show ?thesis
  proof (cases rule: dht_ack_anchor [where e = ep and node = node and now = now and x = x and h = h])
    case stale
    then show ?thesis using earned_view [OF stale] more by auto
  next
    case (own g)
    have "earned ?log now (anchor_answered now (?f\<lparr>nf_anchor_next_ms := now + NETSTATE_RDV_MS\<rparr>))"
      using assms own by (intro answered_earned [of log c]) simp_all
    then have "earned ?log now g" using earned_view [OF own(4)] by blast
    then show ?thesis using own confirm_earned [of ?log now "(g, 0)" h] by simp
  next
    case ignored
    have "earned (log @ (if ep = nf_epoch ?f then [(node, now)] else [])) now ?f" using more by auto
    then have "earned (log @ (if ep = nf_epoch ?f then [(node, now)] else [])) now
        (?f\<lparr>nf_anchor_next_ms := now + NETSTATE_RDV_MS\<rparr>)"
      by simp
    then show ?thesis by (rule iffD2 [OF earned_view [OF ignored]])
  next
    case (ripe cs)
    then show ?thesis
      using cand_ack_earned [OF cands le ripe(5)] le by (auto simp: earned_def anchor_view_def)
  next
    case (kept cs)
    have "\<forall>k \<in> set cs. cand_earned ?log k" using kept(4) ack cands cand_earned_more by blast
    moreover have "earned ?log now ?f" using more by simp
    ultimately have "earned ?log now (?f\<lparr>nf_anchor_next_ms := now + NETSTATE_RDV_MS, nf_cands := cs\<rparr>)"
      by (intro earned_cands)
    then show ?thesis using iffD2 [OF earned_view [OF kept(5)]] kept(1) by simp
  next
    case (taken cs)
    have "\<forall>k \<in> set cs. cand_earned ?log k" using taken(5) ack cands cand_earned_more by blast
    then show ?thesis using taken le by (auto simp: earned_def anchor_view_def)
  qed
qed

lemma earned_step:
  assumes "earned log c (fst x)" "c \<le> clock_step c e"
  shows "earned (log @ ans_of i e (fst x)) (clock_step c e) (fst (fam_step h i e x))"
proof -
  have later: "earned log (clock_step c e) (fst x)" using earned_more [OF assms, of "[]"] by simp
  show ?thesis
  proof (cases "anchor_quiet_event i e")
    case True
    then have "ans_of i e (fst x) = []" by (cases e) auto
    then show ?thesis using later earned_view [OF quiet_anchor [OF True]] by simp
  next
    case False
    then show ?thesis
    proof (cases e)
      case (Ev_ns_tick now)
      then show ?thesis using tick_earned [of log now x h] later by (simp add: clock_step_def)
    next
      case (Ev_dht_ack fam ep node now)
      then show ?thesis
        using ack_earned [OF assms(1), of now ep node h] assms(2) False by (auto simp: clock_step_def)
    next
      case (Ev_anchor_seen fam now)
      then show ?thesis
        using answered_earned [OF assms(1) _ refl, of now] later assms(2) False
        by (auto simp: clock_step_def fam_on_anchor_seen_def)
    next
      case (Ev_netmon changed addrs now)
      then have "changed AND fam_bit i \<noteq> 0" using False by simp
      then show ?thesis
        using moved_anchor [of changed i h addrs now x] later Ev_netmon by (auto simp: earned_def anchor_view_def)
    qed (use later set_earned(1) [OF later] in \<open>auto simp: fam_on_rdv_vouched_def fam_set_picking_def Let_def,
        simp_all add: earned_def\<close>)
  qed
qed

lemma earned_run:
  assumes "clocked bnd c es" "earned log c (fst x)"
  shows "earned (log @ answers h i x es) (foldl clock_step c es) (fst (fam_run h i x es))"
  using assms
proof (induction es arbitrary: c log x)
  case (Cons e es)
  have "earned (log @ ans_of i e (fst x)) (clock_step c e) (fst (fam_step h i e x))"
    using Cons.prems by (intro earned_step) auto
  then show ?case using Cons.IH [of "clock_step c e" "log @ ans_of i e (fst x)" "fam_step h i e x"] Cons.prems by simp
qed simp

text \<open>A node is confirmed only by its own answers: whenever the anchor of a family is confirmed, the
  run so far holds at least four answers of that very node, the first of them at least ten seconds
  before the present, each either a DHT reply stamped with the network it came in on or the node
  answering for itself.\<close>

theorem anchor_confirmed_earned:
  assumes "clocked bnd t0 es"
    and "fst (netstate_anchor_state (ns_run h t0 es) family)" "netstate_anchor (ns_run h t0 es) family = Some (A, b)"
  shows "let log = answers h (fam_idx family) (fam_init h t0, 0) es in
    \<exists>s. (A, s) \<in> set log \<and> 4 \<le> length (filter (\<lambda>(n, t). n = A \<and> s \<le> t) log) \<and>
      unat s + 10000 \<le> unat (foldl clock_step t0 es)"
proof -
  let ?x = "fam_run h (fam_idx family) (fam_init h t0, 0) es"
  have "earned [] t0 (fam_init h t0)" by (simp add: earned_def fam_init_def)
  then have "earned (answers h (fam_idx family) (fam_init h t0, 0) es) (foldl clock_step t0 es) (fst ?x)"
    using earned_run [OF assms(1), of "[]" "(fam_init h t0, 0)"] by simp
  moreover have "nf_anchor_confirmed (fst ?x)" "nf_anchor (fst ?x) = A"
    using assms(2,3) ns_run_fam [of "fam_idx family" h t0 es]
    by (auto simp: netstate_anchor_state_def netstate_anchor_def Let_def split: if_splits)
  ultimately show ?thesis
    by (auto simp: earned_def proven_by_def count_from_def NETSTATE_ANCHOR_QUALIFY_def NETSTATE_ANCHOR_PROVE_MS_def)
qed

text \<open>What the token says: a family is advertised through a rendezvous exactly when the machine has an
  address on it and the node held was vouched for by the peer or is confirmed and the family up;
  there is then a node to name. The machine's own endpoint is never advertised.\<close>

theorem token_names_held_node:
  assumes "list_all ev_ok es" "length es + 1 < 2 ^ 32"
  shows "let ns = ns_run h t0 es; adv = tokgen_decide (netstate_facts ns family);
      (proven, vouched, blind) = netstate_anchor_state ns family in
    (adv = TOK_ADVERT_RENDEZVOUS \<longleftrightarrow> (\<exists>a. netstate_has_local ns family a) \<and>
       (proven \<and> netstate_conn ns family = NET_CONN_UP \<or> vouched)) \<and>
    (adv = TOK_ADVERT_RENDEZVOUS \<longrightarrow> netstate_anchor ns family \<noteq> None) \<and> adv \<noteq> TOK_ADVERT_ENDPOINT"
proof -
  let ?i = "fam_idx family"
  let ?f = "ns_f (ns_run h t0 es) ! ?i"
  have rel: "fam_rel ?i ?f (view_run ?i es)" by (rule rel_run [OF assms fam_idx_less])
  have has: "nf_has_addr ?f \<longleftrightarrow> nf_locals ?f \<noteq> []" using rel by (simp add: fam_rel_def)
  have "local_idx ?f a = None \<longleftrightarrow> (\<forall>l \<in> set (nf_locals ?f). nl_addr l \<noteq> a)" for a
    by (simp add: local_idx_def)
  then have loc: "(\<exists>a. netstate_has_local (ns_run h t0 es) family a) \<longleftrightarrow> nf_has_addr ?f"
    unfolding netstate_has_local_def has by (metis list.set_intros(1) list.set(1) empty_iff neq_Nil_conv)
  have "anchor_ok (fst (fam_run h ?i x es))" if "anchor_ok (fst x)" for x
    using that by (induction es arbitrary: x) (simp_all add: anchor_ok_step)
  moreover have "anchor_ok (fam_init h t0)" by (simp add: anchor_ok_def fam_init_def)
  ultimately have "anchor_ok ?f" using ns_run_fam [of ?i h t0 es] by simp
  then show ?thesis
    unfolding Let_def loc
    by (auto simp: tokgen_decide_def netstate_facts_def netstate_anchor_state_def netstate_anchor_def
        netstate_conn_def anchor_ok_def Let_def)
qed

definition ex_node :: "byte list" where "ex_node = [1, 2, 3, 4, 5, 6]"
definition ex_node2 :: "byte list" where "ex_node2 = [6, 5, 4, 3, 2, 1]"

definition ex_up :: "ns_event list" where
  "ex_up = [Ev_netmon 1 [\<lparr>na_family = NETMON_AF_INET, na_addr = [192, 168, 1, 2]\<rparr>] 0]"

text \<open>Evaluation of one family on concrete events.\<close>

lemmas net_eval = fam_init_def fam_on_netmon_def local_sync_def snap_has_def local_idx_def xlat_forget_def
  addr_scope_raw_def fam_moved_def proofs_demote_def conn_of_def sync_conn_def raise_act_def facts_moved_def
  fam_on_dht_ack_def anchor_confirm_def anchor_answered_def anchor_set_def cand_ack_def cand_new_def
  cand_answered_def fam_tick_def tick_src_def tick_probe_def tick_quiet_def tick_ceiling_def cand_drop_def
  src_gap_def probe_gap_def fam_on_rdv_vouched_def fam_on_anchor_seen_def fam_af_def fam_bit_def fam_idx_def
  ex_up_def ex_node_def ex_node2_def NETSTATE_LOCAL_MAX_def NETMON_MAX_ADDRS_def NETMON_CH_V4_def
  NETSTATE_SA_MAX_def NETSTATE_ANCHOR_QUALIFY_def NETSTATE_ANCHOR_PROVE_MS_def NETSTATE_RDV_MS_def
  NETSTATE_CANDS_MAX_def NETSTATE_ANCHOR_GONE_def NETSTATE_ANCHOR_QUIET_def NETSTATE_ANCHOR_TRY_MS_def
  NET_CONN_UP_def NET_CONN_PENDING_def Let_def

lemma ns_run_v4: "ns_f (ns_run h t0 es) ! 0 = fst (fam_run h 0 (fam_init h t0, 0) es)"
  by (simp add: ns_run_fam)

definition ex_silent :: "ns_event list" where
  "ex_silent = ex_up @ map (\<lambda>t. Ev_dht_ack 4 2 ex_node t) [0, 1000, 2000, 3000] @
     [Ev_ns_tick 10000]"

lemma ex_silent_run:
  "nf_anchor (fst (fam_run True 0 (fam_init True 0, 0) ex_silent)) = ex_node"
  "nf_anchor_confirmed (fst (fam_run True 0 (fam_init True 0, 0) ex_silent))"
  "nf_conn (fst (fam_run True 0 (fam_init True 0, 0) ex_silent)) = NET_CONN_UP"
  "nf_has_addr (fst (fam_run True 0 (fam_init True 0, 0) ex_silent))"
  "answers True 0 (fam_init True 0, 0) ex_silent = map (Pair ex_node) [0, 1000, 2000, 3000]"
  by (simp_all add: net_eval ex_silent_def)

text \<open>A node that answers four times in three seconds and then falls silent is confirmed all the same, by
  the clock alone: at ten seconds it has been silent for seven.\<close>

theorem silent_node_confirmed:
  "netstate_anchor (ns_run True 0 ex_silent) 4 = Some (ex_node, True) \<and>
   map snd (answers True 0 (fam_init True 0, 0) ex_silent) = [0, 1000, 2000, 3000] \<and>
   foldl clock_step 0 ex_silent = 10000 \<and>
   tokgen_decide (netstate_facts (ns_run True 0 ex_silent) 4) = TOK_ADVERT_RENDEZVOUS"
  using ex_silent_run
  by (simp add: netstate_anchor_def netstate_facts_def tokgen_decide_def anchor_proven_def ns_run_v4 fam_idx_def Let_def)
    (simp add: ex_silent_def ex_up_def clock_step_def ex_node_def)

theorem anchor_confirmed_earned_witness:
  "\<exists>s. (ex_node, s) \<in> set (answers True 0 (fam_init True 0, 0) ex_silent) \<and>
    unat s + 10000 \<le> unat (foldl clock_step 0 ex_silent)"
proof -
  have "clocked 10000 0 ex_silent" by (simp add: ex_silent_def ex_up_def clock_step_def)
  moreover have "fst (netstate_anchor_state (ns_run True 0 ex_silent) 4)"
    "netstate_anchor (ns_run True 0 ex_silent) 4 = Some (ex_node, True)"
    using ex_silent_run
    by (simp_all add: netstate_anchor_state_def netstate_anchor_def anchor_proven_def ns_run_v4 fam_idx_def Let_def)
      (simp add: ex_node_def)
  ultimately show ?thesis
    using anchor_confirmed_earned [of 10000 0 ex_silent True 4 ex_node True] by (auto simp: Let_def fam_idx_def)
qed

theorem confirmed_anchor_kept_witness:
  "map_option fst (netstate_anchor (ns_run True 0 (ex_silent @ Ev_anchor_seen 4 11000 #
     [Ev_netmon 1 [] 12000, Ev_dht_ack 4 3 ex_node2 60000, Ev_ns_tick 90000])) 4) = Some ex_node"
proof -
  have "clocked 90000 0 (ex_silent @ Ev_anchor_seen 4 11000 #
      [Ev_netmon 1 [] 12000, Ev_dht_ack 4 3 ex_node2 60000, Ev_ns_tick 90000])"
    by (simp add: ex_silent_def ex_up_def clock_step_def)
  moreover have "fst (netstate_anchor_state (ns_run True 0 ex_silent) 4)"
    "netstate_anchor (ns_run True 0 ex_silent) 4 = Some (ex_node, True)"
    using ex_silent_run
    by (simp_all add: netstate_anchor_state_def netstate_anchor_def anchor_proven_def ns_run_v4 fam_idx_def Let_def)
      (simp add: ex_node_def)
  ultimately show ?thesis
    using confirmed_anchor_kept [of 90000 0 ex_silent 4 11000
        "[Ev_netmon 1 [] 12000, Ev_dht_ack 4 3 ex_node2 60000, Ev_ns_tick 90000]" True ex_node True]
    by (simp add: Let_def)
qed

theorem token_names_held_node_witness:
  "netstate_anchor (ns_run True 0 ex_silent) 4 \<noteq> None \<and> (\<exists>a. netstate_has_local (ns_run True 0 ex_silent) 4 a)"
proof -
  have "list_all ev_ok ex_silent" "length ex_silent + 1 < 2 ^ 32"
    by (simp_all add: ex_silent_def ex_up_def NETMON_MAX_ADDRS_def)
  moreover have "tokgen_decide (netstate_facts (ns_run True 0 ex_silent) 4) = TOK_ADVERT_RENDEZVOUS"
    using ex_silent_run by (simp add: netstate_facts_def tokgen_decide_def ns_run_v4 fam_idx_def Let_def)
  ultimately show ?thesis
    using token_names_held_node [of ex_silent True 0 4] by (auto simp: Let_def split: prod.splits)
qed

definition ex_displaced :: "ns_event list" where
  "ex_displaced = ex_up @ Ev_rdv_vouched 4 ex_node 0 #
     concat (map (\<lambda>t. [Ev_dht_ack 4 2 ex_node2 t, Ev_anchor_seen 4 t]) [0, 5000, 9000])"

lemma ex_displaced_run:
  "nf_anchor (fst (fam_run True 0 (fam_init True 0, 0) ex_displaced)) = ex_node"
  "nf_anchor_vouched (fst (fam_run True 0 (fam_init True 0, 0) ex_displaced))"
  "nf_anchor_quiet (fst (fam_run True 0 (fam_init True 0, 0) ex_displaced)) = 0"
  "nf_has_addr (fst (fam_run True 0 (fam_init True 0, 0) ex_displaced))"
  "nf_anchor (fst (fam_run True 0 (fam_init True 0, 0) (ex_displaced @ [Ev_dht_ack 4 2 ex_node2 10000]))) = ex_node2"
  by (simp_all add: net_eval ex_displaced_def)

text \<open>A node the peer vouched for, named by the token, is displaced by another that answers for ten
  seconds, although it has itself answered all along.\<close>

theorem vouched_node_displaced:
  "tokgen_decide (netstate_facts (ns_run True 0 ex_displaced) 4) = TOK_ADVERT_RENDEZVOUS \<and>
   map_option fst (netstate_anchor (ns_run True 0 ex_displaced) 4) = Some ex_node \<and>
   nf_anchor_quiet (ns_f (ns_run True 0 ex_displaced) ! 0) = 0 \<and>
   map_option fst (netstate_anchor (ns_run True 0 (ex_displaced @ [Ev_dht_ack 4 2 ex_node2 10000])) 4) = Some ex_node2"
  using ex_displaced_run
  by (simp add: netstate_anchor_def netstate_facts_def tokgen_decide_def ns_run_v4 fam_idx_def Let_def)
    (simp add: ex_node_def ex_node2_def)

end
