(* ===== verification/Base64.thy ===== *)
theory Base64
  imports Prelude
begin

text \<open>
  base64.c: the standard alphabet with padding, which the clipboard escape sequence wants, and
  the url-safe alphabet without, in which a secret becomes a password. A destination buffer that
  is too small is \<open>None\<close>; otherwise the text written, whose terminating NUL is the one byte
  more the size check asks for.
\<close>

section \<open>The code\<close>

definition b64url_alphabet :: string where
  "b64url_alphabet = ''ABCDEFGHIJKLMNOPQRSTUVWXYZabcdefghijklmnopqrstuvwxyz0123456789-_''"

definition b64_alphabet :: string where
  "b64_alphabet = ''ABCDEFGHIJKLMNOPQRSTUVWXYZabcdefghijklmnopqrstuvwxyz0123456789+/''"

text \<open>The loop over whole groups of three and the code for the one or two bytes that are left.\<close>

fun b64_groups :: "byte list \<Rightarrow> string" where
  "b64_groups (a # b # c # r) =
     (let v = push_bit 16 (ucast a) OR push_bit 8 (ucast b) OR ucast c :: u32
      in [b64_alphabet ! unat (drop_bit 18 v), b64_alphabet ! unat (drop_bit 12 v AND 63),
          b64_alphabet ! unat (drop_bit 6 v AND 63), b64_alphabet ! unat (v AND 63)] @ b64_groups r)"
| "b64_groups [a, b] =
     (let v = push_bit 16 (ucast a) OR push_bit 8 (ucast b) :: u32
      in [b64_alphabet ! unat (drop_bit 18 v), b64_alphabet ! unat (drop_bit 12 v AND 63),
          b64_alphabet ! unat (drop_bit 6 v AND 63), CHR ''=''])"
| "b64_groups [a] =
     (let v = push_bit 16 (ucast a) :: u32
      in [b64_alphabet ! unat (drop_bit 18 v), b64_alphabet ! unat (drop_bit 12 v AND 63),
          CHR ''='', CHR ''=''])"
| "b64_groups [] = []"

definition base64_encode :: "byte list \<Rightarrow> nat \<Rightarrow> string option" where
  "base64_encode src dest_len =
     (let need = (length src + 2) div 3 * 4 + 1
      in if dest_len < need then None else Some (b64_groups src))"

fun b64url_groups :: "byte list \<Rightarrow> string" where
  "b64url_groups (a # b # c # r) =
     (let v = push_bit 16 (ucast a) OR push_bit 8 (ucast b) OR ucast c :: u32
      in [b64url_alphabet ! unat (drop_bit 18 v), b64url_alphabet ! unat (drop_bit 12 v AND 63),
          b64url_alphabet ! unat (drop_bit 6 v AND 63), b64url_alphabet ! unat (v AND 63)] @
         b64url_groups r)"
| "b64url_groups [a, b] =
     (let v = push_bit 16 (ucast a) OR push_bit 8 (ucast b) :: u32
      in [b64url_alphabet ! unat (drop_bit 18 v), b64url_alphabet ! unat (drop_bit 12 v AND 63),
          b64url_alphabet ! unat (drop_bit 6 v AND 63)])"
| "b64url_groups [a] =
     (let v = push_bit 16 (ucast a) :: u32
      in [b64url_alphabet ! unat (drop_bit 18 v), b64url_alphabet ! unat (drop_bit 12 v AND 63)])"
| "b64url_groups [] = []"

definition base64url_encode :: "byte list \<Rightarrow> nat \<Rightarrow> string option" where
  "base64url_encode src dest_len =
     (let r = length src mod 3;
          need = length src div 3 * 4 + (if r \<noteq> 0 then r + 1 else 0) + 1
      in if dest_len < need then None else Some (b64url_groups src))"

definition b64url_value :: "int \<Rightarrow> int" where
  "b64url_value c =
     (if 65 \<le> c \<and> c \<le> 90 then c - 65
      else if 97 \<le> c \<and> c \<le> 122 then c - 97 + 26
      else if 48 \<le> c \<and> c \<le> 57 then c - 48 + 52
      else if c = 45 then 62
      else if c = 95 then 63
      else - 1)"

text \<open>The loop of \<open>base64url_decode\<close> with its accumulator, the number of bits waiting in it and
  the bytes written so far; at the end the bits left over must be zero.\<close>

fun b64url_loop :: "nat \<Rightarrow> string \<Rightarrow> u32 \<Rightarrow> nat \<Rightarrow> byte list \<Rightarrow> byte list option" where
  "b64url_loop dest_len [] v bits out =
     (if v AND (push_bit bits 1 - 1) \<noteq> 0 then None else Some out)"
| "b64url_loop dest_len (c # src) v bits out =
     (let d = b64url_value (of_char c)
      in if d < 0 then None
         else (let v = push_bit 6 v OR word_of_int d; bits = bits + 6
               in if bits < 8 then b64url_loop dest_len src v bits out
                  else (let bits = bits - 8
                        in if dest_len \<le> length out then None
                           else b64url_loop dest_len src v bits (out @ [ucast (drop_bit bits v)]))))"

definition base64url_decode :: "string \<Rightarrow> nat \<Rightarrow> byte list option" where
  "base64url_decode src dest_len =
     (if length src mod 4 = 1 then None else b64url_loop dest_len src 0 0 [])"

section \<open>Digits\<close>

lemma alphabet_values:
  "list_all (\<lambda>i. b64url_value (of_char (b64url_alphabet ! i)) = int i) [0..<64]"
  by code_simp

lemma alphabet_chars:
  "list_all (\<lambda>n. let d = b64url_value (int n) in
     d < 64 \<and> (d < 0 \<or> b64url_alphabet ! nat d = char_of n)) [0..<256]"
  by code_simp

lemma alphabet_iff:
  assumes "w < 64"
  shows "b64url_alphabet ! w = c \<longleftrightarrow> b64url_value (of_char c) = int w"
proof
  assume "b64url_alphabet ! w = c"
  then show "b64url_value (of_char c) = int w"
    using alphabet_values assms by (auto simp: list_all_iff)
next
  have "of_char c < (256 :: nat)" by (simp add: of_char_def)
  then have "(of_char c :: nat) \<in> set [0..<256]" by simp
  then have *: "let d = b64url_value (int (of_char c)) in
      d < 64 \<and> (d < 0 \<or> b64url_alphabet ! nat d = char_of (of_char c :: nat))"
    using alphabet_chars unfolding list_all_iff by blast
  assume "b64url_value (of_char c) = int w"
  with * show "b64url_alphabet ! w = c" by (simp add: Let_def of_nat_of_char)
qed

lemma value_range: "b64url_value c < 64"
  by (simp add: b64url_value_def)

text \<open>The digit a character stands for, as the decoder shifts it in.\<close>

definition sextet :: "char \<Rightarrow> u32" where
  "sextet c = word_of_int (b64url_value (of_char c))"

lemma unat_sextet:
  "0 \<le> b64url_value (of_char c) \<Longrightarrow> int (unat (sextet c)) = b64url_value (of_char c)"
  using value_range [of "of_char c"] by (simp add: sextet_def unsigned_of_int take_bit_int_eq_self)

definition six :: "u32 \<Rightarrow> bool" where
  "six d = (\<forall>n. bit d n \<longrightarrow> n < 6)"

lemma six_sextet: "0 \<le> b64url_value (of_char c) \<Longrightarrow> six (sextet c)"
proof -
  assume "0 \<le> b64url_value (of_char c)"
  then have "int (unat (sextet c)) < int 64"
    using unat_sextet [of c] value_range [of "of_char c"] by simp
  then have "unat (sextet c) < 2 ^ 6" unfolding of_nat_less_iff by simp
  then have "take_bit 6 (sextet c) = sextet c"
    by (simp add: word_unat_eq_iff take_bit_nat_eq_self unsigned_take_bit_eq)
  then show ?thesis unfolding six_def by (metis bit_take_bit_iff)
qed

text \<open>A written character is the one at hand exactly when its digit is.\<close>

lemma written_iff:
  assumes "unat w < 64"
  shows "b64url_alphabet ! unat w = c \<longleftrightarrow> 0 \<le> b64url_value (of_char c) \<and> sextet c = w"
proof -
  have "b64url_alphabet ! unat w = c \<longleftrightarrow> b64url_value (of_char c) = int (unat w)"
    by (rule alphabet_iff [OF assms])
  also have "\<dots> \<longleftrightarrow> 0 \<le> b64url_value (of_char c) \<and> sextet c = w"
    using unat_sextet [of c] by (auto simp: sextet_def)
  finally show ?thesis .
qed

lemma and_63_less: "unat (w AND 63 :: u32) < 64"
proof -
  have "w AND 63 = take_bit 6 w" by (simp add: take_bit_eq_mask mask_eq_exp_minus_1)
  then show ?thesis using take_bit_nat_less_exp [of 6 "unat w"] by (simp add: unsigned_take_bit_eq)
qed

section \<open>Groups as bits\<close>

lemma byte_eq_iff:
  "a = (b :: byte) \<longleftrightarrow> (bit a 0 = bit b 0 \<and> bit a 1 = bit b 1 \<and> bit a 2 = bit b 2 \<and>
     bit a 3 = bit b 3 \<and> bit a 4 = bit b 4 \<and> bit a 5 = bit b 5 \<and> bit a 6 = bit b 6 \<and>
     bit a 7 = bit b 7)" (is "_ \<longleftrightarrow> ?bits")
proof
  assume bits: ?bits
  show "a = b"
  proof (rule bit_word_eqI)
    fix n assume "n < LENGTH(8)"
    then have "n = 0 \<or> n = 1 \<or> n = 2 \<or> n = 3 \<or> n = 4 \<or> n = 5 \<or> n = 6 \<or> n = 7" by simp linarith
    with bits show "bit a n = bit b n" by blast
  qed
qed simp

lemma byte_hi: "8 \<le> n \<Longrightarrow> \<not> bit (a :: byte) n"
  by (auto dest: bit_imp_le_length)

lemma sextet_eq_iff:
  assumes "six a" "six b"
  shows "a = (b :: u32) \<longleftrightarrow> (bit a 0 = bit b 0 \<and> bit a 1 = bit b 1 \<and> bit a 2 = bit b 2 \<and>
     bit a 3 = bit b 3 \<and> bit a 4 = bit b 4 \<and> bit a 5 = bit b 5)" (is "_ \<longleftrightarrow> ?bits")
proof
  assume bits: ?bits
  show "a = b"
  proof (rule bit_word_eqI)
    fix n :: nat
    have "n < 6 \<Longrightarrow> n = 0 \<or> n = 1 \<or> n = 2 \<or> n = 3 \<or> n = 4 \<or> n = 5" by linarith
    with bits assms [unfolded six_def, rule_format, of n] show "bit a n = bit b n" by blast
  qed
qed simp

lemma six_mask: "six (x AND 63)"
proof -
  have "(63 :: u32) = mask 6" by (simp add: mask_eq_exp_minus_1)
  then show ?thesis by (simp only: six_def bit_and_iff bit_mask_iff) simp
qed

text \<open>The digits of a group and the bytes the decoder makes of them, whatever the accumulator
  still holds from before: each says the same twenty-four bits.\<close>

lemma group3_iff:
  fixes v d0 d1 d2 d3 :: u32 and a b c :: byte
  defines "w \<equiv> push_bit 16 (ucast a) OR push_bit 8 (ucast b) OR ucast c"
    and "v2 \<equiv> push_bit 6 (push_bit 6 v OR d0) OR d1"
  assumes d: "six d0" "six d1" "six d2" "six d3"
  shows "d0 = drop_bit 18 w \<and> d1 = drop_bit 12 w AND 63 \<and> d2 = drop_bit 6 w AND 63 \<and> d3 = w AND 63
    \<longleftrightarrow> a = ucast (drop_bit 4 v2) \<and> b = ucast (drop_bit 2 (push_bit 6 v2 OR d2)) \<and>
        c = ucast (push_bit 6 (push_bit 6 v2 OR d2) OR d3)"
proof -
  have hi: "\<not> bit d0 n" "\<not> bit d1 n" "\<not> bit d2 n" "\<not> bit d3 n" if "6 \<le> n" for n
    using that d unfolding six_def by (metis not_less)+
  have mask: "(63 :: u32) = mask 6" by (simp add: mask_eq_exp_minus_1)
  have w: "six (drop_bit 18 w)"
    by (auto simp: six_def w_def bit_simps dest: bit_imp_le_length)
  show ?thesis
    unfolding sextet_eq_iff [OF d(1) w] sextet_eq_iff [OF d(2) six_mask]
      sextet_eq_iff [OF d(3) six_mask] sextet_eq_iff [OF d(4) six_mask] byte_eq_iff
    by (simp add: w_def v2_def mask bit_simps hi byte_hi)
      (intro iffI conjI; elim conjE; simp)
qed

lemma low_bits: "(x :: u32) AND (push_bit k 1 - 1) = 0 \<longleftrightarrow> (\<forall>n < k. \<not> bit x n)"
proof -
  have "push_bit k 1 - 1 = (mask k :: u32)" by (simp add: mask_eq_exp_minus_1)
  moreover have "bit x n \<Longrightarrow> n < 32" for n using bit_imp_le_length [of x n] by simp
  ultimately show ?thesis by (auto simp only: bit_eq_iff bit_and_iff bit_mask_iff) auto
qed

lemma group2_iff:
  fixes v d0 d1 d2 :: u32 and a b :: byte
  defines "w \<equiv> push_bit 16 (ucast a) OR push_bit 8 (ucast b)"
    and "v2 \<equiv> push_bit 6 (push_bit 6 v OR d0) OR d1"
  assumes d: "six d0" "six d1" "six d2"
  shows "d0 = drop_bit 18 w \<and> d1 = drop_bit 12 w AND 63 \<and> d2 = drop_bit 6 w AND 63
    \<longleftrightarrow> a = ucast (drop_bit 4 v2) \<and> b = ucast (drop_bit 2 (push_bit 6 v2 OR d2)) \<and>
        (push_bit 6 v2 OR d2) AND (push_bit 2 1 - 1) = 0"
proof -
  have hi: "\<not> bit d0 n" "\<not> bit d1 n" "\<not> bit d2 n" if "6 \<le> n" for n
    using that d unfolding six_def by (metis not_less)+
  have mask: "(63 :: u32) = mask 6" by (simp add: mask_eq_exp_minus_1)
  have w: "six (drop_bit 18 w)"
    by (auto simp: six_def w_def bit_simps dest: bit_imp_le_length)
  have two: "(\<forall>n < 2. \<not> bit x n) \<longleftrightarrow> \<not> bit x 0 \<and> \<not> bit x 1" for x :: u32
    by (auto simp: numeral_2_eq_2 less_Suc_eq)
  show ?thesis
    unfolding sextet_eq_iff [OF d(1) w] sextet_eq_iff [OF d(2) six_mask]
      sextet_eq_iff [OF d(3) six_mask] byte_eq_iff low_bits two
    by (simp add: w_def v2_def mask bit_simps hi byte_hi)
      (intro iffI conjI; elim conjE; simp)
qed

lemma group1_iff:
  fixes v d0 d1 :: u32 and a :: byte
  defines "w \<equiv> push_bit 16 (ucast a)"
    and "v2 \<equiv> push_bit 6 (push_bit 6 v OR d0) OR d1"
  assumes d: "six d0" "six d1"
  shows "d0 = drop_bit 18 w \<and> d1 = drop_bit 12 w AND 63
    \<longleftrightarrow> a = ucast (drop_bit 4 v2) \<and> v2 AND (push_bit 4 1 - 1) = 0"
proof -
  have hi: "\<not> bit d0 n" "\<not> bit d1 n" if "6 \<le> n" for n
    using that d unfolding six_def by (metis not_less)+
  have mask: "(63 :: u32) = mask 6" by (simp add: mask_eq_exp_minus_1)
  have w: "six (drop_bit 18 w)"
    by (auto simp: six_def w_def bit_simps dest: bit_imp_le_length)
  have four: "(\<forall>n < 4. \<not> bit x n) \<longleftrightarrow> \<not> bit x 0 \<and> \<not> bit x 1 \<and> \<not> bit x 2 \<and> \<not> bit x 3"
    for x :: u32
    by (auto simp: eval_nat_numeral less_Suc_eq)
  show ?thesis
    unfolding sextet_eq_iff [OF d(1) w] sextet_eq_iff [OF d(2) six_mask] byte_eq_iff low_bits four
    by (simp add: w_def v2_def mask bit_simps hi byte_hi)
      (intro iffI conjI; elim conjE; simp)
qed

section \<open>The codec\<close>

lemma top_less: "unat (drop_bit 18 (push_bit 16 (ucast (a :: byte)) OR push_bit 8 (ucast (b :: byte)) OR
    ucast (c :: byte)) :: u32) < 64"
proof -
  let ?w = "drop_bit 18 (push_bit 16 (ucast a) OR push_bit 8 (ucast b) OR ucast c) :: u32"
  have "take_bit 6 ?w = ?w"
    by (rule bit_word_eqI) (auto simp: bit_simps dest: bit_imp_le_length)
  then have "?w = ?w AND 63" by (simp add: take_bit_eq_mask mask_eq_exp_minus_1)
  then show ?thesis using and_63_less [of ?w] by simp
qed

text \<open>How the decoder's loop takes a group, and what the encoder writes for one.\<close>

abbreviation digit :: "char \<Rightarrow> bool" where
  "digit c \<equiv> 0 \<le> b64url_value (of_char c)"

lemma loop_digit:
  "digit c \<Longrightarrow> b64url_loop n (c # s) v bits out =
     (if bits < 2 then b64url_loop n s (push_bit 6 v OR sextet c) (bits + 6) out
      else if n \<le> length out then None
      else b64url_loop n s (push_bit 6 v OR sextet c) (bits - 2)
        (out @ [ucast (drop_bit (bits - 2) (push_bit 6 v OR sextet c))]))"
  by (auto simp: Let_def sextet_def)

lemma loop_no_digit: "\<not> digit c \<Longrightarrow> b64url_loop n (c # s) v bits out = None"
  by simp

declare b64url_loop.simps(2) [simp del]

lemma chars_group3:
  "b64url_groups (a # b # c # r) = c0 # c1 # c2 # c3 # s \<longleftrightarrow>
   digit c0 \<and> digit c1 \<and> digit c2 \<and> digit c3 \<and>
   (let w = push_bit 16 (ucast a) OR push_bit 8 (ucast b) OR ucast c
    in sextet c0 = drop_bit 18 w \<and> sextet c1 = drop_bit 12 w AND 63 \<and>
       sextet c2 = drop_bit 6 w AND 63 \<and> sextet c3 = w AND 63) \<and> b64url_groups r = s"
  by (simp only: b64url_groups.simps Let_def append.simps list.inject
      written_iff [OF top_less] written_iff [OF and_63_less]) blast

lemma chars_group2:
  "b64url_groups [a, b] = [c0, c1, c2] \<longleftrightarrow>
   digit c0 \<and> digit c1 \<and> digit c2 \<and>
   (let w = push_bit 16 (ucast a) OR push_bit 8 (ucast b)
    in sextet c0 = drop_bit 18 w \<and> sextet c1 = drop_bit 12 w AND 63 \<and>
       sextet c2 = drop_bit 6 w AND 63)"
  using top_less [of a b 0]
  by (simp add: Let_def written_iff written_iff [OF and_63_less] del: drop_bit_or) blast

lemma chars_group1:
  "b64url_groups [a] = [c0, c1] \<longleftrightarrow>
   digit c0 \<and> digit c1 \<and>
   (let w = push_bit 16 (ucast a)
    in sextet c0 = drop_bit 18 w \<and> sextet c1 = drop_bit 12 w AND 63)"
  using top_less [of a 0 0]
  by (simp add: Let_def written_iff written_iff [OF and_63_less] del: drop_bit_or) blast

text \<open>The length of a text tells the shape of what it encodes.\<close>

lemma shape0: "b64url_groups d = [] \<longleftrightarrow> d = []"
  by (cases d rule: b64url_groups.cases) (simp_all add: Let_def)

lemma shape1:
  "(\<exists>d. P d \<and> b64url_groups d = [c0, c1]) \<longleftrightarrow> (\<exists>a. P [a] \<and> b64url_groups [a] = [c0, c1])"
proof -
  have "b64url_groups d = [c0, c1] \<Longrightarrow> \<exists>a. d = [a]" for d
    by (cases d rule: b64url_groups.cases) (simp_all add: Let_def)
  then show ?thesis by metis
qed

lemma shape2:
  "(\<exists>d. P d \<and> b64url_groups d = [c0, c1, c2]) \<longleftrightarrow>
   (\<exists>a b. P [a, b] \<and> b64url_groups [a, b] = [c0, c1, c2])"
proof -
  have "b64url_groups d = [c0, c1, c2] \<Longrightarrow> \<exists>a b. d = [a, b]" for d
    by (cases d rule: b64url_groups.cases) (simp_all add: Let_def)
  then show ?thesis by metis
qed

lemma shape3:
  "(\<exists>d. P d \<and> b64url_groups d = c0 # c1 # c2 # c3 # s) \<longleftrightarrow>
   (\<exists>a b c r. P (a # b # c # r) \<and> b64url_groups (a # b # c # r) = c0 # c1 # c2 # c3 # s)"
proof -
  have "b64url_groups d = c0 # c1 # c2 # c3 # s \<Longrightarrow> \<exists>a b c r. d = a # b # c # r" for d
    by (cases d rule: b64url_groups.cases) (simp_all add: Let_def)
  then show ?thesis by metis
qed

text \<open>Two and three characters end the text, four are followed by the next group.\<close>

lemma loop_group1:
  fixes v :: u32 and out :: "byte list"
  assumes d: "digit c0" "digit c1"
  defines "v2 \<equiv> push_bit 6 (push_bit 6 v OR sextet c0) OR sextet c1"
  shows "b64url_loop n [c0, c1] v 0 out =
      (if n \<le> length out \<or> v2 AND (push_bit 4 1 - 1) \<noteq> 0 then None
       else Some (out @ [ucast (drop_bit 4 v2)]))"
    and "b64url_groups [a] = [c0, c1] \<longleftrightarrow>
      a = ucast (drop_bit 4 v2) \<and> v2 AND (push_bit 4 1 - 1) = 0"
  unfolding v2_def chars_group1 Let_def
    group1_iff [OF six_sextet six_sextet, OF d, of a v, symmetric]
  by (simp_all add: loop_digit d del: drop_bit_or push_bit_or)

lemma loop_group2:
  fixes v :: u32 and out :: "byte list"
  assumes d: "digit c0" "digit c1" "digit c2"
  defines "v2 \<equiv> push_bit 6 (push_bit 6 v OR sextet c0) OR sextet c1"
    and "v3 \<equiv> push_bit 6 (push_bit 6 (push_bit 6 v OR sextet c0) OR sextet c1) OR sextet c2"
  shows "b64url_loop n [c0, c1, c2] v 0 out =
      (if n \<le> length out + 1 \<or> v3 AND (push_bit 2 1 - 1) \<noteq> 0 then None
       else Some (out @ [ucast (drop_bit 4 v2), ucast (drop_bit 2 v3)]))"
    and "b64url_groups [a, b] = [c0, c1, c2] \<longleftrightarrow>
      a = ucast (drop_bit 4 v2) \<and> b = ucast (drop_bit 2 v3) \<and> v3 AND (push_bit 2 1 - 1) = 0"
  unfolding v2_def v3_def chars_group2 Let_def
    group2_iff [OF six_sextet six_sextet six_sextet, OF d, of a b v, symmetric]
  by (simp_all add: loop_digit d del: drop_bit_or push_bit_or)

lemma loop_group3:
  fixes v :: u32 and out :: "byte list"
  assumes d: "digit c0" "digit c1" "digit c2" "digit c3"
  defines "v2 \<equiv> push_bit 6 (push_bit 6 v OR sextet c0) OR sextet c1"
    and "v3 \<equiv> push_bit 6 (push_bit 6 (push_bit 6 v OR sextet c0) OR sextet c1) OR sextet c2"
    and "v4 \<equiv> push_bit 6 (push_bit 6 (push_bit 6 (push_bit 6 v OR sextet c0) OR sextet c1) OR
      sextet c2) OR sextet c3"
  shows "b64url_loop n (c0 # c1 # c2 # c3 # s) v 0 out =
      (if n \<le> length out + 2 then None
       else b64url_loop n s v4 0
         (out @ [ucast (drop_bit 4 v2), ucast (drop_bit 2 v3), ucast v4]))"
    and "b64url_groups (a # b # c # r) = c0 # c1 # c2 # c3 # s \<longleftrightarrow>
      a = ucast (drop_bit 4 v2) \<and> b = ucast (drop_bit 2 v3) \<and> c = ucast v4 \<and> b64url_groups r = s"
  unfolding v2_def v3_def v4_def chars_group3 Let_def
    group3_iff [OF six_sextet six_sextet six_sextet six_sextet, OF d, of a b c v]
  by (simp_all add: loop_digit d del: drop_bit_or push_bit_or)

lemma bad_digit:
  "b64url_loop n s v bits out = Some r \<Longrightarrow> \<forall>c \<in> set s. digit c"
proof (induction s arbitrary: v bits out)
  case (Cons c s)
  then have c: "digit c" using loop_no_digit by fastforce
  show ?case using Cons by (auto simp: loop_digit [OF c] c split: if_splits)
qed simp

lemma alphabet_digit: "w < 64 \<Longrightarrow> digit (b64url_alphabet ! w)"
  using alphabet_iff [of w "b64url_alphabet ! w"] by simp

lemma groups_digits: "c \<in> set (b64url_groups d) \<Longrightarrow> digit c"
proof (induction d rule: b64url_groups.induct)
  case (1 a b c r)
  then show ?case
    using top_less [of a b c]
    by (auto simp: Let_def alphabet_digit and_63_less simp del: drop_bit_or)
next
  case (2 a b)
  then show ?case
    using top_less [of a b 0]
    by (auto simp: Let_def alphabet_digit and_63_less simp del: drop_bit_or)
next
  case (3 a)
  then show ?case
    using top_less [of a 0 0]
    by (auto simp: Let_def alphabet_digit and_63_less simp del: drop_bit_or)
qed simp

lemma third_more: "(3 + n) div 3 = Suc (n div 3)" "(5 + n) div 3 = Suc (Suc (Suc n) div 3)" for n :: nat
  by (simp_all add: div_add_self1 [of 3 n, simplified])

lemma length_groups:
  "length (b64url_groups d) =
   length d div 3 * 4 + (if length d mod 3 \<noteq> 0 then length d mod 3 + 1 else 0)"
  by (induction d rule: b64url_groups.induct) (simp_all add: Let_def third_more)

lemma length_groups_mod: "length (b64url_groups d) mod 4 \<noteq> 1"
  by (induction d rule: b64url_groups.induct) (simp_all add: Let_def)

fun quads :: "'a list \<Rightarrow> 'a list list" where
  "quads (a # b # c # d # r) = [a, b, c, d] # quads r"
| "quads [a, b, c] = [[a, b, c]]"
| "quads [a, b] = [[a, b]]"
| "quads [a] = [[a]]"
| "quads [] = []"

lemma decode_one:
  assumes "length out \<le> n" "digit c0" "digit c1"
  shows "b64url_loop n [c0, c1] v 0 out = Some r \<longleftrightarrow>
      (\<exists>d. (r = out @ d \<and> length r \<le> n) \<and> b64url_groups d = [c0, c1])"
  unfolding shape1 loop_group1(1) [OF assms(2,3), of n v] loop_group1(2) [OF assms(2,3), of _ v]
  using assms(1) by (auto simp del: push_bit_or drop_bit_or)

lemma decode_two:
  assumes "length out \<le> n" "digit c0" "digit c1" "digit c2"
  shows "b64url_loop n [c0, c1, c2] v 0 out = Some r \<longleftrightarrow>
      (\<exists>d. (r = out @ d \<and> length r \<le> n) \<and> b64url_groups d = [c0, c1, c2])"
  unfolding shape2 loop_group2(1) [OF assms(2-4), of n v] loop_group2(2) [OF assms(2-4), of _ _ v]
  using assms(1) by (auto simp del: push_bit_or drop_bit_or)

lemma decode_iff:
  assumes "length s mod 4 \<noteq> 1" "length out \<le> n" "\<forall>c \<in> set s. digit c"
  shows "b64url_loop n s v 0 out = Some r \<longleftrightarrow>
    (\<exists>d. (r = out @ d \<and> length r \<le> n) \<and> b64url_groups d = s)"
  using assms
proof (induction s arbitrary: v out rule: quads.induct)
  case (1 c0 c1 c2 c3 t)
  then have d: "digit c0" "digit c1" "digit c2" "digit c3" by auto
  show ?case
  proof (cases "n \<le> length out + 2")
    case True
    then show ?thesis unfolding shape3 loop_group3(1) [OF d, of n t v] by auto
  next
    case False
    then have "length (out @ [x, y, z]) \<le> n" for x y z by simp
    then have IH: "b64url_loop n t w 0 (out @ [x, y, z]) = Some r \<longleftrightarrow>
        (\<exists>d. (r = (out @ [x, y, z]) @ d \<and> length r \<le> n) \<and> b64url_groups d = t)" for w x y z
      using "1.prems" by (intro "1.IH") auto
    show ?thesis
      using False
      unfolding shape3 loop_group3(1) [OF d, of n t v] loop_group3(2) [OF d, of _ _ _ _ t v]
      by (auto simp: IH simp del: push_bit_or drop_bit_or)
  qed
qed (auto simp: decode_one decode_two shape0)

text \<open>C31. A text decodes to a string of bytes exactly when there is room for the bytes and the text is
  what they encode to, which fits, with its NUL, a buffer one longer than the text: decoding
  inverts encoding, and no two texts decode to the same bytes.\<close>

theorem base64url_exact:
  "base64url_decode s n = Some d \<longleftrightarrow>
   length d \<le> n \<and> base64url_encode d (length s + 1) = Some s"
proof
  assume dec: "base64url_decode s n = Some d"
  then have "length s mod 4 \<noteq> 1" and loop: "b64url_loop n s 0 0 [] = Some d"
    by (simp_all add: base64url_decode_def split: if_splits)
  with bad_digit [OF loop] show "length d \<le> n \<and> base64url_encode d (length s + 1) = Some s"
    using decode_iff [of s "[]" n 0 d] length_groups [of d]
    by (auto simp: base64url_encode_def Let_def)
next
  assume enc: "length d \<le> n \<and> base64url_encode d (length s + 1) = Some s"
  then have s: "b64url_groups d = s" by (simp add: base64url_encode_def Let_def split: if_splits)
  then have "length s mod 4 \<noteq> 1" "\<forall>c \<in> set s. digit c"
    using length_groups_mod groups_digits by auto
  then show "base64url_decode s n = Some d"
    using decode_iff [of s "[]" n 0 d] enc s by (simp add: base64url_decode_def)
qed

text \<open>The padded encoding writes a multiple of four characters, one less than the room it asks
  for, and is refused exactly in a smaller buffer.\<close>

lemma length_b64_groups: "length (b64_groups d) = (length d + 2) div 3 * 4"
  by (induction d rule: b64_groups.induct) (simp_all add: Let_def third_more)

lemma base64_encode_room:
  "base64_encode src n = None \<longleftrightarrow> n \<le> length (b64_groups src)"
  "base64_encode src n \<noteq> None \<longleftrightarrow> (\<exists>t. base64_encode src n = Some t \<and> length t < n \<and> 4 dvd length t)"
  by (auto simp: base64_encode_def Let_def length_b64_groups)

end
