(* ===== verification/Streams.thy ===== *)
theory Streams
  imports Prelude
begin

text \<open>
  Code that takes a byte stream in pieces as they arrive (the terminal filter, the hash): an
  abstract machine that takes one byte at a time, and the interface under which a routine that is
  handed whole pieces is that machine, so that where the stream was cut makes no difference.
\<close>

fun steps :: "('v \<Rightarrow> 'a \<Rightarrow> 'v \<times> 'b list) \<Rightarrow> 'v \<Rightarrow> 'a list \<Rightarrow> 'v \<times> 'b list" where
  "steps f v [] = (v, [])"
| "steps f v (x # xs) =
     (let (v1, o1) = f v x; (v2, o2) = steps f v1 xs in (v2, o1 @ o2))"

lemma steps_append:
  "steps f v (xs @ ys) =
   (let (v1, o1) = steps f v xs; (v2, o2) = steps f v1 ys in (v2, o1 @ o2))"
  by (induction xs arbitrary: v) (simp_all add: split_beta Let_def)

text \<open>A routine called once per piece, its outputs one after the other.\<close>

fun run_pieces :: "('s \<Rightarrow> 'a list \<Rightarrow> 's \<times> 'b list) \<Rightarrow> 's \<Rightarrow> 'a list list \<Rightarrow> 's \<times> 'b list" where
  "run_pieces run s [] = (s, [])"
| "run_pieces run s (p # ps) =
     (let (s1, o1) = run s p; (s2, o2) = run_pieces run s1 ps in (s2, o1 @ o2))"

text \<open>The contract: in every state that satisfies the invariant the routine does to its view what
  the machine does byte by byte, and writes what the machine writes.\<close>

locale chunked =
  fixes run :: "'s \<Rightarrow> 'a list \<Rightarrow> 's \<times> 'b list"
    and view :: "'s \<Rightarrow> 'v"
    and inv :: "'s \<Rightarrow> bool"
    and step :: "'v \<Rightarrow> 'a \<Rightarrow> 'v \<times> 'b list"
  assumes run_inv: "inv s \<Longrightarrow> inv (fst (run s xs))"
    and run_steps: "inv s \<Longrightarrow> (view (fst (run s xs)), snd (run s xs)) = steps step (view s) xs"
begin

lemma run_pieces_inv: "inv s \<Longrightarrow> inv (fst (run_pieces run s ps))"
  by (induction ps arbitrary: s) (simp_all add: split_beta Let_def run_inv)

lemma run_pieces_steps:
  "inv s \<Longrightarrow>
   (view (fst (run_pieces run s ps)), snd (run_pieces run s ps)) = steps step (view s) (concat ps)"
proof (induction ps arbitrary: s)
  case (Cons p ps)
  note one = run_steps [OF Cons.prems, of p, symmetric]
    and rest = Cons.IH [OF run_inv [OF Cons.prems, of p], symmetric]
  show ?case by (simp add: split_beta Let_def steps_append one rest)
qed simp

lemma run_pieces_once:
  assumes "inv s"
  shows "view (fst (run_pieces run s ps)) = view (fst (run s (concat ps)))"
    and "snd (run_pieces run s ps) = snd (run s (concat ps))"
  using run_pieces_steps [OF assms, of ps] run_steps [OF assms, of "concat ps"]
  by (metis fst_conv, metis snd_conv)

end

end
