(* ===== verification/Termfilter.thy ===== *)
theory Termfilter
  imports Streams
begin

text \<open>
  termfilter.c: the filter on the bytes from the terminal to tmux, which takes the reserved rows
  off the terminal's answer to a size question. A control sequence is held in \<open>pend\<close> until it is
  complete; the array keeps its 32 bytes, of which the first \<open>npend\<close> count.

  \<open>sscanf\<close> and \<open>snprintf\<close> are modelled for the one format the code uses: \<open>%5d\<close> skips white
  space, takes an optional sign and at most five characters in all, and a literal character of
  the format must match; the count of conversions that the code tests says nothing about the
  literal behind the last of them.
\<close>

section \<open>The C library's part\<close>

definition is_space :: "byte \<Rightarrow> bool" where
  "is_space c = (c = 32 \<or> 9 \<le> c \<and> c \<le> 13)"

definition is_digit :: "byte \<Rightarrow> bool" where
  "is_digit c = (48 \<le> c \<and> c \<le> 57)"

text \<open>The value of a run of digits, most significant first.\<close>

definition digits_value :: "byte list \<Rightarrow> int" where
  "digits_value ds = foldl (\<lambda>v d. v * 10 + (uint d - 48)) 0 ds"

text \<open>\<open>%5d\<close>: the number and the rest of the input, or nothing when no digit is there.\<close>

definition scan_5d :: "byte list \<Rightarrow> (int \<times> byte list) option" where
  "scan_5d s =
     (let s = dropWhile is_space s;
          sign = (if s \<noteq> [] \<and> (hd s = 45 \<or> hd s = 43) then take 1 s else []);
          s = drop (length sign) s;
          ds = takeWhile is_digit (take (5 - length sign) s)
      in if ds = [] then None
         else Some (if sign = [45] then - digits_value ds else digits_value ds, drop (length ds) s))"

text \<open>\<open>sscanf(s, "\033[8;%5d;%5dt", &rows, &cols) == 2\<close>; the string ends at the first NUL.\<close>

definition scan_answer :: "byte list \<Rightarrow> (int \<times> int) option" where
  "scan_answer s =
     (let s = takeWhile (\<lambda>c. c \<noteq> 0) s
      in if take 4 s \<noteq> [27, 91, 56, 59] then None
         else (case scan_5d (drop 4 s) of
             None \<Rightarrow> None
           | Some (rows, r) \<Rightarrow>
               (if take 1 r \<noteq> [59] then None
                else (case scan_5d (drop 1 r) of
                    None \<Rightarrow> None
                  | Some (cols, _) \<Rightarrow> Some (rows, cols)))))"

definition print_nat :: "nat \<Rightarrow> byte list" where
  "print_nat n = map (\<lambda>d. 48 + of_nat d) (dec_digits n)"

definition print_int :: "int \<Rightarrow> byte list" where
  "print_int v = (if v < 0 then 45 # print_nat (nat (- v)) else print_nat (nat v))"

text \<open>\<open>snprintf(out, n, "\033[8;%d;%dt", rows, cols)\<close>: at most \<open>n - 1\<close> characters are written.\<close>

definition print_answer :: "int \<Rightarrow> int \<Rightarrow> byte list" where
  "print_answer rows cols = [27, 91, 56, 59] @ print_int rows @ [59] @ print_int cols @ [116]"

section \<open>The code\<close>

record termfilter =
  tf_reserve :: int
  tf_pend :: "byte list"
  tf_npend :: nat

abbreviation TF_PEND :: nat where "TF_PEND \<equiv> 32"

definition termfilter_init :: "termfilter \<Rightarrow> int \<Rightarrow> termfilter" where
  "termfilter_init f reserve = f\<lparr>tf_reserve := reserve, tf_npend := 0\<rparr>"

text \<open>\<open>f->pend[f->npend++] = c\<close>\<close>

definition tf_hold :: "termfilter \<Rightarrow> byte \<Rightarrow> termfilter" where
  "tf_hold f c = f\<lparr>tf_pend := (tf_pend f)[tf_npend f := c], tf_npend := tf_npend f + 1\<rparr>"

definition flush_pend :: "termfilter \<Rightarrow> termfilter \<times> byte list" where
  "flush_pend f = (f\<lparr>tf_npend := 0\<rparr>, take (tf_npend f) (tf_pend f))"

definition emit_seq :: "termfilter \<Rightarrow> termfilter \<times> byte list" where
  "emit_seq f =
     (let f = f\<lparr>tf_pend := (tf_pend f)[tf_npend f := 0]\<rparr>;
          answer = (if tf_pend f ! (tf_npend f - 1) = 116 \<and> 0 < tf_reserve f
                    then scan_answer (tf_pend f) else None)
      in case answer of
           Some (rows, cols) \<Rightarrow>
             (if tf_reserve f < rows
              then (f\<lparr>tf_npend := 0\<rparr>, take (TF_PEND - 1) (print_answer (rows - tf_reserve f) cols))
              else flush_pend f)
         | None \<Rightarrow> flush_pend f)"

text \<open>One iteration of the loop of \<open>termfilter_run\<close>.\<close>

definition tf_byte :: "termfilter \<Rightarrow> byte \<Rightarrow> termfilter \<times> byte list" where
  "tf_byte f c =
     (if tf_npend f = 0 then (if c = 27 then (tf_hold f c, []) else (f, [c]))
      else if tf_npend f = 1
        then (if c = 91 then (tf_hold f c, [])
              else (let (f, out) = flush_pend f
                    in if c = 27 then (tf_hold f c, out) else (f, out @ [c])))
      else if TF_PEND - 1 \<le> tf_npend f
        then (let (f, out) = flush_pend f
              in if c = 27 then (tf_hold f c, out) else (f, out @ [c]))
      else (let f = tf_hold f c
            in if 0x40 \<le> c \<and> c \<le> 0x7e then emit_seq f else (f, [])))"

fun termfilter_run :: "termfilter \<Rightarrow> byte list \<Rightarrow> termfilter \<times> byte list" where
  "termfilter_run f [] = (f, [])"
| "termfilter_run f (c # s) =
     (let (f, o1) = tf_byte f c; (f, o2) = termfilter_run f s in (f, o1 @ o2))"

section \<open>The filter as a machine on the bytes it holds\<close>

definition csi_final :: "byte \<Rightarrow> bool" where
  "csi_final c = (0x40 \<le> c \<and> c \<le> 0x7e)"

text \<open>What becomes of a complete sequence.\<close>

definition tf_answer :: "int \<Rightarrow> byte list \<Rightarrow> byte list" where
  "tf_answer r q =
     (case (if last q = 116 \<and> 0 < r then scan_answer q else None) of
        Some (rows, cols) \<Rightarrow> (if r < rows then take (TF_PEND - 1) (print_answer (rows - r) cols) else q)
      | None \<Rightarrow> q)"

definition tfm_restart :: "byte list \<Rightarrow> byte \<Rightarrow> byte list \<times> byte list" where
  "tfm_restart p c = (if c = 27 then ([c], p) else ([], p @ [c]))"

definition tfm_byte :: "int \<Rightarrow> byte list \<Rightarrow> byte \<Rightarrow> byte list \<times> byte list" where
  "tfm_byte r p c =
     (if p = [] then tfm_restart p c
      else if length p = 1 then (if c = 91 then (p @ [c], []) else tfm_restart p c)
      else if TF_PEND - 1 \<le> length p then tfm_restart p c
      else if csi_final c then ([], tf_answer r (p @ [c]))
      else (p @ [c], []))"

definition tf_held :: "termfilter \<Rightarrow> byte list" where
  "tf_held f = take (tf_npend f) (tf_pend f)"

definition tf_inv :: "int \<Rightarrow> termfilter \<Rightarrow> bool" where
  "tf_inv r f = (tf_reserve f = r \<and> length (tf_pend f) = TF_PEND \<and> tf_npend f < TF_PEND)"

lemma length_held: "tf_inv r f \<Longrightarrow> length (tf_held f) = tf_npend f"
  by (simp add: tf_inv_def tf_held_def)

lemma held_hold:
  "tf_inv r f \<Longrightarrow> tf_npend f < TF_PEND - 1 \<Longrightarrow> tf_inv r (tf_hold f c) \<and> tf_held (tf_hold f c) = tf_held f @ [c]"
  by (simp add: tf_inv_def tf_hold_def tf_held_def take_Suc_conv_app_nth)

lemma scan_terminated: "scan_answer (q[n := 0]) = scan_answer (take n q)" if "n < length q"
proof -
  have "takeWhile (\<lambda>c. c \<noteq> 0) (q[n := 0]) = takeWhile (\<lambda>c. c \<noteq> 0) (take n q)"
    using that by (simp add: upd_conv_take_nth_drop takeWhile_tail)
  then show ?thesis by (simp add: scan_answer_def)
qed

lemma emit_seq_view:
  assumes "tf_inv r f" "0 < tf_npend f"
  shows "tf_inv r (fst (emit_seq f)) \<and> tf_held (fst (emit_seq f)) = [] \<and>
    snd (emit_seq f) = tf_answer r (tf_held f)"
proof -
  have "tf_pend f ! (tf_npend f - 1) = last (tf_held f)"
    using assms by (subst last_conv_nth) (auto simp: tf_inv_def tf_held_def)
  moreover have "take (tf_npend f) ((tf_pend f)[tf_npend f := 0]) = tf_held f"
    by (simp add: tf_held_def)
  moreover have "scan_answer ((tf_pend f)[tf_npend f := 0]) = scan_answer (tf_held f)"
    using assms by (simp add: scan_terminated tf_held_def tf_inv_def)
  ultimately show ?thesis
    using assms
    by (auto simp: emit_seq_def tf_answer_def flush_pend_def tf_inv_def tf_held_def Let_def
        split: option.splits)
qed

lemma restart_view:
  assumes "tf_inv r f" "flush_pend f = (g, out)"
  shows "tf_inv r (fst (if c = 27 then (tf_hold g c, out) else (g, out @ [c])))"
    and "(tf_held (fst (if c = 27 then (tf_hold g c, out) else (g, out @ [c]))),
      snd (if c = 27 then (tf_hold g c, out) else (g, out @ [c]))) = tfm_restart (tf_held f) c"
  using assms
  by (auto simp: flush_pend_def tf_inv_def tf_hold_def tfm_restart_def tf_held_def take_Suc_conv_app_nth)

lemma tf_byte_view:
  assumes inv: "tf_inv r f"
  shows "tf_inv r (fst (tf_byte f c))"
    and "(tf_held (fst (tf_byte f c)), snd (tf_byte f c)) = tfm_byte r (tf_held f) c"
proof -
  obtain g out where fl: "flush_pend f = (g, out)" by (cases "flush_pend f")
  have len: "length (tf_held f) = tf_npend f" "tf_held f = [] \<longleftrightarrow> tf_npend f = 0"
    using length_held [OF inv] by auto
  note rs = restart_view [OF inv fl, of c]
  consider "tf_npend f = 0" | "tf_npend f = 1" | "2 \<le> tf_npend f" "31 \<le> tf_npend f"
    | "2 \<le> tf_npend f" "tf_npend f < 31" by linarith
  then have "tf_inv r (fst (tf_byte f c)) \<and>
      (tf_held (fst (tf_byte f c)), snd (tf_byte f c)) = tfm_byte r (tf_held f) c"
  proof cases
    case 1
    then show ?thesis
      using held_hold [OF inv, of c] inv len
      by (auto simp: tf_byte_def tfm_byte_def tfm_restart_def)
  next
    case 2
    then show ?thesis
      using held_hold [OF inv, of c] rs len by (cases "c = 91") (simp_all add: tf_byte_def tfm_byte_def fl)
  next
    case 3
    then show ?thesis using rs len by (simp add: tf_byte_def tfm_byte_def fl)
  next
    case 4
    then have "0 < tf_npend (tf_hold f c)" by (simp add: tf_hold_def)
    then show ?thesis
      using 4 held_hold [OF inv, of c] emit_seq_view [of r "tf_hold f c"] len
      by (auto simp: tf_byte_def tfm_byte_def csi_final_def Let_def prod_eq_iff)
  qed
  then show "tf_inv r (fst (tf_byte f c))"
    and "(tf_held (fst (tf_byte f c)), snd (tf_byte f c)) = tfm_byte r (tf_held f) c" by auto
qed

lemma run_view:
  "tf_inv r f \<Longrightarrow> tf_inv r (fst (termfilter_run f s)) \<and>
   (tf_held (fst (termfilter_run f s)), snd (termfilter_run f s)) = steps (tfm_byte r) (tf_held f) s"
proof (induction s arbitrary: f)
  case (Cons c s)
  note one = tf_byte_view [OF Cons.prems, of c]
  show ?case
    using Cons.IH [OF one(1)] one(2) [symmetric] by (auto simp: split_beta Let_def prod_eq_iff)
qed simp

interpretation tf_stream: chunked termfilter_run tf_held "tf_inv r" "tfm_byte r" for r
  by unfold_locales (simp_all add: run_view)

section \<open>Numbers as text\<close>

lemma dec_digits_less10: "d \<in> set (dec_digits n) \<Longrightarrow> d < 10"
proof (induction n rule: dec_digits.induct)
  case (1 n)
  then show ?case by (subst (asm) (2) dec_digits.simps) (auto split: if_splits)
qed

lemma dec_digits_Nil [simp]: "dec_digits n \<noteq> []"
  by (subst dec_digits.simps) simp

lemma length_dec_digits: "n < 10 ^ k \<Longrightarrow> 0 < k \<Longrightarrow> length (dec_digits n) \<le> k"
proof (induction n arbitrary: k rule: dec_digits.induct)
  case (1 n)
  show ?case
  proof (cases "n < 10")
    case True
    then show ?thesis using "1.prems" by (simp add: dec_digits.simps [of n])
  next
    case False
    then have "k \<noteq> 1" using "1.prems" by auto
    then obtain j where k: "k = Suc j" "0 < j" using "1.prems" by (cases k) auto
    then have "n div 10 < 10 ^ j" using "1.prems" by (simp add: less_mult_imp_div_less mult.commute)
    from "1.IH" [OF False this k(2)] show ?thesis
      using False k by (simp add: dec_digits.simps [of n])
  qed
qed

lemma printed_digit: "d < 10 \<Longrightarrow> is_digit (48 + of_nat d) \<and> uint (48 + of_nat d :: byte) = 48 + int d"
  by (simp add: is_digit_def word_le_nat_alt uint_word_ariths unat_word_ariths unat_of_nat
      uint_nat take_bit_nat_eq_self unsigned_of_nat)

lemma digits_value_snoc: "digits_value (ds @ [d]) = digits_value ds * 10 + (uint d - 48)"
  by (simp add: digits_value_def)

lemma digits_value_print: "digits_value (print_nat n) = int n"
proof (induction n rule: dec_digits.induct)
  case (1 n)
  show ?case
  proof (cases "n < 10")
    case True
    then show ?thesis
      using printed_digit [of n] by (simp add: print_nat_def dec_digits.simps [of n] digits_value_def)
  next
    case False
    then have "print_nat n = print_nat (n div 10) @ [48 + of_nat (n mod 10)]"
      by (simp add: print_nat_def dec_digits.simps [of n])
    then show ?thesis
      using "1.IH" [OF False] printed_digit [of "n mod 10"]
      by (simp add: digits_value_snoc zdiv_int zmod_int)
  qed
qed

lemma digits_value_bound:
  "\<forall>d \<in> set ds. is_digit d \<Longrightarrow> 0 \<le> digits_value ds \<and> digits_value ds < 10 ^ length ds"
proof (induction ds rule: rev_induct)
  case Nil
  then show ?case by (simp add: digits_value_def)
next
  case (snoc d ds)
  have "is_digit d" using snoc.prems by simp
  then have "0 \<le> uint d - 48" "uint d - 48 < 10"
    by (simp_all add: is_digit_def word_le_def)
  then show ?case using snoc by (simp add: digits_value_snoc)
qed

lemma print_nat_digits: "c \<in> set (print_nat n) \<Longrightarrow> is_digit c"
  using dec_digits_less10 printed_digit by (auto simp: print_nat_def)

lemma length_print_nat: "n < 10 ^ k \<Longrightarrow> 0 < k \<Longrightarrow> length (print_nat n) \<le> k"
  by (simp add: print_nat_def length_dec_digits)

lemma digit_no_blank: "is_digit c \<Longrightarrow> \<not> is_space c \<and> c \<noteq> 45 \<and> c \<noteq> 43 \<and> c \<noteq> 0"
  by (auto simp: is_digit_def is_space_def word_le_nat_alt)

lemma scan_parts:
  assumes "scan_5d s = Some (v, r)"
  obtains ws sg ds where "s = ws @ sg @ ds @ r" "ds \<noteq> []" "\<forall>d \<in> set ds. is_digit d"
    "v = (if sg = [45] then - digits_value ds else digits_value ds)"
proof -
  define t where "t = dropWhile is_space s"
  define sg where "sg = (if t \<noteq> [] \<and> (hd t = 45 \<or> hd t = 43) then take 1 t else [])"
  define u where "u = drop (length sg) t"
  define ds where "ds = takeWhile is_digit (take (5 - length sg) u)"
  have v: "ds \<noteq> []" "v = (if sg = [45] then - digits_value ds else digits_value ds)"
    "r = drop (length ds) u"
    using assms
    unfolding scan_5d_def Let_def t_def [symmetric] sg_def [symmetric] u_def [symmetric] ds_def [symmetric]
    by (auto split: if_splits)
  have "take (length ds) (take (5 - length sg) u) = ds" unfolding ds_def by (rule takeWhile_eq_take [symmetric])
  moreover have "length ds \<le> 5 - length sg"
    unfolding ds_def using length_takeWhile_le [of is_digit "take (5 - length sg) u"] by simp
  ultimately have "take (length ds) u = ds" by simp
  then have "u = ds @ r" unfolding v(3) by (metis append_take_drop_id)
  moreover have "t = sg @ u" unfolding u_def by (cases t) (simp_all add: sg_def)
  moreover have "s = takeWhile is_space s @ t" by (simp add: t_def)
  ultimately have "s = takeWhile is_space s @ sg @ ds @ r" by simp
  moreover have "\<forall>d \<in> set ds. is_digit d" by (auto simp: ds_def dest: set_takeWhileD)
  ultimately show thesis using that v(1,2) by blast
qed

text \<open>What \<open>%5d\<close> reads is no shorter than what \<open>%d\<close> would print for it, or for less.\<close>

lemma length_scan:
  assumes "scan_5d s = Some (v, r)"
  shows "length (print_int v) + length r \<le> length s"
    and "0 \<le> u \<Longrightarrow> u \<le> v \<Longrightarrow> length (print_int u) + length r \<le> length s"
proof -
  obtain ws sg ds where s: "s = ws @ sg @ ds @ r" and ne: "ds \<noteq> []" and dig: "\<forall>d \<in> set ds. is_digit d"
    and v: "v = (if sg = [45] then - digits_value ds else digits_value ds)"
    using assms by (rule scan_parts)
  note ds = digits_value_bound [OF dig]
  have small: "length (print_nat n) \<le> length ds" if "int n \<le> digits_value ds" for n
  proof -
    have "int n < 10 ^ length ds" using that ds by linarith
    then have "n < 10 ^ length ds" by (metis of_nat_less_iff of_nat_numeral of_nat_power)
    then show ?thesis using ne by (intro length_print_nat) simp_all
  qed
  show "length (print_int v) + length r \<le> length s"
    using ds small [of "nat (digits_value ds)"] by (auto simp: print_int_def v s)
  assume "0 \<le> u" "u \<le> v"
  then show "length (print_int u) + length r \<le> length s"
    using ds small [of "nat u"] by (auto simp: print_int_def v s split: if_splits)
qed

lemma last_scan:
  assumes "scan_5d s = Some (v, r)" "last s = 116"
  shows "r \<noteq> [] \<and> last r = 116"
  using assms(1)
proof (rule scan_parts)
  fix ws sg ds
  assume s: "s = ws @ sg @ ds @ r" and ne: "ds \<noteq> []" and dig: "\<forall>d \<in> set ds. is_digit d"
  have "r \<noteq> []"
  proof
    assume "r = []"
    then have "last ds = 116" using assms(2) s ne by simp
    moreover have "is_digit (last ds)" using dig ne by simp
    ultimately show False by (simp add: is_digit_def word_le_nat_alt)
  qed
  then show ?thesis using assms(2) s by simp
qed

text \<open>\<open>%5d\<close> reads back what \<open>%d\<close> printed of a number of at most five digits.\<close>

lemma scan_print:
  assumes "n < 100000" "r \<noteq> [] \<Longrightarrow> \<not> is_digit (hd r)"
  shows "scan_5d (print_nat n @ r) = Some (int n, r)"
proof -
  let ?p = "print_nat n"
  have ne: "?p \<noteq> []" by (simp add: print_nat_def)
  have dig: "\<forall>c \<in> set ?p. is_digit c" using print_nat_digits by blast
  have len: "length ?p \<le> 5" using assms(1) by (intro length_print_nat) simp_all
  have hd: "is_digit (hd ?p)" using dig ne by simp
  have "dropWhile is_space (?p @ r) = ?p @ r"
    using digit_no_blank [OF hd] ne by (cases ?p) simp_all
  moreover have "takeWhile is_digit (take 5 (?p @ r)) = ?p"
    using dig len assms(2) by (cases r) (simp_all add: takeWhile_append take_Cons' )
  moreover have "\<not> (?p @ r \<noteq> [] \<and> (hd (?p @ r) = 45 \<or> hd (?p @ r) = 43))"
    using digit_no_blank [OF hd] ne by simp
  ultimately show ?thesis
    using ne by (simp add: scan_5d_def digits_value_print)
qed

lemma scan_print_answer:
  assumes "rows < 100000" "cols < 100000"
  shows "scan_answer (print_answer (int rows) (int cols)) = Some (int rows, int cols)"
proof -
  have "\<forall>c \<in> set (print_answer (int rows) (int cols)). c \<noteq> 0"
    using print_nat_digits digit_no_blank by (auto simp: print_answer_def print_int_def)
  then have "takeWhile (\<lambda>c. c \<noteq> 0) (print_answer (int rows) (int cols)) = print_answer (int rows) (int cols)"
    by simp
  moreover have "scan_5d (print_nat rows @ 59 # x) = Some (int rows, 59 # x)"
    and "scan_5d (print_nat cols @ [116]) = Some (int cols, [116])" for x
    using assms scan_print [of rows "59 # x"] scan_print [of cols "[116]"]
    by (simp_all add: is_digit_def)
  ultimately show ?thesis by (simp add: scan_answer_def print_answer_def print_int_def)
qed

section \<open>What the filter writes\<close>

definition csi_seq :: "byte list \<Rightarrow> bool" where
  "csi_seq q = (take 2 q = [27, 91] \<and> 3 \<le> length q \<and> csi_final (last q) \<and>
     list_all (\<lambda>c. \<not> csi_final c) (butlast (drop 2 q)))"

definition held_ok :: "byte list \<Rightarrow> bool" where
  "held_ok p = (p = [] \<or> p = [27] \<or> take 2 p = [27, 91] \<and> 2 \<le> length p \<and>
     list_all (\<lambda>c. \<not> csi_final c) (drop 2 p))"

lemma final_116 [simp]: "csi_final 116"
  by (simp add: csi_final_def)

lemma held_ok_simps [simp]: "held_ok []" "held_ok [27]"
  by (simp_all add: held_ok_def)

lemma held_last: "held_ok p \<Longrightarrow> last p \<noteq> 116"
  if "p \<noteq> []"
proof
  assume ok: "held_ok p" and l: "last p = 116"
  with that consider "p = [27]" | "take 2 p = [27, 91]" "2 \<le> length p"
      "list_all (\<lambda>c. \<not> csi_final c) (drop 2 p)"
    by (auto simp: held_ok_def)
  then show False
  proof cases
    case 2
    have p: "p = [27, 91] @ drop 2 p" using 2(1) by (metis append_take_drop_id)
    show False
    proof (cases "drop 2 p = []")
      case True
      with p have "p = [27, 91]" by simp
      then show False using l by simp
    next
      case False
      then have "last (drop 2 p) = 116" using p l by (metis last_appendR)
      then show False using 2(3) False last_in_set [OF False] by (auto simp: list_all_iff)
    qed
  qed (use l in simp)
qed

lemma answer_held: "held_ok p \<Longrightarrow> tf_answer r p = p"
  using held_last [of p] by (cases "p = []") (auto simp: tf_answer_def scan_answer_def)

lemma answer_byte: "tf_answer r [c] = [c]"
proof -
  have "scan_answer [c] = None" for c by (simp add: scan_answer_def)
  then show ?thesis by (simp add: tf_answer_def)
qed

text \<open>The stream cut into pieces: which of them may be changed, and into what.\<close>

definition pieces_ok :: "int \<Rightarrow> byte list list \<Rightarrow> bool" where
  "pieces_ok r qs = list_all (\<lambda>q. tf_answer r q \<noteq> q \<longrightarrow> csi_seq q) qs"

lemma byte_pieces:
  assumes ok: "held_ok p" and step: "tfm_byte r p c = (p', out)"
  shows "held_ok p' \<and> (\<exists>qs. p @ [c] = concat qs @ p' \<and> out = concat (map (tf_answer r) qs) \<and>
    pieces_ok r qs)"
proof -
  have restart: ?thesis if "tfm_restart p c = (p', out)"
  proof (cases "c = 27")
    case True
    then have "p' = [27]" "out = p" using that by (simp_all add: tfm_restart_def)
    then show ?thesis using True ok
      by (auto simp: answer_held pieces_ok_def intro!: exI [of _ "[p]"])
  next
    case False
    then have "p' = []" "out = p @ [c]" using that by (simp_all add: tfm_restart_def)
    then show ?thesis using ok
      by (auto simp: answer_held answer_byte pieces_ok_def
          intro!: exI [of _ "[p, [c]]"])
  qed
  consider (re) "p = [] \<or> TF_PEND - 1 \<le> length p \<or> length p = 1 \<and> c \<noteq> 91"
    | (opened) "length p = 1" "c = 91"
    | (final) "2 \<le> length p" "length p < TF_PEND - 1" "csi_final c"
    | (more) "2 \<le> length p" "length p < TF_PEND - 1" "\<not> csi_final c"
    using not_less_eq_eq [of "length p" 1] by (cases p) fastforce+
  then show ?thesis
  proof cases
    case re
    then have "tfm_restart p c = (p', out)" using step by (auto simp: tfm_byte_def split: if_splits)
    then show ?thesis by (rule restart)
  next
    case opened
    then have p: "p = [27]" using ok by (cases p) (auto simp: held_ok_def)
    then have "p' = [27, 91]" "out = []" using step opened by (auto simp: tfm_byte_def)
    then show ?thesis using p opened
      by (intro conjI exI [of _ "[]"]) (simp_all add: held_ok_def pieces_ok_def)
  next
    case final
    then have p': "p' = []" "out = tf_answer r (p @ [c])" using step by (auto simp: tfm_byte_def split: if_splits)
    have "csi_seq (p @ [c])"
      using ok final by (auto simp: held_ok_def csi_seq_def butlast_append)
    then show ?thesis using p'
      by (intro conjI exI [of _ "[p @ [c]]"]) (simp_all add: pieces_ok_def)
  next
    case more
    then have p': "p' = p @ [c]" "out = []" using step by (auto simp: tfm_byte_def split: if_splits)
    have "held_ok (p @ [c])" using ok more by (auto simp: held_ok_def)
    then show ?thesis using p' by (intro conjI exI [of _ "[]"]) (simp_all add: pieces_ok_def)
  qed
qed

lemma steps_pieces:
  "held_ok p \<Longrightarrow> steps (tfm_byte r) p s = (p', out) \<Longrightarrow>
   held_ok p' \<and> (\<exists>qs. p @ s = concat qs @ p' \<and> out = concat (map (tf_answer r) qs) \<and> pieces_ok r qs)"
proof (induction s arbitrary: p out)
  case Nil
  then show ?case by (auto simp: pieces_ok_def intro!: exI [of _ "[]"])
next
  case (Cons c s)
  obtain p1 o1 where one: "tfm_byte r p c = (p1, o1)" by (cases "tfm_byte r p c")
  obtain o2 where rest: "steps (tfm_byte r) p1 s = (p', o2)" "out = o1 @ o2"
    using Cons.prems(2) one by (cases "steps (tfm_byte r) p1 s") (simp add: Let_def)
  from byte_pieces [OF Cons.prems(1) one] obtain q1 where q1: "held_ok p1"
    "p @ [c] = concat q1 @ p1" "o1 = concat (map (tf_answer r) q1)" "pieces_ok r q1" by blast
  from Cons.IH [OF q1(1) rest(1)] obtain q2 where q2: "held_ok p'"
    "p1 @ s = concat q2 @ p'" "o2 = concat (map (tf_answer r) q2)" "pieces_ok r q2" by blast
  have "p @ c # s = (p @ [c]) @ s" by simp
  also have "\<dots> = concat (q1 @ q2) @ p'" using q1(2) q2(2) by (metis append.assoc concat_append)
  finally show ?case
    using q1 q2 rest(2) by (intro conjI exI [of _ "q1 @ q2"]) (simp_all add: pieces_ok_def)
qed

lemma scan_answer_parts:
  assumes "scan_answer q = Some (rows, cols)"
  obtains s r1 r2 where "s = takeWhile (\<lambda>c. c \<noteq> 0) q" "take 4 s = [27, 91, 56, 59]"
    "scan_5d (drop 4 s) = Some (rows, r1)" "take 1 r1 = [59]" "scan_5d (drop 1 r1) = Some (cols, r2)"
proof -
  let ?s = "takeWhile (\<lambda>c. c \<noteq> 0) q"
  have pre: "take 4 ?s = [27, 91, 56, 59]"
    using assms by (rule contrapos_pp) (simp add: scan_answer_def)
  obtain x r1 where one: "scan_5d (drop 4 ?s) = Some (x, r1)"
    using assms pre by (cases "scan_5d (drop 4 ?s)") (auto simp: scan_answer_def)
  have semi: "take 1 r1 = [59]"
    using assms by (rule contrapos_pp) (simp add: scan_answer_def pre one)
  obtain y r2 where two: "scan_5d (drop 1 r1) = Some (y, r2)"
    using assms pre one semi by (cases "scan_5d (drop 1 r1)") (auto simp: scan_answer_def)
  have "x = rows" "y = cols" using assms pre one semi two by (simp_all add: scan_answer_def)
  then show thesis using that [OF refl pre] one semi two by simp
qed

lemma length_answer_text:
  assumes a: "0 < r" "r < rows" "scan_answer q = Some (rows, cols)" "last q = 116"
  shows "length (print_answer (rows - r) cols) \<le> length q"
  using a(3)
proof (rule scan_answer_parts)
  fix s r1 r2
  assume s: "s = takeWhile (\<lambda>c. c \<noteq> 0) q" and pre: "take 4 s = [27, 91, 56, 59]"
    and sc: "scan_5d (drop 4 s) = Some (rows, r1)" "take 1 r1 = [59]"
      "scan_5d (drop 1 r1) = Some (cols, r2)"
  have "length (take 4 s) = 4" by (simp only: pre) simp
  then have s4: "length s = 4 + length (drop 4 s)" by simp
  have "r1 \<noteq> []" using sc(2) by auto
  then have "length (drop 1 r1) + 1 = length r1" by (cases r1) simp_all
  then have total: "length (print_answer (rows - r) cols) + length r2 \<le> length s + 1"
    using length_scan(2) [OF sc(1), of "rows - r"] length_scan(1) [OF sc(3)] a(1,2) s4
    unfolding print_answer_def length_append list.size by linarith
  show ?thesis
  proof (cases "s = q")
    case True
    have "drop 4 s \<noteq> []" using sc(1) by (auto simp: scan_5d_def)
    then have "last (drop 4 s) = 116" using True a(4) by simp
    then have "last r1 = 116" using last_scan [OF sc(1)] by auto
    moreover have "drop 1 r1 \<noteq> []" using sc(3) by (auto simp: scan_5d_def)
    ultimately have "last (drop 1 r1) = 116" by simp
    then have "r2 \<noteq> []" using last_scan [OF sc(3)] by simp
    then have "0 < length r2" by simp
    then show ?thesis using total unfolding True by linarith
  next
    case False
    then have "length s < length q"
      unfolding s using length_takeWhile_le [of "\<lambda>c. c \<noteq> 0" q]
      by (metis le_neq_implies_less takeWhile_eq_take take_all order_refl)
    then show ?thesis using total by linarith
  qed
qed

lemma length_answer: "length (tf_answer r q) \<le> length q"
proof (cases "tf_answer r q = q")
  case False
  then obtain rows cols where a: "0 < r" "r < rows" "scan_answer q = Some (rows, cols)" "last q = 116"
    and out: "tf_answer r q = take (TF_PEND - 1) (print_answer (rows - r) cols)"
    by (auto simp: tf_answer_def split: option.splits if_splits)
  show ?thesis using length_answer_text [OF a] by (simp add: out)
qed simp

lemma length_pieces: "length (concat (map (tf_answer r) qs)) \<le> length (concat qs)"
  by (induction qs) (simp_all add: add_mono length_answer)


definition tf_start :: "int \<Rightarrow> termfilter" where
  "tf_start r = termfilter_init \<lparr>tf_reserve = 0, tf_pend = replicate 32 0, tf_npend = 5\<rparr> r"

lemma tf_start_simps [simp]: "tf_inv r (tf_start r)" "tf_held (tf_start r) = []" "tf_npend (tf_start r) = 0"
  by (simp_all add: tf_start_def termfilter_init_def tf_inv_def tf_held_def)


section \<open>The size answer\<close>

lemma steps_held:
  "2 \<le> length p \<Longrightarrow> length p + length s \<le> TF_PEND - 1 \<Longrightarrow> \<forall>c \<in> set s. \<not> csi_final c \<Longrightarrow>
   steps (tfm_byte r) p s = (p @ s, [])"
proof (induction s arbitrary: p)
  case (Cons c s)
  then have "tfm_byte r p c = (p @ [c], [])" by (auto simp: tfm_byte_def)
  then show ?case using Cons by simp
qed simp

lemma length_print_answer:
  "rows < 100000 \<Longrightarrow> cols < 100000 \<Longrightarrow> length (print_answer (int rows) (int cols)) \<le> 16"
  using length_print_nat [of rows 5] length_print_nat [of cols 5]
  by (simp add: print_answer_def print_int_def)

lemma digit_not_final: "is_digit c \<Longrightarrow> \<not> csi_final c"
  by (auto simp: is_digit_def csi_final_def word_le_nat_alt)

lemma answer_steps:
  assumes "rows < 100000" "cols < 100000"
  shows "steps (tfm_byte r) [] (print_answer (int rows) (int cols)) =
    ([], tf_answer r (print_answer (int rows) (int cols)))"
proof -
  define m where "m = [56, 59] @ print_nat rows @ [59] @ print_nat cols"
  have q: "print_answer (int rows) (int cols) = [27, 91] @ m @ [116]"
    by (simp add: print_answer_def print_int_def m_def)
  have m: "\<forall>c \<in> set m. \<not> csi_final c"
    using print_nat_digits digit_not_final
    by (auto simp: m_def) (auto simp: csi_final_def)
  have len: "length m \<le> 13" using length_print_answer [OF assms] by (simp add: q)
  have "steps (tfm_byte r) [] [27, 91] = ([27, 91], [])"
    by (simp add: tfm_byte_def tfm_restart_def)
  moreover have "steps (tfm_byte r) [27, 91] m = ([27, 91] @ m, [])"
    using len m by (intro steps_held) simp_all
  moreover have "steps (tfm_byte r) ([27, 91] @ m) [116] = ([], tf_answer r (([27, 91] @ m) @ [116]))"
    using len by (simp add: tfm_byte_def)
  ultimately show ?thesis by (simp only: q steps_append) simp
qed

text \<open>The terminal's answer, read by the filter with nothing held, leaves it as one with the
  reserved rows taken off; one of no more rows than that is passed on as it came.\<close>

theorem termfilter_answer:
  assumes "tf_inv r f" "tf_npend f = 0" "0 < r" "rows < 100000" "cols < 100000"
  shows "snd (termfilter_run f (print_answer (int rows) (int cols))) =
      print_answer (if r < int rows then int rows - r else int rows) (int cols) \<and>
    tf_npend (fst (termfilter_run f (print_answer (int rows) (int cols)))) = 0"
proof -
  let ?q = "print_answer (int rows) (int cols)"
  have "tf_held f = []" using assms(2) by (simp add: tf_held_def)
  then have view: "tf_held (fst (termfilter_run f ?q)) = []"
      "snd (termfilter_run f ?q) = tf_answer r ?q" "tf_inv r (fst (termfilter_run f ?q))"
    using run_view [OF assms(1), of ?q] answer_steps [OF assms(4,5), of r] by auto
  have last: "last ?q = 116" by (simp add: print_answer_def)
  have "length (print_answer (int rows - r) (int cols)) \<le> 31" if "r < int rows"
  proof -
    have "nat (int rows - r) < 100000" using assms(3,4) by linarith
    from length_print_answer [OF this assms(5)] show ?thesis using that by simp
  qed
  then have "tf_answer r ?q = print_answer (if r < int rows then int rows - r else int rows) (int cols)"
    by (simp add: tf_answer_def last scan_print_answer [OF assms(4,5)] assms(3))
  then show ?thesis using view length_held [OF view(3)] by simp
qed

theorem termfilter_answer_witness:
  "snd (termfilter_run (tf_start 1) (print_answer 24 80)) = print_answer 23 80"
  using termfilter_answer [of 1 "tf_start 1" 24 80] by simp


end
