(* ===== verification/Nsfacts.thy ===== *)
theory Nsfacts
  imports Netstate
begin

text \<open>
  nsfacts.c, the crossing between the threads that learn something about the network and the loop
  that owns the network state, and its use in peering.c: threads post under the lock, the loop
  takes what is waiting and feeds it to netstate.c. Each call is one atomic step.

  Per family an answer, a list of new servers and the end of a probe round are each a slot; the
  addresses seen are a queue of at most sixteen. The array \<open>q[NSFACTS_MAX]\<close> with its count is the
  list of its first \<open>n\<close> entries.
\<close>

datatype nsf_kind = NSF_ROUNDTRIP | NSF_PROBE_DONE | NSF_ADDR | NSF_SERVERS

abbreviation NSFACTS_MAX :: nat where "NSFACTS_MAX \<equiv> 16"
abbreviation NSFACTS_OUT :: nat where "NSFACTS_OUT \<equiv> NSFACTS_MAX + 4"

record nsfact =
  fact_kind :: nsf_kind
  fact_family :: nat
  fact_epoch :: u32
  fact_addr :: "byte list"

record nsfacts =
  nsf_q :: "nsfact list"
  nsf_rt :: "bool list"
  nsf_rt_epoch :: "u32 list"
  nsf_done :: "bool list"
  nsf_done_epoch :: "u32 list"
  nsf_more :: "bool list"
  nsf_more_epoch :: "u32 list"

section \<open>The code\<close>

definition nsf_addr_len :: "nat \<Rightarrow> nat" where
  "nsf_addr_len family = (if family = 6 then 16 else 4)"

definition nsfacts_init :: nsfacts where
  "nsfacts_init = \<lparr>nsf_q = [], nsf_rt = [False, False], nsf_rt_epoch = [0, 0],
     nsf_done = [False, False], nsf_done_epoch = [0, 0],
     nsf_more = [False, False], nsf_more_epoch = [0, 0]\<rparr>"

definition nsfacts_post :: "nsfacts \<Rightarrow> nsf_kind \<Rightarrow> nat \<Rightarrow> u32 \<Rightarrow> nsfacts" where
  "nsfacts_post f kind family epoch =
     (let i = fam_idx family
      in if kind = NSF_ROUNDTRIP
         then f\<lparr>nsf_rt := (nsf_rt f)[i := True], nsf_rt_epoch := (nsf_rt_epoch f)[i := epoch]\<rparr>
         else if kind = NSF_PROBE_DONE
         then f\<lparr>nsf_done := (nsf_done f)[i := True], nsf_done_epoch := (nsf_done_epoch f)[i := epoch]\<rparr>
         else if kind = NSF_SERVERS
         then f\<lparr>nsf_more := (nsf_more f)[i := True], nsf_more_epoch := (nsf_more_epoch f)[i := epoch]\<rparr>
         else f)"

definition nsfacts_post_addr :: "nsfacts \<Rightarrow> nat \<Rightarrow> u32 \<Rightarrow> byte list \<Rightarrow> nsfacts" where
  "nsfacts_post_addr f family epoch addr =
     (let len = nsf_addr_len family
      in if list_ex (\<lambda>e. fact_kind e = NSF_ADDR \<and> fact_family e = family \<and> fact_epoch e = epoch \<and>
                         take len (fact_addr e) = take len addr) (nsf_q f)
         then f
         else if NSFACTS_MAX \<le> length (nsf_q f) then f
         else f\<lparr>nsf_q := nsf_q f @
           [\<lparr>fact_kind = NSF_ADDR, fact_family = family, fact_epoch = epoch,
             fact_addr = take len addr @ replicate (16 - len) 0\<rparr>]\<rparr>)"

text \<open>One of the per-family slots as a fact.\<close>

definition nsf_emit :: "nsf_kind \<Rightarrow> nat \<Rightarrow> u32 \<Rightarrow> nsfact" where
  "nsf_emit kind i epoch = \<lparr>fact_kind = kind, fact_family = (if i \<noteq> 0 then 6 else 4),
     fact_epoch = epoch, fact_addr = replicate 16 0\<rparr>"

text \<open>One of the loops of \<open>nsfacts_take\<close> over the two families: the slots still set and what was
  handed back, of which there may be \<open>room\<close>.\<close>

fun take_slots :: "nsf_kind \<Rightarrow> nat \<Rightarrow> u32 list \<Rightarrow> nat list \<Rightarrow> bool list \<times> nsfact list \<Rightarrow>
    bool list \<times> nsfact list" where
  "take_slots kind room epochs [] (slots, out) = (slots, out)"
| "take_slots kind room epochs (i # is) (slots, out) =
     (if \<not> slots ! i \<or> room \<le> length out then take_slots kind room epochs is (slots, out)
      else take_slots kind room epochs is
        (slots[i := False], out @ [nsf_emit kind i (epochs ! i)]))"

definition nsfacts_take :: "nsfacts \<Rightarrow> nat \<Rightarrow> nsfacts \<times> nsfact list" where
  "nsfacts_take f room =
     (let (rt, out) = take_slots NSF_ROUNDTRIP room (nsf_rt_epoch f) [0, 1] (nsf_rt f, []);
          (more, out) = take_slots NSF_SERVERS room (nsf_more_epoch f) [0, 1] (nsf_more f, out);
          i = min (length (nsf_q f)) (room - length out);
          out = out @ take i (nsf_q f);
          q = drop i (nsf_q f);
          (don, out) = take_slots NSF_PROBE_DONE room (nsf_done_epoch f) [0, 1] (nsf_done f, out)
      in (f\<lparr>nsf_rt := rt, nsf_more := more, nsf_q := q, nsf_done := don\<rparr>, out))"

text \<open>\<open>peering_facts_feed\<close>: what a fact says to the network state.\<close>

definition peering_facts_feed :: "netstate \<Rightarrow> nsfact \<Rightarrow> u32 \<Rightarrow> u64 \<Rightarrow> netstate \<times> bool" where
  "peering_facts_feed ns q epoch now =
     (case fact_kind q of
        NSF_ROUNDTRIP \<Rightarrow> (netstate_on_roundtrip ns (fact_family q) epoch, False)
      | NSF_SERVERS \<Rightarrow> (netstate_on_servers ns (fact_family q) epoch now, False)
      | NSF_ADDR \<Rightarrow>
          (netstate_on_reflexive ns (fact_family q) epoch
             (take (if fact_family q = 6 then 16 else 4) (fact_addr q)), False)
      | NSF_PROBE_DONE \<Rightarrow> (netstate_on_probe_done ns (fact_family q) epoch now, True))"

section \<open>What is waiting\<close>

definition nsf_wf :: "nsfacts \<Rightarrow> bool" where
  "nsf_wf f = (length (nsf_rt f) = 2 \<and> length (nsf_rt_epoch f) = 2 \<and> length (nsf_done f) = 2 \<and>
     length (nsf_done_epoch f) = 2 \<and> length (nsf_more f) = 2 \<and> length (nsf_more_epoch f) = 2 \<and>
     length (nsf_q f) \<le> NSFACTS_MAX)"

definition slot_facts :: "nsf_kind \<Rightarrow> bool list \<Rightarrow> u32 list \<Rightarrow> nsfact list" where
  "slot_facts kind slots epochs =
     (if slots ! 0 then [nsf_emit kind 0 (epochs ! 0)] else []) @
     (if slots ! 1 then [nsf_emit kind 1 (epochs ! 1)] else [])"

text \<open>Everything waiting, in the order it is to be said.\<close>

definition waiting :: "nsfacts \<Rightarrow> nsfact list" where
  "waiting f = slot_facts NSF_ROUNDTRIP (nsf_rt f) (nsf_rt_epoch f) @
     slot_facts NSF_SERVERS (nsf_more f) (nsf_more_epoch f) @ nsf_q f @
     slot_facts NSF_PROBE_DONE (nsf_done f) (nsf_done_epoch f)"

lemma take_slots_exact:
  assumes "length slots = 2"
  shows "take_slots kind room epochs [0, 1] (slots, out) = (slots', out') \<Longrightarrow>
    length slots' = 2 \<and> out' = out @ take (room - length out) (slot_facts kind slots epochs) \<and>
    slot_facts kind slots' epochs = drop (room - length out) (slot_facts kind slots epochs)"
proof -
  obtain a b where s: "slots = [a, b]" using assms by (auto simp: length_Suc_conv numeral_2_eq_2)
  consider "room \<le> length out" | "room = Suc (length out)"
    | k where "room = Suc (Suc (length out + k))"
    by (metis le_Suc_ex not_less_eq_eq order_antisym plus_nat.simps(2))
  then show "take_slots kind room epochs [0, 1] (slots, out) = (slots', out') \<Longrightarrow> ?thesis"
  proof cases
    case 1
    then show "take_slots kind room epochs [0, 1] (slots, out) = (slots', out') \<Longrightarrow> ?thesis"
      by (auto simp: s)
  next
    case 2
    then show "take_slots kind room epochs [0, 1] (slots, out) = (slots', out') \<Longrightarrow> ?thesis"
      by (cases a; cases b) (auto simp: s slot_facts_def)
  next
    case (3 k)
    then show "take_slots kind room epochs [0, 1] (slots, out) = (slots', out') \<Longrightarrow> ?thesis"
      by (cases a; cases b) (auto simp: s slot_facts_def)
  qed
qed

lemma take_append_room: "take n xs @ take (n - length (take n xs)) ys = take n (xs @ ys)"
  by (cases "n \<le> length xs") simp_all

lemma drop_append_room: "drop n xs @ drop (n - length (take n xs)) ys = drop n (xs @ ys)"
  by (cases "n \<le> length xs") simp_all

text \<open>A call that has room for \<open>room\<close> facts hands back that many of those waiting, in order, and
  leaves the rest waiting.\<close>

lemma take_waiting:
  assumes "nsf_wf f" "nsfacts_take f room = (f', out)"
  shows "out = take room (waiting f) \<and> waiting f' = drop room (waiting f) \<and> nsf_wf f'"
proof -
  let ?R = "slot_facts NSF_ROUNDTRIP (nsf_rt f) (nsf_rt_epoch f)"
  let ?M = "slot_facts NSF_SERVERS (nsf_more f) (nsf_more_epoch f)"
  let ?D = "slot_facts NSF_PROBE_DONE (nsf_done f) (nsf_done_epoch f)"
  obtain rt o1 where t1: "take_slots NSF_ROUNDTRIP room (nsf_rt_epoch f) [0, 1] (nsf_rt f, []) = (rt, o1)"
    by fastforce
  obtain more o2 where t2: "take_slots NSF_SERVERS room (nsf_more_epoch f) [0, 1] (nsf_more f, o1) = (more, o2)"
    by fastforce
  define i where "i = min (length (nsf_q f)) (room - length o2)"
  obtain don o3 where t3: "take_slots NSF_PROBE_DONE room (nsf_done_epoch f) [0, 1]
      (nsf_done f, o2 @ take i (nsf_q f)) = (don, o3)"
    by fastforce
  have f': "f' = f\<lparr>nsf_rt := rt, nsf_more := more, nsf_q := drop i (nsf_q f), nsf_done := don\<rparr>"
    and out: "out = o3"
    using assms(2) t1 t2 t3 by (simp_all add: nsfacts_take_def Let_def i_def)
  have two: "length (nsf_rt f) = 2" "length (nsf_more f) = 2" "length (nsf_done f) = 2"
    using assms(1) by (simp_all add: nsf_wf_def)
  note s1 = take_slots_exact [OF two(1) t1] and s2 = take_slots_exact [OF two(2) t2]
    and s3 = take_slots_exact [OF two(3) t3]
  have q: "take i (nsf_q f) = take (room - length o2) (nsf_q f)"
    "drop i (nsf_q f) = drop (room - length o2) (nsf_q f)"
    by (auto simp: i_def min_def)
  have o1: "o1 = take room ?R" using s1 by simp
  have o2: "o2 = take room (?R @ ?M)" using s2 unfolding o1 by (simp only: take_append_room)
  have o3: "o2 @ take i (nsf_q f) = take room ((?R @ ?M) @ nsf_q f)"
    unfolding q by (simp only: o2 take_append_room)
  have "out = take room (((?R @ ?M) @ nsf_q f) @ ?D)"
    using s3 unfolding out o3 by (simp only: take_append_room)
  moreover have "waiting f' = drop room (((?R @ ?M) @ nsf_q f) @ ?D)"
  proof -
    let ?R' = "slot_facts NSF_ROUNDTRIP rt (nsf_rt_epoch f)"
    let ?M' = "slot_facts NSF_SERVERS more (nsf_more_epoch f)"
    let ?D' = "slot_facts NSF_PROBE_DONE don (nsf_done_epoch f)"
    have "?R' = drop room ?R" using s1 by simp
    then have "?R' @ ?M' = drop room (?R @ ?M)"
      using s2 unfolding o1 by (simp only: drop_append_room)
    then have "(?R' @ ?M') @ drop i (nsf_q f) = drop room ((?R @ ?M) @ nsf_q f)"
      unfolding q by (simp only: o2 drop_append_room)
    then have "((?R' @ ?M') @ drop i (nsf_q f)) @ ?D' = drop room (((?R @ ?M) @ nsf_q f) @ ?D)"
      using s3 unfolding o3 by (simp only: drop_append_room)
    then show ?thesis by (simp add: f' waiting_def)
  qed
  moreover have "nsf_wf f'" using assms(1) s1 s2 s3 by (auto simp: f' nsf_wf_def)
  ultimately show ?thesis by (simp add: waiting_def)
qed

section \<open>What may be lost\<close>

text \<open>The operations of the other threads and of the loop.\<close>

datatype nsf_op =
    Op_post nsf_kind nat u32
  | Op_post_addr nat u32 "byte list"
  | Op_facts_take nat

fun nsf_step :: "nsfacts \<Rightarrow> nsf_op \<Rightarrow> nsfacts \<times> nsfact list" where
  "nsf_step f (Op_post kind family epoch) = (nsfacts_post f kind family epoch, [])"
| "nsf_step f (Op_post_addr family epoch addr) = (nsfacts_post_addr f family epoch addr, [])"
| "nsf_step f (Op_facts_take room) = nsfacts_take f room"

fun nsf_run :: "nsfacts \<Rightarrow> nsf_op list \<Rightarrow> nsfacts \<times> nsfact list" where
  "nsf_run f [] = (f, [])"
| "nsf_run f (p # ps) = (let (f, o1) = nsf_step f p; (f, o2) = nsf_run f ps in (f, o1 @ o2))"

lemma fact_family_less [simp]: "fam_idx family < 2"
  by (simp add: fam_idx_def)

lemma post_wf: "nsf_wf f \<Longrightarrow> nsf_wf (nsfacts_post f kind family epoch)"
  by (simp add: nsfacts_post_def nsf_wf_def Let_def)

lemma post_addr_wf: "nsf_wf f \<Longrightarrow> nsf_wf (nsfacts_post_addr f family epoch addr)"
  by (simp add: nsfacts_post_addr_def nsf_wf_def Let_def)

lemma step_wf: "nsf_wf f \<Longrightarrow> nsf_wf (fst (nsf_step f p))"
  using take_waiting [of f]
  by (cases p) (simp_all add: post_wf post_addr_wf, metis prod.collapse)

text \<open>The end of a round on a family is waiting.\<close>

definition round_over :: "nsfacts \<Rightarrow> nat \<Rightarrow> bool" where
  "round_over f family = (\<exists>e. nsf_emit NSF_PROBE_DONE (fam_idx family) e \<in> set (waiting f))"

text \<open>A queued address is never taken for the end of a round.\<close>

definition queue_addrs :: "nsfacts \<Rightarrow> bool" where
  "queue_addrs f = list_all (\<lambda>q. fact_kind q = NSF_ADDR) (nsf_q f)"

lemma round_over_iff:
  assumes "queue_addrs f"
  shows "round_over f family \<longleftrightarrow> nsf_done f ! fam_idx family"
proof -
  have "\<not> nsf_emit NSF_PROBE_DONE i e \<in> set (nsf_q f)" for i e
    using assms by (auto simp: queue_addrs_def list_all_iff nsf_emit_def)
  then show ?thesis
    by (auto simp: round_over_def waiting_def slot_facts_def fam_idx_def nsf_emit_def)
qed

lemma take_queue: "set (nsf_q (fst (nsfacts_take f room))) \<subseteq> set (nsf_q f)"
  by (simp add: nsfacts_take_def Let_def split_beta set_drop_subset del: take_slots.simps)

lemma step_addrs: "queue_addrs f \<Longrightarrow> queue_addrs (fst (nsf_step f p))"
proof (cases p)
  case (Op_facts_take room)
  assume "queue_addrs f"
  then show ?thesis
    using take_queue [of f room] Op_facts_take
    by (auto simp: queue_addrs_def list_all_iff)
qed (auto simp: queue_addrs_def nsfacts_post_def nsfacts_post_addr_def Let_def)

lemma step_round:
  assumes "nsf_wf f" "queue_addrs f" "round_over f family" "nsf_step f p = (f', out)"
  shows "round_over f' family \<or>
    (\<exists>e. nsf_emit NSF_PROBE_DONE (fam_idx family) e \<in> set out)"
proof (cases p)
  case (Op_post kind fam e)
  have "queue_addrs f'" using step_addrs [OF assms(2), of p] assms(4) by simp
  moreover have "nsf_done f' ! fam_idx family"
    using assms Op_post unfolding round_over_iff [OF assms(2)]
    by (auto simp: nsfacts_post_def Let_def nsf_wf_def nth_list_update)
  ultimately show ?thesis by (simp add: round_over_iff)
next
  case (Op_post_addr fam e addr)
  have "queue_addrs f'" using step_addrs [OF assms(2), of p] assms(4) by simp
  moreover have "nsf_done f' ! fam_idx family"
    using assms Op_post_addr unfolding round_over_iff [OF assms(2)]
    by (auto simp: nsfacts_post_addr_def Let_def split: if_splits)
  ultimately show ?thesis by (simp add: round_over_iff)
next
  case (Op_facts_take room)
  then have "out = take room (waiting f)" "waiting f' = drop room (waiting f)"
    using take_waiting [OF assms(1)] assms(4) by simp_all
  then have "set (waiting f) = set out \<union> set (waiting f')"
    by (metis append_take_drop_id set_append)
  then show ?thesis using assms(3) by (auto simp: round_over_def)
qed

lemma run_round:
  "nsf_wf f \<Longrightarrow> queue_addrs f \<Longrightarrow> round_over f family \<Longrightarrow> nsf_run f ps = (f', out) \<Longrightarrow>
   round_over f' family \<or> (\<exists>e. nsf_emit NSF_PROBE_DONE (fam_idx family) e \<in> set out)"
proof (induction ps arbitrary: f out)
  case (Cons p ps)
  obtain g o1 where one: "nsf_step f p = (g, o1)" by fastforce
  obtain o2 where rest: "nsf_run g ps = (f', o2)" "out = o1 @ o2"
    using Cons.prems(4) one by (auto simp: Let_def split: prod.splits)
  have "nsf_wf g" "queue_addrs g"
    using step_wf [OF Cons.prems(1), of p] step_addrs [OF Cons.prems(2), of p] one by auto
  then show ?case
    using step_round [OF Cons.prems(1-3) one] Cons.IH [OF _ _ _ rest(1)] rest(2) by auto
qed simp

lemma run_wf:
  "nsf_wf f \<Longrightarrow> queue_addrs f \<Longrightarrow> nsf_run f ps = (f', out) \<Longrightarrow> nsf_wf f' \<and> queue_addrs f'"
proof (induction ps arbitrary: f out)
  case (Cons p ps)
  then show ?case
    using step_wf [OF Cons.prems(1), of p] step_addrs [OF Cons.prems(2), of p]
    by (auto simp: Let_def split: prod.splits)
qed simp

lemma init_wf [simp]: "nsf_wf nsfacts_init" "queue_addrs nsfacts_init"
  by (simp_all add: nsfacts_init_def nsf_wf_def queue_addrs_def)



text \<open>In whatever portions the loop takes what is waiting, it gets all of it, in order and once.\<close>

theorem facts_taken_in_order:
  assumes "nsf_run nsfacts_init ps = (f, out0)" "nsfacts_take f room = (f', out)"
  shows "out = take room (waiting f) \<and> waiting f' = drop room (waiting f)"
  using take_waiting [OF _ assms(2)] run_wf [OF _ _ assms(1)] by auto

theorem facts_taken_in_order_witness:
  "snd (nsfacts_take (nsfacts_post nsfacts_init NSF_ROUNDTRIP 4 1) 1) =
   take 1 (waiting (nsfacts_post nsfacts_init NSF_ROUNDTRIP 4 1))"
  using facts_taken_in_order [of "[Op_post NSF_ROUNDTRIP 4 1]"
      "nsfacts_post nsfacts_init NSF_ROUNDTRIP 4 1" "[]" 1
      "fst (nsfacts_take (nsfacts_post nsfacts_init NSF_ROUNDTRIP 4 1) 1)"
      "snd (nsfacts_take (nsfacts_post nsfacts_init NSF_ROUNDTRIP 4 1) 1)"]
  by simp

text \<open>The room the header calls enough for everything is two short of it: with both families'
  slots set and the queue full, the ends of both rounds stay behind.\<close>

definition burst :: "nsf_op list" where
  "burst = concat (map (\<lambda>fam. map (\<lambda>k. Op_post k fam 1) [NSF_ROUNDTRIP, NSF_SERVERS, NSF_PROBE_DONE]) [4, 6]) @
     map (\<lambda>i. Op_post_addr 4 1 [10, 0, 0, of_nat i]) [0..<16]"

theorem out_too_small:
  "length (waiting (fst (nsf_run nsfacts_init burst))) = NSFACTS_OUT + 2 \<and>
   map fact_kind (waiting (fst (nsfacts_take (fst (nsf_run nsfacts_init burst)) NSFACTS_OUT))) =
     [NSF_PROBE_DONE, NSF_PROBE_DONE]"
  by code_simp

section \<open>What the network state makes of it\<close>

text \<open>The loop of \<open>peering_settle\<close> over the facts taken.\<close>

definition settle_facts :: "netstate \<Rightarrow> nsfact list \<Rightarrow> u64 \<Rightarrow> netstate" where
  "settle_facts ns fs now = foldl (\<lambda>ns q. fst (peering_facts_feed ns q (fact_epoch q) now)) ns fs"

text \<open>A family keeps its epoch and starts no round of its own accord.\<close>

definition no_start :: "famx \<Rightarrow> famx \<Rightarrow> bool" where
  "no_start x y = (nf_epoch (fst y) = nf_epoch (fst x) \<and>
     (nf_probe_running (fst y) \<longrightarrow> nf_probe_running (fst x)))"

lemma no_start_ops:
  "no_start x (fam_on_probe_done e now x)" "no_start x (fam_on_servers e now x)"
  "no_start x (fam_on_roundtrip e x)" "no_start x (fam_on_reflexive fam e a x)"
  by (simp_all add: no_start_def fam_on_probe_done_def fam_on_servers_def fam_on_roundtrip_def
      fam_on_reflexive_def sync_conn_def raise_act_def xlat_note_def Let_def split: option.split)

lemma with_fam_no_start:
  assumes "\<And>x. no_start x (g x)" "length (ns_f ns) = 2" "i < 2" "j < 2"
  shows "no_start (ns_f ns ! j, p) (ns_f (with_fam ns i g) ! j, p) \<and> length (ns_f (with_fam ns i g)) = 2"
  using assms(1) [of "(ns_f ns ! i, ns_pend ns ! i)"] assms(2-4)
  by (cases "i = j") (simp_all add: with_fam_def split_beta Let_def no_start_def)

lemma feed_no_start:
  "length (ns_f ns) = 2 \<Longrightarrow> j < 2 \<Longrightarrow>
   no_start (ns_f ns ! j, p) (ns_f (fst (peering_facts_feed ns q e now)) ! j, p) \<and>
   length (ns_f (fst (peering_facts_feed ns q e now))) = 2"
  by (cases "fact_kind q") (simp_all add: peering_facts_feed_def netstate_on_roundtrip_def
      netstate_on_servers_def netstate_on_reflexive_def netstate_on_probe_done_def
      with_fam_no_start no_start_ops)

lemma settle_no_start:
  "length (ns_f ns) = 2 \<Longrightarrow> j < 2 \<Longrightarrow> no_start (ns_f ns ! j, p) (ns_f (settle_facts ns fs now) ! j, p)"
proof (induction fs arbitrary: ns)
  case Nil
  then show ?case by (simp add: settle_facts_def no_start_def)
next
  case (Cons q fs)
  note one = feed_no_start [OF Cons.prems, of p q "fact_epoch q" now]
  have "settle_facts ns (q # fs) now =
      settle_facts (fst (peering_facts_feed ns q (fact_epoch q) now)) fs now"
    by (simp add: settle_facts_def)
  then show ?case using one Cons.IH [OF one [THEN conjunct2] Cons.prems(2)]
    by (simp add: no_start_def)
qed

text \<open>A round's end that was learnt on the network the family is on, among whatever else the loop
  took, leaves no round running, so that the next may start.\<close>

theorem settled_round_over:
  assumes "length (ns_f ns) = 2" "q \<in> set fs" "fact_kind q = NSF_PROBE_DONE"
    "fact_epoch q = nf_epoch (ns_f ns ! fam_idx (fact_family q))"
  shows "\<not> nf_probe_running (ns_f (settle_facts ns fs now) ! fam_idx (fact_family q))"
proof -
  let ?j = "fam_idx (fact_family q)"
  obtain as bs where fs: "fs = as @ q # bs" using assms(2) by (meson split_list)
  define m where "m = settle_facts ns as now"
  have len: "length (ns_f m) = 2" unfolding m_def
  proof (induction as rule: rev_induct)
    case (snoc a as)
    then show ?case using feed_no_start [of "settle_facts ns as now" 0] by (simp add: settle_facts_def)
  qed (simp add: settle_facts_def assms(1))
  have "fact_epoch q = nf_epoch (ns_f m ! ?j)"
    using settle_no_start [OF assms(1), of ?j 0 as now] assms(4) by (simp add: no_start_def m_def)
  then have "\<not> nf_probe_running (ns_f (fst (peering_facts_feed m q (fact_epoch q) now)) ! ?j)"
    using len assms(3)
    by (simp add: peering_facts_feed_def netstate_on_probe_done_def with_fam_def split_beta
        fam_on_probe_done_def raise_act_def Let_def)
  moreover have "settle_facts ns fs now =
      settle_facts (fst (peering_facts_feed m q (fact_epoch q) now)) bs now"
    by (simp add: settle_facts_def fs m_def)
  moreover have "length (ns_f (fst (peering_facts_feed m q (fact_epoch q) now))) = 2"
    using feed_no_start [OF len, of 0] by simp
  ultimately show ?thesis
    using settle_no_start [of "fst (peering_facts_feed m q (fact_epoch q) now)" ?j 0 bs now]
    by (auto simp: no_start_def)
qed

theorem settled_round_over_witness:
  "let ns = netstate_on_probe_started (netstate_init True 0) 4 1 0
   in nf_probe_running (ns_f ns ! 0) \<and>
      \<not> nf_probe_running (ns_f (settle_facts ns [nsf_emit NSF_PROBE_DONE 0 1] 5) ! 0)"
proof -
  let ?ns = "netstate_on_probe_started (netstate_init True 0) 4 1 0"
  have "length (ns_f ?ns) = 2" "nf_probe_running (ns_f ?ns ! 0)" "nf_epoch (ns_f ?ns ! 0) = 1"
    by (simp_all add: netstate_on_probe_started_def netstate_init_def fam_init_def with_fam_def
        fam_on_probe_started_def fam_idx_def)
  then show ?thesis
    using settled_round_over [of ?ns "nsf_emit NSF_PROBE_DONE 0 1" "[nsf_emit NSF_PROBE_DONE 0 1]" 5]
    by (simp add: nsf_emit_def fam_idx_def)
qed

end
