(* ===== verification/Hostreap.thy ===== *)
theory Hostreap
  imports Prelude
begin

text \<open>
  hostreap.c: when a host's worker gives up on the client it serves. The verdict is computed from
  millisecond stamps at 64 bits; what is shown is what it means in time: the span runs from the last
  thing heard of the client, the loss of the link or a claim after it.
\<close>

definition RESUME_AFTER_MS :: u64 where "RESUME_AFTER_MS = 3000"
definition RESUME_ATTEMPT_MS :: u64 where "RESUME_ATTEMPT_MS = 10000"
definition HOST_REAP_MS :: u64 where "HOST_REAP_MS = RESUME_AFTER_MS + RESUME_ATTEMPT_MS + RESUME_ATTEMPT_MS div 2"
definition HOST_HANDSHAKE_MS :: u64 where "HOST_HANDSHAKE_MS = 30000"

record host_reap =
  hr_conn_start_ms :: u64
  hr_lost_since_ms :: u64
  hr_resume_last_ms :: u64
  hr_resume_pending :: bool
  hr_pong_seen :: bool

datatype host_reap_verdict = HOST_REAP_KEEP | HOST_REAP_SILENT | HOST_REAP_NO_HANDSHAKE

definition host_reap_due :: "host_reap \<Rightarrow> u64 \<Rightarrow> host_reap_verdict" where
  "host_reap_due r now =
     (if \<not> hr_pong_seen r
      then (if HOST_HANDSHAKE_MS < now - hr_conn_start_ms r then HOST_REAP_NO_HANDSHAKE else HOST_REAP_KEEP)
      else if hr_lost_since_ms r = 0 then HOST_REAP_KEEP
      else if hr_resume_pending r then HOST_REAP_KEEP
      else if now - hr_lost_since_ms r \<le> HOST_REAP_MS then HOST_REAP_KEEP
      else if hr_resume_last_ms r \<noteq> 0 \<and> now - hr_resume_last_ms r \<le> HOST_REAP_MS then HOST_REAP_KEEP
      else HOST_REAP_SILENT)"

lemma span_le: "t \<le> now \<Longrightarrow> now - t \<le> c \<longleftrightarrow> unat now \<le> unat t + unat c" for t now c :: u64
  by (simp add: word_le_nat_alt unat_sub) arith

text \<open>
  With stamps that are not in the future, a worker is given up as silent exactly when its link is lost,
  no punch is in flight, and eighteen seconds have passed since the loss and since the last claim:
  a claimant that tries again in time, at three seconds and every ten after, is never given up
  on. Before the first answer the bound is thirty seconds from the start.
\<close>

theorem host_reap_exact:
  assumes "hr_lost_since_ms r \<le> now" "hr_resume_last_ms r \<le> now" "hr_conn_start_ms r \<le> now"
  shows "(host_reap_due r now = HOST_REAP_SILENT \<longleftrightarrow>
      hr_pong_seen r \<and> hr_lost_since_ms r \<noteq> 0 \<and> \<not> hr_resume_pending r \<and>
      max (unat (hr_lost_since_ms r)) (unat (hr_resume_last_ms r)) + 18000 < unat now) \<and>
    (host_reap_due r now = HOST_REAP_NO_HANDSHAKE \<longleftrightarrow>
      \<not> hr_pong_seen r \<and> unat (hr_conn_start_ms r) + 30000 < unat now)"
proof -
  have c: "unat HOST_REAP_MS = 18000" "unat HOST_HANDSHAKE_MS = 30000"
    by (simp_all add: HOST_REAP_MS_def HOST_HANDSHAKE_MS_def RESUME_AFTER_MS_def RESUME_ATTEMPT_MS_def)
  have "hr_resume_last_ms r = 0 \<Longrightarrow> unat (hr_resume_last_ms r) = 0" by simp
  then show ?thesis
    unfolding host_reap_due_def not_le [symmetric] span_le [OF assms(1)] span_le [OF assms(2)] span_le [OF assms(3)] c
    by auto
qed

theorem host_reap_exact_witness:
  "let r = \<lparr>hr_conn_start_ms = 1, hr_lost_since_ms = 1000, hr_resume_last_ms = 14000, hr_resume_pending = False, hr_pong_seen = True\<rparr>
   in host_reap_due r 32000 \<noteq> HOST_REAP_SILENT \<and> host_reap_due r 32001 = HOST_REAP_SILENT"
  using host_reap_exact [of "\<lparr>hr_conn_start_ms = 1, hr_lost_since_ms = 1000, hr_resume_last_ms = 14000, hr_resume_pending = False, hr_pong_seen = True\<rparr>" 32000]
    host_reap_exact [of "\<lparr>hr_conn_start_ms = 1, hr_lost_since_ms = 1000, hr_resume_last_ms = 14000, hr_resume_pending = False, hr_pong_seen = True\<rparr>" 32001]
  by (simp add: Let_def)

end
