(* ===== verification/Claimlog.thy ===== *)
theory Claimlog
  imports Prelude
begin

text \<open>
  claimlog.c: the claimants a host has served, by ICE ufrag, with the password of the attempt each was
  served from. A C string is the list of its characters, a null pointer \<open>None\<close>; a slot that was never
  written is the empty string, which no claimant is looked up by.
\<close>

definition CLAIM_SERVED_MAX :: nat where "CLAIM_SERVED_MAX = 8"
definition CLAIM_UFRAG_LEN :: nat where "CLAIM_UFRAG_LEN = 40"
definition CLAIM_PWD_LEN :: nat where "CLAIM_PWD_LEN = 40"

record claim_served =
  cs_ufrag :: "string list"
  cs_pwd :: "string list"
  cs_next :: nat

definition claim_served_none :: claim_served where
  "claim_served_none = \<lparr>cs_ufrag = replicate CLAIM_SERVED_MAX [], cs_pwd = replicate CLAIM_SERVED_MAX [], cs_next = 0\<rparr>"

definition claim_made :: "string option \<Rightarrow> string option \<Rightarrow> bool" where
  "claim_made conn_pwd claim_pwd =
     (case (conn_pwd, claim_pwd) of (Some a, Some b) \<Rightarrow> a \<noteq> [] \<and> b \<noteq> [] \<and> a = b | _ \<Rightarrow> False)"

definition served_find :: "claim_served \<Rightarrow> string option \<Rightarrow> nat option" where
  "served_find l ufrag =
     (case ufrag of None \<Rightarrow> None | Some u \<Rightarrow> if u = [] then None else find_index (\<lambda>x. x = u) (cs_ufrag l))"

definition claim_served_note :: "claim_served \<Rightarrow> string option \<Rightarrow> string option \<Rightarrow> claim_served" where
  "claim_served_note l ufrag pwd =
     (case ufrag of
        None \<Rightarrow> l
      | Some u \<Rightarrow>
          if u = [] then l
          else
            (let (l, i) =
               (case served_find l ufrag of
                  Some i \<Rightarrow> (l, i)
                | None \<Rightarrow>
                    (l\<lparr>cs_ufrag := (cs_ufrag l)[cs_next l := take (CLAIM_UFRAG_LEN - 1) u],
                       cs_next := (cs_next l + 1) mod CLAIM_SERVED_MAX\<rparr>, cs_next l))
             in l\<lparr>cs_pwd := (cs_pwd l)[i := (case pwd of None \<Rightarrow> [] | Some p \<Rightarrow> take (CLAIM_PWD_LEN - 1) p)]\<rparr>))"

definition claim_served_has :: "claim_served \<Rightarrow> string option \<Rightarrow> bool" where
  "claim_served_has l ufrag = (served_find l ufrag \<noteq> None)"

definition claim_served_made :: "claim_served \<Rightarrow> string option \<Rightarrow> string option \<Rightarrow> bool" where
  "claim_served_made l ufrag pwd =
     (case served_find l ufrag of None \<Rightarrow> False | Some i \<Rightarrow> claim_made (Some (cs_pwd l ! i)) pwd)"

section \<open>What the ring remembers\<close>

definition served_ok :: "claim_served \<Rightarrow> bool" where
  "served_ok l = (length (cs_ufrag l) = 8 \<and> length (cs_pwd l) = 8 \<and> cs_next l < 8)"

definition note_all :: "claim_served \<Rightarrow> (string option \<times> string option) list \<Rightarrow> claim_served" where
  "note_all l ns = foldl (\<lambda>l (u, p). claim_served_note l u p) l ns"

lemma served_ok_none: "served_ok claim_served_none"
  by (simp add: served_ok_def claim_served_none_def CLAIM_SERVED_MAX_def)

lemma served_ok_note: "served_ok l \<Longrightarrow> served_ok (claim_served_note l u p)"
  by (auto simp: served_ok_def claim_served_note_def CLAIM_SERVED_MAX_def Let_def split: option.splits)

lemma served_ok_all: "served_ok l \<Longrightarrow> served_ok (note_all l ns)"
  unfolding note_all_def by (induction ns arbitrary: l) (auto simp: served_ok_note)

lemma served_find_Some: "served_find l (Some u) = Some i \<Longrightarrow> i < length (cs_ufrag l) \<and> cs_ufrag l ! i = u \<and> u \<noteq> []"
  by (auto simp: served_find_def split: if_splits dest: find_index_SomeD)

text \<open>The claimant is in the slot, with the password of its last attempt, and the ring has at least so
  many slots to go before it comes round to it.\<close>

definition slot_held :: "string \<Rightarrow> string \<Rightarrow> nat \<Rightarrow> nat \<Rightarrow> claim_served \<Rightarrow> bool" where
  "slot_held u p i spare l = (served_ok l \<and> i < 8 \<and> served_find l (Some u) = Some i \<and> cs_pwd l ! i = p \<and>
     (\<exists>k. spare \<le> k \<and> k < 8 \<and> (cs_next l + k) mod 8 = i))"

lemma find_update_other:
  assumes "find_index (\<lambda>x. x = u) xs = Some i" "j \<noteq> i" "y \<noteq> u"
  shows "find_index (\<lambda>x. x = u) (xs[j := y]) = Some i"
  using assms
proof (induction xs arbitrary: i j)
  case (Cons x xs)
  then show ?case by (cases j; cases i) (auto split: if_splits)
qed simp

lemma slot_held_other:
  assumes held: "slot_held u p i (Suc spare) l" and v: "v \<noteq> Some u" "pred_option (\<lambda>w. length w < CLAIM_UFRAG_LEN) v"
  shows "slot_held u p i spare (claim_served_note l v q)"
proof (cases "v = None \<or> v = Some []")
  case True
  then show ?thesis using held by (auto simp: claim_served_note_def slot_held_def intro: Suc_leD)
next
  case False
  then obtain w where w: "v = Some w" "w \<noteq> []" "w \<noteq> u" "take (CLAIM_UFRAG_LEN - 1) w = w"
    using v by (cases v) (auto simp: CLAIM_UFRAG_LEN_def)
  have l: "served_ok l" "i < 8" "served_find l (Some u) = Some i" "cs_pwd l ! i = p" using held by (simp_all add: slot_held_def)
  obtain k where k: "Suc spare \<le> k" "k < 8" "(cs_next l + k) mod 8 = i" using held by (auto simp: slot_held_def)
  have u: "u \<noteq> []" "find_index (\<lambda>x. x = u) (cs_ufrag l) = Some i" "cs_ufrag l ! i = u"
    using l(3) served_find_Some [OF l(3)] by (auto simp: served_find_def split: if_splits)
  show ?thesis
  proof (cases "served_find l v")
    case None
    have next': "cs_next l < 8" using l(1) by (simp add: served_ok_def)
    have "cs_next l \<noteq> i" using k next' by (auto simp: mod_if split: if_splits)
    then have "find_index (\<lambda>x. x = u) ((cs_ufrag l)[cs_next l := w]) = Some i" using find_update_other [OF u(2)] w(3) by blast
    moreover have "((cs_next l + 1) mod 8 + (k - 1)) mod 8 = i" 
    proof -
      have "cs_next l + 1 + (k - 1) = cs_next l + k" using k(1) by simp
      then show ?thesis using k(3) mod_add_left_eq [of "cs_next l + 1" 8 "k - 1"] by presburger
    qed
    moreover have "claim_served_note l v q = l\<lparr>cs_ufrag := (cs_ufrag l)[cs_next l := w], cs_next := (cs_next l + 1) mod 8,
        cs_pwd := (cs_pwd l)[cs_next l := (case q of None \<Rightarrow> [] | Some p \<Rightarrow> take (CLAIM_PWD_LEN - 1) p)]\<rparr>"
      using None w by (simp add: claim_served_note_def CLAIM_SERVED_MAX_def)
    moreover have "\<exists>m \<ge> spare. m < 8 \<and> ((cs_next l + 1) mod 8 + m) mod 8 = i"
      using k(1,2) calculation(2) by (intro exI [of _ "k - 1"]) (simp, arith)
    ultimately show ?thesis
      using \<open>cs_next l \<noteq> i\<close> l u(1) served_ok_note [OF l(1), of v q] by (simp add: slot_held_def served_find_def)
  next
    case (Some j)
    then have "j \<noteq> i" using w u(3) served_find_Some [of l w j] by auto
    moreover have "claim_served_note l v q = l\<lparr>cs_pwd := (cs_pwd l)[j := (case q of None \<Rightarrow> [] | Some p \<Rightarrow> take (CLAIM_PWD_LEN - 1) p)]\<rparr>"
      using Some w by (simp add: claim_served_note_def)
    moreover have "\<exists>m \<ge> spare. m < 8 \<and> (cs_next l + m) mod 8 = i" using k by (intro exI [of _ k]) simp
    ultimately show ?thesis
      using l u served_ok_note [OF l(1), of v q] by (simp add: slot_held_def served_find_def)
  qed
qed

lemma slot_held_again:
  assumes "slot_held u p i spare l"
  shows "slot_held u (case q of None \<Rightarrow> [] | Some q \<Rightarrow> take 39 q) i spare (claim_served_note l (Some u) q)"
proof -
  have u: "served_find l (Some u) = Some i" "u \<noteq> []" using assms served_find_Some [of l u i] by (auto simp: slot_held_def)
  then have "claim_served_note l (Some u) q = l\<lparr>cs_pwd := (cs_pwd l)[i := (case q of None \<Rightarrow> [] | Some q \<Rightarrow> take 39 q)]\<rparr>"
    by (cases q) (simp_all add: claim_served_note_def CLAIM_PWD_LEN_def)
  then show ?thesis using assms by (auto simp: slot_held_def served_ok_def served_find_def)
qed

text \<open>The password of the last attempt of a claimant among those noted.\<close>

fun last_pwd :: "string \<Rightarrow> string \<Rightarrow> (string option \<times> string option) list \<Rightarrow> string" where
  "last_pwd u p [] = p"
| "last_pwd u p ((v, q) # ns) = last_pwd u (if v = Some u then (case q of None \<Rightarrow> [] | Some q \<Rightarrow> take 39 q) else p) ns"

lemma slot_held_run:
  assumes "slot_held u p i (length (filter (\<lambda>n. fst n \<noteq> Some u) ns)) l"
    "list_all (\<lambda>n. pred_option (\<lambda>w. length w < CLAIM_UFRAG_LEN) (fst n)) ns"
  shows "slot_held u (last_pwd u p ns) i 0 (note_all l ns)"
  using assms
proof (induction ns arbitrary: l p)
  case (Cons n ns)
  obtain v q where n: "n = (v, q)" by fastforce
  let ?k = "length (filter (\<lambda>n. fst n \<noteq> Some u) ns)"
  have rest: "list_all (\<lambda>n. pred_option (\<lambda>w. length w < CLAIM_UFRAG_LEN) (fst n)) ns"
    "pred_option (\<lambda>w. length w < CLAIM_UFRAG_LEN) v" using Cons.prems(2) by (simp_all add: n)
  show ?case
  proof (cases "v = Some u")
    case True
    then have "slot_held u p i ?k l" using Cons.prems(1) by (simp add: n)
    from Cons.IH [OF slot_held_again [OF this, of q] rest(1)] True show ?thesis by (simp add: n note_all_def)
  next
    case False
    then have "slot_held u p i (Suc ?k) l" using Cons.prems(1) by (simp add: n)
    from Cons.IH [OF slot_held_other [OF this False rest(2), of q] rest(1)] False show ?thesis by (simp add: n note_all_def)
  qed
qed (simp add: note_all_def)

lemma slot_held_fresh:
  assumes "served_ok l" "served_find l (Some u) = None" "u \<noteq> []" "length u < CLAIM_UFRAG_LEN"
  shows "slot_held u (take 39 p) (cs_next l) 7 (claim_served_note l (Some u) (Some p))"
proof -
  let ?n = "cs_next l"
  have len: "?n < length (cs_ufrag l)" "?n < length (cs_pwd l)" "?n < 8" using assms(1) by (simp_all add: served_ok_def)
  have "find_index (\<lambda>x. x = u) (xs[j := u]) = Some j" if "j < length xs" "u \<notin> set xs" for xs j
    using that by (induction xs arbitrary: j) (auto split: nat.split)
  moreover have "u \<notin> set (cs_ufrag l)" using assms(2,3) by (auto simp: served_find_def)
  ultimately have "find_index (\<lambda>x. x = u) ((cs_ufrag l)[?n := u]) = Some ?n" using len(1) by blast
  moreover have eq: "claim_served_note l (Some u) (Some p) =
      l\<lparr>cs_ufrag := (cs_ufrag l)[?n := u], cs_next := (?n + 1) mod 8, cs_pwd := (cs_pwd l)[?n := take 39 p]\<rparr>"
    using assms by (simp add: claim_served_note_def CLAIM_SERVED_MAX_def CLAIM_UFRAG_LEN_def CLAIM_PWD_LEN_def)
  moreover have "\<exists>k \<ge> 7. k < 8 \<and> ((?n + 1) mod 8 + k) mod 8 = ?n"
    using len(3) by (intro exI [of _ 7]) (simp add: mod_add_left_eq)
  ultimately show ?thesis
    using assms(3) len served_ok_note [OF assms(1), of "Some u" "Some p"] by (simp add: slot_held_def served_find_def)
qed

text \<open>C33. 
  A claimant noted for the first time is remembered while at most seven notes of others follow it, and
  then a claim of its is told for a repetition exactly when it carries the password of the last
  attempt it was noted with.
\<close>

theorem claim_remembered:
  assumes "l = note_all claim_served_none before" "served_find l (Some u) = None" "u \<noteq> []"
    and "list_all (\<lambda>n. pred_option (\<lambda>w. length w < CLAIM_UFRAG_LEN) (fst n)) ((Some u, Some p) # after)"
    and "length (filter (\<lambda>n. fst n \<noteq> Some u) after) \<le> 7"
    and "l' = note_all l ((Some u, Some p) # after)"
  shows "claim_served_has l' (Some u) \<and>
    (claim_served_made l' (Some u) (Some q) \<longleftrightarrow> q \<noteq> [] \<and> q = last_pwd u (take 39 p) after)"
proof -
  have ok: "served_ok l" using assms(1) served_ok_all [OF served_ok_none] by simp
  have "slot_held u (take 39 p) (cs_next l) (length (filter (\<lambda>n. fst n \<noteq> Some u) after)) (claim_served_note l (Some u) (Some p))"
    using slot_held_fresh [OF ok assms(2,3), of p] assms(4,5) by (auto simp: slot_held_def intro: order_trans)
  from slot_held_run [OF this] have "slot_held u (last_pwd u (take 39 p) after) (cs_next l) 0 l'"
    using assms(4,6) by (simp add: note_all_def)
  then show ?thesis by (auto simp: slot_held_def claim_served_has_def claim_served_made_def claim_made_def)
qed

theorem claim_remembered_witness:
  "claim_served_made (note_all claim_served_none [(Some ''a'', Some ''x''), (Some ''b'', Some ''y''), (Some ''a'', Some ''z'')])
     (Some ''a'') (Some ''z'')"
  using claim_remembered [of claim_served_none "[]" "''a''" "''x''" "[(Some ''b'', Some ''y''), (Some ''a'', Some ''z'')]"
      "note_all claim_served_none [(Some ''a'', Some ''x''), (Some ''b'', Some ''y''), (Some ''a'', Some ''z'')]" "''z''"]
  by (simp add: note_all_def [of _ "[]"] served_find_def claim_served_none_def CLAIM_UFRAG_LEN_def)

text \<open>
  The ring turns by first notes: a claimant served a moment ago, but for the first time long before, is
  the next to be forgotten, and then the repetition of its claim is not told from a new attempt.
\<close>

theorem just_served_forgotten:
  "let ring = map (\<lambda>c. (Some [c], Some ''old'')) ''abcdefgh'';
       l = note_all claim_served_none (ring @ [(Some ''a'', Some ''new''), (Some ''i'', Some ''x'')])
   in \<not> claim_served_has l (Some ''a'') \<and> \<not> claim_served_made l (Some ''a'') (Some ''new'')"
  by code_simp

end
