(* ===== verification/Sha1.thy ===== *)
theory Sha1
  imports Streams
begin

text \<open>
  sha1.c, the hash that names an item in the DHT: the compression of one 64-byte block, the
  incremental interface over a partly filled block buffer, and the one-shot call. The reference
  is the definition of the standard: pad the whole message, cut it into blocks, compress each.
  Whatever pieces a message is hashed in, the digest is the reference's.

  The buffer keeps stale bytes behind the ones that count (\<open>len % 64\<close> of them), as in C; the
  view of a context forgets them.
\<close>

record cc_sha1_ctx =
  sha_h :: "u32 list"
  sha_len :: u64
  sha_buf :: "byte list"

section \<open>The code\<close>

definition rotl :: "u32 \<Rightarrow> nat \<Rightarrow> u32" where
  "rotl x n = (push_bit n x OR drop_bit (32 - n) x)"

text \<open>The message schedule \<open>w[80]\<close> of \<open>cc_sha1_block\<close>.\<close>

definition sha1_schedule :: "byte list \<Rightarrow> u32 list" where
  "sha1_schedule p =
     foldl (\<lambda>w i. w @ [rotl (w ! (i - 3) XOR w ! (i - 8) XOR w ! (i - 14) XOR w ! (i - 16)) 1])
       (map (\<lambda>i. push_bit 24 (ucast (p ! (i * 4))) OR push_bit 16 (ucast (p ! (i * 4 + 1))) OR
                 push_bit 8 (ucast (p ! (i * 4 + 2))) OR ucast (p ! (i * 4 + 3))) [0..<16])
       [16..<80]"

text \<open>One of the eighty rounds: the choice of \<open>f\<close> and \<open>k\<close> and the rotation of the registers.\<close>

definition sha1_round :: "u32 list \<Rightarrow> u32 \<times> u32 \<times> u32 \<times> u32 \<times> u32 \<Rightarrow> nat \<Rightarrow>
    u32 \<times> u32 \<times> u32 \<times> u32 \<times> u32" where
  "sha1_round w s i =
     (let (a, b, c, d, e) = s;
          (f, k) = (if i < 20 then ((b AND c) OR (NOT b AND d), 0x5a827999)
                    else if i < 40 then (b XOR c XOR d, 0x6ed9eba1)
                    else if i < 60 then ((b AND c) OR (b AND d) OR (c AND d), 0x8f1bbcdc)
                    else (b XOR c XOR d, 0xca62c1d6));
          t = rotl a 5 + f + e + k + w ! i
      in (t, a, rotl b 30, c, d))"

definition cc_sha1_block :: "cc_sha1_ctx \<Rightarrow> byte list \<Rightarrow> cc_sha1_ctx" where
  "cc_sha1_block ctx p =
     (let h = sha_h ctx;
          (a, b, c, d, e) =
            foldl (sha1_round (sha1_schedule p)) (h ! 0, h ! 1, h ! 2, h ! 3, h ! 4) [0..<80]
      in ctx\<lparr>sha_h := [h ! 0 + a, h ! 1 + b, h ! 2 + c, h ! 3 + d, h ! 4 + e]\<rparr>)"

text \<open>\<open>cc_sha1_init\<close> sets the chaining values and the length and leaves the buffer as it was.\<close>

definition cc_sha1_init :: "cc_sha1_ctx \<Rightarrow> cc_sha1_ctx" where
  "cc_sha1_init ctx =
     ctx\<lparr>sha_h := [0x67452301, 0xefcdab89, 0x98badcfe, 0x10325476, 0xc3d2e1f0], sha_len := 0\<rparr>"

text \<open>\<open>memcpy(buf + at, p, n)\<close> into the block buffer.\<close>

definition buf_copy :: "byte list \<Rightarrow> nat \<Rightarrow> byte list \<Rightarrow> byte list" where
  "buf_copy buf at p = take at buf @ p @ drop (at + length p) buf"

text \<open>The end of \<open>cc_sha1_update\<close>: whole blocks straight from the input, then the rest into the
  buffer.\<close>

fun sha1_blocks :: "cc_sha1_ctx \<Rightarrow> byte list \<Rightarrow> cc_sha1_ctx" where
  "sha1_blocks ctx p =
     (if 64 \<le> length p then sha1_blocks (cc_sha1_block ctx (take 64 p)) (drop 64 p)
      else if p \<noteq> [] then ctx\<lparr>sha_buf := buf_copy (sha_buf ctx) 0 p\<rparr>
      else ctx)"

declare sha1_blocks.simps [simp del]

definition cc_sha1_update :: "cc_sha1_ctx \<Rightarrow> byte list \<Rightarrow> cc_sha1_ctx" where
  "cc_sha1_update ctx p =
     (let fill = unat (sha_len ctx mod 64);
          ctx = ctx\<lparr>sha_len := sha_len ctx + of_nat (length p)\<rparr>
      in if fill \<noteq> 0
         then (let n = min (64 - fill) (length p);
                   ctx = ctx\<lparr>sha_buf := buf_copy (sha_buf ctx) fill (take n p)\<rparr>
               in if fill + n < 64 then ctx
                  else sha1_blocks (cc_sha1_block ctx (sha_buf ctx)) (drop n p))
         else sha1_blocks ctx p)"

definition cc_sha1_final :: "cc_sha1_ctx \<Rightarrow> byte list \<times> cc_sha1_ctx" where
  "cc_sha1_final ctx =
     (let bits = sha_len ctx * 8;
          fill = unat (sha_len ctx mod 64);
          padlen = (if fill < 56 then 56 else 120) - fill;
          pad = (replicate 72 0)[0 := 0x80];
          pad = foldl (\<lambda>pad i. pad[padlen + i := ucast (drop_bit (56 - 8 * i) bits)]) pad [0..<8];
          ctx = cc_sha1_update ctx (take (padlen + 8) pad)
      in (concat (map (\<lambda>i. [ucast (drop_bit 24 (sha_h ctx ! i)), ucast (drop_bit 16 (sha_h ctx ! i)),
                            ucast (drop_bit 8 (sha_h ctx ! i)), ucast (sha_h ctx ! i)]) [0..<5]),
          ctx))"

text \<open>The one-shot call; its context is an uninitialised local variable.\<close>

definition cc_sha1 :: "cc_sha1_ctx \<Rightarrow> byte list \<Rightarrow> byte list" where
  "cc_sha1 ctx p = fst (cc_sha1_final (cc_sha1_update (cc_sha1_init ctx) p))"

section \<open>The reference\<close>

text \<open>The standard's padding: a one bit, zeros up to 56 bytes in the last block, the length of the
  message in bits as eight bytes.\<close>

definition sha1_pad :: "byte list \<Rightarrow> byte list" where
  "sha1_pad m = m @ [0x80] @ replicate ((119 - length m mod 64) mod 64) 0 @
     put_u64 (of_nat (8 * length m))"

fun blocks_of :: "byte list \<Rightarrow> byte list list" where
  "blocks_of p = (if length p < 64 then [] else take 64 p # blocks_of (drop 64 p))"

declare blocks_of.simps [simp del]

definition sha1_compress :: "u32 list \<Rightarrow> byte list \<Rightarrow> u32 list" where
  "sha1_compress h p = sha_h (cc_sha1_block \<lparr>sha_h = h, sha_len = 0, sha_buf = []\<rparr> p)"

definition sha1_spec :: "byte list \<Rightarrow> byte list" where
  "sha1_spec m =
     concat (map put32 (foldl sha1_compress
       [0x67452301, 0xefcdab89, 0x98badcfe, 0x10325476, 0xc3d2e1f0] (blocks_of (sha1_pad m))))"

section \<open>The context as a machine that takes one byte at a time\<close>

definition sha1_step :: "u32 list \<times> byte list \<times> u64 \<Rightarrow> byte \<Rightarrow>
    (u32 list \<times> byte list \<times> u64) \<times> unit list" where
  "sha1_step v b =
     (let (h, rest, n) = v
      in if length rest = 63 then ((sha1_compress h (rest @ [b]), [], n + 1), [])
         else ((h, rest @ [b], n + 1), []))"

definition sha1_view :: "cc_sha1_ctx \<Rightarrow> u32 list \<times> byte list \<times> u64" where
  "sha1_view ctx = (sha_h ctx, take (unat (sha_len ctx) mod 64) (sha_buf ctx), sha_len ctx)"

definition sha1_inv :: "cc_sha1_ctx \<Rightarrow> bool" where
  "sha1_inv ctx = (length (sha_h ctx) = 5 \<and> length (sha_buf ctx) = 64)"

lemma block_compress [simp]:
  "cc_sha1_block ctx p = ctx\<lparr>sha_h := sha1_compress (sha_h ctx) p\<rparr>"
  by (simp add: cc_sha1_block_def sha1_compress_def split_beta Let_def)

lemma length_compress [simp]: "length (sha1_compress h p) = 5"
  by (simp add: sha1_compress_def cc_sha1_block_def split_beta Let_def del: block_compress)

lemma steps_short:
  "length rest + length p < 64 \<Longrightarrow>
   steps sha1_step (h, rest, n) p = ((h, rest @ p, n + of_nat (length p)), [])"
  by (induction p arbitrary: rest n) (simp_all add: sha1_step_def Let_def ac_simps)

lemma steps_fill:
  assumes "length rest < 64" "length rest + length p = 64"
  shows "steps sha1_step (h, rest, n) p =
    ((sha1_compress h (rest @ p), [], n + of_nat (length p)), [])"
proof -
  obtain q b where p: "p = q @ [b]" using assms by (cases p rule: rev_cases) auto
  show ?thesis
    using assms by (simp add: p steps_append steps_short sha1_step_def Let_def ac_simps)
qed

lemma steps_block:
  "length p = 64 \<Longrightarrow>
   steps sha1_step (h, [], n) p = ((sha1_compress h p, [], n + 64), [])"
  using steps_fill [of "[]" p h n] by simp

lemma length_buf_copy [simp]: "at + length p \<le> length b \<Longrightarrow> length (buf_copy b at p) = length b"
  by (simp add: buf_copy_def)

lemma take_buf_copy [simp]:
  "at + length p \<le> length b \<Longrightarrow> take (at + length p) (buf_copy b at p) = take at b @ p"
  by (simp add: buf_copy_def)

lemma blocks_inv [simp]: "sha1_inv ctx \<Longrightarrow> sha1_inv (sha1_blocks ctx p)"
  by (induction ctx p rule: sha1_blocks.induct, subst sha1_blocks.simps)
    (simp add: sha1_inv_def)

lemma blocks_len [simp]: "sha_len (sha1_blocks ctx p) = sha_len ctx"
  by (induction ctx p rule: sha1_blocks.induct, subst sha1_blocks.simps) simp

lemma blocks_steps:
  "sha1_inv ctx \<Longrightarrow> steps sha1_step (sha_h ctx, [], n) p =
     ((sha_h (sha1_blocks ctx p), take (length p mod 64) (sha_buf (sha1_blocks ctx p)),
       n + of_nat (length p)), [])"
proof (induction ctx p arbitrary: n rule: sha1_blocks.induct)
  case (1 ctx p)
  show ?case
  proof (cases "64 \<le> length p")
    case True
    let ?c = "cc_sha1_block ctx (take 64 p)"
    have inv: "sha1_inv ?c" using "1.prems" by (simp add: sha1_inv_def)
    have "steps sha1_step (sha_h ctx, [], n) (take 64 p @ drop 64 p) =
      steps sha1_step (sha_h ?c, [], n + 64) (drop 64 p)"
      using True unfolding steps_append by (simp add: steps_block split_beta)
    moreover have "length (drop 64 p) mod 64 = length p mod 64"
      using True by (simp add: le_mod_geq)
    moreover have "(64 :: u64) + of_nat (length (drop 64 p)) = of_nat (length p)"
      using True by simp
    moreover have "sha1_blocks ctx p = sha1_blocks ?c (drop 64 p)"
      using True by (simp add: sha1_blocks.simps [of ctx p])
    ultimately show ?thesis using "1.IH" [OF True inv, of "n + 64"]
      by (simp add: add.assoc)
  next
    case False
    then show ?thesis
      using "1.prems" take_buf_copy [of 0 p "sha_buf ctx"]
      by (simp add: sha1_blocks.simps [of ctx p] steps_short sha1_inv_def)
  qed
qed

text \<open>The count of bytes wraps at \<open>2\<^sup>6\<^sup>4\<close>, a multiple of the block size.\<close>

lemma fill_add: "unat (n + of_nat k :: u64) mod 64 = (unat n + k) mod 64"
proof -
  have "unat (n + of_nat k :: u64) = (unat n + k) mod 2 ^ 64"
    by (simp add: unat_word_ariths unat_of_nat mod_simps)
  moreover have "(64 :: nat) dvd 2 ^ 64" by simp
  ultimately show ?thesis by (simp only: mod_mod_cancel)
qed

lemma update_cases:
  fixes ctx p
  defines "fill \<equiv> unat (sha_len ctx) mod 64"
    and "ctx' \<equiv> ctx\<lparr>sha_len := sha_len ctx + of_nat (length p)\<rparr>"
  assumes inv: "sha1_inv ctx"
  obtains (aligned) "fill = 0" "cc_sha1_update ctx p = sha1_blocks ctx' p"
    | (short) "fill \<noteq> 0" "fill + length p < 64"
        "cc_sha1_update ctx p = ctx'\<lparr>sha_buf := buf_copy (sha_buf ctx) fill p\<rparr>"
    | (filled) b where "fill \<noteq> 0" "64 - fill \<le> length p"
        "b = take fill (sha_buf ctx) @ take (64 - fill) p"
        "cc_sha1_update ctx p =
           sha1_blocks (ctx'\<lparr>sha_buf := b, sha_h := sha1_compress (sha_h ctx) b\<rparr>)
             (drop (64 - fill) p)"
proof -
  have fill: "unat (sha_len ctx mod 64) = fill" by (simp add: fill_def unat_mod)
  have less: "fill < 64" by (simp add: fill_def)
  consider "fill = 0" | "fill \<noteq> 0" "fill + length p < 64" | "fill \<noteq> 0" "64 - fill \<le> length p"
    by linarith
  then show thesis
  proof cases
    case 1
    then show thesis
      by (intro aligned) (simp_all add: cc_sha1_update_def fill ctx'_def Let_def)
  next
    case 2
    then have "min (64 - fill) (length p) = length p" by linarith
    with 2 show thesis
      by (intro short) (simp_all add: cc_sha1_update_def fill ctx'_def Let_def)
  next
    case 3
    have n: "min (64 - fill) (length p) = 64 - fill" using 3 by linarith
    have "buf_copy (sha_buf ctx) fill (take (64 - fill) p) =
        take fill (sha_buf ctx) @ take (64 - fill) p"
      using 3 less inv by (simp add: buf_copy_def sha1_inv_def n)
    with 3 less show thesis
      by (intro filled [OF _ _ refl])
        (simp_all add: cc_sha1_update_def fill ctx'_def Let_def n)
  qed
qed

lemma inv_update [simp]:
  "sha1_inv (ctx\<lparr>sha_len := n\<rparr>) = sha1_inv ctx"
  "length b = 64 \<Longrightarrow> sha1_inv ctx \<Longrightarrow> sha1_inv (ctx\<lparr>sha_buf := b\<rparr>)"
  "length h = 5 \<Longrightarrow> sha1_inv ctx \<Longrightarrow> sha1_inv (ctx\<lparr>sha_h := h\<rparr>)"
  by (simp_all add: sha1_inv_def)

lemma update_inv: "sha1_inv ctx \<Longrightarrow> sha1_inv (cc_sha1_update ctx p)"
proof (rule update_cases [of ctx p])
  let ?fill = "unat (sha_len ctx) mod 64"
  assume inv: "sha1_inv ctx" and "?fill + length p < 64"
  then have "length (buf_copy (sha_buf ctx) ?fill p) = 64" by (simp add: sha1_inv_def)
  moreover assume "cc_sha1_update ctx p = ctx
    \<lparr>sha_len := sha_len ctx + of_nat (length p), sha_buf := buf_copy (sha_buf ctx) ?fill p\<rparr>"
  ultimately show ?thesis using inv by simp
next
  fix b
  let ?fill = "unat (sha_len ctx) mod 64"
  assume inv: "sha1_inv ctx"
    and b: "64 - ?fill \<le> length p" "b = take ?fill (sha_buf ctx) @ take (64 - ?fill) p"
    and upd: "cc_sha1_update ctx p = sha1_blocks (ctx
      \<lparr>sha_len := sha_len ctx + of_nat (length p), sha_buf := b,
       sha_h := sha1_compress (sha_h ctx) b\<rparr>) (drop (64 - ?fill) p)"
  have "length b = 64" using b inv by (simp add: sha1_inv_def)
  then show ?thesis using inv by (simp add: upd)
qed simp_all

lemma update_len: "sha1_inv ctx \<Longrightarrow> sha_len (cc_sha1_update ctx p) = sha_len ctx + of_nat (length p)"
  by (rule update_cases [of ctx p]) simp_all

lemma whole_block: "f < 64 \<Longrightarrow> f + (64 - f + x) = 64 + x" for f x :: nat
  by simp

lemma update_steps:
  assumes inv: "sha1_inv ctx"
  shows "steps sha1_step (sha1_view ctx) p = (sha1_view (cc_sha1_update ctx p), [])"
proof (rule update_cases [OF inv, of p])
  let ?c = "ctx\<lparr>sha_len := sha_len ctx + of_nat (length p)\<rparr>"
  assume fill: "unat (sha_len ctx) mod 64 = 0" and upd: "cc_sha1_update ctx p = sha1_blocks ?c p"
  have "(unat (sha_len ctx) + length p) mod 64 = length p mod 64"
    using fill by (metis add_0 mod_add_left_eq)
  then have "sha1_view (cc_sha1_update ctx p) =
      (sha_h (sha1_blocks ?c p), take (length p mod 64) (sha_buf (sha1_blocks ?c p)),
       sha_len ctx + of_nat (length p))"
    by (simp add: sha1_view_def upd fill_add)
  then show ?thesis
    using blocks_steps [of ?c "sha_len ctx" p] inv by (simp add: sha1_view_def [of ctx] fill)
next
  let ?fill = "unat (sha_len ctx) mod 64"
  assume short: "?fill + length p < 64"
    and upd: "cc_sha1_update ctx p = ctx\<lparr>sha_len := sha_len ctx + of_nat (length p),
      sha_buf := buf_copy (sha_buf ctx) ?fill p\<rparr>"
  have "(unat (sha_len ctx) + length p) mod 64 = ?fill + length p"
    using short by (metis mod_add_left_eq mod_less)
  moreover have "?fill + length p \<le> length (sha_buf ctx)"
    using short inv by (simp add: sha1_inv_def)
  ultimately have "sha1_view (cc_sha1_update ctx p) =
      (sha_h ctx, take ?fill (sha_buf ctx) @ p, sha_len ctx + of_nat (length p))"
    by (simp add: sha1_view_def upd fill_add)
  then show ?thesis using short by (simp add: sha1_view_def [of ctx] steps_short)
next
  fix b
  let ?fill = "unat (sha_len ctx) mod 64"
  let ?p1 = "take (64 - ?fill) p" and ?p2 = "drop (64 - ?fill) p"
  let ?c = "ctx\<lparr>sha_len := sha_len ctx + of_nat (length p), sha_buf := b,
      sha_h := sha1_compress (sha_h ctx) b\<rparr>"
  assume long: "64 - ?fill \<le> length p" and b: "b = take ?fill (sha_buf ctx) @ ?p1"
    and upd: "cc_sha1_update ctx p = sha1_blocks ?c ?p2"
  have less: "?fill < 64" by simp
  have lenb: "length b = 64" using long inv by (simp add: b sha1_inv_def)
  have inv': "sha1_inv ?c" using lenb inv by simp
  have len1: "length ?p1 = 64 - ?fill" using long by simp
  have fill: "length (take ?fill (sha_buf ctx)) = ?fill" using inv by (simp add: sha1_inv_def)
  have first: "steps sha1_step (sha1_view ctx) ?p1 =
      ((sha_h ?c, [], sha_len ctx + of_nat (length ?p1)), [])"
    unfolding sha1_view_def [of ctx]
    by (subst steps_fill) (simp_all only: fill len1 whole_block [OF less, of 0, simplified] less b,
      simp_all)
  have len: "length ?p1 + length ?p2 = length p" by (metis append_take_drop_id length_append)
  have "(unat (sha_len ctx) + length p) mod 64 = (?fill + (length ?p1 + length ?p2)) mod 64"
    unfolding len by (rule mod_add_left_eq [symmetric])
  also have "\<dots> = (64 + length ?p2) mod 64"
    unfolding len1 by (simp only: whole_block [OF less])
  finally have "sha1_view (cc_sha1_update ctx p) =
      (sha_h (sha1_blocks ?c ?p2), take (length ?p2 mod 64) (sha_buf (sha1_blocks ?c ?p2)),
       sha_len ctx + of_nat (length p))"
    by (simp add: sha1_view_def upd fill_add)
  moreover have "(of_nat (length ?p1) :: u64) + of_nat (length ?p2) = of_nat (length p)"
    unfolding len [symmetric] by (rule of_nat_add [symmetric])
  ultimately have "steps sha1_step (sha1_view ctx) (?p1 @ ?p2) =
      (sha1_view (cc_sha1_update ctx p), [])"
    unfolding steps_append first
    using blocks_steps [OF inv', of "sha_len ctx + of_nat (length ?p1)" ?p2]
    by (simp only: prod.case Let_def append_Nil add.assoc)
  then show ?thesis by simp
qed

interpretation sha1_stream: chunked "\<lambda>ctx p. (cc_sha1_update ctx p, [])" sha1_view sha1_inv sha1_step
  by unfold_locales (simp_all add: update_inv update_steps)

section \<open>The digest\<close>

lemma update_pieces:
  "run_pieces (\<lambda>ctx p. (cc_sha1_update ctx p, [])) ctx ps = (foldl cc_sha1_update ctx ps, [])"
  by (induction ps arbitrary: ctx) simp_all

lemma write_run:
  "k + n \<le> length xs \<Longrightarrow>
   foldl (\<lambda>p i. p[k + i := f i]) xs [0..<n] = take k xs @ map f [0..<n] @ drop (k + n) xs"
proof (induction n)
  case (Suc n)
  have "drop (k + n) xs = xs ! (k + n) # drop (Suc (k + n)) xs"
    using Suc.prems by (simp add: Cons_nth_drop_Suc)
  then show ?case
    using Suc by (simp add: list_update_append min_absorb2)
qed simp

lemma replicate_head: "0 < n \<Longrightarrow> (replicate n x)[0 := y] = y # replicate (n - 1) x"
  by (cases n) simp_all

lemma pad_bytes:
  fixes bits :: u64
  assumes "0 < k" "k + 8 \<le> 72"
  shows "take (k + 8) (foldl (\<lambda>pad i. pad[k + i := ucast (drop_bit (56 - 8 * i) bits)])
      ((replicate 72 0)[0 := 0x80]) [0..<8]) = [0x80] @ replicate (k - 1) 0 @ put_u64 bits"
proof -
  let ?f = "\<lambda>i. ucast (drop_bit (56 - 8 * i) bits) :: byte"
  have "take k ((0x80 :: byte) # replicate 71 0) = 0x80 # replicate (k - 1) 0"
    using assms by (cases k) (simp_all add: min_absorb1)
  moreover have "take (k + 8) ((0x80 # replicate (k - 1) 0) @ map ?f [0..<8] @ z) =
      (0x80 # replicate (k - 1) 0) @ map ?f [0..<8]" for z
    using assms(1) by (subst take_append) simp
  ultimately show ?thesis
    using assms(2) by (simp add: write_run put_u64_def replicate_head)
qed

lemma final_pad:
  assumes "sha_len ctx = of_nat (length m)"
  shows "cc_sha1_final ctx =
    (let c = cc_sha1_update ctx (drop (length m) (sha1_pad m))
     in (concat (map (\<lambda>i. put32 (sha_h c ! i)) [0..<5]), c))"
proof -
  let ?fill = "length m mod 64"
  define k where "k = (if ?fill < 56 then 56 else 120) - ?fill"
  have fill: "unat (sha_len ctx mod 64) = ?fill"
    using fill_add [of 0 "length m"] by (simp add: assms unat_mod)
  have less: "?fill < 64" by simp
  have k: "0 < k" "k + 8 \<le> 72" "k - 1 = (119 - ?fill) mod 64"
    using less unfolding k_def by (auto simp: le_mod_geq)
  have bits: "sha_len ctx * 8 = of_nat (8 * length m)" by (simp add: assms)
  show ?thesis
    unfolding cc_sha1_final_def Let_def fill k_def [symmetric] pad_bytes [OF k(1,2)] bits k(3)
    by (simp add: sha1_pad_def put32_def)
qed

lemma steps_blocks:
  "length p mod 64 = 0 \<Longrightarrow>
   steps sha1_step (h, [], n) p = ((foldl sha1_compress h (blocks_of p), [], n + of_nat (length p)), [])"
proof (induction p arbitrary: h n rule: blocks_of.induct)
  case (1 p)
  show ?case
  proof (cases "length p < 64")
    case True
    then show ?thesis using "1.prems" by (simp add: blocks_of.simps)
  next
    case False
    then have "length (drop 64 p) mod 64 = 0" using "1.prems" by (simp add: le_mod_geq)
    then have "steps sha1_step (h, [], n) (take 64 p @ drop 64 p) =
        ((foldl sha1_compress (sha1_compress h (take 64 p)) (blocks_of (drop 64 p)), [],
          n + 64 + of_nat (length (drop 64 p))), [])"
      using False "1.IH" by (simp only: steps_append) (simp add: steps_block)
    with False show ?thesis by (simp add: blocks_of.simps [of p])
  qed
qed

lemma length_pad: "length (sha1_pad m) mod 64 = 0"
proof -
  obtain q r where m: "length m = 64 * q + r" "r < 64"
    by (metis mod_less_divisor mult_div_mod_eq zero_less_numeral)
  have "(r + 9 + (119 - r) mod 64) mod 64 = 0"
    using m(2) by (cases "r < 56") (simp_all add: le_mod_geq)
  moreover have "length (sha1_pad m) = 64 * q + (r + 9 + (119 - r) mod 64)"
    using m by (simp add: sha1_pad_def)
  ultimately show ?thesis by simp
qed

lemma take_pad: "take (length m) (sha1_pad m) = m"
  by (simp add: sha1_pad_def)

lemma init_view:
  "length (sha_buf ctx) = 64 \<Longrightarrow> sha1_inv (cc_sha1_init ctx) \<and> sha1_view (cc_sha1_init ctx) =
     ([0x67452301, 0xefcdab89, 0x98badcfe, 0x10325476, 0xc3d2e1f0], [], 0)"
  by (simp add: cc_sha1_init_def sha1_inv_def sha1_view_def)

lemma steps_len: "snd (snd (fst (steps sha1_step v p))) = snd (snd v) + of_nat (length p)"
  by (induction p arbitrary: v) (simp_all add: sha1_step_def split_beta Let_def)

lemma list_of_five: "length h = 5 \<Longrightarrow> map (\<lambda>i. f (h ! i)) [0..<5] = map f h"
  by (metis (no_types, lifting) map_nth map_map o_def map_cong)

lemma pieces_digest:
  assumes "length (sha_buf ctx) = 64"
  shows "fst (cc_sha1_final (foldl cc_sha1_update (cc_sha1_init ctx) ps)) = sha1_spec (concat ps)"
proof -
  let ?m = "concat ps" and ?i = "cc_sha1_init ctx"
  let ?c = "foldl cc_sha1_update ?i ps"
  let ?d = "cc_sha1_update ?c (drop (length ?m) (sha1_pad ?m))"
  note inv = init_view [OF assms, THEN conjunct1] and view = init_view [OF assms, THEN conjunct2]
  have c: "steps sha1_step (sha1_view ?i) ?m = (sha1_view ?c, [])" and invc: "sha1_inv ?c"
    using sha1_stream.run_pieces_steps [OF inv, of ps] sha1_stream.run_pieces_inv [OF inv, of ps]
    by (simp_all add: update_pieces)
  have len: "sha_len ?c = of_nat (length ?m)"
    using steps_len [of "sha1_view ?i" ?m] unfolding c by (simp add: view) (simp add: sha1_view_def)
  have "steps sha1_step (sha1_view ?i) (take (length ?m) (sha1_pad ?m) @ drop (length ?m) (sha1_pad ?m)) =
      (sha1_view ?d, [])"
    unfolding steps_append take_pad c by (simp add: update_steps [OF invc])
  then have "sha_h ?d = foldl sha1_compress
      [0x67452301, 0xefcdab89, 0x98badcfe, 0x10325476, 0xc3d2e1f0] (blocks_of (sha1_pad ?m))"
    unfolding view append_take_drop_id steps_blocks [OF length_pad] by (simp add: sha1_view_def)
  moreover have "length (sha_h ?d) = 5" using update_inv [OF invc] by (simp add: sha1_inv_def)
  ultimately show ?thesis
    by (simp add: final_pad [OF len] Let_def sha1_spec_def list_of_five)
qed

lemma length_compress_fold: "length h = 5 \<Longrightarrow> length (foldl sha1_compress h bs) = 5"
  by (induction bs arbitrary: h) simp_all

lemma length_sha1_spec [simp]: "length (sha1_spec m) = 20"
proof -
  have "length hs = 5 \<Longrightarrow> length (concat (map put32 hs)) = 20" for hs
    by (simp add: length_concat o_def sum_list_triv)
  then show ?thesis by (simp add: sha1_spec_def length_compress_fold)
qed



end
