(* ===== verification/Bep44_Ban.thy ===== *)
theory Bep44_Ban
  imports Prelude
begin

text \<open>
  The addresses of bep44.c and its per-source rate limit: a table of network prefixes, each
  tracked or banned, the widening of bans along a ladder of prefixes, and the test every served
  query passes through first.

  A socket address is its family with the address and the port as they stand in the structure;
  \<open>Sa_other\<close> stands for a null pointer, a structure shorter than its family's and every other
  family, which the code tells apart nowhere. The clock is an argument.
\<close>

section \<open>Addresses\<close>

datatype b44_sa = Sa4 "byte list" u16 | Sa6 "byte list" u16 u32 | Sa_other

datatype b44_family = Fam_none | Fam_inet | Fam_inet6

fun sa_family :: "b44_sa \<Rightarrow> b44_family" where
  "sa_family (Sa4 a p) = Fam_inet"
| "sa_family (Sa6 a p s) = Fam_inet6"
| "sa_family Sa_other = Fam_none"

text \<open>The address has the length of its family.\<close>

fun sa_ok :: "b44_sa \<Rightarrow> bool" where
  "sa_ok (Sa4 a p) = (length a = 4)"
| "sa_ok (Sa6 a p s) = (length a = 16)"
| "sa_ok Sa_other = True"

fun addr_bytes :: "b44_sa \<Rightarrow> byte list" where
  "addr_bytes (Sa4 a p) = a"
| "addr_bytes (Sa6 a p s) = a"
| "addr_bytes Sa_other = []"

fun addr_eq :: "b44_sa \<Rightarrow> b44_sa \<Rightarrow> bool" where
  "addr_eq (Sa4 a p) (Sa4 b q) = (p = q \<and> a = b)"
| "addr_eq (Sa6 a p s) (Sa6 b q t) = (p = q \<and> s = t \<and> a = b)"
| "addr_eq _ _ = False"

fun addr_same_host :: "b44_sa \<Rightarrow> b44_sa \<Rightarrow> bool" where
  "addr_same_host (Sa4 a p) (Sa4 b q) = (a = b)"
| "addr_same_host (Sa6 a p s) (Sa6 b q t) = (a = b)"
| "addr_same_host _ _ = False"

definition v4map :: "byte list" where
  "v4map = [0, 0, 0, 0, 0, 0, 0, 0, 0, 0, 0xff, 0xff]"

fun addr_martian :: "b44_sa \<Rightarrow> bool" where
  "addr_martian (Sa4 a p) = (p = 0 \<or> a ! 0 = 0 \<or> a ! 0 = 127 \<or> a ! 0 AND 0xe0 = 0xe0)"
| "addr_martian (Sa6 a p s) =
     (p = 0 \<or> a ! 0 = 0xff \<or> a ! 0 = 0xfe \<and> a ! 1 AND 0xc0 = 0x80 \<or>
      take 12 a = v4map \<or>
      take 15 a = replicate 15 0 \<and> (a ! 15 = 0 \<or> a ! 15 = 1))"
| "addr_martian Sa_other = True"

fun node_addr_usable :: "b44_sa \<Rightarrow> bool" where
  "node_addr_usable (Sa4 a p) = (p \<noteq> 0 \<and> a \<noteq> replicate 4 0)"
| "node_addr_usable (Sa6 a p s) = (p \<noteq> 0 \<and> a \<noteq> replicate 16 0)"
| "node_addr_usable Sa_other = False"

definition id_nonzero :: "byte list \<Rightarrow> bool" where
  "id_nonzero nid = list_ex (\<lambda>b. b \<noteq> 0) nid"

section \<open>The ban table\<close>

abbreviation B44_BAN_MAX :: nat where "B44_BAN_MAX \<equiv> 128"
definition B44_BAN_WINDOW_MS :: u64 where "B44_BAN_WINDOW_MS = 10000"
definition B44_BAN_RATE :: int where "B44_BAN_RATE = 8 * 5"
definition B44_BAN_TIME_MS :: u64 where "B44_BAN_TIME_MS = 5 * 60 * 1000"
definition B44_FAILCLOSED_MS :: u64 where "B44_FAILCLOSED_MS = 30000"

record b44_ban =
  bn_net :: "byte list"
  bn_family :: b44_family
  bn_bits :: nat
  bn_weight :: u16
  bn_count :: int
  bn_window_ms :: u64
  bn_until :: u64

definition ban_free :: b44_ban where
  "ban_free = \<lparr>bn_net = replicate 16 0, bn_family = Fam_none, bn_bits = 0, bn_weight = 0,
     bn_count = 0, bn_window_ms = 0, bn_until = 0\<rparr>"

text \<open>The part of the engine the limiter works on.\<close>

record b44_limit =
  lm_ban :: "b44_ban list"
  lm_block_until :: u64
  lm_rate :: int
  lm_ban_ms :: u64

definition b44_ladder6 :: "nat list" where "b44_ladder6 = [128, 64, 56, 48, 40, 32]"
definition b44_ladder4 :: "nat list" where "b44_ladder4 = [32, 30, 28, 26, 24]"

definition fam_len :: "b44_family \<Rightarrow> nat" where
  "fam_len family = (if family = Fam_inet6 then 16 else 4)"

definition ban_base_bits :: "b44_family \<Rightarrow> nat" where
  "ban_base_bits family = (if family = Fam_inet6 then 128 else 32)"

definition ban_ladder :: "b44_family \<Rightarrow> nat list" where
  "ban_ladder family = (if family = Fam_inet6 then b44_ladder6 else b44_ladder4)"

text \<open>\<open>net_mask\<close>: byte \<open>i\<close> keeps its first \<open>bits - 8 * i\<close> bits.\<close>

definition net_mask :: "byte list \<Rightarrow> nat \<Rightarrow> byte list" where
  "net_mask addr bits =
     map (\<lambda>i. let keep = int bits - int i * 8
              in if 8 \<le> keep then addr ! i
                 else if keep \<le> 0 then 0
                 else addr ! i AND push_bit (nat (8 - keep)) 0xff) [0..<length addr]"

definition net_contains :: "b44_ban \<Rightarrow> byte list \<Rightarrow> bool" where
  "net_contains b addr = (net_mask addr (bn_bits b) = take (length addr) (bn_net b))"

text \<open>The bans that lie inside a wider prefix: the test both loops of \<open>ban_escalate\<close> make.\<close>

definition ban_inside :: "b44_family \<Rightarrow> u64 \<Rightarrow> nat \<Rightarrow> byte list \<Rightarrow> b44_ban \<Rightarrow> bool" where
  "ban_inside family now pbits pnet b =
     (bn_family b = family \<and> now < bn_until b \<and> pbits \<le> bn_bits b \<and>
      net_mask (take (fam_len family) (bn_net b)) pbits = pnet)"

definition widen_step :: "b44_family \<Rightarrow> byte list \<Rightarrow> u64 \<Rightarrow> u64 \<Rightarrow> nat \<Rightarrow> b44_ban list \<Rightarrow> b44_ban list" where
  "widen_step family seed now ban_ms i ban =
     (let pbits = ban_ladder family ! i;
          pnet = net_mask (take (fam_len family) seed) pbits;
          inside = ban_inside family now pbits pnet;
          weight = sum_list (map (\<lambda>b. unat (bn_weight b)) (filter inside ban))
      in if weight < i + 1 then ban
         else (case find_index inside ban of
             None \<Rightarrow> ban
           | Some first \<Rightarrow>
               (map (\<lambda>b. if inside b then ban_free else b) ban)[first :=
                  ban_free\<lparr>bn_net := pnet @ replicate (16 - length pnet) 0, bn_family := family,
                    bn_bits := pbits, bn_weight := of_nat weight, bn_until := now + ban_ms\<rparr>]))"

definition ban_escalate :: "b44_ban list \<Rightarrow> byte list \<Rightarrow> b44_family \<Rightarrow> u64 \<Rightarrow> u64 \<Rightarrow> b44_ban list" where
  "ban_escalate ban seed family now ban_ms =
     fold (widen_step family seed now ban_ms) [1..<length (ban_ladder family)] ban"

text \<open>The scan of \<open>ban_ok\<close>: \<open>None\<close> in the second place when it meets a ban around the source,
  otherwise the tracker of the source, the first free slot and the least active tracker.\<close>

type_synonym ban_scan = "nat option \<times> nat option \<times> nat option"

fun ban_scan :: "b44_family \<Rightarrow> byte list \<Rightarrow> byte list \<Rightarrow> u64 \<Rightarrow> nat list \<Rightarrow> ban_scan \<Rightarrow> b44_ban list \<Rightarrow>
    b44_ban list \<times> ban_scan option" where
  "ban_scan family ab base now [] acc ban = (ban, Some acc)"
| "ban_scan family ab base now (i # is) (track, slot, lru) ban =
     (let b = ban ! i;
          take_slot = (if slot = None then Some i else slot)
      in if bn_family b = Fam_none then ban_scan family ab base now is (track, take_slot, lru) ban
         else if bn_until b \<noteq> 0 \<and> bn_until b \<le> now
         then ban_scan family ab base now is (track, take_slot, lru) (ban[i := ban_free])
         else if bn_family b \<noteq> family then ban_scan family ab base now is (track, slot, lru) ban
         else if now < bn_until b \<and> net_contains b ab then (ban, None)
         else if bn_until b = 0
         then ban_scan family ab base now is
                (if bn_bits b = ban_base_bits family \<and> take (length ab) (bn_net b) = base
                 then Some i else track, slot,
                 case lru of None \<Rightarrow> Some i
                 | Some l \<Rightarrow> if bn_count b < bn_count (ban ! l) then Some i else lru) ban
         else ban_scan family ab base now is (track, slot, lru) ban)"

definition ban_ok :: "b44_limit \<Rightarrow> b44_sa \<Rightarrow> u64 \<Rightarrow> bool \<times> b44_limit" where
  "ban_ok lm from now =
     (let ab = addr_bytes from; family = sa_family from
      in if lm_ban_ms lm = 0 then (True, lm)
         else if now < lm_block_until lm then (False, lm)
         else if ab = [] then (True, lm)
         else
           (let base = net_mask ab (ban_base_bits family)
            in case ban_scan family ab base now [0..<length (lm_ban lm)] (None, None, None) (lm_ban lm) of
                 (ban, None) \<Rightarrow> (False, lm\<lparr>lm_ban := ban\<rparr>)
               | (ban, Some (Some t, _, _)) \<Rightarrow>
                   (let b = ban ! t;
                        b = (if bn_window_ms b \<le> now
                             then b\<lparr>bn_count := 0, bn_window_ms := now + B44_BAN_WINDOW_MS\<rparr> else b);
                        b = b\<lparr>bn_count := bn_count b + 1\<rparr>
                    in if bn_count b < lm_rate lm * 10 then (True, lm\<lparr>lm_ban := ban[t := b]\<rparr>)
                       else (let b = b\<lparr>bn_until := now + lm_ban_ms lm, bn_weight := 1, bn_count := 0\<rparr>
                             in (False, lm\<lparr>lm_ban :=
                                   ban_escalate (ban[t := b]) (bn_net b) family now (lm_ban_ms lm)\<rparr>)))
               | (ban, Some (None, slot, lru)) \<Rightarrow>
                   (case (if slot = None then lru else slot) of
                      None \<Rightarrow> (False, lm\<lparr>lm_ban := ban, lm_block_until := now + B44_FAILCLOSED_MS\<rparr>)
                    | Some s \<Rightarrow>
                        (True, lm\<lparr>lm_ban := ban[s :=
                           ban_free\<lparr>bn_net := base @ replicate (16 - length base) 0,
                             bn_family := family, bn_bits := ban_base_bits family, bn_count := 1,
                             bn_window_ms := now + B44_BAN_WINDOW_MS\<rparr>]\<rparr>))))"

definition bep44_ratelimit :: "b44_limit \<Rightarrow> int \<Rightarrow> int \<Rightarrow> b44_limit" where
  "bep44_ratelimit lm rate ban_seconds =
     lm\<lparr>lm_rate := rate, lm_ban_ms := of_int (if 0 < ban_seconds then ban_seconds else 0) * 1000\<rparr>"

section \<open>Prefixes\<close>

lemma length_net_mask [simp]: "length (net_mask a bits) = length a"
  by (simp add: net_mask_def)

lemma bit_net_mask:
  assumes "i < length a"
  shows "bit (net_mask a bits ! i) n \<longleftrightarrow> bit (a ! i) n \<and> 8 * (i + 1) \<le> bits + n"
proof (cases "n < 8")
  case False
  then have "\<not> bit x n" for x :: byte by (auto dest: bit_imp_le_length)
  then show ?thesis by simp
next
  case n: True
  define keep where "keep = int bits - int i * 8"
  have byte: "net_mask a bits ! i = (if 8 \<le> keep then a ! i else if keep \<le> 0 then 0
      else a ! i AND push_bit (nat (8 - keep)) 0xff)"
    using assms by (simp add: net_mask_def keep_def Let_def)
  have full: "bit (0xff :: byte) m \<longleftrightarrow> m < 8" for m
  proof -
    have "(0xff :: byte) = mask 8" by (simp add: mask_eq_exp_minus_1)
    then show ?thesis by (simp only: bit_mask_iff) simp
  qed
  have shifted: "bit (push_bit k (0xff :: byte)) n \<longleftrightarrow> k \<le> n" for k
    unfolding bit_push_bit_iff full using n by auto
  show ?thesis
    unfolding byte using n
    by (auto simp: bit_and_iff shifted keep_def)
qed

lemma net_mask_eqI:
  assumes "length a = length b"
    "\<And>i n. i < length a \<Longrightarrow> n < 8 \<Longrightarrow> 8 * (i + 1) \<le> bits + n \<Longrightarrow> bit (a ! i) n = bit (b ! i) n"
  shows "net_mask a bits = net_mask b bits"
proof (rule nth_equalityI)
  fix i assume "i < length (net_mask a bits)"
  then have i: "i < length a" "i < length b" using assms(1) by simp_all
  show "net_mask a bits ! i = net_mask b bits ! i"
  proof (rule bit_word_eqI)
    fix n assume "n < LENGTH(8)"
    then show "bit (net_mask a bits ! i) n = bit (net_mask b bits ! i) n"
      unfolding bit_net_mask [OF i(1)] bit_net_mask [OF i(2)] using assms(2) [OF i(1), of n] by auto
  qed
qed (simp add: assms(1))

text \<open>Two addresses in one prefix are in every wider one, and masking twice masks to the shorter.\<close>

lemma net_mask_wider:
  assumes "length a = length b" "net_mask a bits = net_mask b bits" "m \<le> bits"
  shows "net_mask a m = net_mask b m"
proof (rule net_mask_eqI [OF assms(1)])
  fix i n assume i: "i < length a" and n: "8 * (i + 1) \<le> m + n"
  have "bit (net_mask a bits ! i) n = bit (net_mask b bits ! i) n" using assms(2) by simp
  then show "bit (a ! i) n = bit (b ! i) n"
    using i n assms(1,3) by (simp add: bit_net_mask)
qed

lemma net_mask_mask: "m \<le> bits \<Longrightarrow> net_mask (net_mask a bits) m = net_mask a m"
  by (rule net_mask_eqI) (auto simp: bit_net_mask)

lemma net_mask_all: "8 * length a \<le> bits \<Longrightarrow> net_mask a bits = a"
proof (rule nth_equalityI)
  fix i assume "8 * length a \<le> bits" "i < length (net_mask a bits)"
  then show "net_mask a bits ! i = a ! i"
    by (intro bit_word_eqI) (auto simp: bit_net_mask)
qed simp

lemma net_mask_base: "length a = fam_len family \<Longrightarrow> net_mask a (ban_base_bits family) = a"
  by (rule net_mask_all) (simp add: fam_len_def ban_base_bits_def split: if_splits)

section \<open>The scan\<close>

abbreviation banned_by :: "b44_family \<Rightarrow> byte list \<Rightarrow> u64 \<Rightarrow> b44_ban \<Rightarrow> bool" where
  "banned_by family ab now b \<equiv> bn_family b = family \<and> now < bn_until b \<and> net_contains b ab"

abbreviation tracks :: "b44_family \<Rightarrow> byte list \<Rightarrow> b44_ban \<Rightarrow> bool" where
  "tracks family base b \<equiv> bn_family b = family \<and> bn_until b = 0 \<and>
     bn_bits b = ban_base_bits family \<and> take (length base) (bn_net b) = base"

definition reclaimed :: "u64 \<Rightarrow> b44_ban list \<Rightarrow> b44_ban list \<Rightarrow> bool" where
  "reclaimed now ban ban' = (length ban' = length ban \<and> (\<forall>j < length ban.
     ban' ! j = ban ! j \<or> ban' ! j = ban_free \<and> bn_until (ban ! j) \<noteq> 0 \<and> bn_until (ban ! j) \<le> now))"

definition scan_ok :: "b44_family \<Rightarrow> byte list \<Rightarrow> nat set \<Rightarrow> b44_ban list \<Rightarrow> ban_scan \<Rightarrow> bool" where
  "scan_ok family base todo ban acc = (case acc of (track, slot, lru) \<Rightarrow>
     (\<forall>t. track = Some t \<longrightarrow> t < length ban \<and> t \<notin> todo \<and> tracks family base (ban ! t)) \<and>
     (\<forall>t. slot = Some t \<longrightarrow> t < length ban \<and> t \<notin> todo \<and> bn_family (ban ! t) = Fam_none) \<and>
     (\<forall>t. lru = Some t \<longrightarrow> t < length ban \<and> t \<notin> todo \<and> bn_until (ban ! t) = 0))"

lemma ban_free_simps [simp]:
  "bn_family ban_free = Fam_none" "bn_until ban_free = 0" "bn_weight ban_free = 0"
  by (simp_all add: ban_free_def)

lemma reclaimed_refl [simp]: "reclaimed now ban ban"
  by (simp add: reclaimed_def)

lemma reclaimed_trans:
  "reclaimed now a b \<Longrightarrow> reclaimed now b c \<Longrightarrow> reclaimed now a c"
  unfolding reclaimed_def by (metis ban_free_simps(2))

lemma reclaimed_one:
  "bn_until (ban ! i) \<noteq> 0 \<Longrightarrow> bn_until (ban ! i) \<le> now \<Longrightarrow> reclaimed now ban (ban[i := ban_free])"
  by (cases "i < length ban") (auto simp: reclaimed_def nth_list_update)

lemma scan_ok_step:
  assumes "scan_ok family base (set (i # is)) ban (track, slot, lru)" "i < length ban" "i \<notin> set is"
  shows "scan_ok family base (set is) ban (track, slot, lru)"
    and "bn_family (ban ! i) = Fam_none \<Longrightarrow>
      scan_ok family base (set is) ban (track, if slot = None then Some i else slot, lru)"
    and "scan_ok family base (set is) (ban[i := ban_free]) (track, if slot = None then Some i else slot, lru)"
    and "bn_until (ban ! i) = 0 \<Longrightarrow> bn_family (ban ! i) = family \<Longrightarrow> length base = length ab \<Longrightarrow>
      scan_ok family base (set is) ban
        (if bn_bits (ban ! i) = ban_base_bits family \<and> take (length ab) (bn_net (ban ! i)) = base
         then Some i else track, slot,
         case lru of None \<Rightarrow> Some i
         | Some l \<Rightarrow> if bn_count (ban ! i) < bn_count (ban ! l) then Some i else lru)"
  using assms by (auto simp: scan_ok_def nth_list_update split: option.splits)

lemma scan_spec:
  assumes "distinct is" "set is \<subseteq> {..<length ban}" "scan_ok family base (set is) ban acc"
    "length base = length ab" "family \<noteq> Fam_none" "ban_scan family ab base now is acc ban = (ban', r)"
  shows "reclaimed now ban ban' \<and>
    (case r of None \<Rightarrow> \<exists>b \<in> set ban. banned_by family ab now b
     | Some acc' \<Rightarrow> scan_ok family base {} ban' acc' \<and>
         (\<forall>i \<in> set is. \<not> banned_by family ab now (ban ! i)))"
  using assms
proof (induction family ab base now "is" acc ban rule: ban_scan.induct)
  case (2 family ab base now i "is" track slot lru ban)
  have i: "i < length ban" "i \<notin> set is" "distinct is" "set is \<subseteq> {..<length ban}"
    using "2.prems" by auto
  note ok = scan_ok_step [OF "2.prems"(3) i(1,2)]
  have same: "ban[i := ban_free] ! j = ban ! j" if "j \<in> set is" for j
    using that i(2) by (metis nth_list_update_neq)
  consider (free) "bn_family (ban ! i) = Fam_none"
    | (old) "bn_family (ban ! i) \<noteq> Fam_none" "bn_until (ban ! i) \<noteq> 0" "bn_until (ban ! i) \<le> now"
    | (other) "bn_family (ban ! i) \<noteq> Fam_none" "\<not> (bn_until (ban ! i) \<noteq> 0 \<and> bn_until (ban ! i) \<le> now)"
        "bn_family (ban ! i) \<noteq> family"
    | (hit) "bn_family (ban ! i) = family" "now < bn_until (ban ! i)" "net_contains (ban ! i) ab"
    | (track) "bn_family (ban ! i) = family" "bn_until (ban ! i) = 0" "family \<noteq> Fam_none"
    | (apart) "bn_family (ban ! i) = family" "now < bn_until (ban ! i)" "\<not> net_contains (ban ! i) ab"
        "bn_until (ban ! i) \<noteq> 0"
    using "2.prems"(5) by (metis not_le)
  then show ?case
  proof cases
    case free
    have "ban_scan family ab base now is (track, if slot = None then Some i else slot, lru) ban = (ban', r)"
      using "2.prems"(6) free by (simp add: Let_def)
    from "2.IH"(1) [OF refl refl free i(3,4) ok(2) "2.prems"(4,5) this, OF free] free show ?thesis
      using "2.prems"(5) by (auto split: option.splits)
  next
    case old
    have "ban_scan family ab base now is (track, if slot = None then Some i else slot, lru)
        (ban[i := ban_free]) = (ban', r)"
      using "2.prems"(6) old by (simp add: Let_def)
    from "2.IH"(2) [OF refl refl _ _ i(3) _ ok(3) "2.prems"(4,5) this] old i(4)
    have IH: "reclaimed now (ban[i := ban_free]) ban'"
      "case r of None \<Rightarrow> \<exists>b \<in> set (ban[i := ban_free]). banned_by family ab now b
       | Some acc' \<Rightarrow> scan_ok family base {} ban' acc' \<and>
         (\<forall>j \<in> set is. \<not> banned_by family ab now (ban[i := ban_free] ! j))"
      by auto
    have "b \<in> set (ban[i := ban_free]) \<Longrightarrow> b \<in> set ban \<or> b = ban_free" for b
      using set_update_subset_insert [of ban i ban_free] by auto
    then show ?thesis
      using IH reclaimed_trans [OF reclaimed_one [OF old(2,3)] IH(1)] old same "2.prems"(5)
      by (fastforce split: option.splits)
  next
    case other
    then have "ban_scan family ab base now is (track, slot, lru) ban = (ban', r)"
      using "2.prems"(6) by (auto simp: Let_def split: if_splits)
    from "2.IH"(3) [OF refl refl other(1,2,3) i(3,4) ok(1) "2.prems"(4,5) this] other show ?thesis
      by (auto split: option.splits)
  next
    case hit
    then have "\<not> bn_until (ban ! i) \<le> now" by (simp add: not_le)
    then have "ban' = ban" "r = None" using hit "2.prems"(5,6) by (auto simp: Let_def)
    then show ?thesis using hit i(1) by auto
  next
    case track
    then have "ban_scan family ab base now is
        (if bn_bits (ban ! i) = ban_base_bits family \<and> take (length ab) (bn_net (ban ! i)) = base
         then Some i else track, slot,
         case lru of None \<Rightarrow> Some i
         | Some l \<Rightarrow> if bn_count (ban ! i) < bn_count (ban ! l) then Some i else lru) ban = (ban', r)"
      using "2.prems"(6) by (auto simp: Let_def)
    from "2.IH"(4) [OF refl refl _ _ _ _ track(2) i(3,4) ok(4) [OF track(2,1) "2.prems"(4)] "2.prems"(4,5) this]
      track show ?thesis by (auto split: option.splits)
  next
    case apart
    then have late: "\<not> bn_until (ban ! i) \<le> now" by (simp add: not_le)
    then have "ban_scan family ab base now is (track, slot, lru) ban = (ban', r)"
      using apart "2.prems"(5,6) by (auto simp: Let_def)
    from "2.IH"(5) [OF refl refl _ _ _ _ _ i(3,4) ok(1) "2.prems"(4,5) this] apart late "2.prems"(5)
    show ?thesis by (auto split: option.splits)
  qed
qed auto

section \<open>Who is refused\<close>

text \<open>How many of the queries so far came from an address in the ten seconds before \<open>w\<close>.\<close>

definition sent :: "(b44_sa \<times> u64) list \<Rightarrow> b44_family \<Rightarrow> byte list \<Rightarrow> u64 \<Rightarrow> int" where
  "sent h family a w = int (length (filter (\<lambda>(from, t). sa_family from = family \<and> addr_bytes from = a \<and>
     t < w \<and> unat w \<le> unat t + 10000) h))"

text \<open>The address has sent as many queries within one window as the rate forbids.\<close>

definition flooding :: "int \<Rightarrow> (b44_sa \<times> u64) list \<Rightarrow> b44_family \<Rightarrow> byte list \<Rightarrow> bool" where
  "flooding rate h family a = (\<exists>w. rate * 10 \<le> sent h family a w)"

text \<open>The widest prefix a family's bans may reach.\<close>

definition widest :: "b44_family \<Rightarrow> nat" where
  "widest family = (if family = Fam_inet6 then 32 else 24)"

definition entry_ok :: "int \<Rightarrow> (b44_sa \<times> u64) list \<Rightarrow> b44_ban \<Rightarrow> bool" where
  "entry_ok rate h b = (bn_family b = Fam_none \<or> length (bn_net b) = 16 \<and>
     (let family = bn_family b; net = take (fam_len family) (bn_net b)
      in if bn_until b = 0
         then bn_bits b = ban_base_bits family \<and> bn_count b \<le> sent h family net (bn_window_ms b) \<and>
           (\<exists>q \<in> set h. unat (bn_window_ms b) \<le> unat (snd q) + 10000)
         else bn_bits b \<in> set (ban_ladder family) \<and>
           (\<exists>a. length a = fam_len family \<and> net_mask a (bn_bits b) = net \<and> flooding rate h family a)))"

lemma sent_mono: "sent h family a w \<le> sent (h @ h') family a w"
  by (simp add: sent_def)

lemma flooding_mono: "flooding rate h family a \<Longrightarrow> flooding rate (h @ h') family a"
  unfolding flooding_def using sent_mono order_trans by blast

lemma entry_ok_mono: "entry_ok rate h b \<Longrightarrow> entry_ok rate (h @ h') b"
  unfolding entry_ok_def Let_def
  using flooding_mono [of rate h "bn_family b" _ h']
    sent_mono [of h "bn_family b" "take (fam_len (bn_family b)) (bn_net b)" "bn_window_ms b" h']
  by (auto split: if_splits)

lemma entry_ok_free [simp]: "entry_ok rate h ban_free"
  by (simp add: entry_ok_def)

lemma widest_ladder: "bits \<in> set (ban_ladder family) \<Longrightarrow> widest family \<le> bits"
  by (auto simp: ban_ladder_def b44_ladder4_def b44_ladder6_def widest_def split: if_splits)

lemma base_ladder: "ban_base_bits family \<in> set (ban_ladder family)"
  by (simp add: ban_ladder_def b44_ladder4_def b44_ladder6_def ban_base_bits_def)

lemma sa_bytes: "sa_ok from \<Longrightarrow> addr_bytes from \<noteq> [] \<Longrightarrow>
    sa_family from \<noteq> Fam_none \<and> length (addr_bytes from) = fam_len (sa_family from)"
  by (cases "from") (auto simp: fam_len_def)

lemma widen_entries:
  assumes len: "length seed = 16" and until: "now + ban_ms \<noteq> 0"
    and off: "flooding rate h family (take (fam_len family) seed)" "family \<noteq> Fam_none"
    and i: "i < length (ban_ladder family)" and ok: "\<forall>b \<in> set ban. entry_ok rate h b"
  shows "\<forall>b \<in> set (widen_step family seed now ban_ms i ban). entry_ok rate h b"
proof -
  let ?pb = "ban_ladder family ! i" and ?a = "take (fam_len family) seed"
  have la: "length ?a = fam_len family" using len by (simp add: fam_len_def)
  then have "entry_ok rate h (ban_free\<lparr>bn_net := net_mask ?a ?pb @ replicate (16 - length (net_mask ?a ?pb)) 0,
      bn_family := family, bn_bits := ?pb, bn_weight := w, bn_until := now + ban_ms\<rparr>)" for w
    using off until i len
    by (auto simp: entry_ok_def Let_def fam_len_def intro!: exI [of _ ?a])
  moreover have "\<forall>b \<in> set (map (\<lambda>b. if P b then ban_free else b) ban). entry_ok rate h b" for P
    using ok by auto
  ultimately show ?thesis
    using ok unfolding widen_step_def Let_def
    by (auto split: option.splits dest!: set_update_subset_insert [THEN subsetD])
qed

lemma escalate_entries:
  assumes "length seed = 16" "now + ban_ms \<noteq> 0"
    "flooding rate h family (take (fam_len family) seed)" "family \<noteq> Fam_none"
    "\<forall>b \<in> set ban. entry_ok rate h b"
  shows "\<forall>b \<in> set (ban_escalate ban seed family now ban_ms). entry_ok rate h b"
proof -
  have all: "set is \<subseteq> {..<length (ban_ladder family)} \<Longrightarrow> \<forall>b \<in> set ban. entry_ok rate h b \<Longrightarrow>
      \<forall>b \<in> set (fold (widen_step family seed now ban_ms) is ban). entry_ok rate h b" for "is"
  proof (induction "is" arbitrary: ban)
    case (Cons i "is")
    then have "\<forall>b \<in> set (widen_step family seed now ban_ms i ban). entry_ok rate h b"
      by (intro widen_entries [OF assms(1-4)]) auto
    then show ?case using Cons by auto
  qed simp
  show ?thesis unfolding ban_escalate_def by (rule all [OF _ assms(5)]) auto
qed

lemma reclaimed_entries:
  "reclaimed now ban ban' \<Longrightarrow> \<forall>b \<in> set ban. entry_ok rate h b \<Longrightarrow> \<forall>b \<in> set ban'. entry_ok rate h b"
  by (auto simp: reclaimed_def in_set_conv_nth) (metis entry_ok_free nth_mem)

text \<open>The clock is far enough from its end for a ban to be told from a tracker.\<close>

definition clock_ok :: "b44_limit \<Rightarrow> u64 \<Rightarrow> bool" where
  "clock_ok lm now = (unat now + unat (lm_ban_ms lm) < 2 ^ 64 - 30000)"

lemma clock_until:
  "clock_ok lm now \<Longrightarrow> lm_ban_ms lm \<noteq> 0 \<Longrightarrow>
   unat (now + lm_ban_ms lm) = unat now + unat (lm_ban_ms lm) \<and> now + lm_ban_ms lm \<noteq> 0"
proof -
  assume "clock_ok lm now" and ban: "lm_ban_ms lm \<noteq> 0"
  then have "unat now + unat (lm_ban_ms lm) < 2 ^ LENGTH(64)" by (simp add: clock_ok_def)
  then have eq: "unat (now + lm_ban_ms lm) = unat now + unat (lm_ban_ms lm)"
    by (simp add: unat_word_ariths)
  moreover have "0 < unat (lm_ban_ms lm)" using ban by (simp add: unat_gt_0)
  ultimately have "unat (now + lm_ban_ms lm) \<noteq> 0" by linarith
  with eq show ?thesis by auto
qed

lemma clock_block: "clock_ok lm now \<Longrightarrow> now < now + B44_FAILCLOSED_MS"
  by (simp add: clock_ok_def B44_FAILCLOSED_MS_def word_less_nat_alt unat_word_ariths)

definition same_net :: "b44_family \<Rightarrow> byte list \<Rightarrow> byte list \<Rightarrow> bool" where
  "same_net family a b = (length a = length b \<and> net_mask a (widest family) = net_mask b (widest family))"

lemma banned_offender:
  assumes "entry_ok rate h b" "banned_by family ab now b" "length ab = fam_len family" "family \<noteq> Fam_none"
  shows "\<exists>a. same_net family a ab \<and> flooding rate h family a"
proof -
  have "bn_until b \<noteq> 0" using assms(2) by auto
  then obtain a where a: "length a = fam_len family" "flooding rate h family a"
    "net_mask a (bn_bits b) = take (fam_len family) (bn_net b)" "bn_bits b \<in> set (ban_ladder family)"
    using assms by (auto simp: entry_ok_def Let_def)
  then have "net_mask a (bn_bits b) = net_mask ab (bn_bits b)"
    using assms(2,3) by (simp add: net_contains_def)
  then have "same_net family a ab"
    using net_mask_wider [OF _ _ widest_ladder [OF a(4)]] a(1) assms(3) by (simp add: same_net_def)
  then show ?thesis using a(2) by blast
qed

text \<open>The ways a query goes through the limiter.\<close>

lemma ban_ok_cases:
  assumes "sa_ok from" "ban_ok lm from now = (ok, lm')"
  obtains (off) "lm_ban_ms lm = 0" "ok" "lm' = lm"
    | (block) "now < lm_block_until lm" "\<not> ok" "lm' = lm"
    | (noaddr) "addr_bytes from = []" "ok" "lm' = lm"
    | (banned) ban b where "reclaimed now (lm_ban lm) ban" "b \<in> set (lm_ban lm)"
        "banned_by (sa_family from) (addr_bytes from) now b" "\<not> ok" "lm' = lm\<lparr>lm_ban := ban\<rparr>"
        "lm_ban_ms lm \<noteq> 0" "addr_bytes from \<noteq> []"
    | (counted) ban t b where "reclaimed now (lm_ban lm) ban" "t < length ban"
        "tracks (sa_family from) (addr_bytes from) (ban ! t)" "ok"
        "b = (if bn_window_ms (ban ! t) \<le> now
              then (ban ! t)\<lparr>bn_count := 0, bn_window_ms := now + B44_BAN_WINDOW_MS\<rparr> else ban ! t)"
        "lm' = lm\<lparr>lm_ban := ban[t := b\<lparr>bn_count := bn_count b + 1\<rparr>]\<rparr>"
        "\<forall>b \<in> set (lm_ban lm). \<not> banned_by (sa_family from) (addr_bytes from) now b"
        "lm_ban_ms lm \<noteq> 0" "addr_bytes from \<noteq> []"
    | (tripped) ban t b where "reclaimed now (lm_ban lm) ban" "t < length ban"
        "tracks (sa_family from) (addr_bytes from) (ban ! t)" "\<not> ok"
        "lm_rate lm * 10 \<le> (if bn_window_ms (ban ! t) \<le> now then 0 else bn_count (ban ! t)) + 1"
        "\<forall>b \<in> set (lm_ban lm). \<not> banned_by (sa_family from) (addr_bytes from) now b"
        "bn_net b = bn_net (ban ! t)" "bn_family b = sa_family from" "bn_bits b = bn_bits (ban ! t)"
        "bn_until b = now + lm_ban_ms lm" "bn_weight b = 1"
        "lm' = lm\<lparr>lm_ban := ban_escalate (ban[t := b]) (bn_net b) (sa_family from) now (lm_ban_ms lm)\<rparr>"
        "lm_ban_ms lm \<noteq> 0" "addr_bytes from \<noteq> []"
    | (fresh) ban s b where "reclaimed now (lm_ban lm) ban" "s < length ban" "ok"
        "bn_family (ban ! s) = Fam_none \<or> bn_until (ban ! s) = 0"
        "b = ban_free\<lparr>bn_net := addr_bytes from @ replicate (16 - length (addr_bytes from)) 0,
           bn_family := sa_family from, bn_bits := ban_base_bits (sa_family from), bn_count := 1,
           bn_window_ms := now + B44_BAN_WINDOW_MS\<rparr>"
        "lm' = lm\<lparr>lm_ban := ban[s := b]\<rparr>"
        "\<forall>b \<in> set (lm_ban lm). \<not> banned_by (sa_family from) (addr_bytes from) now b"
        "lm_ban_ms lm \<noteq> 0" "addr_bytes from \<noteq> []"
    | (full) ban where "reclaimed now (lm_ban lm) ban" "\<not> ok"
        "lm' = lm\<lparr>lm_ban := ban, lm_block_until := now + B44_FAILCLOSED_MS\<rparr>"
        "\<forall>b \<in> set (lm_ban lm). \<not> banned_by (sa_family from) (addr_bytes from) now b"
        "lm_ban_ms lm \<noteq> 0" "addr_bytes from \<noteq> []"
proof -
  let ?ab = "addr_bytes from" and ?f = "sa_family from"
  consider "lm_ban_ms lm = 0" | "lm_ban_ms lm \<noteq> 0" "now < lm_block_until lm"
    | "lm_ban_ms lm \<noteq> 0" "\<not> now < lm_block_until lm" "?ab = []"
    | (scan) "lm_ban_ms lm \<noteq> 0" "\<not> now < lm_block_until lm" "?ab \<noteq> []" by blast
  then show thesis
  proof cases
    case 1
    then show thesis using assms(2) by (intro off) (simp_all add: ban_ok_def)
  next
    case 2
    then show thesis using assms(2) by (intro block) (simp_all add: ban_ok_def)
  next
    case 3
    then show thesis using assms(2) by (intro noaddr) (simp_all add: ban_ok_def)
  next
    case scan
    note sa = sa_bytes [OF assms(1) scan(3)]
    have base: "net_mask ?ab (ban_base_bits ?f) = ?ab" using sa by (simp add: net_mask_base)
    obtain ban r where sc: "ban_scan ?f ?ab ?ab now [0..<length (lm_ban lm)] (None, None, None) (lm_ban lm) = (ban, r)"
      by fastforce
    have ok0: "scan_ok ?f ?ab (set [0..<length (lm_ban lm)]) (lm_ban lm) (None, None, None)"
      by (simp add: scan_ok_def)
    have idx: "set [0..<length (lm_ban lm)] \<subseteq> {..<length (lm_ban lm)}" by auto
    have spec: "reclaimed now (lm_ban lm) ban"
      "case r of None \<Rightarrow> \<exists>b \<in> set (lm_ban lm). banned_by ?f ?ab now b
       | Some acc \<Rightarrow> scan_ok ?f ?ab {} ban acc"
      and free: "r \<noteq> None \<Longrightarrow> \<forall>b \<in> set (lm_ban lm). \<not> banned_by ?f ?ab now b"
      using scan_spec [OF distinct_upt idx ok0 refl sa [THEN conjunct1] sc]
      by (auto simp: in_set_conv_nth split: option.splits)
    have run: "ban_ok lm from now = (case (ban, r) of
        (ban, None) \<Rightarrow> (False, lm\<lparr>lm_ban := ban\<rparr>)
      | (ban, Some (Some t, _, _)) \<Rightarrow>
          (let b = ban ! t;
               b = (if bn_window_ms b \<le> now
                    then b\<lparr>bn_count := 0, bn_window_ms := now + B44_BAN_WINDOW_MS\<rparr> else b);
               b = b\<lparr>bn_count := bn_count b + 1\<rparr>
           in if bn_count b < lm_rate lm * 10 then (True, lm\<lparr>lm_ban := ban[t := b]\<rparr>)
              else (let b = b\<lparr>bn_until := now + lm_ban_ms lm, bn_weight := 1, bn_count := 0\<rparr>
                    in (False, lm\<lparr>lm_ban :=
                          ban_escalate (ban[t := b]) (bn_net b) ?f now (lm_ban_ms lm)\<rparr>)))
      | (ban, Some (None, slot, lru)) \<Rightarrow>
          (case (if slot = None then lru else slot) of
             None \<Rightarrow> (False, lm\<lparr>lm_ban := ban, lm_block_until := now + B44_FAILCLOSED_MS\<rparr>)
           | Some s \<Rightarrow>
               (True, lm\<lparr>lm_ban := ban[s :=
                  ban_free\<lparr>bn_net := ?ab @ replicate (16 - length ?ab) 0,
                    bn_family := ?f, bn_bits := ban_base_bits ?f, bn_count := 1,
                    bn_window_ms := now + B44_BAN_WINDOW_MS\<rparr>]\<rparr>)))"
      using scan unfolding ban_ok_def Let_def base sc by simp
    show thesis
    proof (cases r)
      case None
      then show thesis using spec run assms(2) scan by (auto intro: banned)
    next
      case (Some acc)
      obtain track slot lru where acc: "acc = (track, slot, lru)" by (cases acc)
      have free: "\<forall>b \<in> set (lm_ban lm). \<not> banned_by ?f ?ab now b" using free Some by simp
      show thesis
      proof (cases track)
        case (Some t)
        then have t: "t < length ban" "tracks ?f ?ab (ban ! t)"
          using spec(2) \<open>r = Some acc\<close> by (simp_all add: acc scan_ok_def)
        define b where "b = (if bn_window_ms (ban ! t) \<le> now
          then (ban ! t)\<lparr>bn_count := 0, bn_window_ms := now + B44_BAN_WINDOW_MS\<rparr> else ban ! t)"
        define bt where "bt = b\<lparr>bn_count := bn_count b + 1, bn_until := now + lm_ban_ms lm,
          bn_weight := 1, bn_count := 0\<rparr>"
        have b: "bn_net b = bn_net (ban ! t)" "bn_family b = bn_family (ban ! t)"
          "bn_bits b = bn_bits (ban ! t)" "bn_count b = (if bn_window_ms (ban ! t) \<le> now then 0 else bn_count (ban ! t))"
          by (simp_all add: b_def)
        have run': "(ok, lm') = (if bn_count b + 1 < lm_rate lm * 10
            then (True, lm\<lparr>lm_ban := ban[t := b\<lparr>bn_count := bn_count b + 1\<rparr>]\<rparr>)
            else (False, lm\<lparr>lm_ban := ban_escalate (ban[t := bt]) (bn_net bt) ?f now (lm_ban_ms lm)\<rparr>))"
          using run assms(2) by (simp add: \<open>r = Some acc\<close> acc Some b_def bt_def Let_def)
        show thesis
        proof (cases "bn_count b + 1 < lm_rate lm * 10")
          case True
          then show thesis using run' t spec(1) scan b_def free by (intro counted [of ban t b]) auto
        next
          case False
          then show thesis using run' t spec(1) scan b free
            by (intro tripped [of ban t bt]) (auto simp: bt_def)
        qed
      next
        case None
        show thesis
        proof (cases "if slot = None then lru else slot")
          case none: None
          then show thesis using run assms(2) spec(1) scan free
            by (intro full [of ban]) (auto simp: \<open>r = Some acc\<close> acc None)
        next
          case (Some s)
          then have "s < length ban" "bn_family (ban ! s) = Fam_none \<or> bn_until (ban ! s) = 0"
            using spec(2) \<open>r = Some acc\<close> by (auto simp: acc scan_ok_def split: if_splits)
          then show thesis using run assms(2) spec(1) scan Some free
            by (intro fresh [of ban s]) (auto simp: \<open>r = Some acc\<close> acc None)
        qed
      qed
    qed
  qed
qed

lemma sent_snoc:
  "now < w \<Longrightarrow> unat w \<le> unat now + 10000 \<Longrightarrow>
   sent (h @ [(from, now)]) (sa_family from) (addr_bytes from) w = sent h (sa_family from) (addr_bytes from) w + 1"
  by (simp add: sent_def)

lemma sent_nonneg [simp]: "0 \<le> sent h family a w"
  by (simp add: sent_def)

lemma tracker_count:
  assumes "entry_ok rate h b" "tracks family ab b" "length ab = fam_len family" "family \<noteq> Fam_none"
  shows "length (bn_net b) = 16 \<and> bn_count b \<le> sent h family ab (bn_window_ms b) \<and>
    (\<exists>q \<in> set h. unat (bn_window_ms b) \<le> unat (snd q) + 10000)"
  using assms by (auto simp: entry_ok_def Let_def)

text \<open>A window that starts now, and one under way, hold the query that comes in now.\<close>

lemma clock_window:
  assumes "clock_ok lm now"
  shows "now < now + B44_BAN_WINDOW_MS \<and> unat (now + B44_BAN_WINDOW_MS) = unat now + 10000"
  using assms by (simp add: clock_ok_def B44_BAN_WINDOW_MS_def word_less_nat_alt unat_word_ariths)

lemma tracker_counts_now:
  assumes e: "entry_ok rate h b" "tracks (sa_family from) (addr_bytes from) b" "sa_ok from" "addr_bytes from \<noteq> []"
    and clock: "clock_ok lm now" and past: "\<forall>q \<in> set h. snd q \<le> now"
  defines "w \<equiv> if bn_window_ms b \<le> now then now + B44_BAN_WINDOW_MS else bn_window_ms b"
  shows "(if bn_window_ms b \<le> now then 0 else bn_count b) + 1 \<le> sent (h @ [(from, now)]) (sa_family from) (addr_bytes from) w \<and>
    unat w \<le> unat now + 10000"
proof -
  note ab = sa_bytes [OF e(3,4)]
  note c = tracker_count [OF e(1,2)]
  show ?thesis
  proof (cases "bn_window_ms b \<le> now")
    case True
    then show ?thesis using clock_window [OF clock] sent_snoc [of now w h "from"] by (simp add: w_def)
  next
    case False
    obtain q where "q \<in> set h" "unat (bn_window_ms b) \<le> unat (snd q) + 10000" using c ab by blast
    then have "unat (bn_window_ms b) \<le> unat now + 10000" using past by (auto simp: word_le_nat_alt)
    then have "bn_count b + 1 \<le> sent (h @ [(from, now)]) (sa_family from) (addr_bytes from) (bn_window_ms b)"
      using False c ab sent_snoc [of now "bn_window_ms b" h "from"] by (simp add: not_le)
    then show ?thesis using False \<open>unat (bn_window_ms b) \<le> unat now + 10000\<close> by (simp only: w_def if_False)
  qed
qed

lemma update_entries:
  "\<forall>b \<in> set ban. entry_ok rate h b \<Longrightarrow> entry_ok rate h x \<Longrightarrow> \<forall>b \<in> set (ban[i := x]). entry_ok rate h b"
  using set_update_subset_insert [of ban i x] by auto

lemma ban_ok_entries:
  assumes inv: "\<forall>b \<in> set (lm_ban lm). entry_ok (lm_rate lm) h b"
    and sa: "sa_ok from" and clock: "clock_ok lm now" and run: "ban_ok lm from now = (ok, lm')"
    and past: "\<forall>q \<in> set h. snd q \<le> now"
  shows "(\<forall>b \<in> set (lm_ban lm'). entry_ok (lm_rate lm) (h @ [(from, now)]) b) \<and>
    lm_rate lm' = lm_rate lm \<and> lm_ban_ms lm' = lm_ban_ms lm \<and>
    (\<not> ok \<longrightarrow> now < lm_block_until lm' \<or>
      (\<exists>a. same_net (sa_family from) a (addr_bytes from) \<and>
        flooding (lm_rate lm) (h @ [(from, now)]) (sa_family from) a))"
proof -
  let ?h = "h @ [(from, now)]" and ?f = "sa_family from" and ?ab = "addr_bytes from"
  have inv': "\<forall>b \<in> set (lm_ban lm). entry_ok (lm_rate lm) ?h b" using inv entry_ok_mono by blast
  show ?thesis
    using sa run
  proof (cases rule: ban_ok_cases)
    case (banned ban b)
    note ab = sa_bytes [OF sa banned(7)]
    show ?thesis
      using banned reclaimed_entries [OF banned(1) inv'] ab
        banned_offender [OF bspec [OF inv' banned(2)] banned(3)] by auto
  next
    case (counted ban t b)
    note ab = sa_bytes [OF sa counted(9)]
    have e: "entry_ok (lm_rate lm) h (ban ! t)"
      using reclaimed_entries [OF counted(1) inv] counted(2) by (metis nth_mem)
    note c = tracker_count [OF e counted(3)] ab and n = tracker_counts_now [OF e counted(3) sa counted(9) clock past]
    have "entry_ok (lm_rate lm) ?h (b\<lparr>bn_count := bn_count b + 1\<rparr>)"
      using counted(3,5) c n by (auto simp: entry_ok_def Let_def intro: bexI [of _ "(from, now)"] split: if_splits)
    then show ?thesis
      using counted update_entries [OF reclaimed_entries [OF counted(1) inv']] by auto
  next
    case (tripped ban t b)
    note ab = sa_bytes [OF sa tripped(14)]
    have e: "entry_ok (lm_rate lm) h (ban ! t)"
      using reclaimed_entries [OF tripped(1) inv] tripped(2) by (metis nth_mem)
    then have c: "length (bn_net (ban ! t)) = 16" "flooding (lm_rate lm) ?h ?f ?ab"
      using tracker_count [OF e tripped(3)] tracker_counts_now [OF e tripped(3) sa tripped(14) clock past] ab tripped(5)
      unfolding flooding_def by (auto intro: order_trans)
    have net: "take (fam_len ?f) (bn_net b) = ?ab" using tripped(3,7) ab by simp
    note cl = clock_until [OF clock tripped(13)]
    have "entry_ok (lm_rate lm) ?h b"
      using tripped c ab net cl base_ladder [of ?f] net_mask_base [of ?ab ?f]
      by (auto simp: entry_ok_def Let_def)
    then have "\<forall>b \<in> set (lm_ban lm'). entry_ok (lm_rate lm) ?h b"
      unfolding tripped(12) using tripped(7) c net cl ab
      by (simp, intro escalate_entries update_entries reclaimed_entries [OF tripped(1) inv'])
        simp_all
    then show ?thesis using tripped(4,12) c(2) by (auto simp: same_net_def)
  next
    case (fresh ban s b)
    note ab = sa_bytes [OF sa fresh(9)]
    have "entry_ok (lm_rate lm) ?h b"
      using ab clock_window [OF clock] sent_snoc [of now "now + B44_BAN_WINDOW_MS" h "from"]
      by (auto simp: fresh(5) entry_ok_def Let_def fam_len_def intro: bexI [of _ "(from, now)"])
    then show ?thesis
      using fresh update_entries [OF reclaimed_entries [OF fresh(1) inv']] by auto
  next
    case (full ban)
    then show ?thesis using reclaimed_entries [OF full(1) inv'] clock_block [OF clock] by auto
  qed (use inv' in auto)
qed

text \<open>The limiter over a sequence of queries: the verdict on each.\<close>

fun ban_run :: "b44_limit \<Rightarrow> (b44_sa \<times> u64) list \<Rightarrow> b44_limit \<times> bool list" where
  "ban_run lm [] = (lm, [])"
| "ban_run lm ((from, now) # qs) =
     (let (ok, lm) = ban_ok lm from now; (lm, oks) = ban_run lm qs in (lm, ok # oks))"

definition limit_init :: "int \<Rightarrow> u64 \<Rightarrow> b44_limit" where
  "limit_init rate ban_ms =
     \<lparr>lm_ban = replicate B44_BAN_MAX ban_free, lm_block_until = 0, lm_rate = rate, lm_ban_ms = ban_ms\<rparr>"

lemma run_entries:
  assumes "\<forall>b \<in> set (lm_ban lm). entry_ok (lm_rate lm) h b"
    "\<forall>(from, now) \<in> set qs. sa_ok from \<and> clock_ok lm now" "ban_run lm qs = (lm', oks)" "sorted (map snd (h @ qs))"
  shows "(\<forall>b \<in> set (lm_ban lm'). entry_ok (lm_rate lm) (h @ qs) b) \<and>
    lm_rate lm' = lm_rate lm \<and> lm_ban_ms lm' = lm_ban_ms lm"
  using assms
proof (induction qs arbitrary: lm h oks)
  case (Cons q qs)
  obtain "from" now where q: "q = (from, now)" by fastforce
  obtain ok lm1 where one: "ban_ok lm from now = (ok, lm1)" by fastforce
  obtain oks' where rest: "ban_run lm1 qs = (lm', oks')"
    using Cons.prems(3) one by (auto simp: q Let_def split: prod.splits)
  have e: "(\<forall>b \<in> set (lm_ban lm1). entry_ok (lm_rate lm1) (h @ [q]) b)"
      "lm_rate lm1 = lm_rate lm" "lm_ban_ms lm1 = lm_ban_ms lm"
    using ban_ok_entries [OF Cons.prems(1) _ _ one] Cons.prems(2,4) by (auto simp: q sorted_append)
  have "\<forall>(from, now) \<in> set qs. sa_ok from \<and> clock_ok lm1 now"
    using Cons.prems(2) e(3) by (auto simp: clock_ok_def)
  from Cons.IH [OF e(1) this rest] Cons.prems(4) e show ?case by simp
qed simp

section \<open>How long a ban lasts\<close>

definition covered :: "nat \<Rightarrow> b44_family \<Rightarrow> byte list \<Rightarrow> b44_ban list \<Rightarrow> bool" where
  "covered T family ab ban =
     (\<exists>b \<in> set ban. bn_family b = family \<and> T \<le> unat (bn_until b) \<and> net_contains b ab)"

definition until_le :: "nat \<Rightarrow> b44_ban list \<Rightarrow> bool" where
  "until_le n ban = (\<forall>b \<in> set ban. unat (bn_until b) \<le> n \<and> (bn_family b \<noteq> Fam_none \<longrightarrow> length (bn_net b) = 16))"

lemma until_le_mono: "until_le n ban \<Longrightarrow> n \<le> m \<Longrightarrow> until_le m ban"
  by (fastforce simp: until_le_def)

lemma reclaimed_covered:
  assumes "reclaimed now ban ban'" "covered T family ab ban" "unat now < T"
  shows "covered T family ab ban'"
proof -
  obtain j where j: "j < length ban" "bn_family (ban ! j) = family" "T \<le> unat (bn_until (ban ! j))"
    "net_contains (ban ! j) ab"
    using assms(2) by (auto simp: covered_def in_set_conv_nth)
  then have "\<not> bn_until (ban ! j) \<le> now" using assms(3) by (simp add: word_le_nat_alt)
  then have "ban' ! j = ban ! j" "j < length ban'" using assms(1) j(1) by (auto simp: reclaimed_def)
  then show ?thesis using j by (metis covered_def nth_mem)
qed

lemma reclaimed_until: "reclaimed now ban ban' \<Longrightarrow> until_le n ban \<Longrightarrow> until_le n ban'"
  unfolding until_le_def reclaimed_def
  by (auto simp: in_set_conv_nth) (metis ban_free_simps(2) le0 nth_mem unat_0, metis ban_free_simps(1) nth_mem)

lemma update_covered:
  assumes "covered T family ab ban" "0 < T" "family \<noteq> Fam_none"
    "bn_family (ban ! i) = Fam_none \<or> bn_until (ban ! i) = 0"
  shows "covered T family ab (ban[i := x])"
proof -
  obtain j where j: "j < length ban" "bn_family (ban ! j) = family" "T \<le> unat (bn_until (ban ! j))"
    "net_contains (ban ! j) ab"
    using assms(1) by (auto simp: covered_def in_set_conv_nth)
  then have "i \<noteq> j" using assms(2-4) by auto
  then have "ban[i := x] ! j = ban ! j" "j < length (ban[i := x])" using j(1) by simp_all
  then show ?thesis using j by (metis covered_def nth_mem)
qed

lemma update_until:
  "until_le n ban \<Longrightarrow> unat (bn_until x) \<le> n \<Longrightarrow> (bn_family x \<noteq> Fam_none \<Longrightarrow> length (bn_net x) = 16) \<Longrightarrow>
   until_le n (ban[i := x])"
  using set_update_subset_insert [of ban i x] by (fastforce simp: until_le_def)

lemma widen_until:
  assumes "until_le n ban" "unat (now + ban_ms) \<le> n" "length seed = 16"
  shows "until_le n (widen_step family' seed now ban_ms i ban)"
proof -
  have "until_le n (map (\<lambda>b. if P b then ban_free else b) ban)" for P
    using assms(1) by (auto simp: until_le_def)
  then show ?thesis
    using assms unfolding widen_step_def Let_def
    by (auto split: option.split simp: fam_len_def intro!: update_until)
qed

lemma widen_step_eq:
  fixes family' seed now i
  defines "inside \<equiv> ban_inside family' now (ban_ladder family' ! i)
      (net_mask (take (fam_len family') seed) (ban_ladder family' ! i))"
  obtains "widen_step family' seed now ban_ms i ban = ban"
  | first x where "find_index inside ban = Some first"
      "widen_step family' seed now ban_ms i ban = (map (\<lambda>b. if inside b then ban_free else b) ban)[first := x]"
      "bn_family x = family'" "bn_bits x = ban_ladder family' ! i" "bn_until x = now + ban_ms"
      "bn_net x = (let pnet = net_mask (take (fam_len family') seed) (ban_ladder family' ! i)
        in pnet @ replicate (16 - length pnet) 0)"
proof (cases "find_index inside ban")
  case None
  then show thesis using that(1) unfolding widen_step_def Let_def inside_def by simp
next
  case (Some first)
  define w where "w = sum_list (map (\<lambda>b. unat (bn_weight b)) (filter inside ban))"
  show thesis
  proof (cases "w < i + 1")
    case True
    then show thesis using that(1) unfolding widen_step_def Let_def inside_def w_def by simp
  next
    case False
    then show thesis
      using Some that(2) [OF Some, of "ban_free\<lparr>bn_net := (let pnet = net_mask (take (fam_len family') seed) (ban_ladder family' ! i)
          in pnet @ replicate (16 - length pnet) 0), bn_family := family',
        bn_bits := ban_ladder family' ! i, bn_weight := of_nat w, bn_until := now + ban_ms\<rparr>"]
      unfolding widen_step_def Let_def inside_def w_def by simp
  qed
qed

lemma coveredI:
  "b \<in> set ban \<Longrightarrow> bn_family b = family \<Longrightarrow> T \<le> unat (bn_until b) \<Longrightarrow> net_contains b ab \<Longrightarrow>
   covered T family ab ban"
  unfolding covered_def by blast

lemma inside_covers:
  assumes inside: "ban_inside family now pb pn b" and b: "net_contains b ab"
    and len: "length ab = fam_len family"
    and x: "bn_bits x = pb" "bn_net x = pn @ r"
  shows "net_contains x ab"
proof -
  have bits: "pb \<le> bn_bits b" and pn: "net_mask (take (fam_len family) (bn_net b)) pb = pn"
    using inside by (simp_all add: ban_inside_def)
  have "net_mask ab (bn_bits b) = take (fam_len family) (bn_net b)"
    using b len by (simp add: net_contains_def)
  then have pn': "net_mask ab pb = pn" using pn net_mask_mask [OF bits, of ab] by simp
  then have "length ab = length pn" by (metis length_net_mask)
  then show ?thesis by (simp add: net_contains_def x pn')
qed

lemma replace_covered:
  assumes cov: "covered T family ab ban" and T: "T \<le> unat (bn_until x)"
    and len: "length ab = fam_len family" and f: "find_index (ban_inside family' now pb pn) ban = Some first"
    and x: "bn_family x = family'" "bn_bits x = pb" "bn_net x = pn @ r"
  shows "covered T family ab ((map (\<lambda>b. if ban_inside family' now pb pn b then ban_free else b) ban)[first := x])"
    (is "covered T family ab ?ban")
proof -
  note f = find_index_SomeD [OF f]
  obtain j where j: "j < length ban" "bn_family (ban ! j) = family" "T \<le> unat (bn_until (ban ! j))"
    "net_contains (ban ! j) ab"
    using cov by (auto simp: covered_def in_set_conv_nth)
  show ?thesis
  proof (cases "ban_inside family' now pb pn (ban ! j)")
    case True
    then have fam': "family' = family" using j(2) by (simp add: ban_inside_def)
    have "net_contains x ab" using inside_covers [OF True [unfolded fam'] j(4) len x(2,3)] .
    moreover have "x \<in> set ?ban" using f by (simp add: set_update_memI)
    moreover have "bn_family x = family" using x(1) fam' by simp
    ultimately show ?thesis using T by (intro coveredI)
  next
    case False
    then have "first \<noteq> j" using f by auto
    then have "?ban ! j = ban ! j" "j < length ?ban" using False j(1) by simp_all
    then have "ban ! j \<in> set ?ban" by (metis nth_mem)
    then show ?thesis using j(2-4) by (rule coveredI)
  qed
qed

lemma widen_covered:
  assumes cov: "covered T family ab ban" and T: "T \<le> unat (now + ban_ms)"
    and len: "length ab = fam_len family"
  shows "covered T family ab (widen_step family' seed now ban_ms i ban)"
proof (rule widen_step_eq [of family' seed now ban_ms i ban])
  assume "widen_step family' seed now ban_ms i ban = ban"
  then show ?thesis using cov by (simp only:)
next
  fix first x
  let ?pb = "ban_ladder family' ! i" and ?pn = "net_mask (take (fam_len family') seed) (ban_ladder family' ! i)"
  assume f: "find_index (ban_inside family' now ?pb ?pn) ban = Some first"
    and eq: "widen_step family' seed now ban_ms i ban =
      (map (\<lambda>b. if ban_inside family' now ?pb ?pn b then ban_free else b) ban)[first := x]"
    and x: "bn_family x = family'" "bn_bits x = ?pb" "bn_until x = now + ban_ms"
      "bn_net x = (let pnet = ?pn in pnet @ replicate (16 - length pnet) 0)"
  show ?thesis
    unfolding eq
    by (rule replace_covered [OF cov _ len f x(1,2) x(4) [unfolded Let_def]]) (simp only: x(3) T)
qed

lemma escalate_covered:
  assumes "covered T family ab ban" "T \<le> unat (now + ban_ms)" "length ab = fam_len family"
  shows "covered T family ab (ban_escalate ban seed family' now ban_ms)"
proof -
  have "covered T family ab ban \<Longrightarrow> covered T family ab (fold (widen_step family' seed now ban_ms) is ban)" for "is"
    by (induction "is" arbitrary: ban) (simp_all add: widen_covered [OF _ assms(2,3)])
  then show ?thesis using assms(1) by (simp add: ban_escalate_def)
qed

lemma escalate_until:
  assumes "until_le n ban" "unat (now + ban_ms) \<le> n" "length seed = 16"
  shows "until_le n (ban_escalate ban seed family' now ban_ms)"
proof -
  have "until_le n ban \<Longrightarrow> until_le n (fold (widen_step family' seed now ban_ms) is ban)" for "is"
    by (induction "is" arbitrary: ban) (simp_all add: widen_until [OF _ assms(2,3)])
  then show ?thesis using assms(1) by (simp add: ban_escalate_def)
qed

text \<open>The state of the limiter at a time: no ban runs longer than one started now would.\<close>

definition limit_at :: "b44_limit \<Rightarrow> u64 \<Rightarrow> bool" where
  "limit_at lm t = until_le (unat t + unat (lm_ban_ms lm)) (lm_ban lm)"

lemma ban_ok_at:
  assumes at: "limit_at lm t" and sa: "sa_ok from" and clock: "clock_ok lm now" and time: "t \<le> now"
    and run: "ban_ok lm from now = (ok, lm')"
  shows "limit_at lm' now"
proof -
  have at': "until_le (unat now + unat (lm_ban_ms lm)) (lm_ban lm)"
    using at time by (auto simp: limit_at_def word_le_nat_alt elim: until_le_mono)
  show ?thesis
    using sa run
  proof (cases rule: ban_ok_cases)
    case (counted ban t b)
    note u = reclaimed_until [OF counted(1) at']
    have "ban ! t \<in> set ban" using counted(2) by simp
    then have "unat (bn_until (ban ! t)) \<le> unat now + unat (lm_ban_ms lm)"
      "bn_family (ban ! t) \<noteq> Fam_none \<Longrightarrow> length (bn_net (ban ! t)) = 16"
      using u by (auto simp: until_le_def)
    then have "until_le (unat now + unat (lm_ban_ms lm)) (ban[t := b\<lparr>bn_count := bn_count b + 1\<rparr>])"
      by (intro update_until [OF u]) (auto simp: counted(5) split: if_splits)
    then show ?thesis by (simp add: limit_at_def counted(6))
  next
    case (tripped ban t b)
    note u = reclaimed_until [OF tripped(1) at'] and cl = clock_until [OF clock tripped(13)]
    have len: "length (bn_net b) = 16"
      using u tripped(2,3,7) sa_bytes [OF sa tripped(14)] nth_mem [OF tripped(2)]
      by (auto simp: until_le_def)
    then show ?thesis
      using u cl tripped(10,12)
      by (auto simp: limit_at_def intro!: escalate_until update_until)
  next
    case (fresh ban s b)
    note u = reclaimed_until [OF fresh(1) at']
    then show ?thesis
      using sa_bytes [OF sa fresh(9)] fresh(5,6)
      by (auto simp: limit_at_def fam_len_def intro!: update_until)
  qed (use at' reclaimed_until in \<open>auto simp: limit_at_def\<close>)
qed

lemma ban_ok_covered:
  assumes at: "limit_at lm t" and sa: "sa_ok from" and clock: "clock_ok lm now" and time: "t \<le> now"
    and run: "ban_ok lm from now = (ok, lm')" and T: "unat now < T"
    and cov: "covered T family ab (lm_ban lm)" and fam: "family \<noteq> Fam_none" "length ab = fam_len family"
    and on: "lm_ban_ms lm \<noteq> 0"
  shows "covered T family ab (lm_ban lm') \<and> (sa_family from = family \<and> addr_bytes from = ab \<longrightarrow> \<not> ok)"
proof -
  obtain b0 where b0: "b0 \<in> set (lm_ban lm)" "bn_family b0 = family" "T \<le> unat (bn_until b0)"
    "net_contains b0 ab"
    using cov by (auto simp: covered_def)
  have "unat (bn_until b0) \<le> unat t + unat (lm_ban_ms lm)"
    using at b0(1) by (simp add: limit_at_def until_le_def)
  then have T': "T \<le> unat (now + lm_ban_ms lm)"
    using b0(3) clock_until [OF clock on] time by (simp add: word_le_nat_alt)
  have "now < bn_until b0" using b0(3) T by (simp add: word_less_nat_alt)
  then have hit: "\<exists>b \<in> set (lm_ban lm). banned_by family ab now b" using b0 by auto
  have T0: "0 < T" using T by simp
  show ?thesis
    using sa run
  proof (cases rule: ban_ok_cases)
    case (banned ban b)
    then show ?thesis using reclaimed_covered [OF banned(1) cov T] by simp
  next
    case (counted ban t b)
    then show ?thesis
      using update_covered [OF reclaimed_covered [OF counted(1) cov T] T0 fam(1)] hit by auto
  next
    case (tripped ban t b)
    then show ?thesis
      using escalate_covered [OF update_covered [OF reclaimed_covered [OF tripped(1) cov T] T0 fam(1)] T' fam(2)]
      by auto
  next
    case (fresh ban s b)
    then show ?thesis
      using update_covered [OF reclaimed_covered [OF fresh(1) cov T] T0 fam(1) fresh(4)] hit by auto
  next
    case (full ban)
    then show ?thesis using reclaimed_covered [OF full(1) cov T] by simp
  qed (use cov on fam sa_bytes in \<open>auto simp: fam_len_def split: if_splits\<close>)
qed

lemma refused_covered:
  assumes sa: "sa_ok src" and clock: "clock_ok lm t" and run: "ban_ok lm src t = (False, lm')"
    and open_: "\<not> t < lm_block_until lm'"
  shows "\<exists>b \<in> set (lm_ban lm'). banned_by (sa_family src) (addr_bytes src) t b"
    and "lm_ban_ms lm \<noteq> 0" "addr_bytes src \<noteq> []" "lm_ban_ms lm' = lm_ban_ms lm"
proof -
  have "(\<exists>b \<in> set (lm_ban lm'). banned_by (sa_family src) (addr_bytes src) t b) \<and>
    lm_ban_ms lm \<noteq> 0 \<and> addr_bytes src \<noteq> [] \<and> lm_ban_ms lm' = lm_ban_ms lm"
    using sa run
  proof (cases rule: ban_ok_cases)
    case (banned ban b)
    have "covered (unat (bn_until b)) (sa_family src) (addr_bytes src) (lm_ban lm)"
      using banned(2,3) by (intro coveredI) auto
    from reclaimed_covered [OF banned(1) this] banned
    show ?thesis by (fastforce simp: covered_def word_less_nat_alt)
  next
    case (tripped ban k b)
    note cl = clock_until [OF clock tripped(13)] and ab = sa_bytes [OF sa tripped(14)]
    have "0 < unat (lm_ban_ms lm)" using tripped(13) by (simp add: unat_gt_0)
    then have later: "unat t < unat (t + lm_ban_ms lm)" using cl by simp
    have "net_contains b (addr_bytes src)"
      using tripped(3,7,9) ab by (simp add: net_contains_def net_mask_base)
    then have "covered (unat (t + lm_ban_ms lm)) (sa_family src) (addr_bytes src) (ban[k := b])"
      using tripped(2,8,10) by (intro coveredI [of b]) (simp_all add: set_update_memI)
    from escalate_covered [OF this order_refl] ab later tripped show ?thesis
      by (fastforce simp: covered_def word_less_nat_alt)
  next
    case (full ban)
    then show ?thesis using clock_block [OF clock] open_ by simp
  qed (use open_ in auto)
  then show "\<exists>b \<in> set (lm_ban lm'). banned_by (sa_family src) (addr_bytes src) t b"
    and "lm_ban_ms lm \<noteq> 0" "addr_bytes src \<noteq> []" "lm_ban_ms lm' = lm_ban_ms lm" by auto
qed

definition queries_ok :: "b44_limit \<Rightarrow> u64 \<Rightarrow> (b44_sa \<times> u64) list \<Rightarrow> bool" where
  "queries_ok lm t qs = (sorted (map snd qs) \<and> (\<forall>(from, now) \<in> set qs. sa_ok from \<and> clock_ok lm now \<and> t \<le> now))"

lemma queries_ok_Cons:
  "queries_ok lm t ((from, now) # qs) \<longleftrightarrow>
   sa_ok from \<and> clock_ok lm now \<and> t \<le> now \<and> queries_ok lm now qs"
  unfolding queries_ok_def by (auto simp: split_beta intro: order_trans)

lemma queries_ok_cong: "lm_ban_ms lm' = lm_ban_ms lm \<Longrightarrow> queries_ok lm' t qs = queries_ok lm t qs"
  by (simp add: queries_ok_def clock_ok_def)

lemma ban_ok_ms: "sa_ok from \<Longrightarrow> ban_ok lm from now = (ok, lm') \<Longrightarrow> lm_ban_ms lm' = lm_ban_ms lm"
  by (erule (1) ban_ok_cases) simp_all

lemma run_at:
  "limit_at lm t \<Longrightarrow> queries_ok lm t qs \<Longrightarrow> ban_run lm qs = (lm', oks) \<Longrightarrow>
   limit_at lm' (last (t # map snd qs)) \<and> lm_ban_ms lm' = lm_ban_ms lm"
proof (induction qs arbitrary: lm t oks)
  case (Cons q qs)
  obtain "from" now where q: "q = (from, now)" by fastforce
  obtain ok lm1 where one: "ban_ok lm from now = (ok, lm1)" by fastforce
  obtain oks' where rest: "ban_run lm1 qs = (lm', oks')"
    using Cons.prems(3) one by (auto simp: q Let_def split: prod.splits)
  have qok: "sa_ok from" "clock_ok lm now" "t \<le> now" "queries_ok lm now qs"
    using Cons.prems(2) by (auto simp: q queries_ok_Cons)
  have ms: "lm_ban_ms lm1 = lm_ban_ms lm" using ban_ok_ms [OF qok(1) one] .
  from Cons.IH [OF ban_ok_at [OF Cons.prems(1) qok(1-3) one] _ rest] qok(4) ms
  show ?case by (simp add: q queries_ok_cong [OF ms])
qed simp

lemma run_covered:
  "limit_at lm t \<Longrightarrow> queries_ok lm t qs \<Longrightarrow> \<forall>q \<in> set qs. unat (snd q) < T \<Longrightarrow>
   covered T family ab (lm_ban lm) \<Longrightarrow> family \<noteq> Fam_none \<Longrightarrow> length ab = fam_len family \<Longrightarrow>
   lm_ban_ms lm \<noteq> 0 \<Longrightarrow> i < length qs \<Longrightarrow> sa_family (fst (qs ! i)) = family \<Longrightarrow>
   addr_bytes (fst (qs ! i)) = ab \<Longrightarrow> \<not> snd (ban_run lm qs) ! i"
proof (induction qs arbitrary: lm t i)
  case (Cons q qs)
  obtain "from" now where q: "q = (from, now)" by fastforce
  obtain ok lm1 where one: "ban_ok lm from now = (ok, lm1)" by fastforce
  have qok: "sa_ok from" "clock_ok lm now" "t \<le> now" "queries_ok lm now qs"
    using Cons.prems(2) by (auto simp: q queries_ok_Cons)
  have ms: "lm_ban_ms lm1 = lm_ban_ms lm" using ban_ok_ms [OF qok(1) one] .
  have now: "unat now < T" using Cons.prems(3) by (simp add: q)
  note step = ban_ok_covered [OF Cons.prems(1) qok(1-3) one now Cons.prems(4-7)]
  have runs: "snd (ban_run lm (q # qs)) = ok # snd (ban_run lm1 qs)"
    by (simp add: q one Let_def split_beta)
  show ?case
  proof (cases i)
    case 0
    then show ?thesis using step Cons.prems(9,10) unfolding runs by (simp add: q)
  next
    case (Suc k)
    have "\<not> snd (ban_run lm1 qs) ! k"
      using Cons.prems Suc step ms qok(4)
      by (intro Cons.IH [OF ban_ok_at [OF Cons.prems(1) qok(1-3) one]])
        (simp_all add: queries_ok_cong [OF ms])
    then show ?thesis unfolding runs by (simp add: Suc)
  qed
qed simp

end
