(* ===== verification/Bep44_Store.thy ===== *)
theory Bep44_Store
  imports Bencode Sha1 Bep44_Ban
begin

text \<open>
  The storing side of bep44.c: the write tokens, the item store, the cache of referrals, and the
  handlers of \<open>get\<close> and \<open>put\<close>. A handler returns the engine and the datagrams it sends; the
  clock, the random bytes and the Ed25519 check, which a library provides, are arguments. An
  allocation does not fail.

  An item's value is the bytes of its encoding as they came in. A query's arguments are read from
  the encoded dictionary each time, as the code does.
\<close>

section \<open>Messages\<close>

text \<open>The content of an option, or what stands for it.\<close>

definition the_default :: "'a \<Rightarrow> 'a option \<Rightarrow> 'a" where
  "the_default d x = (case x of None \<Rightarrow> d | Some y \<Rightarrow> y)"

definition bytes :: "string \<Rightarrow> byte list" where
  "bytes s = map of_char s"

type_synonym sends = "(b44_sa \<times> byte list) list"

definition BEP44_MAX_VALUE :: nat where "BEP44_MAX_VALUE = 1000"
definition BEP44_MAX_SALT :: nat where "BEP44_MAX_SALT = 64"
definition B44_ITEM_TTL_MS :: u64 where "B44_ITEM_TTL_MS = 2 * 60 * 60 * 1000"
definition B44_TOKEN_ROTATE_MS :: u64 where "B44_TOKEN_ROTATE_MS = 5 * 60 * 1000"
definition B44_TOKEN_LEN :: nat where "B44_TOKEN_LEN = 8"
definition B44_TID_MAX :: nat where "B44_TID_MAX = 64"
definition B44_CACHE_MAX :: nat where "B44_CACHE_MAX = 128"
definition B44_REPLY_NODES :: nat where "B44_REPLY_NODES = 8"
definition B44_CACHE_TTL_MS :: u64 where "B44_CACHE_TTL_MS = 60 * 60 * 1000"
definition B44_MSG_MAX :: nat where "B44_MSG_MAX = 1400"
definition B44_STORE_MIN :: nat where "B44_STORE_MIN = 64"
definition B44_STORE_MAX :: nat where "B44_STORE_MAX = 32768"
definition B44_STORE_DEFAULT :: nat where "B44_STORE_DEFAULT = 256"
definition B44_ITEM_BUDGET :: nat where "B44_ITEM_BUDGET = 1280"

record b44_item =
  it_target :: "byte list"
  it_k :: "byte list"
  it_sig :: "byte list"
  it_salt :: "byte list"
  it_mutable :: bool
  it_seq :: int
  it_expires_ms :: u64
  it_v :: "byte list"

record b44_cnode =
  cn_id :: "byte list"
  cn_sa :: b44_sa
  cn_seen_ms :: u64

record bep44_engine =
  en_myid :: "byte list"
  en_s4 :: bool
  en_s6 :: bool
  en_serving :: bool
  en_secret :: "byte list \<times> byte list"
  en_rotate_ms :: u64
  en_store :: "b44_item option list"
  en_cache :: "b44_cnode option list"
  en_cache_next :: nat
  en_limit :: b44_limit

definition store_cap_for_memory :: "nat \<Rightarrow> nat" where
  "store_cap_for_memory mem =
     (if mem = 0 then B44_STORE_DEFAULT
      else (let records = mem div 200 div B44_ITEM_BUDGET
            in if records < B44_STORE_MIN then B44_STORE_MIN
               else if B44_STORE_MAX < records then B44_STORE_MAX
               else records))"

definition bep44_create :: "byte list \<Rightarrow> bool \<Rightarrow> bool \<Rightarrow> nat \<Rightarrow> bep44_engine" where
  "bep44_create myid s4 s6 mem =
     \<lparr>en_myid = myid, en_s4 = s4, en_s6 = s6, en_serving = False,
      en_secret = (replicate 16 0, replicate 16 0), en_rotate_ms = 0,
      en_store = replicate (store_cap_for_memory mem) None,
      en_cache = replicate B44_CACHE_MAX None, en_cache_next = 0,
      en_limit = limit_init 0 0\<rparr>"

definition msg_send :: "bep44_engine \<Rightarrow> b44_sa \<Rightarrow> byte list \<Rightarrow> sends" where
  "msg_send e sa msg = (if (if sa_family sa = Fam_inet6 then en_s6 e else en_s4 e) then [(sa, msg)] else [])"

section \<open>Names and signatures\<close>

text \<open>A hash over parts, through the incremental interface; the context is a local variable.\<close>

definition sha1_parts :: "byte list list \<Rightarrow> byte list" where
  "sha1_parts ps =
     fst (cc_sha1_final (foldl cc_sha1_update
       (cc_sha1_init \<lparr>sha_h = replicate 5 0, sha_len = 0, sha_buf = replicate 64 0\<rparr>) ps))"

definition sig_buffer_n :: "nat \<Rightarrow> byte list \<Rightarrow> int \<Rightarrow> byte list \<Rightarrow> byte list" where
  "sig_buffer_n dst_len salt seq v =
     (let b = benc_buf_init dst_len;
          b = (if salt \<noteq> [] then benc_str_add (benc_raw_add b (bytes ''4:salt'')) salt else b);
          b = benc_raw_add b (bytes ''3:seq'');
          b = benc_int_add b seq;
          b = benc_raw_add b (bytes ''1:v'');
          b = benc_raw_add b v
      in if bb_err b then [] else bb_buf b)"

definition target_n :: "byte list \<Rightarrow> byte list \<Rightarrow> byte list" where
  "target_n pk salt = sha1_parts (if salt \<noteq> [] then [pk, salt] else [pk])"

definition immutable_target :: "byte list \<Rightarrow> byte list" where
  "immutable_target v = cc_sha1 \<lparr>sha_h = replicate 5 0, sha_len = 0, sha_buf = replicate 64 0\<rparr> v"

definition dist_calc :: "byte list \<Rightarrow> byte list \<Rightarrow> byte list" where
  "dist_calc nid target = map2 (XOR) nid target"

section \<open>Write tokens\<close>

definition token_make :: "byte list \<Rightarrow> b44_sa \<Rightarrow> byte list \<Rightarrow> byte list" where
  "token_make secret sa target =
     (let ab = addr_bytes sa
      in take B44_TOKEN_LEN (sha1_parts (if ab \<noteq> [] then [secret, ab, target] else [secret, target])))"

definition ct_eq :: "byte list \<Rightarrow> byte list \<Rightarrow> bool" where
  "ct_eq a b = (foldl (\<lambda>d (x, y). d OR (x XOR y)) 0 (zip a b) = 0)"

definition token_valid :: "bep44_engine \<Rightarrow> byte list \<Rightarrow> b44_sa \<Rightarrow> byte list \<Rightarrow> bool" where
  "token_valid e tok sa target =
     (length tok = B44_TOKEN_LEN \<and>
      (ct_eq (token_make (fst (en_secret e)) sa target) tok \<or>
       ct_eq (token_make (snd (en_secret e)) sa target) tok))"

text \<open>\<open>fresh\<close> is what \<open>random_bytes\<close> gave, \<open>None\<close> when it failed.\<close>

definition token_rotate :: "bep44_engine \<Rightarrow> u64 \<Rightarrow> byte list option \<Rightarrow> bep44_engine" where
  "token_rotate e now fresh =
     (if now < en_rotate_ms e then e
      else case fresh of
             None \<Rightarrow> e
           | Some f \<Rightarrow> e\<lparr>en_secret := (f, fst (en_secret e)), en_rotate_ms := now + B44_TOKEN_ROTATE_MS\<rparr>)"

section \<open>The item store\<close>

definition store_expire :: "bep44_engine \<Rightarrow> u64 \<Rightarrow> bep44_engine" where
  "store_expire e now =
     e\<lparr>en_store := map (\<lambda>s. case s of Some it \<Rightarrow> if it_expires_ms it \<le> now then None else s | None \<Rightarrow> None)
        (en_store e)\<rparr>"

definition store_slot_of :: "bep44_engine \<Rightarrow> byte list \<Rightarrow> nat option" where
  "store_slot_of e target =
     find_index (\<lambda>s. case s of Some it \<Rightarrow> it_target it = target | None \<Rightarrow> False) (en_store e)"

text \<open>The scan for the item furthest from our own id: its index and distance.\<close>

fun store_victim :: "byte list \<Rightarrow> b44_item option list \<Rightarrow> nat \<Rightarrow> (nat \<times> byte list) option \<Rightarrow>
    (nat \<times> byte list) option" where
  "store_victim myid [] i victim = victim"
| "store_victim myid (s # ss) i victim =
     store_victim myid ss (i + 1)
       (case s of None \<Rightarrow> victim
        | Some it \<Rightarrow>
            (let d = dist_calc (it_target it) myid
             in case victim of None \<Rightarrow> Some (i, d)
                | Some (_, vd) \<Rightarrow> if 0 < memcmp d vd then Some (i, d) else victim))"

definition store_free_slot :: "bep44_engine \<Rightarrow> byte list \<Rightarrow> nat option" where
  "store_free_slot e target =
     (case find_index (\<lambda>s. s = None) (en_store e) of
        Some i \<Rightarrow> Some i
      | None \<Rightarrow>
          (case store_victim (en_myid e) (en_store e) 0 None of
             None \<Rightarrow> None
           | Some (victim, vdist) \<Rightarrow>
               if 0 \<le> memcmp (dist_calc target (en_myid e)) vdist then None else Some victim))"

definition item_new :: "byte list \<Rightarrow> byte list \<Rightarrow> u64 \<Rightarrow> b44_item" where
  "item_new target v now =
     \<lparr>it_target = target, it_k = replicate 32 0, it_sig = replicate 64 0, it_salt = [],
      it_mutable = False, it_seq = 0, it_expires_ms = now + B44_ITEM_TTL_MS, it_v = v\<rparr>"

section \<open>Referrals\<close>

definition cache_add :: "bep44_engine \<Rightarrow> byte list \<Rightarrow> b44_sa \<Rightarrow> u64 \<Rightarrow> bep44_engine" where
  "cache_add e nid sa now =
     (if \<not> en_serving e \<or> \<not> id_nonzero nid \<or> \<not> node_addr_usable sa \<or> addr_martian sa \<or> nid = en_myid e
      then e
      else
        (let entry = Some \<lparr>cn_id = nid, cn_sa = sa, cn_seen_ms = now\<rparr>
         in case find_index (\<lambda>c. case c of Some c \<Rightarrow> addr_same_host sa (cn_sa c) | None \<Rightarrow> False) (en_cache e) of
              Some i \<Rightarrow> e\<lparr>en_cache := (en_cache e)[i := entry]\<rparr>
            | None \<Rightarrow>
                e\<lparr>en_cache := (en_cache e)[en_cache_next e := entry],
                  en_cache_next := (en_cache_next e + 1) mod B44_CACHE_MAX\<rparr>))"

text \<open>The insertion of one entry into the list of the closest, at most \<open>B44_REPLY_NODES\<close> of them.\<close>

definition pick_insert :: "byte list \<times> b44_cnode \<Rightarrow> (byte list \<times> b44_cnode) list \<Rightarrow>
    (byte list \<times> b44_cnode) list" where
  "pick_insert x picks =
     (let j = length (takeWhile (\<lambda>p. \<not> memcmp (fst x) (fst p) < 0) picks)
      in if B44_REPLY_NODES \<le> j then picks
         else take B44_REPLY_NODES (take j picks @ x # drop j picks))"

fun compact_node :: "b44_cnode \<Rightarrow> byte list" where
  "compact_node c =
     cn_id c @ (case cn_sa c of Sa4 a p \<Rightarrow> a @ put16 p | Sa6 a p s \<Rightarrow> a @ put16 p | Sa_other \<Rightarrow> [])"

definition cache_nodes :: "bep44_engine \<Rightarrow> byte list \<Rightarrow> b44_family \<Rightarrow> nat \<Rightarrow> u64 \<Rightarrow> byte list" where
  "cache_nodes e target af out_cap now =
     (let entry = (if af = Fam_inet then 26 else 38);
          live = filter (\<lambda>c. sa_family (cn_sa c) = af \<and> now - cn_seen_ms c \<le> B44_CACHE_TTL_MS)
                   (concat (map (\<lambda>c. case c of Some c \<Rightarrow> [c] | None \<Rightarrow> []) (en_cache e)));
          picks = foldl (\<lambda>ps c. pick_insert (dist_calc (cn_id c) target, c) ps) [] live
      in if out_cap < entry then []
         else concat (map (\<lambda>p. compact_node (snd p)) (take (out_cap div entry) picks)))"

section \<open>Incoming queries\<close>

record b44_query =
  qy_tid :: "byte list"
  qy_from :: b44_sa
  qy_args :: "byte list"
  qy_want4 :: bool
  qy_want6 :: bool

definition query_send :: "bep44_engine \<Rightarrow> b44_query \<Rightarrow> benc_buf \<Rightarrow> sends" where
  "query_send e q b = (if bb_err b \<or> qy_from q = Sa_other then [] else msg_send e (qy_from q) (bb_buf b))"

definition send_error :: "bep44_engine \<Rightarrow> b44_query \<Rightarrow> nat \<Rightarrow> string \<Rightarrow> sends" where
  "send_error e q code msg =
     (let b = benc_buf_init 256;
          b = benc_raw_add b (bytes ''d1:el'');
          b = benc_int_add b (int code);
          b = benc_str_add b (bytes msg);
          b = benc_raw_add b (bytes ''e1:t'');
          b = benc_str_add b (qy_tid q);
          b = benc_raw_add b (bytes ''1:y1:ee'')
      in query_send e q b)"

definition send_ack :: "bep44_engine \<Rightarrow> b44_query \<Rightarrow> sends" where
  "send_ack e q =
     (let b = benc_buf_init 128;
          b = benc_raw_add b (bytes ''d1:rd'');
          b = benc_key_add b (bytes ''id'');
          b = benc_str_add b (en_myid e);
          b = benc_raw_add b (bytes ''e1:t'');
          b = benc_str_add b (qy_tid q);
          b = benc_raw_add b (bytes ''1:y1:re'')
      in query_send e q b)"

datatype 'a arg = Present 'a | Absent | Malformed

definition arg_raw :: "b44_query \<Rightarrow> string \<Rightarrow> byte list option" where
  "arg_raw q key = benc_dict_find (qy_args q) (bytes key)"

definition arg_str :: "b44_query \<Rightarrow> string \<Rightarrow> byte list arg" where
  "arg_str q key =
     (case benc_dict_find (qy_args q) (bytes key) of
        None \<Rightarrow> Absent
      | Some val \<Rightarrow> (case benc_str_get val of None \<Rightarrow> Malformed | Some s \<Rightarrow> Present s))"

definition arg_int :: "b44_query \<Rightarrow> string \<Rightarrow> int arg" where
  "arg_int q key =
     (case benc_dict_find (qy_args q) (bytes key) of
        None \<Rightarrow> Absent
      | Some val \<Rightarrow> (case benc_int_get val of None \<Rightarrow> Malformed | Some i \<Rightarrow> Present i))"

text \<open>The reply to a \<open>get\<close>, from the item found, if any, and whether its value is due.\<close>

definition get_reply :: "bep44_engine \<Rightarrow> b44_query \<Rightarrow> byte list \<Rightarrow> b44_item option \<Rightarrow> bool \<Rightarrow> u64 \<Rightarrow> benc_buf" where
  "get_reply e q target it serve_value now =
     (let token = token_make (fst (en_secret e)) (qy_from q) target;
          mut = (case it of Some i \<Rightarrow> it_mutable i | None \<Rightarrow> False);
          item = the_default (item_new [] [] 0) it;
          nodes = (\<lambda>af key b.
            (let n = cache_nodes e target af (B44_REPLY_NODES * 38) now
             in if n \<noteq> [] then benc_str_add (benc_key_add b (bytes key)) n else b));
          b = benc_buf_init B44_MSG_MAX;
          b = benc_raw_add b (bytes ''d1:rd'');
          b = benc_key_add b (bytes ''id'');
          b = benc_str_add b (en_myid e);
          b = (if mut \<and> serve_value then benc_str_add (benc_key_add b (bytes ''k'')) (it_k item) else b);
          b = (if \<not> (it \<noteq> None \<and> serve_value)
               then (let b = (if qy_want4 q then nodes Fam_inet ''nodes'' b else b)
                     in if qy_want6 q then nodes Fam_inet6 ''nodes6'' b else b)
               else b);
          b = (if mut then benc_int_add (benc_key_add b (bytes ''seq'')) (it_seq item) else b);
          b = (if mut \<and> serve_value then benc_str_add (benc_key_add b (bytes ''sig'')) (it_sig item) else b);
          b = benc_key_add b (bytes ''token'');
          b = benc_str_add b token;
          b = (if it \<noteq> None \<and> serve_value then benc_raw_add (benc_key_add b (bytes ''v'')) (it_v item) else b);
          b = benc_raw_add b (bytes ''e1:t'');
          b = benc_str_add b (qy_tid q)
      in benc_raw_add b (bytes ''1:y1:re''))"

definition handle_get :: "bep44_engine \<Rightarrow> b44_query \<Rightarrow> u64 \<Rightarrow> bep44_engine \<times> sends" where
  "handle_get e q now =
     (case arg_str q ''target'' of
        Present target \<Rightarrow>
          (if length target \<noteq> 20 then (e, send_error e q 203 ''get requires a 20-byte target'')
           else if arg_int q ''seq'' = Malformed then (e, send_error e q 203 ''seq must be an integer'')
           else
             (let e = store_expire e now;
                  it = (case store_slot_of e target of None \<Rightarrow> None | Some i \<Rightarrow> en_store e ! i);
                  serve_value = (case (it, arg_int q ''seq'') of
                      (Some i, Present want_seq) \<Rightarrow> \<not> (it_mutable i \<and> it_seq i \<le> want_seq)
                    | _ \<Rightarrow> True)
              in (e, query_send e q (get_reply e q target it serve_value now))))
      | _ \<Rightarrow> (e, send_error e q 203 ''get requires a 20-byte target''))"

text \<open>What a \<open>put\<close> asks for, once its fields have passed the checks before the store is touched.\<close>

record b44_put =
  pu_mutable :: bool
  pu_target :: "byte list"
  pu_k :: "byte list"
  pu_sig :: "byte list"
  pu_salt :: "byte list"
  pu_seq :: int
  pu_cas :: "int option"
  pu_v :: "byte list"

fun present :: "'a arg \<Rightarrow> 'a option" where
  "present (Present x) = Some x"
| "present _ = None"

definition put_fields :: "(byte list \<Rightarrow> byte list \<Rightarrow> byte list \<Rightarrow> bool) \<Rightarrow> bep44_engine \<Rightarrow> b44_query \<Rightarrow>
    nat \<times> string + b44_put" where
  "put_fields ed_check e q =
     (if \<not> benc_canonical (qy_args q) then Inl (203, ''put arguments are not canonical bencode'')
      else case arg_raw q ''v'' of
        None \<Rightarrow> Inl (203, ''put requires v'')
      | Some v \<Rightarrow>
          (if arg_str q ''k'' = Malformed then Inl (203, ''k must be a string'')
           else if arg_str q ''sig'' = Malformed then Inl (203, ''sig must be a string'')
           else if arg_str q ''salt'' = Malformed then Inl (203, ''salt must be a string'')
           else if arg_int q ''seq'' = Malformed then Inl (203, ''seq must be an integer'')
           else if arg_int q ''cas'' = Malformed then Inl (203, ''cas must be an integer'')
           else
             (let k = present (arg_str q ''k''); sig = present (arg_str q ''sig'');
                  seq = present (arg_int q ''seq''); cas = present (arg_int q ''cas'');
                  salt = the_default [] (present (arg_str q ''salt''));
                  is_mutable = (k \<noteq> None \<or> sig \<noteq> None \<or> seq \<noteq> None \<or> cas \<noteq> None)
              in if is_mutable \<and>
                    (k = None \<or> sig = None \<or> seq = None \<or> length (the k) \<noteq> 32 \<or> length (the sig) \<noteq> 64 \<or>
                     the seq < 0)
                 then Inl (203, ''incomplete or malformed mutable put'')
                 else
                   (let target = (if is_mutable then target_n (the k) salt else immutable_target v)
                    in case arg_str q ''token'' of
                         Present tok \<Rightarrow>
                           (if \<not> token_valid e tok (qy_from q) target then Inl (203, ''bad write token'')
                            else if BEP44_MAX_VALUE < length v then Inl (205, ''message (v field) too big'')
                            else if BEP44_MAX_SALT < length salt then Inl (207, ''salt (salt field) too big'')
                            else
                              (let sigbuf = sig_buffer_n (BEP44_MAX_VALUE + 128) salt (the_default 0 seq) v
                               in if is_mutable \<and> (sigbuf = [] \<or> \<not> ed_check (the sig) (the k) sigbuf)
                                  then Inl (206, ''invalid signature'')
                                  else Inr \<lparr>pu_mutable = is_mutable, pu_target = target,
                                    pu_k = the_default [] k, pu_sig = the_default [] sig, pu_salt = salt,
                                    pu_seq = the_default 0 seq, pu_cas = cas, pu_v = v\<rparr>))
                       | _ \<Rightarrow> Inl (203, ''bad write token'')))))"

definition put_item :: "b44_put \<Rightarrow> u64 \<Rightarrow> b44_item" where
  "put_item p now =
     (let it = item_new (pu_target p) (pu_v p) now
      in if pu_mutable p
         then it\<lparr>it_mutable := True, it_seq := pu_seq p, it_k := pu_k p, it_sig := pu_sig p, it_salt := pu_salt p\<rparr>
         else it)"

definition handle_put :: "(byte list \<Rightarrow> byte list \<Rightarrow> byte list \<Rightarrow> bool) \<Rightarrow> bep44_engine \<Rightarrow> b44_query \<Rightarrow> u64 \<Rightarrow>
    bep44_engine \<times> sends" where
  "handle_put ed_check e q now =
     (case put_fields ed_check e q of
        Inl (code, msg) \<Rightarrow> (e, send_error e q code msg)
      | Inr p \<Rightarrow>
          (let e = store_expire e now
           in case store_slot_of e (pu_target p) of
                Some s \<Rightarrow>
                  (case en_store e ! s of
                     None \<Rightarrow> (e, [])
                   | Some it \<Rightarrow>
                       (let refreshed = e\<lparr>en_store := (en_store e)[s :=
                              Some (it\<lparr>it_expires_ms := now + B44_ITEM_TTL_MS\<rparr>)]\<rparr>
                        in if it_mutable it \<noteq> pu_mutable p
                           then (e, send_error e q 203 ''cannot replace an item with the other kind'')
                           else if \<not> it_mutable it then (refreshed, send_ack e q)
                           else if pu_cas p \<noteq> None \<and> the (pu_cas p) \<noteq> it_seq it
                           then (e, send_error e q 301 ''CAS mismatched, re-read value and try again'')
                           else if pu_seq p = it_seq it \<and> pu_v p = it_v it then (refreshed, send_ack e q)
                           else if pu_seq p \<le> it_seq it
                           then (e, send_error e q 302 ''sequence number less than current'')
                           else (e\<lparr>en_store := (en_store e)[s := Some (put_item p now)]\<rparr>, send_ack e q)))
              | None \<Rightarrow>
                  (case store_free_slot e (pu_target p) of
                     None \<Rightarrow> (e, send_ack e q)
                   | Some s \<Rightarrow> (e\<lparr>en_store := (en_store e)[s := Some (put_item p now)]\<rparr>, send_ack e q))))"

text \<open>\<open>want_parse\<close>: without the argument, the family the query came over.\<close>

definition want_parse :: "b44_query \<Rightarrow> b44_query" where
  "want_parse q =
     (case arg_raw q ''want'' of
        None \<Rightarrow> q\<lparr>qy_want4 := sa_family (qy_from q) = Fam_inet, qy_want6 := sa_family (qy_from q) = Fam_inet6\<rparr>
      | Some want \<Rightarrow>
          q\<lparr>qy_want4 := list_ex (\<lambda>i. take 4 (drop i want) = bytes ''2:n4'') [0..<length want - 3],
            qy_want6 := list_ex (\<lambda>i. take 4 (drop i want) = bytes ''2:n6'') [0..<length want - 3]\<rparr>)"

definition query_handle :: "(byte list \<Rightarrow> byte list \<Rightarrow> byte list \<Rightarrow> bool) \<Rightarrow> bep44_engine \<Rightarrow> byte list \<Rightarrow> b44_sa \<Rightarrow>
    u64 \<Rightarrow> bool \<times> bep44_engine \<times> sends" where
  "query_handle ed_check e buf from now =
     (let meth = Option.bind (benc_dict_find buf (bytes ''q'')) benc_str_get
      in if \<not> en_serving e \<or> meth \<noteq> Some (bytes ''get'') \<and> meth \<noteq> Some (bytes ''put'') then (False, e, [])
         else if addr_martian from then (True, e, [])
         else
           (let (ok, lm) = ban_ok (en_limit e) from now; e = e\<lparr>en_limit := lm\<rparr>
            in if \<not> ok then (True, e, [])
               else case Option.bind (benc_dict_find buf (bytes ''t'')) benc_str_get of
                 None \<Rightarrow> (True, e, [])
               | Some tid \<Rightarrow>
                   (if B44_TID_MAX < length tid then (True, e, [])
                    else
                      (let q = \<lparr>qy_tid = tid, qy_from = from, qy_args = [], qy_want4 = False, qy_want6 = False\<rparr>
                       in case benc_dict_find buf (bytes ''a'') of
                            None \<Rightarrow> (True, e, send_error e q 203 ''missing arguments dict'')
                          | Some val \<Rightarrow>
                              (if length val < 2 \<or> hd val \<noteq> of_char (CHR ''d'')
                               then (True, e, send_error e q 203 ''missing arguments dict'')
                               else
                                 (let q = q\<lparr>qy_args := val\<rparr>
                                  in case arg_str q ''id'' of
                                       Present nid \<Rightarrow>
                                         (if length nid \<noteq> 20 then (True, e, send_error e q 203 ''bad node id'')
                                          else if meth = Some (bytes ''put'') then (True, handle_put ed_check e q now)
                                          else (True, handle_get e (want_parse q) now))
                                     | _ \<Rightarrow> (True, e, send_error e q 203 ''bad node id'')))))))"

text \<open>\<open>fresh0\<close> and \<open>fresh1\<close> are what the two calls of \<open>random_bytes\<close> gave.\<close>

definition bep44_serve :: "bep44_engine \<Rightarrow> bool \<Rightarrow> byte list option \<Rightarrow> byte list option \<Rightarrow> u64 \<Rightarrow>
    bool \<times> bep44_engine" where
  "bep44_serve e enable fresh0 fresh1 now =
     (if \<not> enable then (True, e\<lparr>en_serving := False\<rparr>)
      else if en_serving e then (True, e)
      else case fresh0 of
             None \<Rightarrow> (False, e)
           | Some s0 \<Rightarrow>
               (let e = e\<lparr>en_secret := (s0, snd (en_secret e))\<rparr>
                in case fresh1 of
                     None \<Rightarrow> (False, e)
                   | Some s1 \<Rightarrow>
                       (True, e\<lparr>en_secret := (s0, s1), en_rotate_ms := now + B44_TOKEN_ROTATE_MS,
                          en_limit := (en_limit e)\<lparr>lm_rate := B44_BAN_RATE, lm_ban_ms := B44_BAN_TIME_MS\<rparr>,
                          en_serving := True\<rparr>)))"

text \<open>The storing side's part of \<open>bep44_periodic\<close>.\<close>

definition serve_periodic :: "bep44_engine \<Rightarrow> u64 \<Rightarrow> byte list option \<Rightarrow> bep44_engine" where
  "serve_periodic e now fresh = (if en_serving e then store_expire (token_rotate e now fresh) now else e)"

section \<open>Names are hashes\<close>

lemma sha1_parts_spec: "sha1_parts ps = sha1_spec (concat ps)"
  unfolding sha1_parts_def by (rule pieces_digest) simp

lemma target_n_spec: "target_n pk salt = sha1_spec (pk @ salt)"
  by (simp add: target_n_def sha1_parts_spec)

lemma immutable_target_spec: "immutable_target v = sha1_spec v"
  using pieces_digest [of "\<lparr>sha_h = replicate 5 0, sha_len = 0, sha_buf = replicate 64 0\<rparr>" "[v]"]
  by (simp add: immutable_target_def cc_sha1_def)

lemma token_make_spec: "token_make secret sa target = take 8 (sha1_spec (secret @ addr_bytes sa @ target))"
  by (auto simp: token_make_def sha1_parts_spec B44_TOKEN_LEN_def Let_def)

lemma ct_eq_fold: "foldl (\<lambda>d (x, y). d OR (x XOR y)) d (zip a b) = (0 :: byte) \<longleftrightarrow>
    d = 0 \<and> list_all (\<lambda>(x, y). x = y) (zip a b)"
proof (induction "zip a b" arbitrary: a b d)
  case (Cons z zs)
  then obtain x y a' b' where "a = x # a'" "b = y # b'" "zs = zip a' b'" "z = (x, y)"
    by (cases a; cases b) auto
  moreover have "d OR (x XOR y) = 0 \<longleftrightarrow> d = 0 \<and> x = y" for x y :: byte
    using xor_eq_0 [of x y] by (auto simp: or_eq_0_iff)
  ultimately show ?case using Cons by auto
qed auto

lemma ct_eq_iff: "length a = length b \<Longrightarrow> ct_eq a b \<longleftrightarrow> a = b"
proof -
  assume "length a = length b"
  then have "list_all (\<lambda>(x, y). x = y) (zip a b) \<longleftrightarrow> a = b"
    by (induction a b rule: list_induct2) auto
  then show ?thesis by (simp add: ct_eq_def ct_eq_fold)
qed

lemma token_valid_iff:
  "token_valid e tok sa target \<longleftrightarrow>
   tok = token_make (fst (en_secret e)) sa target \<or> tok = token_make (snd (en_secret e)) sa target"
proof -
  have "length (token_make s sa target) = 8" for s by (simp add: token_make_spec)
  then show ?thesis
    using ct_eq_iff [of "token_make (fst (en_secret e)) sa target" tok]
      ct_eq_iff [of "token_make (snd (en_secret e)) sa target" tok]
    by (auto simp: token_valid_def B44_TOKEN_LEN_def)
qed

section \<open>What the store holds\<close>

definition item_auth :: "(byte list \<Rightarrow> byte list \<Rightarrow> byte list \<Rightarrow> bool) \<Rightarrow> b44_item \<Rightarrow> bool" where
  "item_auth ed_check it =
     (length (it_v it) \<le> BEP44_MAX_VALUE \<and>
      (if it_mutable it
       then length (it_k it) = 32 \<and> length (it_sig it) = 64 \<and> 0 \<le> it_seq it \<and>
         length (it_salt it) \<le> BEP44_MAX_SALT \<and> it_target it = sha1_spec (it_k it @ it_salt it) \<and>
         ed_check (it_sig it) (it_k it)
           (sig_buffer_n (BEP44_MAX_VALUE + 128) (it_salt it) (it_seq it) (it_v it))
       else it_target it = sha1_spec (it_v it)))"

text \<open>No two slots hold items of one name.\<close>

definition one_per_name :: "b44_item option list \<Rightarrow> bool" where
  "one_per_name st = (\<forall>i < length st. \<forall>j < length st. \<forall>a b. st ! i = Some a \<longrightarrow> st ! j = Some b \<longrightarrow>
     it_target a = it_target b \<longrightarrow> i = j)"

definition store_ok :: "(byte list \<Rightarrow> byte list \<Rightarrow> byte list \<Rightarrow> bool) \<Rightarrow> bep44_engine \<Rightarrow> bool" where
  "store_ok ed_check e =
     ((\<forall>it. Some it \<in> set (en_store e) \<longrightarrow> item_auth ed_check it) \<and> one_per_name (en_store e))"

definition lookup_item :: "bep44_engine \<Rightarrow> byte list \<Rightarrow> b44_item option" where
  "lookup_item e target = (case store_slot_of e target of None \<Rightarrow> None | Some i \<Rightarrow> en_store e ! i)"

lemma put_fields_ok:
  assumes "put_fields ed_check e q = Inr p"
  shows "item_auth ed_check (put_item p now) \<and> it_target (put_item p now) = pu_target p \<and>
    (\<exists>tok. arg_str q ''token'' = Present tok \<and> token_valid e tok (qy_from q) (pu_target p)) \<and>
    benc_canonical (qy_args q) \<and> arg_raw q ''v'' = Some (pu_v p)"
  using assms
  by (auto simp: put_fields_def put_item_def item_new_def item_auth_def the_default_def Let_def
      target_n_spec immutable_target_spec not_less split: if_splits option.splits arg.splits)

end
