(* ===== verification/Bep44_Op.thy ===== *)
theory Bep44_Op
  imports Bep44_Store
begin

text \<open>
  The asking side of bep44.c: an operation walks towards a target by \<open>get\<close>, collects values and write
  tokens, and stores with \<open>put\<close>; the engine keeps the nodes it holds on to, a query budget for each of
  them, and the operations under way.

  A pointer to a node or a request is its index. What \<open>sendto\<close> returned (\<open>ok\<close>), the Ed25519
  functions (\<open>sign\<close>, \<open>ed\<close>) and the merge function of an update are arguments or fields. A callback is
  an entry of the list of calls made, with the caller's argument; what a callback asks of the engine
  is a later operation.
\<close>

definition B44_ALPHA_V4 :: nat where "B44_ALPHA_V4 = 16"
definition B44_ALPHA_V6 :: nat where "B44_ALPHA_V6 = 32"
definition B44_K :: nat where "B44_K = 8"
definition B44_NODES_MAX :: nat where "B44_NODES_MAX = 192"
definition B44_BOOTSTRAP_MAX :: nat where "B44_BOOTSTRAP_MAX = 8"
definition B44_REQS_MAX :: nat where "B44_REQS_MAX = B44_ALPHA_V4 + B44_ALPHA_V6"
definition B44_REQ_TIMEOUT_MS :: u64 where "B44_REQ_TIMEOUT_MS = 1000"
definition B44_OP_TIMEOUT_MS :: u64 where "B44_OP_TIMEOUT_MS = 30000"
definition B44_TOKEN_MAX :: nat where "B44_TOKEN_MAX = 40"
definition B44_SEEDS_MAX :: nat where "B44_SEEDS_MAX = 16"
definition B44_PINNED_MAX :: nat where "B44_PINNED_MAX = 8"
definition B44_PIN_STALE_MS :: u64 where "B44_PIN_STALE_MS = 2 * 60 * 1000"
definition B44_RETAINED_MAX :: nat where "B44_RETAINED_MAX = 8"
definition B44_PEER_RATE_MAX :: nat where "B44_PEER_RATE_MAX = 5"
definition B44_NODE_BURST :: u64 where "B44_NODE_BURST = 4"
definition B44_NODE_COST_MS :: u64 where "B44_NODE_COST_MS = of_nat (2 * 1000 div B44_PEER_RATE_MAX)"
definition B44_COMPACT_CACHE_MAX :: nat where "B44_COMPACT_CACHE_MAX = 4"

section \<open>The engine and its operations\<close>

datatype b44_node_state =
  B44_NODE_FRESH | B44_NODE_INFLIGHT | B44_NODE_REPLIED | B44_NODE_FAILED | B44_NODE_STORE_INFLIGHT | B44_NODE_STORED

datatype b44_phase = B44_PHASE_LOOKUP | B44_PHASE_STORE

text \<open>An unknown id is all zeros, no token the empty one.\<close>

record b44_node =
  nd_id :: "byte list"
  nd_dist :: "byte list"
  nd_sa :: b44_sa
  nd_state :: b44_node_state
  nd_token :: "byte list"
  nd_seq :: "int option"

record b44_req =
  rq_node :: nat
  rq_tid :: u16
  rq_sent :: u64

datatype b44_cb = Cb_put nat | Cb_get nat

datatype b44_call =
    Put_done nat nat "b44_sa option"
  | Get_done nat "byte list option" int "b44_sa option"

record b44_op =
  op_is_put :: bool
  op_is_immutable :: bool
  op_is_update :: bool
  op_store_deferred :: bool
  op_direct :: bool
  op_merge :: "byte list option \<Rightarrow> int \<Rightarrow> byte list option"
  op_phase :: b44_phase
  op_target :: "byte list"
  op_pk :: "byte list"
  op_sk :: "byte list"
  op_salt :: "byte list"
  op_value :: "byte list"
  op_seq :: int
  op_cas :: int
  op_best :: "(byte list \<times> int) option"
  op_best_node4 :: "b44_sa option"
  op_best_node6 :: "b44_sa option"
  op_nodes :: "b44_node list"
  op_reqs :: "b44_req option list"
  op_start_ms :: u64
  op_stored :: nat
  op_cb :: b44_cb

record b44_seed =
  sd_id :: "byte list option"
  sd_sa :: b44_sa
  sd_tat_ms :: u64
  sd_last_ok_ms :: u64

text \<open>The engine: the storing side, and the fields only the asking side uses.\<close>

record b44_client =
  cl_engine :: bep44_engine
  cl_tid_seq :: u16
  cl_bootstrap :: "b44_sa list"
  cl_seeds :: "b44_seed option list"
  cl_seed_next :: nat
  cl_pinned :: "b44_seed list"
  cl_retained :: "b44_seed option list"
  cl_retain_next :: nat
  cl_ops :: "b44_op list"

definition client_create :: "byte list \<Rightarrow> bool \<Rightarrow> bool \<Rightarrow> nat \<Rightarrow> b44_client" where
  "client_create myid s4 s6 mem =
     \<lparr>cl_engine = bep44_create myid s4 s6 mem, cl_tid_seq = 0, cl_bootstrap = [],
      cl_seeds = replicate B44_SEEDS_MAX None, cl_seed_next = 0, cl_pinned = [],
      cl_retained = replicate B44_RETAINED_MAX None, cl_retain_next = 0, cl_ops = []\<rparr>"

definition bep44_bootstrap_add :: "b44_client \<Rightarrow> b44_sa \<Rightarrow> b44_client" where
  "bep44_bootstrap_add c sa =
     (if B44_BOOTSTRAP_MAX \<le> length (cl_bootstrap c) then c else c\<lparr>cl_bootstrap := cl_bootstrap c @ [sa]\<rparr>)"

abbreviation in_flight :: "b44_node_state \<Rightarrow> bool" where
  "in_flight s \<equiv> s = B44_NODE_INFLIGHT \<or> s = B44_NODE_STORE_INFLIGHT"

section \<open>The node list\<close>

definition node_new :: "byte list option \<Rightarrow> byte list \<Rightarrow> b44_sa \<Rightarrow> b44_node" where
  "node_new nid d sa =
     \<lparr>nd_id = the_default (replicate 20 0) nid, nd_dist = d, nd_sa = sa, nd_state = B44_NODE_FRESH, nd_token = [],
      nd_seq = None\<rparr>"

definition node_insert :: "b44_op \<Rightarrow> byte list option \<Rightarrow> b44_sa \<Rightarrow> bool \<Rightarrow> b44_op" where
  "node_insert op nid sa pinned =
     (let d = (case nid of Some i \<Rightarrow> dist_calc i (op_target op)
               | None \<Rightarrow> if pinned then replicate 20 0 else replicate 20 0xff);
          nodes = op_nodes op;
          pos = length (takeWhile (\<lambda>n. \<not> memcmp d (nd_dist n) < 0) nodes)
      in if list_ex (\<lambda>n. addr_eq sa (nd_sa n) \<or> nid = Some (nd_id n)) nodes then op
         else if B44_NODES_MAX \<le> pos then op
         else if B44_NODES_MAX \<le> length nodes \<and> in_flight (nd_state (nodes ! (B44_NODES_MAX - 1))) then op
         else
           (let nodes = take (B44_NODES_MAX - 1) nodes
            in op\<lparr>op_nodes := take pos nodes @ node_new nid d sa # drop pos nodes,
                  op_reqs := map (map_option (\<lambda>r. if pos \<le> rq_node r then r\<lparr>rq_node := rq_node r + 1\<rparr> else r))
                    (op_reqs op)\<rparr>))"

text \<open>The entries of a compact node list: 20 bytes of id, the address, the port.\<close>

function nodes_compact_add :: "b44_client \<Rightarrow> b44_op \<Rightarrow> byte list \<Rightarrow> b44_family \<Rightarrow> nat \<Rightarrow> u64 \<Rightarrow> b44_client \<times> b44_op" where
  "nodes_compact_add c op data af cached now =
     (let entry = (if af = Fam_inet then 26 else 38)
      in if length data < entry then (c, op)
         else
           (let p = take entry data; nid = take 20 p;
                sa = (if af = Fam_inet then Sa4 (take 4 (drop 20 p)) (get16 (drop 24 p))
                      else Sa6 (take 16 (drop 20 p)) (get16 (drop 36 p)) 0);
                op = node_insert op (Some nid) sa False;
                c = (if cached < B44_COMPACT_CACHE_MAX
                     then c\<lparr>cl_engine := cache_add (cl_engine c) nid sa now\<rparr> else c)
            in nodes_compact_add c op (drop entry data) af (cached + 1) now))"
  by pat_completeness auto
termination
  by (relation "measure (\<lambda>(c, op, data, af, cached, now). length data)") (auto split: if_splits)

declare nodes_compact_add.simps [simp del]

section \<open>Requests\<close>

definition req_alloc :: "b44_client \<Rightarrow> b44_op \<Rightarrow> nat \<Rightarrow> u64 \<Rightarrow> (nat \<times> u16 \<times> b44_client \<times> b44_op) option" where
  "req_alloc c op node now =
     (case find_index (\<lambda>r. r = None) (op_reqs op) of
        None \<Rightarrow> None
      | Some i \<Rightarrow>
          Some (i, cl_tid_seq c, c\<lparr>cl_tid_seq := cl_tid_seq c + 1\<rparr>,
                op\<lparr>op_reqs := (op_reqs op)[i := Some \<lparr>rq_node = node, rq_tid = cl_tid_seq c, rq_sent = now\<rparr>]\<rparr>))"

definition tid_bytes :: "u16 \<Rightarrow> byte list" where
  "tid_bytes seq = [of_char (CHR ''p''), of_char (CHR ''m''), ucast seq, ucast (drop_bit 8 seq)]"

definition op_state :: "b44_op \<Rightarrow> nat \<Rightarrow> b44_node_state \<Rightarrow> b44_op" where
  "op_state op i s = op\<lparr>op_nodes := (op_nodes op)[i := (op_nodes op ! i)\<lparr>nd_state := s\<rparr>]\<rparr>"

definition req_free :: "b44_op \<Rightarrow> nat \<Rightarrow> b44_op" where
  "req_free op i = op\<lparr>op_reqs := (op_reqs op)[i := None]\<rparr>"

text \<open>How \<open>get_send\<close> and \<open>put_send\<close> end: the message written goes out for request \<open>i\<close>.\<close>

definition req_send :: "(b44_sa \<Rightarrow> byte list \<Rightarrow> bool) \<Rightarrow> b44_client \<Rightarrow> b44_op \<Rightarrow> nat \<Rightarrow> nat \<Rightarrow> b44_node_state \<Rightarrow> benc_buf \<Rightarrow>
    bool \<times> b44_client \<times> b44_op \<times> sends" where
  "req_send ok c op i node st b =
     (if bb_err b then (False, c, req_free op i, [])
      else
        (let op = op_state op node st; sa = nd_sa (op_nodes op ! node);
             out = msg_send (cl_engine c) sa (bb_buf b)
         in if out = [] \<or> \<not> ok sa (bb_buf b) then (True, c, req_free (op_state op node B44_NODE_FAILED) i, out)
            else (True, c, op, out)))"

definition get_msg :: "byte list \<Rightarrow> byte list \<Rightarrow> u16 \<Rightarrow> benc_buf" where
  "get_msg myid target tid =
     (let b = benc_buf_init B44_MSG_MAX;
          b = benc_raw_add b (bytes ''d1:ad'');
          b = benc_key_add b (bytes ''id'');
          b = benc_str_add b myid;
          b = benc_key_add b (bytes ''target'');
          b = benc_str_add b target;
          b = benc_key_add b (bytes ''want'');
          b = benc_raw_add b (bytes ''l2:n42:n6e'');
          b = benc_raw_add b (bytes ''e1:q3:get1:t'');
          b = benc_str_add b (tid_bytes tid)
      in benc_raw_add b (bytes ''1:y1:qe''))"

text \<open>The first component is false where the code returns -1.\<close>

definition get_send :: "(b44_sa \<Rightarrow> byte list \<Rightarrow> bool) \<Rightarrow> b44_client \<Rightarrow> b44_op \<Rightarrow> nat \<Rightarrow> u64 \<Rightarrow>
    bool \<times> b44_client \<times> b44_op \<times> sends" where
  "get_send ok c op node now =
     (case req_alloc c op node now of
        None \<Rightarrow> (False, c, op, [])
      | Some (i, tid, c, op) \<Rightarrow>
          req_send ok c op i node
            (if op_phase op = B44_PHASE_STORE then B44_NODE_STORE_INFLIGHT else B44_NODE_INFLIGHT)
            (get_msg (en_myid (cl_engine c)) (op_target op) tid))"

definition node_cas :: "b44_node \<Rightarrow> int \<Rightarrow> int" where
  "node_cas n cas = (case nd_seq n of Some s \<Rightarrow> s | None \<Rightarrow> cas)"

definition put_msg_immutable :: "byte list \<Rightarrow> byte list \<Rightarrow> byte list \<Rightarrow> u16 \<Rightarrow> benc_buf" where
  "put_msg_immutable myid token v tid =
     (let b = benc_buf_init B44_MSG_MAX;
          b = benc_raw_add b (bytes ''d1:ad'');
          b = benc_key_add b (bytes ''id'');
          b = benc_str_add b myid;
          b = benc_key_add b (bytes ''token'');
          b = benc_str_add b token;
          b = benc_key_add b (bytes ''v'');
          b = benc_raw_add b v;
          b = benc_raw_add b (bytes ''e1:q3:put1:t'');
          b = benc_str_add b (tid_bytes tid)
      in benc_raw_add b (bytes ''1:y1:qe''))"

definition put_msg :: "byte list \<Rightarrow> int \<Rightarrow> byte list \<Rightarrow> byte list \<Rightarrow> int \<Rightarrow> byte list \<Rightarrow> byte list \<Rightarrow> byte list \<Rightarrow> u16 \<Rightarrow> benc_buf" where
  "put_msg myid cas pk salt seq sig token v tid =
     (let b = benc_buf_init B44_MSG_MAX;
          b = benc_raw_add b (bytes ''d1:ad'');
          b = (if 0 \<le> cas then benc_int_add (benc_key_add b (bytes ''cas'')) cas else b);
          b = benc_key_add b (bytes ''id'');
          b = benc_str_add b myid;
          b = benc_key_add b (bytes ''k'');
          b = benc_str_add b pk;
          b = (if salt \<noteq> [] then benc_str_add (benc_key_add b (bytes ''salt'')) salt else b);
          b = benc_key_add b (bytes ''seq'');
          b = benc_int_add b seq;
          b = benc_key_add b (bytes ''sig'');
          b = benc_str_add b sig;
          b = benc_key_add b (bytes ''token'');
          b = benc_str_add b token;
          b = benc_key_add b (bytes ''v'');
          b = benc_raw_add b v;
          b = benc_raw_add b (bytes ''e1:q3:put1:t'');
          b = benc_str_add b (tid_bytes tid)
      in benc_raw_add b (bytes ''1:y1:qe''))"

definition put_send :: "(byte list \<Rightarrow> byte list \<Rightarrow> byte list option) \<Rightarrow> (b44_sa \<Rightarrow> byte list \<Rightarrow> bool) \<Rightarrow>
    b44_client \<Rightarrow> b44_op \<Rightarrow> nat \<Rightarrow> u64 \<Rightarrow> bool \<times> b44_client \<times> b44_op \<times> sends" where
  "put_send sign ok c op node now =
     (case req_alloc c op node now of
        None \<Rightarrow> (False, c, op, [])
      | Some (i, tid, c, op) \<Rightarrow>
          (let n = op_nodes op ! node; myid = en_myid (cl_engine c)
           in if op_is_immutable op
              then req_send ok c op i node B44_NODE_STORE_INFLIGHT
                     (put_msg_immutable myid (nd_token n) (op_value op) tid)
              else
                (let sigbuf = sig_buffer_n (BEP44_MAX_VALUE + 128) (op_salt op) (op_seq op) (op_value op)
                 in if sigbuf = [] then (False, c, req_free op i, [])
                    else case sign (op_sk op) sigbuf of
                           None \<Rightarrow> (False, c, req_free op i, [])
                         | Some sig \<Rightarrow>
                             req_send ok c op i node B44_NODE_STORE_INFLIGHT
                               (put_msg myid (node_cas n (op_cas op)) (op_pk op) (op_salt op) (op_seq op) sig
                                 (nd_token n) (op_value op) tid))))"

section \<open>Nodes held between operations, and their query budget\<close>

definition seed_new :: "byte list option \<Rightarrow> b44_sa \<Rightarrow> u64 \<Rightarrow> b44_seed" where
  "seed_new nid sa last_ok = \<lparr>sd_id = nid, sd_sa = sa, sd_tat_ms = 0, sd_last_ok_ms = last_ok\<rparr>"

definition holds_addr :: "b44_sa \<Rightarrow> b44_seed option \<Rightarrow> bool" where
  "holds_addr sa s = (case s of None \<Rightarrow> False | Some r \<Rightarrow> addr_eq sa (sd_sa r))"

definition retain_add :: "b44_client \<Rightarrow> byte list option \<Rightarrow> b44_sa \<Rightarrow> b44_client" where
  "retain_add c nid sa =
     (if list_ex (holds_addr sa) (cl_retained c) then c
      else c\<lparr>cl_retained := (cl_retained c)[cl_retain_next c := Some (seed_new nid sa 0)],
             cl_retain_next := (cl_retain_next c + 1) mod B44_RETAINED_MAX\<rparr>)"

text \<open>Where the bucket of a node is, if it is held: in the pins or among the retained.\<close>

datatype b44_bucket = In_pinned nat | In_retained nat

definition seed_bucket :: "b44_client \<Rightarrow> b44_sa \<Rightarrow> b44_bucket option" where
  "seed_bucket c sa =
     (case find_index (\<lambda>p. addr_eq sa (sd_sa p)) (cl_pinned c) of
        Some i \<Rightarrow> Some (In_pinned i)
      | None \<Rightarrow> map_option In_retained (find_index (holds_addr sa) (cl_retained c)))"

fun bucket_tat :: "b44_client \<Rightarrow> b44_bucket \<Rightarrow> u64" where
  "bucket_tat c (In_pinned i) = sd_tat_ms (cl_pinned c ! i)"
| "bucket_tat c (In_retained i) = (case cl_retained c ! i of Some r \<Rightarrow> sd_tat_ms r | None \<Rightarrow> 0)"

fun bucket_set :: "b44_client \<Rightarrow> b44_bucket \<Rightarrow> u64 \<Rightarrow> b44_client" where
  "bucket_set c (In_pinned i) t = c\<lparr>cl_pinned := (cl_pinned c)[i := (cl_pinned c ! i)\<lparr>sd_tat_ms := t\<rparr>]\<rparr>"
| "bucket_set c (In_retained i) t =
     c\<lparr>cl_retained := (cl_retained c)[i := map_option (\<lambda>r. r\<lparr>sd_tat_ms := t\<rparr>) (cl_retained c ! i)]\<rparr>"

text \<open>The leaky bucket itself: whether a query may go out now, and the new time.\<close>

definition budget_take :: "u64 \<Rightarrow> u64 \<Rightarrow> bool \<times> u64" where
  "budget_take tat now =
     (let tat = (if tat < now then now else tat)
      in if B44_NODE_BURST * B44_NODE_COST_MS < tat - now then (False, tat) else (True, tat + B44_NODE_COST_MS))"

definition node_budget_ok :: "b44_client \<Rightarrow> b44_sa \<Rightarrow> u64 \<Rightarrow> bool \<times> b44_client" where
  "node_budget_ok c sa now =
     (case seed_bucket c sa of
        None \<Rightarrow> (True, c)
      | Some b \<Rightarrow> (let (yes, tat) = budget_take (bucket_tat c b) now in (yes, bucket_set c b tat)))"

fun retain_loop :: "b44_client \<Rightarrow> b44_node list \<Rightarrow> nat \<Rightarrow> nat \<Rightarrow> b44_client" where
  "retain_loop c [] kept4 kept6 = c"
| "retain_loop c (n # ns) kept4 kept6 =
     (if \<not> (kept4 < 4 \<or> kept6 < 4) then c
      else if nd_state n \<noteq> B44_NODE_REPLIED \<and> nd_state n \<noteq> B44_NODE_STORED then retain_loop c ns kept4 kept6
      else
        (let v6 = (sa_family (nd_sa n) = Fam_inet6)
         in if 4 \<le> (if v6 then kept6 else kept4) then retain_loop c ns kept4 kept6
            else retain_loop (retain_add c (if id_nonzero (nd_id n) then Some (nd_id n) else None) (nd_sa n)) ns
                   (if v6 then kept4 else kept4 + 1) (if v6 then kept6 + 1 else kept6)))"

definition op_retain_nodes :: "b44_client \<Rightarrow> b44_op \<Rightarrow> b44_client" where
  "op_retain_nodes c op = retain_loop c (op_nodes op) 0 0"

section \<open>Finishing\<close>

text \<open>The node a put reports, where the lookup has noted none.\<close>

definition finish_node :: "b44_op \<Rightarrow> b44_op" where
  "finish_node op =
     (if op_is_put op \<and> op_best_node4 op = None \<and> op_best_node6 op = None
      then (case find (\<lambda>n. nd_state n = B44_NODE_STORED \<and> node_addr_usable (nd_sa n)) (op_nodes op) of
              None \<Rightarrow> op
            | Some n \<Rightarrow>
                if sa_family (nd_sa n) = Fam_inet6 then op\<lparr>op_best_node6 := Some (nd_sa n)\<rparr>
                else op\<lparr>op_best_node4 := Some (nd_sa n)\<rparr>)
      else op)"

definition op_calls :: "b44_op \<Rightarrow> b44_call list" where
  "op_calls op =
     (let v = map_option fst (op_best op); seq = (case op_best op of Some (_, s) \<Rightarrow> s | None \<Rightarrow> 0)
      in case op_cb op of
           Cb_put arg \<Rightarrow>
             [Put_done arg (op_stored op) (case op_best_node4 op of Some n \<Rightarrow> Some n | None \<Rightarrow> op_best_node6 op)]
         | Cb_get arg \<Rightarrow>
             (case (op_best_node4 op, op_best_node6 op) of
                (None, None) \<Rightarrow> [Get_done arg v seq None]
              | (n4, n6) \<Rightarrow>
                  (if n4 = None then [] else [Get_done arg v seq n4]) @
                  (if n6 = None then [] else [Get_done arg v seq n6])))"

text \<open>A step of an operation: the engine, the operation unless it has ended, the datagrams and calls.\<close>

type_synonym op_result = "b44_client \<times> b44_op option \<times> sends \<times> b44_call list"

definition op_finish :: "b44_client \<Rightarrow> b44_op \<Rightarrow> op_result" where
  "op_finish c op = (let op = finish_node op in (op_retain_nodes c op, None, [], op_calls op))"

section \<open>Storing\<close>

text \<open>The loop of \<open>store_start\<close> over the nodes left, with the puts sent per family.\<close>

fun store_loop :: "(byte list \<Rightarrow> byte list \<Rightarrow> byte list option) \<Rightarrow> (b44_sa \<Rightarrow> byte list \<Rightarrow> bool) \<Rightarrow> u64 \<Rightarrow> nat list \<Rightarrow>
    nat \<Rightarrow> nat \<Rightarrow> b44_client \<times> b44_op \<times> sends \<Rightarrow> nat \<times> b44_client \<times> b44_op \<times> sends" where
  "store_loop sign ok now [] s4 s6 (c, op, out) = (s4 + s6, c, op, out)"
| "store_loop sign ok now (i # is) s4 s6 (c, op, out) =
     (let n = op_nodes op ! i; v6 = (sa_family (nd_sa n) = Fam_inet6)
      in if nd_state n \<noteq> B44_NODE_REPLIED \<or> nd_token n = [] \<or> B44_K \<le> (if v6 then s6 else s4)
         then store_loop sign ok now is s4 s6 (c, op, out)
         else
           (let (yes, c) = node_budget_ok c (nd_sa n) now
            in if \<not> yes then store_loop sign ok now is s4 s6 (c, op\<lparr>op_store_deferred := True\<rparr>, out)
               else
                 (let (sent, c, op, o2) = put_send sign ok c op i now
                  in if \<not> sent then (s4 + s6, c, op, out @ o2)
                     else store_loop sign ok now is (if v6 then s4 else s4 + 1) (if v6 then s6 + 1 else s6)
                            (c, op, out @ o2))))"

definition store_start :: "(byte list \<Rightarrow> byte list \<Rightarrow> byte list option) \<Rightarrow> (b44_sa \<Rightarrow> byte list \<Rightarrow> bool) \<Rightarrow>
    b44_client \<Rightarrow> b44_op \<Rightarrow> u64 \<Rightarrow> nat \<times> b44_client \<times> b44_op \<times> sends" where
  "store_start sign ok c op now =
     store_loop sign ok now [0..<length (op_nodes op)] 0 0
       (c, op\<lparr>op_phase := B44_PHASE_STORE, op_store_deferred := False\<rparr>, [])"

text \<open>\<open>store_start\<close> and the test every caller makes of it.\<close>

definition store_or_finish :: "(byte list \<Rightarrow> byte list \<Rightarrow> byte list option) \<Rightarrow> (b44_sa \<Rightarrow> byte list \<Rightarrow> bool) \<Rightarrow>
    b44_client \<Rightarrow> b44_op \<Rightarrow> u64 \<Rightarrow> op_result" where
  "store_or_finish sign ok c op now =
     (let (sent, c, op, out) = store_start sign ok c op now
      in if sent = 0 \<and> \<not> op_store_deferred op
         then (let (c, op', o2, calls) = op_finish c op in (c, op', out @ o2, calls))
         else (c, Some op, out, []))"

definition next_seq :: "int option \<Rightarrow> int" where
  "next_seq best = (case best of None \<Rightarrow> 1 | Some b \<Rightarrow> if int INT64_MAX \<le> b then -1 else b + 1)"

definition store_seq :: "(byte list \<times> int) option \<Rightarrow> byte list \<Rightarrow> int" where
  "store_seq best nv =
     (let nxt = next_seq (map_option snd best)
      in if nxt < 0 then -1
         else case best of None \<Rightarrow> nxt | Some (cur, b) \<Rightarrow> if nv = cur then b else nxt)"

definition update_store :: "(byte list \<Rightarrow> byte list \<Rightarrow> byte list option) \<Rightarrow> (b44_sa \<Rightarrow> byte list \<Rightarrow> bool) \<Rightarrow>
    b44_client \<Rightarrow> b44_op \<Rightarrow> u64 \<Rightarrow> op_result" where
  "update_store sign ok c op now =
     (let held = (case op_best op of Some (_, s) \<Rightarrow> s | None \<Rightarrow> -1)
      in case op_merge op (map_option fst (op_best op)) held of
        None \<Rightarrow> op_finish c op
      | Some nv \<Rightarrow>
          if nv = [] \<or> BEP44_MAX_VALUE < length nv then op_finish c op
          else
            (let nxt = store_seq (op_best op) nv
             in if nxt < 0 then op_finish c op
                else store_or_finish sign ok c
                       (op\<lparr>op_value := nv, op_seq := nxt, op_cas := held, op_is_put := True\<rparr>) now))"

section \<open>One step\<close>

text \<open>The requests that have waited too long; the node of each has failed.\<close>

definition req_expire :: "u64 \<Rightarrow> b44_op \<Rightarrow> nat \<Rightarrow> b44_op" where
  "req_expire now op i =
     (case op_reqs op ! i of
        None \<Rightarrow> op
      | Some r \<Rightarrow>
          if B44_REQ_TIMEOUT_MS < now - rq_sent r then req_free (op_state op (rq_node r) B44_NODE_FAILED) i else op)"

text \<open>How many requests are under way to nodes with the property.\<close>

definition req_count :: "b44_op \<Rightarrow> (b44_node \<Rightarrow> bool) \<Rightarrow> nat" where
  "req_count op P =
     length (filter (\<lambda>r. case r of None \<Rightarrow> False | Some r \<Rightarrow> P (op_nodes op ! rq_node r)) (op_reqs op))"

text \<open>The loop over the nodes in the lookup phase: requests under way per family, nodes held off by
  the budget, nodes that have answered.\<close>

fun lookup_loop :: "(b44_sa \<Rightarrow> byte list \<Rightarrow> bool) \<Rightarrow> u64 \<Rightarrow> nat list \<Rightarrow> nat \<Rightarrow> nat \<Rightarrow> nat \<Rightarrow> nat \<Rightarrow>
    b44_client \<times> b44_op \<times> sends \<Rightarrow> (nat \<times> nat \<times> nat) \<times> b44_client \<times> b44_op \<times> sends" where
  "lookup_loop ok now [] if4 if6 deferred answered (c, op, out) = ((if4 + if6, deferred, answered), c, op, out)"
| "lookup_loop ok now (i # is) if4 if6 deferred answered (c, op, out) =
     (let n = op_nodes op ! i; v6 = (sa_family (nd_sa n) = Fam_inet6);
          answered = (if nd_state n = B44_NODE_REPLIED \<or> nd_state n = B44_NODE_STORED then answered + 1 else answered)
      in if nd_state n \<noteq> B44_NODE_FRESH \<or> (if v6 then B44_ALPHA_V6 \<le> if6 else B44_ALPHA_V4 \<le> if4)
         then lookup_loop ok now is if4 if6 deferred answered (c, op, out)
         else
           (let (yes, c) = node_budget_ok c (nd_sa n) now
            in if \<not> yes then lookup_loop ok now is if4 if6 (deferred + 1) answered (c, op, out)
               else
                 (let (sent, c, op, o2) = get_send ok c op i now
                  in if \<not> sent then ((if4 + if6, deferred, answered), c, op, out @ o2)
                     else lookup_loop ok now is (if v6 then if4 else if4 + 1) (if v6 then if6 + 1 else if6)
                            deferred answered (c, op, out @ o2))))"

definition op_step :: "(byte list \<Rightarrow> byte list \<Rightarrow> byte list option) \<Rightarrow> (b44_sa \<Rightarrow> byte list \<Rightarrow> bool) \<Rightarrow>
    b44_client \<Rightarrow> b44_op \<Rightarrow> u64 \<Rightarrow> op_result" where
  "op_step sign ok c op now =
     (if B44_OP_TIMEOUT_MS < now - op_start_ms op then op_finish c op
      else
        (let op = foldl (req_expire now) op [0..<length (op_reqs op)];
             if6 = req_count op (\<lambda>n. sa_family (nd_sa n) = Fam_inet6);
             if4 = req_count op (\<lambda>n. sa_family (nd_sa n) \<noteq> Fam_inet6)
         in if op_phase op = B44_PHASE_LOOKUP
            then
              (let ((inflight, deferred, answered), c, op, out) =
                     lookup_loop ok now [0..<length (op_nodes op)] if4 if6 0 0 (c, op, [])
               in if 0 < inflight \<or> 0 < deferred \<and> answered = 0 then (c, Some op, out, [])
                  else
                    (let (c, op', o2, calls) =
                           (if op_is_update op then update_store sign ok c op now
                            else if \<not> op_is_put op then op_finish c op
                            else store_or_finish sign ok c op now)
                     in (c, op', out @ o2, calls)))
            else if 0 < if4 + if6 then (c, Some op, [], [])
            else if op_store_deferred op then store_or_finish sign ok c op now
            else op_finish c op))"

section \<open>Replies\<close>

definition record_best_node :: "b44_op \<Rightarrow> b44_sa \<Rightarrow> b44_op" where
  "record_best_node op sa =
     (if \<not> node_addr_usable sa then op
      else if sa_family sa = Fam_inet6
      then (if op_best_node6 op = None then op\<lparr>op_best_node6 := Some sa\<rparr> else op)
      else (if op_best_node4 op = None then op\<lparr>op_best_node4 := Some sa\<rparr> else op))"

definition best_set :: "b44_op \<Rightarrow> byte list \<Rightarrow> int \<Rightarrow> b44_sa \<Rightarrow> b44_op" where
  "best_set op v seq from =
     record_best_node (op\<lparr>op_best := Some (v, seq), op_best_node4 := None, op_best_node6 := None\<rparr>) from"

definition dict_str :: "byte list \<Rightarrow> string \<Rightarrow> byte list option" where
  "dict_str dict key = Option.bind (benc_dict_find dict (bytes key)) benc_str_get"

text \<open>A mutable value that has passed every check of \<open>value_check\<close>.\<close>

definition value_note :: "b44_op \<Rightarrow> nat \<Rightarrow> byte list \<Rightarrow> int \<Rightarrow> b44_sa \<Rightarrow> b44_op" where
  "value_note op node v seq from =
     (let op = op\<lparr>op_nodes := (op_nodes op)[node := (op_nodes op ! node)\<lparr>nd_seq := Some seq\<rparr>]\<rparr>
      in case op_best op of
           Some (_, best) \<Rightarrow> if seq \<le> best then record_best_node op from else best_set op v seq from
         | None \<Rightarrow> best_set op v seq from)"

definition value_check :: "(byte list \<Rightarrow> byte list \<Rightarrow> byte list \<Rightarrow> bool) \<Rightarrow> b44_op \<Rightarrow> nat \<Rightarrow> b44_sa \<Rightarrow> byte list \<Rightarrow> b44_op" where
  "value_check ed op node from rdict =
     (case benc_dict_find rdict (bytes ''v'') of
        None \<Rightarrow> op
      | Some v \<Rightarrow>
          if BEP44_MAX_VALUE < length v then op
          else if op_is_immutable op
          then (if immutable_target v \<noteq> op_target op then op
                else if op_best op \<noteq> None then record_best_node op from
                else best_set op v (-1) from)
          else
            (case (dict_str rdict ''k'', dict_str rdict ''sig'',
                   Option.bind (benc_dict_find rdict (bytes ''seq'')) benc_int_get) of
               (Some k, Some sig, Some seq) \<Rightarrow>
                 (if length k \<noteq> 32 \<or> k \<noteq> op_pk op \<or> length sig \<noteq> 64 \<or> seq < 0 then op
                  else
                    (let sigbuf = sig_buffer_n (BEP44_MAX_VALUE + 128) (op_salt op) seq v
                     in if sigbuf = [] \<or> \<not> ed sig (op_pk op) sigbuf then op
                        else value_note op node v seq from))
             | _ \<Rightarrow> op))"

definition pin_learn_id :: "b44_client \<Rightarrow> b44_sa \<Rightarrow> byte list \<Rightarrow> u64 \<Rightarrow> b44_client" where
  "pin_learn_id c from rdict now =
     (case dict_str rdict ''id'' of
        None \<Rightarrow> c
      | Some nid \<Rightarrow>
          if length nid \<noteq> 20 then c
          else c\<lparr>cl_pinned := map (\<lambda>p.
                 if addr_eq from (sd_sa p)
                 then p\<lparr>sd_last_ok_ms := now, sd_id := (if sd_id p = None then Some nid else sd_id p)\<rparr>
                 else p) (cl_pinned c)\<rparr>)"

text \<open>The token a reply carries goes to the node that sent it.\<close>

definition token_note :: "b44_op \<Rightarrow> nat \<Rightarrow> byte list \<Rightarrow> b44_op" where
  "token_note op node rdict =
     (case dict_str rdict ''token'' of
        None \<Rightarrow> op
      | Some tok \<Rightarrow>
          if B44_TOKEN_MAX < length tok then op
          else op\<lparr>op_nodes := (op_nodes op)[node := (op_nodes op ! node)\<lparr>nd_token := tok\<rparr>]\<rparr>)"

text \<open>The closer nodes a reply names.\<close>

definition merge_nodes :: "b44_client \<Rightarrow> b44_op \<Rightarrow> byte list \<Rightarrow> string \<Rightarrow> b44_family \<Rightarrow> u64 \<Rightarrow> b44_client \<times> b44_op" where
  "merge_nodes c op rdict key af now =
     (if op_direct op then (c, op)
      else case dict_str rdict key of
             None \<Rightarrow> (c, op)
           | Some data \<Rightarrow> nodes_compact_add c op data af 0 now)"

text \<open>Request \<open>i\<close> of the operation has been answered.\<close>

definition reply_handle :: "(byte list \<Rightarrow> byte list \<Rightarrow> byte list \<Rightarrow> bool) \<Rightarrow> (byte list \<Rightarrow> byte list \<Rightarrow> byte list option) \<Rightarrow>
    (b44_sa \<Rightarrow> byte list \<Rightarrow> bool) \<Rightarrow> b44_client \<Rightarrow> b44_op \<Rightarrow> nat \<Rightarrow> byte list \<Rightarrow> bool \<Rightarrow> b44_sa \<Rightarrow> u64 \<Rightarrow> op_result" where
  "reply_handle ed sign ok c op i buf is_error from now =
     (let node = rq_node (the (op_reqs op ! i)); op = req_free op i
      in if nd_state (op_nodes op ! node) = B44_NODE_STORE_INFLIGHT
         then (if is_error then op_step sign ok c (op_state op node B44_NODE_FAILED) now
               else op_step sign ok c ((op_state op node B44_NODE_STORED)\<lparr>op_stored := op_stored op + 1\<rparr>) now)
         else if is_error then op_step sign ok c (op_state op node B44_NODE_FAILED) now
         else
           (let op = op_state op node B44_NODE_REPLIED
            in case benc_dict_find buf (bytes ''r'') of
                 None \<Rightarrow> op_step sign ok c op now
               | Some rdict \<Rightarrow>
                   (let c = pin_learn_id c from rdict now;
                        op = token_note op node rdict;
                        op = (if op_is_put op then op else value_check ed op node from rdict);
                        (c, op) = merge_nodes c op rdict ''nodes'' Fam_inet now;
                        (c, op) = merge_nodes c op rdict ''nodes6'' Fam_inet6 now
                    in op_step sign ok c op now)))"

section \<open>The engine's entry points\<close>

text \<open>The request a reply answers: the first operation and its first request with the number, asked
  of the node the reply comes from.\<close>

definition req_match :: "u16 \<Rightarrow> b44_sa \<Rightarrow> b44_op \<Rightarrow> nat option" where
  "req_match tid from op =
     find_index (\<lambda>r. case r of None \<Rightarrow> False
       | Some r \<Rightarrow> rq_tid r = tid \<and> addr_eq from (nd_sa (op_nodes op ! rq_node r))) (op_reqs op)"

text \<open>Operation \<open>k\<close> has been stepped.\<close>

definition op_put_back :: "nat \<Rightarrow> op_result \<Rightarrow> b44_client \<times> sends \<times> b44_call list" where
  "op_put_back k r =
     (let (c, op', out, calls) = r
      in (c\<lparr>cl_ops := (case op' of Some op \<Rightarrow> (cl_ops c)[k := op]
                       | None \<Rightarrow> take k (cl_ops c) @ drop (k + 1) (cl_ops c))\<rparr>, out, calls))"

definition bep44_input :: "(byte list \<Rightarrow> byte list \<Rightarrow> byte list \<Rightarrow> bool) \<Rightarrow> (byte list \<Rightarrow> byte list \<Rightarrow> byte list option) \<Rightarrow>
    (b44_sa \<Rightarrow> byte list \<Rightarrow> bool) \<Rightarrow> b44_client \<Rightarrow> byte list \<Rightarrow> b44_sa \<Rightarrow> u64 \<Rightarrow>
    bool \<times> b44_client \<times> sends \<times> b44_call list" where
  "bep44_input ed sign ok c buf from now =
     (case dict_str buf ''y'' of
        None \<Rightarrow> (False, c, [], [])
      | Some y \<Rightarrow>
          if y = bytes ''q''
          then (let (mine, e, out) = query_handle ed (cl_engine c) buf from now
                in (mine, c\<lparr>cl_engine := e\<rparr>, out, []))
          else if y \<noteq> bytes ''e'' \<and> y \<noteq> bytes ''r'' then (False, c, [], [])
          else
            (case dict_str buf ''t'' of
               None \<Rightarrow> (False, c, [], [])
             | Some t \<Rightarrow>
                 if length t \<noteq> 4 \<or> t ! 0 \<noteq> of_char (CHR ''p'') \<or> t ! 1 \<noteq> of_char (CHR ''m'') then (False, c, [], [])
                 else
                   (let tid = ucast (t ! 2) OR push_bit 8 (ucast (t ! 3))
                    in case find_index (\<lambda>op. req_match tid from op \<noteq> None) (cl_ops c) of
                         None \<Rightarrow> (True, c, [], [])
                       | Some k \<Rightarrow>
                           (let op = cl_ops c ! k
                            in (True, op_put_back k (reply_handle ed sign ok c op (the (req_match tid from op)) buf
                                  (y = bytes ''e'') from now))))))"

text \<open>The loop of \<open>bep44_periodic\<close>: \<open>done\<close> are the operations stepped and still there.\<close>

fun step_all :: "(byte list \<Rightarrow> byte list \<Rightarrow> byte list option) \<Rightarrow> (b44_sa \<Rightarrow> byte list \<Rightarrow> bool) \<Rightarrow> u64 \<Rightarrow> b44_op list \<Rightarrow>
    b44_op list \<times> b44_client \<times> sends \<times> b44_call list \<Rightarrow> b44_op list \<times> b44_client \<times> sends \<times> b44_call list" where
  "step_all sign ok now [] acc = acc"
| "step_all sign ok now (op # ops) (kept, c, out, calls) =
     (let (c, op', o2, calls2) = op_step sign ok c op now
      in step_all sign ok now ops
           (kept @ (case op' of None \<Rightarrow> [] | Some op \<Rightarrow> [op]), c, out @ o2, calls @ calls2))"

definition bep44_periodic :: "(byte list \<Rightarrow> byte list \<Rightarrow> byte list option) \<Rightarrow> (b44_sa \<Rightarrow> byte list \<Rightarrow> bool) \<Rightarrow>
    b44_client \<Rightarrow> u64 \<Rightarrow> byte list option \<Rightarrow> b44_client \<times> sends \<times> b44_call list" where
  "bep44_periodic sign ok c now fresh =
     (let c = c\<lparr>cl_engine := serve_periodic (cl_engine c) now fresh\<rparr>;
          (kept, c, out, calls) = step_all sign ok now (cl_ops c) ([], c, [], [])
      in (c\<lparr>cl_ops := kept\<rparr>, out, calls))"

definition op_blank :: "byte list \<Rightarrow> bool \<Rightarrow> u64 \<Rightarrow> b44_cb \<Rightarrow> b44_op" where
  "op_blank target direct now cb =
     \<lparr>op_is_put = False, op_is_immutable = False, op_is_update = False, op_store_deferred = False, op_direct = direct,
      op_merge = (\<lambda>_ _. None), op_phase = B44_PHASE_LOOKUP, op_target = target, op_pk = replicate 32 0,
      op_sk = replicate 64 0, op_salt = [], op_value = [], op_seq = 0, op_cas = 0, op_best = None,
      op_best_node4 = None, op_best_node6 = None, op_nodes = [], op_reqs = replicate B44_REQS_MAX None,
      op_start_ms = now, op_stored = 0, op_cb = cb\<rparr>"

definition op_new :: "b44_client \<Rightarrow> byte list \<Rightarrow> bool \<Rightarrow> u64 \<Rightarrow> b44_cb \<Rightarrow> b44_op" where
  "op_new c target direct now cb =
     (let op = op_blank target direct now cb;
          op = foldl (\<lambda>op p. node_insert op (sd_id p) (sd_sa p) True) op (cl_pinned c);
          held = (\<lambda>ss. concat (map (\<lambda>s. case s of None \<Rightarrow> [] | Some s \<Rightarrow> [s]) ss));
          op = foldl (\<lambda>op p. node_insert op (sd_id p) (sd_sa p) False) op (held (cl_retained c))
      in if direct then op
         else foldl (\<lambda>op sa. node_insert op None sa False)
                (foldl (\<lambda>op p. node_insert op (sd_id p) (sd_sa p) False) op (held (cl_seeds c)))
                (cl_bootstrap c))"

definition op_create :: "b44_client \<Rightarrow> byte list \<Rightarrow> byte list \<Rightarrow> bool \<Rightarrow> u64 \<Rightarrow> b44_cb \<Rightarrow> b44_op option" where
  "op_create c pk salt direct now cb =
     (if BEP44_MAX_SALT < length salt then None
      else Some ((op_new c (target_n pk salt) direct now cb)\<lparr>op_pk := pk, op_salt := salt\<rparr>))"

text \<open>A new operation goes to the head of the list and is stepped.\<close>

definition op_launch :: "(byte list \<Rightarrow> byte list \<Rightarrow> byte list option) \<Rightarrow> (b44_sa \<Rightarrow> byte list \<Rightarrow> bool) \<Rightarrow> b44_client \<Rightarrow>
    b44_op option \<Rightarrow> u64 \<Rightarrow> bool \<times> b44_client \<times> sends \<times> b44_call list" where
  "op_launch sign ok c new now =
     (case new of
        None \<Rightarrow> (False, c, [], [])
      | Some op \<Rightarrow> (True, op_put_back 0 (op_step sign ok (c\<lparr>cl_ops := op # cl_ops c\<rparr>) op now)))"

definition bep44_put :: "(byte list \<Rightarrow> byte list \<Rightarrow> byte list option) \<Rightarrow> (b44_sa \<Rightarrow> byte list \<Rightarrow> bool) \<Rightarrow> b44_client \<Rightarrow>
    byte list \<Rightarrow> byte list \<Rightarrow> byte list \<Rightarrow> byte list \<Rightarrow> int \<Rightarrow> int \<Rightarrow> nat \<Rightarrow> u64 \<Rightarrow> bool \<times> b44_client \<times> sends \<times> b44_call list" where
  "bep44_put sign ok c sk pk salt v seq cas arg now =
     (if v = [] \<or> BEP44_MAX_VALUE < length v then (False, c, [], [])
      else op_launch sign ok c
             (map_option (\<lambda>op. op\<lparr>op_is_put := True, op_sk := sk, op_value := v, op_seq := seq, op_cas := cas\<rparr>)
               (op_create c pk salt False now (Cb_put arg))) now)"

definition update_impl :: "(byte list \<Rightarrow> byte list \<Rightarrow> byte list option) \<Rightarrow> (b44_sa \<Rightarrow> byte list \<Rightarrow> bool) \<Rightarrow> b44_client \<Rightarrow>
    byte list \<Rightarrow> byte list \<Rightarrow> byte list \<Rightarrow> (byte list option \<Rightarrow> int \<Rightarrow> byte list option) \<Rightarrow> bool \<Rightarrow> nat \<Rightarrow> u64 \<Rightarrow>
    bool \<times> b44_client \<times> sends \<times> b44_call list" where
  "update_impl sign ok c sk pk salt merge direct arg now =
     op_launch sign ok c
       (map_option (\<lambda>op. op\<lparr>op_is_update := True, op_sk := sk, op_merge := merge\<rparr>)
         (op_create c pk salt direct now (Cb_put arg))) now"

definition get_impl :: "(byte list \<Rightarrow> byte list \<Rightarrow> byte list option) \<Rightarrow> (b44_sa \<Rightarrow> byte list \<Rightarrow> bool) \<Rightarrow> b44_client \<Rightarrow>
    byte list \<Rightarrow> byte list \<Rightarrow> bool \<Rightarrow> nat \<Rightarrow> u64 \<Rightarrow> bool \<times> b44_client \<times> sends \<times> b44_call list" where
  "get_impl sign ok c pk salt direct arg now = op_launch sign ok c (op_create c pk salt direct now (Cb_get arg)) now"

definition bep44_put_immutable :: "(byte list \<Rightarrow> byte list \<Rightarrow> byte list option) \<Rightarrow> (b44_sa \<Rightarrow> byte list \<Rightarrow> bool) \<Rightarrow>
    b44_client \<Rightarrow> byte list \<Rightarrow> nat \<Rightarrow> u64 \<Rightarrow> bool \<times> b44_client \<times> sends \<times> b44_call list" where
  "bep44_put_immutable sign ok c v arg now =
     (if v = [] \<or> BEP44_MAX_VALUE < length v then (False, c, [], [])
      else op_launch sign ok c
             (Some ((op_new c (immutable_target v) False now (Cb_put arg))
               \<lparr>op_is_put := True, op_is_immutable := True, op_cas := -1, op_value := v\<rparr>)) now)"

definition bep44_get_immutable :: "(byte list \<Rightarrow> byte list \<Rightarrow> byte list option) \<Rightarrow> (b44_sa \<Rightarrow> byte list \<Rightarrow> bool) \<Rightarrow>
    b44_client \<Rightarrow> byte list \<Rightarrow> nat \<Rightarrow> u64 \<Rightarrow> bool \<times> b44_client \<times> sends \<times> b44_call list" where
  "bep44_get_immutable sign ok c target arg now =
     op_launch sign ok c (Some ((op_new c target False now (Cb_get arg))\<lparr>op_is_immutable := True\<rparr>)) now"

definition bep44_seed_add :: "b44_client \<Rightarrow> byte list option \<Rightarrow> b44_sa \<Rightarrow> b44_client" where
  "bep44_seed_add c nid sa =
     (if list_ex (holds_addr sa) (cl_seeds c) then c
      else
        (let old = the_default (seed_new None sa 0) (cl_seeds c ! cl_seed_next c)
         in c\<lparr>cl_seeds := (cl_seeds c)[cl_seed_next c := Some (old\<lparr>sd_id := nid, sd_sa := sa\<rparr>)],
              cl_seed_next := (cl_seed_next c + 1) mod B44_SEEDS_MAX\<rparr>))"

text \<open>The pin that has been silent longest past the limit: its index and silence.\<close>

fun stalest :: "u64 \<Rightarrow> b44_seed list \<Rightarrow> nat \<Rightarrow> (nat \<times> u64) option \<Rightarrow> (nat \<times> u64) option" where
  "stalest now [] i best = best"
| "stalest now (p # ps) i best =
     (let quiet = now - sd_last_ok_ms p
      in stalest now ps (i + 1)
           (if quiet \<le> B44_PIN_STALE_MS then best
            else case best of None \<Rightarrow> Some (i, quiet)
                 | Some (_, oldest) \<Rightarrow> if oldest < quiet then Some (i, quiet) else best))"

definition bep44_pin_add :: "b44_client \<Rightarrow> byte list option \<Rightarrow> b44_sa \<Rightarrow> u64 \<Rightarrow> bool \<times> b44_client" where
  "bep44_pin_add c nid sa now =
     (if list_ex (\<lambda>p. addr_eq sa (sd_sa p)) (cl_pinned c) then (True, c)
      else if B44_PINNED_MAX \<le> length (cl_pinned c)
      then (case stalest now (cl_pinned c) 0 None of
              None \<Rightarrow> (False, c)
            | Some (i, _) \<Rightarrow> (True, c\<lparr>cl_pinned := (cl_pinned c)[i := seed_new nid sa now]\<rparr>))
      else (True, c\<lparr>cl_pinned := cl_pinned c @ [seed_new nid sa now]\<rparr>))"

definition bep44_pin_del :: "b44_client \<Rightarrow> b44_sa \<Rightarrow> b44_client" where
  "bep44_pin_del c sa =
     (case find_index (\<lambda>p. addr_eq sa (sd_sa p)) (cl_pinned c) of
        None \<Rightarrow> c
      | Some i \<Rightarrow> c\<lparr>cl_pinned := take i (cl_pinned c) @ drop (i + 1) (cl_pinned c)\<rparr>)"

definition bep44_direct_nodes :: "b44_client \<Rightarrow> nat" where
  "bep44_direct_nodes c = length (cl_pinned c) + length (filter (\<lambda>r. r \<noteq> None) (cl_retained c))"

end
