(* ===== verification/Bep44_Flood.thy ===== *)
theory Bep44_Flood
  imports Bep44_Ban
begin

text \<open>
  What the rate limit of bep44.c means for a source: who may be refused on whose account, and for
  how long; with the run of a source that floods the node as the example.
\<close>

section \<open>The two promises\<close>

lemma refusal_blamed:
  assumes "queries_ok (limit_init rate ban_ms) 0 (qs @ [(src, t)])"
    and "ban_run (limit_init rate ban_ms) qs = (lm, oks)" "ban_ok lm src t = (False, lm')"
  shows "t < lm_block_until lm' \<or>
    (\<exists>a. same_net (sa_family src) a (addr_bytes src) \<and>
      flooding rate (qs @ [(src, t)]) (sa_family src) a)"
proof -
  let ?i = "limit_init rate ban_ms"
  have init: "\<forall>b \<in> set (lm_ban ?i). entry_ok (lm_rate ?i) [] b" by (simp add: limit_init_def)
  have lm: "\<forall>b \<in> set (lm_ban lm). entry_ok (lm_rate ?i) qs b" "lm_rate lm = lm_rate ?i"
      "lm_ban_ms lm = lm_ban_ms ?i"
    using run_entries [OF init _ assms(2)] assms(1) by (auto simp: queries_ok_def sorted_append)
  have "clock_ok lm t" "sa_ok src" "\<forall>q \<in> set qs. snd q \<le> t"
    using assms(1) lm(3) by (auto simp: clock_ok_def queries_ok_def sorted_append)
  moreover have "lm_rate ?i = rate" by (simp add: limit_init_def)
  ultimately show ?thesis
    using ban_ok_entries [of lm qs src t False lm'] assms(3) lm by auto
qed


text \<open>A source that is refused, while the node does not refuse everyone, is inside a ban, and every
  further query of that address is refused until the ban runs out, whatever else comes in.\<close>

theorem ban_lasts:
  assumes "queries_ok (limit_init rate ban_ms) 0 (qs @ [(src, t)])"
    and "ban_run (limit_init rate ban_ms) qs = (lm, oks)" "ban_ok lm src t = (False, lm')"
    and "\<not> t < lm_block_until lm'"
  shows "\<exists>b \<in> set (lm_ban lm'). banned_by (sa_family src) (addr_bytes src) t b \<and>
    (\<forall>qs' i. queries_ok (limit_init rate ban_ms) t qs' \<longrightarrow> (\<forall>q \<in> set qs'. snd q < bn_until b) \<longrightarrow>
      i < length qs' \<longrightarrow> sa_family (fst (qs' ! i)) = sa_family src \<longrightarrow>
      addr_bytes (fst (qs' ! i)) = addr_bytes src \<longrightarrow> \<not> snd (ban_run lm' qs') ! i)"
proof -
  let ?i = "limit_init rate ban_ms"
  have q: "queries_ok ?i 0 qs" "sa_ok src" "clock_ok ?i t" "\<forall>x \<in> set qs. snd x \<le> t"
    using assms(1) by (auto simp: queries_ok_def sorted_append)
  then have last: "last (0 # map snd qs) \<le> t" by (cases qs rule: rev_cases) auto
  have "limit_at ?i 0" by (simp add: limit_at_def limit_init_def until_le_def)
  from run_at [OF this q(1) assms(2)] have at: "limit_at lm (last (0 # map snd qs))"
    and ms: "lm_ban_ms lm = lm_ban_ms ?i" by auto
  have clock: "clock_ok lm t" using q(3) ms by (simp add: clock_ok_def)
  note ref = refused_covered [OF q(2) clock assms(3,4)]
  note at' = ban_ok_at [OF at q(2) clock last assms(3)]
  note ab = sa_bytes [OF q(2) ref(3)]
  obtain b where b: "b \<in> set (lm_ban lm')" "banned_by (sa_family src) (addr_bytes src) t b"
    using ref(1) by blast
  have "covered (unat (bn_until b)) (sa_family src) (addr_bytes src) (lm_ban lm')"
    using b by (intro coveredI) auto
  then show ?thesis
    using b run_covered [OF at'] ab ref(2,4) ms
    by (intro bexI [of _ b]) (auto simp: word_less_nat_alt queries_ok_cong [of lm' ?i])
qed

section \<open>A source that floods\<close>

definition flood_src :: b44_sa where "flood_src = Sa4 [10, 0, 0, 1] 7"

definition flood :: "(b44_sa \<times> u64) list" where
  "flood = map (\<lambda>t. (flood_src, t)) [1, 2, 3, 4, 5, 6, 7, 8, 9]"

definition flooded :: b44_limit where "flooded = fst (ban_run (limit_init 1 300) flood)"

lemma flood_src_simps:
  "sa_ok flood_src" "sa_family flood_src = Fam_inet" "addr_bytes flood_src = [10, 0, 0, 1]"
  by (simp_all add: flood_src_def)

text \<open>The table while the one source is being counted.\<close>

lemma scan_free:
  "\<forall>i \<in> set is. bn_family (ban ! i) = Fam_none \<Longrightarrow>
   ban_scan family ab base now is (track, slot, lru) ban =
     (ban, Some (track, if slot = None \<and> is \<noteq> [] then Some (hd is) else slot, lru))"
  by (induction "is" arbitrary: slot) auto

definition tracker :: "int \<Rightarrow> b44_ban" where
  "tracker n = ban_free\<lparr>bn_net := [10, 0, 0, 1, 0, 0, 0, 0, 0, 0, 0, 0, 0, 0, 0, 0], bn_family := Fam_inet, bn_bits := 32,
     bn_count := n, bn_window_ms := 10001\<rparr>"

definition tracking :: "int \<Rightarrow> b44_limit" where
  "tracking n = (limit_init 1 300)\<lparr>lm_ban := tracker n # replicate 127 ban_free\<rparr>"

lemma flood_base: "net_mask [10, 0, 0, 1] (ban_base_bits Fam_inet) = [10, 0, 0, 1 :: byte]" "net_mask [10, 0, 0, 1] 32 = [10, 0, 0, 1 :: byte]"
  using net_mask_base [of "[10, 0, 0, 1]" Fam_inet] by (simp_all add: fam_len_def ban_base_bits_def)

lemma twelve_zeros: "replicate 12 0 = [0, 0, 0, 0, 0, 0, 0, 0, 0, 0, 0, 0 :: byte]"
  by (simp add: numeral_eq_Suc)

lemma first_query: "ban_ok (limit_init 1 300) flood_src 1 = (True, tracking 1)"
proof -
  have "ban_scan Fam_inet [10, 0, 0, 1] [10, 0, 0, 1] 1 [0..<128] (None, None, None) (replicate 128 ban_free) =
      (replicate 128 ban_free, Some (None, Some 0, None))"
    by (subst scan_free) auto
  moreover have "(replicate 128 ban_free)[0 := x] = x # replicate 127 ban_free" for x
    using replicate_Suc [of 127 ban_free] by simp
  ultimately show ?thesis
    by (simp add: ban_ok_def flood_src_simps Let_def flood_base limit_init_def tracking_def tracker_def ban_base_bits_def B44_BAN_WINDOW_MS_def twelve_zeros)
qed

lemma next_scan:
  "ban_scan Fam_inet [10, 0, 0, 1] [10, 0, 0, 1] now [0..<128] (None, None, None) (tracker n # replicate 127 ban_free) =
   (tracker n # replicate 127 ban_free, Some (Some 0, Some 1, Some 0))"
proof -
  have "[0..<128] = 0 # [1..<128]" by (simp add: upt_conv_Cons)
  moreover have "ban_scan Fam_inet [10, 0, 0, 1] [10, 0, 0, 1] now [1..<128] (Some 0, None, Some 0) (tracker n # replicate 127 ban_free) =
     (tracker n # replicate 127 ban_free, Some (Some 0, Some 1, Some 0))"
    by (subst scan_free) auto
  ultimately show ?thesis by (simp add: tracker_def ban_base_bits_def Let_def)
qed

lemma next_query:
  assumes "now < 10001"
  shows "n + 1 < 10 \<Longrightarrow> ban_ok (tracking n) flood_src now = (True, tracking (n + 1))"
    "\<not> n + 1 < 10 \<Longrightarrow> fst (ban_ok (tracking n) flood_src now) = False \<and>
     lm_block_until (snd (ban_ok (tracking n) flood_src now)) = 0"
  using assms by (simp_all add: ban_ok_def flood_src_simps Let_def flood_base limit_init_def tracking_def next_scan)
   (simp_all add: tracker_def)

lemma flood_run:
  "ban_run (limit_init 1 300) flood = (flooded, snd (ban_run (limit_init 1 300) flood))"
  "ban_ok flooded flood_src 10 = (False, snd (ban_ok flooded flood_src 10))"
  "lm_block_until (snd (ban_ok flooded flood_src 10)) = 0"
proof -
  have more: "fst (ban_run (tracking n) ((flood_src, t) # qs)) = fst (ban_run (tracking (n + 1)) qs)" if "t < 10001" "n + 1 < 10" for n t qs
    unfolding ban_run.simps next_query(1) [OF that] by (simp add: split_beta)
  have "fst (ban_run (limit_init 1 300) flood) = fst (ban_run (tracking 1) (map (\<lambda>t. (flood_src, t)) [2, 3, 4, 5, 6, 7, 8, 9]))"
    by (simp add: flood_def first_query split_beta)
  also have "\<dots> = tracking 9" by (simp add: more del: ban_run.simps(2))
  finally have eq: "flooded = tracking 9" by (simp only: flooded_def)
  show "ban_run (limit_init 1 300) flood = (flooded, snd (ban_run (limit_init 1 300) flood))"
    by (simp only: flooded_def prod.collapse)
  have "fst (ban_ok flooded flood_src 10) = False \<and> lm_block_until (snd (ban_ok flooded flood_src 10)) = 0"
    unfolding eq by (rule next_query(2)) simp_all
  then show "ban_ok flooded flood_src 10 = (False, snd (ban_ok flooded flood_src 10))"
    "lm_block_until (snd (ban_ok flooded flood_src 10)) = 0"
    by (metis (full_types) prod.collapse, blast)
qed

lemma flood_queries: "queries_ok (limit_init 1 300) 0 (flood @ [(flood_src, 10)])"
proof -
  have "sorted (map snd (flood @ [(flood_src, 10)]))" by (simp add: flood_def)
  moreover have "\<forall>q \<in> set (flood @ [(flood_src, 10)]). fst q = flood_src \<and> unat (snd q) \<le> 10" by (simp add: flood_def)
  ultimately show ?thesis
    using flood_src_simps(1) unfolding queries_ok_def
    by (force simp: clock_ok_def limit_init_def)
qed


theorem ban_lasts_witness:
  "\<exists>b \<in> set (lm_ban (snd (ban_ok flooded flood_src 10))). banned_by Fam_inet [10, 0, 0, 1] 10 b"
proof -
  have "\<not> 10 < lm_block_until (snd (ban_ok flooded flood_src 10))" using flood_run(3) by simp
  from ban_lasts [OF flood_queries flood_run(1,2) this] show ?thesis
    unfolding flood_src_simps by blast
qed

end
