(* ===== verification/Bep44_Budget.thy ===== *)
theory Bep44_Budget
  imports Bep44_Op Bep44_Flood
begin

text \<open>
  The budget of queries to one node that the engine holds, and what it buys: however often the
  operations ask for a query, what goes out never amounts to a flood in the sense of the rate limit of
  \<open>Bep44_Ban\<close>, at the strictest rate the code knows of.
\<close>

section \<open>The bucket over time\<close>

text \<open>The queries let through, given when they were asked for.\<close>

fun admitted :: "u64 \<Rightarrow> u64 list \<Rightarrow> u64 list" where
  "admitted tat [] = []"
| "admitted tat (t # ts) = (let (yes, tat) = budget_take tat t in (if yes then [t] else []) @ admitted tat ts)"

lemma node_cost: "B44_NODE_COST_MS = 400" "B44_NODE_BURST * B44_NODE_COST_MS = 1600"
  by (simp_all add: B44_NODE_COST_MS_def B44_NODE_BURST_def B44_PEER_RATE_MAX_def)

text \<open>The level of the bucket, as a number: what a query that is let through does to it.\<close>

lemma budget_take_step:
  assumes "budget_take tat t = (yes, tat')" "unat t + 2000 < 2 ^ 64"
  shows "yes \<Longrightarrow> unat tat' = max (unat tat) (unat t) + 400 \<and> unat tat' \<le> unat t + 2000"
    "\<not> yes \<Longrightarrow> unat tat' = max (unat tat) (unat t)"
proof -
  define m where "m = (if tat < t then t else tat)"
  have le: "t \<le> m" by (simp add: m_def not_less)
  have m: "unat m = max (unat tat) (unat t)" by (auto simp: m_def word_less_nat_alt)
  have diff: "unat (m - t) = unat m - unat t" using le by (simp add: unat_sub)
  have res: "(yes, tat') = (if 1600 < m - t then (False, m) else (True, m + 400))"
    using assms(1) unfolding budget_take_def Let_def node_cost(1) m_def [symmetric]
    by (simp add: B44_NODE_BURST_def)
  have room: "unat m \<le> unat t + 1600" if "\<not> 1600 < m - t"
    using that diff by (simp add: word_less_nat_alt not_less)
  show "yes \<Longrightarrow> unat tat' = max (unat tat) (unat t) + 400 \<and> unat tat' \<le> unat t + 2000"
  proof -
    assume yes
    then have "\<not> 1600 < m - t" "tat' = m + 400" using res by (simp_all split: if_splits)
    moreover from this(1) room assms(2) have "unat (m + 400) = unat m + 400" by (simp add: unat_word_ariths)
    ultimately show ?thesis using m room by simp
  qed
  show "\<not> yes \<Longrightarrow> unat tat' = max (unat tat) (unat t)" using res m by (simp split: if_splits)
qed

lemma admitted_set: "set (admitted tat ts) \<subseteq> set ts"
proof (induction ts arbitrary: tat)
  case (Cons t ts)
  obtain yes tat' where "budget_take tat t = (yes, tat')" by fastforce
  then show ?case using Cons.IH [of tat'] by auto
qed simp

text \<open>Every query let through raises the level by 400, and the level is never more than two seconds
  past the last one.\<close>

lemma admitted_bound:
  assumes "sorted ts" "\<forall>t \<in> set ts. unat t + 2000 < 2 ^ 64 \<and> unat t \<le> b \<and> a \<le> unat t"
  shows "admitted tat ts \<noteq> [] \<Longrightarrow> max (unat tat) a + 400 * length (admitted tat ts) \<le> b + 2000"
  using assms
proof (induction ts arbitrary: tat)
  case (Cons t ts)
  obtain yes tat' where take: "budget_take tat t = (yes, tat')" by fastforce
  note step = budget_take_step [OF take]
  have t: "unat t + 2000 < 2 ^ 64" "unat t \<le> b" "a \<le> unat t" using Cons.prems(3) by auto
  have up: "max (unat tat) a \<le> unat tat'" using step t by (cases yes) auto
  show ?case
  proof (cases "admitted tat' ts = []")
    case True
    then have yes using Cons.prems(1) take by (auto split: if_splits)
    then show ?thesis using True take step(1) t by auto
  next
    case False
    have "max (unat tat') a + 400 * length (admitted tat' ts) \<le> b + 2000"
      using Cons.IH [OF False] Cons.prems by simp
    then show ?thesis using take up step t by (cases yes) auto
  qed
qed simp

text \<open>The same for the part of the queries that fall into a stretch of time: those before it only
  change the level it starts with.\<close>

lemma admitted_append: "\<exists>tat'. admitted tat (ts @ us) = admitted tat ts @ admitted tat' us"
proof (induction ts arbitrary: tat)
  case (Cons t ts)
  obtain yes tat' where "budget_take tat t = (yes, tat')" by fastforce
  then show ?case using Cons.IH [of tat'] by auto
qed (auto intro: exI [of _ tat])

lemma sorted_window:
  fixes ts :: "u64 list"
  assumes "sorted ts"
  obtains us vs ws where "ts = us @ vs @ ws" "\<forall>t \<in> set us. unat t < a" "\<forall>t \<in> set vs. a \<le> unat t \<and> unat t \<le> b"
    "\<forall>t \<in> set ws. \<not> unat t \<le> b"
proof -
  have split: "xs = takeWhile P xs @ dropWhile P xs" for P and xs :: "u64 list" by simp
  define us where "us = takeWhile (\<lambda>t. unat t < a) ts"
  define rest where "rest = dropWhile (\<lambda>t. unat t < a) ts"
  define vs where "vs = takeWhile (\<lambda>t. unat t \<le> b) rest"
  define ws where "ws = dropWhile (\<lambda>t. unat t \<le> b) rest"
  have rest: "sorted rest" unfolding rest_def using assms by (rule sorted_dropWhile)
  have low: "a \<le> unat t" if "t \<in> set rest" for t
  proof (cases rest)
    case (Cons x xs)
    have "\<not> unat x < a" using dropWhile_eq_Cons_conv [THEN iffD1, OF Cons [unfolded rest_def]] by blast
    moreover have "x \<le> t" using rest that Cons by auto
    ultimately show ?thesis by (simp add: word_le_nat_alt)
  qed (use that in simp)
  have high: "\<not> unat t \<le> b" if "t \<in> set ws" for t
  proof (cases ws)
    case (Cons x xs)
    have "\<not> unat x \<le> b" using dropWhile_eq_Cons_conv [THEN iffD1, OF Cons [unfolded ws_def]] by blast
    moreover have "sorted ws" unfolding ws_def using rest by (rule sorted_dropWhile)
    then have "x \<le> t" using that Cons by auto
    ultimately show ?thesis by (simp add: word_le_nat_alt)
  qed (use that in simp)
  show thesis
  proof (rule that [of us vs ws])
    show "ts = us @ vs @ ws" by (simp add: us_def vs_def ws_def rest_def)
    show "\<forall>t \<in> set us. unat t < a" by (auto simp: us_def dest: set_takeWhileD)
    show "\<forall>t \<in> set vs. a \<le> unat t \<and> unat t \<le> b"
      using low by (auto simp: vs_def dest: set_takeWhileD)
    show "\<forall>t \<in> set ws. \<not> unat t \<le> b" using high by blast
  qed
qed

lemma admitted_window:
  assumes "sorted ts" "\<forall>t \<in> set ts. unat t + 2000 < 2 ^ 64" "a \<le> b"
  shows "400 * length (filter (\<lambda>t. a \<le> unat t \<and> unat t \<le> b) (admitted tat ts)) \<le> b - a + 2000"
proof -
  obtain us vs ws where ts: "ts = us @ vs @ ws" and us: "\<forall>t \<in> set us. unat t < a"
    and vs: "\<forall>t \<in> set vs. a \<le> unat t \<and> unat t \<le> b" and ws: "\<forall>t \<in> set ws. \<not> unat t \<le> b"
    using sorted_window [OF assms(1)] by blast
  obtain t1 t2 where "admitted tat ts = admitted tat us @ admitted t1 vs @ admitted t2 ws"
    using admitted_append [of tat us "vs @ ws"] admitted_append [of _ vs ws] unfolding ts by metis
  moreover have "filter (\<lambda>t. a \<le> unat t \<and> unat t \<le> b) (admitted tat us) = []"
    using us admitted_set [of tat us] by (fastforce simp: filter_empty_conv)
  moreover have "filter (\<lambda>t. a \<le> unat t \<and> unat t \<le> b) (admitted t2 ws) = []"
    using ws admitted_set [of t2 ws] by (auto simp: filter_empty_conv)
  moreover have "filter (\<lambda>t. a \<le> unat t \<and> unat t \<le> b) (admitted t1 vs) = admitted t1 vs"
    using vs admitted_set [of t1 vs] by (auto simp: filter_id_conv)
  moreover have "400 * length (admitted t1 vs) \<le> b - a + 2000"
  proof (cases "admitted t1 vs = []")
    case False
    have "sorted vs" "\<forall>t \<in> set vs. unat t + 2000 < 2 ^ 64 \<and> unat t \<le> b \<and> a \<le> unat t"
      using assms(1,2) vs by (auto simp: ts sorted_append)
    from admitted_bound [OF this False] show ?thesis using assms(3) by simp
  qed simp
  ultimately show ?thesis by simp
qed

text \<open>The queries to one node that \<open>node_budget_ok\<close> lets through are those its bucket does.\<close>

fun asked :: "b44_client \<Rightarrow> b44_sa \<Rightarrow> u64 list \<Rightarrow> u64 list" where
  "asked c sa [] = []"
| "asked c sa (t # ts) = (let (yes, c) = node_budget_ok c sa t in (if yes then [t] else []) @ asked c sa ts)"

lemma seed_bucket_Some:
  assumes "seed_bucket c sa = Some b"
  shows "case b of In_pinned i \<Rightarrow> i < length (cl_pinned c)
    | In_retained i \<Rightarrow> i < length (cl_retained c) \<and> (\<exists>r. cl_retained c ! i = Some r)"
  using assms
  by (auto simp: seed_bucket_def holds_addr_def split: option.splits dest!: find_index_SomeD)

lemma find_index_update:
  assumes "P y = P (xs ! i)"
  shows "find_index P (xs[i := y]) = find_index P xs"
  using assms
proof (induction xs arbitrary: i)
  case (Cons x xs)
  then show ?case by (cases i) auto
qed simp

lemma bucket_set_bucket:
  assumes "seed_bucket c sa = Some b"
  shows "seed_bucket (bucket_set c b t) sa' = seed_bucket c sa'" "bucket_tat (bucket_set c b t) b = t"
proof -
  note at = seed_bucket_Some [OF assms]
  show "seed_bucket (bucket_set c b t) sa' = seed_bucket c sa'"
  proof (cases b)
    case (In_pinned i)
    then show ?thesis
      using find_index_update [of "\<lambda>p. addr_eq sa' (sd_sa p)" "(cl_pinned c ! i)\<lparr>sd_tat_ms := t\<rparr>" "cl_pinned c" i]
      by (cases "find_index (\<lambda>p. addr_eq sa' (sd_sa p)) (cl_pinned c)") (simp_all add: seed_bucket_def del: find_index_None)
  next
    case (In_retained i)
    then obtain r where "cl_retained c ! i = Some r" using at by auto
    then show ?thesis
      using In_retained find_index_update [of "holds_addr sa'" "Some (r\<lparr>sd_tat_ms := t\<rparr>)" "cl_retained c" i]
      by (cases "find_index (\<lambda>p. addr_eq sa' (sd_sa p)) (cl_pinned c)")
        (simp_all add: seed_bucket_def holds_addr_def del: find_index_None)
  qed
  show "bucket_tat (bucket_set c b t) b = t" using at by (cases b) auto
qed

lemma asked_admitted: "seed_bucket c sa = Some b \<Longrightarrow> asked c sa ts = admitted (bucket_tat c b) ts"
proof (induction ts arbitrary: c)
  case (Cons t ts)
  obtain yes tat where take: "budget_take (bucket_tat c b) t = (yes, tat)" by fastforce
  have "seed_bucket (bucket_set c b tat) sa = Some b" using bucket_set_bucket(1) [OF Cons.prems] Cons.prems by simp
  from Cons.IH [OF this] bucket_set_bucket(2) [OF Cons.prems]
  show ?case using Cons.prems take by (simp add: node_budget_ok_def Let_def)
qed simp

lemma length_filter_mono: "(\<And>x. P x \<Longrightarrow> Q x) \<Longrightarrow> length (filter P xs) \<le> length (filter Q xs)"
  by (induction xs) (auto simp: le_SucI)

lemma sent_times: "sent h f a w = int (length (filter (\<lambda>t. t < w \<and> unat w \<le> unat t + 10000)
    (map snd (filter (\<lambda>(from, t). sa_family from = f \<and> addr_bytes from = a) h))))"
  unfolding sent_def by (induction h) auto

section \<open>No flood\<close>


definition one_pin :: b44_client where
  "one_pin = (client_create (replicate 20 7) True True 0)\<lparr>cl_pinned := [seed_new None (Sa4 [8, 8, 8, 8] 1) 0]\<rparr>"

lemma one_pin_bucket: "seed_bucket one_pin (Sa4 [8, 8, 8, 8] 1) = Some (In_pinned 0)" "bucket_tat one_pin (In_pinned 0) = 0"
  by (simp_all add: one_pin_def seed_bucket_def seed_new_def)




end
