(* ===== verification/Bep44_Client.thy ===== *)
theory Bep44_Client
  imports Bep44_Op
begin

text \<open>
  What holds of every operation of the asking side at all times: its node list is bounded and sorted
  by distance, each request under way names a node of its own that is being waited for, the count of
  stores is the number of nodes that acknowledged one, and the best value is one its key signed. It
  follows that a caller is only ever given authentic values, once per family, and that an operation is
  over after half a minute.
\<close>

section \<open>The invariant\<close>

definition nodes_ok :: "b44_node list \<Rightarrow> bool" where
  "nodes_ok ns =
     (length ns \<le> B44_NODES_MAX \<and> (\<forall>n \<in> set ns. length (nd_id n) = 20 \<and> length (nd_dist n) = 20) \<and>
      sorted_wrt (\<lambda>a b. memcmp (nd_dist a) (nd_dist b) \<le> 0) ns)"

definition flying :: "b44_phase \<Rightarrow> b44_node_state" where
  "flying ph = (case ph of B44_PHASE_LOOKUP \<Rightarrow> B44_NODE_INFLIGHT | B44_PHASE_STORE \<Rightarrow> B44_NODE_STORE_INFLIGHT)"

definition reqs_ok :: "b44_phase \<Rightarrow> b44_node list \<Rightarrow> b44_req option list \<Rightarrow> bool" where
  "reqs_ok ph ns rs =
     (length rs = B44_REQS_MAX \<and>
      (\<forall>r. Some r \<in> set rs \<longrightarrow> rq_node r < length ns \<and> nd_state (ns ! rq_node r) = flying ph) \<and>
      (\<forall>i < length rs. \<forall>j < length rs. \<forall>r s. rs ! i = Some r \<longrightarrow> rs ! j = Some s \<longrightarrow> rq_node r = rq_node s \<longrightarrow> i = j))"

definition stored_ok :: "b44_phase \<Rightarrow> nat \<Rightarrow> b44_node list \<Rightarrow> bool" where
  "stored_ok ph stored ns =
     (stored = length (filter (\<lambda>n. nd_state n = B44_NODE_STORED) ns) \<and> (ph = B44_PHASE_LOOKUP \<longrightarrow> stored = 0))"

text \<open>A value that answers for the operation: it hashes to the target, or the key signed it with its
  number and salt.\<close>

definition authentic :: "(byte list \<Rightarrow> byte list \<Rightarrow> byte list \<Rightarrow> bool) \<Rightarrow> b44_op \<Rightarrow> byte list \<Rightarrow> int \<Rightarrow> bool" where
  "authentic ed op v seq =
     (length v \<le> BEP44_MAX_VALUE \<and>
      (if op_is_immutable op then sha1_spec v = op_target op \<and> seq = -1
       else 0 \<le> seq \<and> (\<exists>sig. length sig = 64 \<and>
          ed sig (op_pk op) (sig_buffer_n (BEP44_MAX_VALUE + 128) (op_salt op) seq v))))"

definition best_ok :: "(byte list \<Rightarrow> byte list \<Rightarrow> byte list \<Rightarrow> bool) \<Rightarrow> b44_op \<Rightarrow> bool" where
  "best_ok ed op = (case op_best op of None \<Rightarrow> True | Some (v, seq) \<Rightarrow> authentic ed op v seq)"

definition op_ok :: "(byte list \<Rightarrow> byte list \<Rightarrow> byte list \<Rightarrow> bool) \<Rightarrow> b44_op \<Rightarrow> bool" where
  "op_ok ed op =
     (length (op_target op) = 20 \<and> nodes_ok (op_nodes op) \<and> reqs_ok (op_phase op) (op_nodes op) (op_reqs op) \<and>
      stored_ok (op_phase op) (op_stored op) (op_nodes op) \<and> best_ok ed op)"

text \<open>What never changes of an operation.\<close>

definition same_op :: "b44_op \<Rightarrow> b44_op \<Rightarrow> bool" where
  "same_op a b =
     (op_target a = op_target b \<and> op_pk a = op_pk b \<and> op_salt a = op_salt b \<and> op_cb a = op_cb b \<and>
      op_is_immutable a = op_is_immutable b \<and> op_start_ms a = op_start_ms b)"

lemma same_op_refl [simp]: "same_op op op"
  by (simp add: same_op_def)

lemma same_op_trans [trans]: "same_op a b \<Longrightarrow> same_op b d \<Longrightarrow> same_op a d"
  by (simp add: same_op_def)

lemma authentic_same: "same_op a b \<Longrightarrow> authentic ed a = authentic ed b"
  by (simp add: same_op_def authentic_def fun_eq_iff)

section \<open>The parts of the invariant under updates\<close>

lemma flying_cases [simp]: "flying B44_PHASE_LOOKUP = B44_NODE_INFLIGHT" "flying B44_PHASE_STORE = B44_NODE_STORE_INFLIGHT"
  by (simp_all add: flying_def)

lemma in_flight_flying [simp]: "in_flight (flying ph)"
  by (cases ph) simp_all

lemma flying_not [simp]: "flying ph \<noteq> B44_NODE_STORED" "flying ph \<noteq> B44_NODE_FRESH" "flying ph \<noteq> B44_NODE_REPLIED" "flying ph \<noteq> B44_NODE_FAILED"
  by (cases ph; simp)+

lemma nodes_ok_cong:
  assumes "map (\<lambda>n. (nd_id n, nd_dist n)) ms = map (\<lambda>n. (nd_id n, nd_dist n)) ns"
  shows "nodes_ok ms = nodes_ok ns"
proof -
  have len: "length ms = length ns" using map_eq_imp_length_eq [OF assms] .
  then have "nd_id (ms ! i) = nd_id (ns ! i) \<and> nd_dist (ms ! i) = nd_dist (ns ! i)" if "i < length ns" for i
    using arg_cong [OF assms, of "\<lambda>l. l ! i"] that by simp
  then show ?thesis using len by (auto simp: nodes_ok_def all_set_conv_all_nth sorted_wrt_iff_nth_less)
qed

lemma nodes_ok_update:
  assumes "nd_id m = nd_id (ns ! i)" "nd_dist m = nd_dist (ns ! i)"
  shows "nodes_ok (ns[i := m]) = nodes_ok ns"
  by (rule nodes_ok_cong) (cases "i < length ns"; simp add: list_eq_iff_nth_eq nth_list_update assms)

lemma reqs_okD:
  assumes "reqs_ok ph ns rs" "i < length rs" "rs ! i = Some r"
  shows "rq_node r < length ns" "nd_state (ns ! rq_node r) = flying ph"
  using assms nth_mem [of i rs] by (auto simp: reqs_ok_def)

lemma reqs_ok_inj:
  assumes "reqs_ok ph ns rs" "i < length rs" "rs ! i = Some r" "j < length rs" "rs ! j = Some s" "rq_node r = rq_node s"
  shows "i = j"
  using assms by (auto simp: reqs_ok_def)

lemma reqs_okI:
  assumes "length rs = B44_REQS_MAX"
    "\<And>i r. i < length rs \<Longrightarrow> rs ! i = Some r \<Longrightarrow> rq_node r < length ns \<and> nd_state (ns ! rq_node r) = flying ph"
    "\<And>i j r s. \<lbrakk>i < length rs; j < length rs; rs ! i = Some r; rs ! j = Some s; rq_node r = rq_node s\<rbrakk> \<Longrightarrow> i = j"
  shows "reqs_ok ph ns rs"
  using assms by (auto simp: reqs_ok_def in_set_conv_nth)

text \<open>A request is over: its node may change its state.\<close>

lemma reqs_ok_free:
  assumes ok: "reqs_ok ph ns rs" and i: "i < length rs" "rs ! i = Some r"
  shows "reqs_ok ph (ns[rq_node r := m]) (rs[i := None])"
proof (rule reqs_okI)
  show "length (rs[i := None]) = B44_REQS_MAX" using ok by (simp add: reqs_ok_def)
next
  fix j s assume j: "j < length (rs[i := None])" "rs[i := None] ! j = Some s"
  then have "j \<noteq> i" "rs ! j = Some s" by (cases "j = i"; simp)+
  then show "rq_node s < length (ns[rq_node r := m]) \<and> nd_state (ns[rq_node r := m] ! rq_node s) = flying ph"
    using reqs_okD [OF ok, of j s] reqs_ok_inj [OF ok, of i r j s] i j by (cases "rq_node r = rq_node s") auto
next
  fix j k s t
  assume "j < length (rs[i := None])" "k < length (rs[i := None])" "rs[i := None] ! j = Some s"
    "rs[i := None] ! k = Some t" "rq_node s = rq_node t"
  then show "j = k" using reqs_ok_inj [OF ok, of j s k t] by (cases "j = i"; cases "k = i") simp_all
qed

text \<open>A field of a node other than its state changes.\<close>

lemma reqs_ok_field:
  assumes "reqs_ok ph ns rs" "nd_state m = nd_state (ns ! k)"
  shows "reqs_ok ph (ns[k := m]) rs"
proof -
  have "nd_state (ns[k := m] ! j) = nd_state (ns ! j)" if "j < length ns" for j
    using assms(2) that by (cases "k = j") simp_all
  then show ?thesis using assms(1) unfolding reqs_ok_def by auto
qed

text \<open>A request is made of a node that was not being waited for.\<close>

lemma reqs_ok_alloc:
  assumes ok: "reqs_ok ph ns rs" and i: "i < length rs" "rs ! i = None" and k: "k < length ns" "\<not> in_flight (nd_state (ns ! k))"
    and m: "nd_state m = flying ph" and r: "rq_node r = k"
  shows "reqs_ok ph (ns[k := m]) (rs[i := Some r])"
proof -
  have other: "rq_node s \<noteq> k" if "j < length rs" "rs ! j = Some s" for j s
    using reqs_okD [OF ok that] k(2) by (cases ph) auto
  show ?thesis
  proof (rule reqs_okI)
    show "length (rs[i := Some r]) = B44_REQS_MAX" using ok by (simp add: reqs_ok_def)
  next
    fix j s assume j: "j < length (rs[i := Some r])" "rs[i := Some r] ! j = Some s"
    show "rq_node s < length (ns[k := m]) \<and> nd_state (ns[k := m] ! rq_node s) = flying ph"
    proof (cases "j = i")
      case True then show ?thesis using j i k m r by simp
    next
      case False
      then show ?thesis using j other [of j s] reqs_okD [OF ok, of j s] by simp
    qed
  next
    fix j l s t
    assume *: "j < length (rs[i := Some r])" "l < length (rs[i := Some r])" "rs[i := Some r] ! j = Some s"
      "rs[i := Some r] ! l = Some t" "rq_node s = rq_node t"
    show "j = l"
    proof (cases "j = i \<or> l = i")
      case True
      then show ?thesis using * other [of j s] other [of l t] r i by (auto simp: nth_list_update split: if_splits)
    next
      case False
      then show ?thesis using * reqs_ok_inj [OF ok, of j s l t] by simp
    qed
  qed
qed

text \<open>A node is inserted before the ones from \<open>pos\<close> on, whose requests follow them.\<close>

lemma reqs_ok_shift:
  assumes ok: "reqs_ok ph ns rs" and pos: "pos \<le> length ms" and pre: "ms = ns \<or> ns \<noteq> [] \<and> ms = butlast ns \<and> \<not> in_flight (nd_state (last ns))"
  shows "reqs_ok ph (take pos ms @ m # drop pos ms)
    (map (map_option (\<lambda>r. if pos \<le> rq_node r then r\<lparr>rq_node := rq_node r + 1\<rparr> else r)) rs)"
proof -
  define f where "f = (\<lambda>r. if pos \<le> rq_node r then r\<lparr>rq_node := rq_node r + 1\<rparr> else (r :: b44_req))"
  have f: "rq_node (f r) = (if pos \<le> rq_node r then rq_node r + 1 else rq_node r)" for r by (simp add: f_def)
  let ?ns = "take pos ms @ m # drop pos ms"
  have node: "rq_node r < length ms \<and> ms ! rq_node r = ns ! rq_node r" if "i < length rs" "rs ! i = Some r" for i r
  proof -
    have *: "rq_node r < length ns" "nd_state (ns ! rq_node r) = flying ph" using reqs_okD [OF ok that] .
    from pre show ?thesis
    proof
      assume "ms = ns"
      then show ?thesis using * by simp
    next
      assume pre: "ns \<noteq> [] \<and> ms = butlast ns \<and> \<not> in_flight (nd_state (last ns))"
      then have "rq_node r \<noteq> length ns - 1" using *(2) in_flight_flying [of ph] by (metis last_conv_nth)
      then show ?thesis using * pre by (simp add: nth_butlast)
    qed
  qed
  show ?thesis unfolding f_def [symmetric]
  proof (rule reqs_okI)
    show "length (map (map_option f) rs) = B44_REQS_MAX" using ok by (simp add: reqs_ok_def)
  next
    fix i r assume i: "i < length (map (map_option f) rs)" "map (map_option f) rs ! i = Some r"
    then obtain s where s: "rs ! i = Some s" "r = f s" "i < length rs" by (cases "rs ! i") simp_all
    have n: "rq_node s < length ms" "nd_state (ms ! rq_node s) = flying ph"
      using node [OF s(3,1)] reqs_okD [OF ok s(3,1)] by simp_all
    show "rq_node r < length ?ns \<and> nd_state (?ns ! rq_node r) = flying ph"
    proof (cases "pos \<le> rq_node s")
      case True
      then have "?ns ! (rq_node s + 1) = ms ! rq_node s" using n(1) pos by (simp add: nth_append)
      then show ?thesis using True n s(2) pos by (simp add: f)
    next
      case False
      then have "?ns ! rq_node s = ms ! rq_node s" using n(1) pos by (simp add: nth_append)
      then show ?thesis using False n s(2) pos by (simp add: f)
    qed
  next
    fix i j r s
    assume *: "i < length (map (map_option f) rs)" "j < length (map (map_option f) rs)"
      "map (map_option f) rs ! i = Some r" "map (map_option f) rs ! j = Some s" "rq_node r = rq_node s"
    then obtain r' s' where "rs ! i = Some r'" "r = f r'" "rs ! j = Some s'" "s = f s'"
      by (cases "rs ! i"; cases "rs ! j") simp_all
    moreover from this *(5) have "rq_node r' = rq_node s'" by (simp add: f split: if_splits)
    ultimately show "i = j" using reqs_ok_inj [OF ok, of i r' j s'] *(1,2) by simp
  qed
qed

section \<open>Inserting nodes\<close>

lemma sorted_insert:
  assumes ms: "sorted_wrt (\<lambda>a b. memcmp (nd_dist a) (nd_dist b) \<le> 0) ms" and len: "\<forall>n \<in> set ms. length (nd_dist n) = 20"
    and m: "length (nd_dist m) = 20"
    and before: "\<forall>n \<in> set (take pos ms). \<not> memcmp (nd_dist m) (nd_dist n) < 0"
    and after: "pos < length ms \<Longrightarrow> memcmp (nd_dist m) (nd_dist (ms ! pos)) < 0"
  shows "sorted_wrt (\<lambda>a b. memcmp (nd_dist a) (nd_dist b) \<le> 0) (take pos ms @ m # drop pos ms)"
proof -
  have pre: "memcmp (nd_dist n) (nd_dist m) \<le> 0" if "n \<in> set (take pos ms)" for n
    using before that memcmp_swap [of "nd_dist n" "nd_dist m"] by auto
  have post: "memcmp (nd_dist m) (nd_dist n) \<le> 0" if "n \<in> set (drop pos ms)" for n
  proof (cases "drop pos ms")
    case (Cons x xs)
    then have x: "pos < length ms" "ms ! pos = x" "x \<in> set ms"
      by (auto simp flip: hd_drop_conv_nth intro: in_set_dropD [of _ pos] le_neq_implies_less)
        (metis drop_eq_Nil list.distinct(1) not_le, metis drop_eq_Nil hd_drop_conv_nth list.distinct(1) list.sel(1) not_le)
    have "sorted_wrt (\<lambda>a b. memcmp (nd_dist a) (nd_dist b) \<le> 0) (x # xs)"
      using sorted_wrt_drop [OF ms, of pos] Cons by simp
    then have "memcmp (nd_dist x) (nd_dist n) \<le> 0" using that Cons by auto
    moreover have "memcmp (nd_dist m) (nd_dist x) \<le> 0" using after x by simp
    moreover have "length (nd_dist n) = 20" "length (nd_dist x) = 20" using len x(3) in_set_dropD [OF that] by auto
    ultimately show ?thesis using memcmp_trans [of "nd_dist m" "nd_dist x" "nd_dist n"] m by simp
  qed (use that in simp)
  have "sorted_wrt (\<lambda>a b. memcmp (nd_dist a) (nd_dist b) \<le> 0) (take pos ms @ drop pos ms)" using ms by simp
  then show ?thesis using pre post unfolding sorted_wrt_append by auto
qed

lemma takeWhile_take_min: "n \<le> length (takeWhile P xs) \<Longrightarrow> \<forall>x \<in> set (take n xs). P x"
  by (metis in_set_takeD set_takeWhileD takeWhile_eq_take take_take min.absorb1)

lemma pos_after: "pos = length (takeWhile P xs) \<Longrightarrow> pos < length xs \<Longrightarrow> \<not> P (xs ! pos)"
  by (simp add: nth_length_takeWhile)

lemma node_new_fields [simp]:
  "nd_dist (node_new nid d sa) = d" "nd_state (node_new nid d sa) = B44_NODE_FRESH"
  by (simp_all add: node_new_def)

lemma node_new_id: "pred_option (\<lambda>i. length i = 20) nid \<Longrightarrow> length (nd_id (node_new nid d sa)) = 20"
  by (cases nid) (simp_all add: node_new_def the_default_def)

text \<open>What \<open>node_insert\<close> does when it does something.\<close>

lemma node_insert_cases:
  obtains (kept) "node_insert op nid sa pinned = op"
  | (inserted) d pos ms where
      "node_insert op nid sa pinned = op\<lparr>op_nodes := take pos ms @ node_new nid d sa # drop pos ms,
         op_reqs := map (map_option (\<lambda>r. if pos \<le> rq_node r then r\<lparr>rq_node := rq_node r + 1\<rparr> else r)) (op_reqs op)\<rparr>"
      "length (op_target op) = 20 \<Longrightarrow> pred_option (\<lambda>i. length i = 20) nid \<Longrightarrow> length d = 20"
      "length ms < B44_NODES_MAX" "pos \<le> B44_NODES_MAX - 1" "pos \<le> length (op_nodes op)"
      "ms = take (B44_NODES_MAX - 1) (op_nodes op)"
      "length (op_nodes op) < B44_NODES_MAX \<or> \<not> in_flight (nd_state (op_nodes op ! (B44_NODES_MAX - 1)))"
      "\<forall>n \<in> set (take pos (op_nodes op)). \<not> memcmp d (nd_dist n) < 0"
      "pos < length (op_nodes op) \<Longrightarrow> memcmp d (nd_dist (op_nodes op ! pos)) < 0"
proof -
  define d where "d = (case nid of Some i \<Rightarrow> dist_calc i (op_target op)
    | None \<Rightarrow> if pinned then replicate 20 0 else replicate 20 0xff)"
  define pos where "pos = length (takeWhile (\<lambda>n. \<not> memcmp d (nd_dist n) < 0) (op_nodes op))"
  let ?ms = "take (B44_NODES_MAX - 1) (op_nodes op)"
  show thesis
  proof (cases "node_insert op nid sa pinned = op")
    case True then show ?thesis by (rule kept)
  next
    case False
    define new where "new = op\<lparr>op_nodes := take pos ?ms @ node_new nid d sa # drop pos ?ms,
      op_reqs := map (map_option (\<lambda>r. if pos \<le> rq_node r then r\<lparr>rq_node := rq_node r + 1\<rparr> else r)) (op_reqs op)\<rparr>"
    have "node_insert op nid sa pinned =
        (if list_ex (\<lambda>n. addr_eq sa (nd_sa n) \<or> nid = Some (nd_id n)) (op_nodes op) then op
         else if B44_NODES_MAX \<le> pos then op
         else if B44_NODES_MAX \<le> length (op_nodes op) \<and> in_flight (nd_state (op_nodes op ! (B44_NODES_MAX - 1)))
         then op else new)"
      unfolding node_insert_def Let_def d_def [symmetric] pos_def [symmetric] new_def by (rule refl)
    with False have new: "node_insert op nid sa pinned = new" and pos: "pos < B44_NODES_MAX"
      and tail: "\<not> (B44_NODES_MAX \<le> length (op_nodes op) \<and> in_flight (nd_state (op_nodes op ! (B44_NODES_MAX - 1))))"
      by (metis, metis not_le, metis)
    show ?thesis
    proof (rule inserted [OF new [unfolded new_def]])
      show "length d = 20" if "length (op_target op) = 20" "pred_option (\<lambda>i. length i = 20) nid"
        using that by (cases nid) (simp_all add: d_def dist_calc_def)
      show "\<forall>n \<in> set (take pos (op_nodes op)). \<not> memcmp d (nd_dist n) < 0"
        by (rule takeWhile_take_min) (simp add: pos_def)
      show "memcmp d (nd_dist (op_nodes op ! pos)) < 0" if "pos < length (op_nodes op)"
        using pos_after [OF pos_def that] by simp
      show "pos \<le> length (op_nodes op)" by (simp add: pos_def length_takeWhile_le)
      show "length (op_nodes op) < B44_NODES_MAX \<or> \<not> in_flight (nd_state (op_nodes op ! (B44_NODES_MAX - 1)))"
        using tail by linarith
      show "pos \<le> B44_NODES_MAX - 1" using pos by linarith
      show "length ?ms < B44_NODES_MAX" by (simp add: B44_NODES_MAX_def)
    qed (rule refl)
  qed
qed

lemma filter_insert: "\<not> P m \<Longrightarrow> filter P (take pos ms @ m # drop pos ms) = filter P ms"
  by (metis append_take_drop_id filter.simps(2) filter_append)

lemma op_ok_parts:
  "op_ok ed op \<Longrightarrow> length (op_target op) = 20" "op_ok ed op \<Longrightarrow> nodes_ok (op_nodes op)"
  "op_ok ed op \<Longrightarrow> reqs_ok (op_phase op) (op_nodes op) (op_reqs op)"
  "op_ok ed op \<Longrightarrow> stored_ok (op_phase op) (op_stored op) (op_nodes op)" "op_ok ed op \<Longrightarrow> best_ok ed op"
  by (simp_all add: op_ok_def)

lemma best_ok_same: "same_op a b \<Longrightarrow> op_best a = op_best b \<Longrightarrow> best_ok ed a = best_ok ed b"
  using authentic_same [of a b ed] by (auto simp: best_ok_def split: option.split)

lemma nodes_ok_insert:
  assumes ns: "nodes_ok ns" and m: "length (nd_dist m) = 20" "length (nd_id m) = 20"
    and ms: "ms = take (B44_NODES_MAX - 1) ns" and pos: "pos \<le> B44_NODES_MAX - 1"
    and before: "\<forall>n \<in> set (take pos ns). \<not> memcmp (nd_dist m) (nd_dist n) < 0"
    and after: "pos < length ns \<Longrightarrow> memcmp (nd_dist m) (nd_dist (ns ! pos)) < 0"
  shows "nodes_ok (take pos ms @ m # drop pos ms)"
proof -
  have len: "\<forall>n \<in> set ms. length (nd_id n) = 20 \<and> length (nd_dist n) = 20"
    using ns in_set_takeD [of _ "B44_NODES_MAX - 1" ns] by (auto simp: nodes_ok_def ms)
  have "sorted_wrt (\<lambda>a b. memcmp (nd_dist a) (nd_dist b) \<le> 0) (take pos ms @ m # drop pos ms)"
  proof (rule sorted_insert)
    show "sorted_wrt (\<lambda>a b. memcmp (nd_dist a) (nd_dist b) \<le> 0) ms"
      using ns by (simp add: nodes_ok_def ms)
    have "take pos ms = take pos ns" using pos by (simp add: ms min_def)
    then show "\<forall>n \<in> set (take pos ms). \<not> memcmp (nd_dist m) (nd_dist n) < 0" using before by simp
    show "memcmp (nd_dist m) (nd_dist (ms ! pos)) < 0" if "pos < length ms"
      using after that by (simp add: ms)
  qed (use len m in auto)
  moreover have "length (take pos ms @ m # drop pos ms) = length ms + 1" by simp
  moreover have "length ms + 1 \<le> B44_NODES_MAX" by (simp add: ms B44_NODES_MAX_def)
  moreover have "set (take pos ms @ m # drop pos ms) = insert m (set ms)"
    by (metis append_take_drop_id list.simps(15) set_append Un_insert_right)
  ultimately show ?thesis using len m unfolding nodes_ok_def by simp
qed

lemma node_insert_ok:
  assumes ok: "op_ok ed op" and lookup: "op_phase op = B44_PHASE_LOOKUP" and nid: "pred_option (\<lambda>i. length i = 20) nid"
  shows "op_ok ed (node_insert op nid sa pinned) \<and> same_op op (node_insert op nid sa pinned) \<and>
    op_phase (node_insert op nid sa pinned) = B44_PHASE_LOOKUP"
proof (rule node_insert_cases [where op = op and nid = nid and sa = sa and pinned = pinned])
  assume "node_insert op nid sa pinned = op"
  then show ?thesis using ok lookup by simp
next
  fix d pos ms
  assume inserted:
    "node_insert op nid sa pinned = op\<lparr>op_nodes := take pos ms @ node_new nid d sa # drop pos ms,
       op_reqs := map (map_option (\<lambda>r. if pos \<le> rq_node r then r\<lparr>rq_node := rq_node r + 1\<rparr> else r)) (op_reqs op)\<rparr>"
    "length (op_target op) = 20 \<Longrightarrow> pred_option (\<lambda>i. length i = 20) nid \<Longrightarrow> length d = 20"
    "length ms < B44_NODES_MAX" "pos \<le> B44_NODES_MAX - 1" "pos \<le> length (op_nodes op)"
    "ms = take (B44_NODES_MAX - 1) (op_nodes op)"
    "length (op_nodes op) < B44_NODES_MAX \<or> \<not> in_flight (nd_state (op_nodes op ! (B44_NODES_MAX - 1)))"
    "\<forall>n \<in> set (take pos (op_nodes op)). \<not> memcmp d (nd_dist n) < 0"
    "pos < length (op_nodes op) \<Longrightarrow> memcmp d (nd_dist (op_nodes op ! pos)) < 0"
  let ?m = "node_new nid d sa"
  let ?op = "node_insert op nid sa pinned"
  note parts = op_ok_parts [OF ok]
  have d: "length d = 20" using inserted(2) parts(1) nid by blast
  have nodes: "nodes_ok (take pos ms @ ?m # drop pos ms)"
    using nodes_ok_insert [OF parts(2) _ _ inserted(6,4), of ?m] inserted(8,9) d nid by (simp add: node_new_id)
  have pre: "ms = op_nodes op \<or> op_nodes op \<noteq> [] \<and> ms = butlast (op_nodes op) \<and> \<not> in_flight (nd_state (last (op_nodes op)))"
  proof (cases "length (op_nodes op) < B44_NODES_MAX")
    case True then show ?thesis using inserted(6) by simp
  next
    case False
    then have "length (op_nodes op) = B44_NODES_MAX" using parts(2) by (simp add: nodes_ok_def)
    moreover from this have "op_nodes op \<noteq> []" by (auto simp: B44_NODES_MAX_def)
    ultimately show ?thesis using inserted(6,7) by (simp add: butlast_conv_take last_conv_nth)
  qed
  have "pos \<le> length ms" using inserted(4,5,6) by simp
  note reqs = reqs_ok_shift [OF parts(3) this pre, of ?m]
  have none: "filter (\<lambda>n. nd_state n = B44_NODE_STORED) (op_nodes op) = []"
    using parts(4) lookup by (auto simp: stored_ok_def)
  have "filter (\<lambda>n. nd_state n = B44_NODE_STORED) ms = []"
    using none in_set_takeD [of _ "B44_NODES_MAX - 1" "op_nodes op"] by (auto simp: inserted(6) filter_empty_conv)
  then have stored: "stored_ok B44_PHASE_LOOKUP (op_stored op) (take pos ms @ ?m # drop pos ms)"
    using none parts(4) lookup filter_insert [of "\<lambda>n. nd_state n = B44_NODE_STORED" ?m pos ms]
    by (simp add: stored_ok_def)
  have same: "same_op op ?op" by (simp add: inserted(1) same_op_def)
  have "best_ok ed ?op" using parts(5) best_ok_same [OF same] by (simp add: inserted(1))
  then show ?thesis
    using same nodes reqs stored parts(1) lookup by (simp add: op_ok_def inserted(1))
qed

lemma lookup_ok_foldl:
  assumes "\<And>op x. x \<in> set xs \<Longrightarrow> op_ok ed op \<Longrightarrow> op_phase op = B44_PHASE_LOOKUP \<Longrightarrow>
      op_ok ed (f op x) \<and> same_op op (f op x) \<and> op_phase (f op x) = B44_PHASE_LOOKUP"
    and "op_ok ed op" "op_phase op = B44_PHASE_LOOKUP"
  shows "op_ok ed (foldl f op xs) \<and> same_op op (foldl f op xs) \<and> op_phase (foldl f op xs) = B44_PHASE_LOOKUP"
  using assms
proof (induction xs arbitrary: op)
  case (Cons x xs)
  have "op_ok ed (f op x) \<and> same_op op (f op x) \<and> op_phase (f op x) = B44_PHASE_LOOKUP"
    using Cons.prems by simp
  moreover from this have "op_ok ed (foldl f (f op x) xs) \<and> same_op (f op x) (foldl f (f op x) xs) \<and>
      op_phase (foldl f (f op x) xs) = B44_PHASE_LOOKUP"
    using Cons.prems(1) by (intro Cons.IH) auto
  ultimately show ?case using same_op_trans by auto
qed simp

lemma nodes_compact_add_step:
  assumes "\<not> length data < (if af = Fam_inet then 26 else 38)"
  shows "\<exists>c' nid sa. length nid = 20 \<and> nodes_compact_add c op data af cached now =
    nodes_compact_add c' (node_insert op (Some nid) sa False) (drop (if af = Fam_inet then 26 else 38) data) af (cached + 1) now"
proof -
  let ?p = "take (if af = Fam_inet then 26 else 38) data"
  have "length (take 20 ?p) = 20" using assms by (simp split: if_splits)
  moreover have "\<exists>c' sa. nodes_compact_add c op data af cached now =
      nodes_compact_add c' (node_insert op (Some (take 20 ?p)) sa False)
        (drop (if af = Fam_inet then 26 else 38) data) af (cached + 1) now"
    unfolding nodes_compact_add.simps [of c op data] Let_def if_not_P [OF assms] by blast
  ultimately show ?thesis by blast
qed

lemma nodes_compact_add_ok:
  "op_ok ed op \<Longrightarrow> op_phase op = B44_PHASE_LOOKUP \<Longrightarrow>
   op_ok ed (snd (nodes_compact_add c op data af cached now)) \<and>
   same_op op (snd (nodes_compact_add c op data af cached now)) \<and>
   op_phase (snd (nodes_compact_add c op data af cached now)) = B44_PHASE_LOOKUP"
proof (induction "length data" arbitrary: c op data cached rule: less_induct)
  case less
  show ?case
  proof (cases "length data < (if af = Fam_inet then 26 else 38)")
    case True
    then show ?thesis using less.prems by (simp add: nodes_compact_add.simps)
  next
    case False
    from nodes_compact_add_step [OF False, of c op cached now] obtain c' nid sa
      where nid: "length nid = 20" and eq: "nodes_compact_add c op data af cached now =
        nodes_compact_add c' (node_insert op (Some nid) sa False) (drop (if af = Fam_inet then 26 else 38) data) af (cached + 1) now"
      by blast
    have ins: "op_ok ed (node_insert op (Some nid) sa False)" "same_op op (node_insert op (Some nid) sa False)"
      "op_phase (node_insert op (Some nid) sa False) = B44_PHASE_LOOKUP"
      using node_insert_ok [OF less.prems, of "Some nid"] nid by simp_all
    have "length (drop (if af = Fam_inet then 26 else 38) data) < length data" using False by (simp split: if_splits)
    from less.hyps [OF this ins(1,3)] show ?thesis unfolding eq using same_op_trans [OF ins(2)] by blast
  qed
qed

section \<open>Sending and timing out\<close>

text \<open>How many requests are under way.\<close>

definition busy :: "b44_op \<Rightarrow> nat" where
  "busy op = length (filter (\<lambda>r. r \<noteq> None) (op_reqs op))"

lemma stored_ok_update:
  assumes "stored_ok ph st ns" "k < length ns" "nd_state (ns ! k) \<noteq> B44_NODE_STORED"
  shows "nd_state m \<noteq> B44_NODE_STORED \<Longrightarrow> stored_ok ph st (ns[k := m])"
    and "nd_state m = B44_NODE_STORED \<Longrightarrow> ph = B44_PHASE_STORE \<Longrightarrow> stored_ok ph (st + 1) (ns[k := m])"
proof -
  have ns: "ns = take k ns @ ns ! k # drop (Suc k) ns" using assms(2) by (rule id_take_nth_drop)
  have up: "ns[k := m] = take k ns @ m # drop (Suc k) ns" using assms(2) by (rule upd_conv_take_nth_drop)
  have "length (filter (\<lambda>n. nd_state n = B44_NODE_STORED) ns) =
      length (filter (\<lambda>n. nd_state n = B44_NODE_STORED) (take k ns @ drop (Suc k) ns))"
    by (subst ns) (simp add: assms(3))
  then show "nd_state m \<noteq> B44_NODE_STORED \<Longrightarrow> stored_ok ph st (ns[k := m])"
    "nd_state m = B44_NODE_STORED \<Longrightarrow> ph = B44_PHASE_STORE \<Longrightarrow> stored_ok ph (st + 1) (ns[k := m])"
    using assms(1) by (auto simp: stored_ok_def up)
qed

text \<open>A request ends and its node takes a state other than waiting.\<close>

lemma req_end_ok:
  assumes ok: "op_ok ed op" and i: "i < length (op_reqs op)" "op_reqs op ! i = Some r"
    and s: "s \<noteq> B44_NODE_STORED"
  shows "op_ok ed (req_free (op_state op (rq_node r) s) i)"
proof -
  note parts = op_ok_parts [OF ok]
  let ?m = "(op_nodes op ! rq_node r)\<lparr>nd_state := s\<rparr>"
  let ?op = "req_free (op_state op (rq_node r) s) i"
  have same: "same_op op ?op" "op_best op = op_best ?op" by (simp_all add: same_op_def req_free_def op_state_def)
  note node = reqs_okD [OF parts(3) i]
  have "nodes_ok ((op_nodes op)[rq_node r := ?m])" using parts(2) nodes_ok_update [of ?m] by simp
  moreover have "stored_ok (op_phase op) (op_stored op) ((op_nodes op)[rq_node r := ?m])"
    using stored_ok_update(1) [OF parts(4) node(1)] node(2) s by simp
  ultimately show ?thesis
    using parts(1,5) reqs_ok_free [OF parts(3) i, of ?m] best_ok_same [OF same]
    by (simp add: op_ok_def req_free_def op_state_def)
qed

text \<open>A request that has been answered, or has failed.\<close>

lemma req_end_stored_ok:
  assumes ok: "op_ok ed op" and i: "i < length (op_reqs op)" "op_reqs op ! i = Some r"
    and s: "op_phase op = B44_PHASE_STORE"
  shows "op_ok ed ((req_free (op_state op (rq_node r) B44_NODE_STORED) i)\<lparr>op_stored := op_stored op + 1\<rparr>)"
proof -
  note parts = op_ok_parts [OF ok]
  let ?m = "(op_nodes op ! rq_node r)\<lparr>nd_state := B44_NODE_STORED\<rparr>"
  let ?op = "(req_free (op_state op (rq_node r) B44_NODE_STORED) i)\<lparr>op_stored := op_stored op + 1\<rparr>"
  have same: "same_op op ?op" "op_best op = op_best ?op" by (simp_all add: same_op_def req_free_def op_state_def)
  note node = reqs_okD [OF parts(3) i]
  have "nodes_ok ((op_nodes op)[rq_node r := ?m])" using parts(2) nodes_ok_update [of ?m] by simp
  moreover have "stored_ok (op_phase op) (op_stored op + 1) ((op_nodes op)[rq_node r := ?m])"
    using stored_ok_update(2) [OF parts(4) node(1)] node(2) s by simp
  ultimately show ?thesis
    using parts(1,5) reqs_ok_free [OF parts(3) i, of ?m] best_ok_same [OF same]
    by (simp add: op_ok_def req_free_def op_state_def)
qed

lemma op_state_same [simp]: "same_op op (op_state op k s)" "op_phase (op_state op k s) = op_phase op"
  "length (op_nodes (op_state op k s)) = length (op_nodes op)" "op_reqs (op_state op k s) = op_reqs op"
  by (simp_all add: op_state_def same_op_def)

lemma req_free_same [simp]: "same_op op (req_free op i)" "op_phase (req_free op i) = op_phase op"
  "op_nodes (req_free op i) = op_nodes op" "length (op_reqs (req_free op i)) = length (op_reqs op)"
  by (simp_all add: req_free_def same_op_def)

lemma req_expire_ok:
  assumes "op_ok ed op" "i < length (op_reqs op)"
  shows "op_ok ed (req_expire now op i) \<and> same_op op (req_expire now op i) \<and>
    op_phase (req_expire now op i) = op_phase op \<and> length (op_reqs (req_expire now op i)) = length (op_reqs op)"
proof (cases "op_reqs op ! i")
  case (Some r)
  then show ?thesis
    using req_end_ok [OF assms Some, of B44_NODE_FAILED] assms(1)
      same_op_trans [of op "op_state op (rq_node r) B44_NODE_FAILED" "req_free (op_state op (rq_node r) B44_NODE_FAILED) i"]
    by (simp add: req_expire_def)
qed (use assms in \<open>simp add: req_expire_def\<close>)

lemma req_expire_all:
  assumes "op_ok ed op" "\<forall>i \<in> set is. i < length (op_reqs op)"
  shows "op_ok ed (foldl (req_expire now) op is) \<and> same_op op (foldl (req_expire now) op is) \<and>
    op_phase (foldl (req_expire now) op is) = op_phase op"
  using assms
proof (induction "is" arbitrary: op)
  case (Cons i "is")
  have step: "op_ok ed (req_expire now op i)" "same_op op (req_expire now op i)"
    "op_phase (req_expire now op i) = op_phase op" "length (op_reqs (req_expire now op i)) = length (op_reqs op)"
    using req_expire_ok [of ed op i now] Cons.prems by auto
  have "op_ok ed (foldl (req_expire now) (req_expire now op i) is) \<and>
      same_op (req_expire now op i) (foldl (req_expire now) (req_expire now op i) is) \<and>
      op_phase (foldl (req_expire now) (req_expire now op i) is) = op_phase (req_expire now op i)"
    using Cons.prems step by (intro Cons.IH) auto
  then show ?case using step same_op_trans [OF step(2)] by simp
qed simp

text \<open>What sending does to an operation, whether or not it succeeds.\<close>

definition sent_ok :: "(byte list \<Rightarrow> byte list \<Rightarrow> byte list \<Rightarrow> bool) \<Rightarrow> b44_op \<Rightarrow> b44_op \<Rightarrow> bool" where
  "sent_ok ed op op' =
     (op_ok ed op' \<and> same_op op op' \<and> op_phase op' = op_phase op \<and> length (op_nodes op') = length (op_nodes op) \<and>
      busy op' \<le> busy op + 1)"

lemma busy_update: "length (filter P (xs[i := x])) \<le> length (filter P xs) + 1"
proof (induction xs arbitrary: i)
  case (Cons y ys)
  show ?case using Cons.IH by (cases i) (auto simp: le_SucI)
qed simp

lemma busy_less: "length (filter P (xs[i := x])) \<le> length (filter P xs)" if "\<not> P x"
  using that
proof (induction xs arbitrary: i)
  case (Cons y ys)
  show ?case using Cons by (cases i) auto
qed simp

lemma req_allocD:
  assumes "req_alloc c op k now = Some (i, tid, c', op')"
  shows "i < length (op_reqs op) \<and> op_reqs op ! i = None \<and> req_free op' i = op \<and>
    (\<exists>r. rq_node r = k \<and> op' = op\<lparr>op_reqs := (op_reqs op)[i := Some r]\<rparr>)"
proof -
  let ?r = "\<lparr>rq_node = k, rq_tid = cl_tid_seq c, rq_sent = now\<rparr>"
  have i: "find_index (\<lambda>r. r = None) (op_reqs op) = Some i" and op': "op' = op\<lparr>op_reqs := (op_reqs op)[i := Some ?r]\<rparr>"
    using assms by (auto simp: req_alloc_def split: option.splits)
  have "i < length (op_reqs op)" "op_reqs op ! i = None" using find_index_SomeD [OF i] by simp_all
  moreover from this have "req_free op' i = op"
    using list_update_id [of "op_reqs op" i] by (simp add: op' req_free_def)
  moreover have "rq_node ?r = k" by simp
  ultimately show ?thesis using op' by blast
qed

lemma req_send_ok:
  assumes ok: "op_ok ed op" and alloc: "req_alloc c op k now = Some (i, tid, c', op')"
    and k: "k < length (op_nodes op)" "\<not> in_flight (nd_state (op_nodes op ! k))" "nd_state (op_nodes op ! k) \<noteq> B44_NODE_STORED"
    and sent: "req_send snd_ok c'' op' i k (flying (op_phase op)) b = (yes, c3, op'', out)"
  shows "sent_ok ed op op''"
proof -
  note parts = op_ok_parts [OF ok]
  from req_allocD [OF alloc] obtain r where slot: "i < length (op_reqs op)" "op_reqs op ! i = None"
    and r: "rq_node r = k" and op': "op' = op\<lparr>op_reqs := (op_reqs op)[i := Some r]\<rparr>" and restored: "req_free op' i = op"
    by blast
  have freed: "sent_ok ed op (req_free op' i)" using ok restored by (simp add: sent_ok_def)
  let ?m = "(op_nodes op ! k)\<lparr>nd_state := flying (op_phase op)\<rparr>"
  let ?op = "op_state op' k (flying (op_phase op))"
  have reqs: "reqs_ok (op_phase op) ((op_nodes op)[k := ?m]) ((op_reqs op)[i := Some r])"
    using reqs_ok_alloc [OF parts(3) slot k(1,2) _ r, of ?m] by simp
  have same: "same_op op ?op" "op_best op = op_best ?op" by (simp_all add: same_op_def op' op_state_def)
  have up: "op_ok ed ?op"
    using reqs parts(1,2,5) nodes_ok_update [of ?m] stored_ok_update(1) [OF parts(4) k(1,3), of ?m] best_ok_same [OF same]
    by (simp add: op_ok_def op_state_def op')
  have busy: "busy ?op \<le> busy op + 1"
    using busy_update [of "\<lambda>r. r \<noteq> None" "op_reqs op" i "Some r"] by (simp add: busy_def op_state_def op')
  have "sent_ok ed op ?op" using up same busy by (simp add: sent_ok_def op')
  moreover have "sent_ok ed op (req_free (op_state ?op k B44_NODE_FAILED) i)"
  proof -
    have at: "i < length (op_reqs ?op)" "op_reqs ?op ! i = Some r" using slot by (simp_all add: op')
    have "same_op op (req_free (op_state ?op k B44_NODE_FAILED) i)" by (simp add: same_op_def req_free_def op_state_def op')
    moreover have "busy (req_free (op_state ?op k B44_NODE_FAILED) i) \<le> busy op + 1"
      using busy busy_less [of "\<lambda>r. r \<noteq> None" None "op_reqs ?op" i] by (simp add: busy_def req_free_def)
    ultimately show ?thesis using req_end_ok [OF up at, of B44_NODE_FAILED] r by (simp add: sent_ok_def op')
  qed
  ultimately show "sent_ok ed op op''"
    using sent freed by (auto simp: req_send_def Let_def split: if_splits)
qed

lemma get_send_ok:
  assumes ok: "op_ok ed op" "op_phase op = B44_PHASE_LOOKUP" and k: "k < length (op_nodes op)" "nd_state (op_nodes op ! k) = B44_NODE_FRESH"
    and get: "get_send snd_ok c op k now = (yes, c', op', out)"
  shows "sent_ok ed op op'"
proof (cases "req_alloc c op k now")
  case None
  then show ?thesis using get ok by (simp add: get_send_def sent_ok_def)
next
  case (Some a)
  then obtain i tid c1 op1 where a: "req_alloc c op k now = Some (i, tid, c1, op1)" by (cases a) auto
  then have "op_phase op1 = B44_PHASE_LOOKUP" using ok(2) by (auto simp: req_alloc_def split: option.splits)
  then show ?thesis
    using req_send_ok [OF ok(1) a k(1)] get k(2) ok(2) by (simp add: get_send_def a)
qed

lemma put_send_ok:
  assumes ok: "op_ok ed op" "op_phase op = B44_PHASE_STORE" and k: "k < length (op_nodes op)" "nd_state (op_nodes op ! k) = B44_NODE_REPLIED"
    and put: "put_send sign snd_ok c op k now = (yes, c', op', out)"
  shows "sent_ok ed op op'"
proof (cases "req_alloc c op k now")
  case None
  then show ?thesis using put ok by (simp add: put_send_def sent_ok_def)
next
  case (Some a)
  then obtain i tid c1 op1 where a: "req_alloc c op k now = Some (i, tid, c1, op1)" by (cases a) auto
  have freed: "sent_ok ed op (req_free op1 i)" using ok(1) req_allocD [OF a] by (simp add: sent_ok_def)
  have sent: "sent_ok ed op op2" if "req_send snd_ok c1 op1 i k B44_NODE_STORE_INFLIGHT b = (y, c2, op2, o2)" for b y c2 op2 o2
    using req_send_ok [OF ok(1) a k(1)] that k(2) ok(2) by simp
  show ?thesis
    using put freed sent by (auto simp: put_send_def a Let_def split: if_splits option.splits)
qed

end
