(* ===== verification/Bep44_Items.thy ===== *)
theory Bep44_Items
  imports Bep44_Store
begin

text \<open>
  What the storing node of \<open>Bep44_Store\<close> promises over whole runs: an engine is driven by datagrams,
  referrals, ticks of \<open>bep44_periodic\<close> and \<open>bep44_serve\<close>, in any order and with any contents. The
  store never holds an item that does not prove its own name, a live item yields only to a newer one
  of its own key or to a nearer one when the store is full, and a write token lives for at least five
  minutes.
\<close>

section \<open>Runs\<close>

datatype b44_event =
    Ev_datagram "byte list" b44_sa u64
  | Ev_referral "byte list" b44_sa u64
  | Ev_tick u64 "byte list option"
  | Ev_serve bool "byte list option" "byte list option" u64

fun b44_step :: "(byte list \<Rightarrow> byte list \<Rightarrow> byte list \<Rightarrow> bool) \<Rightarrow> bep44_engine \<Rightarrow> b44_event \<Rightarrow> bep44_engine" where
  "b44_step ed e (Ev_datagram buf sa now) = fst (snd (query_handle ed e buf sa now))"
| "b44_step ed e (Ev_referral nid sa now) = cache_add e nid sa now"
| "b44_step ed e (Ev_tick now fresh) = serve_periodic e now fresh"
| "b44_step ed e (Ev_serve enable f0 f1 now) = snd (bep44_serve e enable f0 f1 now)"

definition b44_run :: "(byte list \<Rightarrow> byte list \<Rightarrow> byte list \<Rightarrow> bool) \<Rightarrow> bep44_engine \<Rightarrow> b44_event list \<Rightarrow> bep44_engine" where
  "b44_run ed e evs = foldl (b44_step ed) e evs"

section \<open>What one operation does to the store\<close>

definition expired_store :: "u64 \<Rightarrow> b44_item option list \<Rightarrow> b44_item option list" where
  "expired_store now st = map (\<lambda>s. case s of Some it \<Rightarrow> if it_expires_ms it \<le> now then None else s | None \<Rightarrow> None) st"

lemma store_expire_store: "en_store (store_expire e now) = expired_store now (en_store e)"
  by (simp add: store_expire_def expired_store_def)

lemma store_expire_other [simp]:
  "en_myid (store_expire e now) = en_myid e" "en_secret (store_expire e now) = en_secret e"
  "en_rotate_ms (store_expire e now) = en_rotate_ms e" "en_serving (store_expire e now) = en_serving e"
  "en_cache (store_expire e now) = en_cache e" "en_cache_next (store_expire e now) = en_cache_next e"
  "en_limit (store_expire e now) = en_limit e"
  by (simp_all add: store_expire_def)

lemma length_expired [simp]: "length (expired_store now st) = length st"
  by (simp add: expired_store_def)

lemma nth_expired: "i < length st \<Longrightarrow>
   expired_store now st ! i = Some it \<longleftrightarrow> st ! i = Some it \<and> now < it_expires_ms it"
  by (auto simp: expired_store_def split: option.splits)

lemma set_expired: "Some it \<in> set (expired_store now st) \<longleftrightarrow> Some it \<in> set st \<and> now < it_expires_ms it"
  by (auto simp: in_set_conv_nth nth_expired)

lemma slot_of_Some: "store_slot_of e t = Some s \<Longrightarrow>
   s < length (en_store e) \<and> (\<exists>it. en_store e ! s = Some it \<and> it_target it = t)"
  by (auto simp: store_slot_of_def dest!: find_index_SomeD split: option.splits)

lemma slot_of_None: "store_slot_of e t = None \<longleftrightarrow> (\<forall>it. Some it \<in> set (en_store e) \<longrightarrow> it_target it \<noteq> t)"
  by (auto simp: store_slot_of_def split: option.splits)

text \<open>
  What an accepted put may do, given the store after expiry: nothing, refresh the item it names,
  replace it by one of a higher number, or take a slot for a name the store does not hold.
\<close>

inductive put_step :: "bep44_engine \<Rightarrow> b44_put \<Rightarrow> u64 \<Rightarrow> b44_item option list \<Rightarrow> bool" for e p now where
  put_nothing: "put_step e p now (en_store e)"
| put_refresh: "\<lbrakk>s < length (en_store e); en_store e ! s = Some it; it_target it = pu_target p\<rbrakk>
    \<Longrightarrow> put_step e p now ((en_store e)[s := Some (it\<lparr>it_expires_ms := now + B44_ITEM_TTL_MS\<rparr>)])"
| put_replace: "\<lbrakk>s < length (en_store e); en_store e ! s = Some it; it_target it = pu_target p;
      it_mutable it; pu_mutable p; it_seq it < pu_seq p; pu_cas p = None \<or> pu_cas p = Some (it_seq it)\<rbrakk>
    \<Longrightarrow> put_step e p now ((en_store e)[s := Some (put_item p now)])"
| put_fresh: "\<lbrakk>store_slot_of e (pu_target p) = None; store_free_slot e (pu_target p) = Some s\<rbrakk>
    \<Longrightarrow> put_step e p now ((en_store e)[s := Some (put_item p now)])"

lemma handle_put_step:
  assumes "put_fields ed e q = Inr p"
  shows "put_step (store_expire e now) p now (en_store (fst (handle_put ed e q now)))"
proof (cases "store_slot_of (store_expire e now) (pu_target p)")
  case None
  then show ?thesis
    by (cases "store_free_slot (store_expire e now) (pu_target p)")
      (auto simp: handle_put_def assms Let_def intro: put_nothing put_fresh)
next
  case (Some s)
  from slot_of_Some [OF this] obtain it
    where s: "s < length (en_store (store_expire e now))" "en_store (store_expire e now) ! s = Some it"
      "it_target it = pu_target p" by blast
  note steps = put_nothing put_refresh [OF s] put_replace [OF s]
  show ?thesis
    by (cases "pu_cas p") (simp_all add: handle_put_def assms Let_def Some s(2) steps)
qed

lemma handle_put_refused: "put_fields ed e q = Inl r \<Longrightarrow> fst (handle_put ed e q now) = e"
  by (cases r) (simp add: handle_put_def)

lemma handle_put_other:
  "en_myid (fst (handle_put ed e q now)) = en_myid e" "en_secret (fst (handle_put ed e q now)) = en_secret e"
  "en_rotate_ms (fst (handle_put ed e q now)) = en_rotate_ms e"
  "en_serving (fst (handle_put ed e q now)) = en_serving e"
  "en_cache (fst (handle_put ed e q now)) = en_cache e"
  "en_cache_next (fst (handle_put ed e q now)) = en_cache_next e"
  by (auto simp: handle_put_def Let_def split: sum.splits option.splits)

lemma handle_get_engine:
  "fst (handle_get e q now) = e \<or> fst (handle_get e q now) = store_expire e now"
  by (auto simp: handle_get_def Let_def split: arg.splits)

text \<open>A datagram does to the engine what a get or a put does, past the limiter, or nothing more.\<close>

definition limited :: "bep44_engine \<Rightarrow> b44_sa \<Rightarrow> u64 \<Rightarrow> bep44_engine" where
  "limited e sa now = e\<lparr>en_limit := snd (ban_ok (en_limit e) sa now)\<rparr>"

lemma limited_other [simp]:
  "en_myid (limited e sa now) = en_myid e" "en_secret (limited e sa now) = en_secret e"
  "en_rotate_ms (limited e sa now) = en_rotate_ms e" "en_serving (limited e sa now) = en_serving e"
  "en_cache (limited e sa now) = en_cache e" "en_cache_next (limited e sa now) = en_cache_next e"
  "en_store (limited e sa now) = en_store e"
  by (simp_all add: limited_def)

lemma want_parse_from [simp]: "qy_from (want_parse q) = qy_from q"
  by (simp add: want_parse_def split: option.splits)

lemma query_handle_engine:
  fixes ed e buf sa now
  defines "e' \<equiv> fst (snd (query_handle ed e buf sa now))"
  shows "e' = e \<or> e' = limited e sa now \<or>
    (\<exists>q. e' = fst (handle_get (limited e sa now) q now) \<and> qy_from q = sa) \<or>
    (\<exists>q. e' = fst (handle_put ed (limited e sa now) q now) \<and> qy_from q = sa \<and>
       benc_dict_find buf (bytes ''a'') = Some (qy_args q))"
proof (cases "benc_dict_find buf (bytes ''a'')")
  case None
  then show ?thesis
    by (simp add: e'_def query_handle_def limited_def Let_def split: prod.splits option.splits)
next
  case (Some args)
  obtain ok lm where lm: "ban_ok (en_limit e) sa now = (ok, lm)" by fastforce
  show ?thesis
  proof (cases "Option.bind (benc_dict_find buf (bytes ''t'')) benc_str_get")
    case None
    then show ?thesis
      by (simp add: e'_def query_handle_def limited_def Let_def lm)
  next
    case (Some tid)
    let ?q = "\<lparr>qy_tid = tid, qy_from = sa, qy_args = args, qy_want4 = False, qy_want6 = False\<rparr>"
    let ?e = "limited e sa now"
    have "e' \<in> {e, ?e, fst (handle_get ?e (want_parse ?q) now), fst (handle_put ed ?e ?q now)}"
      using Some \<open>benc_dict_find buf (bytes ''a'') = Some args\<close>
      by (simp add: e'_def query_handle_def limited_def Let_def lm split: arg.split)
    then show ?thesis using \<open>benc_dict_find buf (bytes ''a'') = Some args\<close>
      by (auto intro: exI [of _ "want_parse ?q"] exI [of _ ?q])
  qed
qed

section \<open>The store is always sound\<close>

lemma store_ok_iff:
  "store_ok ed e \<longleftrightarrow> (\<forall>it. Some it \<in> set (en_store e) \<longrightarrow> item_auth ed it) \<and> one_per_name (en_store e)"
  by (simp add: store_ok_def)

lemma one_per_nameD: "one_per_name st \<Longrightarrow> i < length st \<Longrightarrow> j < length st \<Longrightarrow> st ! i = Some a \<Longrightarrow>
   st ! j = Some b \<Longrightarrow> it_target a = it_target b \<Longrightarrow> i = j"
  by (auto simp: one_per_name_def)

lemma one_per_name_expired: "one_per_name st \<Longrightarrow> one_per_name (expired_store now st)"
  by (auto simp: one_per_name_def nth_expired)

lemma one_per_name_update:
  assumes "one_per_name st" "\<And>i it. \<lbrakk>i < length st; i \<noteq> s; st ! i = Some it\<rbrakk> \<Longrightarrow> it_target it \<noteq> it_target x"
  shows "one_per_name (st[s := Some x])"
  unfolding one_per_name_def
proof (intro allI impI)
  fix i j a b
  assume *: "i < length (st[s := Some x])" "j < length (st[s := Some x])" "st[s := Some x] ! i = Some a"
    "st[s := Some x] ! j = Some b" "it_target a = it_target b"
  consider "i = s" "j = s" | "i = s" "j \<noteq> s" | "i \<noteq> s" "j = s" | "i \<noteq> s" "j \<noteq> s" by blast
  then show "i = j"
  proof cases
    case 2 then show ?thesis using * assms(2) [of j b] by simp
  next
    case 3 then show ?thesis using * assms(2) [of i a] by simp
  next
    case 4 then show ?thesis using * one_per_nameD [OF assms(1), of i j a b] by simp
  qed simp
qed

lemma ok_names:
  assumes "store_ok ed e" "i < length (en_store e)" "i \<noteq> s" "en_store e ! i = Some a" "s < length (en_store e)"
    "en_store e ! s = Some b"
  shows "it_target a \<noteq> it_target b"
  using assms one_per_nameD [of "en_store e" i s a b] by (auto simp: store_ok_iff)

lemma store_ok_update:
  assumes ok: "store_ok ed e" and x: "item_auth ed x"
    and other: "\<And>i it. \<lbrakk>i < length (en_store e); i \<noteq> s; en_store e ! i = Some it\<rbrakk> \<Longrightarrow> it_target it \<noteq> it_target x"
  shows "store_ok ed (e\<lparr>en_store := (en_store e)[s := Some x]\<rparr>)"
proof -
  have "one_per_name ((en_store e)[s := Some x])"
    using ok by (intro one_per_name_update other) (simp_all add: store_ok_iff)
  moreover have "item_auth ed it" if "Some it \<in> set ((en_store e)[s := Some x])" for it
    using set_update_subset_insert [of "en_store e" s "Some x"] that ok x by (auto simp: store_ok_iff)
  ultimately show ?thesis by (simp add: store_ok_iff)
qed

lemma store_ok_expire: "store_ok ed e \<Longrightarrow> store_ok ed (store_expire e now)"
  by (simp add: store_ok_iff store_expire_store set_expired one_per_name_expired)

lemma item_auth_expires [simp]: "item_auth ed (it\<lparr>it_expires_ms := t\<rparr>) = item_auth ed it"
  by (simp add: item_auth_def)

lemma put_step_ok:
  assumes step: "put_step e p now st" and ok: "store_ok ed e"
    and p: "item_auth ed (put_item p now)" "it_target (put_item p now) = pu_target p"
  shows "store_ok ed (e\<lparr>en_store := st\<rparr>)"
  using step
proof cases
  case put_nothing
  then show ?thesis using ok by simp
next
  case (put_refresh s it)
  then have "item_auth ed it" using ok by (auto simp: store_ok_iff in_set_conv_nth)
  moreover have "it_target it' \<noteq> it_target it" if "i < length (en_store e)" "i \<noteq> s" "en_store e ! i = Some it'"
    for i it' by (rule ok_names [OF ok that put_refresh(2,3)])
  ultimately show ?thesis unfolding put_refresh(1) by (intro store_ok_update [OF ok]) simp_all
next
  case (put_replace s it)
  then have "it_target it' \<noteq> pu_target p" if "i < length (en_store e)" "i \<noteq> s" "en_store e ! i = Some it'"
    for i it' using ok_names [OF ok that put_replace(2,3)] by simp
  then show ?thesis unfolding put_replace(1) by (intro store_ok_update [OF ok p(1)]) (simp add: p(2))
next
  case (put_fresh s)
  then have "i < length (en_store e) \<Longrightarrow> en_store e ! i = Some it \<Longrightarrow> it_target it \<noteq> pu_target p" for i it
    by (auto simp: slot_of_None in_set_conv_nth)
  then show ?thesis unfolding put_fresh(1) by (intro store_ok_update [OF ok p(1)]) (simp add: p(2))
qed

lemma store_ok_cong: "en_store e' = en_store e \<Longrightarrow> store_ok ed e' = store_ok ed e"
  by (simp add: store_ok_iff)

lemma store_ok_put:
  assumes "store_ok ed e"
  shows "store_ok ed (fst (handle_put ed e q now))"
proof (cases "put_fields ed e q")
  case (Inl r)
  then show ?thesis using assms by (simp add: handle_put_refused)
next
  case (Inr p)
  from put_step_ok [OF handle_put_step [OF this] store_ok_expire [OF assms]] put_fields_ok [OF this]
  show ?thesis by (simp cong: store_ok_cong add: store_ok_iff)
qed

lemma store_ok_step:
  assumes "store_ok ed e"
  shows "store_ok ed (b44_step ed e ev)"
proof (cases ev)
  case (Ev_datagram buf sa now)
  have "store_ok ed (limited e sa now)" using assms by (simp add: store_ok_iff)
  then show ?thesis
    using query_handle_engine [of ed e buf sa now] handle_get_engine [of "limited e sa now" _ now] assms
    by (auto simp: Ev_datagram store_ok_put) (metis store_ok_expire)
next
  case (Ev_referral nid sa now)
  have "en_store (cache_add e nid sa now) = en_store e"
    by (simp add: cache_add_def Let_def split: option.splits)
  then show ?thesis using assms by (simp add: Ev_referral store_ok_iff)
next
  case (Ev_tick now fresh)
  have "en_store (token_rotate e now fresh) = en_store e" by (simp add: token_rotate_def split: option.splits)
  then have "store_ok ed (token_rotate e now fresh)" using assms by (simp add: store_ok_iff)
  then show ?thesis using assms by (simp add: Ev_tick serve_periodic_def store_ok_expire)
next
  case (Ev_serve enable f0 f1 now)
  have "en_store (snd (bep44_serve e enable f0 f1 now)) = en_store e"
    by (simp add: bep44_serve_def Let_def split: option.splits)
  then show ?thesis using assms by (simp add: Ev_serve store_ok_iff)
qed

lemma store_ok_create: "store_ok ed (bep44_create myid s4 s6 mem)"
  by (auto simp: store_ok_iff bep44_create_def one_per_name_def)

lemma store_ok_run: "store_ok ed e \<Longrightarrow> store_ok ed (b44_run ed e evs)"
  by (induction evs arbitrary: e) (simp_all add: b44_run_def store_ok_step)

text \<open>C16. 
  Whatever datagrams, referrals and ticks a node receives, every item it holds proves its own name:
  an immutable value hashes to its target; a mutable one carries a signature by the key whose hash,
  with the salt, is its target, over exactly the salt, number and bytes served; no name is held
  twice.
\<close>

theorem store_authentic: "store_ok ed (b44_run ed (bep44_create myid s4 s6 mem) evs)"
  by (rule store_ok_run [OF store_ok_create])

section \<open>A live item yields only to a newer or a nearer one\<close>

definition names_ok :: "b44_item option list \<Rightarrow> bool" where
  "names_ok st = (\<forall>it. Some it \<in> set st \<longrightarrow> length (it_target it) = 20)"

lemma item_auth_name: "item_auth ed it \<Longrightarrow> length (it_target it) = 20"
  by (auto simp: item_auth_def split: if_splits)

lemma store_ok_names: "store_ok ed e \<Longrightarrow> names_ok (en_store e)"
  by (auto simp: names_ok_def store_ok_iff item_auth_name)

lemma length_dist [simp]: "length (dist_calc a b) = min (length a) (length b)"
  by (simp add: dist_calc_def)

text \<open>The distances met so far, and the furthest of them.\<close>

definition furthest :: "byte list \<Rightarrow> b44_item list \<Rightarrow> byte list \<Rightarrow> bool" where
  "furthest myid its d = (\<forall>it \<in> set its. length (dist_calc (it_target it) myid) = length d \<and>
     memcmp (dist_calc (it_target it) myid) d \<le> 0)"

lemma store_victim_spec:
  assumes "length myid = 20" "names_ok ss" "None \<notin> set ss"
    "case v of None \<Rightarrow> seen = [] | Some (j, d) \<Rightarrow> length d = 20 \<and> furthest myid seen d"
    "store_victim myid ss i v = Some (j, d)"
  shows "furthest myid (seen @ map the ss) d \<and>
    (v = Some (j, d) \<or> (\<exists>k < length ss. j = i + k \<and> d = dist_calc (it_target (the (ss ! k))) myid))"
  using assms(2-)
proof (induction ss arbitrary: i v seen)
  case Nil
  then show ?case by simp
next
  case (Cons s ss)
  from Cons.prems obtain it where it: "s = Some it" by (cases s) auto
  let ?d = "dist_calc (it_target it) myid"
  define v' where "v' = (case v of None \<Rightarrow> Some (i, ?d) | Some (_, vd) \<Rightarrow> if 0 < memcmp ?d vd then Some (i, ?d) else v)"
  have len: "length ?d = 20" using Cons.prems(1) it assms(1) by (simp add: names_ok_def)
  have next_v: "case v' of None \<Rightarrow> seen @ [it] = [] | Some (j, d) \<Rightarrow> length d = 20 \<and> furthest myid (seen @ [it]) d"
  proof (cases v)
    case None
    then show ?thesis using Cons.prems(3) len by (simp add: v'_def furthest_def)
  next
    case (Some p)
    obtain j0 d0 where p: "p = (j0, d0)" by fastforce
    with Some Cons.prems(3) have d0: "length d0 = 20" "furthest myid seen d0" by simp_all
    show ?thesis
    proof (cases "0 < memcmp ?d d0")
      case True
      have "length (dist_calc (it_target x) myid) = 20 \<and> memcmp (dist_calc (it_target x) myid) ?d \<le> 0"
        if "x \<in> set seen" for x
      proof -
        have "length (dist_calc (it_target x) myid) = 20" "memcmp (dist_calc (it_target x) myid) d0 \<le> 0"
          using d0 that by (auto simp: furthest_def)
        moreover have "memcmp d0 ?d \<le> 0" using True memcmp_swap [of d0 ?d] by simp
        ultimately show ?thesis using memcmp_trans [of _ d0 ?d] d0(1) len by simp
      qed
      then show ?thesis using True Some p len by (simp add: v'_def furthest_def)
    next
      case False
      then show ?thesis using Some p d0 len by (simp add: v'_def furthest_def)
    qed
  qed
  have rest: "store_victim myid ss (i + 1) v' = Some (j, d)"
    using Cons.prems(4) by (simp add: it v'_def Let_def split_def)
  have "names_ok ss" "None \<notin> set ss" using Cons.prems(1,2) by (auto simp: names_ok_def)
  from Cons.IH [OF this next_v rest]
  have IH: "furthest myid (seen @ it # map the ss) d"
    "v' = Some (j, d) \<or> (\<exists>k < length ss. j = i + 1 + k \<and> d = dist_calc (it_target (the (ss ! k))) myid)"
    by simp_all
  have "v' = Some (j, d) \<Longrightarrow> v = Some (j, d) \<or> j = i \<and> d = ?d"
    by (auto simp: v'_def split: option.splits prod.splits if_splits)
  with IH show ?case by (auto simp: it intro: exI [of _ 0] exI [of _ "Suc _"])
qed


text \<open>
  The slot a new name gets is free, or the store is full and the slot's item is the furthest of all
  from the node's own id and further than the new name.
\<close>

lemma free_slot_spec:
  assumes myid: "length (en_myid e) = 20" and names: "names_ok (en_store e)"
    and slot: "store_free_slot e t = Some s"
  shows "s < length (en_store e) \<and>
    (en_store e ! s = None \<or>
     None \<notin> set (en_store e) \<and>
     (\<forall>it \<in> set (map the (en_store e)). memcmp (dist_calc (it_target it) (en_myid e))
        (dist_calc (it_target (the (en_store e ! s))) (en_myid e)) \<le> 0) \<and>
     memcmp (dist_calc t (en_myid e)) (dist_calc (it_target (the (en_store e ! s))) (en_myid e)) < 0)"
proof (cases "find_index (\<lambda>s. s = None) (en_store e)")
  case (Some i)
  then show ?thesis using slot by (auto simp: store_free_slot_def dest: find_index_SomeD)
next
  case None
  then have full: "None \<notin> set (en_store e)" by auto
  obtain d where v: "store_victim (en_myid e) (en_store e) 0 None = Some (s, d)"
    and near: "memcmp (dist_calc t (en_myid e)) d < 0"
    using slot None by (auto simp: store_free_slot_def split: option.splits if_splits)
  from store_victim_spec [OF myid names full _ v, of "[]"]
  have "furthest (en_myid e) (map the (en_store e)) d"
    "s < length (en_store e)" "d = dist_calc (it_target (the (en_store e ! s))) (en_myid e)" by auto
  then show ?thesis using full near by (auto simp: furthest_def)
qed

lemma lookup_iff:
  assumes "store_ok ed e"
  shows "lookup_item e t = Some it \<longleftrightarrow> Some it \<in> set (en_store e) \<and> it_target it = t"
proof
  assume "lookup_item e t = Some it"
  then show "Some it \<in> set (en_store e) \<and> it_target it = t"
    using slot_of_Some [of e t] by (auto simp: lookup_item_def in_set_conv_nth split: option.splits)
next
  assume *: "Some it \<in> set (en_store e) \<and> it_target it = t"
  then obtain s where s: "store_slot_of e t = Some s" using slot_of_None [of e t] by auto
  from slot_of_Some [OF this] obtain it' where "s < length (en_store e)" "en_store e ! s = Some it'" "it_target it' = t"
    by blast
  moreover obtain i where "i < length (en_store e)" "en_store e ! i = Some it" using * by (auto simp: in_set_conv_nth)
  ultimately show "lookup_item e t = Some it"
    using s * ok_names [OF assms, of i s it it'] by (cases "i = s") (auto simp: lookup_item_def)
qed

text \<open>What can become of a live item.\<close>

definition same_item :: "b44_item \<Rightarrow> b44_item \<Rightarrow> bool" where
  "same_item a b = (a\<lparr>it_expires_ms := 0\<rparr> = b\<lparr>it_expires_ms := 0\<rparr>)"

definition evicted :: "bep44_engine \<Rightarrow> b44_item \<Rightarrow> bep44_engine \<Rightarrow> bool" where
  "evicted e it e' =
     (let d = (\<lambda>x. dist_calc (it_target x) (en_myid e))
      in None \<notin> set (en_store e) \<and>
         (\<forall>x \<in> set (map the (en_store e)). memcmp (d x) (d it) \<le> 0) \<and>
         (\<exists>new. Some new \<in> set (en_store e') \<and> memcmp (d new) (d it) < 0 \<and>
            (\<forall>x \<in> set (map the (en_store e)). it_target x \<noteq> it_target new)))"

definition item_fate :: "bep44_engine \<Rightarrow> b44_item \<Rightarrow> bep44_engine \<Rightarrow> bool" where
  "item_fate e it e' =
     (case lookup_item e' (it_target it) of
        Some it' \<Rightarrow> same_item it it' \<or> it_mutable it \<and> it_mutable it' \<and> it_seq it < it_seq it'
      | None \<Rightarrow> evicted e it e')"

lemma put_step_fate:
  assumes step: "put_step e p now st" and ok: "store_ok ed e" and myid: "length (en_myid e) = 20"
    and p: "it_target (put_item p now) = pu_target p" "pu_mutable p \<Longrightarrow> it_mutable (put_item p now) \<and> it_seq (put_item p now) = pu_seq p"
    and ok': "store_ok ed e'" "en_store e' = st" and it: "Some it \<in> set (en_store e)"
  shows "item_fate e it e'"
proof -
  obtain i where i: "i < length (en_store e)" "en_store e ! i = Some it" using it by (auto simp: in_set_conv_nth)
  have found: "lookup_item e' (it_target x) = Some x" if "Some x \<in> set st" for x
    using lookup_iff [OF ok'(1), of "it_target x" x] that ok'(2) by simp
  have same: "item_fate e it e'" if "Some it \<in> set st"
    using found [OF that] by (simp add: item_fate_def same_item_def)
  have kept: "Some it \<in> set ((en_store e)[s := y])" if "i \<noteq> s" for s y
    using that i by (auto simp: in_set_conv_nth intro!: exI [of _ i])
  from step show ?thesis
  proof cases
    case put_nothing
    then show ?thesis using same it by simp
  next
    case (put_refresh s x)
    show ?thesis
    proof (cases "i = s")
      case True
      let ?x = "x\<lparr>it_expires_ms := now + B44_ITEM_TTL_MS\<rparr>"
      have "Some ?x \<in> set st" using put_refresh by (auto intro: set_update_memI)
      from found [OF this] show ?thesis using i True put_refresh by (simp add: item_fate_def same_item_def)
    qed (use kept put_refresh same in blast)
  next
    case (put_replace s x)
    show ?thesis
    proof (cases "i = s")
      case True
      have "Some (put_item p now) \<in> set st" using put_replace by (auto intro: set_update_memI)
      from found [OF this] show ?thesis using i True put_replace p by (simp add: item_fate_def)
    qed (use kept put_replace same in blast)
  next
    case (put_fresh s)
    from free_slot_spec [OF myid store_ok_names [OF ok] put_fresh(3)]
    have slot: "s < length (en_store e)" "en_store e ! s = None \<or> None \<notin> set (en_store e) \<and>
       (\<forall>it \<in> set (map the (en_store e)). memcmp (dist_calc (it_target it) (en_myid e))
         (dist_calc (it_target (the (en_store e ! s))) (en_myid e)) \<le> 0) \<and>
       memcmp (dist_calc (pu_target p) (en_myid e)) (dist_calc (it_target (the (en_store e ! s))) (en_myid e)) < 0"
      by blast+
    show ?thesis
    proof (cases "i = s")
      case True
      have new: "Some (put_item p now) \<in> set st" using put_fresh slot(1) by (auto intro: set_update_memI)
      have other: "x \<in> set (map the (en_store e)) \<Longrightarrow> None \<notin> set (en_store e) \<Longrightarrow> it_target x \<noteq> pu_target p" for x
        using put_fresh(2) by (auto simp: slot_of_None) (metis option.collapse)
      have "it_target x \<noteq> it_target it" if "Some x \<in> set st" for x
      proof -
        from that obtain j where j: "j < length (en_store e)" "((en_store e)[s := Some (put_item p now)]) ! j = Some x"
          by (auto simp: put_fresh(1) in_set_conv_nth)
        show ?thesis
        proof (cases "j = s")
          case False
          then show ?thesis using j i True ok_names [OF ok j(1) False, of x it] by simp
        next
          case jeq: True
          then show ?thesis using j it p put_fresh(2) by (auto simp: slot_of_None)
        qed
      qed
      then have "lookup_item e' (it_target it) = None"
        using lookup_iff [OF ok'(1), of "it_target it"] ok'(2) by (cases "lookup_item e' (it_target it)") auto
      then show ?thesis
        using slot i True new other p ok'(2)
        by (auto simp: item_fate_def evicted_def Let_def intro!: exI [of _ "put_item p now"])
    qed (use kept put_fresh same in blast)
  qed
qed


lemma limited_expire: "store_expire (limited e sa now) t = limited (store_expire e t) sa now"
  by (simp add: store_expire_def limited_def)

lemma item_fate_kept:
  assumes "store_ok ed e'" "Some it \<in> set (en_store e')"
  shows "item_fate e it e'"
  using lookup_iff [OF assms(1), of "it_target it" it] assms(2) by (simp add: item_fate_def same_item_def)

lemma item_fate_cong: "en_store d = en_store e \<Longrightarrow> en_myid d = en_myid e \<Longrightarrow> item_fate d it e' = item_fate e it e'"
  by (simp add: item_fate_def evicted_def [abs_def] split: option.split)

lemma put_item_fields: "pu_mutable p \<Longrightarrow> it_mutable (put_item p now) \<and> it_seq (put_item p now) = pu_seq p"
  by (simp add: put_item_def Let_def)

lemma handle_put_fate:
  assumes ok: "store_ok ed e" and myid: "length (en_myid e) = 20" and it: "Some it \<in> set (en_store e)" "now < it_expires_ms it"
  shows "item_fate (store_expire e now) it (fst (handle_put ed e q now))"
proof (cases "put_fields ed e q")
  case (Inl r)
  then show ?thesis using item_fate_kept [OF ok it(1)] by (simp add: handle_put_refused)
next
  case (Inr p)
  have p: "it_target (put_item p now) = pu_target p" using put_fields_ok [OF Inr] by blast
  have "Some it \<in> set (en_store (store_expire e now))" using it by (simp add: store_expire_store set_expired)
  from put_step_fate [OF handle_put_step [OF Inr] store_ok_expire [OF ok] _ p put_item_fields
      store_ok_put [OF ok] refl this]
  show ?thesis using myid by simp
qed

text \<open>
  The node's own id stays what it was.
\<close>

lemma step_myid: "en_myid (b44_step ed e ev) = en_myid e"
proof (cases ev)
  case (Ev_datagram buf sa now)
  then show ?thesis
    using query_handle_engine [of ed e buf sa now] handle_get_engine [of "limited e sa now" _ now]
    by (auto simp: handle_put_other) (metis store_expire_other(1) limited_other(1))
qed (auto simp: cache_add_def serve_periodic_def token_rotate_def bep44_serve_def Let_def split: option.splits)

lemma run_myid: "en_myid (b44_run ed e evs) = en_myid e"
  by (induction evs arbitrary: e) (simp_all add: b44_run_def step_myid)

text \<open>C17. 
  In any reachable state, an item still within its time is after any datagram the item it was, up to
  its time; or replaced by a mutable one of the same name with a strictly higher number; or evicted:
  every slot was taken, it was the furthest of all from the node's own id, and an item with a new name
  nearer to that id is now held.
\<close>

theorem stored_item_kept:
  assumes "e = b44_run ed (bep44_create myid s4 s6 mem) evs" "length myid = 20"
    "lookup_item e t = Some it" "now < it_expires_ms it"
  shows "item_fate (store_expire e now) it (fst (snd (query_handle ed e buf sa now)))"
proof -
  have ok: "store_ok ed e" using assms(1) store_ok_run [OF store_ok_create] by blast
  have myid: "length (en_myid e) = 20" using assms(1,2) by (simp add: run_myid bep44_create_def)
  have it: "Some it \<in> set (en_store e)" using lookup_iff [OF ok] assms(3) by blast
  let ?e = "limited e sa now" let ?e' = "fst (snd (query_handle ed e buf sa now))"
  have ok': "store_ok ed ?e'" using store_ok_step [OF ok, of "Ev_datagram buf sa now"] by simp
  have lim: "store_ok ed ?e" "Some it \<in> set (en_store ?e)" "length (en_myid ?e) = 20"
    using ok it myid by (simp_all add: store_ok_iff)
  from query_handle_engine [of ed e buf sa now] consider
    "en_store ?e' = en_store e" | "en_store ?e' = expired_store now (en_store e)"
    | q where "?e' = fst (handle_put ed ?e q now)"
    using handle_get_engine [of ?e _ now] by (auto simp: store_expire_store) (metis limited_other(7) store_expire_store)
  then show ?thesis
  proof cases
    case 3
    have "item_fate (store_expire ?e now) it ?e'"
      using handle_put_fate [OF lim(1,3,2) assms(4), of q] 3 by simp
    then show ?thesis by (simp add: limited_expire cong: item_fate_cong)
  qed (use item_fate_kept [OF ok'] it assms(4) in \<open>simp_all add: set_expired\<close>)
qed

section \<open>What a stored item takes\<close>

text \<open>C34. 
  In any reachable state, an item that a datagram brings into the store came with a write token for
  its name and the sender's address, made with one of the two secrets the node holds.
\<close>

theorem new_item_needs_token:
  assumes "e = b44_run ed (bep44_create myid s4 s6 mem) evs" "e' = fst (snd (query_handle ed e buf sa now))"
    "Some it \<in> set (en_store e')" "\<not> (\<exists>old. Some old \<in> set (en_store e) \<and> same_item old it)"
  shows "\<exists>args tok secret. benc_dict_find buf (bytes ''a'') = Some args \<and> benc_canonical args \<and>
    Option.bind (benc_dict_find args (bytes ''token'')) benc_str_get = Some tok \<and>
    secret \<in> {fst (en_secret e), snd (en_secret e)} \<and>
    tok = take 8 (sha1_spec (secret @ addr_bytes sa @ it_target it))"
proof -
  let ?e = "limited e sa now"
  have old: "same_item x x" for x by (simp add: same_item_def)
  have unseen: "Some it \<notin> set (en_store e)" "Some it \<notin> set (expired_store now (en_store e))"
    using assms(4) old by (auto simp: set_expired)
  obtain q where q: "e' = fst (handle_put ed ?e q now)" "qy_from q = sa" "benc_dict_find buf (bytes ''a'') = Some (qy_args q)"
    using query_handle_engine [of ed e buf sa now] handle_get_engine [of ?e _ now] unseen assms(3)
    unfolding assms(2) [symmetric] by (auto simp: store_expire_store) (metis limited_other(7) store_expire_store)
  obtain p where p: "put_fields ed ?e q = Inr p"
    using q(1) unseen assms(3) by (cases "put_fields ed ?e q") (auto simp: handle_put_refused)
  note fields = put_fields_ok [OF p, of now]
  from handle_put_step [OF p, of now] have "it = put_item p now"
  proof cases
    case put_nothing
    then show ?thesis using unseen assms(3) q(1) by (simp add: store_expire_store)
  next
    case (put_refresh s x)
    let ?x = "x\<lparr>it_expires_ms := now + B44_ITEM_TTL_MS\<rparr>"
    have "it = ?x \<or> Some it \<in> set (expired_store now (en_store e))"
      using set_update_subset_insert [of "expired_store now (en_store e)" s "Some ?x"] assms(3) put_refresh(1) q(1)
      by (auto simp: store_expire_store)
    moreover have "Some x \<in> set (expired_store now (en_store e))"
      using put_refresh(2,3) nth_mem [of s "expired_store now (en_store e)"] by (simp add: store_expire_store)
    ultimately show ?thesis using unseen assms(4) by (auto simp: set_expired same_item_def)
  next
    case (put_replace s x)
    then show ?thesis
      using set_update_subset_insert [of "expired_store now (en_store e)" s "Some (put_item p now)"] assms(3) q(1) unseen
      by (auto simp: store_expire_store)
  next
    case (put_fresh s)
    then show ?thesis
      using set_update_subset_insert [of "expired_store now (en_store e)" s "Some (put_item p now)"] assms(3) q(1) unseen
      by (auto simp: store_expire_store)
  qed
  with fields q show ?thesis
    by (auto simp: token_valid_iff token_make_spec arg_str_def split: option.splits)
qed

section \<open>How long a token lives\<close>

text \<open>What happens while a token is out: no \<open>bep44_serve\<close>, and ticks between the two times.\<close>

fun quiet_event :: "u64 \<Rightarrow> u64 \<Rightarrow> b44_event \<Rightarrow> bool" where
  "quiet_event t0 t1 (Ev_serve _ _ _ _) = False"
| "quiet_event t0 t1 (Ev_tick t _) = (t0 \<le> t \<and> t < t1)"
| "quiet_event t0 t1 _ = True"

lemma step_secret:
  assumes "\<forall>en f0 f1 t. ev \<noteq> Ev_serve en f0 f1 t" "\<forall>t f. ev \<noteq> Ev_tick t f"
  shows "en_secret (b44_step ed e ev) = en_secret e \<and> en_rotate_ms (b44_step ed e ev) = en_rotate_ms e"
proof (cases ev)
  case (Ev_datagram buf sa now)
  then show ?thesis
    using query_handle_engine [of ed e buf sa now] handle_get_engine [of "limited e sa now" _ now]
    by (auto simp: handle_put_other) (metis store_expire_other(2) limited_other(2), metis store_expire_other(3) limited_other(3))
qed (use assms in \<open>auto simp: cache_add_def Let_def split: option.splits\<close>)

text \<open>The secret is current, or previous with no rotation due before the token's time is over.\<close>

definition secret_held :: "u64 \<Rightarrow> byte list \<Rightarrow> bep44_engine \<Rightarrow> bool" where
  "secret_held t1 s e = (fst (en_secret e) = s \<or> snd (en_secret e) = s \<and> t1 \<le> en_rotate_ms e)"

lemma secret_held_step:
  assumes held: "secret_held (t0 + B44_TOKEN_ROTATE_MS) s e" and quiet: "quiet_event t0 (t0 + B44_TOKEN_ROTATE_MS) ev"
    and clock: "unat t0 + 600000 < 2 ^ 64"
  shows "secret_held (t0 + B44_TOKEN_ROTATE_MS) s (b44_step ed e ev)"
proof (cases "\<exists>t f. ev = Ev_tick t f")
  case True
  then obtain t f where ev: "ev = Ev_tick t f" "t0 \<le> t" "t < t0 + 300000"
    using quiet by (auto simp: B44_TOKEN_ROTATE_MS_def)
  have sum: "unat (t0 + 300000) = unat t0 + 300000" using clock by (simp add: unat_word_ariths)
  have "unat t < unat t0 + 300000" using ev(3) sum by (simp add: word_less_nat_alt)
  then have "unat (t + 300000) = unat t + 300000" using clock by (simp add: unat_word_ariths)
  then have "t0 + 300000 \<le> t + 300000" using sum ev(2) by (simp add: word_le_nat_alt)
  then show ?thesis
    using held ev(3) by (auto simp: ev(1) secret_held_def serve_periodic_def token_rotate_def
        B44_TOKEN_ROTATE_MS_def split: option.splits)
next
  case False
  moreover have "\<forall>en f0 f1 t. ev \<noteq> Ev_serve en f0 f1 t" using quiet by auto
  ultimately have "en_secret (b44_step ed e ev) = en_secret e" "en_rotate_ms (b44_step ed e ev) = en_rotate_ms e"
    using step_secret [of ev ed e] by auto
  then show ?thesis using held by (simp add: secret_held_def)
qed

lemma secret_held_run:
  assumes "unat t0 + 600000 < 2 ^ 64"
  shows "secret_held (t0 + B44_TOKEN_ROTATE_MS) s e \<Longrightarrow> list_all (quiet_event t0 (t0 + B44_TOKEN_ROTATE_MS)) evs \<Longrightarrow>
    secret_held (t0 + B44_TOKEN_ROTATE_MS) s (b44_run ed e evs)"
  by (induction evs arbitrary: e) (simp_all add: b44_run_def secret_held_step [OF _ _ assms])

text \<open>
  A write token handed out at a time is good for five minutes from then, whatever the node answers
  and however often its timer runs in between, for its target and from any port of its address.
\<close>

theorem token_lives_five_minutes:
  assumes "unat t0 + 600000 < 2 ^ 64" "addr_bytes sa' = addr_bytes sa"
    "\<forall>ev \<in> set evs. quiet_event t0 (t0 + 300000) ev"
  shows "token_valid (b44_run ed e evs) (token_make (fst (en_secret e)) sa target) sa' target"
proof -
  have "secret_held (t0 + B44_TOKEN_ROTATE_MS) (fst (en_secret e)) (b44_run ed e evs)"
    using assms(3) by (intro secret_held_run [OF assms(1)]) (simp_all add: secret_held_def list_all_iff B44_TOKEN_ROTATE_MS_def)
  then show ?thesis using assms(2) by (auto simp: secret_held_def token_valid_iff token_make_spec)
qed

end
