(* ===== verification/Bep44_Run.thy ===== *)
theory Bep44_Run
  imports Bep44_Client Bep44_Items
begin

text \<open>
  The steps of an operation keep the invariant of \<open>Bep44_Client\<close>, and so does everything the engine
  does; the properties of whole runs follow: what callers are given is authentic, and operations end.
\<close>

section \<open>What a step may do to the engine\<close>

definition seed_ok :: "b44_seed \<Rightarrow> bool" where
  "seed_ok p = pred_option (\<lambda>i. length i = 20) (sd_id p)"

definition held_ok :: "b44_client \<Rightarrow> bool" where
  "held_ok c =
     ((\<forall>p \<in> set (cl_pinned c). seed_ok p) \<and> (\<forall>s \<in> set (cl_retained c). pred_option seed_ok s) \<and>
      (\<forall>s \<in> set (cl_seeds c). pred_option seed_ok s))"

lemma seed_ok_tat [simp]: "seed_ok (p\<lparr>sd_tat_ms := t\<rparr>) = seed_ok p"
  by (simp add: seed_ok_def)

definition upkeep :: "b44_client \<Rightarrow> b44_client \<Rightarrow> bool" where
  "upkeep c c' = (cl_ops c' = cl_ops c \<and> (held_ok c \<longrightarrow> held_ok c') \<and> en_store (cl_engine c') = en_store (cl_engine c) \<and>
     en_myid (cl_engine c') = en_myid (cl_engine c))"

lemma upkeep_refl [simp]: "upkeep c c"
  by (simp add: upkeep_def)

lemma upkeep_trans [trans]: "upkeep a b \<Longrightarrow> upkeep b c \<Longrightarrow> upkeep a c"
  by (simp add: upkeep_def)

lemma all_update: "\<forall>x \<in> set xs. P x \<Longrightarrow> P y \<Longrightarrow> \<forall>x \<in> set (xs[i := y]). P x"
  using set_update_subset_insert [of xs i y] by blast

lemma bucket_set_upkeep:
  assumes "\<And>i. b = In_pinned i \<Longrightarrow> i < length (cl_pinned c)" "\<And>i. b = In_retained i \<Longrightarrow> i < length (cl_retained c)"
  shows "upkeep c (bucket_set c b t)"
proof (cases b)
  case (In_pinned i)
  have "\<forall>p \<in> set ((cl_pinned c)[i := (cl_pinned c ! i)\<lparr>sd_tat_ms := t\<rparr>]). seed_ok p" if "\<forall>p \<in> set (cl_pinned c). seed_ok p"
    by (rule all_update [OF that]) (use that assms(1) [OF In_pinned] in simp)
  then show ?thesis by (simp add: upkeep_def In_pinned held_ok_def)
next
  case (In_retained i)
  let ?s = "map_option (\<lambda>r. r\<lparr>sd_tat_ms := t\<rparr>) (cl_retained c ! i)"
  have "\<forall>s \<in> set ((cl_retained c)[i := ?s]). pred_option seed_ok s" if ok: "\<forall>s \<in> set (cl_retained c). pred_option seed_ok s"
  proof (rule all_update [OF ok])
    have "pred_option seed_ok (cl_retained c ! i)" using ok assms(2) [OF In_retained] by simp
    then show "pred_option seed_ok ?s" by (cases "cl_retained c ! i") simp_all
  qed
  then show ?thesis by (simp add: upkeep_def In_retained held_ok_def)
qed

lemma budget_upkeep: "upkeep c (snd (node_budget_ok c sa now))"
proof (cases "seed_bucket c sa")
  case (Some b)
  then have "upkeep c (bucket_set c b t)" for t
    by (intro bucket_set_upkeep) (auto simp: seed_bucket_def split: option.splits dest!: find_index_SomeD)
  then show ?thesis by (simp add: node_budget_ok_def Some split_def Let_def)
qed (simp add: node_budget_ok_def)

lemma retain_add_upkeep: "pred_option (\<lambda>i. length i = 20) nid \<Longrightarrow> upkeep c (retain_add c nid sa)"
  using all_update [of "cl_retained c" "pred_option seed_ok" "Some (seed_new nid sa 0)" "cl_retain_next c"]
  by (simp add: retain_add_def upkeep_def held_ok_def seed_new_def seed_ok_def)

lemma retain_loop_upkeep: "\<forall>n \<in> set ns. length (nd_id n) = 20 \<Longrightarrow> upkeep c (retain_loop c ns k4 k6)"
proof (induction ns arbitrary: c k4 k6)
  case (Cons n ns)
  let ?c = "retain_add c (if id_nonzero (nd_id n) then Some (nd_id n) else None) (nd_sa n)"
  let ?v6 = "sa_family (nd_sa n) = Fam_inet6"
  have c: "upkeep c ?c" using Cons.prems by (intro retain_add_upkeep) simp
  have rest: "upkeep d (retain_loop d ns a b)" for d a b using Cons by simp
  have all: "upkeep c (if P then c else if Q then retain_loop c ns k4 k6
      else if R then retain_loop c ns k4 k6 else retain_loop ?c ns a b)" for P Q R a b
    using rest upkeep_trans [OF c rest] by (cases P; cases Q; cases R) (simp_all only: if_True if_False upkeep_refl)
  show ?case unfolding retain_loop.simps Let_def by (rule all)
qed simp

lemma send_upkeep:
  "get_send ok c op k now = (yes, c', op', out) \<Longrightarrow> upkeep c c'"
  "put_send sign ok c op k now = (yes, c', op', out) \<Longrightarrow> upkeep c c'"
proof -
  have alloc: "upkeep c c1" if "req_alloc c op k now = Some (i, tid, c1, op1)" for i tid c1 op1
    using that by (auto simp: req_alloc_def upkeep_def held_ok_def split: option.splits)
  have send: "c2 = c1" if "req_send ok c1 op1 i k st b = (y, c2, op2, o2)" for c1 op1 i st b y c2 op2 o2
    using that by (auto simp: req_send_def Let_def split: if_splits)
  show "get_send ok c op k now = (yes, c', op', out) \<Longrightarrow> upkeep c c'"
    using alloc by (auto simp: get_send_def split: option.splits dest!: send)
  show "put_send sign ok c op k now = (yes, c', op', out) \<Longrightarrow> upkeep c c'"
    using alloc by (auto simp: put_send_def Let_def split: option.splits if_splits dest!: send)
qed

section \<open>A step keeps the invariant\<close>

fun call_ok :: "(byte list \<Rightarrow> byte list \<Rightarrow> byte list \<Rightarrow> bool) \<Rightarrow> b44_op \<Rightarrow> b44_call \<Rightarrow> bool" where
  "call_ok ed op (Put_done arg n sa) = (op_cb op = Cb_put arg)"
| "call_ok ed op (Get_done arg v seq sa) =
     (op_cb op = Cb_get arg \<and> (case v of None \<Rightarrow> True | Some v \<Rightarrow> authentic ed op v seq))"

definition step_good :: "(byte list \<Rightarrow> byte list \<Rightarrow> byte list \<Rightarrow> bool) \<Rightarrow> b44_client \<Rightarrow> b44_op \<Rightarrow> op_result \<Rightarrow> bool" where
  "step_good ed c op r =
     (case r of (c', res, out, calls) \<Rightarrow>
        upkeep c c' \<and>
        (case res of Some op' \<Rightarrow> op_ok ed op' \<and> same_op op op' \<and> calls = []
         | None \<Rightarrow> calls \<noteq> [] \<and> (\<forall>call \<in> set calls. call_ok ed op call)))"

lemma call_ok_same: "same_op a b \<Longrightarrow> call_ok ed a call = call_ok ed b call"
  using authentic_same [of a b ed] by (cases call) (auto simp: same_op_def split: option.split)

lemma step_good_same: "same_op a b \<Longrightarrow> step_good ed c b r \<Longrightarrow> step_good ed c a r"
  using same_op_trans [of a b] call_ok_same [of a b]
  by (auto simp: step_good_def split: option.splits)

lemma step_good_upkeep: "upkeep c c1 \<Longrightarrow> step_good ed c1 op r \<Longrightarrow> step_good ed c op r"
  using upkeep_trans [of c c1] by (auto simp: step_good_def)

lemma step_good_out: "step_good ed c op (c', res, out, calls) \<Longrightarrow> step_good ed c op (c', res, out', calls)"
  by (simp add: step_good_def)

lemma finish_node_same: "same_op op (finish_node op)" "op_best (finish_node op) = op_best op"
  "op_nodes (finish_node op) = op_nodes op"
  by (auto simp: finish_node_def same_op_def split: option.splits)

lemma op_calls_ok:
  assumes "best_ok ed op"
  shows "op_calls op \<noteq> [] \<and> (\<forall>call \<in> set (op_calls op). call_ok ed op call)"
  using assms by (auto simp: op_calls_def best_ok_def Let_def split: b44_cb.splits option.splits)

lemma op_finish_good:
  assumes "op_ok ed op"
  shows "step_good ed c op (op_finish c op)"
proof -
  have "best_ok ed (finish_node op)"
    using op_ok_parts(5) [OF assms] best_ok_same [OF finish_node_same(1)] finish_node_same(2) by metis
  then have "op_calls (finish_node op) \<noteq> []" "\<forall>call \<in> set (op_calls (finish_node op)). call_ok ed op call"
    using op_calls_ok call_ok_same [OF finish_node_same(1) [of op]] by blast+
  moreover have "upkeep c (op_retain_nodes c (finish_node op))"
    using op_ok_parts(2) [OF assms]
    by (simp add: op_retain_nodes_def finish_node_same nodes_ok_def retain_loop_upkeep)
  ultimately show ?thesis by (simp add: op_finish_def step_good_def Let_def)
qed

text \<open>The loops over the nodes.\<close>

lemma get_send_busy: "get_send ok c op i now = (gone, c', op', out) \<Longrightarrow> \<not> gone \<Longrightarrow> busy op' \<le> busy op"
  using req_allocD [of c op i now]
  by (auto simp: get_send_def req_send_def Let_def split: option.splits if_splits)

lemma sent_ok_trans: "sent_ok ed a b \<Longrightarrow> sent_ok ed b d \<Longrightarrow> op_ok ed d \<and> same_op a d \<and> op_phase d = op_phase a"
  using same_op_trans by (auto simp: sent_ok_def)

lemma lookup_loop_ok:
  assumes "op_ok ed op" "op_phase op = B44_PHASE_LOOKUP" "\<forall>i \<in> set is. i < length (op_nodes op)"
    "lookup_loop ok now is if4 if6 deferred answered (c, op, out) = ((inflight, deferred', answered'), c', op', out')"
    "busy op \<le> if4 + if6"
  shows "op_ok ed op' \<and> same_op op op' \<and> op_phase op' = B44_PHASE_LOOKUP \<and> upkeep c c' \<and> busy op' \<le> inflight"
  using assms
proof (induction "is" arbitrary: op c out if4 if6 deferred answered)
  case Nil
  then show ?case by simp
next
  case (Cons i "is")
  let ?n = "op_nodes op ! i"
  let ?v6 = "sa_family (nd_sa ?n) = Fam_inet6"
  let ?a = "if nd_state ?n = B44_NODE_REPLIED \<or> nd_state ?n = B44_NODE_STORED then answered + 1 else answered"
  obtain yes c1 where bud: "node_budget_ok c (nd_sa ?n) now = (yes, c1)" by fastforce
  have c1: "upkeep c c1" using budget_upkeep [of c "nd_sa ?n" now] bud by simp
  obtain gone c2 op2 o2 where get: "get_send ok c1 op i now = (gone, c2, op2, o2)" by (metis prod_cases4)
  have c2: "upkeep c c2" using upkeep_trans [OF c1 send_upkeep(1) [OF get]] .
  let ?skip = "nd_state ?n \<noteq> B44_NODE_FRESH \<or> (if ?v6 then B44_ALPHA_V6 \<le> if6 else B44_ALPHA_V4 \<le> if4)"
  have eq: "lookup_loop ok now (i # is) if4 if6 deferred answered (c, op, out) =
      (if ?skip then lookup_loop ok now is if4 if6 deferred ?a (c, op, out)
       else if \<not> yes then lookup_loop ok now is if4 if6 (deferred + 1) ?a (c1, op, out)
       else if \<not> gone then ((if4 + if6, deferred, ?a), c2, op2, out @ o2)
       else lookup_loop ok now is (if ?v6 then if4 else if4 + 1) (if ?v6 then if6 + 1 else if6) deferred ?a (c2, op2, out @ o2))"
    unfolding lookup_loop.simps Let_def bud get prod.case by (rule refl)
  have ind: "\<forall>i \<in> set is. i < length (op_nodes op)" using Cons.prems(3) by simp
  consider "?skip" | "\<not> ?skip" "\<not> yes" | "\<not> ?skip" "yes" "\<not> gone" | "\<not> ?skip" yes gone by blast
  then show ?case
  proof cases
    case 1
    have "lookup_loop ok now is if4 if6 deferred ?a (c, op, out) = ((inflight, deferred', answered'), c', op', out')"
      using Cons.prems(4) unfolding eq if_P [OF 1] .
    from Cons.IH [OF Cons.prems(1,2) ind this Cons.prems(5)] show ?thesis .
  next
    case 2
    have "lookup_loop ok now is if4 if6 (deferred + 1) ?a (c1, op, out) = ((inflight, deferred', answered'), c', op', out')"
      using Cons.prems(4) unfolding eq if_not_P [OF 2(1)] if_P [OF 2(2)] .
    from Cons.IH [OF Cons.prems(1,2) ind this Cons.prems(5)] show ?thesis using upkeep_trans [OF c1] by blast
  next
    case 3
    have ok2: "sent_ok ed op op2" using get_send_ok [OF Cons.prems(1,2) _ _ get] Cons.prems(3) 3(1) by simp
    have res: "((if4 + if6, deferred, ?a), c2, op2, out @ o2) = ((inflight, deferred', answered'), c', op', out')"
      using Cons.prems(4) 3(2) unfolding eq if_not_P [OF 3(1)] if_P [OF 3(3)] by simp
    have "busy op2 \<le> busy op"
      using get_send_busy [OF get] 3(3) by simp
    then show ?thesis using ok2 res c2 Cons.prems(2,5) by (simp add: sent_ok_def)
  next
    case 4
    have ok2: "sent_ok ed op op2" using get_send_ok [OF Cons.prems(1,2) _ _ get] Cons.prems(3) 4(1) by simp
    have res: "lookup_loop ok now is (if ?v6 then if4 else if4 + 1) (if ?v6 then if6 + 1 else if6) deferred ?a (c2, op2, out @ o2) =
        ((inflight, deferred', answered'), c', op', out')"
      using Cons.prems(4) 4(2,3) unfolding eq if_not_P [OF 4(1)] by simp
    have "\<forall>i \<in> set is. i < length (op_nodes op2)" "op_ok ed op2" "op_phase op2 = B44_PHASE_LOOKUP"
      "busy op2 \<le> (if ?v6 then if4 else if4 + 1) + (if ?v6 then if6 + 1 else if6)" "same_op op op2"
      using ok2 ind Cons.prems(2,5) by (simp_all add: sent_ok_def)
    from Cons.IH [OF this(2,3,1) res this(4)] this(5) show ?thesis
      using upkeep_trans [OF c2] same_op_trans by blast
  qed
qed

lemma op_ok_cong:
  assumes "same_op op op'" "op_nodes op' = op_nodes op" "op_reqs op' = op_reqs op" "op_stored op' = op_stored op"
    "op_phase op' = op_phase op" "op_best op' = op_best op"
  shows "op_ok ed op' = op_ok ed op"
  using assms best_ok_same [of op op'] by (auto simp: op_ok_def same_op_def)

lemma op_ok_deferred: "op_ok ed op \<Longrightarrow> op_ok ed (op\<lparr>op_store_deferred := x\<rparr>) \<and> same_op op (op\<lparr>op_store_deferred := x\<rparr>)"
  using op_ok_cong [of op "op\<lparr>op_store_deferred := x\<rparr>"] by (simp add: same_op_def)

lemma store_loop_ok:
  assumes "op_ok ed op" "op_phase op = B44_PHASE_STORE" "\<forall>i \<in> set is. i < length (op_nodes op)"
    "store_loop sign ok now is s4 s6 (c, op, out) = (n', c', op', out')"
  shows "op_ok ed op' \<and> same_op op op' \<and> upkeep c c'"
  using assms
proof (induction "is" arbitrary: op c out s4 s6)
  case Nil
  then show ?case by simp
next
  case (Cons i "is")
  let ?n = "op_nodes op ! i"
  let ?v6 = "sa_family (nd_sa ?n) = Fam_inet6"
  let ?d = "op\<lparr>op_store_deferred := True\<rparr>"
  obtain yes c1 where bud: "node_budget_ok c (nd_sa ?n) now = (yes, c1)" by fastforce
  have c1: "upkeep c c1" using budget_upkeep [of c "nd_sa ?n" now] bud by simp
  obtain gone c2 op2 o2 where put: "put_send sign ok c1 op i now = (gone, c2, op2, o2)" by (metis prod_cases4)
  have c2: "upkeep c c2" using upkeep_trans [OF c1 send_upkeep(2) [OF put]] .
  let ?skip = "nd_state ?n \<noteq> B44_NODE_REPLIED \<or> nd_token ?n = [] \<or> B44_K \<le> (if ?v6 then s6 else s4)"
  have eq: "store_loop sign ok now (i # is) s4 s6 (c, op, out) =
      (if ?skip then store_loop sign ok now is s4 s6 (c, op, out)
       else if \<not> yes then store_loop sign ok now is s4 s6 (c1, ?d, out)
       else if \<not> gone then (s4 + s6, c2, op2, out @ o2)
       else store_loop sign ok now is (if ?v6 then s4 else s4 + 1) (if ?v6 then s6 + 1 else s6) (c2, op2, out @ o2))"
    unfolding store_loop.simps Let_def bud put prod.case by (rule refl)
  have ind: "\<forall>i \<in> set is. i < length (op_nodes op)" using Cons.prems(3) by simp
  consider "?skip" | "\<not> ?skip" "\<not> yes" | "\<not> ?skip" "yes" "\<not> gone" | "\<not> ?skip" yes gone by blast
  then show ?case
  proof cases
    case 1
    have "store_loop sign ok now is s4 s6 (c, op, out) = (n', c', op', out')"
      using Cons.prems(4) unfolding eq if_P [OF 1] .
    from Cons.IH [OF Cons.prems(1,2) ind this] show ?thesis .
  next
    case 2
    have "store_loop sign ok now is s4 s6 (c1, ?d, out) = (n', c', op', out')"
      using Cons.prems(4) unfolding eq if_not_P [OF 2(1)] if_P [OF 2(2)] .
    from Cons.IH [OF _ _ _ this] op_ok_deferred [OF Cons.prems(1), of True] Cons.prems(2) ind
    show ?thesis using upkeep_trans [OF c1] same_op_trans [of op ?d] by simp
  next
    case 3
    have "sent_ok ed op op2" using put_send_ok [OF Cons.prems(1,2) _ _ put] Cons.prems(3) 3(1) by simp
    moreover have "op' = op2" "c' = c2"
      using Cons.prems(4) 3(2) unfolding eq if_not_P [OF 3(1)] if_P [OF 3(3)] by simp_all
    ultimately show ?thesis using c2 by (simp add: sent_ok_def)
  next
    case 4
    have ok2: "sent_ok ed op op2" using put_send_ok [OF Cons.prems(1,2) _ _ put] Cons.prems(3) 4(1) by simp
    have res: "store_loop sign ok now is (if ?v6 then s4 else s4 + 1) (if ?v6 then s6 + 1 else s6) (c2, op2, out @ o2) =
        (n', c', op', out')"
      using Cons.prems(4) 4(2,3) unfolding eq if_not_P [OF 4(1)] by simp
    have "\<forall>i \<in> set is. i < length (op_nodes op2)" "op_ok ed op2" "op_phase op2 = B44_PHASE_STORE" "same_op op op2"
      using ok2 ind Cons.prems(2) by (simp_all add: sent_ok_def)
    from Cons.IH [OF this(2,3,1) res] this(4) show ?thesis
      using upkeep_trans [OF c2] same_op_trans by blast
  qed
qed

text \<open>An operation with no request under way may go over to storing.\<close>

lemma no_requests: "busy op = 0 \<Longrightarrow> reqs_ok ph (op_nodes op) (op_reqs op) \<Longrightarrow> reqs_ok ph' (op_nodes op) (op_reqs op)"
  by (auto simp: busy_def filter_empty_conv reqs_ok_def)

lemma store_phase_ok:
  assumes "op_ok ed op" "busy op = 0 \<or> op_phase op = B44_PHASE_STORE"
  shows "op_ok ed (op\<lparr>op_phase := B44_PHASE_STORE, op_store_deferred := False\<rparr>)"
proof -
  let ?op = "op\<lparr>op_phase := B44_PHASE_STORE, op_store_deferred := False\<rparr>"
  note parts = op_ok_parts [OF assms(1)]
  have "reqs_ok B44_PHASE_STORE (op_nodes op) (op_reqs op)"
    using assms(2) parts(3) no_requests [of op "op_phase op" B44_PHASE_STORE] by auto
  moreover have "stored_ok B44_PHASE_STORE (op_stored op) (op_nodes op)" using parts(4) by (simp add: stored_ok_def)
  moreover have "best_ok ed ?op" using parts(5) best_ok_same [of op ?op] by (simp add: same_op_def)
  ultimately show ?thesis using parts(1,2) by (simp add: op_ok_def)
qed

lemma store_or_finish_good:
  assumes "op_ok ed op" "busy op = 0 \<or> op_phase op = B44_PHASE_STORE"
  shows "step_good ed c op (store_or_finish sign ok c op now)"
proof -
  let ?op = "op\<lparr>op_phase := B44_PHASE_STORE, op_store_deferred := False\<rparr>"
  obtain n c1 op1 out where st: "store_start sign ok c op now = (n, c1, op1, out)" by (metis prod_cases4)
  have "op_ok ed op1 \<and> same_op ?op op1 \<and> upkeep c c1"
    by (rule store_loop_ok [OF store_phase_ok [OF assms] _ _ st [unfolded store_start_def]]) simp_all
  then have op1: "op_ok ed op1" "same_op op op1" "upkeep c c1" by (simp_all add: same_op_def)
  obtain c2 r o2 calls where fin: "op_finish c1 op1 = (c2, r, o2, calls)" by (metis prod_cases4)
  have "step_good ed c op (op_finish c1 op1)"
    by (rule step_good_upkeep [OF op1(3) step_good_same [OF op1(2) op_finish_good [OF op1(1)]]])
  then have "step_good ed c op (c2, r, out @ o2, calls)" unfolding fin by (rule step_good_out)
  then show ?thesis using op1 by (simp add: store_or_finish_def st fin step_good_def)
qed

lemma update_store_good:
  assumes "op_ok ed op" "busy op = 0"
  shows "step_good ed c op (update_store sign ok c op now)"
proof -
  have fin: "step_good ed c op (op_finish c op)" by (rule op_finish_good [OF assms(1)])
  have sto: "step_good ed c op (store_or_finish sign ok c
      (op\<lparr>op_value := nv, op_seq := s, op_cas := h, op_is_put := True\<rparr>) now)" for nv s h
  proof -
    let ?op = "op\<lparr>op_value := nv, op_seq := s, op_cas := h, op_is_put := True\<rparr>"
    have same: "same_op op ?op" by (simp add: same_op_def)
    have "op_ok ed ?op" using assms(1) op_ok_cong [OF same] by simp
    moreover have "busy ?op = 0" using assms(2) by (simp add: busy_def)
    ultimately show ?thesis using step_good_same [OF same store_or_finish_good] by blast
  qed
  show ?thesis using fin sto by (simp add: update_store_def Let_def split: option.split)
qed

lemma req_count_busy:
  assumes "length (op_reqs op) = n"
  shows "req_count op P + req_count op (\<lambda>n. \<not> P n) = busy op"
proof -
  have "length (filter (\<lambda>r. case r of None \<Rightarrow> False | Some r \<Rightarrow> P (f r)) rs) +
      length (filter (\<lambda>r. case r of None \<Rightarrow> False | Some r \<Rightarrow> \<not> P (f r)) rs) = length (filter (\<lambda>r. r \<noteq> None) rs)" for f :: "b44_req \<Rightarrow> b44_node" and rs
    by (induction rs) (auto split: option.split)
  then show ?thesis by (simp add: req_count_def busy_def)
qed

lemma op_step_good:
  assumes ok: "op_ok ed op"
  shows "step_good ed c op (op_step sign ok c op now)"
proof (cases "B44_OP_TIMEOUT_MS < now - op_start_ms op")
  case True
  then show ?thesis using op_finish_good [OF ok] by (simp add: op_step_def)
next
  case False
  define op1 where "op1 = foldl (req_expire now) op [0..<length (op_reqs op)]"
  have op1: "op_ok ed op1" "same_op op op1" "op_phase op1 = op_phase op"
    using req_expire_all [OF ok, of "[0..<length (op_reqs op)]" now] by (simp_all add: op1_def)
  define if6 where "if6 = req_count op1 (\<lambda>n. sa_family (nd_sa n) = Fam_inet6)"
  define if4 where "if4 = req_count op1 (\<lambda>n. sa_family (nd_sa n) \<noteq> Fam_inet6)"
  have busy: "busy op1 = if4 + if6"
    using req_count_busy [OF refl, of op1 "\<lambda>n. sa_family (nd_sa n) = Fam_inet6"] by (simp add: if4_def if6_def)
  obtain inflight deferred answered c2 op2 out
    where loop: "lookup_loop ok now [0..<length (op_nodes op1)] if4 if6 0 0 (c, op1, []) = ((inflight, deferred, answered), c2, op2, out)"
    by (metis prod_cases3)
  have eq: "op_step sign ok c op now =
      (if op_phase op1 = B44_PHASE_LOOKUP
       then (if 0 < inflight \<or> 0 < deferred \<and> answered = 0 then (c2, Some op2, out, [])
             else (let (c, op', o2, calls) =
                     (if op_is_update op2 then update_store sign ok c2 op2 now
                      else if \<not> op_is_put op2 then op_finish c2 op2 else store_or_finish sign ok c2 op2 now)
                   in (c, op', out @ o2, calls)))
       else if 0 < if4 + if6 then (c, Some op1, [], [])
       else if op_store_deferred op1 then store_or_finish sign ok c op1 now
       else op_finish c op1)"
    unfolding op_step_def if_not_P [OF False] Let_def op1_def [symmetric] if4_def [symmetric] if6_def [symmetric] loop prod.case
    by (rule refl)
  show ?thesis
  proof (cases "op_phase op1")
    case B44_PHASE_STORE
    have "step_good ed c op1 (c, Some op1, [], [])" using op1(1) by (simp add: step_good_def)
    moreover have "step_good ed c op1 (store_or_finish sign ok c op1 now)"
      by (rule store_or_finish_good [OF op1(1)]) (simp add: B44_PHASE_STORE)
    moreover have "step_good ed c op1 (op_finish c op1)" by (rule op_finish_good [OF op1(1)])
    ultimately have "step_good ed c op1 (op_step sign ok c op now)" by (simp add: eq B44_PHASE_STORE)
    then show ?thesis by (rule step_good_same [OF op1(2)])
  next
    case B44_PHASE_LOOKUP
    have op2: "op_ok ed op2" "same_op op1 op2" "op_phase op2 = B44_PHASE_LOOKUP" "upkeep c c2" "busy op2 \<le> inflight"
      using lookup_loop_ok [OF op1(1) B44_PHASE_LOOKUP _ loop] busy by simp_all
    have wait: "step_good ed c op1 (c2, Some op2, out, [])" using op2 by (simp add: step_good_def)
    define r where "r = (if op_is_update op2 then update_store sign ok c2 op2 now
        else if \<not> op_is_put op2 then op_finish c2 op2 else store_or_finish sign ok c2 op2 now)"
    have r: "step_good ed c op1 r" if "inflight = 0"
    proof -
      have "busy op2 = 0" using op2(5) that by simp
      then have "step_good ed c2 op2 r"
        using update_store_good [OF op2(1)] op_finish_good [OF op2(1)] store_or_finish_good [OF op2(1)]
        by (simp add: r_def)
      then show ?thesis using step_good_upkeep [OF op2(4)] step_good_same [OF op2(2)] by blast
    qed
    obtain c3 res o2 calls where r_eq: "r = (c3, res, o2, calls)" by (metis prod_cases4)
    have "op_step sign ok c op now =
        (if 0 < inflight \<or> 0 < deferred \<and> answered = 0 then (c2, Some op2, out, []) else (c3, res, out @ o2, calls))"
      unfolding eq r_def [symmetric] r_eq by (simp add: B44_PHASE_LOOKUP)
    moreover have "step_good ed c op1 (c3, res, out @ o2, calls)" if "inflight = 0"
      using step_good_out [OF r [OF that, unfolded r_eq]] .
    ultimately have "step_good ed c op1 (op_step sign ok c op now)" using wait by simp
    then show ?thesis by (rule step_good_same [OF op1(2)])
  qed
qed

section \<open>Replies keep the invariant\<close>

definition kept :: "(byte list \<Rightarrow> byte list \<Rightarrow> byte list \<Rightarrow> bool) \<Rightarrow> b44_op \<Rightarrow> b44_op \<Rightarrow> bool" where
  "kept ed op op' = (op_ok ed op' \<and> same_op op op' \<and> op_phase op' = op_phase op)"

lemma kept_trans: "kept ed a b \<Longrightarrow> kept ed b d \<Longrightarrow> kept ed a d"
  using same_op_trans by (auto simp: kept_def)

lemma record_best_node_kept: "op_ok ed op \<Longrightarrow> kept ed op (record_best_node op sa)"
  using op_ok_cong [of op "record_best_node op sa" ed] by (auto simp: kept_def record_best_node_def same_op_def)

lemma node_field_kept:
  assumes "op_ok ed op" "nd_state m = nd_state (op_nodes op ! k)" "nd_id m = nd_id (op_nodes op ! k)"
    "nd_dist m = nd_dist (op_nodes op ! k)"
  shows "kept ed op (op\<lparr>op_nodes := (op_nodes op)[k := m]\<rparr>)"
proof -
  note parts = op_ok_parts [OF assms(1)]
  let ?op = "op\<lparr>op_nodes := (op_nodes op)[k := m]\<rparr>"
  have same: "same_op op ?op" by (simp add: same_op_def)
  have states: "length (filter (\<lambda>n. nd_state n = B44_NODE_STORED) ns) =
      length (filter (\<lambda>s. s = B44_NODE_STORED) (map nd_state ns))" for ns :: "b44_node list"
    by (simp add: filter_map comp_def)
  have "map nd_state ((op_nodes op)[k := m]) = map nd_state (op_nodes op)"
    using assms(2) by (cases "k < length (op_nodes op)") (simp_all add: map_update list_update_same_conv list_update_beyond)
  then have "length (filter (\<lambda>n. nd_state n = B44_NODE_STORED) ((op_nodes op)[k := m])) =
      length (filter (\<lambda>n. nd_state n = B44_NODE_STORED) (op_nodes op))"
    using states [of "(op_nodes op)[k := m]"] states [of "op_nodes op"] by simp
  then have "stored_ok (op_phase op) (op_stored op) ((op_nodes op)[k := m])" using parts(4) by (auto simp: stored_ok_def)
  then show ?thesis
    using parts same nodes_ok_update [OF assms(3,4)] reqs_ok_field [OF parts(3) assms(2)] best_ok_same [OF same]
    by (simp add: kept_def op_ok_def)
qed

lemma best_set_kept:
  assumes "op_ok ed op" "authentic ed op v seq"
  shows "kept ed op (best_set op v seq sa)"
proof -
  let ?op = "op\<lparr>op_best := Some (v, seq), op_best_node4 := None, op_best_node6 := None\<rparr>"
  have same: "same_op op ?op" by (simp add: same_op_def)
  have "op_ok ed ?op" using assms authentic_same [OF same, of ed] by (simp add: op_ok_def best_ok_def)
  then have "kept ed op ?op" using same by (simp add: kept_def)
  then show ?thesis unfolding best_set_def
    by (rule kept_trans [OF _ record_best_node_kept]) (use \<open>op_ok ed ?op\<close> in simp)
qed

lemma token_note_kept: "op_ok ed op \<Longrightarrow> kept ed op (token_note op k rdict)"
  by (auto simp: token_note_def kept_def node_field_kept [unfolded kept_def] split: option.split)

lemma value_note_kept:
  assumes ok: "op_ok ed op" and auth: "authentic ed op v seq"
  shows "kept ed op (value_note op k v seq sa)"
proof -
  let ?op = "op\<lparr>op_nodes := (op_nodes op)[k := (op_nodes op ! k)\<lparr>nd_seq := Some seq\<rparr>]\<rparr>"
  have op1: "kept ed op ?op" by (rule node_field_kept [OF ok]) simp_all
  have "same_op op ?op" using op1 by (simp add: kept_def)
  then have "authentic ed ?op v seq" using auth authentic_same [of op ?op ed] by simp
  moreover have "op_ok ed ?op" using op1 by (simp add: kept_def)
  ultimately have "kept ed op (record_best_node ?op sa)" "kept ed op (best_set ?op v seq sa)"
    using kept_trans [OF op1] record_best_node_kept [of ed ?op sa] best_set_kept [of ed ?op v seq sa] by blast+
  then show ?thesis unfolding value_note_def Let_def
    by (cases "op_best op") auto
qed

lemma value_check_kept:
  assumes ok: "op_ok ed op"
  shows "kept ed op (value_check ed op k sa rdict)"
proof (cases "benc_dict_find rdict (bytes ''v'')")
  case None
  then show ?thesis using ok by (simp add: value_check_def kept_def)
next
  case (Some v)
  have same: "kept ed op op" using ok by (simp add: kept_def)
  show ?thesis
  proof (cases "BEP44_MAX_VALUE < length v")
    case True
    then show ?thesis using same by (simp add: value_check_def Some)
  next
    case len: False
    show ?thesis
    proof (cases "op_is_immutable op")
      case True
      have "authentic ed op v (-1)" if "immutable_target v = op_target op"
        using that True len by (simp add: authentic_def immutable_target_spec)
      then show ?thesis
        using same record_best_node_kept [OF ok] best_set_kept [OF ok, of v "-1"]
        by (simp add: value_check_def Some len True)
    next
      case mut: False
      let ?sb = "\<lambda>seq. sig_buffer_n (BEP44_MAX_VALUE + 128) (op_salt op) seq v"
      have auth: "authentic ed op v seq" if "length sig = 64" "0 \<le> seq" "ed sig (op_pk op) (?sb seq)" for sig seq
        using that mut len by (auto simp: authentic_def)
      show ?thesis
        using same value_note_kept [OF ok auth, of _ _ k sa]
        by (auto simp: value_check_def Some len mut Let_def split: option.split)
    qed
  qed
qed

lemma cache_add_same: "en_store (cache_add e nid sa now) = en_store e" "en_myid (cache_add e nid sa now) = en_myid e"
  by (simp_all add: cache_add_def Let_def split: option.splits)

lemma nodes_compact_add_upkeep: "upkeep c (fst (nodes_compact_add c op data af cached now))"
proof (induction "length data" arbitrary: c op data cached rule: less_induct)
  case less
  let ?k = "if af = Fam_inet then 26 else 38 :: nat"
  show ?case
  proof (cases "length data < ?k")
    case True
    then show ?thesis by (simp add: nodes_compact_add.simps)
  next
    case False
    have "upkeep c (if b then c\<lparr>cl_engine := cache_add (cl_engine c) nid sa now\<rparr> else c)" for b nid sa
      by (simp add: upkeep_def held_ok_def cache_add_same)
    moreover have "length (drop ?k data) < length data" using False by (simp split: if_splits)
    ultimately show ?thesis
      unfolding nodes_compact_add.simps [of c op data] Let_def if_not_P [OF False]
      using less.hyps upkeep_trans by blast
  qed
qed

lemma merge_nodes_kept:
  assumes "op_ok ed op" "op_phase op = B44_PHASE_LOOKUP" "merge_nodes c op rdict key af now = (c', op')"
  shows "kept ed op op' \<and> upkeep c c'"
proof -
  have "kept ed op op" using assms(1) by (simp add: kept_def)
  moreover have "kept ed op op' \<and> upkeep c c'" if "nodes_compact_add c op data af 0 now = (c', op')" for data
    using nodes_compact_add_ok [OF assms(1,2), of c data af 0 now] nodes_compact_add_upkeep [of c op data af 0 now] that assms(2)
    by (simp add: kept_def)
  ultimately show ?thesis using assms(3) by (auto simp: merge_nodes_def split: if_splits option.splits)
qed

lemma pin_learn_id_upkeep: "upkeep c (pin_learn_id c sa rdict now)"
  by (auto simp: pin_learn_id_def upkeep_def held_ok_def seed_ok_def split: option.split)

lemma op_state_free: "op_state (req_free op i) k s = req_free (op_state op k s) i"
  by (simp add: op_state_def req_free_def)

lemma reply_handle_good:
  assumes ok: "op_ok ed op" and i: "i < length (op_reqs op)" "op_reqs op ! i = Some r"
  shows "step_good ed c op (reply_handle ed sign snd_ok c op i buf is_error sa now)"
proof -
  note node = reqs_okD [OF op_ok_parts(3) [OF ok] i]
  let ?k = "rq_node r"
  let ?ended = "\<lambda>s. req_free (op_state op ?k s) i"
  have same: "same_op op (?ended s)" for s by (simp add: same_op_def req_free_def op_state_def)
  have step: "step_good ed c op (op_step sign snd_ok c op' now)" if "op_ok ed op'" "same_op op op'" for op'
    using step_good_same [OF that(2) op_step_good [OF that(1)]] .
  have failed: "step_good ed c op (op_step sign snd_ok c (?ended B44_NODE_FAILED) now)"
    using step [OF req_end_ok [OF ok i] same] by simp
  show ?thesis
  proof (cases "op_phase op")
    case B44_PHASE_STORE
    let ?op = "(?ended B44_NODE_STORED)\<lparr>op_stored := op_stored op + 1\<rparr>"
    have "same_op op ?op" using same [of B44_NODE_STORED] by (simp add: same_op_def)
    then have "step_good ed c op (op_step sign snd_ok c ?op now)"
      using step [OF req_end_stored_ok [OF ok i B44_PHASE_STORE]] by blast
    moreover have "op_stored (req_free op i) = op_stored op" by (simp add: req_free_def)
    ultimately show ?thesis
      using failed node(2) i(2) B44_PHASE_STORE by (simp add: reply_handle_def Let_def op_state_free)
  next
    case B44_PHASE_LOOKUP
    let ?op = "?ended B44_NODE_REPLIED"
    have op1: "kept ed op ?op"
      using req_end_ok [OF ok i, of B44_NODE_REPLIED] same by (simp add: kept_def)
    show ?thesis
    proof (cases "benc_dict_find buf (bytes ''r'')")
      case None
      then show ?thesis
        using failed node(2) i(2) B44_PHASE_LOOKUP step op1
        by (simp add: reply_handle_def Let_def op_state_free kept_def)
    next
      case (Some rdict)
      define op2 where "op2 = token_note ?op ?k rdict"
      define op3 where "op3 = (if op_is_put op2 then op2 else value_check ed op2 ?k sa rdict)"
      define c1 where "c1 = pin_learn_id c sa rdict now"
      obtain c4 op4 where m4: "merge_nodes c1 op3 rdict ''nodes'' Fam_inet now = (c4, op4)" by fastforce
      obtain c5 op5 where m5: "merge_nodes c4 op4 rdict ''nodes6'' Fam_inet6 now = (c5, op5)" by fastforce
      have op2: "kept ed op op2" using kept_trans [OF op1 token_note_kept] op1 by (simp add: op2_def kept_def)
      have "kept ed op2 op3"
        using value_check_kept [of ed op2 ?k sa rdict] op2 by (simp add: op3_def kept_def)
      from kept_trans [OF op2 this] have op3: "kept ed op op3" .
      have op4: "kept ed op op4" "upkeep c1 c4"
        using merge_nodes_kept [OF _ _ m4, of ed] op3 B44_PHASE_LOOKUP kept_trans [OF op3] by (simp_all add: kept_def)
      have op5: "kept ed op op5" "upkeep c4 c5"
        using merge_nodes_kept [OF _ _ m5, of ed] op4 B44_PHASE_LOOKUP kept_trans [OF op4(1)] by (simp_all add: kept_def)
      have c1: "upkeep c c1" unfolding c1_def by (rule pin_learn_id_upkeep)
      have "step_good ed c5 op (op_step sign snd_ok c5 op5 now)"
        using op5(1) step_good_same [OF _ op_step_good] by (simp add: kept_def)
      then have good: "step_good ed c op (op_step sign snd_ok c5 op5 now)"
        by (rule step_good_upkeep [OF upkeep_trans [OF c1 upkeep_trans [OF op4(2) op5(2)]]])
      have "\<not> is_error \<Longrightarrow> reply_handle ed sign snd_ok c op i buf is_error sa now = op_step sign snd_ok c5 op5 now"
        using node(2) i(2) B44_PHASE_LOOKUP Some m4 [unfolded op3_def] m5
        by (cases "op_is_put op2") (simp_all add: reply_handle_def Let_def op_state_free op2_def [symmetric] c1_def [symmetric])
      then show ?thesis
        using good failed node(2) i(2) B44_PHASE_LOOKUP
        by (cases is_error) (simp_all add: reply_handle_def Let_def op_state_free)
    qed
  qed
qed

section \<open>The engine\<close>

text \<open>The events of a run: a datagram, a tick, a new operation of each kind, and the lists of nodes.\<close>

datatype client_event =
    Cl_input "byte list" b44_sa u64
  | Cl_periodic u64 "byte list option"
  | Cl_serve bool "byte list option" "byte list option" u64
  | Cl_put "byte list" "byte list" "byte list" "byte list" int int nat u64
  | Cl_update "byte list" "byte list" "byte list" "byte list option \<Rightarrow> int \<Rightarrow> byte list option" bool nat u64
  | Cl_get "byte list" "byte list" bool nat u64
  | Cl_put_immutable "byte list" nat u64
  | Cl_get_immutable "byte list" nat u64
  | Cl_bootstrap b44_sa
  | Cl_seed "byte list option" b44_sa
  | Cl_pin "byte list option" b44_sa u64
  | Cl_unpin b44_sa

text \<open>A node id or a target handed in has its length.\<close>

fun event_ok :: "client_event \<Rightarrow> bool" where
  "event_ok (Cl_seed nid sa) = pred_option (\<lambda>i. length i = 20) nid"
| "event_ok (Cl_pin nid sa now) = pred_option (\<lambda>i. length i = 20) nid"
| "event_ok (Cl_get_immutable target arg now) = (length target = 20)"
| "event_ok _ = True"

fun client_step :: "(byte list \<Rightarrow> byte list \<Rightarrow> byte list \<Rightarrow> bool) \<Rightarrow> (byte list \<Rightarrow> byte list \<Rightarrow> byte list option) \<Rightarrow>
    (b44_sa \<Rightarrow> byte list \<Rightarrow> bool) \<Rightarrow> b44_client \<Rightarrow> client_event \<Rightarrow> b44_client \<times> sends \<times> b44_call list" where
  "client_step ed sign ok c (Cl_input buf sa now) = snd (bep44_input ed sign ok c buf sa now)"
| "client_step ed sign ok c (Cl_periodic now fresh) = bep44_periodic sign ok c now fresh"
| "client_step ed sign ok c (Cl_serve en f0 f1 now) =
     (c\<lparr>cl_engine := snd (bep44_serve (cl_engine c) en f0 f1 now)\<rparr>, [], [])"
| "client_step ed sign ok c (Cl_put sk pk salt v seq cas arg now) = snd (bep44_put sign ok c sk pk salt v seq cas arg now)"
| "client_step ed sign ok c (Cl_update sk pk salt merge direct arg now) =
     snd (update_impl sign ok c sk pk salt merge direct arg now)"
| "client_step ed sign ok c (Cl_get pk salt direct arg now) = snd (get_impl sign ok c pk salt direct arg now)"
| "client_step ed sign ok c (Cl_put_immutable v arg now) = snd (bep44_put_immutable sign ok c v arg now)"
| "client_step ed sign ok c (Cl_get_immutable target arg now) = snd (bep44_get_immutable sign ok c target arg now)"
| "client_step ed sign ok c (Cl_bootstrap sa) = (bep44_bootstrap_add c sa, [], [])"
| "client_step ed sign ok c (Cl_seed nid sa) = (bep44_seed_add c nid sa, [], [])"
| "client_step ed sign ok c (Cl_pin nid sa now) = (snd (bep44_pin_add c nid sa now), [], [])"
| "client_step ed sign ok c (Cl_unpin sa) = (bep44_pin_del c sa, [], [])"

definition client_run :: "(byte list \<Rightarrow> byte list \<Rightarrow> byte list \<Rightarrow> bool) \<Rightarrow> (byte list \<Rightarrow> byte list \<Rightarrow> byte list option) \<Rightarrow>
    (b44_sa \<Rightarrow> byte list \<Rightarrow> bool) \<Rightarrow> b44_client \<Rightarrow> client_event list \<Rightarrow> b44_client" where
  "client_run ed sign ok c evs = foldl (\<lambda>c ev. fst (client_step ed sign ok c ev)) c evs"

definition client_ok :: "(byte list \<Rightarrow> byte list \<Rightarrow> byte list \<Rightarrow> bool) \<Rightarrow> b44_client \<Rightarrow> bool" where
  "client_ok ed c = (held_ok c \<and> (\<forall>op \<in> set (cl_ops c). op_ok ed op) \<and> store_ok ed (cl_engine c))"

lemma op_blank_ok: "length target = 20 \<Longrightarrow> op_ok ed (op_blank target direct now cb)"
  by (simp add: op_ok_def op_blank_def nodes_ok_def reqs_ok_def stored_ok_def best_ok_def)

lemma op_new_ok:
  assumes held: "held_ok c" and target: "length target = 20"
  shows "op_ok ed (op_new c target direct now cb) \<and> same_op (op_blank target direct now cb) (op_new c target direct now cb)"
proof -
  have seed: "kept ed op (node_insert op (sd_id p) (sd_sa p) pinned) \<and> op_phase (node_insert op (sd_id p) (sd_sa p) pinned) = B44_PHASE_LOOKUP"
    if "seed_ok p" "op_ok ed op" "op_phase op = B44_PHASE_LOOKUP" for op p pinned
    using node_insert_ok [OF that(2,3), of "sd_id p"] that(1,3) by (simp add: seed_ok_def kept_def)
  have boot: "op_ok ed (node_insert op None sa False) \<and> same_op op (node_insert op None sa False) \<and>
      op_phase (node_insert op None sa False) = B44_PHASE_LOOKUP"
    if "op_ok ed op" "op_phase op = B44_PHASE_LOOKUP" for op sa
    using node_insert_ok [OF that, of None] by simp
  have fold: "op_ok ed (foldl (\<lambda>op p. node_insert op (sd_id p) (sd_sa p) pinned) op ps) \<and>
      same_op op (foldl (\<lambda>op p. node_insert op (sd_id p) (sd_sa p) pinned) op ps) \<and>
      op_phase (foldl (\<lambda>op p. node_insert op (sd_id p) (sd_sa p) pinned) op ps) = B44_PHASE_LOOKUP"
    if "\<forall>p \<in> set ps. seed_ok p" "op_ok ed op" "op_phase op = B44_PHASE_LOOKUP" for pinned op ps
    using that seed by (intro lookup_ok_foldl) (auto simp: kept_def)
  let ?held = "\<lambda>ss. concat (map (\<lambda>s. case s of None \<Rightarrow> [] | Some s \<Rightarrow> [s]) ss)"
  have ps: "\<forall>p \<in> set (cl_pinned c). seed_ok p" "\<forall>p \<in> set (?held (cl_retained c)). seed_ok p" "\<forall>p \<in> set (?held (cl_seeds c)). seed_ok p"
    using held by (auto simp: held_ok_def split: option.splits)
  define op0 where "op0 = op_blank target direct now cb"
  define op1 where "op1 = foldl (\<lambda>op p. node_insert op (sd_id p) (sd_sa p) True) op0 (cl_pinned c)"
  define op2 where "op2 = foldl (\<lambda>op p. node_insert op (sd_id p) (sd_sa p) False) op1 (?held (cl_retained c))"
  define op3 where "op3 = foldl (\<lambda>op p. node_insert op (sd_id p) (sd_sa p) False) op2 (?held (cl_seeds c))"
  define op4 where "op4 = foldl (\<lambda>op sa. node_insert op None sa False) op3 (cl_bootstrap c)"
  have op0: "op_ok ed op0" "op_phase op0 = B44_PHASE_LOOKUP"
    unfolding op0_def by (rule op_blank_ok [OF target]) (simp add: op_blank_def)
  note op1 = fold [OF ps(1) op0, of True, folded op1_def]
  note op2 = fold [OF ps(2), of op1 False, folded op2_def]
  note op3 = fold [OF ps(3), of op2 False, folded op3_def]
  have op4: "op_ok ed op4 \<and> same_op op3 op4 \<and> op_phase op4 = B44_PHASE_LOOKUP"
    unfolding op4_def using op1 op2 op3 boot by (intro lookup_ok_foldl) auto
  have "op_new c target direct now cb = (if direct then op2 else op4)"
    unfolding op_new_def Let_def op0_def [symmetric] op1_def [symmetric] op2_def [symmetric] op3_def [symmetric] op4_def [symmetric]
    by (rule refl)
  moreover have "same_op op0 op2" "same_op op2 op4" using op1 op2 op3 op4 same_op_trans by blast+
  ultimately show ?thesis using op1 op2 op3 op4 same_op_trans [of op0 op2 op4] unfolding op0_def [symmetric] by simp
qed

text \<open>The operation is the one the event asked for.\<close>

fun asks :: "client_event \<Rightarrow> b44_op \<Rightarrow> bool" where
  "asks (Cl_put sk pk salt v seq cas arg now) op =
     (op_cb op = Cb_put arg \<and> op_pk op = pk \<and> op_salt op = salt \<and> \<not> op_is_immutable op \<and> op_start_ms op = now)"
| "asks (Cl_update sk pk salt merge direct arg now) op =
     (op_cb op = Cb_put arg \<and> op_pk op = pk \<and> op_salt op = salt \<and> \<not> op_is_immutable op \<and> op_start_ms op = now)"
| "asks (Cl_get pk salt direct arg now) op =
     (op_cb op = Cb_get arg \<and> op_pk op = pk \<and> op_salt op = salt \<and> \<not> op_is_immutable op \<and> op_start_ms op = now)"
| "asks (Cl_put_immutable v arg now) op = (op_cb op = Cb_put arg \<and> op_is_immutable op \<and> op_start_ms op = now)"
| "asks (Cl_get_immutable target arg now) op =
     (op_cb op = Cb_get arg \<and> op_target op = target \<and> op_is_immutable op \<and> op_start_ms op = now)"
| "asks _ op = False"

lemma asks_same: "same_op a b \<Longrightarrow> asks ev b = asks ev a"
  by (cases ev) (auto simp: same_op_def)

text \<open>What an event leaves behind: the invariant, operations that were there or that it asked for, and
  calls for such operations.\<close>

definition event_good :: "(byte list \<Rightarrow> byte list \<Rightarrow> byte list \<Rightarrow> bool) \<Rightarrow> b44_client \<Rightarrow> (b44_op \<Rightarrow> bool) \<Rightarrow>
    b44_client \<times> sends \<times> b44_call list \<Rightarrow> bool" where
  "event_good ed c new r =
     (case r of (c', out, calls) \<Rightarrow>
        client_ok ed c' \<and> (\<forall>op' \<in> set (cl_ops c'). \<exists>op. (op \<in> set (cl_ops c) \<or> new op) \<and> same_op op op') \<and>
        (\<forall>call \<in> set calls. \<exists>op. (op \<in> set (cl_ops c) \<or> new op) \<and> call_ok ed op call))"

lemma client_ok_upkeep:
  "upkeep c c' \<Longrightarrow> held_ok c \<Longrightarrow> store_ok ed (cl_engine c) \<Longrightarrow> held_ok c' \<and> store_ok ed (cl_engine c')"
  using store_ok_cong [of "cl_engine c'" "cl_engine c" ed] by (simp add: upkeep_def)

lemma held_ok_ops [simp]: "held_ok (c\<lparr>cl_ops := x\<rparr>) = held_ok c" "held_ok (c\<lparr>cl_engine := e\<rparr>) = held_ok c"
  by (simp_all add: held_ok_def)

lemma op_put_back_good:
  assumes held: "held_ok c" "store_ok ed (cl_engine c)" and rest: "\<forall>op \<in> set (cl_ops c). op_ok ed op \<and> (\<exists>op0. P op0 \<and> same_op op0 op)"
    and k: "k < length (cl_ops c)" and step: "step_good ed c (cl_ops c ! k) r"
  shows "case op_put_back k r of (c', out, calls) \<Rightarrow>
    client_ok ed c' \<and> (\<forall>op' \<in> set (cl_ops c'). \<exists>op0. P op0 \<and> same_op op0 op') \<and>
    (\<forall>call \<in> set calls. call_ok ed (cl_ops c ! k) call)"
proof -
  obtain c1 res out calls where r: "r = (c1, res, out, calls)" by (metis prod_cases4)
  have up: "upkeep c c1" using step by (simp add: step_good_def r)
  have ok: "held_ok c1" "store_ok ed (cl_engine c1)" "cl_ops c1 = cl_ops c"
    using client_ok_upkeep [OF up held] up by (simp_all add: upkeep_def)
  have at: "\<exists>op0. P op0 \<and> same_op op0 (cl_ops c ! k)" using rest k by simp
  show ?thesis
  proof (cases res)
    case None
    have "x \<in> set (cl_ops c)" if "x \<in> set (take k (cl_ops c) @ drop (Suc k) (cl_ops c))" for x
      using that by (auto dest: in_set_takeD in_set_dropD)
    then show ?thesis using ok rest step by (auto simp: r None op_put_back_def client_ok_def step_good_def)
  next
    case (Some op')
    have op': "op_ok ed op'" "same_op (cl_ops c ! k) op'" "calls = []" using step by (simp_all add: r Some step_good_def)
    then have "\<exists>op0. P op0 \<and> same_op op0 op'" using at same_op_trans by blast
    then have "\<forall>op \<in> set ((cl_ops c)[k := op']). op_ok ed op \<and> (\<exists>op0. P op0 \<and> same_op op0 op)"
      using op' by (intro all_update [OF rest]) simp
    then show ?thesis using ok op' by (auto simp: r Some op_put_back_def client_ok_def)
  qed
qed

lemma op_launch_good:
  assumes c: "client_ok ed c" and new: "op_ok ed op" "new op"
  shows "event_good ed c new (snd (op_launch sign ok c (Some op) now))"
proof -
  let ?c = "c\<lparr>cl_ops := op # cl_ops c\<rparr>"
  have "\<forall>x \<in> set (cl_ops ?c). op_ok ed x \<and> (\<exists>op0. (op0 \<in> set (cl_ops c) \<or> new op0) \<and> same_op op0 x)"
    using c new by (auto simp: client_ok_def intro: exI [of _ op] same_op_refl)
  from op_put_back_good [OF _ _ this, of 0 "op_step sign ok ?c op now"] op_step_good [OF new(1), of ?c sign ok now] c new
  show ?thesis by (auto simp: op_launch_def event_good_def client_ok_def)
qed

lemma event_good_idle: "client_ok ed c \<Longrightarrow> event_good ed c new (c, out, [])"
  by (auto simp: event_good_def)

lemma node_insert_best: "op_best (node_insert op nid sa pinned) = op_best op"
  by (rule node_insert_cases [where op = op and nid = nid and sa = sa and pinned = pinned]) simp_all

lemma foldl_best: "(\<And>op x. op_best (f op x) = op_best op) \<Longrightarrow> op_best (foldl f op xs) = op_best op"
  by (induction xs arbitrary: op) simp_all

lemma op_new_best: "op_best (op_new c target direct now cb) = None"
  by (simp add: op_new_def Let_def foldl_best node_insert_best op_blank_def)

lemma op_create_ok:
  assumes "held_ok c" "op_create c pk salt direct now cb = Some op"
  shows "op_ok ed op \<and> op_pk op = pk \<and> op_salt op = salt \<and> op_cb op = cb \<and> \<not> op_is_immutable op \<and> op_start_ms op = now \<and>
    op_best op = None"
proof -
  let ?new = "op_new c (target_n pk salt) direct now cb"
  have new: "op_ok ed ?new" "same_op (op_blank (target_n pk salt) direct now cb) ?new"
    using op_new_ok [OF assms(1), of "target_n pk salt"] by (simp_all add: target_n_spec)
  have op: "op = ?new\<lparr>op_pk := pk, op_salt := salt\<rparr>" using assms(2) by (simp add: op_create_def split: if_splits)
  show ?thesis using new op_new_best [of c "target_n pk salt" direct now cb]
    by (simp add: op op_ok_def best_ok_def same_op_def op_blank_def)
qed

lemma fields_ok: "op_ok ed op \<Longrightarrow> op_best op = None \<Longrightarrow> op_target op' = op_target op \<Longrightarrow> op_nodes op' = op_nodes op \<Longrightarrow>
   op_reqs op' = op_reqs op \<Longrightarrow> op_stored op' = op_stored op \<Longrightarrow> op_phase op' = op_phase op \<Longrightarrow> op_best op' = None \<Longrightarrow>
   op_ok ed op'"
  by (simp add: op_ok_def best_ok_def)

lemma launch_created:
  assumes c: "client_ok ed c"
    and f: "\<And>op. op_create c pk salt direct now cb = Some op \<Longrightarrow> op_ok ed (f op) \<and> new (f op)"
  shows "event_good ed c new (snd (op_launch sign ok c (map_option f (op_create c pk salt direct now cb)) now))"
proof (cases "op_create c pk salt direct now cb")
  case None
  then show ?thesis using c by (simp add: op_launch_def event_good_idle)
next
  case (Some op)
  then show ?thesis using op_launch_good [OF c] f by simp
qed

lemma launch_events:
  assumes c: "client_ok ed c"
  shows "event_good ed c (asks (Cl_put sk pk salt v seq cas arg now)) (snd (bep44_put sign ok c sk pk salt v seq cas arg now))"
    "event_good ed c (asks (Cl_update sk pk salt mf direct arg now)) (snd (update_impl sign ok c sk pk salt mf direct arg now))"
    "event_good ed c (asks (Cl_get pk salt direct arg now)) (snd (get_impl sign ok c pk salt direct arg now))"
proof -
  have held: "held_ok c" using c by (simp add: client_ok_def)
  note new = op_create_ok [OF held, of pk salt _ now _ _ ed]
  show "event_good ed c (asks (Cl_put sk pk salt v seq cas arg now)) (snd (bep44_put sign ok c sk pk salt v seq cas arg now))"
    unfolding bep44_put_def
    using c by (auto simp: event_good_idle intro!: launch_created dest!: new intro: fields_ok)
  show "event_good ed c (asks (Cl_update sk pk salt mf direct arg now)) (snd (update_impl sign ok c sk pk salt mf direct arg now))"
    unfolding update_impl_def
    using c by (auto intro!: launch_created dest!: new intro: fields_ok)
  show "event_good ed c (asks (Cl_get pk salt direct arg now)) (snd (get_impl sign ok c pk salt direct arg now))"
    unfolding get_impl_def
    using launch_created [OF c, of pk salt direct now "Cb_get arg" "\<lambda>op. op" "asks (Cl_get pk salt direct arg now)" sign ok]
      new [of direct "Cb_get arg"] by (simp add: option.map_ident)
qed

lemma launch_immutable:
  assumes c: "client_ok ed c"
  shows "event_good ed c (asks (Cl_put_immutable v arg now)) (snd (bep44_put_immutable sign ok c v arg now))"
    "length target = 20 \<Longrightarrow>
     event_good ed c (asks (Cl_get_immutable target arg now)) (snd (bep44_get_immutable sign ok c target arg now))"
proof -
  have held: "held_ok c" using c by (simp add: client_ok_def)
  have new: "op_ok ed (op_new c t False now cb)" "op_best (op_new c t False now cb) = None"
    "op_target (op_new c t False now cb) = t" "op_cb (op_new c t False now cb) = cb"
    "op_start_ms (op_new c t False now cb) = now" if "length t = 20" for t cb
    using op_new_ok [OF held that, of ed False now cb] op_new_best [of c t False now cb]
    by (simp_all add: same_op_def op_blank_def)
  show "event_good ed c (asks (Cl_put_immutable v arg now)) (snd (bep44_put_immutable sign ok c v arg now))"
    unfolding bep44_put_immutable_def
  proof (cases "v = [] \<or> BEP44_MAX_VALUE < length v")
    case False
    let ?op = "(op_new c (immutable_target v) False now (Cb_put arg))
      \<lparr>op_is_put := True, op_is_immutable := True, op_cas := -1, op_value := v\<rparr>"
    have len: "length (immutable_target v) = 20" by (simp add: immutable_target_spec)
    have "op_ok ed ?op" by (rule fields_ok [OF new(1,2) [OF len]]) (simp_all add: new [OF len])
    from op_launch_good [OF c this] new [OF len] False
    show "event_good ed c (asks (Cl_put_immutable v arg now)) (snd (if v = [] \<or> BEP44_MAX_VALUE < length v
        then (False, c, [], []) else op_launch sign ok c (Some ?op) now))"
      by simp
  qed (use event_good_idle [OF c] in simp)
  show "event_good ed c (asks (Cl_get_immutable target arg now)) (snd (bep44_get_immutable sign ok c target arg now))"
    if "length target = 20"
  proof -
    let ?op = "(op_new c target False now (Cb_get arg))\<lparr>op_is_immutable := True\<rparr>"
    have "op_ok ed ?op" by (rule fields_ok [OF new(1,2) [OF that]]) (simp_all add: new [OF that])
    from op_launch_good [OF c this] new [OF that] show ?thesis by (simp add: bep44_get_immutable_def)
  qed
qed

lemma input_good:
  assumes c: "client_ok ed c"
  shows "event_good ed c (\<lambda>_. False) (snd (bep44_input ed sign ok c buf sa now))"
proof -
  have reply: "event_good ed c (\<lambda>_. False) (op_put_back k (reply_handle ed sign ok c (cl_ops c ! k)
      (the (req_match tid sa (cl_ops c ! k))) buf err sa now))"
    if "find_index (\<lambda>op. req_match tid sa op \<noteq> None) (cl_ops c) = Some k" for k tid err
  proof -
    have k: "k < length (cl_ops c)" "req_match tid sa (cl_ops c ! k) \<noteq> None" using find_index_SomeD [OF that] by auto
    then obtain i where i: "req_match tid sa (cl_ops c ! k) = Some i" by blast
    then obtain r where r: "i < length (op_reqs (cl_ops c ! k))" "op_reqs (cl_ops c ! k) ! i = Some r"
      by (auto simp: req_match_def dest!: find_index_SomeD split: option.splits)
    have ok: "op_ok ed (cl_ops c ! k)" using c k by (simp add: client_ok_def)
    have "\<forall>op \<in> set (cl_ops c). op_ok ed op \<and> (\<exists>op0. op0 \<in> set (cl_ops c) \<and> same_op op0 op)"
      using c by (auto simp: client_ok_def intro: same_op_refl)
    from op_put_back_good [OF _ _ this k(1) reply_handle_good [OF ok r, of c sign ok buf err sa now]] c
    show ?thesis using nth_mem [OF k(1)]
      unfolding event_good_def i option.sel by (auto simp: client_ok_def split: prod.splits)
  qed
  have query: "event_good ed c (\<lambda>_. False) (c\<lparr>cl_engine := e\<rparr>, out, [])"
    if "query_handle ed (cl_engine c) buf sa now = (mine, e, out)" for mine e out
  proof -
    have "store_ok ed e" using store_ok_step [of ed "cl_engine c" "Ev_datagram buf sa now"] c that by (simp add: client_ok_def)
    then show ?thesis using c by (auto simp: event_good_def client_ok_def intro: same_op_refl)
  qed
  show ?thesis
    unfolding bep44_input_def Let_def
    using query reply event_good_idle [OF c]
    by (auto split: option.split prod.split)
qed

text \<open>A round over the operations: what is kept, and the calls of those that ended.\<close>

definition call_for :: "b44_cb \<Rightarrow> b44_call \<Rightarrow> bool" where
  "call_for cb call = (case cb of Cb_put arg \<Rightarrow> \<exists>n sa. call = Put_done arg n sa | Cb_get arg \<Rightarrow> \<exists>v seq sa. call = Get_done arg v seq sa)"

lemma call_ok_for: "call_ok ed op call \<Longrightarrow> call_for (op_cb op) call"
  by (cases call) (auto simp: call_for_def)

lemma step_all_good:
  assumes "held_ok c" "store_ok ed (cl_engine c)" "\<forall>op \<in> set ops. op_ok ed op" "\<forall>op \<in> set ks. op_ok ed op"
    "step_all sign ok now ops (ks, c, out, calls) = (ks', c', out', calls')"
  shows "held_ok c' \<and> store_ok ed (cl_engine c') \<and> (\<forall>op \<in> set ks'. op_ok ed op) \<and>
    (\<forall>op' \<in> set ks'. op' \<in> set ks \<or> (\<exists>op \<in> set ops. same_op op op')) \<and>
    (\<forall>call \<in> set calls'. call \<in> set calls \<or> (\<exists>op \<in> set ops. call_ok ed op call)) \<and> set calls \<subseteq> set calls' \<and>
    (\<forall>op \<in> set ops. (\<exists>op' \<in> set ks'. same_op op op') \<or> (\<exists>call \<in> set calls'. call_for (op_cb op) call)) \<and>
    set ks \<subseteq> set ks'"
  using assms
proof (induction ops arbitrary: ks c out calls)
  case Nil
  then show ?case by simp
next
  case (Cons op ops)
  obtain c1 res o1 cs where st: "op_step sign ok c op now = (c1, res, o1, cs)" by (metis prod_cases4)
  have good: "step_good ed c op (c1, res, o1, cs)" using op_step_good [of ed op c sign ok now] Cons.prems(3) st by simp
  let ?ks = "ks @ (case res of None \<Rightarrow> [] | Some op \<Rightarrow> [op])"
  have up: "held_ok c1" "store_ok ed (cl_engine c1)"
    using client_ok_upkeep [of c c1 ed] good Cons.prems(1,2) by (simp_all add: step_good_def)
  have rest: "\<forall>op \<in> set ops. op_ok ed op" "\<forall>op \<in> set ?ks. op_ok ed op"
    using Cons.prems(3,4) good by (auto simp: step_good_def split: option.splits)
  have res: "step_all sign ok now ops (?ks, c1, out @ o1, calls @ cs) = (ks', c', out', calls')"
    using Cons.prems(5) by (simp add: st)
  from Cons.IH [OF up rest res] have IH:
    "held_ok c'" "store_ok ed (cl_engine c')" "\<forall>op \<in> set ks'. op_ok ed op"
    "\<forall>op' \<in> set ks'. op' \<in> set ?ks \<or> (\<exists>op \<in> set ops. same_op op op')"
    "\<forall>call \<in> set calls'. call \<in> set (calls @ cs) \<or> (\<exists>op \<in> set ops. call_ok ed op call)" "set (calls @ cs) \<subseteq> set calls'"
    "\<forall>op \<in> set ops. (\<exists>op' \<in> set ks'. same_op op op') \<or> (\<exists>call \<in> set calls'. call_for (op_cb op) call)"
    "set ?ks \<subseteq> set ks'" by blast+
  have "(\<exists>op' \<in> set ks'. same_op op op') \<or> (\<exists>call \<in> set calls'. call_for (op_cb op) call)"
  proof (cases res)
    case None
    then obtain call where "call \<in> set cs" "call_ok ed op call" using good by (cases cs) (auto simp: step_good_def)
    then have "call \<in> set calls'" "call_for (op_cb op) call" using IH(6) call_ok_for [of ed op call] by auto
    then show ?thesis by blast
  next
    case (Some op')
    then show ?thesis using good IH(8) by (auto simp: step_good_def)
  qed
  moreover have "\<forall>op' \<in> set ?ks. op' \<in> set ks \<or> same_op op op'"
    using good by (auto simp: step_good_def split: option.splits)
  moreover have "\<forall>call \<in> set cs. call_ok ed op call" using good by (auto simp: step_good_def split: option.splits)
  ultimately show ?case using IH by (simp add: ball_Un) blast
qed

lemma periodic_good:
  assumes c: "client_ok ed c"
  shows "event_good ed c (\<lambda>_. False) (bep44_periodic sign ok c now fresh)"
    and "bep44_periodic sign ok c now fresh = (c', out, calls) \<Longrightarrow> op \<in> set (cl_ops c) \<Longrightarrow>
      (\<exists>op' \<in> set (cl_ops c'). same_op op op') \<or> (\<exists>call \<in> set calls. call_for (op_cb op) call)"
proof -
  let ?c = "c\<lparr>cl_engine := serve_periodic (cl_engine c) now fresh\<rparr>"
  obtain kept' c1 out1 calls1 where st: "step_all sign ok now (cl_ops ?c) ([], ?c, [], []) = (kept', c1, out1, calls1)"
    by (metis prod_cases4)
  have "store_ok ed (cl_engine ?c)"
    using c store_ok_step [of ed "cl_engine c" "Ev_tick now fresh"] by (simp add: client_ok_def)
  from step_all_good [OF _ this _ _ st] c have
    all: "held_ok c1" "store_ok ed (cl_engine c1)" "\<forall>op \<in> set kept'. op_ok ed op"
      "\<forall>op' \<in> set kept'. \<exists>op \<in> set (cl_ops c). same_op op op'" "\<forall>call \<in> set calls1. \<exists>op \<in> set (cl_ops c). call_ok ed op call"
      "\<forall>op \<in> set (cl_ops c). (\<exists>op' \<in> set kept'. same_op op op') \<or> (\<exists>call \<in> set calls1. call_for (op_cb op) call)"
    by (simp_all add: client_ok_def)
  have res: "bep44_periodic sign ok c now fresh = (c1\<lparr>cl_ops := kept'\<rparr>, out1, calls1)"
    using st by (simp add: bep44_periodic_def Let_def)
  show "event_good ed c (\<lambda>_. False) (bep44_periodic sign ok c now fresh)"
    using all by (auto simp: res event_good_def client_ok_def)
  show "bep44_periodic sign ok c now fresh = (c', out, calls) \<Longrightarrow> op \<in> set (cl_ops c) \<Longrightarrow>
      (\<exists>op' \<in> set (cl_ops c'). same_op op op') \<or> (\<exists>call \<in> set calls. call_for (op_cb op) call)"
    unfolding res using all(6) by force
qed

lemma lists_good:
  assumes c: "client_ok ed c" and ops: "cl_ops c' = cl_ops c" "cl_engine c' = cl_engine c" and held: "held_ok c'"
  shows "event_good ed c new (c', [], [])"
  using assms by (auto simp: event_good_def client_ok_def intro: same_op_refl)

lemma client_step_good:
  assumes c: "client_ok ed c" and ev: "event_ok ev"
  shows "event_good ed c (asks ev) (client_step ed sign ok c ev)"
proof -
  have held: "held_ok c" using c by (simp add: client_ok_def)
  have weak: "event_good ed c (\<lambda>_. False) r \<Longrightarrow> event_good ed c new r" for r new
    by (auto simp: event_good_def)
  show ?thesis
  proof (cases ev)
    case (Cl_input buf sa now) then show ?thesis using weak [OF input_good [OF c]] by simp
  next
    case (Cl_periodic now fresh) then show ?thesis using weak [OF periodic_good(1) [OF c]] by simp
  next
    case (Cl_serve en f0 f1 now)
    have "store_ok ed (snd (bep44_serve (cl_engine c) en f0 f1 now))"
      using c store_ok_step [of ed "cl_engine c" "Ev_serve en f0 f1 now"] by (simp add: client_ok_def)
    then show ?thesis using c by (auto simp: Cl_serve event_good_def client_ok_def intro: same_op_refl)
  next
    case (Cl_bootstrap sa)
    show ?thesis unfolding Cl_bootstrap client_step.simps
      by (rule lists_good [OF c]) (use held in \<open>simp_all add: bep44_bootstrap_add_def held_ok_def\<close>)
  next
    case (Cl_seed nid sa)
    let ?old = "the_default (seed_new None sa 0) (cl_seeds c ! cl_seed_next c)"
    have "\<forall>s \<in> set ((cl_seeds c)[cl_seed_next c := Some (?old\<lparr>sd_id := nid, sd_sa := sa\<rparr>)]). pred_option seed_ok s"
      using held ev by (intro all_update) (simp_all add: held_ok_def seed_ok_def Cl_seed)
    then show ?thesis unfolding Cl_seed client_step.simps
      by (intro lists_good [OF c]) (use held in \<open>simp_all add: bep44_seed_add_def held_ok_def Let_def\<close>)
  next
    case (Cl_pin nid sa now)
    have "seed_ok (seed_new nid sa now)" using ev by (simp add: Cl_pin seed_ok_def seed_new_def)
    moreover from this have "\<forall>p \<in> set ((cl_pinned c)[i := seed_new nid sa now]). seed_ok p" for i
      using held all_update [of "cl_pinned c" seed_ok "seed_new nid sa now" i] by (simp add: held_ok_def)
    ultimately show ?thesis unfolding Cl_pin client_step.simps
      by (intro lists_good [OF c])
        (use held in \<open>simp_all add: bep44_pin_add_def held_ok_def Let_def split: option.split prod.split\<close>)
  next
    case (Cl_unpin sa)
    show ?thesis unfolding Cl_unpin client_step.simps
      by (rule lists_good [OF c])
        (use held in \<open>auto simp: bep44_pin_del_def held_ok_def split: option.split dest: in_set_takeD in_set_dropD\<close>)
  qed (use launch_events [OF c] launch_immutable [OF c] ev in simp_all)
qed

lemma client_ok_create: "client_ok ed (client_create myid s4 s6 mem)"
  using store_ok_create [of ed myid s4 s6 mem] by (simp add: client_ok_def client_create_def held_ok_def)

text \<open>The invariant with where each operation comes from.\<close>

definition traced :: "client_event list \<Rightarrow> b44_client \<Rightarrow> bool" where
  "traced evs c = (\<forall>op \<in> set (cl_ops c). \<exists>ev \<in> set evs. asks ev op)"

lemma client_run_snoc: "client_run ed sign ok c (evs @ [ev]) = fst (client_step ed sign ok (client_run ed sign ok c evs) ev)"
  by (simp add: client_run_def)

lemma client_run_ok:
  assumes "list_all event_ok evs"
  shows "client_ok ed (client_run ed sign ok (client_create myid s4 s6 mem) evs) \<and>
    traced evs (client_run ed sign ok (client_create myid s4 s6 mem) evs)"
  using assms
proof (induction evs rule: rev_induct)
  case Nil
  then show ?case using client_ok_create by (simp add: client_run_def traced_def client_create_def)
next
  case (snoc ev evs)
  let ?c = "client_run ed sign ok (client_create myid s4 s6 mem) evs"
  have IH: "client_ok ed ?c" "traced evs ?c" using snoc by simp_all
  have good: "event_good ed ?c (asks ev) (client_step ed sign ok ?c ev)"
    using client_step_good [OF IH(1)] snoc.prems by simp
  obtain c' out calls where st: "client_step ed sign ok ?c ev = (c', out, calls)" by (metis prod_cases3)
  have "\<exists>e \<in> set (evs @ [ev]). asks e op" if op: "op \<in> set (cl_ops c')" for op
  proof -
    from good op obtain op0 where "op0 \<in> set (cl_ops ?c) \<or> asks ev op0" and same: "same_op op0 op"
      unfolding event_good_def st by auto
    then have "\<exists>e \<in> set (evs @ [ev]). asks e op0" using IH(2) by (auto simp: traced_def)
    then show ?thesis using asks_same [OF same] by simp
  qed
  then show ?case using good unfolding client_run_snoc st by (simp add: event_good_def traced_def)
qed


text \<open>C6. 
  A value handed to the caller of a get, at any point of any run, was asked for under that caller's
  argument: for a mutable get the key asked for signed it, with the salt and the number reported; for
  an immutable one it hashes to the target. No reply, whoever sends it, gets anything else through.
\<close>

theorem delivered_value_authentic:
  assumes "list_all event_ok (evs @ [ev])"
    and "client_step ed sign ok (client_run ed sign ok (client_create myid s4 s6 mem) evs) ev = (c', out, calls)"
    and "Get_done arg (Some v) seq sa \<in> set calls"
  shows "length v \<le> 1000 \<and>
    ((\<exists>pk salt direct t sig. Cl_get pk salt direct arg t \<in> set (evs @ [ev]) \<and> 0 \<le> seq \<and> length sig = 64 \<and>
        ed sig pk (sig_buffer_n 1128 salt seq v)) \<or>
     (\<exists>target t. Cl_get_immutable target arg t \<in> set (evs @ [ev]) \<and> sha1_spec v = target))"
proof -
  let ?c = "client_run ed sign ok (client_create myid s4 s6 mem) evs"
  have c: "client_ok ed ?c" "traced evs ?c" using client_run_ok [of evs ed] assms(1) by simp_all
  have "event_good ed ?c (asks ev) (c', out, calls)" using client_step_good [OF c(1), of ev sign ok] assms(1,2) by simp
  then obtain op where op: "op \<in> set (cl_ops ?c) \<or> asks ev op" "call_ok ed op (Get_done arg (Some v) seq sa)"
    using assms(3) unfolding event_good_def prod.case by blast
  then obtain e where e: "e \<in> set (evs @ [ev])" "asks e op" using c(2) by (auto simp: traced_def)
  have auth: "op_cb op = Cb_get arg" "authentic ed op v seq" using op(2) by simp_all
  show ?thesis
  proof (cases "op_is_immutable op")
    case True
    then obtain target t where "e = Cl_get_immutable target arg t" "op_target op = target"
      using e(2) auth(1) by (cases e) auto
    then show ?thesis using auth(2) True e(1) by (auto simp: authentic_def BEP44_MAX_VALUE_def)
  next
    case False
    then obtain pk salt direct t where "e = Cl_get pk salt direct arg t" "op_pk op = pk" "op_salt op = salt"
      using e(2) auth(1) by (cases e) auto
    then show ?thesis using auth(2) False e(1) by (auto simp: authentic_def BEP44_MAX_VALUE_def)
  qed
qed


end
