(* ===== verification/Bep44_Wire.thy ===== *)
theory Bep44_Wire
  imports Bep44_Op Bep44_Items
begin

text \<open>
  The messages of bep44.c on the wire: what the writers produce is the canonical encoding of a
  dictionary, never too long for the buffer, and what the other side reads out of it is what was put
  in. It follows that a value put to a storing node is what a later get brings back.
\<close>

section \<open>Writing in pieces\<close>

lemma raw_add_all:
  "length (bb_buf b) + length (concat ds) \<le> bb_cap b \<Longrightarrow> \<not> bb_err b \<Longrightarrow>
   foldl benc_raw_add b ds = b\<lparr>bb_buf := bb_buf b @ concat ds\<rparr>"
proof (induction ds arbitrary: b)
  case (Cons d ds)
  have "benc_raw_add b d = b\<lparr>bb_buf := bb_buf b @ d\<rparr>" using Cons.prems by (simp add: benc_raw_add_def)
  then show ?case using Cons.IH [of "b\<lparr>bb_buf := bb_buf b @ d\<rparr>"] Cons.prems by simp
qed simp

lemma raw_add_init:
  "length (concat ds) \<le> cap \<Longrightarrow>
   foldl benc_raw_add (benc_buf_init cap) ds = \<lparr>bb_buf = concat ds, bb_cap = cap, bb_err = False\<rparr>"
  using raw_add_all [of "benc_buf_init cap" ds] by (simp add: benc_buf_init_def)

text \<open>How long the pieces are.\<close>

lemma length_dec_bytes: "n < 10 ^ k \<Longrightarrow> 0 < k \<Longrightarrow> length (dec_bytes n) \<le> k"
proof (induction k arbitrary: n)
  case (Suc k)
  show ?case
  proof (cases "n < 10")
    case True
    then show ?thesis by (simp add: dec_bytes_rec [of n])
  next
    case False
    then have "0 < k" "n div 10 < 10 ^ k" using Suc.prems by (auto simp: less_mult_imp_div_less mult.commute intro: Nat.gr0I)
    then have "length (dec_bytes (n div 10)) \<le> k" by (rule Suc.IH [rotated])
    then show ?thesis using False by (simp add: dec_bytes_rec [of n])
  qed
qed simp

lemma length_int: "0 \<le> i \<Longrightarrow> i \<le> int INT64_MAX \<Longrightarrow> length (bencode (BInt i)) \<le> 21"
  using length_dec_bytes [of "nat i" 19] by (simp add: dec_bytes_int_def INT64_MAX_def nat_less_iff)

section \<open>The messages as dictionaries\<close>

definition msg_dict :: "(byte list \<times> bval) list \<Rightarrow> string \<Rightarrow> byte list \<Rightarrow> bval" where
  "msg_dict args meth tid = BDict [(bytes ''a'', BDict args), (bytes ''q'', BStr (bytes meth)), (bytes ''t'', BStr tid),
     (bytes ''y'', BStr (bytes ''q''))]"

definition reply_dict :: "(byte list \<times> bval) list \<Rightarrow> byte list \<Rightarrow> bval" where
  "reply_dict r tid = BDict [(bytes ''r'', BDict r), (bytes ''t'', BStr tid), (bytes ''y'', BStr (bytes ''r''))]"

definition get_args :: "byte list \<Rightarrow> byte list \<Rightarrow> (byte list \<times> bval) list" where
  "get_args myid target = [(bytes ''id'', BStr myid), (bytes ''target'', BStr target),
     (bytes ''want'', BList [BStr (bytes ''n4''), BStr (bytes ''n6'')])]"

definition put_args :: "byte list \<Rightarrow> int \<Rightarrow> byte list \<Rightarrow> byte list \<Rightarrow> int \<Rightarrow> byte list \<Rightarrow> byte list \<Rightarrow> bval \<Rightarrow>
    (byte list \<times> bval) list" where
  "put_args myid cas pk salt seq sig token v =
     (if 0 \<le> cas then [(bytes ''cas'', BInt cas)] else []) @
     [(bytes ''id'', BStr myid), (bytes ''k'', BStr pk)] @
     (if salt \<noteq> [] then [(bytes ''salt'', BStr salt)] else []) @
     [(bytes ''seq'', BInt seq), (bytes ''sig'', BStr sig), (bytes ''token'', BStr token), (bytes ''v'', v)]"

lemma literals:
  "bytes ''d1:ad'' = 100 # bstr (bytes ''a'') @ [100]"
  "bytes ''d1:rd'' = 100 # bstr (bytes ''r'') @ [100]"
  "bytes ''e1:q3:put1:t'' = 101 # bstr (bytes ''q'') @ bstr (bytes ''put'') @ bstr (bytes ''t'')"
  "bytes ''e1:q3:get1:t'' = 101 # bstr (bytes ''q'') @ bstr (bytes ''get'') @ bstr (bytes ''t'')"
  "bytes ''e1:t'' = 101 # bstr (bytes ''t'')"
  "bytes ''1:y1:qe'' = bstr (bytes ''y'') @ bstr (bytes ''q'') @ [101]"
  "bytes ''1:y1:re'' = bstr (bytes ''y'') @ bstr (bytes ''r'') @ [101]"
  "bytes ''l2:n42:n6e'' = 108 # bstr (bytes ''n4'') @ bstr (bytes ''n6'') @ [101]"
  by (simp_all add: bytes_def bstr_def dec_bytes_rec)

lemma get_msg_bytes:
  assumes "length myid = 20" "length target = 20"
  shows "get_msg myid target tid =
    \<lparr>bb_buf = bencode (msg_dict (get_args myid target) ''get'' (tid_bytes tid)), bb_cap = 1400, bb_err = False\<rparr>"
proof -
  let ?s = "\<lambda>x. [dec_bytes (length x) @ [58], x]"
  let ?ds = "[bytes ''d1:ad''] @ ?s (bytes ''id'') @ ?s myid @ ?s (bytes ''target'') @ ?s target @ ?s (bytes ''want'') @
    [bytes ''l2:n42:n6e'', bytes ''e1:q3:get1:t''] @ ?s (tid_bytes tid) @ [bytes ''1:y1:qe'']"
  have "get_msg myid target tid = foldl benc_raw_add (benc_buf_init 1400) ?ds"
    by (simp add: get_msg_def Let_def benc_key_add_def benc_str_add_def B44_MSG_MAX_def)
  moreover have eq: "concat ?ds = bencode (msg_dict (get_args myid target) ''get'' (tid_bytes tid))"
    by (simp add: literals msg_dict_def get_args_def bstr_def)
  moreover have "length (concat ?ds) \<le> 1400"
    using assms by (simp add: bytes_def tid_bytes_def dec_bytes_rec)
  ultimately show ?thesis using raw_add_init [of ?ds 1400] by simp
qed

lemma put_msg_bytes:
  assumes "length myid = 20" "length pk = 32" "length salt \<le> 64" "length sig = 64" "length token \<le> 40"
    "length (bencode v) \<le> 1000" "0 \<le> seq" "seq \<le> int INT64_MAX" "cas \<le> int INT64_MAX"
  shows "put_msg myid cas pk salt seq sig token (bencode v) tid =
    \<lparr>bb_buf = bencode (msg_dict (put_args myid cas pk salt seq sig token v) ''put'' (tid_bytes tid)), bb_cap = 1400, bb_err = False\<rparr>"
proof -
  let ?s = "\<lambda>x. [dec_bytes (length x) @ [58], x]"
  let ?ds = "[bytes ''d1:ad''] @ (if 0 \<le> cas then ?s (bytes ''cas'') @ [bencode (BInt cas)] else []) @ ?s (bytes ''id'') @ ?s myid @
    ?s (bytes ''k'') @ ?s pk @ (if salt \<noteq> [] then ?s (bytes ''salt'') @ ?s salt else []) @ ?s (bytes ''seq'') @ [bencode (BInt seq)] @
    ?s (bytes ''sig'') @ ?s sig @ ?s (bytes ''token'') @ ?s token @ ?s (bytes ''v'') @ [bencode v] @
    [bytes ''e1:q3:put1:t''] @ ?s (tid_bytes tid) @ [bytes ''1:y1:qe'']"
  have "put_msg myid cas pk salt seq sig token (bencode v) tid = foldl benc_raw_add (benc_buf_init 1400) ?ds"
    by (simp add: put_msg_def Let_def benc_key_add_def benc_str_add_def benc_int_add_def B44_MSG_MAX_def)
  moreover have eq: "concat ?ds = bencode (msg_dict (put_args myid cas pk salt seq sig token v) ''put'' (tid_bytes tid))"
    by (simp add: literals msg_dict_def put_args_def bstr_def)
  moreover have "length (concat ?ds) \<le> 1400"
  proof -
    have "length (dec_bytes (length salt)) \<le> 2" "length (dec_bytes (length token)) \<le> 2"
      using assms(3,5) by (auto intro!: length_dec_bytes)
    moreover have "length (bencode (BInt seq)) \<le> 21" "0 \<le> cas \<Longrightarrow> length (bencode (BInt cas)) \<le> 21"
      using assms(7-9) length_int by blast+
    moreover have "length (dec_bytes 20) = 2" "length (dec_bytes 32) = 2" "length (dec_bytes 64) = 2"
      by (simp_all add: dec_bytes_rec)
    ultimately show ?thesis
      using assms by (auto simp: bytes_def tid_bytes_def dec_bytes_rec simp del: bencode.simps)
  qed
  ultimately show ?thesis using raw_add_init [of ?ds 1400] by simp
qed

section \<open>Reading them\<close>

lemma bval_ok_mono: "bval_ok n v \<Longrightarrow> n \<le> m \<Longrightarrow> bval_ok m v"
proof (induction v arbitrary: n m)
  case (BList vs)
  then show ?case by (auto intro!: BList.IH [of _ "n - 1" "m - 1"])
next
  case (BDict kvs)
  have "bval_ok (m - 1) v" if kv: "(k, v) \<in> set kvs" for k v
  proof -
    have "bval_ok (n - 1) v" "0 < n" using BDict.prems(1) kv by auto
    then show ?thesis using BDict.IH [of "(k, v)" v "n - 1" "m - 1"] kv BDict.prems(2) by auto
  qed
  then show ?case using BDict.prems by auto
qed auto

lemma str_get_bencode: "length s \<le> INT64_MAX \<Longrightarrow> benc_str_get (bencode (BStr s)) = Some s"
  using str_body_bstr [of s "[]"] by (simp add: benc_str_get_def)

lemma int_get_bencode:
  assumes "0 \<le> i" "i \<le> int INT64_MAX"
  shows "benc_int_get (bencode (BInt i)) = Some i"
proof -
  obtain c r where "dec_bytes (nat i) = c # r" "is_digit c"
    using dec_bytes_nonempty [of "nat i"] dec_bytes_digit [of _ "nat i"] by (cases "dec_bytes (nat i)") auto
  then have "hd (dec_bytes (nat i) @ [101]) \<noteq> 45" by (auto simp: is_digit_def)
  then show ?thesis
    using assms int_body_dec [of "nat i" "[]"] by (simp add: benc_int_get_def dec_bytes_int_def nat_le_iff)
qed

lemma key_less_cmp: "key_less a b \<longleftrightarrow> benc_key_cmp a b < 0"
  by (simp add: key_cmp_less)

lemma int64_max: "n \<le> 2000 \<Longrightarrow> n \<le> INT64_MAX"
  by (simp add: INT64_MAX_def)

lemma put_args_ok:
  assumes "length myid = 20" "length pk = 32" "length salt \<le> 64" "length sig = 64" "length token \<le> 40"
    "0 \<le> seq" "seq \<le> int INT64_MAX" "cas \<le> int INT64_MAX" "bval_ok 14 v"
  shows "bval_ok 15 (BDict (put_args myid cas pk salt seq sig token v))"
proof -
  have len: "20 \<le> INT64_MAX" "32 \<le> INT64_MAX" "64 \<le> INT64_MAX" "length salt \<le> INT64_MAX" "length token \<le> INT64_MAX"
    using assms(3,5) by (simp_all add: INT64_MAX_def)
  have key: "length (bytes k) \<le> INT64_MAX" if "length k \<le> 10" for k using that by (simp add: INT64_MAX_def bytes_def)
  have "nat \<bar>seq\<bar> \<le> INT64_MAX" "0 \<le> cas \<Longrightarrow> nat \<bar>cas\<bar> \<le> INT64_MAX" using assms(6-8) by auto
  moreover have "sorted_wrt key_less (map fst (put_args myid cas pk salt seq sig token v))"
    by (simp add: put_args_def key_less_cmp bytes_def)
  ultimately show ?thesis
    using assms len key unfolding bval_ok.simps(4) by (auto simp: put_args_def split: if_splits)
qed

lemma get_args_ok:
  assumes "length myid = 20" "length target = 20"
  shows "bval_ok 15 (BDict (get_args myid target))"
  using assms by (simp add: get_args_def key_less_cmp bytes_def INT64_MAX_def)

lemma msg_dict_ok:
  assumes "bval_ok 15 (BDict args)" "length meth = 3" "length tid \<le> 64"
  shows "bval_ok BENC_MAX_DEPTH (msg_dict args meth tid)"
proof -
  have "length tid \<le> INT64_MAX" "length (bytes meth) \<le> INT64_MAX" using assms by (simp_all add: INT64_MAX_def bytes_def)
  then show ?thesis
    using assms(1) by (simp add: msg_dict_def BENC_MAX_DEPTH_def key_less_cmp bytes_def INT64_MAX_def del: bval_ok.simps(4) One_nat_def)
      (simp add: key_less_cmp INT64_MAX_def)
qed

text \<open>A key of an encoded dictionary, read back.\<close>

lemma find_top: "bval_ok BENC_MAX_DEPTH (BDict kvs) \<Longrightarrow>
   benc_dict_find (bencode (BDict kvs)) key = map_option bencode (map_of kvs key)"
  using dict_find_bencode [of kvs "[]" key] by simp

lemma find_args: "bval_ok 15 (BDict kvs) \<Longrightarrow>
   benc_dict_find (bencode (BDict kvs)) key = map_option bencode (map_of kvs key)"
  using find_top [OF bval_ok_mono [of 15 "BDict kvs"]] by (simp add: BENC_MAX_DEPTH_def del: bval_ok.simps bencode.simps)

lemma canonical_args: "bval_ok 15 (BDict kvs) \<Longrightarrow> benc_canonical (bencode (BDict kvs))"
  using canon_complete [of 0 "BDict kvs" "[]"] bval_ok_mono [of 15 "BDict kvs" 16]
  by (simp add: benc_canonical_def BENC_MAX_DEPTH_def del: bval_ok.simps bencode.simps)

lemma bytes_eq [simp]: "bytes a = bytes b \<longleftrightarrow> a = b"
proof -
  have "inj (of_char :: char \<Rightarrow> byte)"
  proof (rule injI)
    fix x y :: char
    assume "of_char x = (of_char y :: byte)"
    then have "unat (of_nat (of_char x) :: byte) = unat (of_nat (of_char y) :: byte)" by (simp add: of_nat_of_char)
    then have "(of_char x :: nat) = of_char y" by (simp add: unat_of_nat)
    then show "x = y" by simp
  qed
  then show ?thesis by (simp add: bytes_def)
qed

text \<open>What the storing side reads from a message: its parts, and from the arguments what the writer put
  there.\<close>

lemma query_parts:
  assumes "bval_ok 15 (BDict args)" "length meth = 3" "length tid \<le> 64"
  defines "buf \<equiv> bencode (msg_dict args meth tid)"
  shows "Option.bind (benc_dict_find buf (bytes ''q'')) benc_str_get = Some (bytes meth)"
    "Option.bind (benc_dict_find buf (bytes ''t'')) benc_str_get = Some tid"
    "benc_dict_find buf (bytes ''a'') = Some (bencode (BDict args))"
    "Option.bind (benc_dict_find buf (bytes ''y'')) benc_str_get = Some (bytes ''q'')"
proof -
  have find: "benc_dict_find buf key = map_option bencode (map_of [(bytes ''a'', BDict args), (bytes ''q'', BStr (bytes meth)),
      (bytes ''t'', BStr tid), (bytes ''y'', BStr (bytes ''q''))] key)" for key
    using find_top msg_dict_ok [OF assms(1-3)] unfolding buf_def msg_dict_def by blast
  have len: "length tid \<le> INT64_MAX" "length (bytes meth) \<le> INT64_MAX" "length (bytes ''q'') \<le> INT64_MAX"
    using assms by (simp_all add: INT64_MAX_def bytes_def)
  note get = str_get_bencode [OF len(1)] str_get_bencode [OF len(2)] str_get_bencode [OF len(3)]
  show "Option.bind (benc_dict_find buf (bytes ''q'')) benc_str_get = Some (bytes meth)"
    "Option.bind (benc_dict_find buf (bytes ''t'')) benc_str_get = Some tid"
    "benc_dict_find buf (bytes ''a'') = Some (bencode (BDict args))"
    "Option.bind (benc_dict_find buf (bytes ''y'')) benc_str_get = Some (bytes ''q'')"
    unfolding find using get by (simp_all del: bencode.simps)
qed

lemma args_hd: "2 \<le> length (bencode (BDict kvs)) \<and> hd (bencode (BDict kvs)) = of_char (CHR ''d'')"
  by simp

lemma query_handle_msg:
  assumes args: "bval_ok 15 (BDict args)" "map_of args (bytes ''id'') = Some (BStr nid)" "length nid = 20"
    and meth: "meth \<in> {''get'', ''put''}" and tid: "length tid \<le> 64"
    and e: "en_serving e" "\<not> addr_martian sa" "fst (ban_ok (en_limit e) sa now)"
  defines "q \<equiv> \<lparr>qy_tid = tid, qy_from = sa, qy_args = bencode (BDict args), qy_want4 = False, qy_want6 = False\<rparr>"
  shows "query_handle ed e (bencode (msg_dict args meth tid)) sa now =
    (True, if meth = ''put'' then handle_put ed (limited e sa now) q now else handle_get (limited e sa now) (want_parse q) now)"
proof -
  have "length meth = 3" using meth by auto
  note parts = query_parts [OF args(1) this tid]
  obtain lm where lm: "ban_ok (en_limit e) sa now = (True, lm)" using e(3) by (cases "ban_ok (en_limit e) sa now") auto
  have "arg_str q' ''id'' = Present nid" if "qy_args q' = bencode (BDict args)" for q'
    using find_args [OF args(1)] args(2,3) str_get_bencode [of nid]
    by (simp add: arg_str_def that INT64_MAX_def del: bencode.simps)
  then show ?thesis
    using e meth tid args(3) args_hd [of args] lm
    by (auto simp: query_handle_def Let_def parts limited_def q_def B44_TID_MAX_def simp del: bencode.simps)
qed

section \<open>A put that arrives is stored\<close>

text \<open>A mutable item as a writer sends it, with the token it was given.\<close>

record b44_pub =
  pb_pk :: "byte list"
  pb_salt :: "byte list"
  pb_seq :: int
  pb_sig :: "byte list"
  pb_v :: bval

definition pub_ok :: "(byte list \<Rightarrow> byte list \<Rightarrow> byte list \<Rightarrow> bool) \<Rightarrow> b44_pub \<Rightarrow> bool" where
  "pub_ok ed p =
     (length (pb_pk p) = 32 \<and> length (pb_salt p) \<le> 64 \<and> 0 \<le> pb_seq p \<and> pb_seq p \<le> int INT64_MAX \<and>
      length (pb_sig p) = 64 \<and> bval_ok 14 (pb_v p) \<and> length (bencode (pb_v p)) \<le> 1000 \<and>
      ed (pb_sig p) (pb_pk p) (sig_buffer_n 1128 (pb_salt p) (pb_seq p) (bencode (pb_v p))))"

definition pub_target :: "b44_pub \<Rightarrow> byte list" where
  "pub_target p = target_n (pb_pk p) (pb_salt p)"

text \<open>The buffer that is signed holds every item of admissible size.\<close>

lemma sig_buffer_fits:
  assumes "length salt \<le> 64" "0 \<le> seq" "seq \<le> int INT64_MAX" "length v \<le> 1000"
  shows "sig_buffer_n 1128 salt seq v =
    (if salt = [] then [] else bytes ''4:salt'' @ bstr salt) @ bytes ''3:seq'' @ bencode (BInt seq) @ bytes ''1:v'' @ v"
proof -
  let ?s = "[dec_bytes (length salt) @ [58], salt]"
  let ?ds = "(if salt \<noteq> [] then [bytes ''4:salt''] @ ?s else []) @ [bytes ''3:seq'', bencode (BInt seq), bytes ''1:v'', v]"
  have len: "length (concat ?ds) \<le> 1128"
  proof -
    have "length (dec_bytes (length salt)) \<le> 2" using assms(1) by (auto intro!: length_dec_bytes)
    moreover have "length (bencode (BInt seq)) \<le> 21" using assms(2,3) by (rule length_int)
    ultimately show ?thesis using assms(1,4) by (auto simp: bytes_def simp del: bencode.simps)
  qed
  have "sig_buffer_n 1128 salt seq v =
      (let b = foldl benc_raw_add (benc_buf_init 1128) ?ds in if bb_err b then [] else bb_buf b)"
    by (simp add: sig_buffer_n_def Let_def benc_str_add_def benc_int_add_def)
  then show ?thesis unfolding raw_add_init [OF len] by (simp add: bstr_def)
qed

lemma put_fields_pub:
  assumes p: "pub_ok ed p" and myid: "length myid = 20" and cas: "cas \<le> int INT64_MAX"
    and tok: "token_valid e token sa (pub_target p)"
    and q: "qy_from q = sa" "qy_args q = bencode (BDict (put_args myid cas (pb_pk p) (pb_salt p) (pb_seq p) (pb_sig p) token (pb_v p)))"
  shows "put_fields ed e q = Inr \<lparr>pu_mutable = True, pu_target = pub_target p, pu_k = pb_pk p, pu_sig = pb_sig p,
    pu_salt = pb_salt p, pu_seq = pb_seq p, pu_cas = (if 0 \<le> cas then Some cas else None), pu_v = bencode (pb_v p)\<rparr>"
proof -
  let ?args = "put_args myid cas (pb_pk p) (pb_salt p) (pb_seq p) (pb_sig p) token (pb_v p)"
  have pk: "length (pb_pk p) = 32" "length (pb_salt p) \<le> 64" "0 \<le> pb_seq p" "pb_seq p \<le> int INT64_MAX" "length (pb_sig p) = 64"
    "bval_ok 14 (pb_v p)" "length (bencode (pb_v p)) \<le> 1000"
    "ed (pb_sig p) (pb_pk p) (sig_buffer_n 1128 (pb_salt p) (pb_seq p) (bencode (pb_v p)))"
    using p by (simp_all add: pub_ok_def)
  have len: "length token = 8" using tok by (auto simp: token_valid_iff token_make_spec)
  have "length token \<le> 40" using len by simp
  from put_args_ok [OF myid pk(1,2,5) this pk(3,4) cas pk(6)] have ok: "bval_ok 15 (BDict ?args)" .
  note find = find_args [OF ok, folded q(2)]
  have str: "benc_str_get (bencode (BStr s)) = Some s" if "length s \<le> 64" for s
    using str_get_bencode [of s] that by (simp add: INT64_MAX_def del: bencode.simps)
  have int_get: "benc_int_get (bencode (BInt i)) = Some i" if "0 \<le> i" "i \<le> int INT64_MAX" for i
    using int_get_bencode [OF that] .
  have args: "arg_raw q ''v'' = Some (bencode (pb_v p))" "arg_str q ''k'' = Present (pb_pk p)" "arg_str q ''sig'' = Present (pb_sig p)"
    "arg_str q ''salt'' = (if pb_salt p = [] then Absent else Present (pb_salt p))" "arg_int q ''seq'' = Present (pb_seq p)"
    "arg_int q ''cas'' = (if 0 \<le> cas then Present cas else Absent)" "arg_str q ''token'' = Present token"
    using pk cas len str int_get
    by (simp_all add: arg_raw_def arg_str_def arg_int_def find put_args_def del: bencode.simps)
  have "sig_buffer_n 1128 (pb_salt p) (pb_seq p) (bencode (pb_v p)) \<noteq> []"
    unfolding sig_buffer_fits [OF pk(2,3,4,7)] by simp
  moreover have "the_default [] (present (arg_str q ''salt'')) = pb_salt p" by (simp add: args the_default_def)
  ultimately show ?thesis
    using canonical_args [OF ok, folded q(2)] pk tok q(1)
    by (simp add: put_fields_def args Let_def the_default_def BEP44_MAX_VALUE_def BEP44_MAX_SALT_def pub_target_def del: bencode.simps)
qed

text \<open>What the storing node holds of it.\<close>

definition pub_item :: "b44_pub \<Rightarrow> u64 \<Rightarrow> b44_item" where
  "pub_item p now = \<lparr>it_target = pub_target p, it_k = pb_pk p, it_sig = pb_sig p, it_salt = pb_salt p, it_mutable = True,
     it_seq = pb_seq p, it_expires_ms = now + B44_ITEM_TTL_MS, it_v = bencode (pb_v p)\<rparr>"

text \<open>The put is newer than what the node holds under the name, if it holds anything, and the
  compare-and-swap agrees; or the name is new and there is room.\<close>

definition put_welcome :: "bep44_engine \<Rightarrow> b44_pub \<Rightarrow> int \<Rightarrow> bool" where
  "put_welcome e p cas =
     (case lookup_item e (pub_target p) of
        Some it \<Rightarrow> it_mutable it \<and> it_seq it < pb_seq p \<and> (0 \<le> cas \<longrightarrow> cas = it_seq it)
      | None \<Rightarrow> store_free_slot e (pub_target p) \<noteq> None)"

lemma slot_update:
  assumes "s < length (en_store e)" "it_target x = t" "\<forall>i it. i < s \<longrightarrow> en_store e ! i = Some it \<longrightarrow> it_target it \<noteq> t"
  shows "lookup_item (e\<lparr>en_store := (en_store e)[s := Some x]\<rparr>) t = Some x"
proof -
  let ?P = "\<lambda>s. case s of Some it \<Rightarrow> it_target it = t | None \<Rightarrow> False"
  have "find_index ?P (xs[s := Some x]) = Some s" if "s < length xs" "\<forall>i < s. \<not> ?P (xs ! i)" for xs s
    using that
  proof (induction xs arbitrary: s)
    case (Cons y ys)
    show ?case
    proof (cases s)
      case 0
      then show ?thesis using assms(2) by simp
    next
      case (Suc k)
      have "\<forall>i < k. \<not> ?P (ys ! i)" using Cons.prems(2) Suc by (metis Suc_less_eq nth_Cons_Suc)
      moreover have "\<not> ?P y" using Cons.prems(2) Suc by (metis nth_Cons_0 zero_less_Suc)
      ultimately show ?thesis using Cons.IH [of k] Cons.prems(1) Suc by simp
    qed
  qed simp
  from this [of s "en_store e"] assms(1,3) show ?thesis
    by (auto simp: lookup_item_def store_slot_of_def split: option.splits)
qed

lemma handle_put_pub:
  assumes fields: "put_fields ed e q = Inr \<lparr>pu_mutable = True, pu_target = pub_target p, pu_k = pb_pk p, pu_sig = pb_sig p,
      pu_salt = pb_salt p, pu_seq = pb_seq p, pu_cas = (if 0 \<le> cas then Some cas else None), pu_v = bencode (pb_v p)\<rparr>"
    and open_slot: "put_welcome (store_expire e now) p cas"
    and ok: "store_ok ed e" "length (en_myid e) = 20"
  shows "lookup_item (fst (handle_put ed e q now)) (pub_target p) = Some (pub_item p now) \<and>
    snd (handle_put ed e q now) = send_ack (store_expire e now) q"
proof -
  let ?e = "store_expire e now"
  let ?p = "\<lparr>pu_mutable = True, pu_target = pub_target p, pu_k = pb_pk p, pu_sig = pb_sig p,
      pu_salt = pb_salt p, pu_seq = pb_seq p, pu_cas = (if 0 \<le> cas then Some cas else None), pu_v = bencode (pb_v p)\<rparr>"
  have item: "put_item ?p now = pub_item p now" by (simp add: put_item_def item_new_def pub_item_def Let_def)
  note ok' = store_ok_expire [OF ok(1), of now]
  show ?thesis
  proof (cases "store_slot_of ?e (pub_target p)")
    case None
    then obtain s where s: "store_free_slot ?e (pub_target p) = Some s"
      using open_slot by (auto simp: put_welcome_def lookup_item_def)
    have "s < length (en_store ?e)" using free_slot_spec [OF _ store_ok_names [OF ok'] s] ok(2) by simp
    moreover from this have "\<forall>i it. i < s \<longrightarrow> en_store ?e ! i = Some it \<longrightarrow> it_target it \<noteq> pub_target p"
      using None slot_of_None [of ?e "pub_target p"] by (metis less_trans nth_mem)
    ultimately have "lookup_item (?e\<lparr>en_store := (en_store ?e)[s := Some (pub_item p now)]\<rparr>) (pub_target p) = Some (pub_item p now)"
      by (intro slot_update) (simp_all add: pub_item_def)
    then show ?thesis using None s by (simp add: handle_put_def fields Let_def item)
  next
    case (Some s)
    from slot_of_Some [OF this] obtain it where it: "s < length (en_store ?e)" "en_store ?e ! s = Some it" "it_target it = pub_target p"
      by blast
    then have w: "it_mutable it" "it_seq it < pb_seq p" "0 \<le> cas \<longrightarrow> cas = it_seq it"
      using open_slot Some by (simp_all add: put_welcome_def lookup_item_def)
    have "\<forall>i x. i < s \<longrightarrow> en_store ?e ! i = Some x \<longrightarrow> it_target x \<noteq> pub_target p"
      using ok_names [OF ok', of _ s _ it] it by (metis less_trans less_irrefl)
    then have "lookup_item (?e\<lparr>en_store := (en_store ?e)[s := Some (pub_item p now)]\<rparr>) (pub_target p) = Some (pub_item p now)"
      using it(1) by (intro slot_update) (auto simp: pub_item_def)
    then show ?thesis using Some it(2) w by (auto simp: handle_put_def fields Let_def item)
  qed
qed

section \<open>A get brings it back\<close>

definition item_reply :: "byte list \<Rightarrow> b44_pub \<Rightarrow> byte list \<Rightarrow> (byte list \<times> bval) list" where
  "item_reply myid p token = [(bytes ''id'', BStr myid), (bytes ''k'', BStr (pb_pk p)), (bytes ''seq'', BInt (pb_seq p)),
     (bytes ''sig'', BStr (pb_sig p)), (bytes ''token'', BStr token), (bytes ''v'', pb_v p)]"

lemma item_reply_ok:
  assumes p: "pub_ok ed p" and "length myid = 20" "length token = 8"
  shows "bval_ok 15 (BDict (item_reply myid p token))"
proof -
  have "nat \<bar>pb_seq p\<bar> \<le> INT64_MAX" using p by (simp add: pub_ok_def nat_le_iff)
  moreover have "sorted_wrt key_less (map fst (item_reply myid p token))"
    by (simp add: item_reply_def key_less_cmp bytes_def)
  moreover have "length (bytes k) \<le> INT64_MAX" if "length k \<le> 10" for k using that by (simp add: INT64_MAX_def bytes_def)
  moreover have "20 \<le> INT64_MAX" "32 \<le> INT64_MAX" "64 \<le> INT64_MAX" "8 \<le> INT64_MAX" by (simp_all add: INT64_MAX_def)
  ultimately show ?thesis using assms unfolding bval_ok.simps(4) pub_ok_def by (auto simp: item_reply_def)
qed

lemma reply_dict_ok:
  assumes "bval_ok 15 (BDict r)" "length tid \<le> 64"
  shows "bval_ok BENC_MAX_DEPTH (reply_dict r tid)"
proof -
  have "length tid \<le> INT64_MAX" using assms by (simp add: INT64_MAX_def)
  then show ?thesis
    using assms(1) by (simp add: reply_dict_def BENC_MAX_DEPTH_def key_less_cmp bytes_def INT64_MAX_def del: bval_ok.simps(4) One_nat_def)
      (simp add: key_less_cmp INT64_MAX_def)
qed

lemma get_reply_bytes:
  assumes p: "pub_ok ed p" and e: "length (en_myid e) = 20" and tid: "length (qy_tid q) \<le> 64"
  shows "get_reply e q t (Some (pub_item p now)) True now' =
    \<lparr>bb_buf = bencode (reply_dict (item_reply (en_myid e) p (token_make (fst (en_secret e)) (qy_from q) t)) (qy_tid q)),
     bb_cap = 1400, bb_err = False\<rparr>"
proof -
  let ?s = "\<lambda>x. [dec_bytes (length x) @ [58], x]"
  let ?tok = "token_make (fst (en_secret e)) (qy_from q) t"
  let ?ds = "[bytes ''d1:rd''] @ ?s (bytes ''id'') @ ?s (en_myid e) @ ?s (bytes ''k'') @ ?s (pb_pk p) @
    ?s (bytes ''seq'') @ [bencode (BInt (pb_seq p))] @ ?s (bytes ''sig'') @ ?s (pb_sig p) @ ?s (bytes ''token'') @ ?s ?tok @
    ?s (bytes ''v'') @ [bencode (pb_v p)] @ [bytes ''e1:t''] @ ?s (qy_tid q) @ [bytes ''1:y1:re'']"
  have "get_reply e q t (Some (pub_item p now)) True now' = foldl benc_raw_add (benc_buf_init 1400) ?ds"
    by (simp add: get_reply_def Let_def benc_key_add_def benc_str_add_def benc_int_add_def B44_MSG_MAX_def pub_item_def the_default_def)
  moreover have eq: "concat ?ds = bencode (reply_dict (item_reply (en_myid e) p ?tok) (qy_tid q))"
    by (simp add: literals reply_dict_def item_reply_def bstr_def)
  moreover have "length (concat ?ds) \<le> 1400"
  proof -
    have "length (dec_bytes (length (qy_tid q))) \<le> 2" using tid by (auto intro!: length_dec_bytes)
    moreover have "length (bencode (BInt (pb_seq p))) \<le> 21" using p by (intro length_int) (simp_all add: pub_ok_def)
    moreover have "length (dec_bytes 20) = 2" "length (dec_bytes 32) = 2" "length (dec_bytes 64) = 2" "length (dec_bytes 8) = 1"
      by (simp_all add: dec_bytes_rec)
    moreover have "length ?tok = 8" by (simp add: token_make_spec)
    ultimately show ?thesis
      using p e tid by (auto simp: pub_ok_def bytes_def dec_bytes_rec simp del: bencode.simps)
  qed
  ultimately show ?thesis using raw_add_init [of ?ds 1400] by simp
qed

text \<open>The reader takes the value out of the reply, unless it has one of a higher number already.\<close>

lemma value_check_reply:
  assumes p: "pub_ok ed p" and my: "length myid = 20" "length token = 8"
    and op: "\<not> op_is_immutable op" "op_pk op = pb_pk p" "op_salt op = pb_salt p"
      "case op_best op of None \<Rightarrow> True | Some (v, seq) \<Rightarrow> seq < pb_seq p"
  shows "op_best (value_check ed op k sa (bencode (BDict (item_reply myid p token)))) = Some (bencode (pb_v p), pb_seq p)"
proof -
  note find = find_args [OF item_reply_ok [OF p my]]
  have pk: "length (pb_pk p) = 32" "length (pb_salt p) \<le> 64" "0 \<le> pb_seq p" "pb_seq p \<le> int INT64_MAX" "length (pb_sig p) = 64"
    "length (bencode (pb_v p)) \<le> 1000"
    "ed (pb_sig p) (pb_pk p) (sig_buffer_n 1128 (pb_salt p) (pb_seq p) (bencode (pb_v p)))"
    using p by (simp_all add: pub_ok_def)
  have str: "benc_str_get (bencode (BStr s)) = Some s" if "length s \<le> 64" for s
    using str_get_bencode [of s] that by (simp add: INT64_MAX_def del: bencode.simps)
  have "sig_buffer_n 1128 (pb_salt p) (pb_seq p) (bencode (pb_v p)) \<noteq> []"
    unfolding sig_buffer_fits [OF pk(2,3,4,6)] by simp
  moreover have "dict_str (bencode (BDict (item_reply myid p token))) ''k'' = Some (pb_pk p)"
    "dict_str (bencode (BDict (item_reply myid p token))) ''sig'' = Some (pb_sig p)"
    "benc_dict_find (bencode (BDict (item_reply myid p token))) (bytes ''v'') = Some (bencode (pb_v p))"
    "Option.bind (benc_dict_find (bencode (BDict (item_reply myid p token))) (bytes ''seq'')) benc_int_get = Some (pb_seq p)"
    unfolding dict_str_def find
    using str pk int_get_bencode [OF pk(3,4)] by (simp_all add: item_reply_def del: bencode.simps)
  ultimately have "value_check ed op k sa (bencode (BDict (item_reply myid p token))) =
      value_note op k (bencode (pb_v p)) (pb_seq p) sa"
    using pk op(1-3) by (simp add: value_check_def BEP44_MAX_VALUE_def Let_def del: bencode.simps)
  moreover have "op_best (best_set op' v seq sa) = Some (v, seq)" for op' v seq
    by (simp add: best_set_def record_best_node_def)
  ultimately show ?thesis using op(4) by (auto simp: value_note_def Let_def split: option.splits)
qed

lemma handle_get_pub:
  assumes p: "pub_ok ed p" and e: "length (en_myid e) = 20" and tid: "length (qy_tid q) \<le> 64" and sa: "qy_from q \<noteq> Sa_other"
    and args: "qy_args q = bencode (BDict (get_args rid (pub_target p)))" "length rid = 20"
    and item: "lookup_item (store_expire e now') (pub_target p) = Some (pub_item p now)"
  shows "snd (handle_get e q now') = msg_send e (qy_from q) (bencode (reply_dict
    (item_reply (en_myid e) p (token_make (fst (en_secret e)) (qy_from q) (pub_target p))) (qy_tid q)))"
proof -
  have t: "length (pub_target p) = 20" by (simp add: pub_target_def target_n_spec)
  note find = find_args [OF get_args_ok [OF args(2) t], folded args(1)]
  have "arg_str q ''target'' = Present (pub_target p)" "arg_int q ''seq'' = Absent"
    using str_get_bencode [of "pub_target p"] t
    by (simp_all add: arg_str_def arg_int_def find get_args_def INT64_MAX_def del: bencode.simps)
  moreover have "get_reply (store_expire e now') q (pub_target p) (Some (pub_item p now)) True now' =
    \<lparr>bb_buf = bencode (reply_dict (item_reply (en_myid e) p (token_make (fst (en_secret e)) (qy_from q) (pub_target p))) (qy_tid q)),
     bb_cap = 1400, bb_err = False\<rparr>"
    using get_reply_bytes [OF p, of "store_expire e now'" q] e tid by simp
  moreover have "msg_send (store_expire e now') = msg_send e" by (simp add: fun_eq_iff msg_send_def store_expire_def)
  ultimately show ?thesis
    using t item sa by (simp add: handle_get_def Let_def lookup_item_def [symmetric] query_send_def)
qed

text \<open>The same node, later: nothing but the passing of its time takes the item away before the get.\<close>

lemma lookup_expire:
  assumes "store_ok ed e" "lookup_item e t = Some it" "now < it_expires_ms it"
  shows "lookup_item (store_expire e now) t = Some it"
  using lookup_iff [OF assms(1)] lookup_iff [OF store_ok_expire [OF assms(1)]] assms(2,3)
  by (simp add: store_expire_store set_expired)

lemma limited_lookup: "lookup_item (limited e sa now) t = lookup_item e t"
  by (simp add: lookup_item_def store_slot_of_def cong: option.case_cong)

lemma limited_welcome: "put_welcome (store_expire (limited e sa now) now') p cas = put_welcome (store_expire e now') p cas"
proof -
  have "store_free_slot (limited e sa now) t = store_free_slot e t" for e t
    unfolding store_free_slot_def limited_other by (rule refl)
  note this [simp]
  show ?thesis unfolding put_welcome_def limited_expire limited_lookup by (cases "lookup_item (store_expire e now') (pub_target p)") simp_all
qed

lemma ack_bytes:
  assumes "length (en_myid e) = 20" "length (qy_tid q) = 4" "qy_from q \<noteq> Sa_other"
  shows "send_ack e q = msg_send e (qy_from q) (bencode (reply_dict [(bytes ''id'', BStr (en_myid e))] (qy_tid q)))"
proof -
  let ?s = "\<lambda>x. [dec_bytes (length x) @ [58], x]"
  let ?ds = "[bytes ''d1:rd''] @ ?s (bytes ''id'') @ ?s (en_myid e) @ [bytes ''e1:t''] @ ?s (qy_tid q) @ [bytes ''1:y1:re'']"
  have "send_ack e q = query_send e q (foldl benc_raw_add (benc_buf_init 128) ?ds)"
    by (simp add: send_ack_def Let_def benc_key_add_def benc_str_add_def)
  moreover have eq: "concat ?ds = bencode (reply_dict [(bytes ''id'', BStr (en_myid e))] (qy_tid q))"
    by (simp add: literals reply_dict_def bstr_def)
  moreover have "length (concat ?ds) \<le> 128"
    using assms by (simp add: bytes_def dec_bytes_rec)
  ultimately show ?thesis using raw_add_init [of ?ds 128] assms(3) by (simp add: query_send_def)
qed

lemma sockets_kept:
  "en_s4 (limited e sa now) = en_s4 e" "en_s6 (limited e sa now) = en_s6 e"
  "en_s4 (store_expire e now) = en_s4 e" "en_s6 (store_expire e now) = en_s6 e"
  "en_s4 (fst (handle_put ed e q now)) = en_s4 e" "en_s6 (fst (handle_put ed e q now)) = en_s6 e"
  "en_limit (fst (handle_put ed e q now)) = en_limit e"
  by (auto simp: limited_def store_expire_def handle_put_def Let_def split: sum.splits option.splits)

lemma martian_other: "\<not> addr_martian sa \<Longrightarrow> sa \<noteq> Sa_other"
  by auto

text \<open>The whole way of a put, from its datagram to the acknowledgement, and of a get.\<close>

lemma put_stored:
  fixes tid
  assumes e: "store_ok ed e" "length (en_myid e) = 20" "en_serving e" "en_s4 e" "en_s6 e"
    and p: "pub_ok ed p" "token_valid e token sa (pub_target p)" "put_welcome (store_expire e now) p cas" "cas \<le> int INT64_MAX"
    and writer: "length wid = 20" "\<not> addr_martian sa" "fst (ban_ok (en_limit e) sa now)"
  defines "res \<equiv> query_handle ed e (bb_buf (put_msg wid cas (pb_pk p) (pb_salt p) (pb_seq p) (pb_sig p) token (bencode (pb_v p)) tid)) sa now"
  shows "lookup_item (fst (snd res)) (pub_target p) = Some (pub_item p now)"
    "snd (snd res) = [(sa, bencode (reply_dict [(bytes ''id'', BStr (en_myid e))] (tid_bytes tid)))]"
    "store_ok ed (fst (snd res))" "en_myid (fst (snd res)) = en_myid e" "en_secret (fst (snd res)) = en_secret e"
    "en_serving (fst (snd res))" "en_s4 (fst (snd res))" "en_s6 (fst (snd res))"
    "en_limit (fst (snd res)) = snd (ban_ok (en_limit e) sa now)"
proof -
  let ?args = "put_args wid cas (pb_pk p) (pb_salt p) (pb_seq p) (pb_sig p) token (pb_v p)"
  let ?e = "limited e sa now"
  let ?q = "\<lparr>qy_tid = tid_bytes tid, qy_from = sa, qy_args = bencode (BDict ?args), qy_want4 = False, qy_want6 = False\<rparr>"
  have pk: "length (pb_pk p) = 32" "length (pb_salt p) \<le> 64" "0 \<le> pb_seq p" "pb_seq p \<le> int INT64_MAX" "length (pb_sig p) = 64"
    "bval_ok 14 (pb_v p)" "length (bencode (pb_v p)) \<le> 1000"
    using p(1) by (simp_all add: pub_ok_def)
  have len: "length token \<le> 40" using p(2) by (auto simp: token_valid_iff token_make_spec)
  note args = put_args_ok [OF writer(1) pk(1,2,5) len pk(3,4) p(4) pk(6)]
  have tid: "length (tid_bytes tid) \<le> 64" "length (tid_bytes tid) = 4" by (simp_all add: tid_bytes_def)
  have nid: "map_of ?args (bytes ''id'') = Some (BStr wid)" by (simp add: put_args_def)
  have res: "res = (True, handle_put ed ?e ?q now)"
    unfolding res_def put_msg_bytes [OF writer(1) pk(1,2,5) len pk(7,3,4) p(4)]
    using query_handle_msg [OF args nid writer(1) _ tid(1) e(3) writer(2,3), of "''put''" ed] by simp
  have tok: "token_valid ?e token sa (pub_target p)" using p(2) by (simp add: token_valid_iff)
  have sok: "store_ok ed ?e" using e(1) by (simp add: store_ok_iff)
  have fields: "put_fields ed ?e ?q = Inr \<lparr>pu_mutable = True, pu_target = pub_target p, pu_k = pb_pk p, pu_sig = pb_sig p,
    pu_salt = pb_salt p, pu_seq = pb_seq p, pu_cas = (if 0 \<le> cas then Some cas else None), pu_v = bencode (pb_v p)\<rparr>"
    by (rule put_fields_pub [OF p(1) writer(1) p(4) tok]) simp_all
  have "put_welcome (store_expire ?e now) p cas" using p(3) by (simp add: limited_welcome)
  note stored = handle_put_pub [OF fields this sok, unfolded limited_other, OF e(2)]
  show "lookup_item (fst (snd res)) (pub_target p) = Some (pub_item p now)" using stored by (simp add: res)
  have "sa \<noteq> Sa_other" using writer(2) by auto
  then show "snd (snd res) = [(sa, bencode (reply_dict [(bytes ''id'', BStr (en_myid e))] (tid_bytes tid)))]"
    using stored ack_bytes [of "store_expire ?e now" ?q] e(2,4,5) tid(2)
    by (simp add: res msg_send_def sockets_kept del: bencode.simps)
  show "store_ok ed (fst (snd res))" using store_ok_put [OF sok] by (simp add: res)
  show "en_myid (fst (snd res)) = en_myid e" "en_secret (fst (snd res)) = en_secret e"
    "en_serving (fst (snd res))" "en_s4 (fst (snd res))" "en_s6 (fst (snd res))"
    "en_limit (fst (snd res)) = snd (ban_ok (en_limit e) sa now)"
    using e by (simp_all add: res handle_put_other sockets_kept, simp add: limited_def)
qed

lemma get_answered:
  assumes e: "store_ok ed e" "length (en_myid e) = 20" "en_serving e" "en_s4 e" "en_s6 e"
    and p: "pub_ok ed p" "lookup_item e (pub_target p) = Some (pub_item p now)" "now' < now + B44_ITEM_TTL_MS"
    and reader: "length rid = 20" "\<not> addr_martian sa" "fst (ban_ok (en_limit e) sa now')"
  shows "snd (snd (query_handle ed e (bb_buf (get_msg rid (pub_target p) tid)) sa now')) =
    [(sa, bencode (reply_dict (item_reply (en_myid e) p (token_make (fst (en_secret e)) sa (pub_target p))) (tid_bytes tid)))]"
proof -
  let ?args = "get_args rid (pub_target p)"
  let ?e = "limited e sa now'"
  let ?q = "\<lparr>qy_tid = tid_bytes tid, qy_from = sa, qy_args = bencode (BDict ?args), qy_want4 = False, qy_want6 = False\<rparr>"
  have t: "length (pub_target p) = 20" by (simp add: pub_target_def target_n_spec)
  have tid: "length (tid_bytes tid) \<le> 64" by (simp add: tid_bytes_def)
  have nid: "map_of ?args (bytes ''id'') = Some (BStr rid)" by (simp add: get_args_def)
  have w: "qy_tid (want_parse ?q) = tid_bytes tid" "qy_from (want_parse ?q) = sa" "qy_args (want_parse ?q) = bencode (BDict ?args)"
    by (simp_all add: want_parse_def split: option.split)
  have sok: "store_ok ed ?e" using e(1) by (simp add: store_ok_iff)
  have "lookup_item (store_expire ?e now') (pub_target p) = Some (pub_item p now)"
    using p(2,3) by (intro lookup_expire [OF sok]) (simp_all add: limited_lookup pub_item_def)
  note reply = handle_get_pub [OF p(1) _ _ _ w(3) reader(1) this, unfolded w limited_other, OF e(2) tid martian_other [OF reader(2)]]
  have "query_handle ed e (bb_buf (get_msg rid (pub_target p) tid)) sa now' = (True, handle_get ?e (want_parse ?q) now')"
    unfolding get_msg_bytes [OF reader(1) t]
    using query_handle_msg [OF get_args_ok [OF reader(1) t] nid reader(1) _ tid e(3) reader(2,3), of "''get''" ed] by simp
  then show ?thesis using reply e(4,5) by (simp add: msg_send_def sockets_kept)
qed

text \<open>C5. 
  What one peer publishes another reads. In any reachable state of a serving node, let a writer send the
  put of a well-formed signed item, from an address the limiter admits, with a token the node gave out
  for that name and address; let the item be newer than the one held, as the compare-and-swap says, or
  let there be room for it. Then the node acknowledges it, and until two hours have passed a get for
  the name, from any address that is admitted, is answered by a message from which a reader that looks
  for the key takes exactly the value and number that were put, unless it holds a newer one.
\<close>

theorem published_value_read:
  assumes e: "e = b44_run ed (bep44_create myid s4 s6 mem) evs" "length myid = 20" "en_serving e" "en_s4 e" "en_s6 e"
    and p: "pub_ok ed p" "token_valid e token sa (pub_target p)" "put_welcome (store_expire e now) p cas" "cas \<le> int INT64_MAX"
    and writer: "length wid = 20" "\<not> addr_martian sa" "fst (ban_ok (en_limit e) sa now)"
    and put: "query_handle ed e (bb_buf (put_msg wid cas (pb_pk p) (pb_salt p) (pb_seq p) (pb_sig p) token (bencode (pb_v p)) tid)) sa now =
      (mine, e1, out1)"
    and reader: "length rid = 20" "\<not> addr_martian sa'" "fst (ban_ok (en_limit e1) sa' now')" "now' < now + B44_ITEM_TTL_MS"
    and op: "\<not> op_is_immutable op" "op_pk op = pb_pk p" "op_salt op = pb_salt p"
      "case op_best op of None \<Rightarrow> True | Some (v, seq) \<Rightarrow> seq < pb_seq p"
  shows "(\<exists>ack. out1 = [(sa, ack)]) \<and>
    (\<exists>reply rdict. snd (snd (query_handle ed e1 (bb_buf (get_msg rid (pub_target p) tid')) sa' now')) = [(sa', reply)] \<and>
       benc_dict_find reply (bytes ''r'') = Some rdict \<and>
       op_best (value_check ed op k peer rdict) = Some (bencode (pb_v p), pb_seq p))"
proof -
  have ok: "store_ok ed e" "length (en_myid e) = 20"
    using e(1,2) store_ok_run [OF store_ok_create] by (simp_all add: run_myid bep44_create_def)
  note stored = put_stored [OF ok e(3-5) p writer, where tid = tid, unfolded put fst_conv snd_conv]
  let ?r = "item_reply (en_myid e1) p (token_make (fst (en_secret e1)) sa' (pub_target p))"
  have my: "length (en_myid e1) = 20" using stored(4) ok(2) by simp
  note reply = get_answered [OF stored(3) my stored(6-8) p(1) stored(1) reader(4) reader(1-3), of tid']
  have tok: "length (token_make (fst (en_secret e1)) sa' (pub_target p)) = 8" by (simp add: token_make_spec)
  have "benc_dict_find (bencode (reply_dict ?r (tid_bytes tid'))) (bytes ''r'') = Some (bencode (BDict ?r))"
    using find_top [of _ "bytes ''r''"] reply_dict_ok [OF item_reply_ok [OF p(1) my tok], of "tid_bytes tid'"]
    unfolding reply_dict_def by (simp add: tid_bytes_def del: bencode.simps bval_ok.simps)
  then show ?thesis
    using reply stored(2) value_check_reply [OF p(1) my tok op] by blast
qed

section \<open>At work\<close>

text \<open>A node that has just begun to serve, an item for it, and the put and the get of it.\<close>

definition demo_ed :: "byte list \<Rightarrow> byte list \<Rightarrow> byte list \<Rightarrow> bool" where
  "demo_ed sig pk msg = (take 32 sig = pk)"

definition demo_events :: "b44_event list" where
  "demo_events = [Ev_serve True (Some (replicate 16 1)) (Some (replicate 16 2)) 0]"

definition demo_node :: bep44_engine where
  "demo_node = b44_run demo_ed (bep44_create (replicate 20 1) True True 0) demo_events"

definition demo_sa :: b44_sa where
  "demo_sa = Sa4 [8, 8, 8, 8] 6881"

definition demo_pub :: b44_pub where
  "demo_pub = \<lparr>pb_pk = replicate 32 7, pb_salt = [], pb_seq = 1, pb_sig = replicate 64 7, pb_v = BStr [104, 105]\<rparr>"

definition demo_token :: "byte list" where
  "demo_token = token_make (replicate 16 1) demo_sa (pub_target demo_pub)"

definition demo_put :: "byte list" where
  "demo_put = bb_buf (put_msg (replicate 20 3) (- 1) (pb_pk demo_pub) (pb_salt demo_pub) (pb_seq demo_pub) (pb_sig demo_pub)
     demo_token (bencode (pb_v demo_pub)) 1)"

definition demo_limit :: b44_limit where
  "demo_limit = limit_init B44_BAN_RATE B44_BAN_TIME_MS"

lemma demo_admitted: "fst (ban_ok demo_limit demo_sa 1)" "fst (ban_ok (snd (ban_ok demo_limit demo_sa 1)) demo_sa 2)"
  by code_simp+

lemma demo_fresh:
  "length (replicate 20 (1 :: byte)) = 20" "en_serving demo_node" "en_s4 demo_node" "en_s6 demo_node"
  "en_limit demo_node = demo_limit" "en_store demo_node = replicate 256 None" "en_secret demo_node = (replicate 16 1, replicate 16 2)"
  by (simp_all add: demo_node_def demo_events_def b44_run_def bep44_create_def bep44_serve_def demo_limit_def limit_init_def
      store_cap_for_memory_def B44_STORE_DEFAULT_def)

lemma demo_myid: "length (en_myid demo_node) = 20"
  by (simp add: demo_node_def run_myid bep44_create_def)

lemma demo_pub_ok: "pub_ok demo_ed demo_pub" "token_valid demo_node demo_token demo_sa (pub_target demo_pub)"
  "put_welcome (store_expire demo_node 1) demo_pub (- 1)" "- 1 \<le> int INT64_MAX" "length (replicate 20 (3 :: byte)) = 20"
  "\<not> addr_martian demo_sa" "fst (ban_ok (en_limit demo_node) demo_sa 1)"
proof -
  show "pub_ok demo_ed demo_pub"
    by (simp add: pub_ok_def demo_pub_def demo_ed_def INT64_MAX_def dec_bytes_rec bstr_def)
  show "token_valid demo_node demo_token demo_sa (pub_target demo_pub)"
    by (simp add: token_valid_iff demo_token_def demo_fresh)
  have "expired_store 1 (replicate 256 None) = replicate 256 None" by (simp add: expired_store_def)
  then have st: "en_store (store_expire demo_node 1) = replicate 256 None" by (simp add: store_expire_store demo_fresh)
  have none: "lookup_item (store_expire demo_node 1) (pub_target demo_pub) = None"
  proof -
    have "store_slot_of (store_expire demo_node 1) (pub_target demo_pub) = None" unfolding slot_of_None st by auto
    then show ?thesis by (simp add: lookup_item_def)
  qed
  have "store_free_slot (store_expire demo_node 1) (pub_target demo_pub) = Some 0"
    unfolding store_free_slot_def st by (simp add: numeral_eq_Suc)
  then show "put_welcome (store_expire demo_node 1) demo_pub (- 1)" unfolding put_welcome_def none by simp
  show "\<not> addr_martian demo_sa" by (simp add: demo_sa_def)
  show "fst (ban_ok (en_limit demo_node) demo_sa 1)" by (simp add: demo_admitted demo_fresh)
qed simp_all

lemma demo_len: "length (replicate 20 (x :: byte)) = 20" by simp

theorem published_value_read_witness:
  "\<exists>e1 ack reply rdict. snd (query_handle demo_ed demo_node demo_put demo_sa 1) = (e1, [(demo_sa, ack)]) \<and>
     snd (snd (query_handle demo_ed e1 (bb_buf (get_msg (replicate 20 4) (pub_target demo_pub) 2)) demo_sa 2)) = [(demo_sa, reply)] \<and>
     benc_dict_find reply (bytes ''r'') = Some rdict \<and>
     op_best (value_check demo_ed ((op_blank (pub_target demo_pub) False 0 (Cb_get 0))\<lparr>op_pk := replicate 32 7\<rparr>) 0 demo_sa rdict) =
       Some (bencode (BStr [104, 105]), 1)"
proof -
  let ?op = "(op_blank (pub_target demo_pub) False 0 (Cb_get 0))\<lparr>op_pk := replicate 32 7\<rparr>"
  obtain mine e1 out1 where put: "query_handle demo_ed demo_node demo_put demo_sa 1 = (mine, e1, out1)" by (metis prod_cases3)
  have ok: "store_ok demo_ed demo_node" unfolding demo_node_def by (intro store_ok_run store_ok_create)
  have "en_limit e1 = snd (ban_ok demo_limit demo_sa 1)"
    using put_stored(9) [OF ok demo_myid demo_fresh(2-4) demo_pub_ok, of 1] put
    by (simp add: demo_put_def [symmetric] demo_fresh(5))
  then have admitted: "fst (ban_ok (en_limit e1) demo_sa 2)" using demo_admitted(2) by simp
  have op: "\<not> op_is_immutable ?op" "op_pk ?op = pb_pk demo_pub" "op_salt ?op = pb_salt demo_pub"
    "case op_best ?op of None \<Rightarrow> True | Some (v, seq) \<Rightarrow> seq < pb_seq demo_pub"
    by (simp_all add: op_blank_def demo_pub_def)
  have "(2 :: u64) < 1 + B44_ITEM_TTL_MS" by (simp add: B44_ITEM_TTL_MS_def)
  from published_value_read [OF demo_node_def demo_len demo_fresh(2-4) demo_pub_ok put [unfolded demo_put_def] demo_len demo_pub_ok(6)
      admitted this op, where k = 0 and peer = demo_sa and tid' = 2]
  show ?thesis using put by (auto simp: demo_pub_def)
qed

lemma demo_put_stored: "lookup_item (b44_step demo_ed demo_node (Ev_datagram demo_put demo_sa 1)) (pub_target demo_pub) = Some (pub_item demo_pub 1)"
proof -
  have ok: "store_ok demo_ed demo_node" unfolding demo_node_def by (intro store_ok_run store_ok_create)
  show ?thesis using put_stored(1) [OF ok demo_myid demo_fresh(2-4) demo_pub_ok, of 1]
    by (simp add: demo_put_def [symmetric])
qed

theorem stored_item_kept_witness:
  "item_fate (store_expire (b44_step demo_ed demo_node (Ev_datagram demo_put demo_sa 1)) 2) (pub_item demo_pub 1)
     (fst (snd (query_handle demo_ed (b44_step demo_ed demo_node (Ev_datagram demo_put demo_sa 1)) [] demo_sa 2)))"
proof (rule stored_item_kept [OF _ demo_len demo_put_stored])
  show "b44_step demo_ed demo_node (Ev_datagram demo_put demo_sa 1) =
    b44_run demo_ed (bep44_create (replicate 20 1) True True 0) (demo_events @ [Ev_datagram demo_put demo_sa 1])"
    by (simp add: demo_node_def b44_run_def)
  show "2 < it_expires_ms (pub_item demo_pub 1)" by (simp add: pub_item_def B44_ITEM_TTL_MS_def)
qed

theorem new_item_needs_token_witness:
  "\<exists>args tok secret. benc_dict_find demo_put (bytes ''a'') = Some args \<and> benc_canonical args \<and>
    Option.bind (benc_dict_find args (bytes ''token'')) benc_str_get = Some tok \<and>
    secret \<in> {fst (en_secret demo_node), snd (en_secret demo_node)} \<and>
    tok = take 8 (sha1_spec (secret @ addr_bytes demo_sa @ it_target (pub_item demo_pub 1)))"
proof (rule new_item_needs_token [OF demo_node_def refl])
  let ?e = "b44_step demo_ed demo_node (Ev_datagram demo_put demo_sa 1)"
  have "store_ok demo_ed ?e" unfolding demo_node_def by (intro store_ok_step store_ok_run store_ok_create)
  from lookup_iff [OF this] demo_put_stored
  show "Some (pub_item demo_pub 1) \<in> set (en_store (fst (snd (query_handle demo_ed demo_node demo_put demo_sa 1))))" by simp
  show "\<not> (\<exists>old. Some old \<in> set (en_store demo_node) \<and> same_item old (pub_item demo_pub 1))"
    unfolding demo_fresh(6) by auto
qed

theorem token_lives_five_minutes_witness:
  "token_valid (b44_run demo_ed demo_node [Ev_tick 5 None, Ev_datagram demo_put demo_sa 9, Ev_tick 300004 (Some (replicate 16 3))])
     (token_make (fst (en_secret demo_node)) (Sa4 [8, 8, 8, 8] 1) (pub_target demo_pub)) demo_sa (pub_target demo_pub)"
  by (rule token_lives_five_minutes [of 5]) (simp_all add: demo_sa_def)

end
