(* ===== verification/Bep44_Demo.thy ===== *)
theory Bep44_Demo
  imports Bep44_Run Bep44_Wire
begin

text \<open>
  The asking side of bep44.c at work: an engine that knows one node asks it for a key, and the node's
  answer gives the caller the value. The steps are followed through the definitions, and show the
  properties of whole runs on them.
\<close>

section \<open>The get is sent\<close>

definition demo_ask :: b44_client where
  "demo_ask = client_create (replicate 20 6) True True 0"

definition demo_sign :: "byte list \<Rightarrow> byte list \<Rightarrow> byte list option" where
  "demo_sign sk msg = None"

definition demo_sendto :: "b44_sa \<Rightarrow> byte list \<Rightarrow> bool" where
  "demo_sendto sa msg = True"

definition demo_asking :: "client_event list" where
  "demo_asking = [Cl_pin None demo_sa 0, Cl_get (pb_pk demo_pub) [] True 7 1]"

definition demo_asked :: b44_client where
  "demo_asked = client_run demo_ed demo_sign demo_sendto demo_ask demo_asking"

definition demo_op :: "b44_node_state \<Rightarrow> b44_req option \<Rightarrow> b44_op" where
  "demo_op st r = (op_blank (pub_target demo_pub) True 1 (Cb_get 7))\<lparr>op_pk := pb_pk demo_pub,
     op_nodes := [(node_new None (replicate 20 0) demo_sa)\<lparr>nd_state := st\<rparr>], op_reqs := r # replicate 47 None\<rparr>"

lemma demo_reqs: "replicate B44_REQS_MAX x = x # replicate 47 x"
  by (simp add: B44_REQS_MAX_def B44_ALPHA_V4_def B44_ALPHA_V6_def numeral_eq_Suc)

lemma fresh_not_expired:
  assumes "\<forall>r. Some r \<in> set (op_reqs op) \<longrightarrow> now - rq_sent r \<le> B44_REQ_TIMEOUT_MS"
  shows "set is \<subseteq> {..<length (op_reqs op)} \<Longrightarrow> foldl (req_expire now) op is = op"
proof (induction "is")
  case (Cons i "is")
  have "req_expire now op i = op"
  proof (cases "op_reqs op ! i")
    case (Some r)
    then have "now - rq_sent r \<le> B44_REQ_TIMEOUT_MS" using assms Cons.prems nth_mem [of i "op_reqs op"] by simp
    then show ?thesis by (simp add: req_expire_def Some not_less)
  qed (simp add: req_expire_def)
  then show ?case using Cons by simp
qed simp

lemma demo_pinned:
  "client_step demo_ed demo_sign demo_sendto demo_ask (Cl_pin None demo_sa 0) =
     (demo_ask\<lparr>cl_pinned := [seed_new None demo_sa 0]\<rparr>, [], [])"
  by (simp add: demo_ask_def client_create_def bep44_pin_add_def B44_PINNED_MAX_def)

lemma demo_created:
  "op_create (demo_ask\<lparr>cl_pinned := [seed_new None demo_sa 0]\<rparr>) (pb_pk demo_pub) [] True 1 (Cb_get 7) =
   Some (demo_op B44_NODE_FRESH None)"
  by (simp add: op_create_def op_new_def demo_ask_def client_create_def node_insert_def Let_def seed_new_def B44_NODES_MAX_def
      demo_op_def op_blank_def demo_reqs node_new_def pub_target_def demo_pub_def B44_RETAINED_MAX_def B44_SEEDS_MAX_def)

lemma demo_op_simps [simp]:
  "op_nodes (demo_op st r) = [(node_new None (replicate 20 0) demo_sa)\<lparr>nd_state := st\<rparr>]"
  "op_reqs (demo_op st r) = r # replicate 47 None" "op_phase (demo_op st r) = B44_PHASE_LOOKUP"
  "op_start_ms (demo_op st r) = 1" "\<not> op_is_put (demo_op st r)" "\<not> op_is_update (demo_op st r)" "op_direct (demo_op st r)"
  "op_cb (demo_op st r) = Cb_get 7" "op_target (demo_op st r) = pub_target demo_pub" "\<not> op_is_immutable (demo_op st r)"
  "op_pk (demo_op st r) = pb_pk demo_pub" "op_salt (demo_op st r) = pb_salt demo_pub" "op_best (demo_op st r) = None"
  "op_state (demo_op st r) 0 st' = demo_op st' r" "req_free (demo_op st r) 0 = demo_op st None"
  by (simp_all add: demo_op_def op_blank_def op_state_def req_free_def demo_pub_def)

lemma demo_sa_simps [simp]: "sa_family demo_sa = Fam_inet" "addr_eq demo_sa demo_sa"
  by (simp_all add: demo_sa_def)

abbreviation demo_req :: b44_req where
  "demo_req \<equiv> \<lparr>rq_node = 0, rq_tid = 0, rq_sent = 1\<rparr>"

lemma demo_count: "req_count (demo_op st r) P = (if r \<noteq> None \<and> P (op_nodes (demo_op st r) ! rq_node (the r)) then 1 else 0)"
  by (auto simp: req_count_def split: option.splits)

lemma demo_get_sent:
  assumes "cl_tid_seq c = 0" "en_s4 (cl_engine c)" "length (en_myid (cl_engine c)) = 20"
  shows "\<exists>msg. get_send demo_sendto c (demo_op B44_NODE_FRESH None) 0 1 =
    (True, c\<lparr>cl_tid_seq := 1\<rparr>, demo_op B44_NODE_INFLIGHT (Some demo_req), [(demo_sa, msg)])"
proof -
  let ?op = "demo_op B44_NODE_FRESH (Some demo_req)"
  have t: "length (pub_target demo_pub) = 20" by (simp add: pub_target_def target_n_spec)
  have "req_alloc c (demo_op B44_NODE_FRESH None) 0 1 = Some (0, 0, c\<lparr>cl_tid_seq := 1\<rparr>, ?op)"
    using assms(1) by (simp add: req_alloc_def) (simp add: demo_op_def)
  then show ?thesis
    using assms by (simp add: get_send_def get_msg_bytes [OF assms(3) t] req_send_def msg_send_def demo_sendto_def node_new_def del: bencode.simps)
qed

lemma demo_stepped:
  assumes "c = demo_ask\<lparr>cl_pinned := [seed_new None demo_sa 0], cl_ops := [demo_op B44_NODE_FRESH None]\<rparr>"
  shows "\<exists>c' msg. op_step demo_sign demo_sendto c (demo_op B44_NODE_FRESH None) 1 =
    (c', Some (demo_op B44_NODE_INFLIGHT (Some demo_req)), [(demo_sa, msg)], []) \<and>
    cl_ops c' = [demo_op B44_NODE_FRESH None]"
proof -
  let ?op = "demo_op B44_NODE_FRESH None"
  have exp: "foldl (req_expire 1) ?op [0..<length (op_reqs ?op)] = ?op"
    by (rule fresh_not_expired) auto
  have seq: "[0..<length (op_nodes ?op)] = [0]" by simp
  have "seed_bucket c demo_sa = Some (In_pinned 0)"
    by (simp add: assms seed_bucket_def seed_new_def)
  then have "node_budget_ok c demo_sa 1 = (True, bucket_set c (In_pinned 0) (snd (budget_take 0 1)))"
    by (simp add: node_budget_ok_def assms seed_new_def budget_take_def B44_NODE_BURST_def B44_NODE_COST_MS_def Let_def)
  moreover define c2 where "c2 = bucket_set c (In_pinned 0) (snd (budget_take 0 1))"
  ultimately have budget: "node_budget_ok c demo_sa 1 = (True, c2)" by simp
  have "cl_tid_seq c2 = 0" "en_s4 (cl_engine c2)" "length (en_myid (cl_engine c2)) = 20" "cl_ops c2 = [demo_op B44_NODE_FRESH None]"
    by (simp_all add: c2_def assms demo_ask_def client_create_def bep44_create_def)
  with demo_get_sent [of c2] obtain msg where get: "get_send demo_sendto c2 ?op 0 1 =
    (True, c2\<lparr>cl_tid_seq := 1\<rparr>, demo_op B44_NODE_INFLIGHT (Some demo_req), [(demo_sa, msg)])" "cl_ops c2 = [demo_op B44_NODE_FRESH None]"
    by blast
  have "lookup_loop demo_sendto 1 [0] 0 0 0 0 (c, ?op, []) =
    ((1, 0, 0), c2\<lparr>cl_tid_seq := 1\<rparr>, demo_op B44_NODE_INFLIGHT (Some demo_req), [(demo_sa, msg)])"
    by (simp add: Let_def node_new_def B44_ALPHA_V4_def budget get(1))
  then show ?thesis
    using get(2) unfolding op_step_def exp Let_def seq demo_count by (simp add: B44_OP_TIMEOUT_MS_def)
qed

lemma demo_asked_ops: "cl_ops demo_asked = [demo_op B44_NODE_INFLIGHT (Some demo_req)]"
proof -
  define c where "c = demo_ask\<lparr>cl_pinned := [seed_new None demo_sa 0], cl_ops := [demo_op B44_NODE_FRESH None]\<rparr>"
  have "cl_ops demo_ask = []" by (simp add: demo_ask_def client_create_def)
  then have "op_launch demo_sign demo_sendto (demo_ask\<lparr>cl_pinned := [seed_new None demo_sa 0]\<rparr>) (Some (demo_op B44_NODE_FRESH None)) 1 =
    (True, op_put_back 0 (op_step demo_sign demo_sendto c (demo_op B44_NODE_FRESH None) 1))"
    by (simp add: op_launch_def c_def)
  then show ?thesis
    using demo_stepped [OF c_def]
    by (auto simp: demo_asked_def demo_asking_def client_run_def demo_pinned get_impl_def demo_created op_put_back_def simp del: client_step.simps(9-12))
qed

section \<open>The properties of runs, on it\<close>

lemma demo_asking_ok: "list_all event_ok demo_asking"
  by (simp add: demo_asking_def)



section \<open>The answer\<close>

definition demo_answer :: "(byte list \<times> bval) list" where
  "demo_answer = item_reply (replicate 20 1) demo_pub (replicate 8 5)"

definition demo_reply :: "byte list" where
  "demo_reply = bencode (reply_dict demo_answer (tid_bytes 0))"

lemma demo_answer_ok: "bval_ok 15 (BDict demo_answer)"
  unfolding demo_answer_def by (rule item_reply_ok [OF demo_pub_ok(1)]) simp_all

lemma demo_reply_parts:
  "dict_str demo_reply ''y'' = Some (bytes ''r'')" "dict_str demo_reply ''t'' = Some (tid_bytes 0)"
  "benc_dict_find demo_reply (bytes ''r'') = Some (bencode (BDict demo_answer))"
proof -
  have "bval_ok BENC_MAX_DEPTH (reply_dict demo_answer (tid_bytes 0))"
    by (rule reply_dict_ok [OF demo_answer_ok]) (simp add: tid_bytes_def)
  then have find: "benc_dict_find demo_reply key = map_option bencode (map_of [(bytes ''r'', BDict demo_answer),
      (bytes ''t'', BStr (tid_bytes 0)), (bytes ''y'', BStr (bytes ''r''))] key)" for key
    using find_top unfolding demo_reply_def reply_dict_def by blast
  have "length (tid_bytes 0) \<le> INT64_MAX" "length (bytes ''r'') \<le> INT64_MAX" by (simp_all add: tid_bytes_def bytes_def INT64_MAX_def)
  note get = str_get_bencode [OF this(1)] str_get_bencode [OF this(2)]
  show "dict_str demo_reply ''y'' = Some (bytes ''r'')" "dict_str demo_reply ''t'' = Some (tid_bytes 0)"
    "benc_dict_find demo_reply (bytes ''r'') = Some (bencode (BDict demo_answer))"
    unfolding dict_str_def find using get by (simp_all del: bencode.simps)
qed

text \<open>The fields of the operation the finishing step looks at.\<close>

lemma demo_finishes:
  assumes "op_nodes op = [n]" "nd_state n = B44_NODE_REPLIED" "op_reqs op = replicate 48 None" "op_phase op = B44_PHASE_LOOKUP"
    "op_start_ms op = 1" "\<not> op_is_put op" "\<not> op_is_update op"
  shows "op_step demo_sign demo_sendto c op 2 = op_finish c op"
proof -
  have exp: "foldl (req_expire 2) op [0..<length (op_reqs op)] = op"
    by (rule fresh_not_expired) (auto simp: assms)
  have count: "req_count op P = 0" for P by (simp add: req_count_def assms)
  have "lookup_loop demo_sendto 2 [0..<length (op_nodes op)] 0 0 0 0 (c, op, []) = ((0, 0, 1), c, op, [])"
    by (simp add: assms Let_def)
  then show ?thesis
    using assms(4-7) unfolding op_step_def exp Let_def count by (simp add: B44_OP_TIMEOUT_MS_def op_finish_def)
qed

lemma map_update_same: "(map f xs)[k := f (xs ! k)] = map f xs"
  by (metis list_update_id map_update)

lemma value_check_frame:
  "op_reqs (value_check ed op k sa r) = op_reqs op" "op_phase (value_check ed op k sa r) = op_phase op"
  "op_start_ms (value_check ed op k sa r) = op_start_ms op" "op_is_put (value_check ed op k sa r) = op_is_put op"
  "op_is_update (value_check ed op k sa r) = op_is_update op" "op_direct (value_check ed op k sa r) = op_direct op"
  "op_cb (value_check ed op k sa r) = op_cb op"
  "map nd_state (op_nodes (value_check ed op k sa r)) = map nd_state (op_nodes op)"
  by (auto simp: value_check_def value_note_def best_set_def record_best_node_def Let_def map_update map_update_same
      split: option.splits prod.splits)

lemma value_check_node6:
  "sa_family sa \<noteq> Fam_inet6 \<Longrightarrow> op_best_node6 op = None \<Longrightarrow> op_best_node6 (value_check ed op k sa r) = None"
  by (auto simp: value_check_def value_note_def best_set_def record_best_node_def Let_def split: option.splits prod.splits)

lemma demo_answered:
  "\<exists>c' out sa. client_step demo_ed demo_sign demo_sendto demo_asked (Cl_input demo_reply demo_sa 2) =
     (c', out, [Get_done 7 (Some (bencode (pb_v demo_pub))) 1 sa])"
proof -
  let ?op = "demo_op B44_NODE_INFLIGHT (Some demo_req)"
  let ?r = "bencode (BDict demo_answer)"
  have tid: "length (tid_bytes 0) = 4" "tid_bytes 0 ! 0 = of_char (CHR ''p'')" "tid_bytes 0 ! Suc 0 = of_char (CHR ''m'')"
    "ucast (tid_bytes 0 ! 2) OR push_bit 8 (ucast (tid_bytes 0 ! 3)) = (0 :: u16)"
    by (simp_all add: tid_bytes_def)
  have m: "req_match 0 demo_sa ?op = Some 0" by (simp add: req_match_def node_new_def)
  have input: "client_step demo_ed demo_sign demo_sendto demo_asked (Cl_input demo_reply demo_sa 2) =
      op_put_back 0 (reply_handle demo_ed demo_sign demo_sendto demo_asked ?op 0 demo_reply False demo_sa 2)"
    by (simp add: bep44_input_def demo_reply_parts tid demo_asked_ops m)
  define op where "op = value_check demo_ed (token_note (demo_op B44_NODE_REPLIED None) 0 ?r) 0 demo_sa ?r"
  have tok: "\<exists>t. token_note (demo_op B44_NODE_REPLIED None) 0 ?r =
      (demo_op B44_NODE_REPLIED None)\<lparr>op_nodes := [(node_new None (replicate 20 0) demo_sa)\<lparr>nd_state := B44_NODE_REPLIED, nd_token := t\<rparr>]\<rparr>"
  proof -
    have "demo_op B44_NODE_REPLIED None = (demo_op B44_NODE_REPLIED None)\<lparr>op_nodes :=
        [(node_new None (replicate 20 0) demo_sa)\<lparr>nd_state := B44_NODE_REPLIED, nd_token := []\<rparr>]\<rparr>"
      by (simp add: demo_op_def node_new_def)
    then show ?thesis by (cases "dict_str ?r ''token''") (auto simp: token_note_def simp del: bencode.simps)
  qed
  then obtain t where t: "token_note (demo_op B44_NODE_REPLIED None) 0 ?r =
      (demo_op B44_NODE_REPLIED None)\<lparr>op_nodes := [(node_new None (replicate 20 0) demo_sa)\<lparr>nd_state := B44_NODE_REPLIED, nd_token := t\<rparr>]\<rparr>" ..
  have "map nd_state (op_nodes op) = [B44_NODE_REPLIED]" by (simp add: op_def value_check_frame t del: bencode.simps)
  then obtain n where n: "op_nodes op = [n]" "nd_state n = B44_NODE_REPLIED" by auto
  have reqs: "op_reqs op = replicate 48 None" by (simp add: op_def value_check_frame t numeral_eq_Suc del: bencode.simps)
  have rest: "op_phase op = B44_PHASE_LOOKUP" "op_start_ms op = 1" "\<not> op_is_put op" "\<not> op_is_update op" "op_direct op" "op_cb op = Cb_get 7"
    by (simp_all add: op_def value_check_frame t del: bencode.simps)
  have best: "op_best op = Some (bencode (pb_v demo_pub), pb_seq demo_pub)"
    unfolding op_def demo_answer_def
    by (rule value_check_reply [OF demo_pub_ok(1)]) (simp_all add: t [unfolded demo_answer_def] del: bencode.simps)
  have "\<exists>c. reply_handle demo_ed demo_sign demo_sendto demo_asked ?op 0 demo_reply False demo_sa 2 = op_step demo_sign demo_sendto c op 2"
    using rest(3,5) by (auto simp: reply_handle_def demo_reply_parts Let_def op_def t merge_nodes_def node_new_def value_check_frame simp del: bencode.simps)
  then obtain c where "reply_handle demo_ed demo_sign demo_sendto demo_asked ?op 0 demo_reply False demo_sa 2 = op_finish c op"
    using demo_finishes [OF n reqs rest(1-4)] by metis
  moreover have "\<exists>sa. op_calls op = [Get_done 7 (Some (bencode (pb_v demo_pub))) 1 sa]"
  proof -
    have "op_best_node6 op = None"
      unfolding op_def by (rule value_check_node6) (simp_all add: t del: bencode.simps, simp add: demo_op_def op_blank_def)
    then show ?thesis by (auto simp: op_calls_def best rest(6) Let_def demo_pub_def split: option.split simp del: bencode.simps)
  qed
  ultimately show ?thesis
    using rest(3) input by (auto simp: op_finish_def finish_node_def op_put_back_def Let_def)
qed

theorem delivered_value_authentic_witness:
  "(\<exists>sa. snd (snd (client_step demo_ed demo_sign demo_sendto demo_asked (Cl_input demo_reply demo_sa 2))) =
      [Get_done 7 (Some (bencode (pb_v demo_pub))) 1 sa]) \<and>
   (\<exists>sig. length sig = 64 \<and> demo_ed sig (pb_pk demo_pub) (sig_buffer_n 1128 [] 1 (bencode (pb_v demo_pub))))"
proof -
  obtain c' out sa where step: "client_step demo_ed demo_sign demo_sendto demo_asked (Cl_input demo_reply demo_sa 2) =
     (c', out, [Get_done 7 (Some (bencode (pb_v demo_pub))) 1 sa])" using demo_answered by blast
  have ok: "list_all event_ok (demo_asking @ [Cl_input demo_reply demo_sa 2])" using demo_asking_ok by simp
  have "Get_done 7 (Some (bencode (pb_v demo_pub))) 1 sa \<in> set [Get_done 7 (Some (bencode (pb_v demo_pub))) 1 sa]" by simp
  from delivered_value_authentic [OF ok step [unfolded demo_asked_def demo_ask_def] this] show ?thesis
    using step by (auto simp: demo_asking_def simp del: bencode.simps client_step.simps)
qed

end
