(* ===== verification/Spec2Isabelle.thy ===== *)
theory Spec2Isabelle
  imports Replay Token Rdv_Client Path_Table Path_Adopt Ctl_Pair Bencode Pathplane_Carry Netstate_Anchor
    Base64 Termfilter Nsfacts Hostreap Claimlog Bep44_Budget Bep44_Demo
begin

text \<open>
  A verification development for comrade, the peer-to-peer terminal sharing program under src/. A host
  shares a shell; a peer that was given the session token finds the host through signed values in the
  BitTorrent DHT, the two agree on a key, measure every network path between them and carry an SSH
  session over the best one. The theories model the cores that decide all this, from the C sources
  under src/src, and prove what makes them correct.

  The parts and how they interact. A token (token.c, base58.c) names the host's key and a rendezvous
  node for each address family; what a family is advertised as is decided by tokgen.c from the
  network state (netstate.c), which is fed by threads through a queue of facts (nsfacts.c,
  peering.c). The rendezvous cores (rdv.c) exchange numbered statements through DHT items, stored
  and fetched by bep44.c over bencode.c and sha1.c; keys.c seals them. Once connected, ctlproto.c
  and ctlplane.c carry control messages, among them the two halves of a key of the pair, which
  probeplane.c takes into use; path.c measures and ranks the paths, pathplane.c probes them,
  answers probes and decides which one carries; replay.c and dataauth.c guard datagrams;
  termfilter.c cleans the terminal's answers; base64.c writes text forms of secrets.

  The theories, and what each group of lemmas shows.

  \<^item> \<open>Prelude\<close>: machine types, big-endian codecs, searches in arrays, and the interfaces several
    components implement: \<open>ranking\<close> (a scan for the best entry), \<open>invariant_system\<close> (reachable states
    of a step relation) and \<open>once_filter\<close> (no number is accepted twice). \<open>Streams\<close>: the interface
    \<open>chunked\<close> of code that takes a byte stream in pieces.
  \<^item> \<open>Replay\<close> (replay.c): the window accepts no number twice and refines a set of numbers.
  \<^item> \<open>Base58\<close>, \<open>Base64\<close>, \<open>Token\<close> (base58.c, base64.c, token.c): decoding and encoding are inverse to
    each other, buffers included; a damaged token byte is caught.
  \<^item> \<open>Rdv_Msg\<close>, \<open>Rdv_Host\<close>, \<open>Rdv_Client\<close> (rdv.c): the statement's codec; the host's table and its turn
    in the cell; the claimant; and the composition of both: a claimant that asks is answered.
  \<^item> \<open>Keys\<close>, \<open>Dataauth\<close> (keys.c, dataauth.c): derivations, sealed messages, boxes and datagram tags
    over the primitives of ccrypto.h, a record of functions with named laws.
  \<^item> \<open>Path_Ep\<close>, \<open>Path_Measure\<close>, \<open>Path_Table\<close>, \<open>Path_Adopt\<close> (path.c): endpoints and probe frames;
    one path's statistics against their reference; the table, its invariant, eviction and
    selection; the budget for probes of unknown sources.
  \<^item> \<open>Probeplane\<close>, \<open>Pathplane\<close>, \<open>Pathplane_Probe\<close>, \<open>Pathplane_Carry\<close> (probeplane.c, pathplane.c,
    peering.c): which key seals and opens; the probe round and its answers; that only an authentic
    answer to its own question qualifies a path; that each carrier is given back exactly once.
  \<^item> \<open>Ctlproto\<close>, \<open>Ctlplane\<close>, \<open>Ctl_Pair\<close> (ctlproto.c, ctlplane.c, hbeat.c): framing of a stream cut
    anywhere; every control message; and two planes with channels between them: no end seals under
    a key the other cannot open, and the exchange completes.
  \<^item> \<open>Netstate\<close>, \<open>Netstate_View\<close>, \<open>Netstate_Anchor\<close>, \<open>Nsfacts\<close> (netstate.c, tokgen.c, nsfacts.c): the
    network state refines five facts for each family, keeps a confirmed rendezvous node, and learns of
    every end of a round.
  \<^item> \<open>Bencode\<close>, \<open>Sha1\<close>, \<open>Termfilter\<close> (bencode.c, sha1.c, termfilter.c): the canonical test accepts
    exactly the encodings; the digest is the standard's; the filter changes size reports only.
  \<^item> \<open>Hostreap\<close>, \<open>Claimlog\<close> (hostreap.c, claimlog.c): when a host gives a client up, and how it tells a
    repeated claim from a new attempt.
  \<^item> \<open>Bep44_Ban\<close>, \<open>Bep44_Flood\<close> (bep44.c): the limiter on queries; who can be refused and for how long.
  \<^item> \<open>Bep44_Store\<close>, \<open>Bep44_Items\<close> (bep44.c): the storing node; its items are authentic, kept, and
    written with a token only.
  \<^item> \<open>Bep44_Op\<close>, \<open>Bep44_Client\<close>, \<open>Bep44_Run\<close>, \<open>Bep44_Budget\<close> (bep44.c): the operations of the asking
    side, their invariant over whole runs, that values handed out are authentic and operations end,
    and that the budget for a node held stays below the limiter of the storing side.
  \<^item> \<open>Bep44_Wire\<close>, \<open>Bep44_Demo\<close>: both sides on the wire, message by message, up to the theorem that a
    value one peer publishes is the value another reads; and a run of the asking side in full.

  How the code is modelled. A structure is a record, an enumeration a datatype, an unsigned integer a
  word of its width; counters the code never wraps in practice (rounds, lengths) are naturals
  where a theory says so. A pointer into an array is an index. An operation returns the state it
  changes, with the datagrams it sends and the callbacks it makes as lists in order; a failure
  is \<open>None\<close>, a sum or the code's own value. A section under a lock is one step, and where the
  source unlocks in between there are two. Loops are structural recursion or folds over the
  array's indices, so every definition is total and there is no fuel; the only bounds are the
  code's own constants. Time, random bytes, what \<open>sendto\<close> returned and the cryptographic primitives
  are arguments.

  Not modelled: session.c, sig.c, dhtnode.c, stunprobe.c and the rest of peering.c, which poll
  sockets, run threads and call the cores above; sandboxing, process and pseudo-terminal
  handling, the user interface, the SSH, ICE and KCP bindings, and the cryptographic back ends,
  which are calls of the operating system or of libraries outside the repository; the ICE
  candidate text of candpack.c and candpolicy.c; qrcodegen.c, a third-party generator;
  debug output and the freeing of memory.
\<close>

end
